(* ===== verification/Prelude.thy ===== *)
theory Prelude
  imports Main "HOL-Library.Word"
begin

text \<open>
  Shared vocabulary of the development.

  \<^item> Machine integers: \<open>u8\<close>, \<open>u32\<close>, \<open>u64\<close> are words of the source's width; \<open>checked_add\<close>,
    \<open>saturating_add\<close>, \<open>saturating_sub\<close> and \<open>saturating_mul\<close> are the Rust operations of the
    same names. The collection \<open>rust_arith\<close> moves statements about them to natural numbers.
    A \<open>usize\<close> (the length of something in memory) is a \<open>nat\<close>.
  \<^item> Results: \<open>outcome\<close> is Rust's \<open>Result\<close> with a third case for a panic. An operation on
    \<open>&mut self\<close> returns the new state beside its outcome, also on an error, so that what a failed
    call leaves behind is part of the model. \<open>and_then\<close> is the \<open>?\<close> operator on such a pair.
  \<^item> Lists: \<open>retain\<close> and the facts on filtered queues that several components share.
\<close>

named_theorems rust_arith \<open>fixed-width arithmetic, read as arithmetic on natural numbers\<close>

section \<open>Machine integers\<close>

type_synonym u8 = "8 word"
type_synonym u32 = "32 word"
type_synonym u64 = "64 word"
type_synonym bytes = "u8 list"

abbreviation u64_max :: u64 where
  "u64_max \<equiv> - 1"

definition checked_add :: "'a::len word \<Rightarrow> 'a word \<Rightarrow> 'a word option" where
  "checked_add a b = (if unat a + unat b < 2 ^ LENGTH('a) then Some (a + b) else None)"

definition saturating_add :: "'a::len word \<Rightarrow> 'a word \<Rightarrow> 'a word" where
  "saturating_add a b = (if unat a + unat b < 2 ^ LENGTH('a) then a + b else - 1)"

definition saturating_sub :: "'a::len word \<Rightarrow> 'a word \<Rightarrow> 'a word" where
  "saturating_sub a b = (if b \<le> a then a - b else 0)"

definition checked_sub :: "'a::len word \<Rightarrow> 'a word \<Rightarrow> 'a word option" where
  "checked_sub a b = (if b \<le> a then Some (a - b) else None)"

definition saturating_mul :: "'a::len word \<Rightarrow> 'a word \<Rightarrow> 'a word" where
  "saturating_mul a b = (if unat a * unat b < 2 ^ LENGTH('a) then a * b else - 1)"

lemma unat_minus_1: "unat (- 1 :: 'a::len word) = 2 ^ LENGTH('a) - 1"
  by (simp add: unsigned_minus_1_eq_mask mask_eq_exp_minus_1)

lemma unat_u64_max [rust_arith]: "unat u64_max = 2 ^ 64 - 1"
  by (simp add: unat_minus_1)

lemma unat_le_max: "unat (w :: 'a::len word) \<le> 2 ^ LENGTH('a) - 1"
proof -
  have "unat w < 2 ^ LENGTH('a)" by (rule unsigned_less)
  then show ?thesis by linarith
qed

lemma u64_bound: "unat (w :: u64) < 18446744073709551616"
  using unsigned_less [of w] by simp

lemma le_u64D: "n \<le> unat (w :: u64) \<Longrightarrow> n < 18446744073709551616"
  using u64_bound [of w] by linarith

lemma checked_add_Some_iff [rust_arith]:
  "checked_add a b = Some c \<longleftrightarrow> unat c = unat a + unat (b :: 'a::len word)"
proof
  assume "checked_add a b = Some c"
  then show "unat c = unat a + unat b"
    by (auto simp: checked_add_def unat_word_ariths split: if_splits)
next
  assume c: "unat c = unat a + unat b"
  then have "unat a + unat b < 2 ^ LENGTH('a)"
    by (metis unsigned_less)
  moreover from this c have "c = a + b"
    by (simp add: word_unat_eq_iff unat_word_ariths)
  ultimately show "checked_add a b = Some c"
    by (simp add: checked_add_def)
qed

lemma checked_add_None_iff [rust_arith]:
  "checked_add a b = None \<longleftrightarrow> 2 ^ LENGTH('a) \<le> unat a + unat (b :: 'a::len word)"
  by (simp add: checked_add_def)

lemma unat_saturating_add [rust_arith]:
  "unat (saturating_add a b) = min (unat a + unat b) (2 ^ LENGTH('a) - 1)"
  for a b :: "'a::len word"
  by (auto simp: saturating_add_def unat_word_ariths unat_minus_1)

lemma unat_saturating_sub [rust_arith]: "unat (saturating_sub a b) = unat a - unat b"
  by (auto simp: saturating_sub_def unat_sub word_le_nat_alt)

lemma unat_saturating_mul [rust_arith]:
  "unat (saturating_mul a b) = min (unat a * unat b) (2 ^ LENGTH('a) - 1)"
  for a b :: "'a::len word"
  by (auto simp: saturating_mul_def unat_word_ariths unat_minus_1)

lemma checked_sub_Some_iff [rust_arith]:
  "checked_sub a b = Some c \<longleftrightarrow> unat b \<le> unat a \<and> unat c = unat a - unat b"
  by (auto simp: checked_sub_def word_le_nat_alt unat_sub word_unat_eq_iff)

lemma checked_sub_None_iff [rust_arith]: "checked_sub a b = None \<longleftrightarrow> unat a < unat b"
  by (auto simp: checked_sub_def word_le_nat_alt)

lemma saturating_sub_le: "saturating_sub a b \<le> a"
  by (simp add: word_le_nat_alt unat_saturating_sub)

lemma le_saturating_add: "a \<le> saturating_add a b"
  using unat_le_max[of a] by (simp add: word_le_nat_alt unat_saturating_add)

text \<open>The cast \<open>len as u64\<close> of a length: a Rust \<open>Vec\<close> never holds more than \<open>isize::MAX\<close> bytes,
  and the models compare lengths before they cast.\<close>

abbreviation len64 :: "'x list \<Rightarrow> u64" where
  "len64 xs \<equiv> of_nat (length xs)"

lemma unat_of_nat_small [rust_arith]:
  "n < 2 ^ LENGTH('a) \<Longrightarrow> unat (of_nat n :: 'a::len word) = n"
  by (simp add: unat_of_nat)

section \<open>Results and the question-mark operator\<close>

datatype ('e, 'a) outcome = Ok 'a | Err 'e | Panic

fun and_then :: "'s \<times> ('e, 'a) outcome \<Rightarrow> ('s \<Rightarrow> 'a \<Rightarrow> 's \<times> ('e, 'b) outcome)
    \<Rightarrow> 's \<times> ('e, 'b) outcome" where
  "and_then (s, Ok a) k = k s a"
| "and_then (s, Err e) k = (s, Err e)"
| "and_then (s, Panic) k = (s, Panic)"

fun bind_oc :: "('e, 'a) outcome \<Rightarrow> ('a \<Rightarrow> ('e, 'b) outcome) \<Rightarrow> ('e, 'b) outcome" where
  "bind_oc (Ok a) k = k a"
| "bind_oc (Err e) k = Err e"
| "bind_oc Panic k = Panic"

definition ok_or :: "'a option \<Rightarrow> 'e \<Rightarrow> ('e, 'a) outcome" where
  "ok_or x e = (case x of None \<Rightarrow> Err e | Some a \<Rightarrow> Ok a)"

text \<open>The \<open>?\<close> operator inside a state-changing function: a pure sub-result is inspected in the
  current state, and an error returns with that state.\<close>

definition try_in :: "'s \<Rightarrow> ('e, 'a) outcome \<Rightarrow> ('a \<Rightarrow> 's \<times> ('e, 'b) outcome)
    \<Rightarrow> 's \<times> ('e, 'b) outcome" where
  "try_in s r k = and_then (s, r) (\<lambda>_. k)"

lemma try_in_simps [simp]:
  "try_in s (Ok a) k = k a"
  "try_in s (Err e) k = (s, Err e)"
  "try_in s Panic k = (s, Panic)"
  by (simp_all add: try_in_def)

lemma ok_or_simps [simp]: "ok_or (Some a) e = Ok a" "ok_or None e = Err e"
  by (simp_all add: ok_or_def)

lemma ok_or_eq_Ok [simp]: "ok_or x e = Ok a \<longleftrightarrow> x = Some a"
  by (simp add: ok_or_def split: option.splits)

lemma ok_or_eq_Err [simp]: "ok_or x e = Err e' \<longleftrightarrow> x = None \<and> e' = e"
  by (auto simp: ok_or_def split: option.splits)

lemma ok_or_not_Panic [simp]: "ok_or x e \<noteq> Panic"
  by (simp add: ok_or_def split: option.splits)

lemma and_then_Ok: "and_then p k = (s', Ok b) \<longleftrightarrow> (\<exists>s a. p = (s, Ok a) \<and> k s a = (s', Ok b))"
  by (cases "(p, k)" rule: and_then.cases) auto

lemma try_in_Ok: "try_in s r k = (s', Ok b) \<longleftrightarrow> (\<exists>a. r = Ok a \<and> k a = (s', Ok b))"
  by (cases r) auto

lemma try_in_Err: "try_in s r k = (s', Err e)
    \<longleftrightarrow> (r = Err e \<and> s' = s) \<or> (\<exists>a. r = Ok a \<and> k a = (s', Err e))"
  by (cases r) auto

lemma bind_oc_Ok: "bind_oc r k = Ok b \<longleftrightarrow> (\<exists>a. r = Ok a \<and> k a = Ok b)"
  by (cases r) auto

text \<open>Calls with different result types, made calls of one system by mapping their results.\<close>

fun map_ok :: "('a \<Rightarrow> 'b) \<Rightarrow> 's \<times> ('e, 'a) outcome \<Rightarrow> 's \<times> ('e, 'b) outcome" where
  "map_ok f (s, Ok a) = (s, Ok (f a))"
| "map_ok f (s, Err e) = (s, Err e)"
| "map_ok f (s, Panic) = (s, Panic)"

lemma fst_map_ok [simp]: "fst (map_ok f x) = fst x"
  by (cases "(f, x)" rule: map_ok.cases) auto

lemma map_ok_eq [simp]:
  "map_ok f x = (s, Err e) \<longleftrightarrow> x = (s, Err e)"
  "map_ok f x = (s, Panic) \<longleftrightarrow> x = (s, Panic)"
  "map_ok f x = (s, Ok v) \<longleftrightarrow> (\<exists>a. x = (s, Ok a) \<and> v = f a)"
  by (cases "(f, x)" rule: map_ok.cases; auto)+

lemma snd_map_ok_Panic [simp]: "snd (map_ok f x) = Panic \<longleftrightarrow> snd x = Panic"
  by (cases "(f, x)" rule: map_ok.cases) auto

section \<open>Queues\<close>

abbreviation retain :: "('a \<Rightarrow> bool) \<Rightarrow> 'a list \<Rightarrow> 'a list" where
  "retain P xs \<equiv> filter P xs"

lemma retain_absent [simp]: "x \<notin> set xs \<Longrightarrow> retain (\<lambda>y. y \<noteq> x) xs = xs"
  by (induction xs) auto

lemma distinct_snoc [simp]: "distinct (xs @ [x]) \<longleftrightarrow> distinct xs \<and> x \<notin> set xs"
  by auto

lemma set_retain_neq [simp]: "set (retain (\<lambda>y. y \<noteq> x) xs) = set xs - {x}"
  by auto

section \<open>Text\<close>

definition starts_with :: "string \<Rightarrow> string \<Rightarrow> bool" where
  "starts_with s prefix \<longleftrightarrow> take (length prefix) s = prefix"

lemma starts_with_append [simp]: "starts_with (p @ s) p"
  by (simp add: starts_with_def)


fun decimal :: "nat \<Rightarrow> string" where
  "decimal n = (if n < 10 then [char_of (48 + n)] else decimal (n div 10) @ [char_of (48 + n mod 10)])"

declare decimal.simps [simp del]

section \<open>Sequences of operations\<close>

text \<open>A component is driven by a sequence of calls; each returns the next state and a result. An
  invariant that one call keeps holds after every sequence, and a quantity that one call never
  lowers never falls.\<close>

fun run_ops :: "('s \<Rightarrow> 'op \<Rightarrow> 's \<times> 'r) \<Rightarrow> 's \<Rightarrow> 'op list \<Rightarrow> 's" where
  "run_ops run s [] = s"
| "run_ops run s (op # ops) = run_ops run (fst (run s op)) ops"

lemma run_ops_append [simp]: "run_ops run s (xs @ ys) = run_ops run (run_ops run s xs) ys"
  by (induction xs arbitrary: s) simp_all

fun run_results :: "('s \<Rightarrow> 'op \<Rightarrow> 's \<times> 'r) \<Rightarrow> 's \<Rightarrow> 'op list \<Rightarrow> 'r list" where
  "run_results run s [] = []"
| "run_results run s (op # ops) = snd (run s op) # run_results run (fst (run s op)) ops"

locale op_system =
  fixes run :: "'s \<Rightarrow> 'op \<Rightarrow> 's \<times> 'r"
    and inv :: "'s \<Rightarrow> bool"
  assumes run_inv: "inv s \<Longrightarrow> inv (fst (run s op))"
begin

lemma run_ops_inv: "inv s \<Longrightarrow> inv (run_ops run s ops)"
  by (induction ops arbitrary: s) (auto intro: run_inv)

lemma run_results_inv:
  assumes "\<And>s op. inv s \<Longrightarrow> Q (snd (run s op))" "inv s" "r \<in> set (run_results run s ops)"
  shows "Q r"
  using assms(2,3)
proof (induction ops arbitrary: s)
  case (Cons op ops)
  then show ?case using assms(1) run_inv [OF Cons.prems(1), of op] by auto
qed simp

lemma run_ops_mono:
  assumes "\<And>s op. inv s \<Longrightarrow> m s \<le> (m (fst (run s op)) :: 'm::preorder)" "inv s"
  shows "m s \<le> m (run_ops run s ops)"
  using assms(2)
proof (induction ops arbitrary: s)
  case (Cons op ops)
  have "m s \<le> m (fst (run s op))" by (rule assms(1) [OF Cons.prems])
  also have "\<dots> \<le> m (run_ops run (fst (run s op)) ops)"
    by (rule Cons.IH) (rule run_inv [OF Cons.prems])
  finally show ?case by simp
qed simp

end

end
