(* ===== verification/Ordered_Map.thy ===== *)
theory Ordered_Map
  imports Prelude
begin

text \<open>
  The model of Rust's \<open>BTreeMap\<close>: a finite map whose entries are visited in key order. A value is
  an association list with strictly increasing keys, kept as a type of its own so that every
  component can rely on the order without carrying an invariant. \<open>om_lookup\<close>, \<open>om_insert\<close>,
  \<open>om_remove\<close>, \<open>om_retain\<close> and \<open>om_entries\<close> are \<open>get\<close>, \<open>insert\<close>, \<open>remove\<close>, \<open>retain\<close> and \<open>iter\<close>;
  \<open>om_size\<close> is \<open>len\<close>.
\<close>

section \<open>Sorted association lists\<close>

abbreviation sorted_keys :: "('k::linorder \<times> 'v) list \<Rightarrow> bool" where
  "sorted_keys xs \<equiv> sorted_wrt (<) (map fst xs)"

fun al_insert :: "'k::linorder \<Rightarrow> 'v \<Rightarrow> ('k \<times> 'v) list \<Rightarrow> ('k \<times> 'v) list" where
  "al_insert k v [] = [(k, v)]"
| "al_insert k v ((k', v') # xs) =
     (if k < k' then (k, v) # (k', v') # xs
      else if k = k' then (k, v) # xs
      else (k', v') # al_insert k v xs)"

lemma keys_al_insert [simp]: "fst ` set (al_insert k v xs) = insert k (fst ` set xs)"
  by (induction k v xs rule: al_insert.induct) (auto simp: insert_commute)

lemma sorted_al_insert: "sorted_keys xs \<Longrightarrow> sorted_keys (al_insert k v xs)"
proof (induction k v xs rule: al_insert.induct)
  case (2 k v k' v' xs)
  then show ?case
    by (cases "k < k'"; cases "k = k'") (auto intro: less_trans simp: image_iff)
qed simp

lemma map_of_al_insert: "map_of (al_insert k v xs) = (map_of xs)(k \<mapsto> v)"
  by (induction xs) (auto simp: fun_eq_iff)

lemma sorted_keys_filter: "sorted_keys xs \<Longrightarrow> sorted_keys (filter P xs)"
  by (induction xs) auto

lemma sorted_keys_distinct: "sorted_keys xs \<Longrightarrow> distinct (map fst xs)"
  using strict_sorted_iff by blast

lemma map_of_filter_sorted:
  "sorted_keys xs \<Longrightarrow> map_of (filter P xs) k
     = (case map_of xs k of None \<Rightarrow> None | Some v \<Rightarrow> if P (k, v) then Some v else None)"
proof (induction xs)
  case (Cons x xs)
  then have "k = fst x \<Longrightarrow> map_of xs k = None"
    by (force simp: map_of_eq_None_iff)
  with Cons show ?case by (cases x) (auto split: option.splits)
qed simp

lemma map_of_map_snd:
  "map_of (map (\<lambda>(k, v). (k, f k v)) xs) k = map_option (f k) (map_of xs k)"
  by (induction xs) auto

lemma sorted_keys_set: "sorted_keys xs \<Longrightarrow> set xs = {(k, v). map_of xs k = Some v}"
  by (auto simp: sorted_keys_distinct)

lemma sorted_keys_ext:
  assumes xs: "sorted_keys xs" and ys: "sorted_keys ys" and eq: "map_of xs = map_of ys"
  shows "xs = ys"
proof -
  have set_eq: "set xs = set ys"
    using xs ys eq by (simp add: sorted_keys_set)
  then have "set (map fst xs) = set (map fst ys)" by simp
  with xs ys have "map fst xs = map fst ys"
    by (simp add: strict_sorted_equal)
  moreover have "inj_on fst (set xs \<union> set ys)"
    using sorted_keys_distinct [OF xs] set_eq by (simp add: distinct_map)
  ultimately show ?thesis by (rule map_inj_on)
qed

section \<open>The type of ordered maps\<close>

typedef (overloaded) ('k::linorder, 'v) omap = "{xs :: ('k \<times> 'v) list. sorted_keys xs}"
  morphisms om_entries Abs_omap
  by (rule exI [of _ "[]"]) simp

setup_lifting type_definition_omap

lift_definition om_empty :: "('k::linorder, 'v) omap" is "[]" by simp

lift_definition om_lookup :: "('k::linorder, 'v) omap \<Rightarrow> 'k \<Rightarrow> 'v option" is map_of .

lift_definition om_insert :: "'k::linorder \<Rightarrow> 'v \<Rightarrow> ('k, 'v) omap \<Rightarrow> ('k, 'v) omap"
  is al_insert by (rule sorted_al_insert)

lift_definition om_retain :: "('k::linorder \<Rightarrow> 'v \<Rightarrow> bool) \<Rightarrow> ('k, 'v) omap \<Rightarrow> ('k, 'v) omap"
  is "\<lambda>P. filter (\<lambda>(k, v). P k v)" by (rule sorted_keys_filter)

lift_definition om_map :: "('k::linorder \<Rightarrow> 'v \<Rightarrow> 'w) \<Rightarrow> ('k, 'v) omap \<Rightarrow> ('k, 'w) omap"
  is "\<lambda>f. map (\<lambda>(k, v). (k, f k v))" by (simp add: comp_def case_prod_beta)

definition om_remove :: "'k::linorder \<Rightarrow> ('k, 'v) omap \<Rightarrow> ('k, 'v) omap" where
  "om_remove k m = om_retain (\<lambda>k' _. k' \<noteq> k) m"

definition om_keys :: "('k::linorder, 'v) omap \<Rightarrow> 'k list" where
  "om_keys m = map fst (om_entries m)"

definition om_values :: "('k::linorder, 'v) omap \<Rightarrow> 'v list" where
  "om_values m = map snd (om_entries m)"

definition om_size :: "('k::linorder, 'v) omap \<Rightarrow> nat" where
  "om_size m = length (om_entries m)"

definition om_update :: "'k::linorder \<Rightarrow> ('v \<Rightarrow> 'v) \<Rightarrow> ('k, 'v) omap \<Rightarrow> ('k, 'v) omap" where
  \<comment> \<open>\<open>if let Some(v) = map.get_mut(k) { *v = f(v) }\<close>\<close>
  "om_update k f m = (case om_lookup m k of None \<Rightarrow> m | Some v \<Rightarrow> om_insert k (f v) m)"

abbreviation om_contains :: "('k::linorder, 'v) omap \<Rightarrow> 'k \<Rightarrow> bool" where
  "om_contains m k \<equiv> om_lookup m k \<noteq> None"

section \<open>Laws\<close>

lemma om_lookup_empty [simp]: "om_lookup om_empty k = None"
  by transfer simp

lemma om_lookup_insert: "om_lookup (om_insert k v m) k' = (if k' = k then Some v else om_lookup m k')"
  by transfer (simp add: map_of_al_insert)

lemma om_lookup_insert_same [simp]: "om_lookup (om_insert k v m) k = Some v"
  by (simp add: om_lookup_insert)

lemma om_lookup_insert_other [simp]: "k' \<noteq> k \<Longrightarrow> om_lookup (om_insert k v m) k' = om_lookup m k'"
  by (simp add: om_lookup_insert)

lemma om_lookup_retain: "om_lookup (om_retain P m) k
    = (case om_lookup m k of None \<Rightarrow> None | Some v \<Rightarrow> if P k v then Some v else None)"
  by transfer (simp add: map_of_filter_sorted split: option.splits)

lemma om_lookup_remove: "om_lookup (om_remove k m) k' = (if k' = k then None else om_lookup m k')"
  by (simp add: om_remove_def om_lookup_retain split: option.splits)

lemma om_lookup_remove_same [simp]: "om_lookup (om_remove k m) k = None"
  by (simp add: om_lookup_remove)

lemma om_lookup_remove_other [simp]: "k' \<noteq> k \<Longrightarrow> om_lookup (om_remove k m) k' = om_lookup m k'"
  by (simp add: om_lookup_remove)

lemma om_lookup_map [simp]: "om_lookup (om_map f m) k = map_option (f k) (om_lookup m k)"
  by transfer (simp add: map_of_map_snd)

lemma om_lookup_update: "om_lookup (om_update k f m) k'
    = (if k' = k then map_option f (om_lookup m k) else om_lookup m k')"
  by (simp add: om_update_def om_lookup_insert split: option.splits)

lemma om_eqI: "(\<And>k. om_lookup m k = om_lookup m' k) \<Longrightarrow> m = m'"
  by transfer (auto intro: sorted_keys_ext)

lemma om_update_absent [simp]: "om_lookup m k = None \<Longrightarrow> om_update k f m = m"
  by (simp add: om_update_def)

lemma om_remove_absent [simp]: "om_lookup m k = None \<Longrightarrow> om_remove k m = m"
  by (rule om_eqI) (auto simp: om_lookup_remove)

lemma om_insert_insert [simp]: "om_insert k v (om_insert k w m) = om_insert k v m"
  by (rule om_eqI) (simp add: om_lookup_insert)

lemma om_remove_insert [simp]: "om_remove k (om_insert k v m) = om_remove k m"
  by (rule om_eqI) (simp add: om_lookup_insert om_lookup_remove)

lemma om_insert_same [simp]: "om_lookup m k = Some v \<Longrightarrow> om_insert k v m = m"
  by (rule om_eqI) (simp add: om_lookup_insert)

lemma om_in_entries: "(k, v) \<in> set (om_entries m) \<longleftrightarrow> om_lookup m k = Some v"
  by transfer (simp add: sorted_keys_distinct)

lemma om_sorted: "sorted_wrt (<) (om_keys m)"
  unfolding om_keys_def by transfer

lemma om_distinct [simp]: "distinct (om_keys m)"
  using om_sorted strict_sorted_iff by blast

lemma om_set_keys: "set (om_keys m) = {k. om_lookup m k \<noteq> None}"
  unfolding om_keys_def using om_in_entries[of _ _ m] by force

lemma om_set_values: "set (om_values m) = {v. \<exists>k. om_lookup m k = Some v}"
  unfolding om_values_def using om_in_entries[of _ _ m] by force

lemma om_entries_empty [simp]: "om_entries om_empty = []"
  by (rule om_empty.rep_eq)

lemma om_entries_retain: "om_entries (om_retain P m) = filter (\<lambda>(k, v). P k v) (om_entries m)"
  by (rule om_retain.rep_eq)

lemma om_distinct_entries: "distinct (om_entries m)"
  using om_distinct unfolding om_keys_def by (auto simp: distinct_map)

lemma om_size_card: "om_size m = card {k. om_lookup m k \<noteq> None}"
proof -
  have "om_size m = length (om_keys m)" by (simp add: om_size_def om_keys_def)
  also have "\<dots> = card (set (om_keys m))" by (simp add: distinct_card)
  finally show ?thesis by (simp only: om_set_keys)
qed

lemma om_finite: "finite {k. om_lookup m k \<noteq> None}"
  unfolding om_set_keys [symmetric] by (rule finite_set)

lemma om_finite_dom [simp]: "finite {k. \<exists>v. om_lookup m k = Some v}"
  using om_finite[of m] by simp

lemma om_size_empty [simp]: "om_size om_empty = 0"
  by (simp add: om_size_def)

lemma om_size_insert: "om_size (om_insert k v m)
    = (if om_lookup m k = None then Suc (om_size m) else om_size m)"
proof -
  have "{k'. om_lookup (om_insert k v m) k' \<noteq> None} = insert k {k'. om_lookup m k' \<noteq> None}"
    by (auto simp: om_lookup_insert)
  then show ?thesis
    by (auto simp: om_size_card card_insert_if om_finite simp del: not_None_eq)
qed

lemma om_size_remove: "om_size (om_remove k m)
    = (if om_lookup m k = None then om_size m else om_size m - 1)"
proof -
  have "{k'. om_lookup (om_remove k m) k' \<noteq> None} = {k'. om_lookup m k' \<noteq> None} - {k}"
    by (auto simp: om_lookup_remove)
  then show ?thesis
    by (simp add: om_size_card card_Diff_singleton_if del: not_None_eq)
qed

lemma om_size_update [simp]: "om_size (om_update k f m) = om_size m"
  by (simp add: om_update_def om_size_insert split: option.splits)

lemma om_size_map [simp]: "om_size (om_map f m) = om_size m"
  by (simp add: om_size_def om_map.rep_eq)

lemma om_size_retain_le: "om_size (om_retain P m) \<le> om_size m"
  by (simp add: om_size_def om_entries_retain)

lemma om_size_mono:
  "(\<And>k. om_lookup m' k \<noteq> None \<Longrightarrow> om_lookup m k \<noteq> None) \<Longrightarrow> om_size m' \<le> om_size m"
  unfolding om_size_card by (rule card_mono) (auto simp del: not_None_eq simp: om_finite)

lemma om_lookup_fold_remove:
  "om_lookup (fold om_remove ks m) k = (if k \<in> set ks then None else om_lookup m k)"
  by (induction ks arbitrary: m) (auto simp: om_lookup_remove)

lemma om_size_partition: "om_size (om_retain P m)
    + length (filter (\<lambda>(k, v). \<not> P k v) (om_entries m)) = om_size m"
  using sum_length_filter_compl [of "\<lambda>(k, v). P k v" "om_entries m"]
  by (simp add: om_size_def om_entries_retain case_prod_unfold)

text \<open>A downward closed set of keys is a prefix of the entries.\<close>

lemma sorted_keys_prefix:
  assumes "sorted_keys xs" "\<And>a b. a < b \<Longrightarrow> P b \<Longrightarrow> P a"
  shows "xs = filter (\<lambda>(k, _). P k) xs @ filter (\<lambda>(k, _). \<not> P k) xs"
  using assms(1)
proof (induction xs)
  case (Cons x xs)
  show ?case
  proof (cases "P (fst x)")
    case False
    then have "\<forall>y\<in>set xs. \<not> P (fst y)" using Cons.prems assms(2) by fastforce
    then show ?thesis using False by (auto simp: filter_empty_conv case_prod_unfold)
  qed (use Cons in \<open>auto simp: case_prod_unfold\<close>)
qed simp

lemma om_entries_prefix:
  assumes "\<And>a b. a < b \<Longrightarrow> P b \<Longrightarrow> P a"
  shows "om_entries m = filter (\<lambda>(k, _). P k) (om_entries m) @ filter (\<lambda>(k, _). \<not> P k) (om_entries m)"
  using om_sorted [of m] assms unfolding om_keys_def by (rule sorted_keys_prefix)

section \<open>How often a value occurs\<close>

definition om_count :: "('k::linorder, 'v) omap \<Rightarrow> 'v \<Rightarrow> nat" where
  "om_count m v = count_list (om_values m) v"

lemma om_count_card: "om_count m v = card {k. om_lookup m k = Some v}"
proof -
  have "om_count m v = length (filter (\<lambda>x. snd x = v) (om_entries m))"
    by (simp add: om_count_def om_values_def count_list_eq_length_filter filter_map comp_def eq_commute)
  also have "\<dots> = card (set (filter (\<lambda>x. snd x = v) (om_entries m)))"
    by (rule distinct_card [symmetric]) (simp add: om_distinct_entries)
  also have "set (filter (\<lambda>x. snd x = v) (om_entries m)) = (\<lambda>k. (k, v)) ` {k. om_lookup m k = Some v}"
    by (auto simp: om_in_entries image_iff)
  also have "card \<dots> = card {k. om_lookup m k = Some v}"
    by (rule card_image) (simp add: inj_on_def)
  finally show ?thesis .
qed

lemma om_count_remove: "om_count m v = om_count (om_remove k m) v + (if om_lookup m k = Some v then 1 else 0)"
proof -
  have fin: "finite {k. om_lookup m k = Some v}" by (rule finite_subset [OF _ om_finite [of m]]) auto
  have "{k'. om_lookup (om_remove k m) k' = Some v} = {k. om_lookup m k = Some v} - {k}"
    by (auto simp: om_lookup_remove)
  then show ?thesis using fin by (simp add: om_count_card card_Diff_singleton_if card_gt_0_iff) (metis Suc_pred card_gt_0_iff empty_iff mem_Collect_eq)
qed

lemma om_count_insert: "om_count (om_insert k v m) w = om_count (om_remove k m) w + (if w = v then 1 else 0)"
  using om_count_remove [of "om_insert k v m" w k] by auto

lemma om_count_pos: "om_lookup m k = Some v \<Longrightarrow> 0 < om_count m v"
  using om_count_remove [of m v k] by simp

lemma om_count_empty [simp]: "om_count om_empty v = 0"
  by (simp add: om_count_def om_values_def)

section \<open>Total weight\<close>

definition om_weight :: "('k::linorder \<Rightarrow> 'v \<Rightarrow> nat) \<Rightarrow> ('k, 'v) omap \<Rightarrow> nat" where
  "om_weight f m = sum_list (map (\<lambda>(k, v). f k v) (om_entries m))"

lemma om_weight_split: "om_weight f m = om_weight f (om_retain P m) + om_weight f (om_retain (\<lambda>k v. \<not> P k v) m)"
proof -
  have "sum_list (map g xs) = sum_list (map g (filter Q xs)) + sum_list (map g (filter (\<lambda>x. \<not> Q x) xs))" for g :: "_ \<Rightarrow> nat" and Q xs
    by (induction xs) simp_all
  from this [of _ "om_entries m" "\<lambda>(k, v). P k v"] show ?thesis
    by (simp add: om_weight_def om_entries_retain case_prod_unfold)
qed

lemma om_weight_empty [simp]: "om_weight f om_empty = 0"
  by (simp add: om_weight_def)

lemma om_weight_singleton: "om_weight f (om_insert k v om_empty) = f k v"
  unfolding om_weight_def by transfer simp

lemma om_weight_remove: "om_weight f m = om_weight f (om_remove k m) + (case om_lookup m k of None \<Rightarrow> 0 | Some v \<Rightarrow> f k v)"
proof -
  have "om_retain (\<lambda>k' v. \<not> k' \<noteq> k) m = (case om_lookup m k of None \<Rightarrow> om_empty | Some v \<Rightarrow> om_insert k v om_empty)"
    by (rule om_eqI) (auto simp: om_lookup_retain om_lookup_insert split: option.split)
  then show ?thesis
    using om_weight_split [of f m "\<lambda>k' v. k' \<noteq> k"]
    by (simp add: om_remove_def om_weight_singleton split: option.split)
qed

lemma om_weight_insert: "om_weight f (om_insert k v m) = om_weight f (om_remove k m) + f k v"
  using om_weight_remove [of f "om_insert k v m" k] by simp

end
