(* ===== verification/Resources.thy ===== *)
theory Resources
  imports Ordered_Map
begin

text \<open>
  The resource meter of \<open>src/src/resources.rs\<close>: CPU fuel, a modelled working set and an output
  guardrail, each a \<open>u64\<close> counter under a limit, and a stop reason that ends the machine.

  \<open>charge_cpu\<close>, \<open>reserve_memory\<close> and \<open>charge_output\<close> share one contract, the locale \<open>meter\<close>: a
  charge succeeds exactly when it fits, a refused charge stops the machine, and a stopped machine
  refuses every charge. The invariant \<open>res_inv\<close> (no counter above its limit, the peak above the
  current working set, one usage entry per command) holds in every reachable state.
\<close>

section \<open>State\<close>

record limits =
  lim_cpu :: u64
  lim_memory :: u64
  lim_disk :: u64
  lim_output :: u64

definition unlimited :: limits where
  "unlimited = \<lparr>lim_cpu = u64_max, lim_memory = u64_max, lim_disk = u64_max, lim_output = u64_max\<rparr>"

definition default_limits :: limits where
  "default_limits = \<lparr>lim_cpu = 100000000, lim_memory = 64 * 1024 * 1024,
     lim_disk = 64 * 1024 * 1024, lim_output = 4 * 1024 * 1024\<rparr>"

datatype stop_reason = CpuExhausted | MemoryExhausted | OutputLimitExceeded

fun stop_exit_status :: "stop_reason \<Rightarrow> int" where
  "stop_exit_status _ = 137"

record usage =
  u_cpu_used :: u64
  u_memory_current :: u64
  u_memory_peak :: u64
  u_disk_current :: u64
  u_disk_peak :: u64
  u_output_bytes :: u64

text \<open>\<open>disk_delta\<close> is an \<open>i64\<close>, kept as a 64-bit word read through \<open>sint\<close>.\<close>

record command_usage =
  cu_command :: string
  cu_cpu :: u64
  cu_disk_delta :: u64

record run_outcome =
  ro_exit_status :: int
  ro_interrupted :: bool
  ro_stop_reason :: "stop_reason option"
  ro_limits :: limits
  ro_usage :: usage
  ro_command_usage :: "command_usage list"
  ro_cost_model_version :: u32

record resources =
  res_limits :: limits
  cpu_used :: u64
  memory_current :: u64
  memory_peak :: u64
  output_bytes :: u64
  stop_reason :: "stop_reason option"
  command_usages :: "command_usage list"

definition new_resources :: "limits \<Rightarrow> resources" where
  "new_resources l = \<lparr>res_limits = l, cpu_used = 0, memory_current = 0, memory_peak = 0,
     output_bytes = 0, stop_reason = None, command_usages = []\<rparr>"

section \<open>Operations\<close>

definition is_stopped :: "resources \<Rightarrow> bool" where
  "is_stopped r \<longleftrightarrow> stop_reason r \<noteq> None"

definition charge_cpu :: "resources \<Rightarrow> u64 \<Rightarrow> resources \<times> bool" where
  "charge_cpu r units =
     (if is_stopped r then (r, False)
      else case checked_add (cpu_used r) units of
        None \<Rightarrow> (r\<lparr>cpu_used := lim_cpu (res_limits r), stop_reason := Some CpuExhausted\<rparr>, False)
      | Some nxt \<Rightarrow>
          if nxt > lim_cpu (res_limits r)
          then (r\<lparr>cpu_used := lim_cpu (res_limits r), stop_reason := Some CpuExhausted\<rparr>, False)
          else (r\<lparr>cpu_used := nxt\<rparr>, True))"

definition reserve_memory :: "resources \<Rightarrow> u64 \<Rightarrow> resources \<times> bool" where
  "reserve_memory r n =
     (if is_stopped r then (r, False)
      else case checked_add (memory_current r) n of
        None \<Rightarrow> (r\<lparr>stop_reason := Some MemoryExhausted\<rparr>, False)
      | Some nxt \<Rightarrow>
          if nxt > lim_memory (res_limits r)
          then (r\<lparr>stop_reason := Some MemoryExhausted\<rparr>, False)
          else (r\<lparr>memory_current := nxt, memory_peak := max (memory_peak r) nxt\<rparr>, True))"

definition memory_mark :: "resources \<Rightarrow> u64" where
  "memory_mark r = memory_current r"

definition memory_remaining :: "resources \<Rightarrow> u64" where
  "memory_remaining r = saturating_sub (lim_memory (res_limits r)) (memory_current r)"

definition restore_memory :: "resources \<Rightarrow> u64 \<Rightarrow> resources" where
  "restore_memory r mark = r\<lparr>memory_current := min mark (memory_current r)\<rparr>"

definition release_memory :: "resources \<Rightarrow> u64 \<Rightarrow> resources" where
  "release_memory r n = r\<lparr>memory_current := saturating_sub (memory_current r) n\<rparr>"

definition charge_output :: "resources \<Rightarrow> u64 \<Rightarrow> resources \<times> bool" where
  "charge_output r n =
     (if is_stopped r then (r, False)
      else case checked_add (output_bytes r) n of
        None \<Rightarrow> (r\<lparr>stop_reason := Some OutputLimitExceeded\<rparr>, False)
      | Some nxt \<Rightarrow>
          if nxt > lim_output (res_limits r)
          then (r\<lparr>output_bytes := lim_output (res_limits r),
                  stop_reason := Some OutputLimitExceeded\<rparr>, False)
          else (r\<lparr>output_bytes := nxt\<rparr>, True))"

definition output_remaining :: "resources \<Rightarrow> u64" where
  "output_remaining r = saturating_sub (lim_output (res_limits r)) (output_bytes r)"

definition cpu_remaining :: "resources \<Rightarrow> u64" where
  "cpu_remaining r = saturating_sub (lim_cpu (res_limits r)) (cpu_used r)"

definition process_time_ns :: "resources \<Rightarrow> u64" where
  "process_time_ns r = saturating_mul (cpu_used r) 1000"

text \<open>\<open>i64::saturating_add\<close>; the difference of two \<open>u64\<close>, computed in \<open>i128\<close> and cast to \<open>i64\<close>, is
  the difference of the words.\<close>

definition saturating_add_i64 :: "u64 \<Rightarrow> u64 \<Rightarrow> u64" where
  "saturating_add_i64 a b = word_of_int (max (- (2 ^ 63)) (min (2 ^ 63 - 1) (sint a + sint b)))"

fun add_command_usage :: "command_usage list \<Rightarrow> string \<Rightarrow> u64 \<Rightarrow> u64 \<Rightarrow> command_usage list" where
  "add_command_usage [] name cpu delta =
     [\<lparr>cu_command = name, cu_cpu = cpu, cu_disk_delta = delta\<rparr>]"
| "add_command_usage (u # us) name cpu delta =
     (if cu_command u = name
      then u\<lparr>cu_cpu := saturating_add (cu_cpu u) cpu,
             cu_disk_delta := saturating_add_i64 (cu_disk_delta u) delta\<rparr> # us
      else u # add_command_usage us name cpu delta)"

definition record_command :: "resources \<Rightarrow> string \<Rightarrow> u64 \<Rightarrow> u64 \<Rightarrow> u64 \<Rightarrow> resources" where
  "record_command r name cpu_before disk_before disk_after =
     r\<lparr>command_usages := add_command_usage (command_usages r) name
         (saturating_sub (cpu_used r) cpu_before) (disk_after - disk_before)\<rparr>"

definition outcome_of :: "resources \<Rightarrow> int \<Rightarrow> u64 \<Rightarrow> u64 \<Rightarrow> run_outcome" where
  "outcome_of r exit_status disk_current disk_peak =
     \<lparr>ro_exit_status = (case stop_reason r of None \<Rightarrow> exit_status | Some s \<Rightarrow> stop_exit_status s),
      ro_interrupted = False, ro_stop_reason = stop_reason r, ro_limits = res_limits r,
      ro_usage = \<lparr>u_cpu_used = cpu_used r, u_memory_current = memory_current r,
        u_memory_peak = memory_peak r, u_disk_current = disk_current, u_disk_peak = disk_peak,
        u_output_bytes = output_bytes r\<rparr>,
      ro_command_usage = command_usages r, ro_cost_model_version = 2\<rparr>"

section \<open>The contract of a meter\<close>

text \<open>Charging a list of amounts in turn, stopping at the first refusal.\<close>

fun run_charges :: "('r \<Rightarrow> u64 \<Rightarrow> 'r \<times> bool) \<Rightarrow> 'r \<Rightarrow> u64 list \<Rightarrow> 'r \<times> bool" where
  "run_charges charge r [] = (r, True)"
| "run_charges charge r (n # ns) =
     (case charge r n of (r', True) \<Rightarrow> run_charges charge r' ns | (r', False) \<Rightarrow> (r', False))"

definition total :: "u64 list \<Rightarrow> nat" where
  "total ns = sum_list (map unat ns)"

lemma total_simps [simp]: "total [] = 0" "total (n # ns) = unat n + total ns"
  by (simp_all add: total_def)

locale meter =
  fixes charge :: "'r \<Rightarrow> u64 \<Rightarrow> 'r \<times> bool"
    and used :: "'r \<Rightarrow> u64"
    and limit :: "'r \<Rightarrow> u64"
    and stopped :: "'r \<Rightarrow> bool"
  assumes charge_fits: "\<not> stopped r \<Longrightarrow> unat (used r) + unat n \<le> unat (limit r) \<Longrightarrow>
      snd (charge r n) \<and> unat (used (fst (charge r n))) = unat (used r) + unat n
        \<and> \<not> stopped (fst (charge r n))"
    and charge_exceeds: "\<not> stopped r \<Longrightarrow> unat (limit r) < unat (used r) + unat n \<Longrightarrow>
      \<not> snd (charge r n) \<and> stopped (fst (charge r n))"
    and charge_stopped: "stopped r \<Longrightarrow> charge r n = (r, False)"
    and charge_limit: "limit (fst (charge r n)) = limit r"
begin

lemma charge_result: "snd (charge r n) \<longleftrightarrow>
    \<not> stopped r \<and> unat (used r) + unat n \<le> unat (limit r)"
  using charge_fits charge_exceeds charge_stopped
  by (cases "stopped r"; cases "unat (used r) + unat n \<le> unat (limit r)") auto

lemma run_charges_fits:
  assumes "\<not> stopped r" "unat (used r) + total ns \<le> unat (limit r)"
  shows "\<exists>r'. run_charges charge r ns = (r', True) \<and> \<not> stopped r'
    \<and> unat (used r') = unat (used r) + total ns"
  using assms
proof (induction ns arbitrary: r)
  case (Cons n ns)
  obtain r1 b where c: "charge r n = (r1, b)" by fastforce
  from Cons.prems charge_fits [of r n] c have "b" "\<not> stopped r1"
      "unat (used r1) = unat (used r) + unat n" by auto
  moreover have "limit r1 = limit r" using charge_limit [of r n] c by simp
  ultimately show ?case using Cons.IH [of r1] Cons.prems c by auto
qed simp

lemma run_charges_exceeds:
  assumes "\<not> stopped r" "unat (used r) \<le> unat (limit r)"
    "unat (limit r) < unat (used r) + total ns"
  shows "\<exists>r'. run_charges charge r ns = (r', False) \<and> stopped r'"
  using assms
proof (induction ns arbitrary: r)
  case (Cons n ns)
  obtain r1 b where c: "charge r n = (r1, b)" by fastforce
  have l: "limit r1 = limit r" using charge_limit [of r n] c by simp
  show ?case
  proof (cases "unat (used r) + unat n \<le> unat (limit r)")
    case True
    with Cons.prems charge_fits [of r n] c
    have "b" "\<not> stopped r1" "unat (used r1) = unat (used r) + unat n" by auto
    then show ?thesis using Cons.IH [of r1] Cons.prems True c l by auto
  next
    case False
    then show ?thesis using charge_exceeds [of r n] Cons.prems c by auto
  qed
qed simp

lemma run_charges_iff:
  assumes "unat (used r) \<le> unat (limit r)"
  shows "snd (run_charges charge r ns) \<longleftrightarrow>
    ns = [] \<or> (\<not> stopped r \<and> unat (used r) + total ns \<le> unat (limit r))"
proof (cases "stopped r")
  case True
  then show ?thesis by (cases ns) (auto simp: charge_stopped)
next
  case False
  then show ?thesis
    using run_charges_fits [of r ns] run_charges_exceeds [of r ns] assms
    by (cases "unat (used r) + total ns \<le> unat (limit r)") auto
qed

end

lemmas charge_defs = charge_cpu_def reserve_memory_def charge_output_def is_stopped_def

interpretation cpu: meter charge_cpu cpu_used "\<lambda>r. lim_cpu (res_limits r)" is_stopped
  by unfold_locales
    (auto simp: charge_defs rust_arith word_less_nat_alt split: option.splits if_splits dest: le_u64D)

interpretation mem: meter reserve_memory memory_current "\<lambda>r. lim_memory (res_limits r)" is_stopped
  by unfold_locales
    (auto simp: charge_defs rust_arith word_less_nat_alt split: option.splits if_splits dest: le_u64D)

interpretation out: meter charge_output output_bytes "\<lambda>r. lim_output (res_limits r)" is_stopped
  by unfold_locales
    (auto simp: charge_defs rust_arith word_less_nat_alt split: option.splits if_splits dest: le_u64D)

section \<open>Reachable states\<close>

text \<open>One rule per operation that changes the meter.\<close>

inductive res_step :: "resources \<Rightarrow> resources \<Rightarrow> bool" where
  step_charge_cpu: "res_step r (fst (charge_cpu r n))"
| step_reserve: "res_step r (fst (reserve_memory r n))"
| step_restore: "res_step r (restore_memory r n)"
| step_release: "res_step r (release_memory r n)"
| step_output: "res_step r (fst (charge_output r n))"
| step_record: "res_step r (record_command r name c b a)"

inductive res_reachable :: "limits \<Rightarrow> resources \<Rightarrow> bool" for l where
  res_start: "res_reachable l (new_resources l)"
| res_more: "res_reachable l r \<Longrightarrow> res_step r r' \<Longrightarrow> res_reachable l r'"

definition res_inv :: "resources \<Rightarrow> bool" where
  "res_inv r \<longleftrightarrow> cpu_used r \<le> lim_cpu (res_limits r) \<and> output_bytes r \<le> lim_output (res_limits r)
     \<and> memory_current r \<le> memory_peak r \<and> memory_peak r \<le> lim_memory (res_limits r)
     \<and> distinct (map cu_command (command_usages r))"

lemmas res_op_defs = charge_defs restore_memory_def release_memory_def record_command_def

lemma commands_add_command_usage:
  "set (map cu_command (add_command_usage us name c d)) = insert name (set (map cu_command us))"
  by (induction us name c d rule: add_command_usage.induct) auto

lemma distinct_add_command_usage:
  "distinct (map cu_command us) \<Longrightarrow> distinct (map cu_command (add_command_usage us name c d))"
proof (induction us name c d rule: add_command_usage.induct)
  case (2 u us name c d)
  then show ?case using commands_add_command_usage [of us name c d] by auto
qed simp

lemma max_le_wordI: "(a :: u64) \<le> l \<Longrightarrow> b \<le> l \<Longrightarrow> max a b \<le> l"
  by simp

lemma res_step_inv: "res_step r r' \<Longrightarrow> res_inv r \<Longrightarrow> res_inv r'"
  by (induction rule: res_step.induct)
    (auto simp: res_inv_def res_op_defs distinct_add_command_usage not_less
      split: option.splits if_splits
      intro: max_le_wordI order_trans [OF saturating_sub_le] min.coboundedI2 simp flip: set_map simp del: set_map)

lemma res_step_limits: "res_step r r' \<Longrightarrow> res_limits r' = res_limits r"
  by (induction rule: res_step.induct) (auto simp: res_op_defs split: option.splits)

lemma res_reachable_inv: "res_reachable l r \<Longrightarrow> res_inv r \<and> res_limits r = l"
proof (induction rule: res_reachable.induct)
  case res_start
  show ?case by (simp add: res_inv_def new_resources_def)
next
  case (res_more r r')
  then show ?case using res_step_inv res_step_limits by auto
qed

lemma res_step_stopped:
  assumes "res_step r r'" "stop_reason r = Some why"
  shows "stop_reason r' = Some why \<and> cpu_used r' = cpu_used r \<and> output_bytes r' = output_bytes r
    \<and> memory_peak r' = memory_peak r \<and> memory_current r' \<le> memory_current r"
  using assms
  by (induction rule: res_step.induct) (auto simp: res_op_defs intro: saturating_sub_le)

section \<open>Properties\<close>

text \<open>C11. In every state a metered machine can reach, no counter exceeds its limit: CPU fuel, output
  bytes and the peak working set stay within the configured limits, and the peak dominates the
  current working set.\<close>

theorem usage_within_limits:
  assumes "res_reachable l r"
  shows "cpu_used r \<le> lim_cpu l \<and> output_bytes r \<le> lim_output l
    \<and> memory_current r \<le> memory_peak r \<and> memory_peak r \<le> lim_memory l"
  using res_reachable_inv [OF assms] by (auto simp: res_inv_def)

theorem usage_within_limits_witness:
  "let r = fst (charge_output (fst (charge_cpu (new_resources default_limits) 6)) 5000000)
   in cpu_used r = 6 \<and> output_bytes r \<le> lim_output default_limits
      \<and> stop_reason r = Some OutputLimitExceeded"
proof -
  let ?r = "fst (charge_output (fst (charge_cpu (new_resources default_limits) 6)) 5000000)"
  have "res_reachable default_limits ?r"
    by (rule res_more [OF res_more [OF res_start step_charge_cpu] step_output])
  from usage_within_limits [OF this] show ?thesis
    by (simp add: charge_defs new_resources_def default_limits_def checked_add_def Let_def)
qed

text \<open>A sequence of CPU charges is admitted exactly when its exact sum fits into the fuel that is
  left; the fuel used then grows by that sum. No rounding, overflow or order of the charges
  changes the answer.\<close>

theorem cpu_charges_exact:
  assumes "res_reachable l r" "\<not> is_stopped r"
  shows "(snd (run_charges charge_cpu r ns) \<longleftrightarrow> unat (cpu_used r) + total ns \<le> unat (lim_cpu l))
    \<and> (snd (run_charges charge_cpu r ns) \<longrightarrow>
         unat (cpu_used (fst (run_charges charge_cpu r ns))) = unat (cpu_used r) + total ns)"
proof -
  have lim: "res_limits r = l" and le: "unat (cpu_used r) \<le> unat (lim_cpu l)"
    using res_reachable_inv [OF assms(1)] by (auto simp: res_inv_def word_le_nat_alt)
  show ?thesis
    using cpu.run_charges_fits [of r ns] cpu.run_charges_exceeds [of r ns] assms(2) le
    by (cases "unat (cpu_used r) + total ns \<le> unat (lim_cpu l)") (auto simp: lim)
qed

theorem cpu_charges_exact_witness:
  "\<not> snd (run_charges charge_cpu (new_resources (unlimited\<lparr>lim_cpu := 10\<rparr>)) [6, 5])
   \<and> snd (run_charges charge_cpu (new_resources (unlimited\<lparr>lim_cpu := 10\<rparr>)) [6, 4])"
  using cpu_charges_exact [OF res_start, of "unlimited\<lparr>lim_cpu := 10\<rparr>" "[6, 5]"]
    cpu_charges_exact [OF res_start, of "unlimited\<lparr>lim_cpu := 10\<rparr>" "[6, 4]"]
  by (simp add: new_resources_def is_stopped_def)

text \<open>C12. Exhaustion is final: once a stop reason is set, no sequence of meter operations clears or
  replaces it, consumes more fuel or output, or enlarges the working set, and the reported exit
  status is 137.\<close>

theorem exhaustion_is_final:
  assumes "res_step\<^sup>*\<^sup>* r r'" "stop_reason r = Some why"
  shows "stop_reason r' = Some why \<and> cpu_used r' = cpu_used r \<and> output_bytes r' = output_bytes r
    \<and> memory_peak r' = memory_peak r \<and> memory_current r' \<le> memory_current r
    \<and> ro_exit_status (outcome_of r' status used peak) = 137"
proof -
  have "stop_reason r' = Some why \<and> cpu_used r' = cpu_used r \<and> output_bytes r' = output_bytes r
    \<and> memory_peak r' = memory_peak r \<and> memory_current r' \<le> memory_current r"
    using assms
    by (induction rule: rtranclp_induct) (auto dest!: res_step_stopped)
  then show ?thesis by (simp add: outcome_of_def)
qed

theorem exhaustion_is_final_witness:
  "let r = fst (charge_cpu (new_resources (unlimited\<lparr>lim_cpu := 3\<rparr>)) 4);
       r' = fst (reserve_memory (fst (charge_cpu r 1)) 1)
   in stop_reason r' = Some CpuExhausted \<and> cpu_used r' = 3
      \<and> ro_exit_status (outcome_of r' 0 0 0) = 137"
proof -
  let ?r = "fst (charge_cpu (new_resources (unlimited\<lparr>lim_cpu := 3\<rparr>)) 4)"
  let ?r' = "fst (reserve_memory (fst (charge_cpu ?r 1)) 1)"
  have stop: "stop_reason ?r = Some CpuExhausted" "cpu_used ?r = 3"
    by (simp_all add: charge_cpu_def is_stopped_def new_resources_def checked_add_def)
  have "res_step\<^sup>*\<^sup>* ?r ?r'"
    by (rule rtranclp_trans [OF r_into_rtranclp [where r = res_step, OF step_charge_cpu]
          r_into_rtranclp [where r = res_step, OF step_reserve]])
  from exhaustion_is_final [OF this stop(1), of 0 0 0] stop(2) show ?thesis
    by (simp add: Let_def)
qed

end
