(* ===== verification/Scheduler.thy ===== *)
theory Scheduler
  imports Ordered_Map
begin

text \<open>
  The cooperative task scheduler of \<open>src/src/scheduler.rs\<close>: a map from process id to task state,
  the FIFO queue of runnable tasks, the queue of blocked tasks in blocking order, and the running
  task. Every operation is a function from the scheduler to the scheduler and its \<open>Result\<close>; the
  \<open>expect\<close> inside the wake loops is a \<open>Panic\<close>.

  \<open>sched_inv\<close> says how the queues and the task states agree. Every operation keeps it, and
  under it errors leave the scheduler unchanged, wakes are never lost and never panic, and a
  runnable task is dispatched before every task queued after it.
\<close>

section \<open>Wait conditions\<close>

type_synonym pid = u32

datatype wait_reason =
    ShellSession pid
  | Timer u64
  | InputReadable u32
  | PipeReadable u32
  | PipeWritable u32
  | FileLock u64
  | HostHttp u64
  | Child pid
  | ChildActivity pid
  | ChildDeadline pid u64
  | ChildActivityDeadline pid u64
  | Any "wait_reason list"

fun accepts :: "wait_reason \<Rightarrow> wait_reason \<Rightarrow> bool" where
  "accepts (Any rs) w = list_ex (\<lambda>r. accepts r w) rs"
| "accepts r w = (r = w)"

fun accepts_timer :: "wait_reason \<Rightarrow> u64 \<Rightarrow> bool" where
  "accepts_timer (Timer d) t = (d = t)"
| "accepts_timer (ChildDeadline _ d) t = (d = t)"
| "accepts_timer (ChildActivityDeadline _ d) t = (d = t)"
| "accepts_timer (Any rs) t = list_ex (\<lambda>r. accepts_timer r t) rs"
| "accepts_timer _ t = False"

fun waits_for_child :: "wait_reason \<Rightarrow> pid \<Rightarrow> bool" where
  "waits_for_child (Child p) c = (p = c)"
| "waits_for_child (ChildDeadline p _) c = (p = c)"
| "waits_for_child (Any rs) c = list_ex (\<lambda>r. waits_for_child r c) rs"
| "waits_for_child _ c = False"

fun waits_for_child_activity :: "wait_reason \<Rightarrow> pid \<Rightarrow> bool" where
  "waits_for_child_activity (ChildActivity p) c = (p = c)"
| "waits_for_child_activity (ChildActivityDeadline p _) c = (p = c)"
| "waits_for_child_activity (Any rs) c = list_ex (\<lambda>r. waits_for_child_activity r c) rs"
| "waits_for_child_activity _ c = False"

fun has_timer :: "wait_reason \<Rightarrow> bool" where
  "has_timer (Timer _) = True"
| "has_timer (Any rs) = list_ex has_timer rs"
| "has_timer _ = False"

fun contains_lock :: "wait_reason \<Rightarrow> bool" where
  "contains_lock (FileLock _) = True"
| "contains_lock (Any rs) = list_ex contains_lock rs"
| "contains_lock _ = False"

section \<open>Scheduler state\<close>

datatype stopped_task = StoppedRunnable | StoppedBlocked wait_reason

datatype task_state =
    Runnable
  | Running
  | Blocked wait_reason
  | Stopped stopped_task
  | Exited int

datatype scheduler_error =
    Capacity
  | DuplicateTask
  | UnknownTask
  | NoRunningTask
  | TaskAlreadyRunning
  | InvalidTransition

record scheduler =
  states :: "(pid, task_state) omap"
  runnable :: "pid list"
  blocked :: "pid list"
  current :: "pid option"

definition MAX_TASKS :: nat where
  "MAX_TASKS = 1024"

type_synonym 'a sched_result = "scheduler \<times> (scheduler_error, 'a) outcome"

abbreviation task :: "scheduler \<Rightarrow> pid \<Rightarrow> task_state option" where
  "task s p \<equiv> om_lookup (states s) p"

definition new_scheduler :: "pid \<Rightarrow> scheduler" where
  "new_scheduler root = \<lparr>states = om_insert root Running om_empty, runnable = [], blocked = [],
     current = Some root\<rparr>"

section \<open>Operations\<close>

definition spawn_task :: "scheduler \<Rightarrow> pid \<Rightarrow> unit sched_result" where
  "spawn_task s p =
     (if om_contains (states s) p then (s, Err DuplicateTask)
      else if MAX_TASKS \<le> om_size (states s) then (s, Err Capacity)
      else (s\<lparr>states := om_insert p Runnable (states s), runnable := runnable s @ [p]\<rparr>, Ok ()))"

definition park_runnable :: "scheduler \<Rightarrow> pid \<Rightarrow> wait_reason \<Rightarrow> unit sched_result" where
  "park_runnable s p reason =
     (if task s p \<noteq> Some Runnable then (s, Err InvalidTransition)
      else (s\<lparr>runnable := retain (\<lambda>q. q \<noteq> p) (runnable s),
              states := om_insert p (Blocked reason) (states s),
              blocked := blocked s @ [p]\<rparr>, Ok ()))"

definition dispatch_pid :: "scheduler \<Rightarrow> pid \<Rightarrow> unit sched_result" where
  "dispatch_pid s p =
     (if current s \<noteq> None then (s, Err TaskAlreadyRunning)
      else if task s p \<noteq> Some Runnable then (s, Err InvalidTransition)
      else (s\<lparr>runnable := retain (\<lambda>q. q \<noteq> p) (runnable s),
              states := om_insert p Running (states s), current := Some p\<rparr>, Ok ()))"

definition yield_current :: "scheduler \<Rightarrow> pid sched_result" where
  "yield_current s = (case current s of
       None \<Rightarrow> (s, Err NoRunningTask)
     | Some p \<Rightarrow> (s\<lparr>current := None, states := om_insert p Runnable (states s),
                    runnable := runnable s @ [p]\<rparr>, Ok p))"

definition block_current :: "scheduler \<Rightarrow> wait_reason \<Rightarrow> pid sched_result" where
  "block_current s reason = (case current s of
       None \<Rightarrow> (s, Err NoRunningTask)
     | Some p \<Rightarrow> (s\<lparr>current := None, states := om_insert p (Blocked reason) (states s),
                    blocked := blocked s @ [p]\<rparr>, Ok p))"

definition exit_current :: "scheduler \<Rightarrow> int \<Rightarrow> pid sched_result" where
  "exit_current s status = (case current s of
       None \<Rightarrow> (s, Err NoRunningTask)
     | Some p \<Rightarrow> (s\<lparr>current := None, states := om_insert p (Exited status) (states s)\<rparr>, Ok p))"

definition wake :: "scheduler \<Rightarrow> pid \<Rightarrow> unit sched_result" where
  "wake s p = (case task s p of
       Some (Blocked _) \<Rightarrow>
         (s\<lparr>states := om_insert p Runnable (states s),
            blocked := retain (\<lambda>q. q \<noteq> p) (blocked s),
            runnable := runnable s @ [p]\<rparr>, Ok ())
     | Some Runnable \<Rightarrow> (s, Ok ())
     | Some (Stopped (StoppedBlocked _)) \<Rightarrow>
         (s\<lparr>blocked := retain (\<lambda>q. q \<noteq> p) (blocked s),
            states := om_insert p (Stopped StoppedRunnable) (states s)\<rparr>, Ok ())
     | Some (Stopped StoppedRunnable) \<Rightarrow> (s, Ok ())
     | Some Running \<Rightarrow> (s, Err InvalidTransition)
     | Some (Exited _) \<Rightarrow> (s, Err InvalidTransition)
     | None \<Rightarrow> (s, Err UnknownTask))"

definition stop_task :: "scheduler \<Rightarrow> pid \<Rightarrow> unit sched_result" where
  "stop_task s p = (case task s p of
       Some Runnable \<Rightarrow>
         (s\<lparr>runnable := retain (\<lambda>q. q \<noteq> p) (runnable s),
            states := om_insert p (Stopped StoppedRunnable) (states s)\<rparr>, Ok ())
     | Some Running \<Rightarrow>
         (if current s = Some p
          then (s\<lparr>current := None, states := om_insert p (Stopped StoppedRunnable) (states s)\<rparr>, Ok ())
          else (s, Err InvalidTransition))
     | Some (Blocked reason) \<Rightarrow>
         (s\<lparr>states := om_insert p (Stopped (StoppedBlocked reason)) (states s)\<rparr>, Ok ())
     | Some (Stopped _) \<Rightarrow> (s, Ok ())
     | Some (Exited _) \<Rightarrow> (s, Err InvalidTransition)
     | None \<Rightarrow> (s, Err UnknownTask))"

definition continue_task :: "scheduler \<Rightarrow> pid \<Rightarrow> unit sched_result" where
  "continue_task s p = (case task s p of
       Some (Stopped StoppedRunnable) \<Rightarrow>
         (s\<lparr>states := om_insert p Runnable (states s), runnable := runnable s @ [p]\<rparr>, Ok ())
     | Some (Stopped (StoppedBlocked reason)) \<Rightarrow>
         (s\<lparr>states := om_insert p (Blocked reason) (states s)\<rparr>, Ok ())
     | Some (Exited _) \<Rightarrow> (s, Err InvalidTransition)
     | Some _ \<Rightarrow> (s, Ok ())
     | None \<Rightarrow> (s, Err UnknownTask))"

definition blocked_reason :: "task_state option \<Rightarrow> wait_reason option" where
  "blocked_reason t = (case t of
       Some (Blocked r) \<Rightarrow> Some r
     | Some (Stopped (StoppedBlocked r)) \<Rightarrow> Some r
     | _ \<Rightarrow> None)"

definition waiters :: "scheduler \<Rightarrow> (wait_reason \<Rightarrow> bool) \<Rightarrow> pid list" where
  "waiters s P = filter (\<lambda>p. case blocked_reason (task s p) of Some r \<Rightarrow> P r | None \<Rightarrow> False)
     (blocked s)"

fun wake_each :: "scheduler \<Rightarrow> pid list \<Rightarrow> unit sched_result" where
  "wake_each s [] = (s, Ok ())"
| "wake_each s (p # ps) = (case wake s p of
       (s', Ok _) \<Rightarrow> wake_each s' ps
     | (s', _) \<Rightarrow> (s', Panic))"

definition wake_waiters :: "scheduler \<Rightarrow> wait_reason \<Rightarrow> nat sched_result" where
  "wake_waiters s reason =
     (let waiting = waiters s (\<lambda>r. accepts r reason)
      in and_then (wake_each s waiting) (\<lambda>s' _. (s', Ok (length waiting))))"

definition wake_matching :: "scheduler \<Rightarrow> (wait_reason \<Rightarrow> bool) \<Rightarrow> nat sched_result" where
  "wake_matching s P =
     (let waiting = waiters s P
      in and_then (wake_each s waiting) (\<lambda>s' _. (s', Ok (length waiting))))"

definition wake_child_waiters :: "scheduler \<Rightarrow> pid \<Rightarrow> nat sched_result" where
  "wake_child_waiters s c = wake_matching s (\<lambda>r. waits_for_child r c)"

definition wake_child_activity_waiters :: "scheduler \<Rightarrow> pid \<Rightarrow> nat sched_result" where
  "wake_child_activity_waiters s c = wake_matching s (\<lambda>r. waits_for_child_activity r c)"

definition wake_file_lock_waiters :: "scheduler \<Rightarrow> nat sched_result" where
  "wake_file_lock_waiters s = wake_matching s contains_lock"

definition dispatch :: "scheduler \<Rightarrow> pid option sched_result" where
  "dispatch s =
     (if current s \<noteq> None then (s, Err TaskAlreadyRunning)
      else case runnable s of
        [] \<Rightarrow> (s, Ok None)
      | p # rest \<Rightarrow>
          let s' = s\<lparr>runnable := rest\<rparr>
          in case task s' p of
               None \<Rightarrow> (s', Err UnknownTask)
             | Some t \<Rightarrow>
                 if t \<noteq> Runnable then (s', Err InvalidTransition)
                 else (s'\<lparr>states := om_insert p Running (states s'), current := Some p\<rparr>,
                       Ok (Some p)))"

definition has_runnable :: "scheduler \<Rightarrow> bool" where
  "has_runnable s \<longleftrightarrow> runnable s \<noteq> []"

definition timer_waiters :: "scheduler \<Rightarrow> pid list" where
  "timer_waiters s = waiters s has_timer"

definition reap_task :: "scheduler \<Rightarrow> pid \<Rightarrow> int sched_result" where
  "reap_task s p = (case task s p of
       Some (Exited status) \<Rightarrow> (s\<lparr>states := om_remove p (states s)\<rparr>, Ok status)
     | Some _ \<Rightarrow> (s, Err InvalidTransition)
     | None \<Rightarrow> (s, Err UnknownTask))"

definition discard_runnable :: "scheduler \<Rightarrow> pid \<Rightarrow> unit sched_result" where
  "discard_runnable s p =
     (if task s p \<noteq> Some Runnable then (s, Err InvalidTransition)
      else (s\<lparr>states := om_remove p (states s),
              runnable := retain (\<lambda>q. q \<noteq> p) (runnable s)\<rparr>, Ok ()))"

section \<open>The scheduler invariant\<close>

definition sched_inv :: "scheduler \<Rightarrow> bool" where
  "sched_inv s \<longleftrightarrow> distinct (runnable s) \<and> distinct (blocked s)
     \<and> (\<forall>p. p \<in> set (runnable s) \<longleftrightarrow> task s p = Some Runnable)
     \<and> (\<forall>p. p \<in> set (blocked s) \<longleftrightarrow> blocked_reason (task s p) \<noteq> None)
     \<and> (\<forall>p. current s = Some p \<longleftrightarrow> task s p = Some Running)
     \<and> om_size (states s) \<le> MAX_TASKS"

lemma sched_invD:
  assumes "sched_inv s"
  shows "distinct (runnable s)" "distinct (blocked s)"
    "p \<in> set (runnable s) \<longleftrightarrow> task s p = Some Runnable"
    "p \<in> set (blocked s) \<longleftrightarrow> blocked_reason (task s p) \<noteq> None"
    "current s = Some p \<longleftrightarrow> task s p = Some Running"
    "om_size (states s) \<le> MAX_TASKS"
  using assms unfolding sched_inv_def by blast+

lemma blocked_reason_simps [simp]:
  "blocked_reason None = None"
  "blocked_reason (Some Runnable) = None"
  "blocked_reason (Some Running) = None"
  "blocked_reason (Some (Exited c)) = None"
  "blocked_reason (Some (Stopped StoppedRunnable)) = None"
  "blocked_reason (Some (Blocked r)) = Some r"
  "blocked_reason (Some (Stopped (StoppedBlocked r))) = Some r"
  by (simp_all add: blocked_reason_def)

lemma blocked_reason_cases:
  "blocked_reason t = Some r \<longleftrightarrow> t = Some (Blocked r) \<or> t = Some (Stopped (StoppedBlocked r))"
  by (auto simp: blocked_reason_def split: option.splits task_state.splits stopped_task.splits)

lemma new_scheduler_inv: "sched_inv (new_scheduler root)"
  by (auto simp: sched_inv_def new_scheduler_def om_lookup_insert om_size_insert MAX_TASKS_def)

lemmas sched_inv_simps = sched_inv_def om_lookup_insert om_lookup_remove om_size_insert om_size_remove
lemmas task_splits = if_splits option.splits task_state.splits stopped_task.splits

lemma spawn_task_inv: "sched_inv s \<Longrightarrow> sched_inv (fst (spawn_task s p))"
  by (auto simp: spawn_task_def sched_inv_simps split: task_splits)

lemma park_runnable_inv: "sched_inv s \<Longrightarrow> sched_inv (fst (park_runnable s p r))"
  by (auto simp: park_runnable_def sched_inv_simps split: task_splits)

lemma dispatch_pid_inv: "sched_inv s \<Longrightarrow> sched_inv (fst (dispatch_pid s p))"
  by (auto simp: dispatch_pid_def sched_inv_simps split: task_splits)

lemma yield_current_inv: "sched_inv s \<Longrightarrow> sched_inv (fst (yield_current s))"
  by (auto simp: yield_current_def sched_inv_simps split: task_splits) (metis option.inject)+

lemma block_current_inv: "sched_inv s \<Longrightarrow> sched_inv (fst (block_current s r))"
  by (auto simp: block_current_def sched_inv_simps split: task_splits) (metis option.inject)+

lemma exit_current_inv: "sched_inv s \<Longrightarrow> sched_inv (fst (exit_current s c))"
  by (auto simp: exit_current_def sched_inv_simps split: task_splits) (metis option.inject)+

lemma wake_inv: "sched_inv s \<Longrightarrow> sched_inv (fst (wake s p))"
  by (auto simp: wake_def sched_inv_simps split: task_splits)

lemma stop_task_inv: "sched_inv s \<Longrightarrow> sched_inv (fst (stop_task s p))"
  by (auto simp: stop_task_def sched_inv_simps split: task_splits) (metis option.inject)+

lemma continue_task_inv: "sched_inv s \<Longrightarrow> sched_inv (fst (continue_task s p))"
  by (auto simp: continue_task_def sched_inv_simps split: task_splits)

lemma dispatch_Ok: assumes "sched_inv s" "current s = None" "runnable s = p # rest"
  shows "dispatch s = (s\<lparr>runnable := rest, states := om_insert p Running (states s),
    current := Some p\<rparr>, Ok (Some p))"
  using assms sched_invD(3) [of s p] by (simp add: dispatch_def Let_def)

lemma dispatch_inv: "sched_inv s \<Longrightarrow> sched_inv (fst (dispatch s))"
proof (cases "current s = None"; cases "runnable s")
  fix p rest assume inv: "sched_inv s" and c: "current s = None" and r: "runnable s = p # rest"
  from inv r have "task s p = Some Runnable" by (simp flip: sched_invD(3))
  with inv c r show ?thesis unfolding dispatch_Ok [OF inv c r] fst_conv
    by (auto simp: sched_inv_simps split: if_splits)
qed (auto simp: dispatch_def)

lemma reap_task_inv: "sched_inv s \<Longrightarrow> sched_inv (fst (reap_task s p))"
  by (auto simp: reap_task_def sched_inv_def om_lookup_remove om_size_remove
      split: option.splits task_state.splits)

lemma discard_runnable_inv: "sched_inv s \<Longrightarrow> sched_inv (fst (discard_runnable s p))"
  by (auto simp: discard_runnable_def sched_inv_def om_lookup_remove om_size_remove)

text \<open>Waking the waiters of a condition: the tasks found blocked on it become runnable (or, if they
  are stopped, become runnable once continued) in the order they blocked, and nothing else
  changes.\<close>

fun woken :: "task_state \<Rightarrow> task_state" where
  "woken (Stopped _) = Stopped StoppedRunnable"
| "woken _ = Runnable"

lemma wake_blocked:
  assumes "sched_inv s" "blocked_reason (task s p) = Some r"
  shows "\<exists>s'. wake s p = (s', Ok ()) \<and> current s' = current s
    \<and> blocked s' = retain (\<lambda>q. q \<noteq> p) (blocked s)
    \<and> runnable s' = runnable s @ (if task s p = Some (Blocked r) then [p] else [])
    \<and> (\<forall>q. task s' q = (if q = p then map_option woken (task s p) else task s q))"
  using assms(2) by (auto simp: blocked_reason_cases wake_def om_lookup_insert)

lemma wake_each_blocked:
  assumes "sched_inv s" "distinct ps" "\<forall>p\<in>set ps. blocked_reason (task s p) \<noteq> None"
  shows "\<exists>s'. wake_each s ps = (s', Ok ()) \<and> sched_inv s' \<and> current s' = current s
    \<and> blocked s' = retain (\<lambda>q. q \<notin> set ps) (blocked s)
    \<and> runnable s' = runnable s @ filter (\<lambda>p. \<exists>r. task s p = Some (Blocked r)) ps
    \<and> (\<forall>q. task s' q = (if q \<in> set ps then map_option woken (task s q) else task s q))"
  using assms
proof (induction ps arbitrary: s)
  case (Cons p ps)
  then obtain r where r: "blocked_reason (task s p) = Some r" by auto
  obtain s1 where w: "wake s p = (s1, Ok ())" "current s1 = current s"
      "blocked s1 = retain (\<lambda>q. q \<noteq> p) (blocked s)"
      "runnable s1 = runnable s @ (if task s p = Some (Blocked r) then [p] else [])"
      and t: "\<forall>q. task s1 q = (if q = p then map_option woken (task s p) else task s q)"
    using wake_blocked [OF Cons.prems(1) r] by blast
  have inv1: "sched_inv s1" using wake_inv [OF Cons.prems(1), of p] w by simp
  have "\<forall>q\<in>set ps. task s1 q = task s q" using t Cons.prems(2) by auto
  with Cons.prems have "\<forall>q\<in>set ps. blocked_reason (task s1 q) \<noteq> None" by auto
  from Cons.IH [OF inv1 _ this] Cons.prems(2) obtain s' where s':
      "wake_each s1 ps = (s', Ok ())" "sched_inv s'" "current s' = current s1"
      "blocked s' = retain (\<lambda>q. q \<notin> set ps) (blocked s1)"
      "runnable s' = runnable s1 @ filter (\<lambda>p. \<exists>r. task s1 p = Some (Blocked r)) ps"
      "\<forall>q. task s' q = (if q \<in> set ps then map_option woken (task s1 q) else task s1 q)"
    by auto
  have "filter (\<lambda>p. \<exists>r. task s1 p = Some (Blocked r)) ps
      = filter (\<lambda>p. \<exists>r. task s p = Some (Blocked r)) ps"
    by (rule filter_cong) (use \<open>\<forall>q\<in>set ps. task s1 q = task s q\<close> in auto)
  moreover have "(\<exists>r. task s p = Some (Blocked r)) = (task s p = Some (Blocked r))"
    using r by (auto simp: blocked_reason_cases)
  ultimately show ?case using w s' t Cons.prems(2) by (auto simp: conj_commute)
qed simp

lemma waiters_blocked: "\<forall>p\<in>set (waiters s P). blocked_reason (task s p) \<noteq> None"
  by (auto simp: waiters_def split: option.splits)

lemma set_waiters: "sched_inv s \<Longrightarrow>
    p \<in> set (waiters s P) \<longleftrightarrow> (\<exists>r. blocked_reason (task s p) = Some r \<and> P r)"
  by (auto simp: waiters_def sched_invD(4) split: option.splits)

lemma wake_matching_spec:
  assumes "sched_inv s"
  shows "\<exists>s'. wake_matching s P = (s', Ok (length (waiters s P))) \<and> sched_inv s'
    \<and> current s' = current s
    \<and> blocked s' = retain (\<lambda>q. q \<notin> set (waiters s P)) (blocked s)
    \<and> runnable s' = runnable s @ filter (\<lambda>p. \<exists>r. task s p = Some (Blocked r)) (waiters s P)
    \<and> (\<forall>q. task s' q
         = (if q \<in> set (waiters s P) then map_option woken (task s q) else task s q))"
proof -
  have "distinct (waiters s P)" using sched_invD(2) [OF assms] by (simp add: waiters_def)
  from wake_each_blocked [OF assms this waiters_blocked] show ?thesis
    by (auto simp: wake_matching_def Let_def)
qed

lemma wake_waiters_matching: "wake_waiters s reason = wake_matching s (\<lambda>r. accepts r reason)"
  by (simp add: wake_waiters_def wake_matching_def)

lemma wake_matching_inv: "sched_inv s \<Longrightarrow> sched_inv (fst (wake_matching s P))"
  using wake_matching_spec [of s P] by auto

section \<open>Runs of the scheduler\<close>

datatype sched_op =
    SpawnTask pid
  | ParkRunnable pid wait_reason
  | DispatchPid pid
  | YieldCurrent
  | BlockCurrent wait_reason
  | ExitCurrent int
  | Wake pid
  | StopTask pid
  | ContinueTask pid
  | WakeWaiters wait_reason
  | WakeChildWaiters pid
  | WakeChildActivityWaiters pid
  | WakeFileLockWaiters
  | Dispatch
  | ReapTask pid
  | DiscardRunnable pid

text \<open>What a caller observes of a call: the process id it names, if any, or the error.\<close>

fun sched_run :: "scheduler \<Rightarrow> sched_op \<Rightarrow> pid option sched_result" where
  "sched_run s (SpawnTask p) = map_ok (\<lambda>_. None) (spawn_task s p)"
| "sched_run s (ParkRunnable p r) = map_ok (\<lambda>_. None) (park_runnable s p r)"
| "sched_run s (DispatchPid p) = map_ok (\<lambda>_. Some p) (dispatch_pid s p)"
| "sched_run s YieldCurrent = map_ok Some (yield_current s)"
| "sched_run s (BlockCurrent r) = map_ok Some (block_current s r)"
| "sched_run s (ExitCurrent c) = map_ok Some (exit_current s c)"
| "sched_run s (Wake p) = map_ok (\<lambda>_. None) (wake s p)"
| "sched_run s (StopTask p) = map_ok (\<lambda>_. None) (stop_task s p)"
| "sched_run s (ContinueTask p) = map_ok (\<lambda>_. None) (continue_task s p)"
| "sched_run s (WakeWaiters r) = map_ok (\<lambda>_. None) (wake_waiters s r)"
| "sched_run s (WakeChildWaiters p) = map_ok (\<lambda>_. None) (wake_child_waiters s p)"
| "sched_run s (WakeChildActivityWaiters p) = map_ok (\<lambda>_. None) (wake_child_activity_waiters s p)"
| "sched_run s WakeFileLockWaiters = map_ok (\<lambda>_. None) (wake_file_lock_waiters s)"
| "sched_run s Dispatch = map_ok id (dispatch s)"
| "sched_run s (ReapTask p) = map_ok (\<lambda>_. None) (reap_task s p)"
| "sched_run s (DiscardRunnable p) = map_ok (\<lambda>_. None) (discard_runnable s p)"

lemmas wake_defs = wake_waiters_matching wake_child_waiters_def wake_child_activity_waiters_def
  wake_file_lock_waiters_def

lemma sched_run_inv: "sched_inv s \<Longrightarrow> sched_inv (fst (sched_run s op))"
  by (cases op) (simp_all add: wake_defs spawn_task_inv park_runnable_inv dispatch_pid_inv
      yield_current_inv block_current_inv exit_current_inv wake_inv stop_task_inv
      continue_task_inv wake_matching_inv dispatch_inv reap_task_inv discard_runnable_inv)

interpretation sched: op_system sched_run sched_inv
  by unfold_locales (rule sched_run_inv)

lemmas sched_op_defs = spawn_task_def park_runnable_def dispatch_pid_def yield_current_def
  block_current_def exit_current_def wake_def stop_task_def continue_task_def reap_task_def
  discard_runnable_def

lemma wake_matching_succeeds:
  assumes "sched_inv s"
  shows "wake_matching s P \<noteq> (s', Err e)" "wake_matching s P \<noteq> (s', Panic)"
  using wake_matching_spec [OF assms, of P] by auto

lemma dispatch_total:
  assumes "sched_inv s"
  shows "dispatch s = (s', Err e) \<longleftrightarrow> current s \<noteq> None \<and> s' = s \<and> e = TaskAlreadyRunning"
    and "dispatch s \<noteq> (s', Panic)"
  using dispatch_Ok [OF assms] by (cases "current s"; cases "runnable s"; auto simp: dispatch_def)+

lemma sched_run_Panic: "sched_inv s \<Longrightarrow> sched_run s op \<noteq> (s', Panic)"
  by (cases op) (auto simp: wake_defs wake_matching_succeeds dispatch_total sched_op_defs
      split: task_splits)

lemma sched_run_no_panic: "sched_inv s \<Longrightarrow> snd (sched_run s op) \<noteq> Panic"
  using sched_run_Panic by (metis prod.collapse)

lemma sched_run_Err: "sched_inv s \<Longrightarrow> sched_run s op = (s', Err e) \<Longrightarrow> s' = s"
  by (cases op) (auto simp: wake_defs wake_matching_succeeds dispatch_total sched_op_defs
      split: task_splits)

section \<open>Fairness of the queue\<close>

text \<open>The operations that take one task out of the runnable queue without running it, and the one
  that runs it ahead of its turn.\<close>

fun removes :: "sched_op \<Rightarrow> pid \<Rightarrow> bool" where
  "removes (ParkRunnable q _) p = (q = p)"
| "removes (StopTask q) p = (q = p)"
| "removes (DiscardRunnable q) p = (q = p)"
| "removes (DispatchPid q) p = (q = p)"
| "removes _ p = False"

text \<open>The tasks ahead of \<open>p\<close> in the queue.\<close>

definition ahead :: "scheduler \<Rightarrow> pid \<Rightarrow> pid list" where
  "ahead s p = takeWhile (\<lambda>q. q \<noteq> p) (runnable s)"

lemma ahead_append: "p \<in> set xs \<Longrightarrow> takeWhile (\<lambda>q. q \<noteq> p) (xs @ ys) = takeWhile (\<lambda>q. q \<noteq> p) xs"
  by (rule takeWhile_append1) auto

lemma ahead_filter: "p \<noteq> q \<Longrightarrow>
    length (takeWhile (\<lambda>x. x \<noteq> p) (retain (\<lambda>x. x \<noteq> q) xs)) \<le> length (takeWhile (\<lambda>x. x \<noteq> p) xs)"
  by (induction xs) auto

lemma fifo_keeps_wake:
  assumes "sched_inv s" "p \<in> set (runnable s)"
  shows "p \<in> set (runnable (fst (wake_matching s P))) \<and> ahead (fst (wake_matching s P)) p = ahead s p"
proof -
  obtain s' xs where "wake_matching s P = (s', Ok (length (waiters s P)))"
      "runnable s' = runnable s @ xs"
    using wake_matching_spec [OF assms(1), of P] by blast
  then show ?thesis using assms(2) by (simp add: ahead_def ahead_append)
qed

lemma fifo_keeps:
  assumes "sched_inv s" "p \<in> set (runnable s)" "\<not> removes op p" "op \<noteq> Dispatch"
  shows "p \<in> set (runnable (fst (sched_run s op)))
    \<and> length (ahead (fst (sched_run s op)) p) \<le> length (ahead s p)"
  using assms
  by (cases op)
    (auto simp: wake_defs fifo_keeps_wake [unfolded ahead_def] sched_op_defs ahead_def ahead_append
        ahead_filter
      split: task_splits)

lemma fifo_dispatch:
  assumes inv: "sched_inv s" and p: "p \<in> set (runnable s)" and run: "sched_run s Dispatch = (s', Ok r)"
  shows "r = Some p \<or> (\<exists>q. r = Some q \<and> p \<in> set (runnable s')
    \<and> length (ahead s p) = Suc (length (ahead s' p)))"
proof -
  from p obtain q rest where q: "runnable s = q # rest" by (cases "runnable s") auto
  have c: "current s = None"
    using run by (cases "current s") (auto simp: dispatch_def)
  from run dispatch_Ok [OF inv c q] have "r = Some q"
      "s' = s\<lparr>runnable := rest, states := om_insert q Running (states s), current := Some q\<rparr>"
    by auto
  then show ?thesis using p q by (auto simp: ahead_def)
qed

text \<open>The tasks a sequence of calls dispatches in turn.\<close>

fun dispatched :: "scheduler \<Rightarrow> sched_op list \<Rightarrow> pid list" where
  "dispatched s [] = []"
| "dispatched s (op # ops) = (case sched_run s op of
       (s', Ok (Some p)) \<Rightarrow> (if op = Dispatch then [p] else []) @ dispatched s' ops
     | (s', _) \<Rightarrow> dispatched s' ops)"

lemma dispatched_other:
  "op \<noteq> Dispatch \<or> (\<forall>v. snd (sched_run s op) \<noteq> Ok v) \<Longrightarrow>
    dispatched s (op # ops) = dispatched (fst (sched_run s op)) ops"
  by (auto split: prod.splits outcome.splits option.splits)

lemma fifo_waits:
  assumes "sched_inv s" "p \<in> set (runnable s)" "\<not> removes op p"
    "op \<noteq> Dispatch \<or> (\<forall>v. snd (sched_run s op) \<noteq> Ok v)"
  shows "p \<in> set (runnable (fst (sched_run s op)))
    \<and> length (ahead (fst (sched_run s op)) p) \<le> length (ahead s p)"
proof (cases "op = Dispatch")
  case True
  with assms(4) sched_run_Err [OF assms(1), of op] sched_run_no_panic [OF assms(1), of op]
  have "fst (sched_run s op) = s"
    by (metis outcome.exhaust prod.collapse)
  then show ?thesis using assms(2) by simp
next
  case False
  then show ?thesis using assms by (intro fifo_keeps)
qed

lemma dispatched_within:
  assumes "sched_inv s" "p \<in> set (runnable s)" "\<forall>op\<in>set ops. \<not> removes op p"
    "length (ahead s p) < length (dispatched s ops)"
  shows "p \<in> set (take (Suc (length (ahead s p))) (dispatched s ops))"
  using assms
proof (induction ops arbitrary: s)
  case (Cons op ops)
  define s' where "s' = fst (sched_run s op)"
  have inv': "sched_inv s'" unfolding s'_def by (rule sched_run_inv [OF Cons.prems(1)])
  have rem: "\<not> removes op p" "\<forall>op\<in>set ops. \<not> removes op p" using Cons.prems(3) by auto
  show ?case
  proof (cases "op \<noteq> Dispatch \<or> (\<forall>v. snd (sched_run s op) \<noteq> Ok v)")
    case True
    from dispatched_other [OF this] have d: "dispatched s (op # ops) = dispatched s' ops"
      by (simp add: s'_def)
    from fifo_waits [OF Cons.prems(1,2) rem(1) True]
    have k: "p \<in> set (runnable s')" "length (ahead s' p) \<le> length (ahead s p)"
      by (simp_all add: s'_def)
    with Cons.prems(4) d have "length (ahead s' p) < length (dispatched s' ops)" by simp
    from Cons.IH [OF inv' k(1) rem(2) this] k(2) show ?thesis
      unfolding d using set_take_subset_set_take by (meson Suc_le_mono subsetD)
  next
    case False
    then obtain v where v: "op = Dispatch" "sched_run s Dispatch = (s', Ok v)"
      unfolding s'_def by (metis prod.collapse)
    from fifo_dispatch [OF Cons.prems(1,2) v(2)] show ?thesis
    proof (elim disjE exE conjE)
      assume "v = Some p"
      then show ?thesis using v by simp
    next
      fix q assume q: "v = Some q" "p \<in> set (runnable s')"
        "length (ahead s p) = Suc (length (ahead s' p))"
      then have d: "dispatched s (op # ops) = q # dispatched s' ops" using v by simp
      with q(3) Cons.prems(4) have "length (ahead s' p) < length (dispatched s' ops)" by simp
      from Cons.IH [OF inv' q(2) rem(2) this] show ?thesis unfolding d q(3) by simp
    qed
  qed
qed simp

section \<open>Properties\<close>

text \<open>C7. After every sequence of scheduler calls, successful or refused, the queues agree with the
  task states: the runnable queue lists each runnable task once, the blocked queue each blocked or
  stopped-while-blocked task once, and a task is running exactly when it is the current one.\<close>

theorem sched_queues_consistent: "sched_inv (run_ops sched_run (new_scheduler root) ops)"
  by (rule sched.run_ops_inv [OF new_scheduler_inv])

text \<open>C8. In every state reached, no call panics (the \<open>expect\<close> of the wake loops never fails) and a
  refused call leaves the scheduler exactly as it was.\<close>

theorem sched_errors_atomic:
  "case sched_run (run_ops sched_run (new_scheduler root) ops) op of
     (s', Ok _) \<Rightarrow> True
   | (s', Err _) \<Rightarrow> s' = run_ops sched_run (new_scheduler root) ops
   | (_, Panic) \<Rightarrow> False"
proof -
  let ?s = "run_ops sched_run (new_scheduler root) ops"
  have inv: "sched_inv ?s" by (rule sched.run_ops_inv [OF new_scheduler_inv])
  show ?thesis
    using sched_run_Err [OF inv, of op] sched_run_Panic [OF inv, of op]
    by (auto split: prod.splits outcome.splits)
qed

text \<open>C9. No wake-up is lost: a wake for a condition reports how many tasks wait on it, makes every
  one of them runnable (a stopped one becomes runnable on \<open>SIGCONT\<close>), queues them behind the tasks
  that were runnable already in the order in which they blocked, and touches no other task: the task
  with the processor keeps it.\<close>

theorem wake_waiters_complete:
  assumes "sched_inv s"
  shows "\<exists>s' woken_now. wake_waiters s reason = (s', Ok (length woken_now))
    \<and> woken_now = filter (\<lambda>p. \<exists>r. blocked_reason (task s p) = Some r \<and> accepts r reason) (blocked s)
    \<and> runnable s' = runnable s @ filter (\<lambda>p. \<exists>r. task s p = Some (Blocked r)) woken_now
    \<and> blocked s' = filter (\<lambda>p. p \<notin> set woken_now) (blocked s)
    \<and> current s' = current s
    \<and> (\<forall>p. task s' p = (if p \<in> set woken_now then map_option woken (task s p) else task s p))"
proof -
  have "filter (\<lambda>p. \<exists>r. blocked_reason (task s p) = Some r \<and> accepts r reason) (blocked s)
      = waiters s (\<lambda>r. accepts r reason)"
    unfolding waiters_def by (rule filter_cong) (auto split: option.splits)
  then show ?thesis
    using wake_matching_spec [OF assms, of "\<lambda>r. accepts r reason"]
    by (auto simp: wake_waiters_matching)
qed

definition two_readers :: scheduler where
  "two_readers = run_ops sched_run (new_scheduler 1)
     [SpawnTask 2, SpawnTask 3, BlockCurrent (PipeReadable 7), Dispatch,
      BlockCurrent (Any [PipeReadable 7, Timer 10]), StopTask 1]"

theorem wake_waiters_complete_witness:
  "\<exists>s' woken_now. wake_waiters two_readers (PipeReadable 7) = (s', Ok (length woken_now))
    \<and> woken_now = [1, 2] \<and> runnable s' = [3, 2] \<and> blocked s' = [] \<and> current s' = current two_readers
    \<and> task s' 1 = Some (Stopped StoppedRunnable)"
proof -
  have inv: "sched_inv two_readers"
    unfolding two_readers_def by (rule sched.run_ops_inv [OF new_scheduler_inv])
  have b: "blocked two_readers = [1, 2]" "runnable two_readers = [3]"
      "task two_readers 1 = Some (Stopped (StoppedBlocked (PipeReadable 7)))"
      "task two_readers 2 = Some (Blocked (Any [PipeReadable 7, Timer 10]))"
    by (simp_all add: two_readers_def new_scheduler_def sched_op_defs dispatch_def
        om_lookup_insert om_size_insert MAX_TASKS_def)
  show ?thesis using wake_waiters_complete [OF inv, of "PipeReadable 7"] by (auto simp: b)
qed

text \<open>C10. Dispatch is first come, first served: whatever calls are made, a runnable task that nobody
  parks, stops, discards or selects out of turn is among the next \<open>n + 1\<close> dispatched tasks, where
  \<open>n\<close> is the number of tasks ahead of it. No task starves.\<close>

theorem runnable_task_dispatched:
  assumes "sched_inv s" "p \<in> set (runnable s)" "\<forall>op\<in>set ops. \<not> removes op p"
    "length (ahead s p) < length (dispatched s ops)"
  shows "p \<in> set (take (Suc (length (ahead s p))) (dispatched s ops))"
  using assms by (rule dispatched_within)

definition three_tasks :: scheduler where
  "three_tasks = run_ops sched_run (new_scheduler 1) [SpawnTask 2, SpawnTask 3, YieldCurrent]"

lemma three_tasks_state: "runnable three_tasks = [2, 3, 1]" "current three_tasks = None"
  "task three_tasks 1 = Some Runnable" "task three_tasks 2 = Some Runnable"
  "task three_tasks 3 = Some Runnable" "om_size (states three_tasks) = 3"
  by (simp_all add: three_tasks_def new_scheduler_def sched_op_defs om_lookup_insert
      om_size_insert MAX_TASKS_def)

theorem runnable_task_dispatched_witness:
  "3 \<in> set (take 2 (dispatched three_tasks [Dispatch, SpawnTask 9, ExitCurrent 0, Dispatch]))"
proof -
  let ?ops = "[Dispatch, SpawnTask 9, ExitCurrent 0, Dispatch]"
  have inv: "sched_inv three_tasks"
    unfolding three_tasks_def by (rule sched.run_ops_inv [OF new_scheduler_inv])
  have d: "dispatched three_tasks ?ops = [2, 3]"
    by (simp add: dispatch_def three_tasks_state sched_op_defs om_lookup_insert om_size_insert
        MAX_TASKS_def)
  have a: "ahead three_tasks 3 = [2]" by (simp add: ahead_def three_tasks_state)
  show ?thesis
    using runnable_task_dispatched [OF inv, of 3 ?ops] unfolding d a
    by (simp add: three_tasks_state)
qed

text \<open>Job control keeps what a task waits for: stopping a blocked task and continuing it
  restores the task, and a wake that arrives in between is not lost: the continued task is then
  runnable, at the back of the queue.\<close>

theorem stop_continue_keeps_wait:
  assumes "task s p = Some (Blocked reason)"
  shows "and_then (stop_task s p) (\<lambda>s1 _. continue_task s1 p) = (s, Ok ())
    \<and> (\<exists>s'. and_then (and_then (stop_task s p) (\<lambda>s1 _. wake s1 p)) (\<lambda>s2 _. continue_task s2 p)
           = (s', Ok ()) \<and> task s' p = Some Runnable \<and> runnable s' = runnable s @ [p]
             \<and> p \<notin> set (blocked s'))"
  using assms by (simp add: stop_task_def continue_task_def wake_def)

theorem stop_continue_keeps_wait_witness:
  "\<exists>s. task s 1 = Some (Blocked (Timer 5))
    \<and> and_then (stop_task s 1) (\<lambda>s1 _. continue_task s1 1) = (s, Ok ())"
proof -
  let ?s = "run_ops sched_run (new_scheduler 1) [BlockCurrent (Timer 5)]"
  have t: "task ?s 1 = Some (Blocked (Timer 5))"
    by (simp add: new_scheduler_def block_current_def)
  from stop_continue_keeps_wait [OF t] t show ?thesis by blast
qed

end
