(* ===== verification/Process.thy ===== *)
theory Process
  imports Ordered_Map "HOL-Library.List_Lexorder" "HOL-Library.Char_ord"
begin

unbundle bit_operations_syntax

text \<open>
  The process table of \<open>src/src/process.rs\<close>: signals and their names, process records, the
  allocator of process ids, process groups and sessions, the process tree and the controlling
  terminal. A Rust \<open>String\<close> is the list of its UTF-8 bytes, an \<open>i32\<close> an \<open>int\<close>; the environment and
  descriptor snapshots are ordered maps.

  \<open>pt_inv\<close> is the table's invariant: records are stored under their own id, parents are older than
  their children, a process group lies within one session, and every id ever used is below the
  allocator. The loop of \<open>process_tree\<close> is shown to compute reachability in the parent relation.
\<close>

section \<open>Labels\<close>

definition MAX_PROCESSES :: nat where
  "MAX_PROCESSES = 1024"

definition MAX_COMMAND_BYTES :: nat where
  "MAX_COMMAND_BYTES = 4 * 1024"

text \<open>UTF-8 as Rust reads it: a continuation byte is \<open>10xxxxxx\<close>, an index is a character boundary
  when it does not point at one, and a character is a lead byte with its continuation bytes.\<close>

definition continuation :: "char \<Rightarrow> bool" where
  "continuation c \<longleftrightarrow> 128 \<le> (of_char c :: nat) \<and> (of_char c :: nat) < 192"

definition is_char_boundary :: "string \<Rightarrow> nat \<Rightarrow> bool" where
  "is_char_boundary s i \<longleftrightarrow> i = 0 \<or> i = length s \<or> (i < length s \<and> \<not> continuation (s ! i))"

lemma length_dropWhile_less [termination_simp]: "length (dropWhile P xs) < Suc (length xs)"
  by (simp add: length_dropWhile_le less_Suc_eq_le)

fun chars :: "string \<Rightarrow> string list" where
  "chars [] = []"
| "chars (c # cs) = (c # takeWhile continuation cs) # chars (dropWhile continuation cs)"

fun push_chars :: "string \<Rightarrow> string list \<Rightarrow> string \<times> bool" where
  \<comment> \<open>the loop over one argument; the flag tells that it left the outer loop\<close>
  "push_chars label [] = (label, False)"
| "push_chars label (c # cs) =
     (if MAX_COMMAND_BYTES < length label + length c then (label, True)
      else push_chars (label @ c) cs)"

fun push_arguments :: "nat \<Rightarrow> string \<Rightarrow> string list \<Rightarrow> string" where
  "push_arguments index label [] = label"
| "push_arguments index label (argument # rest) =
     (if 0 < index \<and> length label = MAX_COMMAND_BYTES then label
      else case push_chars (if 0 < index then label @ '' '' else label) (chars argument) of
          (label', True) \<Rightarrow> label'
        | (label', False) \<Rightarrow> push_arguments (Suc index) label' rest)"

definition command_label :: "string list \<Rightarrow> string" where
  "command_label argv = push_arguments 0 [] argv"

fun boundary_below :: "string \<Rightarrow> nat \<Rightarrow> nat" where
  "boundary_below s 0 = 0"
| "boundary_below s (Suc n) = (if is_char_boundary s (Suc n) then Suc n else boundary_below s n)"

definition truncate_label :: "string \<Rightarrow> string" where
  "truncate_label command =
     (if length command \<le> MAX_COMMAND_BYTES then command
      else take (boundary_below command MAX_COMMAND_BYTES) command)"

section \<open>Signals\<close>

datatype signal =
    SigHangup | SigInterrupt | SigKill | SigUser1 | SigUser2 | SigPipe | SigTerminate
  | SigChild | SigContinue | SigStop | SigFileSize

text \<open>The derived order of the enumeration, in which pending signals are delivered.\<close>

fun signal_index :: "signal \<Rightarrow> nat" where
  "signal_index SigHangup = 0"
| "signal_index SigInterrupt = 1"
| "signal_index SigKill = 2"
| "signal_index SigUser1 = 3"
| "signal_index SigUser2 = 4"
| "signal_index SigPipe = 5"
| "signal_index SigTerminate = 6"
| "signal_index SigChild = 7"
| "signal_index SigContinue = 8"
| "signal_index SigStop = 9"
| "signal_index SigFileSize = 10"

instantiation signal :: linorder
begin

definition less_eq_signal :: "signal \<Rightarrow> signal \<Rightarrow> bool" where
  "less_eq_signal a b \<longleftrightarrow> signal_index a \<le> signal_index b"

definition less_signal :: "signal \<Rightarrow> signal \<Rightarrow> bool" where
  "less_signal a b \<longleftrightarrow> signal_index a < signal_index b"

instance
proof
  fix a b c :: signal
  show "a < b \<longleftrightarrow> a \<le> b \<and> \<not> b \<le> a" "a \<le> a" "a \<le> b \<or> b \<le> a"
    by (auto simp: less_eq_signal_def less_signal_def)
  show "a \<le> b \<Longrightarrow> b \<le> c \<Longrightarrow> a \<le> c" by (simp add: less_eq_signal_def)
  show "a \<le> b \<Longrightarrow> b \<le> a \<Longrightarrow> a = b" by (cases a; cases b) (simp_all add: less_eq_signal_def)
qed

end

fun signal_number :: "signal \<Rightarrow> int" where
  "signal_number SigHangup = 1"
| "signal_number SigInterrupt = 2"
| "signal_number SigKill = 9"
| "signal_number SigUser1 = 10"
| "signal_number SigUser2 = 12"
| "signal_number SigPipe = 13"
| "signal_number SigTerminate = 15"
| "signal_number SigChild = 17"
| "signal_number SigContinue = 18"
| "signal_number SigStop = 19"
| "signal_number SigFileSize = 25"

definition terminates :: "signal \<Rightarrow> bool" where
  "terminates s \<longleftrightarrow> s \<in> {SigHangup, SigInterrupt, SigKill, SigUser1, SigUser2, SigPipe,
     SigTerminate, SigFileSize}"

fun signal_name :: "signal \<Rightarrow> string" where
  "signal_name SigHangup = ''HUP''"
| "signal_name SigInterrupt = ''INT''"
| "signal_name SigKill = ''KILL''"
| "signal_name SigUser1 = ''USR1''"
| "signal_name SigUser2 = ''USR2''"
| "signal_name SigPipe = ''PIPE''"
| "signal_name SigTerminate = ''TERM''"
| "signal_name SigChild = ''CHLD''"
| "signal_name SigContinue = ''CONT''"
| "signal_name SigStop = ''STOP''"
| "signal_name SigFileSize = ''XFSZ''"

definition ascii_uppercase :: "char \<Rightarrow> char" where
  "ascii_uppercase c = (if 97 \<le> (of_char c :: nat) \<and> (of_char c :: nat) \<le> 122
     then char_of ((of_char c :: nat) - 32) else c)"

definition strip_sig :: "string \<Rightarrow> string" where
  \<comment> \<open>\<open>upper.strip_prefix("SIG").unwrap_or(&upper)\<close>\<close>
  "strip_sig upper = (if take 3 upper = ''SIG'' then drop 3 upper else upper)"

definition signal_parse :: "string \<Rightarrow> signal option" where
  "signal_parse v =
     (let u = strip_sig (map ascii_uppercase v) in
      if u = ''1'' \<or> u = ''HUP'' then Some SigHangup
      else if u = ''2'' \<or> u = ''INT'' then Some SigInterrupt
      else if u = ''9'' \<or> u = ''KILL'' then Some SigKill
      else if u = ''10'' \<or> u = ''USR1'' then Some SigUser1
      else if u = ''12'' \<or> u = ''USR2'' then Some SigUser2
      else if u = ''13'' \<or> u = ''PIPE'' then Some SigPipe
      else if u = ''15'' \<or> u = ''TERM'' then Some SigTerminate
      else if u = ''17'' \<or> u = ''CHLD'' then Some SigChild
      else if u = ''18'' \<or> u = ''CONT'' then Some SigContinue
      else if u = ''19'' \<or> u = ''STOP'' then Some SigStop
      else if u = ''25'' \<or> u = ''XFSZ'' then Some SigFileSize
      else None)"

section \<open>Process records\<close>

datatype process_status = PsRunning | PsStopped signal | PsExited int

fun exited :: "process_status \<Rightarrow> bool" where
  \<comment> \<open>\<open>matches!(status, ProcessStatus::Exited(_))\<close>\<close>
  "exited (PsExited _) = True"
| "exited _ = False"

datatype child_completion = CompExit int | CompSignal signal

fun wait_status :: "child_completion \<Rightarrow> int" where
  "wait_status (CompExit code) = push_bit 8 (code AND 255)"
| "wait_status (CompSignal s) = signal_number s"

type_synonym process_id = u32
type_synonym environment = "(string, string) omap"

record process_record =
  pr_pid :: process_id
  pr_ppid :: process_id
  pr_uid :: u32
  pr_group :: process_id
  pr_session :: process_id
  pr_command :: string
  pr_cwd :: string
  pr_environment :: environment
  pr_descriptors :: "(int, string) omap"
  pr_status :: process_status
  pr_terminating_signal :: "signal option"

datatype child_placement = Inherit | NewProcessGroup | NewSession

record process_table =
  next_pid :: process_id
  records :: "(process_id, process_record) omap"

abbreviation proc :: "process_table \<Rightarrow> process_id \<Rightarrow> process_record option" where
  "proc t p \<equiv> om_lookup (records t) p"

section \<open>The controlling terminal\<close>

record controlling_terminal =
  term_session :: process_id
  term_foreground :: process_id

definition new_terminal :: "process_id \<Rightarrow> controlling_terminal" where
  "new_terminal session = \<lparr>term_session = session, term_foreground = session\<rparr>"

datatype terminal_error = GroupNotLive process_id process_id

definition set_foreground :: "controlling_terminal \<Rightarrow> process_table \<Rightarrow> process_id
    \<Rightarrow> controlling_terminal \<times> (terminal_error, unit) outcome" where
  "set_foreground tty processes grp =
     (let valid = list_ex (\<lambda>r. \<not> exited (pr_status r) \<and> pr_session r = term_session tty
                              \<and> pr_group r = grp) (om_values (records processes))
      in if \<not> valid then (tty, Err (GroupNotLive grp (term_session tty)))
         else (tty\<lparr>term_foreground := grp\<rparr>, Ok ()))"

section \<open>The process table\<close>

definition new_table :: "process_id \<Rightarrow> string \<Rightarrow> environment \<Rightarrow> process_table" where
  "new_table root cwd env =
     \<lparr>next_pid = saturating_add root 1,
      records = om_insert root
        \<lparr>pr_pid = root, pr_ppid = 0, pr_uid = 0, pr_group = root, pr_session = root,
         pr_command = ''bash'', pr_cwd = cwd, pr_environment = env, pr_descriptors = om_empty,
         pr_status = PsRunning, pr_terminating_signal = None\<rparr> om_empty\<rparr>"

definition i32_max :: u32 where
  "i32_max = 2147483647"

definition spawn_process :: "process_table \<Rightarrow> process_id \<Rightarrow> child_placement \<Rightarrow> string \<Rightarrow> string
    \<Rightarrow> environment \<Rightarrow> process_table \<times> process_id option" where
  "spawn_process t ppid placement cmd cwd env =
     (if MAX_PROCESSES \<le> om_size (records t) \<or> i32_max < next_pid t then (t, None)
      else
        let command = truncate_label cmd; pid = next_pid t
        in case checked_add (next_pid t) 1 of
             None \<Rightarrow> (t, None)
           | Some n \<Rightarrow>
               let t' = t\<lparr>next_pid := n\<rparr>
               in case proc t' ppid of
                    None \<Rightarrow> (t', None)
                  | Some parent \<Rightarrow>
                      let (grp, session) = (case placement of
                              Inherit \<Rightarrow> (pr_group parent, pr_session parent)
                            | NewProcessGroup \<Rightarrow> (pid, pr_session parent)
                            | NewSession \<Rightarrow> (pid, pid))
                      in (t'\<lparr>records := om_insert pid
                            \<lparr>pr_pid = pid, pr_ppid = ppid, pr_uid = pr_uid parent,
                             pr_group = grp, pr_session = session, pr_command = command,
                             pr_cwd = cwd, pr_environment = env, pr_descriptors = om_empty,
                             pr_status = PsRunning, pr_terminating_signal = None\<rparr>
                            (records t')\<rparr>, Some pid))"

definition set_command :: "process_table \<Rightarrow> process_id \<Rightarrow> string \<Rightarrow> process_table" where
  "set_command t p command =
     t\<lparr>records := om_update p (\<lambda>r. r\<lparr>pr_command := command\<rparr>) (records t)\<rparr>"

definition set_uid :: "process_table \<Rightarrow> process_id \<Rightarrow> u32 \<Rightarrow> process_table" where
  "set_uid t p uid = t\<lparr>records := om_update p (\<lambda>r. r\<lparr>pr_uid := uid\<rparr>) (records t)\<rparr>"

definition exit_process :: "process_table \<Rightarrow> process_id \<Rightarrow> int \<Rightarrow> string \<Rightarrow> process_table" where
  "exit_process t p status cwd =
     t\<lparr>records := om_update p (\<lambda>r. r\<lparr>pr_cwd := cwd, pr_status := PsExited status\<rparr>) (records t)\<rparr>"

definition mark_signal_termination :: "process_table \<Rightarrow> process_id \<Rightarrow> signal \<Rightarrow> process_table" where
  "mark_signal_termination t p s =
     t\<lparr>records := om_update p (\<lambda>r. r\<lparr>pr_terminating_signal := Some s\<rparr>) (records t)\<rparr>"

definition completion :: "process_table \<Rightarrow> process_id \<Rightarrow> child_completion option" where
  "completion t p = (case proc t p of
       None \<Rightarrow> None
     | Some r \<Rightarrow> (case pr_status r of
           PsExited code \<Rightarrow> Some (case pr_terminating_signal r of
               None \<Rightarrow> CompExit code | Some s \<Rightarrow> CompSignal s)
         | _ \<Rightarrow> None))"

definition stop_process :: "process_table \<Rightarrow> process_id \<Rightarrow> signal \<Rightarrow> process_table" where
  "stop_process t p s =
     t\<lparr>records := om_update p
        (\<lambda>r. if \<not> exited (pr_status r) then r\<lparr>pr_status := PsStopped s\<rparr> else r) (records t)\<rparr>"

definition continue_process :: "process_table \<Rightarrow> process_id \<Rightarrow> process_table" where
  "continue_process t p =
     t\<lparr>records := om_update p
        (\<lambda>r. case pr_status r of PsStopped _ \<Rightarrow> r\<lparr>pr_status := PsRunning\<rparr> | _ \<Rightarrow> r) (records t)\<rparr>"

definition update_current :: "process_table \<Rightarrow> process_id \<Rightarrow> string \<Rightarrow> environment \<Rightarrow> process_table" where
  "update_current t p cwd env =
     t\<lparr>records := om_update p (\<lambda>r. r\<lparr>pr_cwd := cwd, pr_environment := env\<rparr>) (records t)\<rparr>"

definition update_descriptors :: "process_table \<Rightarrow> process_id \<Rightarrow> (int, string) omap \<Rightarrow> process_table" where
  "update_descriptors t p ds =
     t\<lparr>records := om_update p (\<lambda>r. r\<lparr>pr_descriptors := ds\<rparr>) (records t)\<rparr>"

definition running_group :: "process_table \<Rightarrow> process_id \<Rightarrow> process_id list" where
  "running_group t grp =
     map pr_pid (filter (\<lambda>r. pr_group r = grp \<and> pr_status r = PsRunning) (om_values (records t)))"

definition live_group :: "process_table \<Rightarrow> process_id \<Rightarrow> process_id list" where
  "live_group t grp =
     map pr_pid (filter (\<lambda>r. pr_group r = grp \<and> \<not> exited (pr_status r)) (om_values (records t)))"

text \<open>The inner \<open>for\<close> of \<open>process_tree\<close> over the records, and its outer \<open>while\<close> over the growing
  work list. A round either adds a process that was not selected or moves the index forward, so the
  loop ends.\<close>

fun select_children :: "process_id \<Rightarrow> process_record list \<Rightarrow> process_id list \<Rightarrow> process_id list" where
  "select_children parent [] sel = sel"
| "select_children parent (r # rs) sel =
     select_children parent rs
       (if pr_ppid r = parent \<and> pr_pid r \<notin> set sel then sel @ [pr_pid r] else sel)"

lemma select_children_spec: "\<exists>xs. select_children parent rs sel = sel @ xs
    \<and> set xs = {pr_pid r |r. r \<in> set rs \<and> pr_ppid r = parent} - set sel \<and> distinct xs"
proof (induction parent rs sel rule: select_children.induct)
  case (2 parent r rs sel)
  show ?case
  proof (cases "pr_ppid r = parent \<and> pr_pid r \<notin> set sel")
    case True
    with 2 obtain xs where xs: "select_children parent rs (sel @ [pr_pid r]) = (sel @ [pr_pid r]) @ xs"
        "set xs = {pr_pid r |r. r \<in> set rs \<and> pr_ppid r = parent} - set (sel @ [pr_pid r])" "distinct xs"
      by auto
    show ?thesis
      by (rule exI [of _ "pr_pid r # xs"]) (use True xs in auto)
  next
    case False
    with 2 show ?thesis by auto
  qed
qed simp

lemma select_children_progress:
  assumes "index < length sel"
  shows "(card (pr_pid ` set rs - set (select_children p rs sel)) < card (pr_pid ` set rs - set sel))
    \<or> select_children p rs sel = sel"
proof -
  obtain xs where xs: "select_children p rs sel = sel @ xs"
      "set xs = {pr_pid r |r. r \<in> set rs \<and> pr_ppid r = p} - set sel"
    using select_children_spec [of p rs sel] by auto
  show ?thesis
  proof (cases "xs = []")
    case False
    then obtain x where "x \<in> set xs" by (cases xs) auto
    with xs have "x \<in> pr_pid ` set rs - set sel" "x \<notin> pr_pid ` set rs - set (sel @ xs)" by auto
    then have "pr_pid ` set rs - set (sel @ xs) \<subset> pr_pid ` set rs - set sel" by auto
    then show ?thesis unfolding xs(1) by (intro disjI1 psubset_card_mono) auto
  qed (simp add: xs(1))
qed

function tree_loop :: "process_record list \<Rightarrow> process_id list \<Rightarrow> nat \<Rightarrow> process_id list" where
  "tree_loop rs sel index =
     (if index < length sel then tree_loop rs (select_children (sel ! index) rs sel) (Suc index)
      else sel)"
  by pat_completeness auto

termination
proof (relation "measures [\<lambda>(rs, sel, i). card (pr_pid ` set rs - set sel),
    \<lambda>(rs, sel, i). length sel - i]", goal_cases)
  case (2 rs sel index)
  then show ?case using select_children_progress [OF 2, of rs "sel ! index"] by auto
qed simp

declare tree_loop.simps [simp del]

definition process_tree :: "process_table \<Rightarrow> process_id \<Rightarrow> process_id list" where
  "process_tree t root =
     sort (filter (om_contains (records t)) (tree_loop (om_values (records t)) [root] 0))"

definition live_process_tree :: "process_table \<Rightarrow> process_id \<Rightarrow> process_id list" where
  "live_process_tree t root =
     filter (\<lambda>p. case proc t p of Some r \<Rightarrow> \<not> exited (pr_status r) | None \<Rightarrow> False)
       (process_tree t root)"

definition reap_process :: "process_table \<Rightarrow> process_id \<Rightarrow> process_table \<times> process_record option" where
  "reap_process t p = (case proc t p of
       None \<Rightarrow> (t, None)
     | Some r \<Rightarrow> if exited (pr_status r) then (t\<lparr>records := om_remove p (records t)\<rparr>, Some r)
                 else (t, None))"

section \<open>The table invariant\<close>

definition pt_inv :: "process_table \<Rightarrow> bool" where
  "pt_inv t \<longleftrightarrow> om_size (records t) \<le> MAX_PROCESSES
     \<and> (\<forall>p r. proc t p = Some r \<longrightarrow> pr_pid r = p \<and> p < next_pid t \<and> pr_ppid r < p
           \<and> pr_session r \<le> pr_group r \<and> pr_group r \<le> p)
     \<and> (\<forall>p q r r'. proc t p = Some r \<longrightarrow> proc t q = Some r' \<longrightarrow> pr_group r = pr_group r'
           \<longrightarrow> pr_session r = pr_session r')"

lemma pt_invD:
  assumes "pt_inv t" "proc t p = Some r"
  shows "pr_pid r = p" "p < next_pid t" "pr_ppid r < p" "pr_session r \<le> pr_group r" "pr_group r \<le> p"
  using assms unfolding pt_inv_def by blast+

lemma pt_inv_session:
  "pt_inv t \<Longrightarrow> proc t p = Some r \<Longrightarrow> proc t q = Some r' \<Longrightarrow> pr_group r = pr_group r'
    \<Longrightarrow> pr_session r = pr_session r'"
  unfolding pt_inv_def by blast

lemma new_table_inv: "0 < root \<Longrightarrow> root \<le> i32_max \<Longrightarrow> pt_inv (new_table root cwd env)"
  by (auto simp: pt_inv_def new_table_def om_lookup_insert om_size_insert MAX_PROCESSES_def
      word_less_nat_alt word_le_nat_alt unat_saturating_add i32_max_def split: if_splits)

text \<open>Every operation but \<open>spawn\<close> and \<open>reap\<close> rewrites one record in place and keeps its identity.\<close>

lemma pt_inv_update:
  assumes inv: "pt_inv t"
    and keeps: "\<And>r. pr_pid (f r) = pr_pid r \<and> pr_ppid (f r) = pr_ppid r \<and> pr_group (f r) = pr_group r
      \<and> pr_session (f r) = pr_session r"
  shows "pt_inv (t\<lparr>records := om_update p f (records t)\<rparr>)"
proof -
  let ?t = "t\<lparr>records := om_update p f (records t)\<rparr>"
  have same: "\<exists>r0. proc t q = Some r0 \<and> pr_pid r = pr_pid r0 \<and> pr_ppid r = pr_ppid r0
      \<and> pr_group r = pr_group r0 \<and> pr_session r = pr_session r0"
    if "proc ?t q = Some r" for q r
    using that keeps by (auto simp: om_lookup_update split: if_splits)
  show ?thesis
    unfolding pt_inv_def
  proof (intro conjI allI impI)
    show "om_size (records ?t) \<le> MAX_PROCESSES" using inv by (simp add: pt_inv_def)
  next
    fix q r assume "proc ?t q = Some r"
    with same obtain r0 where "proc t q = Some r0" "pr_pid r = pr_pid r0" "pr_ppid r = pr_ppid r0"
      "pr_group r = pr_group r0" "pr_session r = pr_session r0" by blast
    with pt_invD [OF inv this(1)]
    show "pr_pid r = q" "q < next_pid ?t" "pr_ppid r < q" "pr_session r \<le> pr_group r" "pr_group r \<le> q"
      by auto
  next
    fix p1 p2 r1 r2
    assume "proc ?t p1 = Some r1" "proc ?t p2 = Some r2" "pr_group r1 = pr_group r2"
    with same [of p1 r1] same [of p2 r2] pt_inv_session [OF inv] show "pr_session r1 = pr_session r2"
      by metis
  qed
qed

lemma pt_inv_shrink:
  assumes inv: "pt_inv t" and sub: "\<And>q r. proc t' q = Some r \<Longrightarrow> proc t q = Some r"
    and size: "om_size (records t') \<le> om_size (records t)" and next_pid: "next_pid t \<le> next_pid t'"
  shows "pt_inv t'"
  unfolding pt_inv_def
proof (intro conjI allI impI)
  show "om_size (records t') \<le> MAX_PROCESSES" using inv size by (simp add: pt_inv_def)
next
  fix q r assume "proc t' q = Some r"
  note old = pt_invD [OF inv sub [OF this]]
  from old(2) next_pid show "q < next_pid t'" by (rule less_le_trans)
  from old show "pr_pid r = q" "pr_ppid r < q" "pr_session r \<le> pr_group r" "pr_group r \<le> q"
    by blast+
next
  fix p1 p2 r1 r2
  assume "proc t' p1 = Some r1" "proc t' p2 = Some r2" "pr_group r1 = pr_group r2"
  then show "pr_session r1 = pr_session r2" by (rule pt_inv_session [OF inv sub sub])
qed

lemma next_pid_step: "n \<le> i32_max \<Longrightarrow> checked_add n 1 = Some (n + 1) \<and> n < n + 1"
  by (auto simp: checked_add_def i32_max_def word_le_nat_alt word_less_nat_alt unat_word_ariths)

lemma spawn_process_cases:
  assumes "spawn_process t ppid placement cmd cwd env = (t', res)"
  obtains (refused) "res = None" "t' = t"
  | (orphan) n where "res = None" "t' = t\<lparr>next_pid := n\<rparr>" "next_pid t < n"
      "proc t ppid = None"
  | (spawned) n parent r where "res = Some (next_pid t)" "next_pid t < n"
      "om_size (records t) < MAX_PROCESSES" "proc t ppid = Some parent" "next_pid t \<le> i32_max"
      "t' = \<lparr>next_pid = n, records = om_insert (next_pid t) r (records t)\<rparr>"
      "pr_pid r = next_pid t" "pr_ppid r = ppid" "pr_status r = PsRunning"
      "(pr_group r, pr_session r) \<in> {(pr_group parent, pr_session parent),
          (next_pid t, pr_session parent), (next_pid t, next_pid t)}"
proof (cases "MAX_PROCESSES \<le> om_size (records t) \<or> i32_max < next_pid t")
  case True
  with assms refused show thesis by (simp add: spawn_process_def)
next
  case False
  then obtain n where n: "checked_add (next_pid t) 1 = Some n" "next_pid t < n"
    using next_pid_step [of "next_pid t"] not_less by blast
  show thesis
  proof (cases "proc t ppid")
    case None
    with assms False n show thesis by (intro orphan [of n]) (auto simp: spawn_process_def)
  next
    case (Some parent)
    define r where "r = the (proc t' (next_pid t))"
    have "next_pid t \<le> i32_max" "om_size (records t) < MAX_PROCESSES" using False by auto
    with Some assms False n show thesis
      by (intro spawned [of n parent r]; cases placement)
        (auto simp: spawn_process_def Let_def r_def)
  qed
qed

lemma spawn_process_inv:
  assumes inv: "pt_inv t" and run: "spawn_process t ppid placement cmd cwd env = (t', res)"
  shows "pt_inv t'"
  using run
proof (cases rule: spawn_process_cases)
  case refused
  then show ?thesis using inv by simp
next
  case (orphan n)
  then show ?thesis by (intro pt_inv_shrink [OF inv]) auto
next
  case (spawned n parent r)
  note parent = pt_invD [OF inv spawned(4)]
  have old: "q < next_pid t" "pr_group r' < next_pid t" if "proc t q = Some r'" for q r'
    using pt_invD(2) [OF inv that] le_less_trans [OF pt_invD(5) [OF inv that] pt_invD(2) [OF inv that]] by blast+
  have fresh: "proc t (next_pid t) = None" using old(1) by fastforce
  show ?thesis
    unfolding pt_inv_def
  proof (intro conjI allI impI)
    show "om_size (records t') \<le> MAX_PROCESSES" using spawned by (auto simp: om_size_insert fresh)
  next
    fix q r' assume q: "proc t' q = Some r'"
    consider "q = next_pid t" "r' = r" | "proc t q = Some r'"
      using q by (cases "q = next_pid t") (simp_all add: spawned(6))
    then have "pr_pid r' = q \<and> q < next_pid t' \<and> pr_ppid r' < q \<and> pr_session r' \<le> pr_group r'
        \<and> pr_group r' \<le> q"
    proof cases
      case 1
      have "pr_group parent \<le> next_pid t" "pr_session parent \<le> next_pid t"
        using parent by (meson less_imp_le order_trans)+
      then show ?thesis using 1 spawned parent(2,4) by auto
    next
      case 2
      from pt_invD [OF inv 2] less_trans [OF _ spawned(2)] show ?thesis by (auto simp: spawned(6))
    qed
    then show "pr_pid r' = q" "q < next_pid t'" "pr_ppid r' < q" "pr_session r' \<le> pr_group r'"
      "pr_group r' \<le> q" by auto
  next
    fix p1 p2 r1 r2
    assume two: "proc t' p1 = Some r1" "proc t' p2 = Some r2" and same: "pr_group r1 = pr_group r2"
    have with_new: "pr_session r = pr_session r'" if "proc t q = Some r'" "pr_group r = pr_group r'" for q r'
      using spawned(10) that old(2) [OF that(1)] pt_inv_session [OF inv spawned(4) that(1)] by auto
    have "r1 = r \<or> proc t p1 = Some r1" "r2 = r \<or> proc t p2 = Some r2"
      using two by (cases "p1 = next_pid t"; cases "p2 = next_pid t"; simp add: spawned(6))+
    then show "pr_session r1 = pr_session r2"
      using with_new [of p1 r1] with_new [of p2 r2] pt_inv_session [OF inv, of p1 r1 p2 r2] same by fastforce
  qed
qed

lemma reap_process_inv: "pt_inv t \<Longrightarrow> pt_inv (fst (reap_process t p))"
  by (erule pt_inv_shrink)
    (auto simp: reap_process_def om_lookup_remove om_size_remove split: option.splits if_splits)

section \<open>Sequences of table operations\<close>

datatype pt_op =
    PSpawn process_id child_placement string string environment
  | PSetCommand process_id string
  | PSetUid process_id u32
  | PExit process_id int string
  | PMarkSignal process_id signal
  | PStop process_id signal
  | PContinue process_id
  | PUpdateCurrent process_id string environment
  | PUpdateDescriptors process_id "(int, string) omap"
  | PReap process_id

text \<open>The next table, and the process id that \<open>spawn\<close> returned.\<close>

fun pt_run :: "process_table \<Rightarrow> pt_op \<Rightarrow> process_table \<times> process_id option" where
  "pt_run t (PSpawn ppid placement cmd cwd env) = spawn_process t ppid placement cmd cwd env"
| "pt_run t (PSetCommand p c) = (set_command t p c, None)"
| "pt_run t (PSetUid p u) = (set_uid t p u, None)"
| "pt_run t (PExit p c d) = (exit_process t p c d, None)"
| "pt_run t (PMarkSignal p s) = (mark_signal_termination t p s, None)"
| "pt_run t (PStop p s) = (stop_process t p s, None)"
| "pt_run t (PContinue p) = (continue_process t p, None)"
| "pt_run t (PUpdateCurrent p d e) = (update_current t p d e, None)"
| "pt_run t (PUpdateDescriptors p ds) = (update_descriptors t p ds, None)"
| "pt_run t (PReap p) = (fst (reap_process t p), None)"

lemmas record_ops = set_command_def set_uid_def exit_process_def mark_signal_termination_def
  stop_process_def continue_process_def update_current_def update_descriptors_def

lemma record_ops_inv: "pt_inv t \<Longrightarrow> (\<forall>ppid pl c d e. op \<noteq> PSpawn ppid pl c d e) \<Longrightarrow> (\<forall>p. op \<noteq> PReap p)
    \<Longrightarrow> pt_inv (fst (pt_run t op))"
  by (cases op) (auto simp: record_ops intro!: pt_inv_update split: process_status.splits)

lemma pt_run_inv: "pt_inv t \<Longrightarrow> pt_inv (fst (pt_run t op))"
proof (cases op)
  case (PSpawn ppid pl c d e)
  assume "pt_inv t"
  then show ?thesis unfolding PSpawn
    using spawn_process_inv by (metis prod.collapse pt_run.simps(1))
qed (auto simp: reap_process_inv intro: record_ops_inv simp del: pt_run.simps(2-9))

interpretation ptab: op_system pt_run pt_inv
  by unfold_locales (rule pt_run_inv)

lemma next_pid_record_op: "(\<forall>ppid pl c d e. op \<noteq> PSpawn ppid pl c d e) \<Longrightarrow>
    next_pid (fst (pt_run t op)) = next_pid t \<and> snd (pt_run t op) = None"
  by (cases op) (auto simp: record_ops reap_process_def split: option.splits)

text \<open>The allocator never goes back, and what it hands out is its old value.\<close>

lemma pt_run_next_pid:
  "next_pid t \<le> next_pid (fst (pt_run t op))
    \<and> (\<forall>p. snd (pt_run t op) = Some p \<longrightarrow> p = next_pid t \<and> p < next_pid (fst (pt_run t op)))"
proof (cases "\<forall>ppid pl c d e. op \<noteq> PSpawn ppid pl c d e")
  case True
  then show ?thesis using next_pid_record_op by simp
next
  case False
  then obtain ppid pl c d e where op: "op = PSpawn ppid pl c d e" by blast
  obtain t' res where run: "spawn_process t ppid pl c d e = (t', res)" by fastforce
  then have "next_pid t \<le> next_pid t' \<and> (\<forall>p. res = Some p \<longrightarrow> p = next_pid t \<and> p < next_pid t')"
    by (cases rule: spawn_process_cases) auto
  then show ?thesis unfolding op by (simp add: run)
qed

definition spawned_pids :: "process_table \<Rightarrow> pt_op list \<Rightarrow> process_id list" where
  "spawned_pids t ops = List.map_filter id (run_results pt_run t ops)"

lemma spawned_pids_simps [simp]:
  "spawned_pids t [] = []"
  "spawned_pids t (op # ops) = (case snd (pt_run t op) of None \<Rightarrow> [] | Some p \<Rightarrow> [p])
     @ spawned_pids (fst (pt_run t op)) ops"
  by (auto simp: spawned_pids_def map_filter_simps split: option.splits)

lemma spawned_pids_increase:
  "sorted_wrt (<) (spawned_pids t ops) \<and> (\<forall>p\<in>set (spawned_pids t ops). next_pid t \<le> p)"
proof (induction ops arbitrary: t)
  case (Cons op ops)
  from Cons.IH [of "fst (pt_run t op)"] pt_run_next_pid [of t op] show ?case
    by (auto split: option.splits intro: order_trans)
qed simp

section \<open>The process tree\<close>

definition children_of :: "process_record list \<Rightarrow> (process_id \<times> process_id) set" where
  "children_of rs = {(pr_ppid r, pr_pid r) |r. r \<in> set rs}"

lemma tree_loop_reach:
  assumes "distinct sel" "root \<in> set sel" "set sel \<subseteq> (children_of rs)\<^sup>* `` {root}"
    "\<forall>j<index. children_of rs `` {sel ! j} \<subseteq> set sel" "index \<le> length sel"
  shows "distinct (tree_loop rs sel index) \<and> set (tree_loop rs sel index) = (children_of rs)\<^sup>* `` {root}"
  using assms
proof (induction rs sel index rule: tree_loop.induct)
  case (1 rs sel index)
  show ?case
  proof (cases "index < length sel")
    case True
    obtain xs where xs: "select_children (sel ! index) rs sel = sel @ xs" "distinct xs"
        "set xs = {pr_pid r |r. r \<in> set rs \<and> pr_ppid r = sel ! index} - set sel"
      using select_children_spec by blast
    then have kids: "set xs = children_of rs `` {sel ! index} - set sel"
      by (force simp: children_of_def)
    have cur: "sel ! index \<in> (children_of rs)\<^sup>* `` {root}" using "1.prems"(3) nth_mem [OF True] by blast
    have "\<forall>j<Suc index. children_of rs `` {(sel @ xs) ! j} \<subseteq> set (sel @ xs)"
      using "1.prems"(4) True kids by (auto simp: less_Suc_eq nth_append)
    note closed = this
    have "x \<in> (children_of rs)\<^sup>* `` {root}" if "x \<in> set xs" for x
      using cur that kids by (simp add: rtrancl.rtrancl_into_rtrancl)
    then have reach: "set (sel @ xs) \<subseteq> (children_of rs)\<^sup>* `` {root}"
      using "1.prems"(3) by auto
    have "distinct (sel @ xs)" "root \<in> set (sel @ xs)" "Suc index \<le> length (sel @ xs)"
      using "1.prems"(1,2) xs(2) kids True by auto
    note ih = "1.IH" [OF True, unfolded xs(1), OF this(1,2) reach closed this(3)]
    have "tree_loop rs sel index = tree_loop rs (sel @ xs) (Suc index)"
      using True by (subst tree_loop.simps) (simp add: xs(1))
    with ih show ?thesis by simp
  next
    case False
    then have "index = length sel" using "1.prems"(5) by simp
    then have closed: "children_of rs `` set sel \<subseteq> set sel"
      using "1.prems"(4) by (fastforce simp: in_set_conv_nth)
    have "(children_of rs)\<^sup>* `` {root} \<subseteq> set sel"
      using Image_closed_trancl [OF closed] "1.prems"(2) by auto
    moreover have "tree_loop rs sel index = sel" using False by (subst tree_loop.simps) simp
    ultimately show ?thesis using "1.prems"(1,3) by auto
  qed
qed

definition parent_link :: "process_table \<Rightarrow> (process_id \<times> process_id) set" where
  "parent_link t = {(pr_ppid r, p) |p r. proc t p = Some r}"

lemma children_of_table: "pt_inv t \<Longrightarrow> children_of (om_values (records t)) = parent_link t"
  by (auto simp: children_of_def parent_link_def om_set_values pt_invD)

lemma process_tree_reachable:
  assumes "pt_inv t"
  shows "process_tree t root = sorted_list_of_set {p. om_contains (records t) p \<and> (root, p) \<in> (parent_link t)\<^sup>*}"
proof -
  let ?sel = "tree_loop (om_values (records t)) [root] 0"
  have "distinct ?sel \<and> set ?sel = (children_of (om_values (records t)))\<^sup>* `` {root}"
    by (rule tree_loop_reach) auto
  then have "distinct ?sel" "set ?sel = (parent_link t)\<^sup>* `` {root}"
    by (simp_all add: children_of_table [OF assms])
  then have "distinct (filter (om_contains (records t)) ?sel)"
    and sel: "{p. om_contains (records t) p \<and> (root, p) \<in> (parent_link t)\<^sup>*}
        = set (filter (om_contains (records t)) ?sel)"
    by auto
  then show ?thesis
    unfolding process_tree_def sel sorted_list_of_set_sort_remdups by (simp only: distinct_remdups_id)
qed

section \<open>Command labels\<close>

text \<open>Both labelling functions keep the longest prefix of whole characters that fits.\<close>

fun join_args :: "string list \<Rightarrow> string" where
  "join_args [] = []"
| "join_args (a # as) = a @ concat (map ((#) CHR '' '') as)"

abbreviation starts_char :: "string \<Rightarrow> bool" where
  "starts_char s \<equiv> s = [] \<or> \<not> continuation (hd s)"

lemma concat_chars [simp]: "concat (chars s) = s"
  by (induction s rule: chars.induct) simp_all

lemma takeWhile_append_starts:
  "starts_char ys \<Longrightarrow> takeWhile continuation (xs @ ys) = takeWhile continuation xs"
  "starts_char ys \<Longrightarrow> dropWhile continuation (xs @ ys) = dropWhile continuation xs @ ys"
  by (induction xs; cases ys; simp)+

lemma chars_append: "starts_char ys \<Longrightarrow> chars (xs @ ys) = chars xs @ chars ys"
  by (induction xs rule: chars.induct) (simp_all add: takeWhile_append_starts)

lemma push_chars_append: "push_chars l (xs @ ys)
    = (case push_chars l xs of (l', stop) \<Rightarrow> if stop then (l', True) else push_chars l' ys)"
  by (induction l xs rule: push_chars.induct) simp_all

lemma push_chars_bound: "length l \<le> MAX_COMMAND_BYTES \<Longrightarrow> length (fst (push_chars l cs)) \<le> MAX_COMMAND_BYTES"
  by (induction l cs rule: push_chars.induct) simp_all

lemma push_arguments_chars:
  assumes "length l \<le> MAX_COMMAND_BYTES" "\<forall>a\<in>set args. starts_char a"
  shows "push_arguments (Suc i) l args = fst (push_chars l (chars (concat (map ((#) CHR '' '') args))))"
  using assms
proof (induction args arbitrary: i l)
  case (Cons a args)
  let ?rest = "concat (map ((#) CHR '' '') args)"
  have sp: "\<not> continuation CHR '' ''" by (simp add: continuation_def)
  have "chars (a @ ?rest) = chars a @ chars ?rest"
    by (rule chars_append) (cases args; simp add: sp)
  moreover have "takeWhile continuation (a @ ?rest) = []" "dropWhile continuation (a @ ?rest) = a @ ?rest"
    using Cons.prems(2) by (cases a; cases args; simp add: sp)+
  ultimately have split: "chars (CHR '' '' # a @ ?rest) = '' '' # chars a @ chars ?rest" by simp
  show ?case
  proof (cases "length l = MAX_COMMAND_BYTES")
    case True
    then show ?thesis using split by simp
  next
    case False
    obtain l' stop where push: "push_chars (l @ '' '') (chars a) = (l', stop)" by fastforce
    have "length l' \<le> MAX_COMMAND_BYTES"
      using push_chars_bound [of "l @ '' ''" "chars a"] push False Cons.prems(1) by simp
    with Cons.IH [of l'] Cons.prems False push split show ?thesis
      by (cases stop) (simp_all add: push_chars_append)
  qed
qed simp

lemma boundary_below_eq:
  "m \<le> n \<Longrightarrow> is_char_boundary s m \<Longrightarrow> (\<And>i. m < i \<Longrightarrow> i \<le> n \<Longrightarrow> \<not> is_char_boundary s i)
    \<Longrightarrow> boundary_below s n = m"
  by (induction n) (auto simp: le_Suc_eq)

lemma push_chars_truncate:
  assumes "length l \<le> MAX_COMMAND_BYTES" "l = [] \<or> starts_char s"
  shows "fst (push_chars l (chars s)) = truncate_label (l @ s)"
  using assms
proof (induction s arbitrary: l rule: chars.induct)
  case 1
  then show ?case by (simp add: truncate_label_def)
next
  case (2 c cs)
  let ?ch = "c # takeWhile continuation cs" and ?rest = "dropWhile continuation cs"
  have whole: "l @ c # cs = (l @ ?ch) @ ?rest" by simp
  show ?case
  proof (cases "MAX_COMMAND_BYTES < length l + length ?ch")
    case True
    have "boundary_below (l @ c # cs) MAX_COMMAND_BYTES = length l"
    proof (rule boundary_below_eq)
      show "is_char_boundary (l @ c # cs) (length l)"
        using "2.prems"(2) by (auto simp: is_char_boundary_def)
      fix i assume i: "length l < i" "i \<le> MAX_COMMAND_BYTES"
      with True have lt: "i - Suc (length l) < length (takeWhile continuation cs)" by simp
      have "continuation (takeWhile continuation cs ! (i - Suc (length l)))"
        using nth_mem [OF lt] by (rule set_takeWhileD [THEN conjunct2])
      then have "continuation (cs ! (i - Suc (length l)))" by (simp only: takeWhile_nth [OF lt])
      moreover have "i - Suc (length l) < length cs"
        using lt length_takeWhile_le [of continuation cs] by simp
      ultimately show "\<not> is_char_boundary (l @ c # cs) i"
        using i(1) by (auto simp: is_char_boundary_def nth_append nth_Cons')
    qed (rule "2.prems"(1))
    moreover have "MAX_COMMAND_BYTES < length (l @ c # cs)"
      using True length_takeWhile_le [of continuation cs] by simp
    ultimately show ?thesis using True by (simp add: truncate_label_def)
  next
    case False
    then have "fst (push_chars (l @ ?ch) (chars ?rest)) = truncate_label ((l @ ?ch) @ ?rest)"
      using hd_dropWhile [of continuation cs] by (intro "2.IH") auto
    moreover have "fst (push_chars l (chars (c # cs))) = fst (push_chars (l @ ?ch) (chars ?rest))"
      using False by simp
    ultimately show ?thesis by (simp only: whole)
  qed
qed

section \<open>Signal names\<close>

definition ascii_lowercase :: "char \<Rightarrow> char" where
  "ascii_lowercase c = (if 65 \<le> (of_char c :: nat) \<and> (of_char c :: nat) \<le> 90
     then char_of ((of_char c :: nat) + 32) else c)"

definition two_digits :: "int \<Rightarrow> string" where
  "two_digits n = (if n < 10 then [''0123456789'' ! nat n]
     else [''0123456789'' ! (nat n div 10), ''0123456789'' ! (nat n mod 10)])"

lemma ascii_case [simp]: "ascii_uppercase (ascii_lowercase c) = ascii_uppercase c"
  by (auto simp: ascii_uppercase_def ascii_lowercase_def)

lemma signal_parse_case: "signal_parse (map ascii_lowercase v) = signal_parse v"
  by (simp add: signal_parse_def comp_def)

section \<open>Properties\<close>

text \<open>C13. After any sequence of operations on the process table, every record is stored under its own
  id, its parent is older than it, its session and its process group are led by ids no younger than
  it, two processes of one group are in one session, at most 1024 records are retained, and every id in use is
  below the allocator.\<close>

theorem process_table_invariant:
  assumes "0 < root" "root \<le> i32_max"
  shows "pt_inv (run_ops pt_run (new_table root cwd env) ops)"
  by (rule ptab.run_ops_inv [OF new_table_inv [OF assms]])

theorem process_table_invariant_witness:
  "pt_inv (run_ops pt_run (new_table 1000 ''/'' om_empty)
     [PSpawn 1000 NewSession ''sh'' ''/'' om_empty, PExit 1001 0 ''/'', PReap 1001])"
  by (rule process_table_invariant) (simp_all add: i32_max_def)

text \<open>C14. A process id is never handed out twice: over any sequence of operations, reaping
  included, the ids that \<open>spawn\<close> returns increase strictly and lie above the root's id.\<close>

theorem spawned_pids_never_reused:
  assumes "root \<le> i32_max"
  shows "sorted_wrt (<) (root # spawned_pids (new_table root cwd env) ops)"
proof -
  have "root < next_pid (new_table root cwd env)"
    using assms by (simp add: new_table_def word_less_nat_alt word_le_nat_alt unat_saturating_add
        i32_max_def)
  with spawned_pids_increase [of "new_table root cwd env" ops] show ?thesis
    by (auto intro: less_le_trans)
qed

theorem spawned_pids_never_reused_witness:
  "\<exists>ops. spawned_pids (new_table 1000 ''/'' om_empty) ops = [1001, 1002]
    \<and> sorted_wrt (<) (1000 # spawned_pids (new_table 1000 ''/'' om_empty) ops)"
proof -
  let ?ops = "[PSpawn 1000 Inherit ''a'' ''/'' om_empty, PExit 1001 0 ''/'', PReap 1001,
    PSpawn 1000 Inherit ''b'' ''/'' om_empty]"
  have "spawned_pids (new_table 1000 ''/'' om_empty) ?ops = [1001, 1002]"
    by (simp add: new_table_def spawn_process_def exit_process_def reap_process_def om_lookup_insert
        om_lookup_remove om_lookup_update om_size_insert om_size_remove MAX_PROCESSES_def i32_max_def
        saturating_add_def checked_add_def)
  moreover have "sorted_wrt (<) (1000 # spawned_pids (new_table 1000 ''/'' om_empty) ?ops)"
    by (rule spawned_pids_never_reused) (simp add: i32_max_def)
  ultimately show ?thesis by blast
qed

text \<open>The work-list loop of \<open>process_tree\<close> ends and selects exactly the retained processes that
  descend from the given one (itself included when it is retained), in increasing id order.\<close>

theorem process_tree_descendants:
  assumes "pt_inv t"
  shows "process_tree t root
    = sorted_list_of_set {p. om_contains (records t) p \<and> (root, p) \<in> (parent_link t)\<^sup>*}"
  using assms by (rule process_tree_reachable)

theorem process_tree_descendants_witness:
  "\<exists>t. proc t 1000 \<noteq> None \<and> process_tree t 1000
    = sorted_list_of_set {p. om_contains (records t) p \<and> (1000, p) \<in> (parent_link t)\<^sup>*}"
proof -
  let ?t = "new_table 1000 ''/'' om_empty"
  have "pt_inv ?t" by (rule new_table_inv) (simp_all add: i32_max_def)
  from process_tree_descendants [OF this, of 1000] show ?thesis
    by (intro exI [of _ ?t]) (simp add: new_table_def)
qed

text \<open>Building a label from an argument vector character by character equals joining the
  arguments with blanks and truncating the result at the last character boundary within 4096 bytes:
  the two label functions of the process table agree.\<close>

theorem command_label_truncates:
  assumes "\<forall>a\<in>set argv. starts_char a"
  shows "command_label argv = truncate_label (join_args argv)"
proof (cases argv)
  case (Cons a args)
  have sp: "\<not> continuation CHR '' ''" by (simp add: continuation_def)
  let ?rest = "concat (map ((#) CHR '' '') args)"
  have "chars (a @ ?rest) = chars a @ chars ?rest"
    by (rule chars_append) (cases args; simp add: sp)
  then have "fst (push_chars [] (chars (a @ ?rest))) = command_label argv"
    using push_arguments_chars [of "fst (push_chars [] (chars a))" args 0] assms
      push_chars_bound [of "[]" "chars a"]
    by (auto simp: command_label_def Cons push_chars_append split: prod.splits)
  then show ?thesis using push_chars_truncate [of "[]" "a @ ?rest"] by (simp add: Cons)
qed (simp add: command_label_def truncate_label_def)

theorem command_label_truncates_witness:
  "command_label [''echo'', ''hi''] = ''echo hi''"
  using command_label_truncates [of "[''echo'', ''hi'']"]
  by (simp add: truncate_label_def MAX_COMMAND_BYTES_def continuation_def)

text \<open>Signal names and numbers round-trip through the parser: a signal's name, its name with
  the \<open>SIG\<close> prefix, its lower-case name and its decimal number all parse back to the signal.\<close>

theorem signal_parse_roundtrip:
  "signal_parse (signal_name s) = Some s \<and> signal_parse (''SIG'' @ signal_name s) = Some s
    \<and> signal_parse (map ascii_lowercase (signal_name s)) = Some s
    \<and> signal_parse (two_digits (signal_number s)) = Some s"
  unfolding signal_parse_case
  by (cases s) (simp_all add: signal_parse_def strip_sig_def ascii_uppercase_def two_digits_def)

text \<open>The wait status follows the POSIX encoding, so that a signal death and an exit with
  \<open>128 + n\<close> stay apart: the low seven bits of an exit are zero and the next byte is the exit code
  modulo 256; of a signal death they are the signal's number, which is not zero.\<close>

theorem wait_status_decodes:
  "case c of
     CompExit code \<Rightarrow> wait_status c AND 127 = 0 \<and> drop_bit 8 (wait_status c) = code mod 256
   | CompSignal s \<Rightarrow> wait_status c AND 127 = signal_number s \<and> 0 < signal_number s
       \<and> drop_bit 8 (wait_status c) = 0"
proof (cases c)
  case (CompExit code)
  have "push_bit 8 x AND mask 7 = 0" for x :: int
    by (simp only: take_bit_eq_mask [symmetric] take_bit_push_bit) simp
  then have "push_bit 8 x AND 127 = 0" for x :: int by (simp add: mask_eq_exp_minus_1)
  moreover have "drop_bit 8 (push_bit 8 x) = x" for x :: int
    by (simp add: push_bit_eq_mult drop_bit_eq_div)
  moreover have "code AND 255 = code mod 256"
    using take_bit_eq_mask [of 8 code] by (simp add: mask_eq_exp_minus_1 take_bit_eq_mod)
  ultimately show ?thesis by (simp add: CompExit)
next
  case (CompSignal s)
  then show ?thesis by (cases s) simp_all
qed

end
