(* ===== verification/Timeline.thy ===== *)
theory Timeline
  imports Process
begin

text \<open>
  The virtual clock of \<open>src/src/clock.rs\<close>: monotonic time, the wall-clock offset, the map of pending
  events ordered by deadline and insertion sequence, and the queue of fired events. An \<open>i128\<close> is an
  \<open>int\<close> whose checked additions test the range. The loop of \<open>block_task\<close> may run forever on an empty
  timeline, so it is a \<open>partial_function\<close> into \<open>option\<close>; that it always returns is proved.

  \<open>tl_inv\<close> bounds the events against the clock, the sequence counter and the limits. Under it
  advancing fires exactly the due events, firing is in one global order, the clock never runs
  backwards, and blocking a task ends at its wake-up or at the first deadline of the task.
\<close>

section \<open>Events\<close>

datatype event_id = EventId (deadline_ns: u64) (ev_sequence: u64)

instantiation event_id :: linorder
begin

definition less_eq_event_id :: "event_id \<Rightarrow> event_id \<Rightarrow> bool" where
  "less_eq_event_id a b \<longleftrightarrow> deadline_ns a < deadline_ns b
     \<or> (deadline_ns a = deadline_ns b \<and> ev_sequence a \<le> ev_sequence b)"

definition less_event_id :: "event_id \<Rightarrow> event_id \<Rightarrow> bool" where
  "less_event_id a b \<longleftrightarrow> deadline_ns a < deadline_ns b
     \<or> (deadline_ns a = deadline_ns b \<and> ev_sequence a < ev_sequence b)"

instance
  by standard (auto simp: less_eq_event_id_def less_event_id_def intro: event_id.expand)

end

datatype event_kind =
    WakeTask u64
  | Deadline u64
  | SignalTask u64 signal bool
  | External string string

record scheduled_event =
  ev_id :: event_id
  ev_kind :: event_kind

definition NANOS_PER_MILLISECOND :: u64 where
  "NANOS_PER_MILLISECOND = 1000000"

definition NANOS_PER_SECOND :: u64 where
  "NANOS_PER_SECOND = 1000000000"

definition DEFAULT_EPOCH_UTC_NS :: int where
  "DEFAULT_EPOCH_UTC_NS = 1735689600000000000"

definition MAIN_TASK_ID :: u64 where
  "MAIN_TASK_ID = 0"

record timeline_limits =
  max_pending_events :: nat
  max_event_horizon_ns :: u64

definition default_timeline_limits :: timeline_limits where
  "default_timeline_limits = \<lparr>max_pending_events = 16384,
     max_event_horizon_ns = 100 * 365 * 24 * 60 * 60 * NANOS_PER_SECOND\<rparr>"

datatype timeline_error =
    TlOverflow
  | WouldRewind u64 u64
  | EventLimit nat
  | EventBeyondHorizon u64

datatype block_outcome = Completed | Interrupted scheduled_event

record timeline =
  monotonic_ns :: u64
  epoch_utc_ns :: int
  wall_adjustment_ns :: int
  next_sequence :: u64
  pending :: "(event_id, event_kind) omap"
  ready :: "scheduled_event list"
  tl_limits :: timeline_limits
  slept_ns :: u64

type_synonym 'a tl_result = "timeline \<times> (timeline_error, 'a) outcome"

definition with_epoch_and_limits :: "int \<Rightarrow> timeline_limits \<Rightarrow> timeline" where
  "with_epoch_and_limits epoch limits =
     \<lparr>monotonic_ns = 0, epoch_utc_ns = epoch, wall_adjustment_ns = 0, next_sequence = 0,
      pending = om_empty, ready = [], tl_limits = limits, slept_ns = 0\<rparr>"

definition with_epoch :: "int \<Rightarrow> timeline" where
  "with_epoch epoch = with_epoch_and_limits epoch default_timeline_limits"

definition new_timeline :: timeline where
  "new_timeline = with_epoch_and_limits DEFAULT_EPOCH_UTC_NS default_timeline_limits"

section \<open>Wall-clock time\<close>

definition checked_add_i128 :: "int \<Rightarrow> int \<Rightarrow> int option" where
  "checked_add_i128 a b = (if - (2 ^ 127) \<le> a + b \<and> a + b < 2 ^ 127 then Some (a + b) else None)"

definition wall_time_ns :: "timeline \<Rightarrow> (timeline_error, int) outcome" where
  "wall_time_ns clk = ok_or
     (Option.bind (checked_add_i128 (epoch_utc_ns clk) (uint (monotonic_ns clk)))
        (\<lambda>v. checked_add_i128 v (wall_adjustment_ns clk))) TlOverflow"

definition wall_time_millis :: "timeline \<Rightarrow> (timeline_error, int) outcome" where
  "wall_time_millis clk = bind_oc (wall_time_ns clk) (\<lambda>v. Ok (v div uint NANOS_PER_MILLISECOND))"

definition wall_time_seconds_floor :: "timeline \<Rightarrow> (timeline_error, int) outcome" where
  "wall_time_seconds_floor clk = bind_oc (wall_time_ns clk) (\<lambda>v. Ok (v div uint NANOS_PER_SECOND))"

definition adjust_wall_time :: "timeline \<Rightarrow> int \<Rightarrow> unit tl_result" where
  "adjust_wall_time clk delta =
     try_in clk (ok_or (checked_add_i128 (wall_adjustment_ns clk) delta) TlOverflow)
       (\<lambda>adjustment. try_in clk
          (ok_or (Option.bind (checked_add_i128 (epoch_utc_ns clk) (uint (monotonic_ns clk)))
             (\<lambda>v. checked_add_i128 v adjustment)) TlOverflow)
          (\<lambda>_. (clk\<lparr>wall_adjustment_ns := adjustment\<rparr>, Ok ())))"

section \<open>Scheduling and cancelling\<close>

definition next_deadline_ns :: "timeline \<Rightarrow> u64 option" where
  "next_deadline_ns clk = (case om_entries (pending clk) of
       [] \<Rightarrow> None | (i, _) # _ \<Rightarrow> Some (deadline_ns i))"

definition schedule_at :: "timeline \<Rightarrow> u64 \<Rightarrow> event_kind \<Rightarrow> event_id tl_result" where
  "schedule_at clk deadline kind =
     (if deadline < monotonic_ns clk then (clk, Err (WouldRewind (monotonic_ns clk) deadline))
      else if max_pending_events (tl_limits clk) \<le> om_size (pending clk) + length (ready clk)
        then (clk, Err (EventLimit (max_pending_events (tl_limits clk))))
      else if max_event_horizon_ns (tl_limits clk) < deadline - monotonic_ns clk
        then (clk, Err (EventBeyondHorizon (max_event_horizon_ns (tl_limits clk))))
      else
        let i = EventId deadline (next_sequence clk)
        in try_in clk (ok_or (checked_add (next_sequence clk) 1) TlOverflow)
             (\<lambda>n. (clk\<lparr>next_sequence := n, pending := om_insert i kind (pending clk)\<rparr>, Ok i)))"

definition schedule_after :: "timeline \<Rightarrow> u64 \<Rightarrow> event_kind \<Rightarrow> event_id tl_result" where
  "schedule_after clk delay kind =
     try_in clk (ok_or (checked_add (monotonic_ns clk) delay) TlOverflow)
       (\<lambda>deadline. schedule_at clk deadline kind)"

definition schedule_wake_after :: "timeline \<Rightarrow> u64 \<Rightarrow> u64 \<Rightarrow> event_id tl_result" where
  "schedule_wake_after clk owner duration =
     and_then (schedule_after clk duration (WakeTask owner))
       (\<lambda>clk' ev. (clk'\<lparr>slept_ns := saturating_add (slept_ns clk') duration\<rparr>, Ok ev))"

definition cancel :: "timeline \<Rightarrow> event_id \<Rightarrow> timeline \<times> bool" where
  "cancel clk i = (clk\<lparr>pending := om_remove i (pending clk)\<rparr>, om_contains (pending clk) i)"

fun owned_by :: "u64 \<Rightarrow> event_kind \<Rightarrow> bool" where
  "owned_by t (WakeTask owner) = (owner = t)"
| "owned_by t (Deadline owner) = (owner = t)"
| "owned_by t (SignalTask owner _ _) = (owner = t)"
| "owned_by t (External _ _) = False"

definition cancel_task_events :: "timeline \<Rightarrow> u64 \<Rightarrow> timeline \<times> nat" where
  "cancel_task_events clk t =
     (let ids = map fst (filter (\<lambda>(_, kind). owned_by t kind) (om_entries (pending clk)));
          pending' = fold om_remove ids (pending clk);
          ready' = retain (\<lambda>ev. \<not> owned_by t (ev_kind ev)) (ready clk)
      in (clk\<lparr>pending := pending', ready := ready'\<rparr>, length ids))"

section \<open>Advancing\<close>

fun fire_due :: "timeline \<Rightarrow> event_id list \<Rightarrow> scheduled_event list \<Rightarrow> scheduled_event list tl_result" where
  "fire_due clk [] fired = (clk, Ok fired)"
| "fire_due clk (i # is) fired = (case om_lookup (pending clk) i of
       None \<Rightarrow> (clk, Panic)
     | Some kind \<Rightarrow>
         let ev = \<lparr>ev_id = i, ev_kind = kind\<rparr>
         in fire_due (clk\<lparr>pending := om_remove i (pending clk), ready := ready clk @ [ev]\<rparr>) is
              (fired @ [ev]))"

definition advance_to :: "timeline \<Rightarrow> u64 \<Rightarrow> scheduled_event list tl_result" where
  "advance_to clk target =
     (if target < monotonic_ns clk then (clk, Err (WouldRewind (monotonic_ns clk) target))
      else
        let clk' = clk\<lparr>monotonic_ns := target\<rparr>;
            due_ids = filter (\<lambda>i. i \<le> EventId target u64_max) (om_keys (pending clk'))
        in fire_due clk' due_ids [])"

definition advance_by :: "timeline \<Rightarrow> u64 \<Rightarrow> scheduled_event list tl_result" where
  "advance_by clk duration =
     try_in clk (ok_or (checked_add (monotonic_ns clk) duration) TlOverflow) (advance_to clk)"

definition advance_to_next :: "timeline \<Rightarrow> scheduled_event list tl_result" where
  "advance_to_next clk = (case next_deadline_ns clk of
       Some deadline \<Rightarrow> advance_to clk deadline
     | None \<Rightarrow> (clk, Ok []))"

definition pop_ready :: "timeline \<Rightarrow> timeline \<times> scheduled_event option" where
  "pop_ready clk = (case ready clk of [] \<Rightarrow> (clk, None) | ev # evs \<Rightarrow> (clk\<lparr>ready := evs\<rparr>, Some ev))"

definition remove_ready :: "timeline \<Rightarrow> event_id \<Rightarrow> timeline" where
  "remove_ready clk i = clk\<lparr>ready := retain (\<lambda>ev. ev_id ev \<noteq> i) (ready clk)\<rparr>"

text \<open>The \<open>for\<close> over the fired batch: the first event that ends the block, if there is one.\<close>

fun scan_fired :: "timeline \<Rightarrow> event_id \<Rightarrow> u64 \<Rightarrow> scheduled_event list \<Rightarrow> (timeline \<times> block_outcome) option" where
  "scan_fired clk wake_id t [] = None"
| "scan_fired clk wake_id t (ev # evs) =
     (if ev_id ev = wake_id \<and> ev_kind ev = WakeTask t
        then Some (remove_ready clk (ev_id ev), Completed)
      else if ev_kind ev = Deadline t
        then Some (remove_ready (remove_ready (fst (cancel clk wake_id)) wake_id) (ev_id ev), Interrupted ev)
      else scan_fired clk wake_id t evs)"

partial_function (option) block_loop :: "timeline \<Rightarrow> event_id \<Rightarrow> u64 \<Rightarrow> block_outcome tl_result option" where
  [code]: "block_loop clk wake_id t = (case advance_to_next clk of
       (clk', Ok fired) \<Rightarrow> (case scan_fired clk' wake_id t fired of
           Some (clk'', out) \<Rightarrow> Some (clk'', Ok out)
         | None \<Rightarrow> block_loop clk' wake_id t)
     | (clk', Err e) \<Rightarrow> Some (clk', Err e)
     | (clk', Panic) \<Rightarrow> Some (clk', Panic))"

definition block_task :: "timeline \<Rightarrow> u64 \<Rightarrow> u64 \<Rightarrow> block_outcome tl_result option" where
  "block_task clk t duration = (case schedule_wake_after clk t duration of
       (clk', Ok wake_id) \<Rightarrow> block_loop clk' wake_id t
     | (clk', Err e) \<Rightarrow> Some (clk', Err e)
     | (clk', Panic) \<Rightarrow> Some (clk', Panic))"

text \<open>The events that fire in the course of \<open>block_task\<close>: the batches of all its rounds.\<close>

partial_function (option) block_fired :: "timeline \<Rightarrow> event_id \<Rightarrow> u64 \<Rightarrow> scheduled_event list option" where
  [code]: "block_fired clk wake_id t = (case advance_to_next clk of
       (clk', Ok fired) \<Rightarrow> (case scan_fired clk' wake_id t fired of
           Some _ \<Rightarrow> Some fired
         | None \<Rightarrow> Option.bind (block_fired clk' wake_id t) (\<lambda>evs. Some (fired @ evs)))
     | _ \<Rightarrow> Some [])"

definition task_fired :: "timeline \<Rightarrow> u64 \<Rightarrow> u64 \<Rightarrow> scheduled_event list option" where
  "task_fired clk t duration = (case schedule_wake_after clk t duration of
       (clk', Ok wake_id) \<Rightarrow> block_fired clk' wake_id t
     | _ \<Rightarrow> Some [])"

section \<open>Millisecond views\<close>

definition now_ms :: "timeline \<Rightarrow> u64" where
  "now_ms clk = monotonic_ns clk div NANOS_PER_MILLISECOND"

definition u64_of_i128 :: "(timeline_error, int) outcome \<Rightarrow> u64" where
  \<comment> \<open>\<open>.ok().and_then(|value| u64::try_from(value).ok()).unwrap_or_default()\<close>\<close>
  "u64_of_i128 r = (case r of Ok v \<Rightarrow> if 0 \<le> v \<and> v < 2 ^ 64 then word_of_int v else 0 | _ \<Rightarrow> 0)"

definition unix_ms :: "timeline \<Rightarrow> u64" where
  "unix_ms clk = u64_of_i128 (wall_time_millis clk)"

definition unix_secs :: "timeline \<Rightarrow> u64" where
  "unix_secs clk = u64_of_i128 (wall_time_seconds_floor clk)"

definition sleep_ms :: "timeline \<Rightarrow> u64 \<Rightarrow> timeline option" where
  "sleep_ms clk millis =
     map_option fst (block_task clk MAIN_TASK_ID (saturating_mul millis NANOS_PER_MILLISECOND))"

definition tick :: "timeline \<Rightarrow> u64 \<Rightarrow> timeline" where
  "tick clk ticks = fst (advance_by clk (saturating_mul ticks NANOS_PER_MILLISECOND))"

section \<open>The timeline invariant\<close>

abbreviation pend :: "timeline \<Rightarrow> event_id \<Rightarrow> event_kind option" where
  "pend clk i \<equiv> om_lookup (pending clk) i"

definition event_ok :: "timeline \<Rightarrow> event_id \<Rightarrow> bool" where
  "event_ok clk i \<longleftrightarrow> monotonic_ns clk \<le> deadline_ns i \<and> ev_sequence i < next_sequence clk
     \<and> unat (deadline_ns i) \<le> unat (monotonic_ns clk) + unat (max_event_horizon_ns (tl_limits clk))"

definition tl_inv :: "timeline \<Rightarrow> bool" where
  "tl_inv clk \<longleftrightarrow> (\<forall>i. pend clk i \<noteq> None \<longrightarrow> event_ok clk i)
     \<and> (\<forall>ev\<in>set (ready clk). deadline_ns (ev_id ev) \<le> monotonic_ns clk
           \<and> ev_sequence (ev_id ev) < next_sequence clk)
     \<and> (\<forall>i j. pend clk i \<noteq> None \<longrightarrow> pend clk j \<noteq> None \<longrightarrow> ev_sequence i = ev_sequence j \<longrightarrow> i = j)
     \<and> (\<forall>ev\<in>set (ready clk). \<forall>i. pend clk i \<noteq> None \<longrightarrow> ev_sequence (ev_id ev) \<noteq> ev_sequence i)
     \<and> distinct (map (ev_sequence \<circ> ev_id) (ready clk))
     \<and> om_size (pending clk) + length (ready clk) \<le> max_pending_events (tl_limits clk)"

lemma tl_invD:
  assumes "tl_inv clk"
  shows "pend clk i = Some k \<Longrightarrow> event_ok clk i"
    "ev \<in> set (ready clk) \<Longrightarrow> deadline_ns (ev_id ev) \<le> monotonic_ns clk"
    "ev \<in> set (ready clk) \<Longrightarrow> ev_sequence (ev_id ev) < next_sequence clk"
    "pend clk i = Some k \<Longrightarrow> pend clk j = Some k' \<Longrightarrow> ev_sequence i = ev_sequence j \<Longrightarrow> i = j"
    "ev \<in> set (ready clk) \<Longrightarrow> pend clk i = Some k \<Longrightarrow> ev_sequence (ev_id ev) \<noteq> ev_sequence i"
    "distinct (map (ev_sequence \<circ> ev_id) (ready clk))"
    "om_size (pending clk) + length (ready clk) \<le> max_pending_events (tl_limits clk)"
  using assms unfolding tl_inv_def by blast+

lemma new_timeline_inv: "tl_inv (with_epoch_and_limits epoch limits)"
  by (simp add: tl_inv_def with_epoch_and_limits_def)

text \<open>Removing events keeps the invariant.\<close>

lemma tl_inv_shrink:
  assumes inv: "tl_inv clk"
    and sub: "\<And>i k. pend clk' i = Some k \<Longrightarrow> pend clk i = Some k" "set (ready clk') \<subseteq> set (ready clk)"
    and dist: "distinct (map (ev_sequence \<circ> ev_id) (ready clk'))" "length (ready clk') \<le> length (ready clk)"
    and same: "monotonic_ns clk' = monotonic_ns clk" "next_sequence clk' = next_sequence clk"
      "tl_limits clk' = tl_limits clk"
  shows "tl_inv clk'"
proof -
  have "om_size (pending clk') \<le> om_size (pending clk)"
    by (rule om_size_mono) (use sub(1) in fastforce)
  then have "om_size (pending clk') + length (ready clk') \<le> max_pending_events (tl_limits clk')"
    using tl_invD(7) [OF inv] dist(2) same(3) by simp
  moreover have "event_ok clk' i" if "pend clk' i \<noteq> None" for i
    using tl_invD(1) [OF inv, of i] that sub(1) [of i] by (auto simp: event_ok_def same)
  moreover have "deadline_ns (ev_id ev) \<le> monotonic_ns clk'" "ev_sequence (ev_id ev) < next_sequence clk'"
    if "ev \<in> set (ready clk')" for ev
    using tl_invD(2,3) [OF inv, of ev] that sub(2) by (auto simp: same)
  moreover have "i = j" if "pend clk' i \<noteq> None" "pend clk' j \<noteq> None" "ev_sequence i = ev_sequence j" for i j
    using tl_invD(4) [OF inv, of i _ j] that sub(1) by blast
  moreover have "ev_sequence (ev_id ev) \<noteq> ev_sequence i" if "ev \<in> set (ready clk')" "pend clk' i \<noteq> None" for ev i
    using tl_invD(5) [OF inv, of ev i] that sub by blast
  ultimately show ?thesis using dist(1) unfolding tl_inv_def by blast
qed

lemma distinct_map_filter_ready: "distinct (map f xs) \<Longrightarrow> distinct (map f (filter P xs))"
  by (simp add: distinct_map_filter)

lemma cancel_inv: "tl_inv clk \<Longrightarrow> tl_inv (fst (cancel clk i))"
  by (rule tl_inv_shrink, assumption) (auto simp: cancel_def om_lookup_remove tl_invD(6) split: if_splits)

lemma remove_ready_inv: "tl_inv clk \<Longrightarrow> tl_inv (remove_ready clk i)"
  by (rule tl_inv_shrink, assumption) (auto simp: remove_ready_def distinct_map_filter_ready tl_invD(6))

lemma cancel_task_events_inv: "tl_inv clk \<Longrightarrow> tl_inv (fst (cancel_task_events clk t))"
  by (rule tl_inv_shrink, assumption)
    (auto simp: cancel_task_events_def om_lookup_fold_remove distinct_map_filter_ready tl_invD(6)
      split: if_splits)

lemma pop_ready_inv: "tl_inv clk \<Longrightarrow> tl_inv (fst (pop_ready clk))"
  by (rule tl_inv_shrink, assumption)
    (auto simp: pop_ready_def dest: tl_invD(6) split: list.splits)

lemma tl_inv_cong:
  assumes "tl_inv clk" "pending clk' = pending clk" "ready clk' = ready clk"
    "monotonic_ns clk' = monotonic_ns clk" "next_sequence clk' = next_sequence clk"
    "tl_limits clk' = tl_limits clk"
  shows "tl_inv clk'"
  using assms by (simp add: tl_inv_def event_ok_def)

section \<open>Scheduling\<close>

lemma schedule_at_cases:
  assumes "schedule_at clk d kind = (clk', r)"
  obtains (refused) e where "clk' = clk" "r = Err e"
  | (scheduled) n where "r = Ok (EventId d (next_sequence clk))" "monotonic_ns clk \<le> d"
      "om_size (pending clk) + length (ready clk) < max_pending_events (tl_limits clk)"
      "unat d \<le> unat (monotonic_ns clk) + unat (max_event_horizon_ns (tl_limits clk))"
      "next_sequence clk < n"
      "clk' = clk\<lparr>next_sequence := n, pending := om_insert (EventId d (next_sequence clk)) kind (pending clk)\<rparr>"
proof (cases "\<exists>e. r = Err e")
  case True
  with assms refused show thesis
    by (auto simp: schedule_at_def Let_def try_in_Err split: if_splits)
next
  case False
  with assms obtain n where g: "monotonic_ns clk \<le> d"
      "om_size (pending clk) + length (ready clk) < max_pending_events (tl_limits clk)"
      "d - monotonic_ns clk \<le> max_event_horizon_ns (tl_limits clk)"
      "checked_add (next_sequence clk) 1 = Some n" "r = Ok (EventId d (next_sequence clk))"
      "clk' = clk\<lparr>next_sequence := n, pending := om_insert (EventId d (next_sequence clk)) kind (pending clk)\<rparr>"
    by (cases "checked_add (next_sequence clk) 1") (auto simp: schedule_at_def Let_def not_less not_le split: if_splits)
  have "unat d \<le> unat (monotonic_ns clk) + unat (max_event_horizon_ns (tl_limits clk))"
    using g(1,3) by (simp add: word_le_nat_alt unat_sub)
  moreover have "next_sequence clk < n"
    using g(4) by (simp add: rust_arith word_less_nat_alt)
  ultimately show thesis using g by (intro scheduled [of n])
qed

lemma schedule_at_inv:
  assumes inv: "tl_inv clk" and run: "schedule_at clk d kind = (clk', r)"
  shows "tl_inv clk'"
  using run
proof (cases rule: schedule_at_cases)
  case (scheduled n)
  let ?i = "EventId d (next_sequence clk)"
  have fresh: "ev_sequence i < next_sequence clk" if "pend clk i \<noteq> None" for i
    using tl_invD(1) [OF inv, of i] that by (auto simp: event_ok_def)
  have p: "pend clk' i = (if i = ?i then Some kind else pend clk i)" for i
    by (simp add: scheduled om_lookup_insert)
  have old: "pend clk i \<noteq> None \<or> i = ?i" if "pend clk' i \<noteq> None" for i
    using that by (simp add: p split: if_splits)
  have none: "pend clk ?i = None" using fresh [of ?i] by (cases "pend clk ?i") simp_all
  have "event_ok clk' i" if "pend clk' i \<noteq> None" for i
    using old [OF that] tl_invD(1) [OF inv, of i] less_trans [OF _ scheduled(5)] scheduled(2,4,5)
    by (auto simp: event_ok_def scheduled(6))
  moreover have "deadline_ns (ev_id ev) \<le> monotonic_ns clk'" "ev_sequence (ev_id ev) < next_sequence clk'"
    if "ev \<in> set (ready clk')" for ev
    using tl_invD(2,3) [OF inv, of ev] that less_trans [OF _ scheduled(5)] by (auto simp: scheduled(6))
  moreover have "i = j" if "pend clk' i \<noteq> None" "pend clk' j \<noteq> None" "ev_sequence i = ev_sequence j" for i j
    using old [OF that(1)] old [OF that(2)] that(3)
    by (elim disjE) (use fresh [of i] fresh [of j] in \<open>auto dest: tl_invD(4) [OF inv]\<close>)
  moreover have "ev_sequence (ev_id ev) \<noteq> ev_sequence i" if "ev \<in> set (ready clk')" "pend clk' i \<noteq> None" for ev i
    using old [OF that(2)] tl_invD(3,5) [OF inv, of ev] that(1) by (auto simp: scheduled(6))
  moreover have "distinct (map (ev_sequence \<circ> ev_id) (ready clk'))"
    using tl_invD(6) [OF inv] by (simp add: scheduled(6))
  moreover have "om_size (pending clk') + length (ready clk') \<le> max_pending_events (tl_limits clk')"
    using scheduled(3) none by (simp add: scheduled(6) om_size_insert)
  ultimately show ?thesis unfolding tl_inv_def by blast
qed (simp add: inv)

lemma schedule_after_at: "schedule_after clk d kind = (clk', r) \<Longrightarrow>
    (clk' = clk \<and> r = Err TlOverflow)
    \<or> (\<exists>t. unat t = unat (monotonic_ns clk) + unat d \<and> schedule_at clk t kind = (clk', r))"
  by (cases "checked_add (monotonic_ns clk) d") (auto simp: schedule_after_def rust_arith)

lemma schedule_wake_after_after: "schedule_wake_after clk t d = (clk', r) \<Longrightarrow>
    \<exists>clk1. schedule_after clk d (WakeTask t) = (clk1, r)
      \<and> clk' = (case r of Ok _ \<Rightarrow> clk1\<lparr>slept_ns := saturating_add (slept_ns clk1) d\<rparr> | _ \<Rightarrow> clk1)"
  by (cases "schedule_after clk d (WakeTask t)"; cases "snd (schedule_after clk d (WakeTask t))")
    (auto simp: schedule_wake_after_def)

section \<open>Firing\<close>

abbreviation event :: "event_id \<Rightarrow> event_kind \<Rightarrow> scheduled_event" where
  "event i k \<equiv> \<lparr>ev_id = i, ev_kind = k\<rparr>"

definition due :: "timeline \<Rightarrow> u64 \<Rightarrow> scheduled_event list" where
  "due clk target = map (\<lambda>(i, k). event i k) (filter (\<lambda>(i, _). deadline_ns i \<le> target) (om_entries (pending clk)))"

lemma fire_due_spec:
  "distinct is \<Longrightarrow> \<forall>i\<in>set is. pend clk i \<noteq> None \<Longrightarrow>
    fire_due clk is fired =
      (clk\<lparr>pending := fold om_remove is (pending clk),
           ready := ready clk @ map (\<lambda>i. event i (the (pend clk i))) is\<rparr>,
       Ok (fired @ map (\<lambda>i. event i (the (pend clk i))) is))"
proof (induction "is" arbitrary: clk fired)
  case (Cons i "is")
  then obtain k where k: "pend clk i = Some k" by auto
  let ?clk = "clk\<lparr>pending := om_remove i (pending clk), ready := ready clk @ [event i k]\<rparr>"
  have "pend ?clk j = pend clk j" if "j \<in> set is" for j
    using that Cons.prems(1) by (auto simp: om_lookup_remove)
  with Cons show ?case by (simp add: k Let_def cong: map_cong)
qed simp

lemma event_le_max: "i \<le> EventId t u64_max \<longleftrightarrow> deadline_ns i \<le> t"
  by (auto simp: less_eq_event_id_def)

lemma advance_to_spec:
  assumes "monotonic_ns clk \<le> target"
  shows "advance_to clk target =
    (clk\<lparr>monotonic_ns := target, pending := om_retain (\<lambda>i _. \<not> deadline_ns i \<le> target) (pending clk),
         ready := ready clk @ due clk target\<rparr>, Ok (due clk target))"
proof -
  let ?ids = "filter (\<lambda>i. deadline_ns i \<le> target) (om_keys (pending clk))"
  have ids: "\<forall>i\<in>set ?ids. pend clk i \<noteq> None" by (simp add: om_set_keys)
  have evs: "map (\<lambda>i. event i (the (pend clk i))) ?ids = due clk target"
    unfolding due_def om_keys_def filter_map
    by (auto simp: comp_def case_prod_unfold om_in_entries [of "fst x" "snd x" for x, simplified])
  have "fold om_remove ?ids (pending clk) = om_retain (\<lambda>i _. \<not> deadline_ns i \<le> target) (pending clk)"
    by (rule om_eqI) (auto simp: om_lookup_fold_remove om_lookup_retain om_set_keys split: option.splits)
  then show ?thesis
    using assms ids evs
    by (simp add: advance_to_def event_le_max fire_due_spec Let_def not_less)
qed

lemma due_set: "ev \<in> set (due clk target) \<longleftrightarrow> pend clk (ev_id ev) = Some (ev_kind ev) \<and> deadline_ns (ev_id ev) \<le> target"
  by (cases ev) (auto simp: due_def om_in_entries image_iff)

lemma due_sorted: "sorted_wrt (<) (map ev_id (due clk target))"
proof -
  have "map ev_id (due clk target) = filter (\<lambda>i. deadline_ns i \<le> target) (om_keys (pending clk))"
    by (simp add: due_def om_keys_def filter_map comp_def case_prod_unfold)
  then show ?thesis by (simp add: sorted_wrt_filter om_sorted)
qed

lemma due_length: "om_size (om_retain (\<lambda>i _. \<not> deadline_ns i \<le> target) (pending clk)) + length (due clk target)
    = om_size (pending clk)"
  using om_size_partition [of "\<lambda>i _. \<not> deadline_ns i \<le> target" "pending clk"] by (simp add: due_def)

lemma advance_to_inv:
  assumes inv: "tl_inv clk" and run: "advance_to clk target = (clk', r)"
  shows "tl_inv clk'"
proof (cases "monotonic_ns clk \<le> target")
  case True
  let ?p = "om_retain (\<lambda>i _. \<not> deadline_ns i \<le> target) (pending clk)"
  have clk': "clk' = clk\<lparr>monotonic_ns := target, pending := ?p, ready := ready clk @ due clk target\<rparr>"
    using run advance_to_spec [OF True] by simp
  have p: "pend clk i = Some k \<and> \<not> deadline_ns i \<le> target" if "pend clk' i = Some k" for i k
    using that by (simp add: clk' om_lookup_retain split: option.splits if_splits)
  have seqs: "ev_sequence (ev_id ev) < next_sequence clk" "deadline_ns (ev_id ev) \<le> target"
    if "ev \<in> set (due clk target)" for ev
    using that tl_invD(1) [OF inv, of "ev_id ev"] by (auto simp: due_set event_ok_def)
  have "event_ok clk' i" if "pend clk' i \<noteq> None" for i
    using p [of i] tl_invD(1) [OF inv, of i] True that
    by (auto simp: event_ok_def clk' word_le_nat_alt)
  moreover have "deadline_ns (ev_id ev) \<le> monotonic_ns clk'" "ev_sequence (ev_id ev) < next_sequence clk'"
    if "ev \<in> set (ready clk')" for ev
    using that tl_invD(2,3) [OF inv, of ev] seqs [of ev] True by (auto simp: clk')
  moreover have "i = j" if "pend clk' i \<noteq> None" "pend clk' j \<noteq> None" "ev_sequence i = ev_sequence j" for i j
    using p [of i] p [of j] tl_invD(4) [OF inv, of i _ j] that by blast
  moreover have "ev_sequence (ev_id ev) \<noteq> ev_sequence i" if r: "ev \<in> set (ready clk')" "pend clk' i \<noteq> None" for ev i
  proof -
    obtain k where k: "pend clk i = Some k" "\<not> deadline_ns i \<le> target" using p [of i] r(2) by blast
    from r(1) consider "ev \<in> set (ready clk)" | "ev \<in> set (due clk target)" by (auto simp: clk')
    then show ?thesis
    proof cases
      case 2
      then show ?thesis using tl_invD(4) [OF inv _ k(1), of "ev_id ev"] k(2) by (auto simp: due_set)
    qed (use tl_invD(5) [OF inv _ k(1)] in blast)
  qed
  moreover have "distinct (map (ev_sequence \<circ> ev_id) (ready clk'))"
  proof -
    have "inj_on ev_sequence (ev_id ` set (due clk target))"
      using tl_invD(4) [OF inv] by (force simp: inj_on_def due_set)
    moreover have "distinct (map ev_id (due clk target))"
      using due_sorted strict_sorted_iff by blast
    ultimately have "distinct (map (ev_sequence \<circ> ev_id) (due clk target))"
      by (metis distinct_map list.set_map map_map)
    moreover have "ev_sequence (ev_id ev) \<noteq> ev_sequence (ev_id ev')"
      if "ev \<in> set (ready clk)" "ev' \<in> set (due clk target)" for ev ev'
      using tl_invD(5) [OF inv that(1)] that(2) by (auto simp: due_set)
    ultimately show ?thesis using tl_invD(6) [OF inv] by (auto simp: clk')
  qed
  moreover have "om_size (pending clk') + length (ready clk') \<le> max_pending_events (tl_limits clk')"
    using tl_invD(7) [OF inv] due_length [of target clk] by (simp add: clk')
  ultimately show ?thesis unfolding tl_inv_def by blast
next
  case False
  then show ?thesis using run inv by (simp add: advance_to_def not_le)
qed

text \<open>How the clock and the pending events move: time and the sequence counter only grow, and an
  event that becomes pending is not before the present and takes a new sequence number.\<close>

definition evolves :: "timeline \<Rightarrow> timeline \<Rightarrow> bool" where
  "evolves clk clk' \<longleftrightarrow> monotonic_ns clk \<le> monotonic_ns clk' \<and> next_sequence clk \<le> next_sequence clk'
     \<and> (\<forall>i. pend clk' i \<noteq> None \<longrightarrow> pend clk i \<noteq> None
          \<or> (monotonic_ns clk \<le> deadline_ns i \<and> next_sequence clk \<le> ev_sequence i))"

lemma evolves_refl: "evolves clk clk"
  by (simp add: evolves_def)

lemma evolves_trans:
  assumes "evolves a b" "evolves b c"
  shows "evolves a c"
proof -
  have "pend a i \<noteq> None \<or> (monotonic_ns a \<le> deadline_ns i \<and> next_sequence a \<le> ev_sequence i)"
    if "pend c i \<noteq> None" for i
    using assms that unfolding evolves_def by (meson order_trans)
  then show ?thesis using assms order_trans unfolding evolves_def by blast
qed

lemma evolves_shrink:
  "monotonic_ns clk' = monotonic_ns clk \<Longrightarrow> next_sequence clk' = next_sequence clk \<Longrightarrow>
    (\<And>i k. pend clk' i = Some k \<Longrightarrow> pend clk i = Some k) \<Longrightarrow> evolves clk clk'"
  unfolding evolves_def by fastforce

lemma schedule_at_evolves:
  assumes "schedule_at clk d kind = (clk', r)"
  shows "evolves clk clk'"
  using assms
proof (cases rule: schedule_at_cases)
  case (scheduled n)
  then show ?thesis unfolding evolves_def by (auto simp: om_lookup_insert)
qed (simp add: evolves_refl)

lemma advance_to_evolves: "advance_to clk target = (clk', r) \<Longrightarrow> evolves clk clk'"
proof (cases "monotonic_ns clk \<le> target")
  case True
  assume "advance_to clk target = (clk', r)"
  with advance_to_spec [OF True] True show ?thesis
    by (auto simp: evolves_def om_lookup_retain split: option.splits)
qed (auto simp: advance_to_def evolves_refl not_le)

lemma schedule_wake_after_props:
  assumes run: "schedule_wake_after clk t d = (clk', r)"
  shows "evolves clk clk'" "tl_inv clk \<Longrightarrow> tl_inv clk'" "r \<noteq> Panic"
    "r = Ok w \<Longrightarrow> pend clk' w = Some (WakeTask t) \<and> unat (deadline_ns w) = unat (monotonic_ns clk) + unat d
       \<and> monotonic_ns clk' = monotonic_ns clk \<and> pending clk' = om_insert w (WakeTask t) (pending clk)
       \<and> pend clk w = None \<or> \<not> tl_inv clk"
    "r = Err e \<Longrightarrow> clk' = clk"
proof -
  obtain clk1 where after: "schedule_after clk d (WakeTask t) = (clk1, r)"
    and clk': "clk' = (case r of Ok _ \<Rightarrow> clk1\<lparr>slept_ns := saturating_add (slept_ns clk1) d\<rparr> | _ \<Rightarrow> clk1)"
    using schedule_wake_after_after [OF run] by blast
  have same: "pending clk' = pending clk1" "ready clk' = ready clk1" "monotonic_ns clk' = monotonic_ns clk1"
      "next_sequence clk' = next_sequence clk1" "tl_limits clk' = tl_limits clk1"
    by (simp_all add: clk' split: outcome.splits)
  have ev: "evolves clk1 clk'" by (rule evolves_shrink) (simp_all add: same)
  consider "clk1 = clk" "r = Err TlOverflow" | deadline where
      "unat deadline = unat (monotonic_ns clk) + unat d" "schedule_at clk deadline (WakeTask t) = (clk1, r)"
    using schedule_after_at [OF after] by blast
  then have "evolves clk clk1 \<and> (tl_inv clk \<longrightarrow> tl_inv clk1) \<and> r \<noteq> Panic \<and> (\<forall>e. r = Err e \<longrightarrow> clk1 = clk)
      \<and> (\<forall>w. r = Ok w \<longrightarrow> pend clk1 w = Some (WakeTask t) \<and> unat (deadline_ns w) = unat (monotonic_ns clk) + unat d
       \<and> monotonic_ns clk1 = monotonic_ns clk \<and> pending clk1 = om_insert w (WakeTask t) (pending clk)
       \<and> pend clk w = None \<or> \<not> tl_inv clk)"
  proof cases
    case 1
    then show ?thesis by (simp add: evolves_refl)
  next
    case 2
    have "pend clk (EventId deadline (next_sequence clk)) = None" if "tl_inv clk"
      using tl_invD(1) [OF that, of "EventId deadline (next_sequence clk)"]
      by (cases "pend clk (EventId deadline (next_sequence clk))") (simp_all add: event_ok_def)
    with 2(1) schedule_at_evolves [OF 2(2)] schedule_at_inv [OF _ 2(2)] show ?thesis
      by (cases rule: schedule_at_cases [OF 2(2)]) auto
  qed
  then show "evolves clk clk'" "tl_inv clk \<Longrightarrow> tl_inv clk'" "r \<noteq> Panic"
    "r = Ok w \<Longrightarrow> pend clk' w = Some (WakeTask t) \<and> unat (deadline_ns w) = unat (monotonic_ns clk) + unat d
       \<and> monotonic_ns clk' = monotonic_ns clk \<and> pending clk' = om_insert w (WakeTask t) (pending clk)
       \<and> pend clk w = None \<or> \<not> tl_inv clk"
    "r = Err e \<Longrightarrow> clk' = clk"
    using evolves_trans [OF _ ev] tl_inv_cong [OF _ same] same clk' by auto
qed

section \<open>Blocking a task\<close>

text \<open>The event that ends the block: the first pending event, in firing order, that is the task's
  wake-up or one of its deadlines.\<close>

definition ends_block :: "event_id \<Rightarrow> u64 \<Rightarrow> event_id \<times> event_kind \<Rightarrow> bool" where
  "ends_block wake_id t x \<longleftrightarrow> fst x = wake_id \<or> snd x = Deadline t"

lemma scan_fired_find:
  assumes "\<forall>(i, k)\<in>set xs. i = wake_id \<longrightarrow> k = WakeTask t"
  shows "scan_fired clk wake_id t (map (\<lambda>(i, k). event i k) xs)
    = (case find (ends_block wake_id t) xs of
         None \<Rightarrow> None
       | Some (i, k) \<Rightarrow> Some (if i = wake_id then (remove_ready clk i, Completed)
           else (remove_ready (remove_ready (fst (cancel clk wake_id)) wake_id) i, Interrupted (event i k))))"
  using assms by (induction xs) (auto simp: ends_block_def split: option.splits)

lemma scan_fired_misses: "scan_fired clk wake_id t evs = None \<Longrightarrow> event wake_id (WakeTask t) \<notin> set evs"
  by (induction evs) (auto split: if_splits)

lemma find_append: "find P (xs @ ys) = (case find P xs of None \<Rightarrow> find P ys | Some x \<Rightarrow> Some x)"
  by (induction xs) auto

lemma next_deadline_Some: "pend clk i = Some k \<Longrightarrow> \<exists>j k'. next_deadline_ns clk = Some (deadline_ns j) \<and> pend clk j = Some k'"
proof -
  assume "pend clk i = Some k"
  then obtain j k' xs where "om_entries (pending clk) = (j, k') # xs"
    by (metis list.exhaust list.set_cases om_in_entries prod.exhaust)
  moreover from this have "pend clk j = Some k'" by (metis list.set_intros(1) om_in_entries)
  ultimately show ?thesis by (auto simp: next_deadline_ns_def)
qed

lemma advance_to_next_spec:
  assumes inv: "tl_inv clk" and p: "pend clk i = Some k"
  obtains d where "monotonic_ns clk \<le> d" "advance_to_next clk = advance_to clk d"
    "due clk d \<noteq> []" "\<And>ev. ev \<in> set (due clk d) \<Longrightarrow> deadline_ns (ev_id ev) = d"
proof -
  obtain j k' xs where e: "om_entries (pending clk) = (j, k') # xs"
    using p by (metis list.exhaust list.set_cases om_in_entries prod.exhaust)
  let ?d = "deadline_ns j"
  have j: "pend clk j = Some k'" using e by (metis list.set_intros(1) om_in_entries)
  have first: "?d \<le> deadline_ns i" if "pend clk i = Some k" for i k
  proof -
    from that have "(i, k) \<in> set ((j, k') # xs)" using e by (simp add: om_in_entries [symmetric])
    moreover have "sorted_wrt (<) (map fst ((j, k') # xs))"
      using om_sorted [of "pending clk"] by (simp add: om_keys_def e)
    ultimately have "j \<le> i" by (auto intro: less_imp_le)
    then show ?thesis by (auto simp: less_eq_event_id_def)
  qed
  show thesis
  proof (rule that [of ?d])
    show "monotonic_ns clk \<le> ?d" using tl_invD(1) [OF inv j] by (simp add: event_ok_def)
    show "advance_to_next clk = advance_to clk ?d" by (simp add: advance_to_next_def next_deadline_ns_def e)
    show "due clk ?d \<noteq> []" by (simp add: due_def e)
    show "deadline_ns (ev_id ev) = ?d" if "ev \<in> set (due clk ?d)" for ev
      using that first [of "ev_id ev"] by (auto simp: due_set intro: antisym)
  qed
qed

lemma om_entries_due: "om_entries (pending clk)
    = filter (\<lambda>(i, _). deadline_ns i \<le> d) (om_entries (pending clk))
      @ om_entries (om_retain (\<lambda>i _. \<not> deadline_ns i \<le> d) (pending clk))"
  unfolding om_entries_retain
  by (rule om_entries_prefix) (auto simp: less_event_id_def)

lemma remove_ready_simps [simp]:
  "pending (remove_ready clk i) = pending clk" "monotonic_ns (remove_ready clk i) = monotonic_ns clk"
  "next_sequence (remove_ready clk i) = next_sequence clk"
  "ready (remove_ready clk i) = retain (\<lambda>ev. ev_id ev \<noteq> i) (ready clk)"
  by (simp_all add: remove_ready_def)

lemma cancel_simps [simp]:
  "pending (fst (cancel clk i)) = om_remove i (pending clk)" "monotonic_ns (fst (cancel clk i)) = monotonic_ns clk"
  "next_sequence (fst (cancel clk i)) = next_sequence clk" "ready (fst (cancel clk i)) = ready clk"
  by (simp_all add: cancel_def)

lemma scan_fired_evolves: "scan_fired clk wake_id t evs = Some x \<Longrightarrow> evolves clk (fst x)"
proof (induction evs)
  case (Cons ev evs)
  then show ?case
    by (auto split: if_splits intro!: evolves_shrink simp: om_lookup_remove)
qed simp

definition block_result :: "event_id \<Rightarrow> event_id \<times> event_kind \<Rightarrow> block_outcome" where
  "block_result wake_id x = (if fst x = wake_id then Completed else Interrupted (event (fst x) (snd x)))"

lemma block_loop_returns:
  assumes "tl_inv clk" "pend clk wake_id = Some (WakeTask t)"
  shows "\<exists>clk' x. find (ends_block wake_id t) (om_entries (pending clk)) = Some x
    \<and> block_loop clk wake_id t = Some (clk', Ok (block_result wake_id x))
    \<and> tl_inv clk' \<and> evolves clk clk' \<and> monotonic_ns clk' = deadline_ns (fst x)
    \<and> pend clk' wake_id = None \<and> wake_id \<notin> ev_id ` set (ready clk')"
  using assms
proof (induction "om_size (pending clk)" arbitrary: clk rule: less_induct)
  case less
  obtain d where d: "monotonic_ns clk \<le> d" "advance_to_next clk = advance_to clk d" "due clk d \<noteq> []"
      "\<And>ev. ev \<in> set (due clk d) \<Longrightarrow> deadline_ns (ev_id ev) = d"
    by (rule advance_to_next_spec [OF less.prems]) blast
  define clk1 where "clk1 = fst (advance_to clk d)"
  let ?fired = "filter (\<lambda>(i, _). deadline_ns i \<le> d) (om_entries (pending clk))"
  have clk1: "advance_to clk d = (clk1, Ok (due clk d))"
      "pending clk1 = om_retain (\<lambda>i _. \<not> deadline_ns i \<le> d) (pending clk)" "monotonic_ns clk1 = d"
    using advance_to_spec [OF d(1)] by (simp_all add: clk1_def)
  have inv1: "tl_inv clk1" by (rule advance_to_inv [OF less.prems(1) clk1(1)])
  have ev1: "evolves clk clk1" by (rule advance_to_evolves [OF clk1(1)])
  have kinds: "\<forall>(i, k)\<in>set ?fired. i = wake_id \<longrightarrow> k = WakeTask t"
    using less.prems(2) by (auto simp: om_in_entries)
  have split: "om_entries (pending clk) = ?fired @ om_entries (pending clk1)"
    unfolding clk1(2) by (rule om_entries_due)
  have find_split: "find (ends_block wake_id t) (om_entries (pending clk))
      = (case find (ends_block wake_id t) ?fired of None \<Rightarrow> find (ends_block wake_id t) (om_entries (pending clk1))
         | Some x \<Rightarrow> Some x)"
    by (subst split) (rule find_append)
  have unfold: "block_loop clk wake_id t = (case scan_fired clk1 wake_id t (due clk d) of
      Some (clk2, out) \<Rightarrow> Some (clk2, Ok out) | None \<Rightarrow> block_loop clk1 wake_id t)"
    by (subst block_loop.simps) (simp add: d(2) clk1(1))
  note scan = scan_fired_find [OF kinds, of clk1, folded due_def]
  show ?case
  proof (cases "find (ends_block wake_id t) ?fired")
    case None
    then have "wake_id \<notin> fst ` set ?fired"
      by (auto simp: find_None_iff ends_block_def)
    then have "pend clk1 wake_id = Some (WakeTask t)"
      using less.prems(2) by (auto simp: clk1(2) om_lookup_retain om_in_entries image_iff)
    moreover have "om_size (pending clk1) < om_size (pending clk)"
      using due_length [of d clk] d(3) by (cases "due clk d") (auto simp: clk1(2))
    ultimately obtain clk' x where
      "find (ends_block wake_id t) (om_entries (pending clk1)) = Some x"
      "block_loop clk1 wake_id t = Some (clk', Ok (block_result wake_id x))"
      "tl_inv clk'" "evolves clk1 clk'" "monotonic_ns clk' = deadline_ns (fst x)"
      "pend clk' wake_id = None" "wake_id \<notin> ev_id ` set (ready clk')"
      using less.hyps [OF _ inv1] by blast
    then show ?thesis
      using None unfold scan evolves_trans [OF ev1] find_split by auto
  next
    case (Some x)
    obtain i k where x: "x = (i, k)" by fastforce
    then have i: "(i, k) \<in> set ?fired" using Some by (metis find_Some_iff nth_mem)
    then have di: "deadline_ns i = d" using d(4) [of "event i k"] by (auto simp: due_set om_in_entries)
    have find: "find (ends_block wake_id t) (om_entries (pending clk)) = Some x"
      using find_split Some by simp
    show ?thesis
    proof (cases "i = wake_id")
      case True
      let ?clk' = "remove_ready clk1 wake_id"
      have "pend ?clk' wake_id = None"
        using di True by (simp add: clk1(2) om_lookup_retain split: option.splits)
      moreover have "evolves clk ?clk'" by (rule evolves_trans [OF ev1 evolves_shrink]) simp_all
      moreover have "block_loop clk wake_id t = Some (?clk', Ok (block_result wake_id x))"
        using unfold scan Some True by (simp add: x block_result_def)
      ultimately show ?thesis
        using find remove_ready_inv [OF inv1] clk1(3) di by (auto simp: x)
    next
      case False
      let ?clk' = "remove_ready (remove_ready (fst (cancel clk1 wake_id)) wake_id) i"
      have "evolves clk ?clk'"
        by (rule evolves_trans [OF ev1 evolves_shrink]) (auto simp: om_lookup_remove split: if_splits)
      moreover have "block_loop clk wake_id t = Some (?clk', Ok (block_result wake_id x))"
        using unfold scan Some False by (simp add: x block_result_def)
      ultimately show ?thesis
        using find remove_ready_inv [OF remove_ready_inv [OF cancel_inv [OF inv1]]] clk1(3) di
        by (auto simp: x)
    qed
  qed
qed

section \<open>The order of firing\<close>

text \<open>An id is behind the timeline when everything that can still fire comes after it.\<close>

definition behind :: "timeline \<Rightarrow> event_id \<Rightarrow> bool" where
  "behind clk f \<longleftrightarrow> deadline_ns f \<le> monotonic_ns clk \<and> ev_sequence f < next_sequence clk
     \<and> (\<forall>i. pend clk i \<noteq> None \<longrightarrow> f < i)"

lemma behind_evolves:
  assumes "behind clk f" "evolves clk clk'"
  shows "behind clk' f"
proof -
  have "f < i" if "pend clk' i \<noteq> None" for i
  proof (cases "pend clk i = None")
    case True
    then have "monotonic_ns clk \<le> deadline_ns i" "next_sequence clk \<le> ev_sequence i"
      using assms(2) that by (auto simp: evolves_def)
    then have "deadline_ns f \<le> deadline_ns i" "ev_sequence f < ev_sequence i"
      using assms(1) unfolding behind_def by (auto intro: order_trans less_le_trans)
    then show ?thesis by (auto simp: less_event_id_def)
  qed (use assms(1) in \<open>simp add: behind_def\<close>)
  then show ?thesis
    using assms unfolding behind_def evolves_def by (meson less_le_trans order_trans)
qed

text \<open>Events that fire between two states: in order, after everything that has fired and before everything
  that can still fire.\<close>

definition fires :: "timeline \<Rightarrow> scheduled_event list \<Rightarrow> timeline \<Rightarrow> bool" where
  "fires clk evs clk' \<longleftrightarrow> sorted_wrt (<) (map ev_id evs)
     \<and> (\<forall>ev\<in>set evs. (\<forall>f. behind clk f \<longrightarrow> f < ev_id ev) \<and> behind clk' (ev_id ev))"

lemma fires_none [simp]: "fires clk [] clk'"
  by (simp add: fires_def)

lemma fires_evolves:
  assumes "fires clk evs clk1" "evolves clk1 clk'"
  shows "fires clk evs clk'"
  using assms behind_evolves by (auto simp: fires_def)

lemma evolves_fires:
  assumes "evolves clk clk1" "fires clk1 evs clk'"
  shows "fires clk evs clk'"
  using assms behind_evolves by (auto simp: fires_def)

lemma fires_append:
  assumes "fires clk xs clk1" "fires clk1 ys clk'" "evolves clk clk1" "evolves clk1 clk'"
  shows "fires clk (xs @ ys) clk'"
  using assms behind_evolves unfolding fires_def by (auto simp: sorted_wrt_append)

lemma fires_due:
  assumes inv: "tl_inv clk" and d: "monotonic_ns clk' = d" "evolves clk clk'"
    and p: "pending clk' = om_retain (\<lambda>i _. \<not> deadline_ns i \<le> d) (pending clk)"
  shows "fires clk (due clk d) clk'"
proof -
  have "next_sequence clk \<le> next_sequence clk'" using d(2) by (simp add: evolves_def)
  then have "ev_sequence (ev_id ev) < next_sequence clk'" if "ev \<in> set (due clk d)" for ev
    using that tl_invD(1) [OF inv, of "ev_id ev"] by (auto simp: due_set event_ok_def)
  moreover have "ev_id ev < i" if "ev \<in> set (due clk d)" "pend clk' i \<noteq> None" for ev i
    using that by (auto simp: p due_set om_lookup_retain less_event_id_def split: option.splits if_splits)
  ultimately show ?thesis
    using due_sorted by (auto simp: fires_def d(1) due_set behind_def)
qed

text \<open>What \<open>block_task\<close> fires until it returns.\<close>

lemma block_loop_fires:
  assumes "tl_inv clk" "pend clk wake_id = Some (WakeTask t)" "block_loop clk wake_id t = Some (clk', r)"
  shows "\<exists>evs. block_fired clk wake_id t = Some evs \<and> fires clk evs clk'"
  using assms
proof (induction "om_size (pending clk)" arbitrary: clk rule: less_induct)
  case less
  obtain d where d: "monotonic_ns clk \<le> d" "advance_to_next clk = advance_to clk d" "due clk d \<noteq> []"
    by (rule advance_to_next_spec [OF less.prems(1,2)]) blast
  define clk1 where "clk1 = fst (advance_to clk d)"
  have clk1: "advance_to clk d = (clk1, Ok (due clk d))"
      "pending clk1 = om_retain (\<lambda>i _. \<not> deadline_ns i \<le> d) (pending clk)" "monotonic_ns clk1 = d"
    using advance_to_spec [OF d(1)] by (simp_all add: clk1_def)
  have inv1: "tl_inv clk1" by (rule advance_to_inv [OF less.prems(1) clk1(1)])
  have ev1: "evolves clk clk1" by (rule advance_to_evolves [OF clk1(1)])
  have now: "fires clk (due clk d) clk1" by (rule fires_due [OF less.prems(1) clk1(3) ev1 clk1(2)])
  have evs: "block_fired clk wake_id t = (case scan_fired clk1 wake_id t (due clk d) of
      Some _ \<Rightarrow> Some (due clk d) | None \<Rightarrow> Option.bind (block_fired clk1 wake_id t) (\<lambda>evs. Some (due clk d @ evs)))"
    by (subst block_fired.simps) (simp add: d(2) clk1(1))
  have loop: "(case scan_fired clk1 wake_id t (due clk d) of
      Some (clk2, out) \<Rightarrow> Some (clk2, Ok out) | None \<Rightarrow> block_loop clk1 wake_id t) = Some (clk', r)"
    using less.prems(3) by (subst (asm) block_loop.simps) (simp add: d(2) clk1(1))
  show ?case
  proof (cases "scan_fired clk1 wake_id t (due clk d)")
    case None
    then have l1: "block_loop clk1 wake_id t = Some (clk', r)" using loop by simp
    have w: "pend clk1 wake_id = Some (WakeTask t)" using less.prems(2) scan_fired_misses [OF None]
      by (auto simp: clk1(2) om_lookup_retain due_set)
    have "om_size (pending clk1) < om_size (pending clk)"
      using due_length [of d clk] d(3) by (cases "due clk d") (auto simp: clk1(2))
    then obtain evs1 where e: "block_fired clk1 wake_id t = Some evs1" "fires clk1 evs1 clk'"
      using less.hyps [OF _ inv1 w l1] by blast
    have "evolves clk1 clk'" using block_loop_returns [OF inv1 w] l1 by auto
    then show ?thesis using fires_append [OF now e(2) ev1] evs None e(1) by simp
  next
    case (Some x)
    then have "evolves clk1 clk'" using loop scan_fired_evolves [OF Some] by (cases x) auto
    then show ?thesis using fires_evolves [OF now] evs Some by simp
  qed
qed

section \<open>Sequences of timeline calls\<close>

datatype tl_op =
    ScheduleAt u64 event_kind
  | ScheduleAfter u64 event_kind
  | ScheduleWakeAfter u64 u64
  | Cancel event_id
  | CancelTask u64
  | AdvanceTo u64
  | AdvanceBy u64
  | AdvanceToNext
  | PopReady
  | BlockTask u64 u64
  | AdjustWallTime int
  | SleepMs u64
  | Tick u64

text \<open>The next timeline and the events that fire in the course of the call. A call that never returned would
  be a panic here.\<close>

abbreviation no_events :: "'a tl_result \<Rightarrow> scheduled_event list tl_result" where
  "no_events x \<equiv> map_ok (\<lambda>_. []) x"

fun tl_run :: "timeline \<Rightarrow> tl_op \<Rightarrow> scheduled_event list tl_result" where
  "tl_run clk (ScheduleAt d k) = no_events (schedule_at clk d k)"
| "tl_run clk (ScheduleAfter d k) = no_events (schedule_after clk d k)"
| "tl_run clk (ScheduleWakeAfter t d) = no_events (schedule_wake_after clk t d)"
| "tl_run clk (Cancel i) = (fst (cancel clk i), Ok [])"
| "tl_run clk (CancelTask t) = (fst (cancel_task_events clk t), Ok [])"
| "tl_run clk (AdvanceTo d) = advance_to clk d"
| "tl_run clk (AdvanceBy d) = advance_by clk d"
| "tl_run clk AdvanceToNext = advance_to_next clk"
| "tl_run clk PopReady = (fst (pop_ready clk), Ok [])"
| "tl_run clk (BlockTask t d) = (case (block_task clk t d, task_fired clk t d) of
       (Some r, Some evs) \<Rightarrow> map_ok (\<lambda>_. evs) r | _ \<Rightarrow> (clk, Panic))"
| "tl_run clk (AdjustWallTime d) = no_events (adjust_wall_time clk d)"
| "tl_run clk (SleepMs n) = (case (sleep_ms clk n, task_fired clk MAIN_TASK_ID (saturating_mul n NANOS_PER_MILLISECOND)) of
       (Some clk', Some evs) \<Rightarrow> (clk', Ok evs) | _ \<Rightarrow> (clk, Panic))"
| "tl_run clk (Tick n) = (tick clk n, Ok (case snd (advance_by clk (saturating_mul n NANOS_PER_MILLISECOND)) of Ok evs \<Rightarrow> evs | _ \<Rightarrow> []))"

text \<open>What every call keeps: the invariant, the evolution of time, the order of fired events, and
  that it returns and refuses without effect.\<close>

definition good_step :: "timeline \<Rightarrow> scheduled_event list tl_result \<Rightarrow> bool" where
  "good_step clk x \<longleftrightarrow> (tl_inv (fst x) \<and> evolves clk (fst x)) \<and> (case snd x of
       Ok evs \<Rightarrow> fires clk evs (fst x)
     | Err _ \<Rightarrow> fst x = clk
     | Panic \<Rightarrow> False)"

lemma good_step_silent: "tl_inv clk' \<Longrightarrow> evolves clk clk' \<Longrightarrow> good_step clk (clk', Ok [])"
  by (simp add: good_step_def)

lemma good_step_stay: "tl_inv clk \<Longrightarrow> good_step clk (clk, Err e)"
  by (simp add: good_step_def evolves_refl)

lemma schedule_at_good:
  assumes inv: "tl_inv clk"
  shows "good_step clk (no_events (schedule_at clk d k))"
proof -
  obtain clk' r where run: "schedule_at clk d k = (clk', r)" by fastforce
  from run show ?thesis
    using schedule_at_inv [OF inv run] schedule_at_evolves [OF run]
    by (cases rule: schedule_at_cases) (simp_all add: run good_step_def)
qed

lemma schedule_after_good: "tl_inv clk \<Longrightarrow> good_step clk (no_events (schedule_after clk d k))"
  by (cases "checked_add (monotonic_ns clk) d")
    (simp_all add: schedule_after_def schedule_at_good good_step_stay)

lemma schedule_wake_after_good:
  assumes "tl_inv clk"
  shows "good_step clk (no_events (schedule_wake_after clk t d))"
proof -
  obtain clk' r where run: "schedule_wake_after clk t d = (clk', r)" by fastforce
  show ?thesis
    using schedule_wake_after_props(1,2,3,5) [OF run] assms
    by (cases r) (auto simp: run good_step_def)
qed

lemma advance_to_good:
  assumes "tl_inv clk"
  shows "good_step clk (advance_to clk d)"
proof (cases "monotonic_ns clk \<le> d")
  case True
  obtain clk' r where run: "advance_to clk d = (clk', r)" by fastforce
  show ?thesis
    using advance_to_inv [OF assms run] advance_to_evolves [OF run] advance_to_spec [OF True] run
      fires_due [OF assms, of clk' d]
    by (auto simp: good_step_def)
next
  case False
  then show ?thesis using good_step_stay [OF assms] by (simp add: advance_to_def not_le)
qed

lemma advance_by_good: "tl_inv clk \<Longrightarrow> good_step clk (advance_by clk d)"
  by (cases "checked_add (monotonic_ns clk) d") (simp_all add: advance_by_def advance_to_good good_step_stay)

lemma advance_to_next_good: "tl_inv clk \<Longrightarrow> good_step clk (advance_to_next clk)"
  by (auto simp: advance_to_next_def advance_to_good good_step_silent evolves_refl split: option.splits)

lemma block_task_good:
  assumes inv: "tl_inv clk"
  shows "\<exists>x evs. block_task clk t d = Some x \<and> task_fired clk t d = Some evs \<and> good_step clk (map_ok (\<lambda>_. evs) x)
    \<and> fires clk evs (fst x)"
proof -
  obtain clk1 r where run: "schedule_wake_after clk t d = (clk1, r)" by fastforce
  note p = schedule_wake_after_props [OF run]
  show ?thesis
  proof (cases r)
    case (Ok w)
    then have w: "pend clk1 w = Some (WakeTask t)" using p(4) inv by blast
    with block_loop_returns [OF p(2) [OF inv]] obtain clk' out where
      l: "block_loop clk1 w t = Some (clk', Ok out)" "tl_inv clk'" "evolves clk1 clk'" by metis
    obtain evs where e: "block_fired clk1 w t = Some evs" "fires clk1 evs clk'"
      using block_loop_fires [OF p(2) [OF inv] w l(1)] by blast
    then have "fires clk evs clk'" using evolves_fires [OF p(1)] by blast
    then show ?thesis
      using evolves_trans [OF p(1) l(3)] l(1,2) e(1) by (simp add: block_task_def task_fired_def run Ok good_step_def)
  next
    case (Err e)
    then show ?thesis using p(5) good_step_stay [OF inv] by (simp add: block_task_def task_fired_def run)
  qed (use p(3) in simp)
qed

lemma adjust_wall_time_good: "tl_inv clk \<Longrightarrow> good_step clk (no_events (adjust_wall_time clk d))"
proof -
  assume inv: "tl_inv clk"
  have "tl_inv (clk\<lparr>wall_adjustment_ns := a\<rparr>)" "evolves clk (clk\<lparr>wall_adjustment_ns := a\<rparr>)" for a
    by (rule tl_inv_cong [OF inv] evolves_shrink; simp)+
  then show ?thesis
    using inv unfolding adjust_wall_time_def
    by (cases "checked_add_i128 (wall_adjustment_ns clk) d")
      (auto simp: good_step_stay good_step_silent ok_or_def split: option.splits)
qed

lemma tl_run_good:
  assumes inv: "tl_inv clk"
  shows "good_step clk (tl_run clk op)"
proof (cases op)
  case (Cancel i)
  have "evolves clk (fst (cancel clk i))" by (rule evolves_shrink) (auto simp: om_lookup_remove split: if_splits)
  then show ?thesis using Cancel cancel_inv [OF inv] by (simp add: good_step_silent)
next
  case (CancelTask t)
  have "evolves clk (fst (cancel_task_events clk t))"
    by (rule evolves_shrink) (auto simp: cancel_task_events_def om_lookup_fold_remove split: if_splits)
  then show ?thesis using CancelTask cancel_task_events_inv [OF inv] by (simp add: good_step_silent)
next
  case PopReady
  have "evolves clk (fst (pop_ready clk))"
    by (rule evolves_shrink) (auto simp: pop_ready_def split: list.splits)
  then show ?thesis using PopReady pop_ready_inv [OF inv] by (simp add: good_step_silent)
next
  case (BlockTask t d)
  then show ?thesis using block_task_good [OF inv, of t d] by auto
next
  case (SleepMs n)
  let ?d = "saturating_mul n NANOS_PER_MILLISECOND"
  obtain x evs where "block_task clk MAIN_TASK_ID ?d = Some x" "task_fired clk MAIN_TASK_ID ?d = Some evs"
      "good_step clk (map_ok (\<lambda>_. evs) x)" "fires clk evs (fst x)"
    using block_task_good [OF inv] by blast
  then show ?thesis
    by (simp add: SleepMs sleep_ms_def good_step_def)
next
  case (Tick n)
  then show ?thesis
    using advance_by_good [OF inv, of "saturating_mul n NANOS_PER_MILLISECOND"]
    by (auto simp: tick_def good_step_def split: outcome.splits)
qed (simp_all add: schedule_at_good schedule_after_good schedule_wake_after_good advance_to_good
    advance_by_good advance_to_next_good adjust_wall_time_good inv)

lemma tl_run_inv: "tl_inv clk \<Longrightarrow> tl_inv (fst (tl_run clk op))"
  using tl_run_good by (simp add: good_step_def)

interpretation tlsys: op_system tl_run tl_inv
  by unfold_locales (rule tl_run_inv)

lemma tl_run_monotonic: "tl_inv clk \<Longrightarrow> monotonic_ns clk \<le> monotonic_ns (fst (tl_run clk op))"
  using tl_run_good [of clk op] by (simp add: good_step_def evolves_def)

fun fired_events :: "timeline \<Rightarrow> tl_op list \<Rightarrow> scheduled_event list" where
  "fired_events clk [] = []"
| "fired_events clk (op # ops) = (case snd (tl_run clk op) of Ok evs \<Rightarrow> evs | _ \<Rightarrow> [])
     @ fired_events (fst (tl_run clk op)) ops"

lemma fired_step:
  assumes "tl_inv clk" "snd (tl_run clk op) = Ok evs"
  shows "fires clk evs (fst (tl_run clk op))"
  using tl_run_good [OF assms(1), of op] assms(2) by (simp add: good_step_def)

lemma fired_events_sorted:
  assumes "tl_inv clk"
  shows "sorted_wrt (<) (map ev_id (fired_events clk ops))
    \<and> (\<forall>f. behind clk f \<longrightarrow> (\<forall>ev\<in>set (fired_events clk ops). f < ev_id ev))"
  using assms
proof (induction ops arbitrary: clk)
  case (Cons op ops)
  let ?clk = "fst (tl_run clk op)" and ?evs = "case snd (tl_run clk op) of Ok evs \<Rightarrow> evs | _ \<Rightarrow> []"
  note ih = Cons.IH [OF tl_run_inv [OF Cons.prems], of op]
  have now: "sorted_wrt (<) (map ev_id ?evs)"
      "\<And>ev f. ev \<in> set ?evs \<Longrightarrow> behind clk f \<Longrightarrow> f < ev_id ev"
      "\<And>ev. ev \<in> set ?evs \<Longrightarrow> behind ?clk (ev_id ev)"
    using fired_step [OF Cons.prems, of op] by (cases "snd (tl_run clk op)"; simp add: fires_def)+
  have "behind ?clk f" if "behind clk f" for f
    using that tl_run_good [OF Cons.prems, of op] behind_evolves by (auto simp: good_step_def)
  then show ?case using ih now by (auto simp: sorted_wrt_append)
qed simp

section \<open>Properties\<close>

text \<open>C15. After any sequence of calls on a fresh timeline, no pending event lies in the past or
  beyond the scheduling horizon, every fired event lies in the past, no two events share a sequence
  number, and pending and fired events together never exceed the configured limit.\<close>

theorem timeline_invariant: "tl_inv (run_ops tl_run (with_epoch_and_limits epoch limits) ops)"
  by (rule tlsys.run_ops_inv [OF new_timeline_inv])

text \<open>C16. In every state so reached every call returns (the loop of \<open>block_task\<close> ends, the
  \<open>expect\<close> of \<open>advance_to\<close> never fails), and a call that returns an error leaves the timeline
  unchanged.\<close>

theorem timeline_calls_return:
  "case tl_run (run_ops tl_run (with_epoch_and_limits epoch limits) ops) op of
     (_, Ok _) \<Rightarrow> True
   | (clk', Err _) \<Rightarrow> clk' = run_ops tl_run (with_epoch_and_limits epoch limits) ops
   | (_, Panic) \<Rightarrow> False"
  using tl_run_good [OF tlsys.run_ops_inv [OF new_timeline_inv], of epoch limits ops op]
  by (auto simp: good_step_def split: prod.splits outcome.splits)

text \<open>Advancing to an instant that is not in the past fires exactly the pending events that are
  due by then, in order of deadline and insertion: they are returned, appended to the ready queue and
  no longer pending, every other event stays pending, and the clock reads the target.\<close>

theorem advance_fires_due:
  assumes "monotonic_ns clk \<le> target"
  shows "\<exists>clk' fired. advance_to clk target = (clk', Ok fired)
    \<and> monotonic_ns clk' = target \<and> ready clk' = ready clk @ fired
    \<and> set fired = {ev. pend clk (ev_id ev) = Some (ev_kind ev) \<and> deadline_ns (ev_id ev) \<le> target}
    \<and> sorted_wrt (<) (map ev_id fired)
    \<and> (\<forall>i. pend clk' i = (if deadline_ns i \<le> target then None else pend clk i))"
  using advance_to_spec [OF assms] due_sorted [of clk target] due_set [of _ clk target]
  by (auto simp: om_lookup_retain split: option.splits)

theorem advance_fires_due_witness:
  "\<exists>clk. pend clk (EventId 5 0) = Some (Deadline 3) \<and> (\<exists>clk' fired. advance_to clk 7 = (clk', Ok fired)
    \<and> event (EventId 5 0) (Deadline 3) \<in> set fired \<and> pend clk' (EventId 5 0) = None)"
proof -
  let ?clk = "run_ops tl_run new_timeline [ScheduleAt 5 (Deadline 3)]"
  have now: "monotonic_ns ?clk \<le> 7" and p: "pend ?clk (EventId 5 0) = Some (Deadline 3)"
    by (simp_all add: new_timeline_def with_epoch_and_limits_def default_timeline_limits_def
        schedule_at_def checked_add_def NANOS_PER_SECOND_def Let_def)
  from advance_fires_due [OF now] obtain clk' fired where r: "advance_to ?clk 7 = (clk', Ok fired)"
    "set fired = {ev. pend ?clk (ev_id ev) = Some (ev_kind ev) \<and> deadline_ns (ev_id ev) \<le> 7}"
    "\<forall>i. pend clk' i = (if deadline_ns i \<le> 7 then None else pend ?clk i)" by blast
  have "event (EventId 5 0) (Deadline 3) \<in> set fired" unfolding r(2) mem_Collect_eq using p by simp
  moreover have "pend clk' (EventId 5 0) = None" using r(3) by simp
  ultimately show ?thesis using p r(1) by blast
qed

text \<open>C17. Firing follows one global order: over a whole run, with scheduling and cancelling in between, the
  events that fire (in an advance, in a tick and in every round of a task that blocks or sleeps) come in strictly
  increasing order of (deadline, sequence), so none fires twice, and the monotonic clock never runs backwards.\<close>

theorem events_fire_in_order:
  "sorted_wrt (<) (map ev_id (fired_events (with_epoch_and_limits epoch limits) ops))
    \<and> monotonic_ns (run_ops tl_run (with_epoch_and_limits epoch limits) before)
       \<le> monotonic_ns (run_ops tl_run (with_epoch_and_limits epoch limits) (before @ ops))"
  using fired_events_sorted [OF new_timeline_inv, of epoch limits ops]
    tlsys.run_ops_mono [OF tl_run_monotonic tlsys.run_ops_inv [OF new_timeline_inv], of epoch limits before ops]
  by simp

text \<open>C18. Blocking a task for a duration always returns, and returns at the right event: at the first
  event, in firing order, that is its wake-up or a deadline of the task. The wake-up
  completes the block with the clock at the requested instant; a deadline interrupts it with the
  clock at that deadline. Either way the wake-up is neither pending nor ready afterwards.\<close>

theorem block_task_outcome:
  assumes "tl_inv clk" "schedule_wake_after clk t duration = (clk1, Ok wake_id)"
  shows "\<exists>clk' i k. find (\<lambda>(i, k). i = wake_id \<or> k = Deadline t) (om_entries (pending clk1)) = Some (i, k)
    \<and> block_task clk t duration
        = Some (clk', Ok (if i = wake_id then Completed else Interrupted (event i k)))
    \<and> monotonic_ns clk' = deadline_ns i
    \<and> unat (deadline_ns wake_id) = unat (monotonic_ns clk) + unat duration
    \<and> pend clk' wake_id = None \<and> wake_id \<notin> ev_id ` set (ready clk')"
proof -
  note p = schedule_wake_after_props [OF assms(2)]
  have w: "pend clk1 wake_id = Some (WakeTask t)"
      "unat (deadline_ns wake_id) = unat (monotonic_ns clk) + unat duration"
    using p(4) assms(1) by blast+
  have "ends_block wake_id t = (\<lambda>(i, k). i = wake_id \<or> k = Deadline t)"
    by (auto simp: ends_block_def)
  then obtain clk' x where r: "find (\<lambda>(i, k). i = wake_id \<or> k = Deadline t) (om_entries (pending clk1)) = Some x"
      "block_loop clk1 wake_id t = Some (clk', Ok (block_result wake_id x))"
      "monotonic_ns clk' = deadline_ns (fst x)" "pend clk' wake_id = None" "wake_id \<notin> ev_id ` set (ready clk')"
    using block_loop_returns [OF p(2) [OF assms(1)] w(1)] by auto
  show ?thesis
    by (intro exI [of _ clk'] exI [of _ "fst x"] exI [of _ "snd x"])
      (use r w(2) in \<open>simp add: block_task_def assms(2) block_result_def\<close>)
qed

theorem block_task_outcome_witness:
  "\<exists>clk' wake_id i k. block_task new_timeline 1 50
      = Some (clk', Ok (if i = wake_id then Completed else Interrupted (event i k)))
    \<and> monotonic_ns clk' = deadline_ns i \<and> unat (deadline_ns wake_id) = 50"
proof -
  obtain clk1 where run: "schedule_wake_after new_timeline 1 50 = (clk1, Ok (EventId 50 0))"
    by (simp add: schedule_wake_after_def schedule_after_def new_timeline_def schedule_at_def
        with_epoch_and_limits_def default_timeline_limits_def checked_add_def NANOS_PER_SECOND_def Let_def)
  have "tl_inv new_timeline" unfolding new_timeline_def by (rule new_timeline_inv)
  from block_task_outcome [OF this run] show ?thesis by fastforce
qed

end
