(* ===== verification/Descriptors.thy ===== *)
theory Descriptors
  imports Ordered_Map "HOL-Library.List_Lexorder" "HOL-Library.Char_ord"
begin

unbundle bit_operations_syntax

text \<open>
  The descriptor arena of \<open>src/src/descriptors.rs\<close>: shared open descriptions with their reference
  counts, bounded pipes, advisory file locks and generated devices. Description and pipe ids are
  \<open>u32\<close>, file offsets and inodes \<open>u64\<close>, lengths and capacities \<open>nat\<close>. A slice or an indexing that
  the source performs unchecked is a \<open>Panic\<close> when it is out of range.

  \<open>arena_inv\<close> ties the endpoint counters of each pipe to the open descriptions, bounds every buffer
  and table, keeps locks compatible, and is kept by every operation.
\<close>

section \<open>Limits, access and devices\<close>

type_synonym fd = int
type_synonym description_id = u32
type_synonym pipe_id = u32

definition MAX_FDS_PER_PROCESS :: nat where "MAX_FDS_PER_PROCESS = 256"
definition MAX_OPEN_DESCRIPTIONS :: nat where "MAX_OPEN_DESCRIPTIONS = 4096"
definition MAX_PIPES :: nat where "MAX_PIPES = 1024"
definition DEFAULT_PIPE_CAPACITY :: nat where "DEFAULT_PIPE_CAPACITY = 64 * 1024"
definition MAX_CAPTURE_BYTES :: nat where "MAX_CAPTURE_BYTES = 4 * 1024 * 1024"
definition DEVICE_READ_QUANTUM :: nat where "DEVICE_READ_QUANTUM = 4 * 1024"

datatype descriptor_kind = KFile | KDirectory | KDevice | KStream

record descriptor_state =
  ds_readable :: bool
  ds_writable :: bool
  ds_kind :: descriptor_kind
  ds_nonblocking :: bool

datatype file_lock_mode = Shared | Exclusive

datatype device_kind = DevZero | DevRandom | DevUrandom

record device_stream =
  dev_kind :: device_kind
  dev_state :: u64

definition new_device_stream :: "device_kind \<Rightarrow> device_stream" where
  "new_device_stream k = \<lparr>dev_kind = k, dev_state = (case k of
       DevZero \<Rightarrow> 0 | DevRandom \<Rightarrow> 0x243f6a8885a308d3 | DevUrandom \<Rightarrow> 0x13198a2e03707344)\<rparr>"

definition xorshift :: "u64 \<Rightarrow> u64" where
  "xorshift s =
     (let s1 = s XOR drop_bit 12 s; s2 = s1 XOR push_bit 25 s1 in s2 XOR drop_bit 27 s2)"

fun generate :: "nat \<Rightarrow> u64 \<Rightarrow> u64 \<times> bytes" where
  "generate 0 s = (s, [])"
| "generate (Suc n) s =
     (let s' = xorshift s; (s'', bs) = generate n s'
      in (s'', ucast (drop_bit 56 (s' * 0x2545f4914f6cdd1d)) # bs))"

definition device_read :: "device_stream \<Rightarrow> nat \<Rightarrow> device_stream \<times> bytes" where
  "device_read d maximum =
     (if dev_kind d = DevZero then (d, replicate maximum 0)
      else let (s, bs) = generate maximum (dev_state d) in (d\<lparr>dev_state := s\<rparr>, bs))"

section \<open>Open descriptions\<close>

datatype descriptor_error =
    InvalidFd | WrongAccess | DescriptorLimit | DescriptionLimit | PipeLimit
  | InvalidPipeCapacity | BrokenPipe | OutputLimit | ReferenceOverflow

datatype io_wait = WaitInput description_id | WaitPipeReadable pipe_id | WaitPipeWritable pipe_id

datatype 'a io_poll = Ready 'a | Blocks io_wait

record descriptor_ready =
  rd_bytes :: u64
  rd_hangup :: bool

record file_state =
  fs_path :: string
  fs_orphan :: "u64 option"
  fs_cursor :: u64
  fs_readable :: bool
  fs_writable :: bool
  fs_append :: bool
  fs_remove_on_first_write_error :: bool

datatype open_description =
    ODirectory string
  | OInput bytes nat bool
  | OCapture bytes nat
  | ONull bool bool
  | ODevice device_stream bool bool
  | OFile file_state
  | PipeReader pipe_id
  | PipeWriter pipe_id

record description_entry =
  description :: open_description
  references :: u32
  nonblocking :: bool
  file_lock :: "(u64 \<times> file_lock_mode) option"
  de_inode :: "u64 option"

record pipe =
  pipe_bytes :: bytes
  capacity :: nat
  readers :: u32
  writers :: u32

record descriptor_arena =
  next_description :: description_id
  next_pipe :: pipe_id
  descriptions :: "(description_id, description_entry) omap"
  pipes :: "(pipe_id, pipe) omap"
  file_locks_changed :: bool
  file_lock_generation :: u64

type_synonym 'a arena_result = "descriptor_arena \<times> (descriptor_error, 'a) outcome"

abbreviation entry :: "descriptor_arena \<Rightarrow> description_id \<Rightarrow> description_entry option" where
  "entry a i \<equiv> om_lookup (descriptions a) i"

abbreviation pipe_of :: "descriptor_arena \<Rightarrow> pipe_id \<Rightarrow> pipe option" where
  "pipe_of a p \<equiv> om_lookup (pipes a) p"

definition set_entry :: "descriptor_arena \<Rightarrow> description_id \<Rightarrow> description_entry \<Rightarrow> descriptor_arena" where
  "set_entry a i e = a\<lparr>descriptions := om_insert i e (descriptions a)\<rparr>"

definition set_description :: "descriptor_arena \<Rightarrow> description_id \<Rightarrow> description_entry
    \<Rightarrow> open_description \<Rightarrow> descriptor_arena" where
  "set_description a i e d = set_entry a i (e\<lparr>description := d\<rparr>)"

definition set_pipe :: "descriptor_arena \<Rightarrow> pipe_id \<Rightarrow> pipe \<Rightarrow> descriptor_arena" where
  "set_pipe a p st = a\<lparr>pipes := om_insert p st (pipes a)\<rparr>"

definition new_arena :: descriptor_arena where
  "new_arena = \<lparr>next_description = 1, next_pipe = 1, descriptions = om_empty, pipes = om_empty,
     file_locks_changed = False, file_lock_generation = 0\<rparr>"

section \<open>Opening\<close>

definition allocate :: "descriptor_arena \<Rightarrow> open_description \<Rightarrow> description_id arena_result" where
  "allocate a d =
     (if MAX_OPEN_DESCRIPTIONS \<le> om_size (descriptions a) then (a, Err DescriptionLimit)
      else
        let i = next_description a
        in try_in a (ok_or (checked_add (next_description a) 1) DescriptionLimit)
          (\<lambda>n. (a\<lparr>next_description := n,
                 descriptions := om_insert i \<lparr>description = d, references = 0, nonblocking = False,
                   file_lock = None, de_inode = None\<rparr> (descriptions a)\<rparr>, Ok i)))"

definition open_directory :: "descriptor_arena \<Rightarrow> string \<Rightarrow> description_id arena_result" where
  "open_directory a path = allocate a (ODirectory path)"

definition directory_path :: "descriptor_arena \<Rightarrow> description_id \<Rightarrow> (descriptor_error, string) outcome" where
  "directory_path a i = bind_oc (ok_or (entry a i) InvalidFd)
     (\<lambda>e. case description e of ODirectory path \<Rightarrow> Ok path | _ \<Rightarrow> Err WrongAccess)"

definition contains_pipe :: "descriptor_arena \<Rightarrow> pipe_id \<Rightarrow> bool" where
  "contains_pipe a p \<longleftrightarrow> om_contains (pipes a) p"

definition open_input :: "descriptor_arena \<Rightarrow> bytes \<Rightarrow> description_id arena_result" where
  "open_input a bs = (if MAX_CAPTURE_BYTES < length bs then (a, Err OutputLimit)
     else allocate a (OInput bs 0 True))"

definition open_stream_input :: "descriptor_arena \<Rightarrow> description_id arena_result" where
  "open_stream_input a = allocate a (OInput [] 0 False)"

definition input_readable :: "descriptor_arena \<Rightarrow> description_id \<Rightarrow> bool" where
  "input_readable a i = (case entry a i of
       None \<Rightarrow> False
     | Some e \<Rightarrow> (case description e of
           OInput bs cursor closed \<Rightarrow> cursor < length bs \<or> closed
         | _ \<Rightarrow> False))"

definition pipe_readable :: "descriptor_arena \<Rightarrow> pipe_id \<Rightarrow> bool" where
  "pipe_readable a p = (case pipe_of a p of
       None \<Rightarrow> False | Some st \<Rightarrow> pipe_bytes st \<noteq> [] \<or> writers st = 0)"

definition pipe_writable :: "descriptor_arena \<Rightarrow> pipe_id \<Rightarrow> bool" where
  "pipe_writable a p = (case pipe_of a p of
       None \<Rightarrow> False | Some st \<Rightarrow> readers st = 0 \<or> length (pipe_bytes st) < capacity st)"

definition append_input :: "descriptor_arena \<Rightarrow> description_id \<Rightarrow> bytes \<Rightarrow> unit arena_result" where
  "append_input a i input = try_in a (ok_or (entry a i) InvalidFd)
     (\<lambda>e. case description e of
        OInput bs cursor closed \<Rightarrow>
          if closed then (a, Err WrongAccess)
          else if MAX_CAPTURE_BYTES < length bs + length input then (a, Err OutputLimit)
          else (set_description a i e (OInput (bs @ input) cursor closed), Ok ())
      | _ \<Rightarrow> (a, Err WrongAccess))"

definition close_input :: "descriptor_arena \<Rightarrow> description_id \<Rightarrow> unit arena_result" where
  "close_input a i = try_in a (ok_or (entry a i) InvalidFd)
     (\<lambda>e. case description e of
        OInput bs cursor closed \<Rightarrow> (set_description a i e (OInput bs cursor True), Ok ())
      | _ \<Rightarrow> (a, Err WrongAccess))"

definition open_capture :: "descriptor_arena \<Rightarrow> description_id arena_result" where
  "open_capture a = allocate a (OCapture [] 0)"

definition open_null_with_access :: "descriptor_arena \<Rightarrow> bool \<Rightarrow> bool \<Rightarrow> description_id arena_result" where
  "open_null_with_access a readable writable = allocate a (ONull readable writable)"

definition open_null :: "descriptor_arena \<Rightarrow> description_id arena_result" where
  "open_null a = open_null_with_access a True True"

definition open_device :: "descriptor_arena \<Rightarrow> device_kind \<Rightarrow> bool \<Rightarrow> bool \<Rightarrow> description_id arena_result" where
  "open_device a k readable writable = allocate a (ODevice (new_device_stream k) readable writable)"

definition open_file :: "descriptor_arena \<Rightarrow> string \<Rightarrow> u64 \<Rightarrow> bool \<Rightarrow> bool \<Rightarrow> bool \<Rightarrow> bool
    \<Rightarrow> description_id arena_result" where
  "open_file a path cursor readable writable appending remove_on_first_write_error =
     allocate a (OFile \<lparr>fs_path = path, fs_orphan = None, fs_cursor = cursor,
       fs_readable = readable, fs_writable = writable, fs_append = appending,
       fs_remove_on_first_write_error = remove_on_first_write_error\<rparr>)"

definition detach_file :: "descriptor_arena \<Rightarrow> string \<Rightarrow> u64 \<Rightarrow> descriptor_arena" where
  "detach_file a path orphan_id = a\<lparr>descriptions := om_map (\<lambda>_ e. case description e of
       OFile f \<Rightarrow> if fs_path f = path
         then e\<lparr>description := OFile (f\<lparr>fs_orphan := Some orphan_id\<rparr>)\<rparr> else e
     | _ \<Rightarrow> e) (descriptions a)\<rparr>"

definition has_open_file :: "descriptor_arena \<Rightarrow> string \<Rightarrow> bool" where
  "has_open_file a path = list_ex (\<lambda>e. case description e of
       OFile f \<Rightarrow> fs_orphan f = None \<and> fs_path f = path | _ \<Rightarrow> False) (om_values (descriptions a))"

definition live_orphans :: "descriptor_arena \<Rightarrow> u64 set" where
  "live_orphans a = set (List.map_filter (\<lambda>e. case description e of
       OFile f \<Rightarrow> fs_orphan f | _ \<Rightarrow> None) (om_values (descriptions a)))"

definition open_pipe :: "descriptor_arena \<Rightarrow> nat \<Rightarrow> (description_id \<times> description_id) arena_result" where
  "open_pipe a cap =
     (if cap = 0 \<or> DEFAULT_PIPE_CAPACITY < cap then (a, Err InvalidPipeCapacity)
      else if MAX_PIPES \<le> om_size (pipes a) then (a, Err PipeLimit)
      else
        let p = next_pipe a
        in try_in a (ok_or (checked_add (next_pipe a) 1) PipeLimit)
          (\<lambda>n. let a1 = a\<lparr>next_pipe := n, pipes := om_insert p
                     \<lparr>pipe_bytes = [], capacity = cap, readers = 1, writers = 1\<rparr> (pipes a)\<rparr>
             in case allocate a1 (PipeReader p) of
                  (a2, Ok reader) \<Rightarrow>
                    (case allocate a2 (PipeWriter p) of
                       (a3, Ok writer) \<Rightarrow> (a3, Ok (reader, writer))
                     | (a3, Err e) \<Rightarrow>
                         (a3\<lparr>descriptions := om_remove reader (descriptions a3),
                             pipes := om_remove p (pipes a3)\<rparr>, Err e)
                     | (a3, Panic) \<Rightarrow> (a3, Panic))
                | (a2, Err e) \<Rightarrow> (a2\<lparr>pipes := om_remove p (pipes a2)\<rparr>, Err e)
                | (a2, Panic) \<Rightarrow> (a2, Panic)))"

section \<open>References\<close>

definition retain_ref :: "descriptor_arena \<Rightarrow> description_id \<Rightarrow> unit arena_result" where
  "retain_ref a i = try_in a (ok_or (entry a i) InvalidFd)
     (\<lambda>e. try_in a (ok_or (checked_add (references e) 1) ReferenceOverflow)
        (\<lambda>n. (set_entry a i (e\<lparr>references := n\<rparr>), Ok ())))"

definition lock_released :: "descriptor_arena \<Rightarrow> descriptor_arena" where
  "lock_released a = a\<lparr>file_locks_changed := True, file_lock_generation := file_lock_generation a + 1\<rparr>"

definition drop_endpoint :: "descriptor_arena \<Rightarrow> open_description \<Rightarrow> descriptor_arena \<times> pipe_id option" where
  "drop_endpoint a d = (case d of
       PipeReader p \<Rightarrow> (a\<lparr>pipes := om_update p (\<lambda>st. st\<lparr>readers := saturating_sub (readers st) 1\<rparr>) (pipes a)\<rparr>, Some p)
     | PipeWriter p \<Rightarrow> (a\<lparr>pipes := om_update p (\<lambda>st. st\<lparr>writers := saturating_sub (writers st) 1\<rparr>) (pipes a)\<rparr>, Some p)
     | _ \<Rightarrow> (a, None))"

definition remove_dead_pipe :: "descriptor_arena \<Rightarrow> pipe_id option \<Rightarrow> descriptor_arena" where
  "remove_dead_pipe a q = (case q of
       None \<Rightarrow> a
     | Some p \<Rightarrow> (case pipe_of a p of
           Some st \<Rightarrow> if readers st = 0 \<and> writers st = 0 then a\<lparr>pipes := om_remove p (pipes a)\<rparr> else a
         | None \<Rightarrow> a))"

definition release_ref :: "descriptor_arena \<Rightarrow> description_id \<Rightarrow> unit arena_result" where
  "release_ref a i = try_in a (ok_or (entry a i) InvalidFd)
     (\<lambda>e. try_in a (ok_or (checked_sub (references e) 1) InvalidFd)
        (\<lambda>n. let a1 = set_entry a i (e\<lparr>references := n\<rparr>)
           in if n \<noteq> 0 then (a1, Ok ())
              else
                let a2 = a1\<lparr>descriptions := om_remove i (descriptions a1)\<rparr>;
                    a3 = (if file_lock e \<noteq> None then lock_released a2 else a2);
                    (a4, p) = drop_endpoint a3 (description e)
                in (remove_dead_pipe a4 p, Ok ())))"

definition discard_unreferenced :: "descriptor_arena \<Rightarrow> description_id \<Rightarrow> unit arena_result" where
  "discard_unreferenced a i = try_in a (ok_or (entry a i) InvalidFd)
     (\<lambda>e. if references e \<noteq> 0 then (a, Err WrongAccess)
        else and_then (retain_ref a i) (\<lambda>a' _. release_ref a' i))"

definition retain_handle :: "descriptor_arena \<Rightarrow> description_id \<Rightarrow> unit arena_result" where
  "retain_handle a i = retain_ref a i"

definition release_handle :: "descriptor_arena \<Rightarrow> description_id \<Rightarrow> unit arena_result" where
  "release_handle a i = release_ref a i"

section \<open>Locks and inodes\<close>

definition conflicts :: "u64 \<Rightarrow> file_lock_mode \<Rightarrow> description_entry \<Rightarrow> bool" where
  "conflicts inode mode e = (case file_lock e of
       None \<Rightarrow> False
     | Some (other_inode, other_mode) \<Rightarrow>
         other_inode = inode \<and> (mode = Exclusive \<or> other_mode = Exclusive))"

definition lock_file :: "descriptor_arena \<Rightarrow> description_id \<Rightarrow> u64 \<Rightarrow> file_lock_mode option \<Rightarrow> bool arena_result" where
  "lock_file a i inode mode = try_in a (ok_or (entry a i) InvalidFd)
     (\<lambda>e. if file_lock e = map_option (Pair inode) mode then (a, Ok True)
        else
          let a1 = set_entry a i (e\<lparr>file_lock := None\<rparr>);
              a2 = (if file_lock e \<noteq> None then lock_released a1 else a1)
          in case mode of
               None \<Rightarrow> (a2, Ok True)
             | Some m \<Rightarrow>
                 if list_ex (conflicts inode m) (om_values (descriptions a2)) then (a2, Ok False)
                 else case entry a2 i of
                        None \<Rightarrow> (a2, Panic)
                      | Some e' \<Rightarrow> (set_entry a2 i (e'\<lparr>file_lock := Some (inode, m)\<rparr>), Ok True))"

definition take_file_lock_changes :: "descriptor_arena \<Rightarrow> descriptor_arena \<times> bool" where
  "take_file_lock_changes a = (a\<lparr>file_locks_changed := False\<rparr>, file_locks_changed a)"

definition bind_inode :: "descriptor_arena \<Rightarrow> description_id \<Rightarrow> u64 \<Rightarrow> unit arena_result" where
  "bind_inode a i inode = try_in a (ok_or (entry a i) InvalidFd)
     (\<lambda>e. (set_entry a i (e\<lparr>de_inode := Some inode\<rparr>), Ok ()))"

definition inode_of :: "descriptor_arena \<Rightarrow> description_id \<Rightarrow> (descriptor_error, u64) outcome" where
  "inode_of a i = bind_oc (ok_or (entry a i) InvalidFd) (\<lambda>e. ok_or (de_inode e) WrongAccess)"

section \<open>Reading and writing\<close>

definition slice :: "'a list \<Rightarrow> nat \<Rightarrow> nat \<Rightarrow> ('e, 'a list) outcome" where
  \<comment> \<open>\<open>xs[from..to]\<close>\<close>
  "slice xs from to = (if from \<le> to \<and> to \<le> length xs then Ok (take (to - from) (drop from xs)) else Panic)"

definition read_description :: "descriptor_arena \<Rightarrow> description_id \<Rightarrow> nat \<Rightarrow> bytes io_poll arena_result" where
  "read_description a i maximum = try_in a (ok_or (entry a i) InvalidFd)
     (\<lambda>e. case description e of
        OInput bs cursor closed \<Rightarrow>
          if cursor = length bs \<and> \<not> closed then (a, Ok (Blocks (WaitInput i)))
          else let to = min (cursor + maximum) (length bs)
               in try_in a (slice bs cursor to)
                    (\<lambda>result. (set_description a i e (OInput bs to closed), Ok (Ready result)))
      | ONull readable _ \<Rightarrow> if readable then (a, Ok (Ready [])) else (a, Err WrongAccess)
      | ODevice stream readable writable \<Rightarrow>
          if \<not> readable then (a, Err WrongAccess)
          else let (stream', bs) = device_read stream maximum
               in (set_description a i e (ODevice stream' readable writable), Ok (Ready bs))
      | PipeReader p \<Rightarrow> try_in a (ok_or (pipe_of a p) InvalidFd)
          (\<lambda>st. if pipe_bytes st = [] \<and> 0 < writers st then (a, Ok (Blocks (WaitPipeReadable p)))
              else let count = min maximum (length (pipe_bytes st))
                   in (set_pipe a p (st\<lparr>pipe_bytes := drop count (pipe_bytes st)\<rparr>),
                       Ok (Ready (take count (pipe_bytes st)))))
      | _ \<Rightarrow> (a, Err WrongAccess))"

definition write_description :: "descriptor_arena \<Rightarrow> description_id \<Rightarrow> bytes \<Rightarrow> nat io_poll arena_result" where
  "write_description a i bs = try_in a (ok_or (entry a i) InvalidFd)
     (\<lambda>e. case description e of
        OCapture output delivered \<Rightarrow>
          if MAX_CAPTURE_BYTES < length output + length bs then (a, Err OutputLimit)
          else (set_description a i e (OCapture (output @ bs) delivered), Ok (Ready (length bs)))
      | ONull _ writable \<Rightarrow> if writable then (a, Ok (Ready (length bs))) else (a, Err WrongAccess)
      | ODevice _ _ writable \<Rightarrow> if writable then (a, Ok (Ready (length bs))) else (a, Err WrongAccess)
      | PipeWriter p \<Rightarrow> try_in a (ok_or (pipe_of a p) InvalidFd)
          (\<lambda>st. if readers st = 0 then (a, Err BrokenPipe)
              else
                let available = capacity st - length (pipe_bytes st)
                in if available = 0 then (a, Ok (Blocks (WaitPipeWritable p)))
                   else let count = min available (length bs)
                        in (set_pipe a p (st\<lparr>pipe_bytes := pipe_bytes st @ take count bs\<rparr>), Ok (Ready count)))
      | _ \<Rightarrow> (a, Err WrongAccess))"

definition capture :: "descriptor_arena \<Rightarrow> description_id \<Rightarrow> (descriptor_error, bytes) outcome" where
  "capture a i = bind_oc (ok_or (entry a i) InvalidFd)
     (\<lambda>e. case description e of OCapture bs _ \<Rightarrow> Ok bs | _ \<Rightarrow> Err WrongAccess)"

definition drain_capture :: "descriptor_arena \<Rightarrow> description_id \<Rightarrow> bytes arena_result" where
  "drain_capture a i = try_in a (ok_or (entry a i) InvalidFd)
     (\<lambda>e. case description e of
        OCapture bs delivered \<Rightarrow> try_in a (slice bs delivered (length bs))
          (\<lambda>output. (set_description a i e (OCapture bs (length bs)), Ok output))
      | _ \<Rightarrow> (a, Err WrongAccess))"

section \<open>Inspection\<close>

definition description_label :: "descriptor_arena \<Rightarrow> description_id \<Rightarrow> (descriptor_error, string) outcome" where
  "description_label a i = bind_oc (ok_or (entry a i) InvalidFd)
     (\<lambda>e. Ok (case description e of
        OInput _ _ _ \<Rightarrow> ''pipe:['' @ decimal (unat i) @ '']''
      | OCapture _ _ \<Rightarrow> ''pipe:['' @ decimal (unat i) @ '']''
      | ONull _ _ \<Rightarrow> ''/dev/null''
      | ODevice stream _ _ \<Rightarrow> (case dev_kind stream of
            DevZero \<Rightarrow> ''/dev/zero'' | DevRandom \<Rightarrow> ''/dev/random'' | DevUrandom \<Rightarrow> ''/dev/urandom'')
      | OFile f \<Rightarrow> fs_path f
      | ODirectory path \<Rightarrow> path
      | PipeReader p \<Rightarrow> ''pipe:['' @ decimal (unat p) @ '']''
      | PipeWriter p \<Rightarrow> ''pipe:['' @ decimal (unat p) @ '']''))"

definition state_of :: "descriptor_arena \<Rightarrow> description_id \<Rightarrow> (descriptor_error, descriptor_state) outcome" where
  "state_of a i = bind_oc (ok_or (entry a i) InvalidFd)
     (\<lambda>e. let (readable, writable, kind) = (case description e of
            ODirectory _ \<Rightarrow> (True, False, KDirectory)
          | OInput _ _ _ \<Rightarrow> (True, False, KStream)
          | PipeReader _ \<Rightarrow> (True, False, KStream)
          | OCapture _ _ \<Rightarrow> (False, True, KStream)
          | PipeWriter _ \<Rightarrow> (False, True, KStream)
          | ONull readable writable \<Rightarrow> (readable, writable, KDevice)
          | ODevice _ readable writable \<Rightarrow> (readable, writable, KDevice)
          | OFile f \<Rightarrow> (fs_readable f, fs_writable f, KFile))
        in Ok \<lparr>ds_readable = readable, ds_writable = writable, ds_kind = kind,
               ds_nonblocking = nonblocking e\<rparr>)"

definition set_nonblocking :: "descriptor_arena \<Rightarrow> description_id \<Rightarrow> bool \<Rightarrow> unit arena_result" where
  "set_nonblocking a i enabled = try_in a (ok_or (entry a i) InvalidFd)
     (\<lambda>e. (set_entry a i (e\<lparr>nonblocking := enabled\<rparr>), Ok ()))"

definition readiness :: "descriptor_arena \<Rightarrow> description_id \<Rightarrow> bool
    \<Rightarrow> (descriptor_error, descriptor_ready io_poll) outcome" where
  "readiness a i writing = bind_oc (state_of a i)
     (\<lambda>st. if (writing \<and> \<not> ds_writable st) \<or> (\<not> writing \<and> \<not> ds_readable st) then Err WrongAccess
         else case entry a i of
           None \<Rightarrow> Panic
         | Some e \<Rightarrow> (case description e of
             OInput bs cursor closed \<Rightarrow>
               if \<not> input_readable a i then Ok (Blocks (WaitInput i))
               else Ok (Ready \<lparr>rd_bytes = of_nat (length bs - cursor), rd_hangup = closed\<rparr>)
           | PipeReader p \<Rightarrow>
               if \<not> pipe_readable a p then Ok (Blocks (WaitPipeReadable p))
               else (case pipe_of a p of
                   None \<Rightarrow> Panic
                 | Some q \<Rightarrow> Ok (Ready \<lparr>rd_bytes = of_nat (length (pipe_bytes q)), rd_hangup = (writers q = 0)\<rparr>))
           | PipeWriter p \<Rightarrow>
               if \<not> pipe_writable a p then Ok (Blocks (WaitPipeWritable p))
               else (case pipe_of a p of
                   None \<Rightarrow> Panic
                 | Some q \<Rightarrow> Ok (Ready \<lparr>rd_bytes = (if readers q = 0 then 0
                       else of_nat (capacity q - length (pipe_bytes q))), rd_hangup = (readers q = 0)\<rparr>))
           | OCapture bs _ \<Rightarrow> Ok (Ready \<lparr>rd_bytes = of_nat (MAX_CAPTURE_BYTES - length bs), rd_hangup = False\<rparr>)
           | ODevice _ _ _ \<Rightarrow> Ok (Ready \<lparr>rd_bytes = of_nat DEVICE_READ_QUANTUM, rd_hangup = False\<rparr>)
           | _ \<Rightarrow> Ok (Ready \<lparr>rd_bytes = 0, rd_hangup = False\<rparr>)))"

definition file_state_of :: "descriptor_arena \<Rightarrow> description_id \<Rightarrow> (descriptor_error, file_state option) outcome" where
  "file_state_of a i = bind_oc (ok_or (entry a i) InvalidFd)
     (\<lambda>e. Ok (case description e of OFile f \<Rightarrow> Some f | _ \<Rightarrow> None))"

definition set_append :: "descriptor_arena \<Rightarrow> description_id \<Rightarrow> bool \<Rightarrow> unit arena_result" where
  "set_append a i enabled = try_in a (ok_or (entry a i) InvalidFd)
     (\<lambda>e. case description e of
        OFile f \<Rightarrow> (set_description a i e (OFile (f\<lparr>fs_append := enabled\<rparr>)), Ok ())
      | _ \<Rightarrow> (a, Err WrongAccess))"

definition is_generated_device :: "descriptor_arena \<Rightarrow> description_id \<Rightarrow> (descriptor_error, bool) outcome" where
  "is_generated_device a i = bind_oc (ok_or (entry a i) InvalidFd)
     (\<lambda>e. Ok (case description e of ODevice _ readable _ \<Rightarrow> readable | _ \<Rightarrow> False))"

definition advance_file :: "descriptor_arena \<Rightarrow> description_id \<Rightarrow> nat \<Rightarrow> unit arena_result" where
  "advance_file a i n = try_in a (ok_or (entry a i) InvalidFd)
     (\<lambda>e. case description e of
        OFile f \<Rightarrow>
          if 2 ^ 64 \<le> n then (a, Err OutputLimit)
          else try_in a (ok_or (checked_add (fs_cursor f) (of_nat n)) OutputLimit)
            (\<lambda>c. (set_description a i e (OFile (f\<lparr>fs_cursor := c\<rparr>)), Ok ()))
      | _ \<Rightarrow> (a, Err WrongAccess))"

definition seek_file :: "descriptor_arena \<Rightarrow> description_id \<Rightarrow> u64 \<Rightarrow> unit arena_result" where
  "seek_file a i position = try_in a (ok_or (entry a i) InvalidFd)
     (\<lambda>e. case description e of
        OFile f \<Rightarrow> (set_description a i e (OFile (f\<lparr>fs_cursor := position\<rparr>)), Ok ())
      | _ \<Rightarrow> (a, Err WrongAccess))"

definition pipe_endpoint :: "descriptor_arena \<Rightarrow> description_id
    \<Rightarrow> (descriptor_error, (pipe_id \<times> bool) option) outcome" where
  "pipe_endpoint a i = bind_oc (ok_or (entry a i) InvalidFd)
     (\<lambda>e. Ok (case description e of
        PipeReader p \<Rightarrow> Some (p, True) | PipeWriter p \<Rightarrow> Some (p, False) | _ \<Rightarrow> None))"

section \<open>The arena invariant\<close>

text \<open>Three views of the arena: which endpoint of which pipe a description is, which lock it holds,
  and the endpoint counters of each pipe.\<close>

fun endpoint :: "open_description \<Rightarrow> (pipe_id \<times> bool) option" where
  "endpoint (PipeReader p) = Some (p, True)"
| "endpoint (PipeWriter p) = Some (p, False)"
| "endpoint _ = None"

definition ep :: "descriptor_arena \<Rightarrow> description_id \<Rightarrow> (pipe_id \<times> bool) option" where
  "ep a i = Option.bind (entry a i) (\<lambda>e. endpoint (description e))"

definition lk :: "descriptor_arena \<Rightarrow> description_id \<Rightarrow> (u64 \<times> file_lock_mode) option" where
  "lk a i = Option.bind (entry a i) file_lock"

definition cnt :: "descriptor_arena \<Rightarrow> pipe_id \<Rightarrow> (u32 \<times> u32) option" where
  "cnt a p = map_option (\<lambda>st. (readers st, writers st)) (pipe_of a p)"

definition ends_ok :: "(description_id \<Rightarrow> (pipe_id \<times> bool) option) \<Rightarrow> (pipe_id \<Rightarrow> (u32 \<times> u32) option) \<Rightarrow> bool" where
  "ends_ok E C \<longleftrightarrow> (\<forall>i j x. E i = Some x \<longrightarrow> E j = Some x \<longrightarrow> i = j)
     \<and> (\<forall>p. C p = (if \<exists>i b. E i = Some (p, b)
           then Some (if \<exists>i. E i = Some (p, True) then 1 else 0, if \<exists>i. E i = Some (p, False) then 1 else 0)
           else None))"

definition locks_ok :: "(description_id \<Rightarrow> (u64 \<times> file_lock_mode) option) \<Rightarrow> bool" where
  "locks_ok L \<longleftrightarrow> (\<forall>i j n m m'. i \<noteq> j \<longrightarrow> L i = Some (n, m) \<longrightarrow> L j = Some (n, m') \<longrightarrow> m = Shared \<and> m' = Shared)"

fun buffer_ok :: "open_description \<Rightarrow> bool" where
  "buffer_ok (OInput bs cursor _) \<longleftrightarrow> cursor \<le> length bs \<and> length bs \<le> MAX_CAPTURE_BYTES"
| "buffer_ok (OCapture bs delivered) \<longleftrightarrow> delivered \<le> length bs \<and> length bs \<le> MAX_CAPTURE_BYTES"
| "buffer_ok _ \<longleftrightarrow> True"

definition pipe_ok :: "pipe \<Rightarrow> bool" where
  "pipe_ok st \<longleftrightarrow> length (pipe_bytes st) \<le> capacity st \<and> 0 < capacity st \<and> capacity st \<le> DEFAULT_PIPE_CAPACITY"

definition arena_inv :: "descriptor_arena \<Rightarrow> bool" where
  "arena_inv a \<longleftrightarrow> om_size (descriptions a) \<le> MAX_OPEN_DESCRIPTIONS \<and> om_size (pipes a) \<le> MAX_PIPES
     \<and> (\<forall>i e. entry a i = Some e \<longrightarrow> i < next_description a \<and> buffer_ok (description e))
     \<and> (\<forall>p st. pipe_of a p = Some st \<longrightarrow> p < next_pipe a \<and> pipe_ok st)
     \<and> ends_ok (ep a) (cnt a) \<and> locks_ok (lk a)"

lemma arena_invD:
  assumes "arena_inv a"
  shows "om_size (descriptions a) \<le> MAX_OPEN_DESCRIPTIONS" "om_size (pipes a) \<le> MAX_PIPES"
    "entry a i = Some e \<Longrightarrow> i < next_description a" "entry a i = Some e \<Longrightarrow> buffer_ok (description e)"
    "pipe_of a p = Some st \<Longrightarrow> p < next_pipe a" "pipe_of a p = Some st \<Longrightarrow> pipe_ok st"
    "ends_ok (ep a) (cnt a)" "locks_ok (lk a)"
  using assms unfolding arena_inv_def by blast+

lemma new_arena_inv: "arena_inv new_arena"
  by (simp add: arena_inv_def new_arena_def ends_ok_def locks_ok_def ep_def lk_def cnt_def)

lemma ends_ok_inj: "ends_ok E C \<Longrightarrow> E i = Some x \<Longrightarrow> E j = Some x \<Longrightarrow> i = j"
  unfolding ends_ok_def by blast

lemma ends_ok_count: "ends_ok E C \<Longrightarrow> C p = (if \<exists>i b. E i = Some (p, b)
    then Some (if \<exists>i. E i = Some (p, True) then 1 else 0, if \<exists>i. E i = Some (p, False) then 1 else 0)
    else None)"
  unfolding ends_ok_def by blast

lemma ends_okI: "(\<And>i j x. E i = Some x \<Longrightarrow> E j = Some x \<Longrightarrow> i = j) \<Longrightarrow>
    (\<And>p. C p = (if \<exists>i b. E i = Some (p, b)
      then Some (if \<exists>i. E i = Some (p, True) then 1 else 0, if \<exists>i. E i = Some (p, False) then 1 else 0)
      else None)) \<Longrightarrow> ends_ok E C"
  unfolding ends_ok_def by blast

lemma pipe_counts:
  assumes "ends_ok (ep a) (cnt a)" "ep a i = Some (p, b)"
  obtains st where "pipe_of a p = Some st"
    "readers st = (if \<exists>k. ep a k = Some (p, True) then 1 else 0)"
    "writers st = (if \<exists>k. ep a k = Some (p, False) then 1 else 0)"
proof -
  have "\<exists>i b. ep a i = Some (p, b)" using assms(2) by blast
  then have "cnt a p = Some (if \<exists>k. ep a k = Some (p, True) then 1 else 0,
      if \<exists>k. ep a k = Some (p, False) then 1 else 0)"
    using ends_ok_count [OF assms(1), of p] by simp
  then show thesis unfolding cnt_def by (elim map_option_eq_Some [THEN iffD1, elim_format] exE conjE)
      (rule that, auto)
qed

lemma ends_ok_pipe:
  assumes "ends_ok (ep a) (cnt a)" "entry a i = Some e" "endpoint (description e) = Some (p, b)"
  obtains st where "pipe_of a p = Some st" "b \<Longrightarrow> readers st = 1" "\<not> b \<Longrightarrow> writers st = 1"
proof -
  have i: "ep a i = Some (p, b)" using assms by (simp add: ep_def)
  then have ex: "b \<Longrightarrow> \<exists>k. ep a k = Some (p, True)" "\<not> b \<Longrightarrow> \<exists>k. ep a k = Some (p, False)" by auto
  obtain st where "pipe_of a p = Some st"
      "readers st = (if \<exists>k. ep a k = Some (p, True) then 1 else 0)"
      "writers st = (if \<exists>k. ep a k = Some (p, False) then 1 else 0)"
    by (rule pipe_counts [OF assms(1) i])
  with ex show thesis by (intro that [of st]) simp_all
qed

lemma entry_pipe: "arena_inv a \<Longrightarrow> entry a i = Some e \<Longrightarrow> endpoint (description e) = Some (p, b)
    \<Longrightarrow> \<exists>st. pipe_of a p = Some st"
  using ends_ok_pipe arena_invD(7) by metis

text \<open>An update of one entry that leaves its endpoint alone.\<close>

lemma set_entry_views:
  "entry (set_entry a i e') j = (if j = i then Some e' else entry a j)"
  "ep (set_entry a i e') = (ep a)(i := endpoint (description e'))"
  "lk (set_entry a i e') = (lk a)(i := file_lock e')"
  "cnt (set_entry a i e') = cnt a" "pipes (set_entry a i e') = pipes a"
  "next_pipe (set_entry a i e') = next_pipe a" "next_description (set_entry a i e') = next_description a"
  by (auto simp: set_entry_def om_lookup_insert ep_def lk_def cnt_def fun_eq_iff)

lemma set_entry_inv:
  assumes inv: "arena_inv a" and e: "entry a i = Some e"
    and same: "endpoint (description e') = endpoint (description e)" "buffer_ok (description e')"
    and locks: "locks_ok ((lk a)(i := file_lock e'))"
  shows "arena_inv (set_entry a i e')"
proof -
  have "ep a i = endpoint (description e')" using e same by (simp add: ep_def)
  then have "(ep a)(i := endpoint (description e')) = ep a" by (simp add: fun_upd_idem)
  moreover have "om_size (descriptions (set_entry a i e')) = om_size (descriptions a)"
    using e by (simp add: set_entry_def om_size_insert)
  ultimately show ?thesis
    using arena_invD [OF inv] e same(2) locks
    by (auto simp: arena_inv_def set_entry_views split: if_splits)
qed

lemma set_entry_inv_lock:
  assumes "arena_inv a" "entry a i = Some e" "endpoint (description e') = endpoint (description e)"
    "buffer_ok (description e')" "file_lock e' = file_lock e"
  shows "arena_inv (set_entry a i e')"
proof (rule set_entry_inv [OF assms(1-4)])
  have "(lk a)(i := file_lock e') = lk a" using assms(2,5) by (auto simp: lk_def fun_eq_iff)
  then show "locks_ok ((lk a)(i := file_lock e'))" using arena_invD(8) [OF assms(1)] by simp
qed

lemma set_pipe_inv:
  assumes inv: "arena_inv a" and st: "pipe_of a p = Some st"
    and same: "readers st' = readers st" "writers st' = writers st" "pipe_ok st'"
  shows "arena_inv (set_pipe a p st')"
proof -
  have "cnt (set_pipe a p st') = cnt a" "ep (set_pipe a p st') = ep a" "lk (set_pipe a p st') = lk a"
    using st same by (auto simp: set_pipe_def cnt_def ep_def lk_def om_lookup_insert fun_eq_iff)
  moreover have "om_size (pipes (set_pipe a p st')) = om_size (pipes a)"
    using st by (simp add: set_pipe_def om_size_insert)
  ultimately show ?thesis
    using arena_invD [OF inv] same(3) st
    by (auto simp: arena_inv_def set_pipe_def om_lookup_insert split: if_splits)
qed

lemma arena_flags_inv: "arena_inv a \<Longrightarrow>
    arena_inv (a\<lparr>file_locks_changed := c, file_lock_generation := g\<rparr>)"
  by (simp add: arena_inv_def ep_def [abs_def] lk_def [abs_def] cnt_def [abs_def])

section \<open>Every operation keeps the invariant\<close>

lemma arena_changed_inv: "arena_inv a \<Longrightarrow> arena_inv (a\<lparr>file_locks_changed := c\<rparr>)"
  by (simp add: arena_inv_def ep_def [abs_def] lk_def [abs_def] cnt_def [abs_def])

lemma allocate_cases:
  assumes "allocate a d = (a', r)"
  obtains (refused) "a' = a" "r = Err DescriptionLimit"
  | (allocated) n e where "r = Ok (next_description a)" "next_description a < n"
      "om_size (descriptions a) < MAX_OPEN_DESCRIPTIONS"
      "a' = a\<lparr>next_description := n, descriptions := om_insert (next_description a) e (descriptions a)\<rparr>"
      "e = \<lparr>description = d, references = 0, nonblocking = False, file_lock = None, de_inode = None\<rparr>"
proof (cases "MAX_OPEN_DESCRIPTIONS \<le> om_size (descriptions a) \<or> checked_add (next_description a) 1 = None")
  case True
  with assms refused show thesis by (auto simp: allocate_def Let_def split: if_splits)
next
  case False
  then obtain n where n: "checked_add (next_description a) 1 = Some n" by auto
  then have "next_description a < n" by (simp add: rust_arith word_less_nat_alt)
  with False n assms allocated show thesis by (auto simp: allocate_def Let_def not_le)
qed

text \<open>What the views see of a fresh description.\<close>

lemma fresh_description:
  assumes inv: "arena_inv a"
  shows "entry a (next_description a) = None" "ep a (next_description a) = None" "lk a (next_description a) = None"
  using arena_invD(3) [OF inv, of "next_description a"]
  by (cases "entry a (next_description a)"; simp add: ep_def lk_def)+

lemma alloc_views:
  fixes a n e
  defines "a' \<equiv> a\<lparr>next_description := n, descriptions := om_insert (next_description a) e (descriptions a)\<rparr>"
  shows "entry a' j = (if j = next_description a then Some e else entry a j)"
    "ep a' = (ep a)(next_description a := endpoint (description e))"
    "lk a' = (lk a)(next_description a := file_lock e)" "cnt a' = cnt a"
  by (auto simp: a'_def om_lookup_insert ep_def lk_def cnt_def fun_eq_iff)

lemma allocate_inv:
  assumes inv: "arena_inv a" and d: "endpoint d = None" "buffer_ok d" and run: "allocate a d = (a', r)"
  shows "arena_inv a'"
  using run
proof (cases rule: allocate_cases)
  case (allocated n e)
  note fresh = fresh_description [OF inv]
  have "ep a' = ep a" "lk a' = lk a" "cnt a' = cnt a"
    using fresh d allocated(5) by (auto simp: allocated(4) alloc_views fun_upd_idem)
  moreover have "i < next_description a' \<and> buffer_ok (description e')" if "entry a' i = Some e'" for i e'
    using that arena_invD(3,4) [OF inv, of i e'] less_trans [OF _ allocated(2)] allocated(2,5) d(2)
    by (auto simp: allocated(4) om_lookup_insert split: if_splits)
  moreover have "om_size (descriptions a') \<le> MAX_OPEN_DESCRIPTIONS"
    using allocated(3) fresh by (simp add: allocated(4) om_size_insert)
  moreover have "pipes a' = pipes a" "next_pipe a' = next_pipe a" by (simp_all add: allocated(4))
  ultimately show ?thesis using arena_invD(2,5-8) [OF inv] by (auto simp: arena_inv_def)
qed (simp add: inv)

lemma new_pipe_ends:
  assumes ok: "ends_ok E C" and fresh: "i \<noteq> j" "E i = None" "E j = None" "C p = None"
  shows "ends_ok (E(i := Some (p, True), j := Some (p, False))) (C(p := Some (1, 1)))"
proof -
  have none: "E k \<noteq> Some (p, b)" for k b
    using ok fresh(4) unfolding ends_ok_def by (metis option.distinct(1))
  let ?E = "E(i := Some (p, True), j := Some (p, False))"
  have ex: "(\<exists>k. ?E k = Some (q, b)) \<longleftrightarrow> q = p \<or> (\<exists>k. E k = Some (q, b))" for q b
  proof
    assume "q = p \<or> (\<exists>k. E k = Some (q, b))"
    then show "\<exists>k. ?E k = Some (q, b)"
    proof
      assume "q = p"
      then have "?E (if b then i else j) = Some (q, b)" using fresh(1) by simp
      then show ?thesis by blast
    next
      assume "\<exists>k. E k = Some (q, b)"
      then obtain k where k: "E k = Some (q, b)" ..
      then have "?E k = Some (q, b)" using fresh(2,3) by auto
      then show ?thesis by blast
    qed
  qed (auto split: if_splits)
  then have ex2: "(\<exists>k b. ?E k = Some (q, b)) \<longleftrightarrow> q = p \<or> (\<exists>k b. E k = Some (q, b))" for q by metis
  show ?thesis
  proof (rule ends_okI)
    show "k = l" if "?E k = Some x" "?E l = Some x" for k l x
      using that none ends_ok_inj [OF ok, of k x l] by (auto split: if_splits)
    show "(C(p := Some (1, 1))) q = (if \<exists>k b. ?E k = Some (q, b)
        then Some (if \<exists>k. ?E k = Some (q, True) then 1 else 0, if \<exists>k. ?E k = Some (q, False) then 1 else 0)
        else None)" for q
      unfolding ex ex2 using ends_ok_count [OF ok, of q] by simp
  qed
qed

lemma open_pipe_cases:
  assumes inv: "arena_inv a" and run: "open_pipe a cap = (a', r)"
  obtains (refused) err n where "r = Err err" "next_pipe a \<le> n" "next_description a \<le> next_description a'"
      "a' = a\<lparr>next_pipe := n, next_description := next_description a'\<rparr>"
  | (opened) n i j a1 a2 where "r = Ok (i, j)" "next_pipe a < n" "0 < cap" "cap \<le> DEFAULT_PIPE_CAPACITY"
      "om_size (pipes a) < MAX_PIPES"
      "a1 = a\<lparr>next_pipe := n, pipes := om_insert (next_pipe a)
          \<lparr>pipe_bytes = [], capacity = cap, readers = 1, writers = 1\<rparr> (pipes a)\<rparr>"
      "allocate a1 (PipeReader (next_pipe a)) = (a2, Ok i)"
      "allocate a2 (PipeWriter (next_pipe a)) = (a', Ok j)"
proof (cases "cap = 0 \<or> DEFAULT_PIPE_CAPACITY < cap \<or> MAX_PIPES \<le> om_size (pipes a)
    \<or> checked_add (next_pipe a) 1 = None")
  case True
  then have "a' = a" "\<exists>err. r = Err err"
    using run by (auto simp: open_pipe_def Let_def split: if_splits)
  then show thesis using refused [of _ "next_pipe a"] by auto
next
  case False
  then obtain n where n: "checked_add (next_pipe a) 1 = Some n" by auto
  then have lt: "next_pipe a < n" by (simp add: rust_arith word_less_nat_alt)
  define a1 where "a1 = a\<lparr>next_pipe := n, pipes := om_insert (next_pipe a)
          \<lparr>pipe_bytes = [], capacity = cap, readers = 1, writers = 1\<rparr> (pipes a)\<rparr>"
  obtain a2 r2 where al1: "allocate a1 (PipeReader (next_pipe a)) = (a2, r2)" by fastforce
  obtain a3 r3 where al2: "allocate a2 (PipeWriter (next_pipe a)) = (a3, r3)" by fastforce
  have gone: "om_remove (next_pipe a) (pipes a1) = pipes a"
    using arena_invD(5) [OF inv, of "next_pipe a"] by (simp add: a1_def) (metis less_irrefl not_None_eq om_remove_absent)
  have body: "open_pipe a cap = (case (a2, r2) of
      (a2, Ok reader) \<Rightarrow> (case (a3, r3) of (a3, Ok writer) \<Rightarrow> (a3, Ok (reader, writer))
          | (a3, Err e) \<Rightarrow> (a3\<lparr>descriptions := om_remove reader (descriptions a3),
                             pipes := om_remove (next_pipe a) (pipes a3)\<rparr>, Err e)
          | (a3, Panic) \<Rightarrow> (a3, Panic))
    | (a2, Err e) \<Rightarrow> (a2\<lparr>pipes := om_remove (next_pipe a) (pipes a2)\<rparr>, Err e)
    | (a2, Panic) \<Rightarrow> (a2, Panic))"
    using False n al1 al2 by (simp add: open_pipe_def Let_def a1_def split: outcome.splits)
  show thesis
  proof (cases rule: allocate_cases [OF al1])
    case 1
    then have "a' = a\<lparr>next_pipe := n\<rparr>" "\<exists>err. r = Err err"
      using run body gone by (auto simp: a1_def)
    then show thesis using refused [of _ n] lt by auto
  next
    case first: (2 n1 e1)
    show thesis
    proof (cases rule: allocate_cases [OF al2])
      case 1
      have "om_remove (next_description a) (om_insert (next_description a) e1 (descriptions a)) = descriptions a"
        using fresh_description(1) [OF inv] by simp
      then have "a' = a\<lparr>next_pipe := n, next_description := n1\<rparr>" "\<exists>err. r = Err err"
        using run body gone 1 first by (auto simp: a1_def)
      then show thesis using refused [of _ n] lt first(2) by (auto simp: a1_def)
    next
      case (2 n2 e2)
      then have "r = Ok (next_description a1, next_description a2)" "a' = a3"
        using run body first by auto
      then show thesis
        using opened [of _ _ n a1 a2] False lt al1 al2 first(1) 2(1) by (auto simp: a1_def not_le)
    qed
  qed
qed

lemma open_pipe_inv:
  assumes inv: "arena_inv a" and run: "open_pipe a cap = (a', r)"
  shows "arena_inv a'"
proof (cases rule: open_pipe_cases [OF inv run])
  case (1 err n)
  have "ep a' = ep a" "lk a' = lk a" "cnt a' = cnt a"
    by (subst 1(4); simp add: ep_def lk_def cnt_def fun_eq_iff)+
  moreover have "descriptions a' = descriptions a" "pipes a' = pipes a" "next_pipe a' = n"
    by (subst 1(4); simp)+
  moreover have "i < next_description a'" if "entry a i = Some e" for i e
    using arena_invD(3) [OF inv that] 1(3) by (rule less_le_trans)
  moreover have "p < n" if "pipe_of a p = Some st" for p st
    using arena_invD(5) [OF inv that] 1(2) by (rule less_le_trans)
  ultimately show ?thesis using arena_invD [OF inv] by (auto simp: arena_inv_def)
next
  case (2 n i j a1 a2)
  let ?p = "next_pipe a"
  obtain n1 e1 where al1: "i = next_description a1" "next_description a1 < n1"
      "om_size (descriptions a1) < MAX_OPEN_DESCRIPTIONS"
      "a2 = a1\<lparr>next_description := n1, descriptions := om_insert (next_description a1) e1 (descriptions a1)\<rparr>"
      "e1 = \<lparr>description = PipeReader ?p, references = 0, nonblocking = False, file_lock = None, de_inode = None\<rparr>"
    using 2(7) by (cases rule: allocate_cases) auto
  obtain n2 e2 where al2: "j = next_description a2" "next_description a2 < n2"
      "om_size (descriptions a2) < MAX_OPEN_DESCRIPTIONS"
      "a' = a2\<lparr>next_description := n2, descriptions := om_insert (next_description a2) e2 (descriptions a2)\<rparr>"
      "e2 = \<lparr>description = PipeWriter ?p, references = 0, nonblocking = False, file_lock = None, de_inode = None\<rparr>"
    using 2(8) by (cases rule: allocate_cases) auto
  have ids: "i = next_description a" "j = n1" "i < n1" "i \<noteq> j" "n1 < n2"
    using al1 al2 2(6) by auto
  have entry': "entry a' k = (if k = j then Some e2 else if k = i then Some e1 else entry a k)" for k
    using al1(1) al2(1) by (simp add: al2(4) al1(4) 2(6) om_lookup_insert)
  have old: "k < i" if "entry a k = Some e" for k e
    using arena_invD(3) [OF inv that] by (simp add: ids(1))
  have none: "entry a i = None" "entry a j = None" "pipe_of a ?p = None"
    using old [of i] old [of j] ids(3) arena_invD(5) [OF inv, of ?p]
    by (auto simp: ids(2) dest: less_trans intro: ccontr)
  have p': "pipes a' = om_insert ?p \<lparr>pipe_bytes = [], capacity = cap, readers = 1, writers = 1\<rparr> (pipes a)"
    by (simp add: al2(4) al1(4) 2(6))
  have "ep a' = (ep a)(i := Some (?p, True), j := Some (?p, False))" "lk a' = lk a"
      "cnt a' = (cnt a)(?p := Some (1, 1))"
    using none ids(4) by (auto simp: fun_eq_iff ep_def lk_def cnt_def entry' p' om_lookup_insert al1(5) al2(5))
  moreover have "ends_ok ((ep a)(i := Some (?p, True), j := Some (?p, False))) ((cnt a)(?p := Some (1, 1)))"
    using none by (intro new_pipe_ends arena_invD(7) [OF inv] ids(4)) (simp_all add: ep_def cnt_def)
  moreover have "k < n2 \<and> buffer_ok (description e)" if "entry a' k = Some e" for k e
    using that arena_invD(4) [OF inv, of k e] old [of k e] ids
    by (auto simp: entry' al1(5) al2(5) split: if_splits intro: less_trans)
  moreover have "om_size (descriptions a') \<le> MAX_OPEN_DESCRIPTIONS"
    using al2(3) by (simp add: al2(4) om_size_insert)
  moreover have "om_size (pipes a') \<le> MAX_PIPES" using 2(5) by (simp add: p' om_size_insert)
  moreover have "q < n \<and> pipe_ok st" if "pipe_of a' q = Some st" for q st
    using that arena_invD(5,6) [OF inv, of q st] 2(2-4)
    by (auto simp: p' om_lookup_insert pipe_ok_def split: if_splits intro: less_trans)
  moreover have "next_description a' = n2" "next_pipe a' = n" by (simp_all add: al2(4) al1(4) 2(6))
  ultimately show ?thesis using arena_invD(8) [OF inv] by (simp add: arena_inv_def)
qed

text \<open>Dropping the last reference: the description goes, and with it its endpoint.\<close>

definition drop_pipe :: "pipe_id \<Rightarrow> bool \<Rightarrow> (pipe_id, pipe) omap \<Rightarrow> (pipe_id, pipe) omap" where
  "drop_pipe p b ps = (case om_lookup ps p of
       None \<Rightarrow> ps
     | Some st \<Rightarrow>
         let st' = (if b then st\<lparr>readers := saturating_sub (readers st) 1\<rparr>
                    else st\<lparr>writers := saturating_sub (writers st) 1\<rparr>)
         in if readers st' = 0 \<and> writers st' = 0 then om_remove p ps else om_insert p st' ps)"

lemma drop_endpoint_pipes:
  "remove_dead_pipe (fst (drop_endpoint a d)) (snd (drop_endpoint a d)) =
    (case endpoint d of None \<Rightarrow> a | Some (p, b) \<Rightarrow> a\<lparr>pipes := drop_pipe p b (pipes a)\<rparr>)"
  by (cases d)
    (auto simp: drop_endpoint_def remove_dead_pipe_def drop_pipe_def om_update_def Let_def split: option.splits)

lemma release_cases:
  assumes "release_ref a i = (a', r)"
  obtains (refused) "r = Err InvalidFd" "a' = a" "entry a i = None \<or> (\<exists>e. entry a i = Some e \<and> references e = 0)"
  | (kept) e n where "r = Ok ()" "entry a i = Some e" "unat (references e) = Suc (unat n)" "n \<noteq> 0"
      "a' = set_entry a i (e\<lparr>references := n\<rparr>)"
  | (dropped) e where "r = Ok ()" "entry a i = Some e" "references e = 1"
      "descriptions a' = om_remove i (descriptions a)" "next_description a' = next_description a"
      "next_pipe a' = next_pipe a"
      "pipes a' = (case endpoint (description e) of None \<Rightarrow> pipes a | Some (p, b) \<Rightarrow> drop_pipe p b (pipes a))"
proof (cases "entry a i")
  case None
  with assms refused show thesis by (simp add: release_ref_def)
next
  case (Some e)
  show thesis
  proof (cases "checked_sub (references e) 1")
    case None
    then have "references e = 0" by (simp add: rust_arith word_unat_eq_iff)
    with assms Some None refused show thesis by (simp add: release_ref_def)
  next
    case n: (Some n)
    then have un: "unat (references e) = Suc (unat n)" by (auto simp: rust_arith)
    show thesis
    proof (cases "n = 0")
      case False
      with assms Some n un kept [of e n] show thesis by (simp add: release_ref_def)
    next
      case True
      then have one: "references e = 1" using un by (simp add: word_unat_eq_iff)
      define a2 where "a2 = (set_entry a i (e\<lparr>references := n\<rparr>))\<lparr>descriptions := om_remove i (descriptions a)\<rparr>"
      define a3 where "a3 = (if file_lock e \<noteq> None then lock_released a2 else a2)"
      have "release_ref a i
          = (remove_dead_pipe (fst (drop_endpoint a3 (description e))) (snd (drop_endpoint a3 (description e))), Ok ())"
        using Some n True
        by (simp add: release_ref_def a2_def a3_def set_entry_def Let_def case_prod_unfold)
      then have "a' = remove_dead_pipe (fst (drop_endpoint a3 (description e))) (snd (drop_endpoint a3 (description e)))"
          "r = Ok ()" using assms by simp_all
      moreover have "descriptions a3 = om_remove i (descriptions a)" "next_description a3 = next_description a"
          "next_pipe a3 = next_pipe a" "pipes a3 = pipes a"
        by (simp_all add: a3_def a2_def lock_released_def set_entry_def)
      ultimately show thesis
        using dropped [of e] Some one by (simp add: drop_endpoint_pipes split: option.splits)
    qed
  qed
qed

lemma close_end:
  assumes ok: "ends_ok E C" and i: "E i = Some (p, b)"
  shows "ends_ok (E(i := None)) (C(p := (if \<exists>k. E k = Some (p, \<not> b)
      then Some (if b then (0, 1) else (1, 0)) else None)))"
proof (rule ends_okI)
  fix k l x assume "(E(i := None)) k = Some x" "(E(i := None)) l = Some x"
  then show "k = l" using ends_ok_inj [OF ok, of k x l] by (auto split: if_splits)
next
  fix q
  have same: "(\<exists>k. (E(i := None)) k = Some (q, c)) \<longleftrightarrow> (\<exists>k. E k = Some (q, c)) \<and> (q, c) \<noteq> (p, b)" for c
  proof -
    have "(E(i := None)) k = Some (q, c) \<longleftrightarrow> E k = Some (q, c) \<and> (q, c) \<noteq> (p, b)" for k
    proof (cases "k = i")
      case False
      have "(q, c) \<noteq> (p, b)" if "E k = Some (q, c)"
      proof
        assume "(q, c) = (p, b)"
        then have "E k = Some (p, b)" using that by simp
        from ends_ok_inj [OF ok i this] False show False by simp
      qed
      then show ?thesis using False by auto
    qed (use i in auto)
    then show ?thesis by blast
  qed
  have any: "(\<exists>k c. (E(i := None)) k = Some (q, c))
      \<longleftrightarrow> (\<exists>k. E k = Some (q, True)) \<and> (q, True) \<noteq> (p, b) \<or> (\<exists>k. E k = Some (q, False)) \<and> (q, False) \<noteq> (p, b)"
    unfolding same [symmetric] by (metis (full_types))
  have any0: "(\<exists>k c. E k = Some (q, c)) \<longleftrightarrow> (\<exists>k. E k = Some (q, True)) \<or> (\<exists>k. E k = Some (q, False))"
    by (metis (full_types))
  show "(C(p := (if \<exists>k. E k = Some (p, \<not> b) then Some (if b then (0, 1) else (1, 0)) else None))) q
      = (if \<exists>k c. (E(i := None)) k = Some (q, c)
         then Some (if \<exists>k. (E(i := None)) k = Some (q, True) then 1 else 0,
                    if \<exists>k. (E(i := None)) k = Some (q, False) then 1 else 0) else None)"
    unfolding any same using ends_ok_count [OF ok, of q, unfolded any0] by (cases b; cases "q = p") simp_all
qed

lemma drop_pipe_cnt:
  assumes ok: "ends_ok (ep a) (cnt a)" and i: "ep a i = Some (p, b)"
  shows "map_option (\<lambda>st. (readers st, writers st)) (om_lookup (drop_pipe p b (pipes a)) q)
    = ((cnt a)(p := (if \<exists>k. ep a k = Some (p, \<not> b) then Some (if b then (0, 1) else (1, 0)) else None))) q"
proof -
  obtain st where st: "pipe_of a p = Some st"
      "readers st = (if \<exists>k. ep a k = Some (p, True) then 1 else 0)"
      "writers st = (if \<exists>k. ep a k = Some (p, False) then 1 else 0)"
    by (rule pipe_counts [OF ok i])
  have "\<exists>k. ep a k = Some (p, b)" using i by blast
  then show ?thesis
    using st by (cases b)
      (auto simp: drop_pipe_def cnt_def om_lookup_insert om_lookup_remove saturating_sub_def Let_def)
qed

lemma drop_pipe_sub:
  "om_lookup (drop_pipe p b ps) q = Some st \<Longrightarrow>
    \<exists>st0. om_lookup ps q = Some st0 \<and> pipe_bytes st = pipe_bytes st0 \<and> capacity st = capacity st0"
  by (auto simp: drop_pipe_def Let_def om_lookup_insert om_lookup_remove split: option.splits if_splits)

lemma drop_pipe_size: "om_size (drop_pipe p b ps) \<le> om_size ps"
  by (auto simp: drop_pipe_def Let_def om_size_insert om_size_remove split: option.splits)

lemma locks_ok_clear: "locks_ok L \<Longrightarrow> locks_ok (L(i := None))"
  by (auto simp: locks_ok_def split: if_splits)

lemma retain_cases:
  assumes "retain_ref a i = (a', r)"
  obtains (refused) err where "r = Err err" "a' = a"
  | (retained) e n where "r = Ok ()" "entry a i = Some e" "unat n = Suc (unat (references e))"
      "a' = set_entry a i (e\<lparr>references := n\<rparr>)"
proof (cases "entry a i")
  case None
  with assms show thesis by (intro refused [of InvalidFd]) (simp_all add: retain_ref_def)
next
  case (Some e)
  then show thesis
  proof (cases "checked_add (references e) 1")
    case None
    with assms Some show thesis by (intro refused [of ReferenceOverflow]) (simp_all add: retain_ref_def)
  next
    case n: (Some n)
    then have "unat n = Suc (unat (references e))" by (simp add: rust_arith)
    with assms Some n retained show thesis by (simp add: retain_ref_def)
  qed
qed

lemma retain_inv:
  assumes inv: "arena_inv a" and run: "retain_ref a i = (a', r)"
  shows "arena_inv a'"
  using run
proof (cases rule: retain_cases)
  case (retained e n)
  then show ?thesis using arena_invD(4) [OF inv] by (auto intro: set_entry_inv_lock [OF inv])
qed (simp add: inv)

lemma release_inv:
  assumes inv: "arena_inv a" and run: "release_ref a i = (a', r)"
  shows "arena_inv a'"
  using run
proof (cases rule: release_cases)
  case (kept e n)
  then show ?thesis using arena_invD(4) [OF inv] by (auto intro: set_entry_inv_lock [OF inv])
next
  case (dropped e)
  have views: "ep a' = (ep a)(i := None)" "lk a' = (lk a)(i := None)"
    by (auto simp: fun_eq_iff ep_def lk_def dropped(4) om_lookup_remove)
  have "ends_ok (ep a') (cnt a')"
  proof (cases "endpoint (description e)")
    case None
    then have "ep a i = None" "cnt a' = cnt a" using dropped(2,7) by (simp_all add: ep_def cnt_def fun_eq_iff)
    then have "ep a' = ep a" using views(1) by (simp add: fun_upd_idem)
    then show ?thesis using \<open>cnt a' = cnt a\<close> arena_invD(7) [OF inv] by simp
  next
    case (Some x)
    obtain p b where x: "x = (p, b)" by fastforce
    have i: "ep a i = Some (p, b)" using Some dropped(2) by (simp add: ep_def x)
    have "cnt a' = (cnt a)(p := (if \<exists>k. ep a k = Some (p, \<not> b) then Some (if b then (0, 1) else (1, 0)) else None))"
      using drop_pipe_cnt [OF arena_invD(7) [OF inv] i] Some dropped(7)
      by (intro ext) (simp add: cnt_def [of a'] x)
    then show ?thesis using close_end [OF arena_invD(7) [OF inv] i] by (simp add: views)
  qed
  moreover have "q < next_pipe a' \<and> pipe_ok st" if st: "pipe_of a' q = Some st" for q st
  proof -
    obtain st0 where "pipe_of a q = Some st0" "pipe_bytes st = pipe_bytes st0" "capacity st = capacity st0"
      using st drop_pipe_sub [of _ _ "pipes a" q st]
      by (cases "endpoint (description e)") (auto simp: dropped(7))
    then show ?thesis using arena_invD(5,6) [OF inv] by (auto simp: dropped(6) pipe_ok_def)
  qed
  moreover have "om_size (pipes a') \<le> MAX_PIPES"
    using arena_invD(2) [OF inv] drop_pipe_size by (auto simp: dropped(7) split: option.splits intro: order_trans)
  moreover have "om_size (descriptions a') \<le> MAX_OPEN_DESCRIPTIONS"
    using arena_invD(1) [OF inv] by (auto simp: dropped(4) om_size_remove)
  moreover have "k < next_description a' \<and> buffer_ok (description e')" if "entry a' k = Some e'" for k e'
    using that arena_invD(3,4) [OF inv] by (auto simp: dropped(4,5) om_lookup_remove split: if_splits)
  ultimately show ?thesis
    using locks_ok_clear [OF arena_invD(8) [OF inv]] by (simp add: arena_inv_def views)
qed (simp add: inv)

lemma discard_inv:
  assumes inv: "arena_inv a"
  shows "arena_inv (fst (discard_unreferenced a i))"
proof -
  obtain a1 r1 where t: "retain_ref a i = (a1, r1)" by fastforce
  obtain a2 r2 where l: "release_ref a1 i = (a2, r2)" by fastforce
  have "arena_inv a1" by (rule retain_inv [OF inv t])
  moreover from this have "arena_inv a2" by (rule release_inv [OF _ l])
  ultimately show ?thesis using inv t l
    by (cases "entry a i"; cases r1) (simp_all add: discard_unreferenced_def)
qed

lemma detach_file_entry:
  "entry (detach_file a path n) k = Some e \<Longrightarrow> \<exists>e0. entry a k = Some e0
    \<and> endpoint (description e) = endpoint (description e0) \<and> file_lock e = file_lock e0
    \<and> buffer_ok (description e) = buffer_ok (description e0)"
  "entry (detach_file a path n) k = None \<longleftrightarrow> entry a k = None"
proof -
  assume "entry (detach_file a path n) k = Some e"
  then obtain e0 where "entry a k = Some e0"
      "e = (case description e0 of
         OFile f \<Rightarrow> if fs_path f = path
           then e0\<lparr>description := OFile (f\<lparr>fs_orphan := Some n\<rparr>)\<rparr> else e0
       | _ \<Rightarrow> e0)"
    by (cases "entry a k") (simp_all add: detach_file_def)
  then show "\<exists>e0. entry a k = Some e0
    \<and> endpoint (description e) = endpoint (description e0) \<and> file_lock e = file_lock e0
    \<and> buffer_ok (description e) = buffer_ok (description e0)"
    by (cases "description e0") simp_all
next
  show "entry (detach_file a path n) k = None \<longleftrightarrow> entry a k = None" by (simp add: detach_file_def)
qed

lemma detach_file_views:
  "ep (detach_file a path n) = ep a" "lk (detach_file a path n) = lk a" "cnt (detach_file a path n) = cnt a"
proof -
  have "ep (detach_file a path n) k = ep a k \<and> lk (detach_file a path n) k = lk a k" for k
    using detach_file_entry(1) [of a path n k] detach_file_entry(2) [of a path n k]
    by (cases "entry (detach_file a path n) k") (auto simp: ep_def lk_def)
  then show "ep (detach_file a path n) = ep a" "lk (detach_file a path n) = lk a" by auto
  show "cnt (detach_file a path n) = cnt a" by (simp add: cnt_def fun_eq_iff detach_file_def)
qed

lemma detach_file_inv:
  assumes inv: "arena_inv a"
  shows "arena_inv (detach_file a path n)"
proof -
  have "k < next_description a \<and> buffer_ok (description e)" if "entry (detach_file a path n) k = Some e" for k e
    using detach_file_entry(1) [OF that] arena_invD(3,4) [OF inv] by auto
  moreover have "om_size (descriptions (detach_file a path n)) = om_size (descriptions a)"
      "pipes (detach_file a path n) = pipes a" "next_pipe (detach_file a path n) = next_pipe a"
      "next_description (detach_file a path n) = next_description a"
    by (simp_all add: detach_file_def)
  ultimately show ?thesis
    using arena_invD [OF inv] by (simp add: arena_inv_def detach_file_views)
qed

lemma conflicts_lk:
  "list_ex (conflicts n m) (om_values (descriptions a))
    \<longleftrightarrow> (\<exists>j m'. lk a j = Some (n, m') \<and> (m = Exclusive \<or> m' = Exclusive))"
proof -
  have "conflicts n m e \<longleftrightarrow> (\<exists>m'. file_lock e = Some (n, m') \<and> (m = Exclusive \<or> m' = Exclusive))" for e
    by (auto simp: conflicts_def split: option.splits)
  then have "list_ex (conflicts n m) (om_values (descriptions a))
      \<longleftrightarrow> (\<exists>j e m'. entry a j = Some e \<and> file_lock e = Some (n, m') \<and> (m = Exclusive \<or> m' = Exclusive))"
    by (auto simp: list_ex_iff om_set_values)
  then show ?thesis by (auto simp: lk_def bind_eq_Some_conv)
qed

lemma lock_file_unfold:
  assumes e: "entry a i = Some e" and new: "file_lock e \<noteq> map_option (Pair n) mode"
  obtains a2 where "entry a2 i = Some (e\<lparr>file_lock := None\<rparr>)" "lk a2 = (lk a)(i := None)"
    "arena_inv a \<Longrightarrow> arena_inv a2" "descriptions a2 = descriptions (set_entry a i (e\<lparr>file_lock := None\<rparr>))"
    "lock_file a i n mode = (case mode of None \<Rightarrow> (a2, Ok True)
        | Some m \<Rightarrow> if list_ex (conflicts n m) (om_values (descriptions a2)) then (a2, Ok False)
            else (set_entry a2 i (e\<lparr>file_lock := Some (n, m)\<rparr>), Ok True))"
proof -
  define a1 where "a1 = set_entry a i (e\<lparr>file_lock := None\<rparr>)"
  define a2 where "a2 = (if file_lock e \<noteq> None then lock_released a1 else a1)"
  have same: "descriptions a2 = descriptions a1" by (simp add: a2_def lock_released_def)
  have e2: "entry a2 i = Some (e\<lparr>file_lock := None\<rparr>)" by (simp add: same a1_def set_entry_def)
  have "lk a2 = lk a1" by (simp add: lk_def fun_eq_iff same)
  then have l2: "lk a2 = (lk a)(i := None)" by (simp add: a1_def set_entry_views)
  have inv2: "arena_inv a2" if inv: "arena_inv a"
  proof -
    have "arena_inv a1"
      unfolding a1_def using arena_invD(4) [OF inv e] locks_ok_clear [OF arena_invD(8) [OF inv]]
      by (intro set_entry_inv [OF inv e]) simp_all
    then show ?thesis by (simp add: a2_def lock_released_def arena_flags_inv)
  qed
  have "lock_file a i n mode = (case mode of None \<Rightarrow> (a2, Ok True)
        | Some m \<Rightarrow> if list_ex (conflicts n m) (om_values (descriptions a2)) then (a2, Ok False)
            else (set_entry a2 i (e\<lparr>file_lock := Some (n, m)\<rparr>), Ok True))"
    unfolding lock_file_def e ok_or_simps try_in_simps if_not_P [OF new] Let_def
      a1_def [symmetric] a2_def [symmetric] e2 by (simp split: option.splits)
  with e2 l2 inv2 same [unfolded a1_def] show thesis by (rule that)
qed

lemma lock_file_inv:
  assumes inv: "arena_inv a"
  shows "arena_inv (fst (lock_file a i n mode)) \<and> snd (lock_file a i n mode) \<noteq> Panic"
proof (cases "entry a i")
  case (Some e)
  show ?thesis
  proof (cases "file_lock e = map_option (Pair n) mode")
    case False
    obtain a2 where a2: "entry a2 i = Some (e\<lparr>file_lock := None\<rparr>)" "lk a2 = (lk a)(i := None)" "arena_inv a2"
        "lock_file a i n mode = (case mode of None \<Rightarrow> (a2, Ok True)
          | Some m \<Rightarrow> if list_ex (conflicts n m) (om_values (descriptions a2)) then (a2, Ok False)
              else (set_entry a2 i (e\<lparr>file_lock := Some (n, m)\<rparr>), Ok True))"
      by (rule lock_file_unfold [OF Some False]) (use inv in blast)
    have "arena_inv (set_entry a2 i (e\<lparr>file_lock := Some (n, m)\<rparr>))"
      if free: "\<not> list_ex (conflicts n m) (om_values (descriptions a2))" for m
    proof (rule set_entry_inv [OF a2(3,1)])
      have "m' = Shared \<and> m = Shared" if "lk a2 j = Some (n, m')" for j m'
        using free that unfolding conflicts_lk by (cases m; cases m') auto
      then show "locks_ok ((lk a2)(i := file_lock (e\<lparr>file_lock := Some (n, m)\<rparr>)))"
        using arena_invD(8) [OF a2(3)] unfolding locks_ok_def by simp blast
    qed (use arena_invD(4) [OF inv Some] in simp_all)
    then show ?thesis using a2(3) unfolding a2(4) by (simp split: option.splits)
  qed (use inv Some in \<open>simp add: lock_file_def\<close>)
qed (simp add: lock_file_def inv)

lemma read_inv:
  assumes inv: "arena_inv a"
  shows "arena_inv (fst (read_description a i n)) \<and> snd (read_description a i n) \<noteq> Panic"
proof (cases "entry a i")
  case (Some e)
  note buf = arena_invD(4) [OF inv Some]
  show ?thesis
  proof (cases "description e")
    case (OInput bs cursor closed)
    then have "arena_inv (set_description a i e (OInput bs (min (cursor + n) (length bs)) closed))"
      unfolding set_description_def using buf by (intro set_entry_inv_lock [OF inv Some]) simp_all
    then show ?thesis
      using buf inv OInput by (auto simp: read_description_def Some slice_def Let_def)
  next
    case (ODevice stream r w)
    then have "arena_inv (set_description a i e (ODevice s r w))" for s
      unfolding set_description_def by (intro set_entry_inv_lock [OF inv Some]) simp_all
    then show ?thesis
      using inv ODevice by (cases r) (auto simp: read_description_def Some split: prod.splits)
  next
    case (PipeReader p)
    then obtain st where st: "pipe_of a p = Some st"
      using entry_pipe [OF inv Some, of p True] by auto
    have "arena_inv (set_pipe a p (st\<lparr>pipe_bytes := drop k (pipe_bytes st)\<rparr>))" for k
      using arena_invD(6) [OF inv st] by (intro set_pipe_inv [OF inv st]) (auto simp: pipe_ok_def)
    then show ?thesis using inv PipeReader st by (simp add: read_description_def Some Let_def)
  qed (simp_all add: read_description_def Some inv)
qed (simp add: read_description_def inv)

lemma write_inv:
  assumes inv: "arena_inv a"
  shows "arena_inv (fst (write_description a i bs)) \<and> snd (write_description a i bs) \<noteq> Panic"
proof (cases "entry a i")
  case (Some e)
  note buf = arena_invD(4) [OF inv Some]
  show ?thesis
  proof (cases "description e")
    case (OCapture out delivered)
    then have "arena_inv (set_description a i e (OCapture (out @ bs) delivered))"
      if "length out + length bs \<le> MAX_CAPTURE_BYTES"
      unfolding set_description_def using buf that by (intro set_entry_inv_lock [OF inv Some]) simp_all
    then show ?thesis using inv OCapture by (simp add: write_description_def Some)
  next
    case (PipeWriter p)
    then obtain st where st: "pipe_of a p = Some st"
      using entry_pipe [OF inv Some, of p False] by auto
    have "arena_inv (set_pipe a p (st\<lparr>pipe_bytes := pipe_bytes st
        @ take (min (capacity st - length (pipe_bytes st)) (length bs)) bs\<rparr>))"
      using arena_invD(6) [OF inv st] by (intro set_pipe_inv [OF inv st]) (auto simp: pipe_ok_def)
    then show ?thesis using inv PipeWriter st by (simp add: write_description_def Some Let_def)
  qed (simp_all add: write_description_def Some inv)
qed (simp add: write_description_def inv)

text \<open>The remaining operations rewrite one entry without touching its endpoint or its lock.\<close>

abbreviation sound :: "'a arena_result \<Rightarrow> bool" where
  "sound r \<equiv> arena_inv (fst r) \<and> snd r \<noteq> Panic"

lemma sound_entry:
  assumes "arena_inv a" "\<And>e. entry a i = Some e \<Longrightarrow> sound (k e)"
  shows "sound (try_in a (ok_or (entry a i) err) k)"
  using assms by (cases "entry a i") simp_all

lemma set_description_inv:
  assumes "arena_inv a" "entry a i = Some e" "endpoint d = endpoint (description e)" "buffer_ok d"
  shows "arena_inv (set_description a i e d)"
  unfolding set_description_def using assms by (intro set_entry_inv_lock) simp_all

lemma entry_ops_inv:
  assumes inv: "arena_inv a"
  shows "sound (append_input a i bs)" "sound (close_input a i)" "sound (drain_capture a i)"
    "sound (set_append a i b)" "sound (advance_file a i n)" "sound (seek_file a i c)"
    "sound (set_nonblocking a i b)" "sound (bind_inode a i c)"
proof -
  note upd = set_description_inv [OF inv] and buf = arena_invD(4) [OF inv]
  show "sound (append_input a i bs)"
    unfolding append_input_def
  proof (rule sound_entry [OF inv], goal_cases)
    case (1 e)
    then show ?case using buf [OF 1] by (cases "description e") (simp_all add: inv upd)
  qed
  show "sound (close_input a i)"
    unfolding close_input_def
  proof (rule sound_entry [OF inv], goal_cases)
    case (1 e)
    then show ?case using buf [OF 1] by (cases "description e") (simp_all add: inv upd)
  qed
  show "sound (drain_capture a i)"
    unfolding drain_capture_def
  proof (rule sound_entry [OF inv], goal_cases)
    case (1 e)
    then show ?case using buf [OF 1] by (cases "description e") (simp_all add: inv upd slice_def)
  qed
  show "sound (set_append a i b)"
    unfolding set_append_def
  proof (rule sound_entry [OF inv], goal_cases)
    case (1 e)
    then show ?case by (cases "description e") (simp_all add: inv upd)
  qed
  show "sound (advance_file a i n)"
    unfolding advance_file_def
  proof (rule sound_entry [OF inv], goal_cases)
    case (1 e)
    then show ?case by (cases "description e") (simp_all add: inv upd ok_or_def split: option.splits)
  qed
  show "sound (seek_file a i c)"
    unfolding seek_file_def
  proof (rule sound_entry [OF inv], goal_cases)
    case (1 e)
    then show ?case by (cases "description e") (simp_all add: inv upd)
  qed
  show "sound (set_nonblocking a i b)" "sound (bind_inode a i c)"
    unfolding set_nonblocking_def bind_inode_def
    by (rule sound_entry [OF inv]; simp add: set_entry_inv_lock [OF inv] buf)+
qed

section \<open>Sequences of arena calls\<close>

datatype arena_op =
    AOpen open_description
  | AOpenInput bytes
  | AOpenPipe nat
  | AAppendInput description_id bytes
  | ACloseInput description_id
  | ADetachFile string u64
  | ADiscard description_id
  | ARetain description_id
  | ARelease description_id
  | ALock description_id u64 "file_lock_mode option"
  | ATakeLockChanges
  | ABindInode description_id u64
  | ARead description_id nat
  | AWrite description_id bytes
  | ADrainCapture description_id
  | ASetNonblocking description_id bool
  | ASetAppend description_id bool
  | AAdvanceFile description_id nat
  | ASeekFile description_id u64

text \<open>The descriptions that the \<open>open_*\<close> functions allocate directly.\<close>

fun openable :: "open_description \<Rightarrow> bool" where
  "openable (OInput bs cursor closed) \<longleftrightarrow> bs = [] \<and> cursor = 0 \<and> \<not> closed"
| "openable (OCapture bs delivered) \<longleftrightarrow> bs = [] \<and> delivered = 0"
| "openable (ODevice stream _ _) \<longleftrightarrow> stream = new_device_stream (dev_kind stream)"
| "openable (OFile f) \<longleftrightarrow> fs_orphan f = None"
| "openable (PipeReader _) \<longleftrightarrow> False"
| "openable (PipeWriter _) \<longleftrightarrow> False"
| "openable _ \<longleftrightarrow> True"

datatype arena_reply =
    RUnit
  | RId description_id
  | RPipe description_id description_id
  | RBool bool
  | RRead "bytes io_poll"
  | RWrite "nat io_poll"
  | RBytes bytes

fun arena_run :: "descriptor_arena \<Rightarrow> arena_op \<Rightarrow> arena_reply arena_result" where
  "arena_run a (AOpen d) = (if openable d then map_ok RId (allocate a d) else (a, Err WrongAccess))"
| "arena_run a (AOpenInput bs) = map_ok RId (open_input a bs)"
| "arena_run a (AOpenPipe n) = map_ok (\<lambda>(r, w). RPipe r w) (open_pipe a n)"
| "arena_run a (AAppendInput i bs) = map_ok (\<lambda>_. RUnit) (append_input a i bs)"
| "arena_run a (ACloseInput i) = map_ok (\<lambda>_. RUnit) (close_input a i)"
| "arena_run a (ADetachFile path n) = (detach_file a path n, Ok RUnit)"
| "arena_run a (ADiscard i) = map_ok (\<lambda>_. RUnit) (discard_unreferenced a i)"
| "arena_run a (ARetain i) = map_ok (\<lambda>_. RUnit) (retain_ref a i)"
| "arena_run a (ARelease i) = map_ok (\<lambda>_. RUnit) (release_ref a i)"
| "arena_run a (ALock i n m) = map_ok RBool (lock_file a i n m)"
| "arena_run a ATakeLockChanges = (fst (take_file_lock_changes a), Ok (RBool (file_locks_changed a)))"
| "arena_run a (ABindInode i n) = map_ok (\<lambda>_. RUnit) (bind_inode a i n)"
| "arena_run a (ARead i n) = map_ok RRead (read_description a i n)"
| "arena_run a (AWrite i bs) = map_ok RWrite (write_description a i bs)"
| "arena_run a (ADrainCapture i) = map_ok RBytes (drain_capture a i)"
| "arena_run a (ASetNonblocking i b) = map_ok (\<lambda>_. RUnit) (set_nonblocking a i b)"
| "arena_run a (ASetAppend i b) = map_ok (\<lambda>_. RUnit) (set_append a i b)"
| "arena_run a (AAdvanceFile i n) = map_ok (\<lambda>_. RUnit) (advance_file a i n)"
| "arena_run a (ASeekFile i n) = map_ok (\<lambda>_. RUnit) (seek_file a i n)"

lemma sound_map_ok [simp]: "sound (map_ok f x) \<longleftrightarrow> sound x"
  by (cases "(f, x)" rule: map_ok.cases) auto

lemma allocate_sound:
  assumes inv: "arena_inv a" and d: "endpoint d = None" "buffer_ok d"
  shows "sound (allocate a d)"
proof -
  obtain a' r where run: "allocate a d = (a', r)" by fastforce
  then have "r \<noteq> Panic" by (cases rule: allocate_cases) auto
  then show ?thesis using allocate_inv [OF inv d run] run by simp
qed

lemma references_sound:
  assumes inv: "arena_inv a"
  shows "sound (retain_ref a i)" "sound (release_ref a i)" "sound (open_pipe a n)"
    "sound (discard_unreferenced a i)"
proof -
  obtain a1 r1 where 1: "retain_ref a i = (a1, r1)" by fastforce
  then have "r1 \<noteq> Panic" by (cases rule: retain_cases) auto
  then show t: "sound (retain_ref a i)" using retain_inv [OF inv 1] 1 by simp
  have rel: "snd (release_ref a' i) \<noteq> Panic" for a'
    by (cases "release_ref a' i" rule: prod.exhaust, simp, erule release_cases) auto
  obtain a2 r2 where 2: "release_ref a i = (a2, r2)" by fastforce
  then show "sound (release_ref a i)" using release_inv [OF inv 2] rel [of a] by simp
  obtain a3 r3 where 3: "open_pipe a n = (a3, r3)" by fastforce
  have "r3 \<noteq> Panic" by (rule open_pipe_cases [OF inv 3]) auto
  then show "sound (open_pipe a n)" using open_pipe_inv [OF inv 3] 3 by simp
  have "snd (discard_unreferenced a i) \<noteq> Panic"
    using t rel by (cases "entry a i"; cases r1) (auto simp: discard_unreferenced_def 1)
  then show "sound (discard_unreferenced a i)" using discard_inv [OF inv] by simp
qed

lemma arena_run_sound: "arena_inv a \<Longrightarrow> sound (arena_run a op)"
proof (cases op)
  case (AOpen d)
  assume inv: "arena_inv a"
  have "openable d \<Longrightarrow> endpoint d = None \<and> buffer_ok d" by (cases d) auto
  then show ?thesis using AOpen inv allocate_sound [OF inv] by simp
next
  case (AOpenInput bs)
  assume "arena_inv a"
  then show ?thesis using AOpenInput by (simp add: open_input_def allocate_sound)
qed (simp_all add: references_sound entry_ops_inv read_inv write_inv lock_file_inv detach_file_inv
    take_file_lock_changes_def arena_changed_inv)

interpretation arena: op_system arena_run arena_inv
  by unfold_locales (simp add: arena_run_sound)

lemma arena_results_sound: "arena_inv a \<Longrightarrow> Panic \<notin> set (run_results arena_run a ops)"
  using arena.run_results_inv [of "\<lambda>r. r \<noteq> Panic" a Panic ops] arena_run_sound by blast

section \<open>What travels through a pipe\<close>

definition pipe_sent :: "pipe_id \<Rightarrow> descriptor_arena \<Rightarrow> arena_op \<Rightarrow> bytes" where
  "pipe_sent p a op = (case op of
       AWrite i bs \<Rightarrow> (case (ep a i, snd (write_description a i bs)) of
           (Some (q, False), Ok (Ready n)) \<Rightarrow> if q = p then take n bs else []
         | _ \<Rightarrow> [])
     | _ \<Rightarrow> [])"

definition pipe_received :: "pipe_id \<Rightarrow> descriptor_arena \<Rightarrow> arena_op \<Rightarrow> bytes" where
  "pipe_received p a op = (case op of
       ARead i n \<Rightarrow> (case (ep a i, snd (read_description a i n)) of
           (Some (q, True), Ok (Ready bs)) \<Rightarrow> if q = p then bs else []
         | _ \<Rightarrow> [])
     | _ \<Rightarrow> [])"

fun sent_through :: "pipe_id \<Rightarrow> descriptor_arena \<Rightarrow> arena_op list \<Rightarrow> bytes" where
  "sent_through p a [] = []"
| "sent_through p a (op # ops) = pipe_sent p a op @ sent_through p (fst (arena_run a op)) ops"

fun received_through :: "pipe_id \<Rightarrow> descriptor_arena \<Rightarrow> arena_op list \<Rightarrow> bytes" where
  "received_through p a [] = []"
| "received_through p a (op # ops) = pipe_received p a op @ received_through p (fst (arena_run a op)) ops"

text \<open>One call on a pipe that survives it: the bytes sent join the buffer at its end, the bytes
  received leave it at its front. A pipe id that is gone does not come back.\<close>

definition pipe_flow :: "pipe_id \<Rightarrow> descriptor_arena \<Rightarrow> arena_op \<Rightarrow> descriptor_arena \<Rightarrow> bool" where
  "pipe_flow p a op a' \<longleftrightarrow> next_pipe a \<le> next_pipe a'
     \<and> (case (pipe_of a p, pipe_of a' p) of
          (None, Some _) \<Rightarrow> False
        | (Some st, Some st') \<Rightarrow> capacity st' = capacity st
            \<and> pipe_bytes st @ pipe_sent p a op = pipe_received p a op @ pipe_bytes st'
        | _ \<Rightarrow> True)"

lemma pipe_flow_same:
  "pipe_sent p a op = [] \<Longrightarrow> pipe_received p a op = [] \<Longrightarrow> next_pipe a' = next_pipe a \<Longrightarrow> pipes a' = pipes a
    \<Longrightarrow> pipe_flow p a op a'"
  by (simp add: pipe_flow_def split: option.splits)

lemma allocate_pipes: "pipes (fst (allocate a d)) = pipes a \<and> next_pipe (fst (allocate a d)) = next_pipe a"
  by (cases "checked_add (next_description a) 1") (simp_all add: allocate_def Let_def)

lemma try_entry_keeps:
  "(\<And>e. entry a i = Some e \<Longrightarrow> f (fst (k e)) = f a) \<Longrightarrow> f (fst (try_in a (ok_or (entry a i) err) k)) = f a"
  by (cases "entry a i") simp_all

lemma set_entry_pipes [simp]:
  "pipes (set_entry a i e) = pipes a" "next_pipe (set_entry a i e) = next_pipe a"
  "pipes (set_description a i e d) = pipes a" "next_pipe (set_description a i e d) = next_pipe a"
  by (simp_all add: set_entry_def set_description_def)

lemma entry_ops_pipes:
  "pipes (fst (append_input a i bs)) = pipes a \<and> next_pipe (fst (append_input a i bs)) = next_pipe a"
  "pipes (fst (close_input a i)) = pipes a \<and> next_pipe (fst (close_input a i)) = next_pipe a"
  "pipes (fst (drain_capture a i)) = pipes a \<and> next_pipe (fst (drain_capture a i)) = next_pipe a"
  "pipes (fst (set_append a i b)) = pipes a \<and> next_pipe (fst (set_append a i b)) = next_pipe a"
  "pipes (fst (advance_file a i n)) = pipes a \<and> next_pipe (fst (advance_file a i n)) = next_pipe a"
  "pipes (fst (seek_file a i c)) = pipes a \<and> next_pipe (fst (seek_file a i c)) = next_pipe a"
  "pipes (fst (set_nonblocking a i b)) = pipes a \<and> next_pipe (fst (set_nonblocking a i b)) = next_pipe a"
  "pipes (fst (bind_inode a i c)) = pipes a \<and> next_pipe (fst (bind_inode a i c)) = next_pipe a"
  unfolding append_input_def close_input_def drain_capture_def set_append_def advance_file_def
    seek_file_def set_nonblocking_def bind_inode_def
  by (intro conjI try_entry_keeps; auto simp: slice_def ok_or_def split: open_description.splits option.splits)+

lemma lock_file_pipes:
  "pipes (fst (lock_file a i n m)) = pipes a \<and> next_pipe (fst (lock_file a i n m)) = next_pipe a"
  unfolding lock_file_def
  by (intro conjI try_entry_keeps; auto simp: Let_def lock_released_def split: option.splits)

lemma retain_pipes: "retain_ref a i = (a', r) \<Longrightarrow> pipes a' = pipes a \<and> next_pipe a' = next_pipe a"
  by (erule retain_cases) simp_all

lemma drop_pipe_other: "q \<noteq> p \<Longrightarrow> om_lookup (drop_pipe p b ps) q = om_lookup ps q"
  by (simp add: drop_pipe_def Let_def split: option.splits)

lemma release_pipe_flow:
  assumes "release_ref a i = (a', r)"
  shows "next_pipe a' = next_pipe a"
    "pipe_of a' p = Some st' \<Longrightarrow> \<exists>st. pipe_of a p = Some st \<and> pipe_bytes st' = pipe_bytes st \<and> capacity st' = capacity st"
  using assms
  by (cases rule: release_cases; auto split: option.splits dest: drop_pipe_sub)+

lemma release_flow:
  assumes "release_ref a1 i = (a', r)" "pipes a1 = pipes a" "next_pipe a1 = next_pipe a"
    "pipe_sent p a op = []" "pipe_received p a op = []"
  shows "pipe_flow p a op a'"
  using release_pipe_flow(1) [OF assms(1)] release_pipe_flow(2) [OF assms(1), of p] assms(2-)
  by (auto simp: pipe_flow_def split: option.splits)

lemma open_pipe_flow:
  assumes inv: "arena_inv a" and p: "p < next_pipe a" and run: "open_pipe a cap = (a', r)"
  shows "next_pipe a \<le> next_pipe a'" "pipe_of a' p = pipe_of a p"
proof -
  have "next_pipe a \<le> next_pipe a' \<and> pipe_of a' p = pipe_of a p"
  proof (cases rule: open_pipe_cases [OF inv run])
    case (1 err n)
    then show ?thesis by (metis (no_types, lifting) descriptor_arena.select_convs(2) descriptor_arena.surjective
          descriptor_arena.update_convs(1,2) descriptor_arena.select_convs(4))
  next
    case (2 n i j a1 a2)
    then have "pipes a' = pipes a1" "next_pipe a' = next_pipe a1"
      using allocate_pipes [of a1 "PipeReader (next_pipe a)"] allocate_pipes [of a2 "PipeWriter (next_pipe a)"]
      by simp_all
    then show ?thesis using 2(2,6) p by (auto simp: om_lookup_insert)
  qed
  then show "next_pipe a \<le> next_pipe a'" "pipe_of a' p = pipe_of a p" by auto
qed

lemma read_flow:
  assumes inv: "arena_inv a"
  shows "pipe_flow p a (ARead i n) (fst (read_description a i n))"
proof (cases "entry a i")
  case None
  then show ?thesis by (intro pipe_flow_same) (simp_all add: pipe_sent_def pipe_received_def ep_def read_description_def)
next
  case (Some e)
  show ?thesis
  proof (cases "\<exists>q. description e = PipeReader q")
    case True
    then obtain q where q: "description e = PipeReader q" by blast
    then obtain st where st: "pipe_of a q = Some st" using entry_pipe [OF inv Some, of q True] by auto
    show ?thesis
      using Some q st
      by (cases "q = p")
        (auto simp: pipe_flow_def pipe_sent_def pipe_received_def ep_def read_description_def Let_def
          set_pipe_def om_lookup_insert split: option.splits)
  next
    case False
    then have "pipes (fst (read_description a i n)) = pipes a"
        "next_pipe (fst (read_description a i n)) = next_pipe a"
      using Some by (cases "description e"; auto simp: read_description_def Let_def slice_def split: prod.splits)+
    then show ?thesis
      using Some False
      by (intro pipe_flow_same) (cases "description e"; simp add: pipe_sent_def pipe_received_def ep_def)+
  qed
qed

lemma write_flow:
  assumes inv: "arena_inv a"
  shows "pipe_flow p a (AWrite i bs) (fst (write_description a i bs))"
proof (cases "entry a i")
  case None
  then show ?thesis by (intro pipe_flow_same) (simp_all add: pipe_sent_def pipe_received_def ep_def write_description_def)
next
  case (Some e)
  show ?thesis
  proof (cases "\<exists>q. description e = PipeWriter q")
    case True
    then obtain q where q: "description e = PipeWriter q" by blast
    then obtain st where st: "pipe_of a q = Some st" using entry_pipe [OF inv Some, of q False] by auto
    show ?thesis
      using Some q st
      by (cases "q = p")
        (auto simp: pipe_flow_def pipe_sent_def pipe_received_def ep_def write_description_def Let_def
          set_pipe_def om_lookup_insert split: option.splits)
  next
    case False
    then have "pipes (fst (write_description a i bs)) = pipes a"
        "next_pipe (fst (write_description a i bs)) = next_pipe a"
      using Some by (cases "description e"; auto simp: write_description_def)+
    then show ?thesis
      using Some False
      by (intro pipe_flow_same) (cases "description e"; simp add: pipe_sent_def pipe_received_def ep_def)+
  qed
qed

lemma arena_run_flow:
  assumes inv: "arena_inv a" and p: "p < next_pipe a"
  shows "pipe_flow p a op (fst (arena_run a op))"
proof (cases op)
  case (AOpenPipe n)
  obtain a' r where run: "open_pipe a n = (a', r)" by fastforce
  then show ?thesis
    using open_pipe_flow [OF inv p run] AOpenPipe
    by (simp add: pipe_flow_def pipe_sent_def pipe_received_def split: option.splits)
next
  case (ADiscard i)
  obtain a1 r1 where t: "retain_ref a i = (a1, r1)" by fastforce
  obtain a2 r2 where l: "release_ref a1 i = (a2, r2)" by fastforce
  have "fst (discard_unreferenced a i) \<in> {a, a1, a2}"
    using t l by (cases "entry a i"; cases r1) (auto simp: discard_unreferenced_def)
  then show ?thesis
    using ADiscard release_flow [OF l, of a p op] retain_pipes [OF t]
    by (auto simp: pipe_sent_def pipe_received_def intro: pipe_flow_same)
next
  case (ARetain i)
  obtain a1 r1 where "retain_ref a i = (a1, r1)" by fastforce
  then show ?thesis
    using ARetain retain_pipes by (auto simp: pipe_sent_def pipe_received_def intro!: pipe_flow_same)
next
  case (ARelease i)
  obtain a1 r1 where "release_ref a i = (a1, r1)" by fastforce
  then show ?thesis
    using ARelease by (auto simp: pipe_sent_def pipe_received_def intro!: release_flow)
qed (auto simp: read_flow [OF inv] write_flow [OF inv] pipe_sent_def pipe_received_def allocate_pipes
    open_input_def entry_ops_pipes lock_file_pipes detach_file_def take_file_lock_changes_def
    intro!: pipe_flow_same)

lemma pipe_gone: "arena_inv a \<Longrightarrow> p < next_pipe a \<Longrightarrow> pipe_of a p = None
    \<Longrightarrow> pipe_of (run_ops arena_run a ops) p = None"
proof (induction ops arbitrary: a)
  case (Cons op ops)
  from arena_run_flow [OF Cons.prems(1,2), of op] Cons.prems(2,3)
  have "p < next_pipe (fst (arena_run a op))" "pipe_of (fst (arena_run a op)) p = None"
    by (auto simp: pipe_flow_def split: option.splits)
  then show ?case using Cons.IH arena_run_sound [OF Cons.prems(1)] by simp
qed simp

lemma pipe_stream:
  assumes "arena_inv a" "pipe_of a p = Some st" "pipe_of (run_ops arena_run a ops) p = Some st'"
  shows "capacity st' = capacity st
    \<and> pipe_bytes st @ sent_through p a ops = received_through p a ops @ pipe_bytes st'"
  using assms
proof (induction ops arbitrary: a st)
  case (Cons op ops)
  let ?a = "fst (arena_run a op)"
  have inv: "arena_inv ?a" using arena_run_sound [OF Cons.prems(1)] by blast
  have p: "p < next_pipe a" by (rule arena_invD(5) [OF Cons.prems(1,2)])
  note flow = arena_run_flow [OF Cons.prems(1) p, of op]
  then have p': "p < next_pipe ?a" using less_le_trans [OF p] by (simp add: pipe_flow_def)
  then obtain st1 where st1: "pipe_of ?a p = Some st1"
    using pipe_gone [OF inv p', of ops] Cons.prems(3) by fastforce
  from Cons.IH [OF inv st1] Cons.prems(3)
  have "capacity st' = capacity st1"
      "pipe_bytes st1 @ sent_through p ?a ops = received_through p ?a ops @ pipe_bytes st'" by simp_all
  moreover have "capacity st1 = capacity st"
      "pipe_bytes st @ pipe_sent p a op = pipe_received p a op @ pipe_bytes st1"
    using flow Cons.prems(2) st1 by (simp_all add: pipe_flow_def)
  ultimately show ?case by (metis append.assoc received_through.simps(2) sent_through.simps(2))
qed simp

section \<open>Properties\<close>

text \<open>C19. After any sequence of arena calls the descriptor tables are consistent: every pipe counts
  exactly its open endpoints and exists exactly as long as one is open, every buffer, table and
  cursor is within its bound, ids in use are below the allocators, and locks on one inode are either
  one exclusive lock or shared ones. No call panics.\<close>

theorem arena_invariant:
  "arena_inv (run_ops arena_run new_arena ops) \<and> Panic \<notin> set (run_results arena_run new_arena ops)"
  using arena.run_ops_inv [OF new_arena_inv] arena_results_sound [OF new_arena_inv] by blast

text \<open>C20. A pipe is a bounded first-in first-out channel: whatever calls are made, as long as the pipe
  lives, what was in it followed by what writers sent is what readers received followed by what is
  in it, and it never holds more than its capacity. No byte is lost, repeated or reordered.\<close>

theorem pipe_fifo:
  assumes "arena_inv a" "pipe_of a p = Some st" "pipe_of (run_ops arena_run a ops) p = Some st'"
  shows "pipe_bytes st @ sent_through p a ops = received_through p a ops @ pipe_bytes st'
    \<and> capacity st' = capacity st \<and> length (pipe_bytes st') \<le> capacity st'"
  using pipe_stream [OF assms] arena_invD(6) [OF arena.run_ops_inv [OF assms(1)] assms(3)]
  by (auto simp: pipe_ok_def)

definition piped :: descriptor_arena where
  "piped = fst (open_pipe new_arena 3)"

lemma piped_state:
  "arena_inv piped" "pipe_of piped 1 = Some \<lparr>pipe_bytes = [], capacity = 3, readers = 1, writers = 1\<rparr>"
  "entry piped 1 = Some \<lparr>description = PipeReader 1, references = 0, nonblocking = False, file_lock = None, de_inode = None\<rparr>"
  "entry piped 2 = Some \<lparr>description = PipeWriter 1, references = 0, nonblocking = False, file_lock = None, de_inode = None\<rparr>"
proof -
  show "arena_inv piped" unfolding piped_def using references_sound(3) [OF new_arena_inv] by blast
qed (simp_all add: piped_def open_pipe_def new_arena_def allocate_def Let_def checked_add_def
    MAX_PIPES_def MAX_OPEN_DESCRIPTIONS_def DEFAULT_PIPE_CAPACITY_def om_size_insert om_lookup_insert)

theorem pipe_fifo_witness:
  "sent_through 1 piped [AWrite 2 [7, 8, 9, 10], ARead 1 2] = [7, 8, 9]
    \<and> received_through 1 piped [AWrite 2 [7, 8, 9, 10], ARead 1 2] = [7, 8]"
proof -
  let ?ops = "[AWrite 2 [7, 8, 9, 10], ARead 1 2]"
  have final: "pipe_of (run_ops arena_run piped ?ops) 1
      = Some \<lparr>pipe_bytes = [9], capacity = 3, readers = 1, writers = 1\<rparr>"
    by (simp add: write_description_def read_description_def piped_state Let_def set_pipe_def)
  have "sent_through 1 piped ?ops = [7, 8, 9]"
    by (simp add: pipe_sent_def write_description_def read_description_def piped_state ep_def Let_def)
  with pipe_fifo [OF piped_state(1,2) final] show ?thesis by simp
qed

text \<open>C21. Polling and blocking agree: a descriptor is reported as not ready exactly when the
  corresponding read or write would block, with the same wait condition. For streams the reported byte count
  is the truth: a read of any size from an input or a pipe is served from that many bytes, and a
  write to a pipe takes that many or, on a reported hang-up, is refused as a broken pipe. Files and
  devices never block; their byte count is a constant (a device serves a read of any size) and is not part of this.\<close>

theorem readiness_sound:
  assumes "arena_inv a"
  shows "(readiness a i False = Ok (Blocks w) \<longleftrightarrow> snd (read_description a i n) = Ok (Blocks w))
    \<and> (readiness a i True = Ok (Blocks w) \<longleftrightarrow> snd (write_description a i bs) = Ok (Blocks w))
    \<and> (\<forall>rd. readiness a i False = Ok (Ready rd) \<longrightarrow> (\<exists>st. state_of a i = Ok st \<and> ds_kind st = KStream)
         \<longrightarrow> (\<exists>out. snd (read_description a i n) = Ok (Ready out) \<and> length out = min n (unat (rd_bytes rd))))
    \<and> (\<forall>rd p. readiness a i True = Ok (Ready rd) \<longrightarrow> ep a i = Some (p, False)
         \<longrightarrow> snd (write_description a i bs)
             = (if rd_hangup rd then Err BrokenPipe else Ok (Ready (min (unat (rd_bytes rd)) (length bs)))))"
proof (cases "entry a i")
  case (Some e)
  note ok = arena_invD(4) [OF assms Some] and small = MAX_CAPTURE_BYTES_def DEFAULT_PIPE_CAPACITY_def
  show ?thesis
  proof (cases "description e")
    case (OInput buf cursor closed)
    then show ?thesis
      using Some ok unat_of_nat_small [of "length buf - cursor", where 'a = 64]
      by (auto simp: readiness_def state_of_def read_description_def write_description_def
          input_readable_def slice_def Let_def small ep_def)
  next
    case (PipeReader p)
    then obtain st where st: "pipe_of a p = Some st" using entry_pipe [OF assms Some, of p True] by auto
    then have "length (pipe_bytes st) \<le> 65536"
      using arena_invD(6) [OF assms st] by (simp add: pipe_ok_def small)
    then show ?thesis
      using Some PipeReader st unat_of_nat_small [of "length (pipe_bytes st)", where 'a = 64]
      by (auto simp: readiness_def state_of_def read_description_def write_description_def
          pipe_readable_def Let_def word_gt_0 ep_def)
  next
    case (PipeWriter p)
    then obtain st where st: "pipe_of a p = Some st" using entry_pipe [OF assms Some, of p False] by auto
    have "capacity st \<le> 65536" using arena_invD(6) [OF assms st] by (simp add: pipe_ok_def small)
    then have "capacity st - length (pipe_bytes st) < 2 ^ 64" by (intro le_less_trans [OF diff_le_self]) simp
    then show ?thesis
      using Some PipeWriter st unat_of_nat_small [of "capacity st - length (pipe_bytes st)", where 'a = 64]
      by (auto simp: readiness_def state_of_def read_description_def write_description_def
          pipe_writable_def Let_def ep_def)
  qed (use Some in \<open>auto simp: readiness_def state_of_def read_description_def write_description_def ep_def
      Let_def split: prod.splits\<close>)
qed (simp add: readiness_def state_of_def read_description_def write_description_def ep_def)

theorem readiness_sound_witness:
  "readiness piped 1 False = Ok (Blocks (WaitPipeReadable 1))
    \<and> snd (read_description piped 1 5) = Ok (Blocks (WaitPipeReadable 1))"
proof -
  have "readiness piped 1 False = Ok (Blocks (WaitPipeReadable 1))"
    by (simp add: readiness_def state_of_def piped_state pipe_readable_def Let_def)
  with readiness_sound [OF piped_state(1), of 1 "WaitPipeReadable 1" 5] show ?thesis by blast
qed

text \<open>C22. The end of a pipe is seen exactly when its last peer is gone: a read blocks only while the
  buffer is empty and some description can still write, so after the last writer is released the
  reader drains the buffer and then gets end of file; a write is refused with a broken pipe exactly
  when no description can read.\<close>

theorem pipe_hangup:
  assumes "arena_inv a" "pipe_of a p = Some st"
  shows "(ep a i = Some (p, True) \<longrightarrow>
        (snd (read_description a i n) = Ok (Blocks (WaitPipeReadable p)))
          = (pipe_bytes st = [] \<and> (\<exists>j. ep a j = Some (p, False))))
    \<and> (ep a i = Some (p, False) \<longrightarrow>
        (snd (write_description a i bs) = Err BrokenPipe) = (\<nexists>j. ep a j = Some (p, True)))"
proof -
  have d: "\<exists>e. entry a i = Some e \<and> description e = (if b then PipeReader p else PipeWriter p)"
    if "ep a i = Some (p, b)" for b
    using that by (cases "entry a i"; cases "description (the (entry a i))") (auto simp: ep_def)
  have cnt: "readers st = (if \<exists>k. ep a k = Some (p, True) then 1 else 0)"
      "writers st = (if \<exists>k. ep a k = Some (p, False) then 1 else 0)" if "ep a i = Some (p, b)" for b
    using pipe_counts [OF arena_invD(7) [OF assms(1)] that] assms(2) by (metis option.inject)+
  show ?thesis
  proof (intro conjI impI)
    assume i: "ep a i = Some (p, True)"
    show "(snd (read_description a i n) = Ok (Blocks (WaitPipeReadable p)))
        = (pipe_bytes st = [] \<and> (\<exists>j. ep a j = Some (p, False)))"
      using d [OF i] cnt(2) [OF i] assms(2) by (auto simp: read_description_def Let_def split: if_splits)
  next
    assume i: "ep a i = Some (p, False)"
    show "(snd (write_description a i bs) = Err BrokenPipe) = (\<nexists>j. ep a j = Some (p, True))"
      using d [OF i] cnt(1) [OF i] assms(2) by (auto simp: write_description_def Let_def split: if_splits)
  qed
qed

theorem pipe_hangup_witness:
  "snd (read_description (fst (discard_unreferenced piped 2)) 1 4) \<noteq> Ok (Blocks (WaitPipeReadable 1))"
proof -
  let ?a = "fst (discard_unreferenced piped 2)"
  have inv: "arena_inv ?a" by (rule discard_inv [OF piped_state(1)])
  have p: "pipe_of ?a 1 = Some \<lparr>pipe_bytes = [], capacity = 3, readers = 1, writers = 0\<rparr>"
    by (simp add: discard_unreferenced_def piped_state retain_ref_def release_ref_def checked_add_def
        checked_sub_def set_entry_def drop_endpoint_def remove_dead_pipe_def om_lookup_update Let_def
        saturating_sub_def)
  have e: "entry ?a k = (if k = 2 then None else entry piped k)" for k
    by (simp add: discard_unreferenced_def piped_state retain_ref_def release_ref_def checked_add_def
        checked_sub_def set_entry_def drop_endpoint_def remove_dead_pipe_def om_lookup_update Let_def
        saturating_sub_def om_lookup_remove)
  have "ep ?a 1 = Some (1, True)" by (simp add: ep_def e piped_state)
  moreover have "ep ?a j \<noteq> Some (1, False)" for j
    using ends_ok_inj [OF arena_invD(7) [OF piped_state(1)], of j "(1, False)" 2]
    by (auto simp: ep_def e piped_state)
  ultimately show ?thesis using pipe_hangup [OF inv p, of 1 4] by auto
qed

text \<open>C23. Advisory locks follow \<open>flock\<close>: a request is granted exactly when no other open description
  holds a conflicting lock on the inode; a granted request leaves the description with the new lock,
  a refused one without its old lock, and no other description's lock changes.\<close>

theorem lock_file_grants:
  assumes "arena_inv a" "entry a i = Some e"
  shows "\<exists>a' granted. lock_file a i n (Some m) = (a', Ok granted)
    \<and> granted = (\<nexists>j m'. j \<noteq> i \<and> lk a j = Some (n, m') \<and> (m = Exclusive \<or> m' = Exclusive))
    \<and> lk a' = (lk a)(i := if granted then Some (n, m) else None)"
proof (cases "file_lock e = Some (n, m)")
  case True
  then have l: "lk a i = Some (n, m)" using assms(2) by (simp add: lk_def)
  then have "\<nexists>j m'. j \<noteq> i \<and> lk a j = Some (n, m') \<and> (m = Exclusive \<or> m' = Exclusive)"
    using arena_invD(8) [OF assms(1)] unfolding locks_ok_def by (metis file_lock_mode.distinct(1))
  then show ?thesis
    using True assms(2) l by (intro exI [of _ a] exI [of _ True]) (auto simp: lock_file_def)
next
  case False
  then have new: "file_lock e \<noteq> map_option (Pair n) (Some m)" by simp
  obtain a2 where a2: "lk a2 = (lk a)(i := None)"
      "lock_file a i n (Some m) = (if list_ex (conflicts n m) (om_values (descriptions a2)) then (a2, Ok False)
            else (set_entry a2 i (e\<lparr>file_lock := Some (n, m)\<rparr>), Ok True))"
    by (rule lock_file_unfold [OF assms(2) new]) simp
  have "list_ex (conflicts n m) (om_values (descriptions a2))
      \<longleftrightarrow> (\<exists>j m'. j \<noteq> i \<and> lk a j = Some (n, m') \<and> (m = Exclusive \<or> m' = Exclusive))"
    by (auto simp: conflicts_lk a2(1))
  then show ?thesis using a2 by (auto simp: set_entry_views)
qed

theorem lock_file_grants_witness:
  "\<exists>a' granted. lock_file piped 1 5 (Some Exclusive) = (a', Ok granted) \<and> lk a' 1 = Some (5, Exclusive)"
proof -
  have "\<nexists>j m'. j \<noteq> 1 \<and> lk piped j = Some (5, m') \<and> (Exclusive = Exclusive \<or> m' = Exclusive)"
    by (simp add: piped_def open_pipe_def new_arena_def allocate_def Let_def checked_add_def
        MAX_PIPES_def MAX_OPEN_DESCRIPTIONS_def DEFAULT_PIPE_CAPACITY_def om_size_insert om_lookup_insert lk_def)
  with lock_file_grants [OF piped_state(1,3), of 5 Exclusive] show ?thesis by auto
qed

end
