(* ===== verification/Fd_Table.thy ===== *)
theory Fd_Table
  imports Descriptors
begin

text \<open>
  The per-process descriptor table of \<open>src/src/descriptors.rs\<close> (\<open>FdTable\<close>) over the shared arena.
  An operation works on the pair of the table and the arena. The locale \<open>refcounted\<close> states what
  the table needs from the arena's reference counting, and proves once what retaining and releasing
  a list of references does; the arena interprets it. On top of it a machine of several tables and
  handles keeps, for every open description, exactly as many references as there are entries and
  handles that name it.
\<close>

section \<open>The table and its operations\<close>

record fd_table =
  entries :: "(fd, description_id) omap"
  close_on_exec_set :: "(fd, unit) omap"

type_synonym 'a fd_result = "(fd_table \<times> descriptor_arena) \<times> (descriptor_error, 'a) outcome"

definition new_fd_table :: fd_table where
  "new_fd_table = \<lparr>entries = om_empty, close_on_exec_set = om_empty\<rparr>"

definition fd_get :: "fd_table \<Rightarrow> fd \<Rightarrow> (descriptor_error, description_id) outcome" where
  "fd_get t f = ok_or (om_lookup (entries t) f) InvalidFd"

fun in_arena :: "fd_table \<Rightarrow> 'a arena_result \<Rightarrow> 'a fd_result" where
  \<comment> \<open>a call on the arena from an operation of the table\<close>
  "in_arena t (a, r) = ((t, a), r)"

definition install :: "fd_table \<Rightarrow> descriptor_arena \<Rightarrow> fd \<Rightarrow> description_id \<Rightarrow> unit fd_result" where
  "install t a f d =
     (if f < 0 then ((t, a), Err InvalidFd)
      else if \<not> om_contains (entries t) f \<and> MAX_FDS_PER_PROCESS \<le> om_size (entries t)
        then ((t, a), Err DescriptorLimit)
      else and_then (in_arena t (retain_ref a d))
        (\<lambda>(t, a) _.
           let previous = om_lookup (entries t) f;
               t' = t\<lparr>entries := om_insert f d (entries t)\<rparr>
           in and_then (case previous of
                  Some p \<Rightarrow> in_arena t' (release_ref a p)
                | None \<Rightarrow> ((t', a), Ok ()))
                (\<lambda>(t, a) _. ((t\<lparr>close_on_exec_set := om_remove f (close_on_exec_set t)\<rparr>, a), Ok ()))))"

definition duplicate :: "fd_table \<Rightarrow> descriptor_arena \<Rightarrow> fd \<Rightarrow> fd \<Rightarrow> unit fd_result" where
  "duplicate t a source destination = try_in (t, a) (fd_get t source)
     (\<lambda>d. if source = destination then ((t, a), Ok ()) else install t a destination d)"

definition close_on_exec :: "fd_table \<Rightarrow> fd \<Rightarrow> (descriptor_error, bool) outcome" where
  "close_on_exec t f = bind_oc (fd_get t f) (\<lambda>_. Ok (om_contains (close_on_exec_set t) f))"

definition set_close_on_exec :: "fd_table \<Rightarrow> fd \<Rightarrow> bool \<Rightarrow> fd_table \<times> (descriptor_error, unit) outcome" where
  "set_close_on_exec t f enabled = try_in t (fd_get t f)
     (\<lambda>_. (t\<lparr>close_on_exec_set := (if enabled then om_insert f () (close_on_exec_set t)
            else om_remove f (close_on_exec_set t))\<rparr>, Ok ()))"

definition close_fd :: "fd_table \<Rightarrow> descriptor_arena \<Rightarrow> fd \<Rightarrow> unit fd_result" where
  "close_fd t a f = try_in (t, a) (ok_or (om_lookup (entries t) f) InvalidFd)
     (\<lambda>d. in_arena (t\<lparr>entries := om_remove f (entries t),
              close_on_exec_set := om_remove f (close_on_exec_set t)\<rparr>) (release_ref a d))"

definition close_for_exec :: "fd_table \<Rightarrow> descriptor_arena \<Rightarrow> fd_table \<times> descriptor_arena" where
  "close_for_exec t a =
     run_ops (\<lambda>(t, a) f. close_fd t a f) (t\<lparr>close_on_exec_set := om_empty\<rparr>, a)
       (om_keys (close_on_exec_set t))"

fun fork_retain :: "descriptor_arena \<Rightarrow> description_id list \<Rightarrow> description_id list \<Rightarrow> unit arena_result" where
  "fork_retain a retained [] = (a, Ok ())"
| "fork_retain a retained (d # ds) = (case retain_ref a d of
       (a', Ok _) \<Rightarrow> fork_retain a' (retained @ [d]) ds
     | (a', Err e) \<Rightarrow> (run_ops release_ref a' retained, Err e)
     | (a', Panic) \<Rightarrow> (a', Panic))"

definition fork_table :: "fd_table \<Rightarrow> descriptor_arena \<Rightarrow> fd_table arena_result" where
  "fork_table t a = map_ok (\<lambda>_. t) (fork_retain a [] (om_values (entries t)))"

definition close_all :: "fd_table \<Rightarrow> descriptor_arena \<Rightarrow> fd_table \<times> descriptor_arena" where
  "close_all t a = (t\<lparr>entries := om_empty, close_on_exec_set := om_empty\<rparr>,
     run_ops release_ref a (om_values (entries t)))"

section \<open>Reference counting as an interface\<close>

text \<open>\<open>refs\<close> is the count of an object, \<open>live\<close> tells that it exists, and \<open>frame\<close> is everything else
  of the state.\<close>

locale refcounted =
  fixes retain_r :: "'s \<Rightarrow> 'i \<Rightarrow> 's \<times> ('e, unit) outcome"
    and release_r :: "'s \<Rightarrow> 'i \<Rightarrow> 's \<times> ('e, unit) outcome"
    and refs :: "'s \<Rightarrow> 'i \<Rightarrow> nat"
    and live :: "'s \<Rightarrow> 'i \<Rightarrow> bool"
    and frame :: "'s \<Rightarrow> 'f"
  assumes retain_Ok: "retain_r s i = (s', Ok u) \<Longrightarrow>
      live s i \<and> live s' = live s \<and> refs s' = (refs s)(i := Suc (refs s i)) \<and> frame s' = frame s"
    and retain_Err: "retain_r s i = (s', Err e) \<Longrightarrow> s' = s"
    and retain_total: "snd (retain_r s i) \<noteq> Panic"
    and release_Ok: "refs s i = Suc n \<Longrightarrow> \<exists>s'. release_r s i = (s', Ok ())
      \<and> refs s' = (refs s)(i := n) \<and> (\<forall>j. live s' j \<longleftrightarrow> live s j \<and> (j = i \<longrightarrow> n \<noteq> 0))
      \<and> (n \<noteq> 0 \<longrightarrow> frame s' = frame s)"
    and refs_live: "0 < refs s i \<Longrightarrow> live s i"
    and same_state: "refs s = refs s' \<Longrightarrow> frame s = frame s' \<Longrightarrow> s = s'"
begin

lemma release_list:
  assumes "\<And>i. count_list xs i \<le> refs s i"
  shows "refs (run_ops release_r s xs) i = refs s i - count_list xs i
    \<and> live (run_ops release_r s xs) i = (live s i \<and> (i \<in> set xs \<longrightarrow> count_list xs i < refs s i))"
  using assms
proof (induction xs arbitrary: s)
  case (Cons x xs)
  from Cons.prems [of x] obtain n where n: "refs s x = Suc n" by (cases "refs s x") auto
  from release_Ok [OF this] obtain s' where s': "release_r s x = (s', Ok ())" "refs s' = (refs s)(x := n)"
      "\<forall>j. live s' j \<longleftrightarrow> live s j \<and> (j = x \<longrightarrow> n \<noteq> 0)" by blast
  have "count_list xs j \<le> refs s' j" for j using Cons.prems [of j] n by (auto simp: s'(2) split: if_splits)
  note ih = Cons.IH [OF this]
  show ?case
  proof (cases "i = x")
    case True
    have "i \<notin> set xs \<Longrightarrow> count_list xs i = 0" by (simp add: count_list_0_iff)
    then show ?thesis using ih s' n True by (cases "i \<in> set xs") auto
  next
    case False
    then show ?thesis using ih s' by simp
  qed
qed simp

lemma release_keeps_frame:
  assumes "\<And>i. i \<in> set xs \<Longrightarrow> count_list xs i < refs s i"
  shows "frame (run_ops release_r s xs) = frame s"
  using assms
proof (induction xs arbitrary: s)
  case (Cons x xs)
  from Cons.prems [of x] obtain n where n: "refs s x = Suc n" "n \<noteq> 0" by (cases "refs s x") auto
  from release_Ok [OF n(1)] n(2) obtain s' where s': "release_r s x = (s', Ok ())" "refs s' = (refs s)(x := n)"
      "frame s' = frame s" by blast
  have "count_list xs j < refs s' j" if "j \<in> set xs" for j
    using Cons.prems [of j] that n by (auto simp: s'(2) split: if_splits)
  from Cons.IH [OF this] show ?case using s' by simp
qed simp

lemma retain_release_list:
  assumes "refs s' = (\<lambda>i. refs s i + count_list xs i)" "frame s' = frame s" "\<And>i. i \<in> set xs \<Longrightarrow> 0 < refs s i"
  shows "run_ops release_r s' xs = s"
proof (rule same_state)
  have "count_list xs i \<le> refs s' i" for i by (simp add: assms(1))
  from release_list [OF this] show "refs (run_ops release_r s' xs) = refs s"
    by (auto simp: assms(1))
  have "count_list xs i < refs s' i" if "i \<in> set xs" for i using assms(3) [OF that] by (simp add: assms(1))
  from release_keeps_frame [OF this] show "frame (run_ops release_r s' xs) = frame s" by (simp add: assms(2))
qed

end

text \<open>The arena provides it.\<close>

definition ref_count :: "descriptor_arena \<Rightarrow> description_id \<Rightarrow> nat" where
  "ref_count a i = (case entry a i of None \<Rightarrow> 0 | Some e \<Rightarrow> unat (references e))"

definition without_counts :: "descriptor_arena \<Rightarrow> descriptor_arena" where
  "without_counts a = a\<lparr>descriptions := om_map (\<lambda>_ e. e\<lparr>references := 0\<rparr>) (descriptions a)\<rparr>"

abbreviation open_in :: "descriptor_arena \<Rightarrow> description_id \<Rightarrow> bool" where
  "open_in a i \<equiv> entry a i \<noteq> None"

lemma set_references:
  assumes "entry a i = Some e"
  shows "ref_count (set_entry a i (e\<lparr>references := n\<rparr>)) = (ref_count a)(i := unat n)"
    "open_in (set_entry a i (e\<lparr>references := n\<rparr>)) j = open_in a j"
    "without_counts (set_entry a i (e\<lparr>references := n\<rparr>)) = without_counts a"
proof -
  show "ref_count (set_entry a i (e\<lparr>references := n\<rparr>)) = (ref_count a)(i := unat n)"
    by (auto simp: ref_count_def fun_eq_iff set_entry_views)
  show "open_in (set_entry a i (e\<lparr>references := n\<rparr>)) j = open_in a j"
    using assms by (simp add: set_entry_views)
  have "om_map (\<lambda>_ e. e\<lparr>references := 0\<rparr>) (om_insert i (e\<lparr>references := n\<rparr>) (descriptions a))
      = om_map (\<lambda>_ e. e\<lparr>references := 0\<rparr>) (descriptions a)"
    using assms by (intro om_eqI) (simp add: om_lookup_insert)
  then show "without_counts (set_entry a i (e\<lparr>references := n\<rparr>)) = without_counts a"
    by (simp add: without_counts_def set_entry_def)
qed

lemma same_arena:
  assumes refs: "ref_count a = ref_count b" and frame: "without_counts a = without_counts b"
  shows "a = b"
proof -
  have maps: "om_map (\<lambda>_ e. e\<lparr>references := 0\<rparr>) (descriptions a) = om_map (\<lambda>_ e. e\<lparr>references := 0\<rparr>) (descriptions b)"
    using arg_cong [OF frame, of descriptions] by (simp add: without_counts_def)
  have "entry a i = entry b i" for i
  proof -
    have m: "map_option (\<lambda>e. e\<lparr>references := 0\<rparr>) (entry a i) = map_option (\<lambda>e. e\<lparr>references := 0\<rparr>) (entry b i)"
      using arg_cong [OF maps, of "\<lambda>m. om_lookup m i"] by simp
    have r: "ref_count a i = ref_count b i" using refs by simp
    show ?thesis
    proof (cases "entry a i")
      case (Some e)
      then obtain e' where e': "entry b i = Some e'" using m Some by (cases "entry b i") auto
      with Some m r have "e\<lparr>references := 0\<rparr> = e'\<lparr>references := 0\<rparr>" "references e = references e'"
        by (auto simp: ref_count_def word_unat_eq_iff)
      then have "e = e'" by (metis description_entry.surjective description_entry.update_convs(2)
            description_entry.ext_inject)
      then show ?thesis using Some e' by simp
    qed (use m in auto)
  qed
  then have d: "descriptions a = descriptions b" by (rule om_eqI)
  have "a = (without_counts a)\<lparr>descriptions := descriptions a\<rparr>" by (simp add: without_counts_def)
  also have "\<dots> = b" by (simp add: frame d) (simp add: without_counts_def)
  finally show ?thesis .
qed

lemma release_counted:
  assumes "ref_count a i = Suc n"
  shows "\<exists>a'. release_ref a i = (a', Ok ()) \<and> ref_count a' = (ref_count a)(i := n)
    \<and> (\<forall>j. open_in a' j \<longleftrightarrow> open_in a j \<and> (j = i \<longrightarrow> n \<noteq> 0))
    \<and> (n \<noteq> 0 \<longrightarrow> without_counts a' = without_counts a)"
proof -
  obtain a' r where run: "release_ref a i = (a', r)" by fastforce
  then show ?thesis
  proof (cases rule: release_cases)
    case refused
    then show ?thesis using assms by (auto simp: ref_count_def split: option.splits)
  next
    case (kept e m)
    then have "n = unat m" using assms by (simp add: ref_count_def)
    moreover from this kept(4) have "n \<noteq> 0" by (simp add: unat_eq_zero)
    ultimately show ?thesis
      using run kept(1) set_references [OF kept(2)] by (auto simp: kept(5))
  next
    case (dropped e)
    then have "n = 0" using assms by (simp add: ref_count_def)
    then show ?thesis
      using run dropped(1) by (auto simp: ref_count_def fun_eq_iff dropped(4) om_lookup_remove)
  qed
qed

lemma retain_counted:
  assumes "retain_ref a i = (a', Ok u)"
  shows "open_in a i \<and> open_in a' = open_in a \<and> ref_count a' = (ref_count a)(i := Suc (ref_count a i))
    \<and> without_counts a' = without_counts a"
  using assms
proof (cases rule: retain_cases)
  case (retained e n)
  then show ?thesis
    using set_references [OF retained(2)] by (auto simp: fun_eq_iff ref_count_def)
qed simp

interpretation arefs: refcounted retain_ref release_ref ref_count open_in without_counts
proof (unfold_locales, goal_cases)
  case (1 s i s' u)
  then show ?case by (rule retain_counted)
next
  case (2 s i s' e)
  then show ?case by (cases rule: retain_cases) auto
next
  case (3 s i)
  then show ?case by (cases "retain_ref s i" rule: prod.exhaust, simp, erule retain_cases) auto
next
  case (4 s i n)
  then show ?case by (rule release_counted)
next
  case (5 s i)
  then show ?case by (auto simp: ref_count_def split: option.splits)
next
  case (6 s s')
  then show ?case by (rule same_arena)
qed

section \<open>One table among others\<close>

text \<open>The references of the arena are those of the table plus \<open>X\<close>, what everybody else holds.\<close>

definition refs_with :: "fd_table \<Rightarrow> descriptor_arena \<Rightarrow> (description_id \<Rightarrow> nat) \<Rightarrow> bool" where
  "refs_with t a X \<longleftrightarrow> (\<forall>i. ref_count a i = om_count (entries t) i + X i)"

definition fd_ok :: "fd_table \<Rightarrow> bool" where
  "fd_ok t \<longleftrightarrow> om_size (entries t) \<le> MAX_FDS_PER_PROCESS
     \<and> (\<forall>f. om_contains (entries t) f \<longrightarrow> 0 \<le> f)
     \<and> (\<forall>f. om_contains (close_on_exec_set t) f \<longrightarrow> om_contains (entries t) f)"

text \<open>What every operation of a table keeps.\<close>

definition table_ok :: "(description_id \<Rightarrow> nat) \<Rightarrow> fd_table \<times> descriptor_arena \<Rightarrow> bool" where
  "table_ok X s \<longleftrightarrow> arena_inv (snd s) \<and> refs_with (fst s) (snd s) X \<and> fd_ok (fst s)"

lemma release_entry:
  assumes "refs_with t a X" "om_lookup (entries t) f = Some d"
  obtains a' where "release_ref a d = (a', Ok ())"
    "ref_count a' = (ref_count a)(d := ref_count a d - 1)"
proof -
  have "0 < ref_count a d" using assms om_count_pos by (auto simp: refs_with_def)
  then obtain n where "ref_count a d = Suc n" by (cases "ref_count a d") auto
  from release_counted [OF this] that show thesis by (auto simp: \<open>ref_count a d = Suc n\<close>)
qed

lemma install_ok:
  assumes ok: "table_ok X (t, a)"
  shows "table_ok X (fst (install t a f d)) \<and> snd (install t a f d) \<noteq> Panic"
proof (cases "f < 0 \<or> (\<not> om_contains (entries t) f \<and> MAX_FDS_PER_PROCESS \<le> om_size (entries t))")
  case True
  then show ?thesis using ok by (auto simp: install_def)
next
  case free: False
  have inv: "arena_inv a" and refs: "\<And>i. ref_count a i = om_count (entries t) i + X i" and fd: "fd_ok t"
    using ok by (auto simp: table_ok_def refs_with_def)
  obtain a1 r1 where t1: "retain_ref a d = (a1, r1)" by fastforce
  have inv1: "arena_inv a1" by (rule retain_inv [OF inv t1])
  have body: "install t a f d = and_then ((t, a1), r1) (\<lambda>(t, a) _.
           let previous = om_lookup (entries t) f;
               t' = t\<lparr>entries := om_insert f d (entries t)\<rparr>
           in and_then (case previous of
                  Some p \<Rightarrow> in_arena t' (release_ref a p)
                | None \<Rightarrow> ((t', a), Ok ()))
                (\<lambda>(t, a) _. ((t\<lparr>close_on_exec_set := om_remove f (close_on_exec_set t)\<rparr>, a), Ok ())))"
    unfolding install_def using free t1 by auto
  define t2 where "t2 = t\<lparr>entries := om_insert f d (entries t),
      close_on_exec_set := om_remove f (close_on_exec_set t)\<rparr>"
  have fd2: "fd_ok t2"
    using fd free by (auto simp: t2_def fd_ok_def om_lookup_insert om_lookup_remove om_size_insert not_less split: if_splits)
  show ?thesis
  proof (cases r1)
    case (Ok u)
    then have c1: "ref_count a1 = (ref_count a)(d := Suc (ref_count a d))"
      using retain_counted t1 by blast
    show ?thesis
    proof (cases "om_lookup (entries t) f")
      case None
      then have "refs_with t2 a1 X"
        by (auto simp: refs_with_def c1 refs t2_def om_count_insert)
      then show ?thesis using body Ok None inv1 fd2 by (simp add: table_ok_def t2_def)
    next
      case (Some p)
      have "0 < ref_count a1 p" using om_count_pos [OF Some] by (simp add: c1 refs)
      then obtain n where n: "ref_count a1 p = Suc n" by (cases "ref_count a1 p") auto
      from release_counted [OF this] obtain a2 where l: "release_ref a1 p = (a2, Ok ())"
        "ref_count a2 = (ref_count a1)(p := n)" by blast
      have "om_count (entries t) i = om_count (om_remove f (entries t)) i + (if i = p then 1 else 0)" for i
        using om_count_remove [of "entries t" i f] Some by simp
      then have "refs_with t2 a2 X"
        using n by (auto simp: refs_with_def l(2) c1 refs t2_def om_count_insert split: if_splits)
      then show ?thesis
        using body Ok Some l(1) release_inv [OF inv1 l(1)] fd2 by (simp add: table_ok_def t2_def)
    qed
  next
    case (Err e)
    then show ?thesis using body arefs.retain_Err t1 ok by auto
  next
    case Panic
    then show ?thesis using arefs.retain_total [of a d] t1 by simp
  qed
qed

lemma close_fd_ok:
  assumes ok: "table_ok X (t, a)"
  shows "table_ok X (fst (close_fd t a f)) \<and> snd (close_fd t a f) \<noteq> Panic"
proof (cases "om_lookup (entries t) f")
  case (Some d)
  let ?t = "t\<lparr>entries := om_remove f (entries t), close_on_exec_set := om_remove f (close_on_exec_set t)\<rparr>"
  have inv: "arena_inv a" and refs: "refs_with t a X" and fd: "fd_ok t"
    using ok by (auto simp: table_ok_def)
  obtain a' where l: "release_ref a d = (a', Ok ())" "ref_count a' = (ref_count a)(d := ref_count a d - 1)"
    by (rule release_entry [OF refs Some])
  have "refs_with ?t a' X"
    using refs om_count_remove [of "entries t" _ f] Some by (auto simp: refs_with_def l(2))
  moreover have "fd_ok ?t" using fd by (auto simp: fd_ok_def om_lookup_remove om_size_remove)
  ultimately show ?thesis
    using Some l(1) release_inv [OF inv l(1)] by (simp add: close_fd_def table_ok_def)
qed (use ok in \<open>simp add: close_fd_def\<close>)

lemma duplicate_ok:
  assumes ok: "table_ok X (t, a)"
  shows "table_ok X (fst (duplicate t a f g)) \<and> snd (duplicate t a f g) \<noteq> Panic"
  using ok install_ok [OF ok] by (cases "om_lookup (entries t) f") (auto simp: duplicate_def fd_get_def)

lemma set_close_on_exec_ok:
  assumes ok: "table_ok X (t, a)"
  shows "table_ok X (fst (set_close_on_exec t f b), a) \<and> snd (set_close_on_exec t f b) \<noteq> Panic"
  using ok by (cases "om_lookup (entries t) f")
    (auto simp: set_close_on_exec_def fd_get_def table_ok_def refs_with_def fd_ok_def om_lookup_insert
      om_lookup_remove split: if_splits)

text \<open>Closing a list of descriptors, one by one, and closing them all.\<close>

lemma close_list:
  assumes "table_ok X (t, a)"
  shows "table_ok X (run_ops (\<lambda>(t, a) f. close_fd t a f) (t, a) fs)
    \<and> (\<forall>f. om_lookup (entries (fst (run_ops (\<lambda>(t, a) f. close_fd t a f) (t, a) fs))) f
        = (if f \<in> set fs then None else om_lookup (entries t) f))"
  using assms
proof (induction fs arbitrary: t a)
  case (Cons f fs)
  obtain t' a' where s': "fst (close_fd t a f) = (t', a')" by fastforce
  have "table_ok X (t', a')" using close_fd_ok [OF Cons.prems, of f] s' by simp
  moreover have "om_lookup (entries t') g = (if g = f then None else om_lookup (entries t) g)" for g
  proof (cases "om_lookup (entries t) f")
    case None
    then show ?thesis using s' by (auto simp: close_fd_def)
  next
    case (Some d)
    obtain a1 r1 where "release_ref a d = (a1, r1)" by fastforce
    then have "t' = t\<lparr>entries := om_remove f (entries t), close_on_exec_set := om_remove f (close_on_exec_set t)\<rparr>"
      using s' Some by (simp add: close_fd_def)
    then show ?thesis by (simp add: om_lookup_remove)
  qed
  ultimately show ?case using Cons.IH [of t' a'] s' by simp
qed simp

lemma close_for_exec_ok:
  assumes ok: "table_ok X (t, a)"
  shows "table_ok X (close_for_exec t a)"
    "om_lookup (entries (fst (close_for_exec t a))) f
      = (if om_contains (close_on_exec_set t) f then None else om_lookup (entries t) f)"
proof -
  have ok0: "table_ok X (t\<lparr>close_on_exec_set := om_empty\<rparr>, a)"
    using ok by (simp add: table_ok_def refs_with_def fd_ok_def)
  from close_list [OF ok0, of "om_keys (close_on_exec_set t)"]
  show "table_ok X (close_for_exec t a)"
    "om_lookup (entries (fst (close_for_exec t a))) f
      = (if om_contains (close_on_exec_set t) f then None else om_lookup (entries t) f)"
    unfolding close_for_exec_def by (simp_all add: om_set_keys)
qed

lemma release_list_inv: "arena_inv a \<Longrightarrow> arena_inv (run_ops release_ref a ds)"
proof (induction ds arbitrary: a)
  case (Cons d ds)
  obtain a' r where "release_ref a d = (a', r)" by fastforce
  with release_inv [OF Cons.prems] Cons.IH show ?case by simp
qed simp

lemma close_all_ok:
  assumes ok: "table_ok X (t, a)"
  shows "table_ok X (close_all t a)"
proof -
  have c: "count_list (om_values (entries t)) i \<le> ref_count a i" for i
    using ok by (simp add: table_ok_def refs_with_def om_count_def)
  from arefs.release_list [OF c] show ?thesis
    using ok release_list_inv
    by (auto simp: close_all_def table_ok_def refs_with_def fd_ok_def om_count_def [symmetric])
qed

lemma fork_retain_cases:
  assumes "\<And>i. i \<in> set kept \<Longrightarrow> 0 < ref_count a0 i" "\<And>i. i \<in> set ds \<Longrightarrow> 0 < ref_count a0 i"
    "arena_inv a" "ref_count a = (\<lambda>i. ref_count a0 i + count_list kept i)" "without_counts a = without_counts a0"
  shows "case fork_retain a kept ds of
      (a', Ok _) \<Rightarrow> arena_inv a' \<and> ref_count a' = (\<lambda>i. ref_count a0 i + count_list (kept @ ds) i)
        \<and> without_counts a' = without_counts a0
    | (a', Err _) \<Rightarrow> a' = a0
    | (_, Panic) \<Rightarrow> False"
  using assms
proof (induction ds arbitrary: a kept)
  case (Cons d ds)
  obtain a1 r1 where run: "retain_ref a d = (a1, r1)" by fastforce
  show ?case
  proof (cases r1)
    case (Ok u)
    with run have c: "ref_count a1 = (ref_count a)(d := Suc (ref_count a d))" "without_counts a1 = without_counts a"
      using retain_counted by blast+
    have "ref_count a1 = (\<lambda>i. ref_count a0 i + count_list (kept @ [d]) i)"
      by (auto simp: c(1) Cons.prems(4))
    moreover have "0 < ref_count a0 i" if "i \<in> set (kept @ [d]) \<union> set ds" for i
      using that Cons.prems(1,2) by auto
    ultimately have "case fork_retain a1 (kept @ [d]) ds of
        (a', Ok _) \<Rightarrow> arena_inv a' \<and> ref_count a' = (\<lambda>i. ref_count a0 i + count_list ((kept @ [d]) @ ds) i)
          \<and> without_counts a' = without_counts a0
      | (a', Err _) \<Rightarrow> a' = a0
      | (_, Panic) \<Rightarrow> False"
      using retain_inv [OF Cons.prems(3) run] c(2) Cons.prems(5) by (intro Cons.IH) auto
    then show ?thesis using run Ok unfolding append.assoc append_Cons append_Nil by simp
  next
    case (Err e)
    then have "a1 = a" using run arefs.retain_Err by blast
    then show ?thesis
      using run Err arefs.retain_release_list [OF Cons.prems(4,5,1)] by simp
  next
    case Panic
    then show ?thesis using arefs.retain_total [of a d] run by simp
  qed
qed simp

lemma fork_table_cases:
  assumes ok: "table_ok X (t, a)"
  shows "case fork_table t a of
      (a', Ok t') \<Rightarrow> t' = t \<and> arena_inv a' \<and> ref_count a' = (\<lambda>i. ref_count a i + om_count (entries t) i)
        \<and> without_counts a' = without_counts a
    | (a', Err _) \<Rightarrow> a' = a
    | (_, Panic) \<Rightarrow> False"
proof -
  have "0 < ref_count a i" if "i \<in> set (om_values (entries t))" for i
    using that ok by (auto simp: table_ok_def refs_with_def om_set_values intro: om_count_pos)
  moreover have "arena_inv a" using ok by (simp add: table_ok_def)
  ultimately have "case fork_retain a [] (om_values (entries t)) of
      (a', Ok _) \<Rightarrow> arena_inv a' \<and> ref_count a' = (\<lambda>i. ref_count a i + count_list ([] @ om_values (entries t)) i)
        \<and> without_counts a' = without_counts a
    | (a', Err _) \<Rightarrow> a' = a
    | (_, Panic) \<Rightarrow> False"
    by (intro fork_retain_cases) auto
  then show ?thesis
    by (simp add: fork_table_def om_count_def split: prod.splits outcome.splits)
qed

section \<open>A machine of several tables\<close>

text \<open>Calls of the arena that do not retain or release leave every count as it is.\<close>

lemma ref_count_set_entry: "entry a i = Some e \<Longrightarrow> references e' = references e \<Longrightarrow>
    ref_count (set_entry a i e') = ref_count a"
  by (auto simp: ref_count_def fun_eq_iff set_entry_views)

lemma ref_count_set_description: "entry a i = Some e \<Longrightarrow> ref_count (set_description a i e d) = ref_count a"
  unfolding set_description_def by (rule ref_count_set_entry) simp_all

lemma ref_count_cong: "descriptions a' = descriptions a \<Longrightarrow> ref_count a' = ref_count a"
  by (simp add: ref_count_def fun_eq_iff)

lemma ref_count_set_pipe [simp]: "ref_count (set_pipe a p st) = ref_count a"
  by (rule ref_count_cong) (simp add: set_pipe_def)

lemma allocate_ref_count:
  assumes "entry a (next_description a) = None"
  shows "ref_count (fst (allocate a d)) = ref_count a"
proof -
  obtain a' r where run: "allocate a d = (a', r)" by fastforce
  then have "ref_count a' = ref_count a"
    using assms by (cases rule: allocate_cases) (auto simp: ref_count_def fun_eq_iff om_lookup_insert)
  then show ?thesis by (simp add: run)
qed

lemma open_pipe_ref_count:
  assumes "arena_inv a"
  shows "ref_count (fst (open_pipe a n)) = ref_count a"
proof -
  obtain a' r where run: "open_pipe a n = (a', r)" by fastforce
  show ?thesis
  proof (cases rule: open_pipe_cases [OF assms run])
    case (1 err m)
    then have "descriptions a' = descriptions a"
      by (metis descriptor_arena.select_convs(3) descriptor_arena.surjective descriptor_arena.update_convs(1,2))
    from ref_count_cong [OF this] show ?thesis by (simp add: run)
  next
    case (2 m i j a1 a2)
    have new: "entry a1 (next_description a1) = None" "ref_count a1 = ref_count a" "descriptions a1 = descriptions a"
        "next_description a1 = next_description a"
      using fresh_description(1) [OF assms] by (simp_all add: 2(6) ref_count_def fun_eq_iff)
    obtain k e where a2: "a2 = a1\<lparr>next_description := k, descriptions := om_insert (next_description a1) e (descriptions a1)\<rparr>"
        "next_description a1 < k"
      using 2(7) by (cases rule: allocate_cases) auto
    have "entry a k = None" using arena_invD(3) [OF assms, of k] a2(2) new(4) by (cases "entry a k") auto
    then have "entry a2 (next_description a2) = None" using a2 new by (simp add: om_lookup_insert)
    from allocate_ref_count [OF this] allocate_ref_count [OF new(1)] 2(7,8) run new(2) show ?thesis
      by (metis fst_conv)
  qed
qed

lemma lock_file_ref_count: "ref_count (fst (lock_file a i n m)) = ref_count a"
proof (cases "entry a i")
  case (Some e)
  show ?thesis
  proof (cases "file_lock e = map_option (Pair n) m")
    case False
    obtain a2 where a2: "entry a2 i = Some (e\<lparr>file_lock := None\<rparr>)"
        "descriptions a2 = descriptions (set_entry a i (e\<lparr>file_lock := None\<rparr>))"
        "lock_file a i n m = (case m of None \<Rightarrow> (a2, Ok True)
          | Some m \<Rightarrow> if list_ex (conflicts n m) (om_values (descriptions a2)) then (a2, Ok False)
              else (set_entry a2 i (e\<lparr>file_lock := Some (n, m)\<rparr>), Ok True))"
      by (rule lock_file_unfold [OF Some False]) blast
    have "ref_count a2 = ref_count (set_entry a i (e\<lparr>file_lock := None\<rparr>))" by (rule ref_count_cong [OF a2(2)])
    also have "\<dots> = ref_count a" by (rule ref_count_set_entry [OF Some]) simp
    finally have "ref_count a2 = ref_count a" .
    moreover have "ref_count (set_entry a2 i (e\<lparr>file_lock := l\<rparr>)) = ref_count a2" for l
      by (rule ref_count_set_entry [OF a2(1)]) simp
    ultimately show ?thesis unfolding a2(3) by (simp split: option.splits)
  qed (simp add: lock_file_def Some)
qed (simp add: lock_file_def)

lemma detach_file_ref_count: "ref_count (detach_file a path n) = ref_count a"
  by (auto simp: ref_count_def fun_eq_iff detach_file_def split: option.splits open_description.splits)

lemma discard_ref_count:
  shows "ref_count (fst (discard_unreferenced a i)) = ref_count a"
proof (cases "entry a i")
  case (Some e)
  show ?thesis
  proof (cases "references e = 0")
    case True
    then have z: "ref_count a i = 0" using Some by (simp add: ref_count_def)
    obtain a1 r1 where t: "retain_ref a i = (a1, r1)" by fastforce
    show ?thesis
    proof (cases r1)
      case (Ok u)
      then have c: "ref_count a1 = (ref_count a)(i := Suc 0)" using retain_counted t z by fastforce
      then obtain a2 where "release_ref a1 i = (a2, Ok ())" "ref_count a2 = (ref_count a1)(i := 0)"
        using release_counted [of a1 i 0] by auto
      then show ?thesis using Some True t Ok c z by (auto simp: discard_unreferenced_def fun_eq_iff)
    next
      case (Err err)
      then show ?thesis using Some True t arefs.retain_Err [of a i a1 err] by (simp add: discard_unreferenced_def)
    next
      case Panic
      then show ?thesis using arefs.retain_total [of a i] t by simp
    qed
  qed (use Some in \<open>simp add: discard_unreferenced_def\<close>)
qed (simp add: discard_unreferenced_def)

fun counts_references :: "arena_op \<Rightarrow> bool" where
  "counts_references (ARetain _) = True"
| "counts_references (ARelease _) = True"
| "counts_references _ = False"

lemma arena_run_ref_count:
  assumes inv: "arena_inv a" and op: "\<not> counts_references op"
  shows "ref_count (fst (arena_run a op)) = ref_count a"
  using op
proof (cases op)
  case (ARead i n)
  then show ?thesis
    by (cases "entry a i"; cases "description (the (entry a i))")
      (auto simp: read_description_def ref_count_set_description slice_def Let_def ok_or_def
        split: prod.splits option.splits)
next
  case (AWrite i bs)
  then show ?thesis
    by (cases "entry a i"; cases "description (the (entry a i))")
      (auto simp: write_description_def ref_count_set_description Let_def ok_or_def split: option.splits)
next
  case (AAppendInput i bs)
  then show ?thesis unfolding AAppendInput arena_run.simps fst_map_ok append_input_def
    by (intro try_entry_keeps) (auto simp: ref_count_set_description split: open_description.splits)
next
  case (ACloseInput i)
  then show ?thesis unfolding ACloseInput arena_run.simps fst_map_ok close_input_def
    by (intro try_entry_keeps) (auto simp: ref_count_set_description split: open_description.splits)
next
  case (ADrainCapture i)
  then show ?thesis unfolding ADrainCapture arena_run.simps fst_map_ok drain_capture_def
    by (intro try_entry_keeps) (auto simp: ref_count_set_description slice_def split: open_description.splits)
next
  case (ASetAppend i b)
  then show ?thesis unfolding ASetAppend arena_run.simps fst_map_ok set_append_def
    by (intro try_entry_keeps) (auto simp: ref_count_set_description split: open_description.splits)
next
  case (AAdvanceFile i n)
  then show ?thesis unfolding AAdvanceFile arena_run.simps fst_map_ok advance_file_def
    by (intro try_entry_keeps)
      (auto simp: ref_count_set_description ok_or_def split: open_description.splits option.splits)
next
  case (ASeekFile i n)
  then show ?thesis unfolding ASeekFile arena_run.simps fst_map_ok seek_file_def
    by (intro try_entry_keeps) (auto simp: ref_count_set_description split: open_description.splits)
next
  case (ASetNonblocking i b)
  then show ?thesis unfolding ASetNonblocking arena_run.simps fst_map_ok set_nonblocking_def
    by (intro try_entry_keeps) (auto intro: ref_count_set_entry)
next
  case (ABindInode i n)
  then show ?thesis unfolding ABindInode arena_run.simps fst_map_ok bind_inode_def
    by (intro try_entry_keeps) (auto intro: ref_count_set_entry)
qed (auto simp: allocate_ref_count [OF fresh_description(1) [OF inv]] open_pipe_ref_count [OF inv] lock_file_ref_count
    detach_file_ref_count discard_ref_count open_input_def take_file_lock_changes_def
    intro!: ref_count_cong)

text \<open>The tables of all processes, the arena they share, and how many handles the machine holds on
  each description outside the tables.\<close>

record fd_world =
  tables :: "fd_table list"
  w_arena :: descriptor_arena
  handles :: "description_id \<Rightarrow> nat"

definition held :: "fd_world \<Rightarrow> description_id \<Rightarrow> nat" where
  "held w i = sum_list (map (\<lambda>t. om_count (entries t) i) (tables w)) + handles w i"

definition world_ok :: "fd_world \<Rightarrow> bool" where
  "world_ok w \<longleftrightarrow> arena_inv (w_arena w) \<and> (\<forall>i. ref_count (w_arena w) i = held w i)
     \<and> (\<forall>t\<in>set (tables w). fd_ok t)"

datatype fd_op =
    WInstall nat fd description_id
  | WDuplicate nat fd fd
  | WClose nat fd
  | WSetCloseOnExec nat fd bool
  | WExec nat
  | WCloseAll nat
  | WFork nat
  | WArena arena_op
  | WRetainHandle description_id
  | WReleaseHandle description_id

definition on_table :: "fd_world \<Rightarrow> nat \<Rightarrow> (fd_table \<Rightarrow> descriptor_arena \<Rightarrow> fd_table \<times> descriptor_arena) \<Rightarrow> fd_world" where
  "on_table w k f = (if k < length (tables w)
     then (case f (tables w ! k) (w_arena w) of (t, a) \<Rightarrow> w\<lparr>tables := (tables w)[k := t], w_arena := a\<rparr>)
     else w)"

fun world_run :: "fd_world \<Rightarrow> fd_op \<Rightarrow> fd_world \<times> unit" where
  "world_run w (WInstall k f d) = (on_table w k (\<lambda>t a. fst (install t a f d)), ())"
| "world_run w (WDuplicate k f g) = (on_table w k (\<lambda>t a. fst (duplicate t a f g)), ())"
| "world_run w (WClose k f) = (on_table w k (\<lambda>t a. fst (close_fd t a f)), ())"
| "world_run w (WSetCloseOnExec k f b) = (on_table w k (\<lambda>t a. (fst (set_close_on_exec t f b), a)), ())"
| "world_run w (WExec k) = (on_table w k close_for_exec, ())"
| "world_run w (WCloseAll k) = (on_table w k close_all, ())"
| "world_run w (WFork k) = (if k < length (tables w)
     then case fork_table (tables w ! k) (w_arena w) of
         (a, Ok t) \<Rightarrow> w\<lparr>tables := tables w @ [t], w_arena := a\<rparr>
       | (a, _) \<Rightarrow> w\<lparr>w_arena := a\<rparr>
     else w, ())"
| "world_run w (WArena op) = (if counts_references op then w
     else w\<lparr>w_arena := fst (arena_run (w_arena w) op)\<rparr>, ())"
| "world_run w (WRetainHandle i) = (case retain_handle (w_arena w) i of
       (a, Ok _) \<Rightarrow> w\<lparr>w_arena := a, handles := (handles w)(i := Suc (handles w i))\<rparr>
     | (a, _) \<Rightarrow> w\<lparr>w_arena := a\<rparr>, ())"
| "world_run w (WReleaseHandle i) = (if 0 < handles w i
     then w\<lparr>w_arena := fst (release_handle (w_arena w) i), handles := (handles w)(i := handles w i - 1)\<rparr>
     else w, ())"

definition others :: "fd_world \<Rightarrow> nat \<Rightarrow> description_id \<Rightarrow> nat" where
  "others w k i = held w i - om_count (entries (tables w ! k)) i"

lemma held_split:
  assumes "k < length (tables w)"
  shows "held w i = om_count (entries (tables w ! k)) i + others w k i"
    "held (w\<lparr>tables := (tables w)[k := t], w_arena := a\<rparr>) i = om_count (entries t) i + others w k i"
proof -
  let ?c = "\<lambda>t. om_count (entries t) i"
  have le: "?c (tables w ! k) \<le> sum_list (map ?c (tables w))"
    using elem_le_sum_list [of k "map ?c (tables w)"] assms by simp
  then show "held w i = om_count (entries (tables w ! k)) i + others w k i"
    by (simp add: held_def others_def)
  have "sum_list (map ?c ((tables w)[k := t])) = sum_list (map ?c (tables w)) + ?c t - ?c (tables w ! k)"
    using sum_list_update [of k "map ?c (tables w)" "?c t"] assms by (simp add: map_update)
  then show "held (w\<lparr>tables := (tables w)[k := t], w_arena := a\<rparr>) i = om_count (entries t) i + others w k i"
    using le by (simp add: held_def others_def)
qed

lemma on_table_ok:
  assumes ok: "world_ok w" and f: "\<And>X t a. table_ok X (t, a) \<Longrightarrow> table_ok X (f t a)"
  shows "world_ok (on_table w k f)"
proof (cases "k < length (tables w)")
  case True
  obtain t a where fa: "f (tables w ! k) (w_arena w) = (t, a)" by fastforce
  have "table_ok (others w k) (tables w ! k, w_arena w)"
    using ok True held_split(1) [OF True] by (simp add: world_ok_def table_ok_def refs_with_def)
  from f [OF this] fa have t: "arena_inv a" "\<And>i. ref_count a i = om_count (entries t) i + others w k i" "fd_ok t"
    by (simp_all add: table_ok_def refs_with_def)
  have "on_table w k f = w\<lparr>tables := (tables w)[k := t], w_arena := a\<rparr>"
    using True fa by (simp add: on_table_def)
  then show ?thesis
    using ok t held_split(2) [OF True] set_update_subset_insert [of "tables w" k t]
    by (auto simp: world_ok_def)
qed (simp add: on_table_def ok)

lemma fork_ok:
  assumes ok: "world_ok w"
  shows "world_ok (fst (world_run w (WFork k)))"
proof (cases "k < length (tables w)")
  case True
  have t: "table_ok (others w k) (tables w ! k, w_arena w)"
    using ok True held_split(1) [OF True] by (simp add: world_ok_def table_ok_def refs_with_def)
  show ?thesis
    using fork_table_cases [OF t] True ok nth_mem [OF True]
    by (auto simp: world_ok_def held_def split: prod.splits outcome.splits)
qed (simp add: ok)

lemma handles_ok:
  assumes ok: "world_ok w"
  shows "world_ok (fst (world_run w (WRetainHandle i)))" "world_ok (fst (world_run w (WReleaseHandle i)))"
proof -
  have inv: "arena_inv (w_arena w)" using ok by (simp add: world_ok_def)
  obtain a r where t: "retain_ref (w_arena w) i = (a, r)" by fastforce
  show "world_ok (fst (world_run w (WRetainHandle i)))"
  proof (cases r)
    case (Ok u)
    then have "ref_count a = (ref_count (w_arena w))(i := Suc (ref_count (w_arena w) i))"
      using t retain_counted by blast
    then show ?thesis
      using ok retain_inv [OF inv t] t Ok by (auto simp: world_ok_def held_def retain_handle_def)
  next
    case (Err e)
    then have "a = w_arena w" using t arefs.retain_Err by blast
    then show ?thesis using ok t Err by (simp add: retain_handle_def)
  qed (use t arefs.retain_total [of "w_arena w" i] in simp)
  show "world_ok (fst (world_run w (WReleaseHandle i)))"
  proof (cases "0 < handles w i")
    case True
    then obtain n where n: "ref_count (w_arena w) i = Suc n"
      using ok by (cases "ref_count (w_arena w) i") (auto simp: world_ok_def held_def)
    obtain b where b: "release_ref (w_arena w) i = (b, Ok ())" "ref_count b = (ref_count (w_arena w))(i := n)"
      using release_counted [OF n] by blast
    then show ?thesis
      using ok True release_inv [OF inv b(1)] n by (auto simp: world_ok_def held_def release_handle_def)
  qed (simp add: ok)
qed

lemma world_run_ok:
  assumes ok: "world_ok w"
  shows "world_ok (fst (world_run w op))"
proof (cases op)
  case (WArena aop)
  have inv: "arena_inv (w_arena w)" using ok by (simp add: world_ok_def)
  show ?thesis
    using ok arena_run_sound [OF inv, of aop] arena_run_ref_count [OF inv, of aop] WArena
    by (auto simp: world_ok_def held_def)
qed (use ok handles_ok [OF ok] fork_ok [OF ok] in \<open>simp_all del: world_run.simps(7,9,10)
    add: on_table_ok install_ok duplicate_ok close_fd_ok set_close_on_exec_ok close_for_exec_ok close_all_ok\<close>)

interpretation fdsys: op_system world_run world_ok
  by unfold_locales (rule world_run_ok)

section \<open>Properties\<close>

definition boot_world :: fd_world where
  "boot_world = \<lparr>tables = [new_fd_table], w_arena = new_arena, handles = (\<lambda>_. 0)\<rparr>"

lemma boot_world_ok: "world_ok boot_world"
  by (simp add: world_ok_def boot_world_def new_arena_inv held_def new_fd_table_def fd_ok_def)
    (simp add: ref_count_def new_arena_def)

text \<open>C24. Over any interleaving of descriptor operations of any number of processes, forks and
  execs included, the reference count of every open description is exactly the number of table
  entries and handles that name it. So no table entry ever dangles, and a description lives until its
  last reference is closed.\<close>

theorem descriptor_refcounts_exact:
  "let w = run_ops world_run boot_world ops in
     \<forall>i. ref_count (w_arena w) i = held w i
       \<and> (list_ex (\<lambda>t. list_ex ((=) i) (om_values (entries t))) (tables w) \<longrightarrow> open_in (w_arena w) i)"
proof -
  let ?w = "run_ops world_run boot_world ops"
  have ok: "world_ok ?w" by (rule fdsys.run_ops_inv [OF boot_world_ok])
  have "open_in (w_arena ?w) i" if t: "t \<in> set (tables ?w)" and i: "i \<in> set (om_values (entries t))" for t i
  proof -
    have "0 < om_count (entries t) i" using i by (auto simp: om_set_values intro: om_count_pos)
    also have "\<dots> \<le> sum_list (map (\<lambda>t. om_count (entries t) i) (tables ?w))"
      using t by (intro member_le_sum_list) auto
    finally have "0 < ref_count (w_arena ?w) i" using ok by (simp add: world_ok_def held_def)
    then show ?thesis by (rule arefs.refs_live)
  qed
  then show ?thesis using ok by (auto simp: Let_def world_ok_def list_ex_iff)
qed

text \<open>The instance used below: one process with a pipe between descriptors 0 and 1, the writing end
  marked close-on-exec.\<close>

definition shell_world :: fd_world where
  "shell_world = run_ops world_run boot_world
     [WArena (AOpenPipe 8), WInstall 0 0 1, WInstall 0 1 2, WSetCloseOnExec 0 1 True]"

theorem descriptor_refcounts_exact_witness:
  "open_in (w_arena shell_world) 2 \<and> ref_count (w_arena shell_world) 2 = held shell_world 2"
proof -
  have "list_ex (\<lambda>t. list_ex ((=) 2) (om_values (entries t))) (tables shell_world)"
    by (simp add: shell_world_def boot_world_def on_table_def install_def set_close_on_exec_def
        new_fd_table_def new_arena_def open_pipe_def allocate_def retain_ref_def set_entry_def Let_def
        checked_add_def MAX_PIPES_def MAX_OPEN_DESCRIPTIONS_def DEFAULT_PIPE_CAPACITY_def
        MAX_FDS_PER_PROCESS_def om_size_insert om_lookup_insert fd_get_def list_ex_iff om_set_values)
      (rule exI [of _ 1], simp)
  then show ?thesis
    using descriptor_refcounts_exact [of "[WArena (AOpenPipe 8), WInstall 0 0 1, WInstall 0 1 2,
        WSetCloseOnExec 0 1 True]", folded shell_world_def]
    by (simp add: Let_def)
qed

text \<open>C25. Fork shares every description and is atomic: a successful fork gives the child the same
  table, and when the child then closes everything the arena is exactly as before the fork; a fork
  that fails half way gives back what it had retained and leaves the arena unchanged.\<close>

theorem fork_close_all_roundtrip:
  assumes "table_ok X (t, a)"
  shows "case fork_table t a of
      (a', Ok t') \<Rightarrow> t' = t \<and> close_all t' a' = (new_fd_table, a)
    | (a', Err _) \<Rightarrow> a' = a
    | (_, Panic) \<Rightarrow> False"
proof -
  have "run_ops release_ref a' (om_values (entries t)) = a"
    if "ref_count a' = (\<lambda>i. ref_count a i + om_count (entries t) i)" "without_counts a' = without_counts a" for a'
    using that assms
    by (intro arefs.retain_release_list)
      (auto simp: om_count_def table_ok_def refs_with_def om_set_values om_count_pos [unfolded om_count_def])
  then show ?thesis
    using fork_table_cases [OF assms]
    by (auto simp: close_all_def new_fd_table_def split: prod.splits outcome.splits)
qed

lemma shell_world_ok: "world_ok shell_world"
  unfolding shell_world_def by (rule fdsys.run_ops_inv [OF boot_world_ok])

lemma shell_table_ok: "table_ok (others shell_world 0) (tables shell_world ! 0, w_arena shell_world)"
proof -
  have "0 < length (tables shell_world)" by (simp add: shell_world_def boot_world_def on_table_def split: prod.splits)
  then show ?thesis
    using shell_world_ok held_split(1) [of 0 shell_world] by (simp add: world_ok_def table_ok_def refs_with_def)
qed

theorem fork_close_all_roundtrip_witness:
  "\<exists>t a. table_ok (others shell_world 0) (t, a) \<and> (case fork_table t a of
      (a', Ok t') \<Rightarrow> t' = t \<and> close_all t' a' = (new_fd_table, a)
    | (a', Err _) \<Rightarrow> a' = a
    | (_, Panic) \<Rightarrow> False)"
  by (intro exI [of _ "tables shell_world ! 0"] exI [of _ "w_arena shell_world"] conjI
      fork_close_all_roundtrip [OF shell_table_ok] shell_table_ok)

text \<open>An exec closes exactly the descriptors marked close-on-exec: every other entry of the table
  is unchanged, the marks are gone, and the reference counts stay exact.\<close>

theorem exec_closes_marked:
  assumes "table_ok X (t, a)"
  shows "\<exists>t' a'. close_for_exec t a = (t', a') \<and> table_ok X (t', a')
    \<and> (\<forall>f. fd_get t' f = (if close_on_exec t f = Ok True then Err InvalidFd else fd_get t f))"
proof -
  have marked: "om_contains (close_on_exec_set t) f \<longleftrightarrow> close_on_exec t f = Ok True" for f
    using assms by (cases "om_lookup (entries t) f")
      (auto simp: close_on_exec_def fd_get_def table_ok_def fd_ok_def)
  obtain t' a' where r: "close_for_exec t a = (t', a')" by fastforce
  have "om_lookup (entries t') f = (if close_on_exec t f = Ok True then None else om_lookup (entries t) f)" for f
    using close_for_exec_ok(2) [OF assms, of f] marked [of f] by (cases "om_lookup (close_on_exec_set t) f") (simp_all add: r)
  then show ?thesis using close_for_exec_ok(1) [OF assms] r by (auto simp: fd_get_def)
qed

theorem exec_closes_marked_witness:
  "\<exists>t a t' a'. table_ok (others shell_world 0) (t, a) \<and> close_for_exec t a = (t', a')
    \<and> table_ok (others shell_world 0) (t', a')"
  using exec_closes_marked [OF shell_table_ok] shell_table_ok by blast

end
