(* ===== verification/Paths.thy ===== *)
theory Paths
  imports Ordered_Map "HOL-Library.List_Lexorder" "HOL-Library.Char_ord"
begin

text \<open>
  The lexical path functions of \<open>src/src/vfs.rs\<close>. A path is a \<open>string\<close>, the list of its UTF-8 bytes;
  \<open>split_slash\<close>, \<open>join_slash\<close> and \<open>rfind_slash\<close> are \<open>str::split('/')\<close>, \<open>join("/")\<close> and
  \<open>rfind('/')\<close>.

  \<open>render\<close> writes a list of components as a path. Every path that \<open>normalize\<close> returns is the
  rendering of clean components, and on renderings the string functions are list functions:
  \<open>parent_of\<close> drops the last component, \<open>basename\<close> returns it, \<open>child_path\<close> appends one.
\<close>

section \<open>String operations\<close>

abbreviation slash :: char where
  "slash \<equiv> CHR ''/''"

fun split_slash :: "string \<Rightarrow> string list" where
  "split_slash [] = [[]]"
| "split_slash (c # cs) = (if c = slash then [] # split_slash cs
     else case split_slash cs of [] \<Rightarrow> [[c]] | w # ws \<Rightarrow> (c # w) # ws)"

fun join_slash :: "string list \<Rightarrow> string" where
  "join_slash [] = []"
| "join_slash [w] = w"
| "join_slash (w # ws) = w @ slash # join_slash ws"

fun rfind_slash :: "string \<Rightarrow> nat option" where
  "rfind_slash [] = None"
| "rfind_slash (c # cs) = (case rfind_slash cs of
       Some i \<Rightarrow> Some (Suc i)
     | None \<Rightarrow> if c = slash then Some 0 else None)"

section \<open>The path functions\<close>

fun push_component :: "string list \<Rightarrow> string \<Rightarrow> string list" where
  "push_component out component =
     (if component = '''' \<or> component = ''.'' then out
      else if component = ''..'' then butlast out
      else out @ [component])"

definition normalize_path :: "string \<Rightarrow> string" where
  "normalize_path path =
     (let out = foldl push_component [] (split_slash path)
      in if out = [] then ''/'' else ''/'' @ join_slash out)"

definition PATH_MAX :: nat where "PATH_MAX = 4096"
definition NAME_MAX :: nat where "NAME_MAX = 255"

datatype vfs_error =
    NotFound string
  | NotADir string
  | IsADir string
  | NotEmpty string
  | Exists string
  | Loop string
  | Invalid string
  | NameTooLong string
  | NoSpace
  | TooLarge string nat
  | ReadOnly string

fun reason :: "vfs_error \<Rightarrow> string" where
  "reason (NotFound _) = ''No such file or directory''"
| "reason (NotADir _) = ''Not a directory''"
| "reason (IsADir _) = ''Is a directory''"
| "reason (NotEmpty _) = ''Directory not empty''"
| "reason (Exists _) = ''File exists''"
| "reason (Loop _) = ''Too many levels of symbolic links''"
| "reason (Invalid _) = ''Invalid argument''"
| "reason (NameTooLong _) = ''File name too long''"
| "reason NoSpace = ''No space left on device''"
| "reason (TooLarge _ _) = ''File too large''"
| "reason (ReadOnly _) = ''Read-only filesystem''"

definition check_path_limits :: "string \<Rightarrow> (vfs_error, unit) outcome" where
  "check_path_limits path =
     (if PATH_MAX \<le> length path \<or> list_ex (\<lambda>component. NAME_MAX < length component) (split_slash path)
      then Err (NameTooLong path) else Ok ())"

definition reject_pseudo_mutation :: "string \<Rightarrow> (vfs_error, unit) outcome" where
  "reject_pseudo_mutation path =
     (if list_ex (\<lambda>root. path = root \<or> starts_with path (root @ ''/'')) [''/proc'', ''/dev'']
      then Err (ReadOnly path) else Ok ())"

definition resolve_against :: "string \<Rightarrow> string \<Rightarrow> string" where
  "resolve_against cwd path =
     (if starts_with path ''/'' then normalize_path path else normalize_path (cwd @ ''/'' @ path))"

definition parent_of :: "string \<Rightarrow> string option" where
  "parent_of path =
     (if path = ''/'' then None
      else case rfind_slash path of
        Some i \<Rightarrow> if i = 0 then Some ''/'' else Some (take i path)
      | None \<Rightarrow> None)"

definition basename :: "string \<Rightarrow> string" where
  "basename path =
     (if path = ''/'' then ''/''
      else case rfind_slash path of
        Some i \<Rightarrow> drop (Suc i) path
      | None \<Rightarrow> path)"

definition child_path :: "string \<Rightarrow> string \<Rightarrow> string" where
  \<comment> \<open>\<open>if dir == "/" { format!("/{name}") } else { format!("{dir}/{name}") }\<close>\<close>
  "child_path dir name = (if dir = ''/'' then ''/'' @ name else dir @ ''/'' @ name)"

section \<open>Components\<close>

definition clean :: "string \<Rightarrow> bool" where
  "clean component \<longleftrightarrow> component \<noteq> '''' \<and> component \<noteq> ''.'' \<and> component \<noteq> ''..'' \<and> slash \<notin> set component"

definition render :: "string list \<Rightarrow> string" where
  "render cs = (if cs = [] then ''/'' else concat (map (\<lambda>c. slash # c) cs))"

definition clean_path :: "string \<Rightarrow> bool" where
  "clean_path p \<longleftrightarrow> (\<exists>cs. list_all clean cs \<and> p = render cs)"

lemma render_root [simp]: "render [] = ''/''"
  by (simp add: render_def)

lemma split_slash_nonempty [simp]: "split_slash s \<noteq> []"
  by (induction s) (auto split: list.splits)

lemma split_slash_free: "w \<in> set (split_slash s) \<Longrightarrow> slash \<notin> set w"
  by (induction s arbitrary: w) (auto split: list.splits if_splits)

lemma split_slash_append: "slash \<notin> set w \<Longrightarrow> split_slash (w @ slash # s) = w # split_slash s"
  by (induction w) auto

lemma split_slash_word: "slash \<notin> set w \<Longrightarrow> split_slash w = [w]"
  by (induction w) auto

lemma split_join: "ws \<noteq> [] \<Longrightarrow> list_all (\<lambda>w. slash \<notin> set w) ws \<Longrightarrow> split_slash (join_slash ws) = ws"
  by (induction ws rule: join_slash.induct) (simp_all add: split_slash_append split_slash_word)

lemma render_join: "cs \<noteq> [] \<Longrightarrow> render cs = slash # join_slash cs"
  by (induction cs rule: join_slash.induct) (simp_all add: render_def)

lemma render_snoc: "render (cs @ [c]) = (if cs = [] then slash # c else render cs @ slash # c)"
  by (simp add: render_def)

lemma normalize_render: "normalize_path path = render (foldl push_component [] (split_slash path))"
  by (simp add: normalize_path_def Let_def render_join)

lemma fold_components_clean:
  "list_all (\<lambda>w. slash \<notin> set w) ws \<Longrightarrow> list_all clean out \<Longrightarrow> list_all clean (foldl push_component out ws)"
proof (induction ws arbitrary: out)
  case (Cons w ws)
  have "list_all clean (butlast out)" using Cons.prems(2) by (auto simp: list_all_iff dest: in_set_butlastD)
  then have "list_all clean (push_component out w)" using Cons.prems by (auto simp: clean_def [of w])
  then show ?case using Cons by simp
qed simp

lemma normalize_clean: "clean_path (normalize_path path)"
  unfolding clean_path_def normalize_render
  using fold_components_clean [of "split_slash path" "[]"] split_slash_free by (auto simp: list_all_iff)

lemma fold_clean_components: "list_all clean cs \<Longrightarrow> foldl push_component out cs = out @ cs"
  by (induction cs arbitrary: out) (auto simp: clean_def)

lemma split_render: "list_all clean cs \<Longrightarrow> cs \<noteq> [] \<Longrightarrow> split_slash (render cs) = [] # cs"
  by (simp add: render_join split_join list_all_iff clean_def)

lemma normalize_of_render: "list_all clean cs \<Longrightarrow> normalize_path (render cs) = render cs"
  by (cases "cs = []") (simp add: normalize_path_def, simp add: normalize_render split_render fold_clean_components)

lemma render_inj:
  assumes "list_all clean cs" "list_all clean ds" "render cs = render ds"
  shows "cs = ds"
proof -
  have root: "ds = []" if "list_all clean ds" "render ds = ''/''" for ds
    using that by (cases ds) (auto simp: render_def clean_def)
  show ?thesis
  proof (cases "cs = [] \<or> ds = []")
    case True
    then have "render cs = ''/''" "render ds = ''/''" using assms(3) by auto
    then show ?thesis using root assms(1,2) by blast
  next
    case False
    then have "[] # cs = split_slash (render cs)" "[] # ds = split_slash (render ds)"
      using split_render assms(1,2) by metis+
    then show ?thesis unfolding assms(3) by (metis list.inject)
  qed
qed

lemma rfind_slash_append: "slash \<notin> set w \<Longrightarrow> rfind_slash (s @ slash # w) = Some (length s)"
proof -
  assume w: "slash \<notin> set w"
  then have "rfind_slash w = None" by (induction w) auto
  then show ?thesis by (induction s) auto
qed

text \<open>On renderings, parents and names are those of the component list.\<close>

lemma render_eq_root: "list_all clean cs \<Longrightarrow> render cs = ''/'' \<longleftrightarrow> cs = []"
  by (cases cs) (auto simp: render_def clean_def)

lemma render_last:
  assumes "list_all clean (cs @ [c])"
  shows "render (cs @ [c]) \<noteq> ''/''" "parent_of (render (cs @ [c])) = Some (render cs)"
    "basename (render (cs @ [c])) = c" "child_path (render cs) c = render (cs @ [c])"
proof -
  have c: "slash \<notin> set c" "c \<noteq> []" using assms by (auto simp: clean_def)
  show ne: "render (cs @ [c]) \<noteq> ''/''" using render_eq_root [OF assms] by simp
  show "parent_of (render (cs @ [c])) = Some (render cs)"
  proof (cases "cs = []")
    case True
    then have "render (cs @ [c]) = [] @ slash # c" by (simp add: render_def)
    then show ?thesis using True ne rfind_slash_append [OF c(1), of "[]"] by (simp only: parent_of_def) simp
  next
    case False
    then have "render cs \<noteq> []" by (simp add: render_join)
    then show ?thesis
      using False ne rfind_slash_append [OF c(1), of "render cs"] by (simp add: parent_of_def render_snoc)
  qed
  obtain s where s: "render (cs @ [c]) = s @ slash # c"
    by (cases "cs = []") (auto simp: render_def)
  show "basename (render (cs @ [c])) = c"
    using ne rfind_slash_append [OF c(1), of s] by (simp add: basename_def s)
  show "child_path (render cs) c = render (cs @ [c])"
    using render_eq_root [of cs] assms by (simp add: child_path_def render_snoc)
qed

lemma clean_path_cases:
  assumes "clean_path p"
  obtains (root) "p = ''/''" | (child) cs c where "list_all clean (cs @ [c])" "p = render (cs @ [c])"
proof -
  obtain cs where cs: "list_all clean cs" "p = render cs" using assms by (auto simp: clean_path_def)
  then show thesis using root child by (cases cs rule: rev_cases) auto
qed

section \<open>Properties\<close>

text \<open>Normalization yields a canonical form: an absolute path of components that are neither
  empty nor \<open>.\<close> nor \<open>..\<close> and contain no slash, which normalization leaves unchanged, so that two
  spellings of a path give the same key.\<close>

theorem normalize_canonical:
  "(\<exists>cs. list_all clean cs \<and> normalize_path path = render cs) \<and> normalize_path (normalize_path path) = normalize_path path
    \<and> clean_path (resolve_against cwd path)"
proof -
  obtain cs where "list_all clean cs" "normalize_path path = render cs"
    using normalize_clean [of path] by (auto simp: clean_path_def)
  moreover have "clean_path (resolve_against cwd path)"
    using normalize_clean by (simp add: resolve_against_def)
  ultimately show ?thesis using normalize_of_render by auto
qed

text \<open>Splitting a canonical path into its parent and its name loses nothing: every canonical path
  but the root has a canonical parent, and joining the parent with the name gives the path back.\<close>

theorem parent_basename_roundtrip:
  assumes "clean_path p" "p \<noteq> ''/''"
  shows "\<exists>d. parent_of p = Some d \<and> clean_path d \<and> clean (basename p) \<and> child_path d (basename p) = p"
  using assms(1)
proof (cases rule: clean_path_cases)
  case (child cs c)
  then show ?thesis
    using render_last [OF child(1)] by (auto simp: clean_path_def)
qed (use assms(2) in simp)

theorem parent_basename_roundtrip_witness:
  "\<exists>d. parent_of ''/usr/bin'' = Some d \<and> child_path d (basename ''/usr/bin'') = ''/usr/bin''"
proof -
  have "normalize_path ''/usr/./lib/..//bin'' = ''/usr/bin''"
    by (simp add: normalize_path_def Let_def)
  then have "clean_path ''/usr/bin''" using normalize_clean [of "''/usr/./lib/..//bin''"] by simp
  from parent_basename_roundtrip [OF this] show ?thesis by auto
qed

end
