(* ===== verification/Vfs.thy ===== *)
theory Vfs
  imports Paths
begin

unbundle bit_operations_syntax

text \<open>
  The in-memory file system of \<open>src/src/vfs.rs\<close>: an immutable installed tree under a private overlay
  with tombstones, unlinked files kept for open descriptions, inode allocation and the disk quota.
  A file system is a value: sharing of buffers between nodes is not visible, so the copy-on-write
  cost estimates are not modelled. \<open>read\<close> counts bytes in a \<open>Cell\<close>, so it returns a new state. What
  the source marks \<open>expect\<close>, \<open>unwrap\<close> or \<open>unreachable!\<close> is a \<open>Panic\<close>.
\<close>

section \<open>Nodes\<close>

datatype native_program =
    NpTrue | NpFalse | NpPwd | NpYes | NpCat | NpTee | NpHead | NpXargs | NpFind | NpEnv
  | NpSleep | NpUsleep | NpTimeout | NpNohup | NpNice | NpMake
  | NpRegistered string
  | NpLegacyRegistered string

definition builtin_programs :: "(string \<times> native_program) list" where
  "builtin_programs = [(''true'', NpTrue), (''false'', NpFalse), (''pwd'', NpPwd), (''yes'', NpYes),
     (''cat'', NpCat), (''tee'', NpTee), (''head'', NpHead), (''xargs'', NpXargs), (''find'', NpFind),
     (''env'', NpEnv), (''sleep'', NpSleep), (''usleep'', NpUsleep), (''timeout'', NpTimeout),
     (''nohup'', NpNohup), (''nice'', NpNice), (''make'', NpMake)]"

definition native_from_name :: "string \<Rightarrow> native_program option" where
  "native_from_name name = map_of builtin_programs name"

fun native_name :: "native_program \<Rightarrow> string" where
  "native_name (NpRegistered path) = last (split_slash path)"
| "native_name (NpLegacyRegistered name) = name"
| "native_name NpTrue = ''true''"
| "native_name NpFalse = ''false''"
| "native_name NpPwd = ''pwd''"
| "native_name NpYes = ''yes''"
| "native_name NpCat = ''cat''"
| "native_name NpTee = ''tee''"
| "native_name NpHead = ''head''"
| "native_name NpXargs = ''xargs''"
| "native_name NpFind = ''find''"
| "native_name NpEnv = ''env''"
| "native_name NpSleep = ''sleep''"
| "native_name NpUsleep = ''usleep''"
| "native_name NpTimeout = ''timeout''"
| "native_name NpNohup = ''nohup''"
| "native_name NpNice = ''nice''"
| "native_name NpMake = ''make''"

datatype node_kind = NFile bytes | NDir | NSymlink string | NNative native_program

record node =
  inode :: u64
  kind :: node_kind
  mode :: u32
  uid :: u32
  gid :: u32
  mtime :: u64

definition dir_node :: "u64 \<Rightarrow> u32 \<Rightarrow> u64 \<Rightarrow> node" where
  "dir_node i m t = \<lparr>inode = i, kind = NDir, mode = m, uid = 0, gid = 0, mtime = t\<rparr>"

definition file_node :: "u64 \<Rightarrow> bytes \<Rightarrow> u32 \<Rightarrow> u64 \<Rightarrow> node" where
  "file_node i data m t = \<lparr>inode = i, kind = NFile data, mode = m, uid = 0, gid = 0, mtime = t\<rparr>"

fun is_file_kind :: "node_kind \<Rightarrow> bool" where
  "is_file_kind (NFile _) = True"
| "is_file_kind _ = False"

fun is_symlink_kind :: "node_kind \<Rightarrow> bool" where
  "is_symlink_kind (NSymlink _) = True"
| "is_symlink_kind _ = False"

definition NODE_OVERHEAD :: u64 where
  "NODE_OVERHEAD = 256"

fun payload_len :: "node_kind \<Rightarrow> u64" where
  "payload_len (NFile data) = len64 data"
| "payload_len (NSymlink target) = len64 target"
| "payload_len NDir = 0"
| "payload_len (NNative _) = 0"

definition node_payload_len :: "node \<Rightarrow> u64" where
  "node_payload_len n = payload_len (kind n)"

definition logical_usage :: "(string \<times> node) list \<Rightarrow> u64" where
  "logical_usage nodes = foldl (\<lambda>total (_, n). saturating_add (saturating_add total NODE_OVERHEAD)
       (payload_len (kind n))) 0 (filter (\<lambda>(path, _). path \<noteq> ''/'') nodes)"

text \<open>Growing a \<open>Vec\<close> past \<open>isize::MAX\<close> bytes panics with a capacity overflow.\<close>

definition MAX_VEC :: nat where
  "MAX_VEC = 2 ^ 63 - 1"

definition vec_overflow :: "nat \<Rightarrow> nat \<Rightarrow> bool" where
  "vec_overflow old_len new_len \<longleftrightarrow> old_len < new_len \<and> MAX_VEC < new_len"

lemma vec_fits [simp]: "new_len \<le> MAX_VEC \<Longrightarrow> \<not> vec_overflow old_len new_len"
  by (simp add: vec_overflow_def)

definition resize_buffer :: "bytes \<Rightarrow> nat \<Rightarrow> bytes" where
  "resize_buffer bs new_len =
     (if new_len = length bs then bs
      else if new_len = 0 then []
      else if new_len < length bs then take new_len bs
      else bs @ replicate (new_len - length bs) 0)"

section \<open>The file system\<close>

type_synonym path_set = "(string, unit) omap"

record frozen_tree =
  ft_nodes :: "(string, node) omap"
  ft_baseline_dirs :: path_set
  ft_baseline_native :: "(string, native_program) omap"
  ft_next_inode :: u64
  ft_disk_used :: u64

datatype overlay_entry = Present node | Deleted

record vfs =
  base :: frozen_tree
  overlay :: "(string, overlay_entry) omap"
  node_count :: nat
  orphaned :: "(u64, node) omap"
  next_orphan :: u64
  next_inode :: u64
  mutation_time_ms :: u64
  disk_limit :: u64
  baseline_dirs :: path_set
  baseline_native :: "(string, native_program) omap"
  disk_used :: u64
  disk_peak :: u64
  read_bytes :: u64

type_synonym 'a vfs_result = "vfs \<times> (vfs_error, 'a) outcome"
type_synonym 'a vfs_query = "(vfs_error, 'a) outcome"

definition raw_get :: "vfs \<Rightarrow> string \<Rightarrow> node option" where
  "raw_get v path = (case om_lookup (overlay v) path of
       Some (Present n) \<Rightarrow> Some n
     | Some Deleted \<Rightarrow> None
     | None \<Rightarrow> om_lookup (ft_nodes (base v)) path)"

definition contains_node :: "vfs \<Rightarrow> string \<Rightarrow> bool" where
  "contains_node v path \<longleftrightarrow> raw_get v path \<noteq> None"

definition node_mut :: "vfs \<Rightarrow> string \<Rightarrow> vfs \<times> node option" where
  "node_mut v path =
     (if \<not> om_contains (overlay v) path
      then (case om_lookup (ft_nodes (base v)) path of
          None \<Rightarrow> (v, None)
        | Some n \<Rightarrow> (v\<lparr>overlay := om_insert path (Present n) (overlay v)\<rparr>, Some n))
      else (v, case om_lookup (overlay v) path of Some (Present n) \<Rightarrow> Some n | _ \<Rightarrow> None))"

definition set_node :: "vfs \<Rightarrow> string \<Rightarrow> node \<Rightarrow> vfs" where
  \<comment> \<open>an assignment through the reference that \<open>node_mut\<close> returned\<close>
  "set_node v path n = v\<lparr>overlay := om_insert path (Present n) (overlay v)\<rparr>"

definition insert_node :: "vfs \<Rightarrow> string \<Rightarrow> node \<Rightarrow> vfs" where
  "insert_node v path n =
     (let v' = (if \<not> contains_node v path then v\<lparr>node_count := node_count v + 1\<rparr> else v)
      in v'\<lparr>overlay := om_insert path (Present n) (overlay v')\<rparr>)"

definition remove_node :: "vfs \<Rightarrow> string \<Rightarrow> vfs \<times> node option" where
  "remove_node v path = (case raw_get v path of
       None \<Rightarrow> (v, None)
     | Some n \<Rightarrow>
         let v' = v\<lparr>node_count := node_count v - 1\<rparr>
         in (if om_contains (ft_nodes (base v')) path
             then v'\<lparr>overlay := om_insert path Deleted (overlay v')\<rparr>
             else v'\<lparr>overlay := om_remove path (overlay v')\<rparr>, Some n))"

fun merge_paths :: "(string \<times> node) list \<Rightarrow> (string \<times> overlay_entry) list \<Rightarrow> (string \<times> node) list" where
  "merge_paths bs [] = bs"
| "merge_paths [] ((path, Present n) # os) = (path, n) # merge_paths [] os"
| "merge_paths [] ((path, Deleted) # os) = merge_paths [] os"
| "merge_paths ((bp, bn) # bs) ((path, e) # os) =
     (if bp < path then (bp, bn) # merge_paths bs ((path, e) # os)
      else
        let bs' = (if bp = path then bs else (bp, bn) # bs)
        in case e of
             Present n \<Rightarrow> (path, n) # merge_paths bs' os
           | Deleted \<Rightarrow> merge_paths bs' os)"

definition all_paths :: "vfs \<Rightarrow> (string \<times> node) list" where
  "all_paths v = merge_paths (om_entries (ft_nodes (base v))) (om_entries (overlay v))"

definition vfs_len :: "vfs \<Rightarrow> nat" where
  "vfs_len v = node_count v"

definition vfs_is_empty :: "vfs \<Rightarrow> bool" where
  "vfs_is_empty v \<longleftrightarrow> node_count v \<le> 1"

definition with_disk_limit :: "u64 \<Rightarrow> vfs" where
  "with_disk_limit limit =
     (let nodes = om_insert ''/'' (dir_node 1 493 0) om_empty;
          used = logical_usage (om_entries nodes)
      in \<lparr>base = \<lparr>ft_nodes = nodes, ft_baseline_dirs = om_empty, ft_baseline_native = om_empty,
                  ft_next_inode = 2, ft_disk_used = used\<rparr>,
          overlay = om_empty, node_count = 1, orphaned = om_empty, next_orphan = 1, next_inode = 2,
          mutation_time_ms = 0, disk_limit = limit, baseline_dirs = om_empty,
          baseline_native = om_empty, disk_used = used, disk_peak = used, read_bytes = 0\<rparr>)"

definition new_vfs :: vfs where
  "new_vfs = with_disk_limit u64_max"

section \<open>Inodes and the quota\<close>

definition check_inode_capacity :: "vfs \<Rightarrow> nat \<Rightarrow> unit vfs_query" where
  "check_inode_capacity v count =
     bind_oc (ok_or (checked_add (next_inode v) (of_nat count)) NoSpace) (\<lambda>_. Ok ())"

definition allocate_inode :: "vfs \<Rightarrow> u64 vfs_result" where
  "allocate_inode v = try_in v (check_inode_capacity v 1)
     (\<lambda>_. (v\<lparr>next_inode := next_inode v + 1\<rparr>, Ok (next_inode v)))"

definition set_mutation_time :: "vfs \<Rightarrow> u64 \<Rightarrow> vfs" where
  "set_mutation_time v t = v\<lparr>mutation_time_ms := t\<rparr>"

definition usage_after_adding :: "vfs \<Rightarrow> u64 \<Rightarrow> u64 vfs_query" where
  "usage_after_adding v added =
     (let used = saturating_add (disk_used v) added
      in if disk_limit v < used then Err NoSpace else Ok used)"

definition usage_after_delta :: "vfs \<Rightarrow> int \<Rightarrow> u64 vfs_query" where
  "usage_after_delta v delta =
     (let used = max (uint (disk_used v) + delta) 0;
          used = (if used < 2 ^ 64 then word_of_int used else u64_max)
      in if disk_limit v < used then Err NoSpace else Ok used)"

definition node_usage :: "vfs \<Rightarrow> string \<Rightarrow> node \<Rightarrow> u64" where
  "node_usage v path n =
     (if om_contains (baseline_dirs v) path \<and> kind n = NDir then 0
      else if (case kind n of NNative program \<Rightarrow> om_lookup (baseline_native v) path = Some program | _ \<Rightarrow> False)
        then 0
      else saturating_add NODE_OVERHEAD (node_payload_len n))"

definition projected_usage_after_replacement :: "vfs \<Rightarrow> string \<Rightarrow> u64 \<Rightarrow> u64 vfs_query" where
  "projected_usage_after_replacement v path replacement_usage =
     (let previous = (case raw_get v path of None \<Rightarrow> 0 | Some n \<Rightarrow> node_usage v path n);
          used = saturating_add (saturating_sub (disk_used v) previous) replacement_usage
      in if disk_limit v < used then Err NoSpace else Ok used)"

definition record_usage :: "vfs \<Rightarrow> u64 \<Rightarrow> vfs" where
  "record_usage v used = v\<lparr>disk_used := used, disk_peak := max (disk_peak v) used\<rparr>"

definition orphan_usage :: "vfs \<Rightarrow> u64" where
  "orphan_usage v = foldl (\<lambda>total n. saturating_add total (saturating_add NODE_OVERHEAD (node_payload_len n)))
     0 (om_values (orphaned v))"

definition measured_usage :: "vfs \<Rightarrow> u64" where
  "measured_usage v =
     (let present_baseline_dirs = of_nat (length (filter (\<lambda>path. case raw_get v path of
              Some n \<Rightarrow> kind n = NDir | None \<Rightarrow> False) (om_keys (baseline_dirs v))));
          present_baseline_native = of_nat (length (filter (\<lambda>(path, program). case raw_get v path of
              Some n \<Rightarrow> kind n = NNative program | None \<Rightarrow> False) (om_entries (baseline_native v))))
      in saturating_add
           (saturating_sub (saturating_sub (logical_usage (all_paths v))
              (saturating_mul present_baseline_dirs NODE_OVERHEAD))
              (saturating_mul present_baseline_native NODE_OVERHEAD))
           (orphan_usage v))"

definition refresh_usage :: "vfs \<Rightarrow> vfs" where
  "refresh_usage v = v\<lparr>disk_used := measured_usage v\<rparr>"

fun seed_each :: "vfs \<Rightarrow> string list \<Rightarrow> unit vfs_result" where
  "seed_each v [] = (v, Ok ())"
| "seed_each v (p # ps) =
     (let path = normalize_path p
      in case allocate_inode v of
           (v1, Ok i) \<Rightarrow>
             let v2 = insert_node v1 path (dir_node i 493 (mutation_time_ms v1))
             in seed_each (v2\<lparr>baseline_dirs := om_insert path () (baseline_dirs v2)\<rparr>) ps
         | (v1, _) \<Rightarrow> (v1, Panic))"

definition seed_dirs :: "vfs \<Rightarrow> string list \<Rightarrow> unit vfs_result" where
  "seed_dirs v paths = and_then (seed_each v paths)
     (\<lambda>v1 _. let v2 = refresh_usage v1 in (v2\<lparr>disk_peak := max (disk_peak v2) (disk_used v2)\<rparr>, Ok ()))"

section \<open>Freezing and sharing\<close>

definition om_of_list :: "('k::linorder \<times> 'v) list \<Rightarrow> ('k, 'v) omap" where
  "om_of_list xs = foldl (\<lambda>m (k, v). om_insert k v m) om_empty xs"

definition freeze :: "vfs \<Rightarrow> frozen_tree" where
  "freeze v =
     (let used = saturating_sub (measured_usage v)
            (foldl (\<lambda>total n. saturating_add (saturating_add total NODE_OVERHEAD) (node_payload_len n))
               0 (om_values (orphaned v)))
      in \<lparr>ft_nodes = om_of_list (all_paths v), ft_baseline_dirs = baseline_dirs v,
          ft_baseline_native = baseline_native v, ft_next_inode = next_inode v, ft_disk_used = used\<rparr>)"

definition from_base :: "frozen_tree \<Rightarrow> u64 \<Rightarrow> vfs vfs_query" where
  "from_base t limit =
     (if limit < ft_disk_used t then Err NoSpace
      else Ok \<lparr>base = t, overlay = om_empty, node_count = om_size (ft_nodes t), orphaned = om_empty,
               next_orphan = 1, next_inode = ft_next_inode t, mutation_time_ms = 0,
               disk_limit = limit, baseline_dirs = ft_baseline_dirs t,
               baseline_native = ft_baseline_native t, disk_used = ft_disk_used t,
               disk_peak = ft_disk_used t, read_bytes = 0\<rparr>)"

section \<open>Resolving paths\<close>

text \<open>The recursion of \<open>realpath_inner\<close> ends at depth 41, where it reports a loop.\<close>

function realpath_inner :: "vfs \<Rightarrow> string \<Rightarrow> bool \<Rightarrow> nat \<Rightarrow> string vfs_query" where
  "realpath_inner v path follow_final depth =
     (if 40 < depth then Err (Loop path)
      else if path = ''/'' then Ok ''/''
      else
        let parent = (case parent_of path of Some d \<Rightarrow> d | None \<Rightarrow> ''/'')
        in bind_oc (realpath_inner v parent True (depth + 1))
          (\<lambda>real_parent.
             let candidate = child_path real_parent (basename path)
             in case raw_get v candidate of
                  Some n \<Rightarrow> (case kind n of
                      NSymlink target \<Rightarrow>
                        if follow_final
                        then realpath_inner v (resolve_against real_parent target) True (depth + 1)
                        else Ok candidate
                    | _ \<Rightarrow> Ok candidate)
                | None \<Rightarrow> Ok candidate))"
  by pat_completeness auto

termination
  by (relation "measure (\<lambda>(v, path, follow_final, depth). 41 - depth)") auto

declare realpath_inner.simps [simp del]

definition realpath :: "vfs \<Rightarrow> string \<Rightarrow> bool \<Rightarrow> string vfs_query" where
  "realpath v path follow_final = realpath_inner v path follow_final 0"

definition node_kind_at :: "vfs \<Rightarrow> string \<Rightarrow> string \<Rightarrow> bool \<Rightarrow> node_kind option" where
  \<comment> \<open>the node that a lookup reaches, if it reaches one\<close>
  "node_kind_at v cwd path follow = (case realpath v (resolve_against cwd path) follow of
       Ok p \<Rightarrow> map_option kind (raw_get v p)
     | _ \<Rightarrow> None)"

definition path_exists :: "vfs \<Rightarrow> string \<Rightarrow> string \<Rightarrow> bool" where
  "path_exists v cwd path = (case realpath v (resolve_against cwd path) True of
       Ok p \<Rightarrow> contains_node v p | _ \<Rightarrow> False)"

definition lexists :: "vfs \<Rightarrow> string \<Rightarrow> string \<Rightarrow> bool" where
  "lexists v cwd path = (case realpath v (resolve_against cwd path) False of
       Ok p \<Rightarrow> contains_node v p | _ \<Rightarrow> False)"

definition is_dir :: "vfs \<Rightarrow> string \<Rightarrow> string \<Rightarrow> bool" where
  "is_dir v cwd path \<longleftrightarrow> node_kind_at v cwd path True = Some NDir"

definition is_file :: "vfs \<Rightarrow> string \<Rightarrow> string \<Rightarrow> bool" where
  "is_file v cwd path = (case node_kind_at v cwd path True of
       Some (NFile _) \<Rightarrow> True | Some (NNative _) \<Rightarrow> True | _ \<Rightarrow> False)"

definition is_symlink :: "vfs \<Rightarrow> string \<Rightarrow> string \<Rightarrow> bool" where
  "is_symlink v cwd path = (case node_kind_at v cwd path False of Some (NSymlink _) \<Rightarrow> True | _ \<Rightarrow> False)"

definition file_len :: "vfs \<Rightarrow> string \<Rightarrow> string \<Rightarrow> nat vfs_query" where
  "file_len v cwd path = bind_oc (realpath v (resolve_against cwd path) True)
     (\<lambda>real. case map_option kind (raw_get v real) of
        Some (NFile data) \<Rightarrow> Ok (length data)
      | Some (NNative _) \<Rightarrow> Ok 0
      | Some NDir \<Rightarrow> Err (IsADir path)
      | _ \<Rightarrow> Err (NotFound path))"

section \<open>Reading\<close>

definition count_read :: "vfs \<Rightarrow> nat \<Rightarrow> vfs" where
  "count_read v n = v\<lparr>read_bytes := saturating_add (read_bytes v) (of_nat n)\<rparr>"

text \<open>The common shape of the read functions: resolve, follow links, and serve a regular file.\<close>

definition read_regular :: "vfs \<Rightarrow> string \<Rightarrow> string \<Rightarrow> (bytes \<Rightarrow> 'a vfs_result) \<Rightarrow> 'a vfs_result" where
  "read_regular v cwd path serve = try_in v (realpath v (resolve_against cwd path) True)
     (\<lambda>real. case map_option kind (raw_get v real) of
        Some (NFile data) \<Rightarrow> serve data
      | Some NDir \<Rightarrow> (v, Err (IsADir path))
      | Some (NNative _) \<Rightarrow> (v, Err (Invalid (''opaque native executable: '' @ path)))
      | _ \<Rightarrow> (v, Err (NotFound path)))"

definition read_file :: "vfs \<Rightarrow> string \<Rightarrow> string \<Rightarrow> bytes vfs_result" where
  "read_file v cwd path = read_regular v cwd path (\<lambda>data. (count_read v (length data), Ok data))"

definition read_shared_limited :: "vfs \<Rightarrow> string \<Rightarrow> string \<Rightarrow> nat \<Rightarrow> bytes vfs_result" where
  "read_shared_limited v cwd path limit = read_regular v cwd path
     (\<lambda>data. if limit < length data then (v, Err (TooLarge path limit))
            else (count_read v (length data), Ok data))"

definition read_limited :: "vfs \<Rightarrow> string \<Rightarrow> string \<Rightarrow> nat \<Rightarrow> bytes vfs_result" where
  "read_limited v cwd path limit = read_shared_limited v cwd path limit"

definition read_string :: "(bytes \<Rightarrow> string) \<Rightarrow> vfs \<Rightarrow> string \<Rightarrow> string \<Rightarrow> string vfs_result" where
  \<comment> \<open>\<open>lossy\<close> stands for \<open>String::from_utf8_lossy\<close>\<close>
  "read_string lossy v cwd path = map_ok lossy (read_file v cwd path)"

definition read_string_limited :: "(bytes \<Rightarrow> string) \<Rightarrow> vfs \<Rightarrow> string \<Rightarrow> string \<Rightarrow> nat \<Rightarrow> string vfs_result" where
  "read_string_limited lossy v cwd path limit = read_regular v cwd path
     (\<lambda>data. if limit < length data then (v, Err (TooLarge path limit))
            else (count_read v (length data), Ok (lossy data)))"

definition range_of :: "bytes \<Rightarrow> nat \<Rightarrow> nat \<Rightarrow> bytes" where
  "range_of data offset maximum =
     (let start = min offset (length data); stop = min (start + maximum) (length data)
      in take (stop - start) (drop start data))"

definition read_range :: "vfs \<Rightarrow> string \<Rightarrow> string \<Rightarrow> nat \<Rightarrow> nat \<Rightarrow> bytes vfs_result" where
  "read_range v cwd path offset maximum = read_regular v cwd path
     (\<lambda>data. let out = range_of data offset maximum in (count_read v (length out), Ok out))"

definition metadata_ref :: "vfs \<Rightarrow> string \<Rightarrow> string \<Rightarrow> bool \<Rightarrow> node vfs_query" where
  "metadata_ref v cwd path follow = bind_oc (realpath v (resolve_against cwd path) follow)
     (\<lambda>real. ok_or (raw_get v real) (NotFound path))"

definition metadata :: "vfs \<Rightarrow> string \<Rightarrow> string \<Rightarrow> bool \<Rightarrow> node vfs_query" where
  "metadata v cwd path follow = metadata_ref v cwd path follow"

definition dir_prefix :: "string \<Rightarrow> string" where
  "dir_prefix dir = (if dir = ''/'' then ''/'' else dir @ ''/'')"

definition list_dir :: "vfs \<Rightarrow> string \<Rightarrow> string \<Rightarrow> string list vfs_query" where
  "list_dir v cwd path = bind_oc (realpath v (resolve_against cwd path) True)
     (\<lambda>real. case raw_get v real of
        None \<Rightarrow> Err (NotFound path)
      | Some n \<Rightarrow>
          if kind n \<noteq> NDir then Err (NotADir path)
          else
            let prefix = dir_prefix real;
                names = map (drop (length prefix)) (filter (\<lambda>key. starts_with key prefix) (map fst (all_paths v)))
            in Ok (sort (filter (\<lambda>rest. rest \<noteq> '''' \<and> slash \<notin> set rest) names)))"

definition walk :: "vfs \<Rightarrow> string \<Rightarrow> string list" where
  "walk v dir = filter (\<lambda>key. key = dir \<or> starts_with key (dir_prefix dir)) (map fst (all_paths v))"

definition read_link :: "vfs \<Rightarrow> string \<Rightarrow> string \<Rightarrow> string vfs_query" where
  "read_link v cwd path = bind_oc (realpath v (resolve_against cwd path) False)
     (\<lambda>real. case map_option kind (raw_get v real) of
        Some (NSymlink t) \<Rightarrow> Ok t | _ \<Rightarrow> Err (Invalid path))"

definition read_link_prefix :: "vfs \<Rightarrow> string \<Rightarrow> string \<Rightarrow> nat \<Rightarrow> string vfs_query" where
  "read_link_prefix v cwd path maximum = bind_oc (metadata_ref v cwd path False)
     (\<lambda>n. case kind n of
        NSymlink t \<Rightarrow> Ok (take (min (length t) maximum) t) | _ \<Rightarrow> Err (Invalid path))"

section \<open>The visible tree\<close>

text \<open>What a file system shows is the partial map \<open>raw_get v\<close>; the primitives are updates of it,
  whether a node is installed or private.\<close>

named_theorems vfs_view \<open>effect of the primitives on the visible tree\<close>

lemma raw_get_cong: "base v' = base v \<Longrightarrow> overlay v' = overlay v \<Longrightarrow> raw_get v' = raw_get v"
  by (rule ext) (simp add: raw_get_def cong: option.case_cong)

lemma raw_get_same_tree [vfs_view]:
  "raw_get (v\<lparr>node_count := c\<rparr>) = raw_get v" "raw_get (v\<lparr>orphaned := os\<rparr>) = raw_get v"
  "raw_get (v\<lparr>next_orphan := j\<rparr>) = raw_get v" "raw_get (v\<lparr>next_inode := i\<rparr>) = raw_get v"
  "raw_get (v\<lparr>mutation_time_ms := t\<rparr>) = raw_get v" "raw_get (v\<lparr>baseline_dirs := ds\<rparr>) = raw_get v"
  "raw_get (v\<lparr>baseline_native := ns\<rparr>) = raw_get v" "raw_get (v\<lparr>disk_used := u\<rparr>) = raw_get v"
  "raw_get (v\<lparr>disk_peak := u\<rparr>) = raw_get v" "raw_get (v\<lparr>read_bytes := u\<rparr>) = raw_get v"
  by (rule raw_get_cong; simp)+

lemma raw_get_overlay:
  "base v' = base v \<Longrightarrow> overlay v' = om_insert p (Present n) (overlay v) \<Longrightarrow> raw_get v' = (raw_get v)(p \<mapsto> n)"
  "base v' = base v \<Longrightarrow> overlay v' = om_insert p Deleted (overlay v) \<Longrightarrow> raw_get v' = (raw_get v)(p := None)"
  "base v' = base v \<Longrightarrow> overlay v' = om_remove p (overlay v) \<Longrightarrow> om_lookup (ft_nodes (base v)) p = None
     \<Longrightarrow> raw_get v' = (raw_get v)(p := None)"
  by (rule ext; simp add: raw_get_def om_lookup_insert om_lookup_remove cong: option.case_cong)+

lemma raw_get_set_node [vfs_view]: "raw_get (set_node v p n) = (raw_get v)(p \<mapsto> n)"
  by (rule raw_get_overlay(1)) (simp_all add: set_node_def)

lemma raw_get_insert_node [vfs_view]: "raw_get (insert_node v p n) = (raw_get v)(p \<mapsto> n)"
  by (rule raw_get_overlay(1)) (simp_all add: insert_node_def Let_def)

lemma raw_get_remove_node [vfs_view]: "raw_get (fst (remove_node v p)) = (raw_get v)(p := None)"
proof (cases "raw_get v p")
  case None
  then show ?thesis by (simp add: remove_node_def fun_upd_idem)
next
  case (Some n)
  show ?thesis
  proof (cases "om_lookup (ft_nodes (base v)) p")
    case None
    with Some show ?thesis by (intro raw_get_overlay(3)) (simp_all add: remove_node_def Let_def)
  next
    case (Some m)
    with \<open>raw_get v p = Some n\<close> show ?thesis
      by (intro raw_get_overlay(2)) (simp_all add: remove_node_def Let_def)
  qed
qed

lemma snd_remove_node [vfs_view]: "snd (remove_node v p) = raw_get v p"
  by (simp add: remove_node_def Let_def split: option.splits)

lemma raw_get_node_mut [vfs_view]: "raw_get (fst (node_mut v p)) = raw_get v" "snd (node_mut v p) = raw_get v p"
proof -
  show "raw_get (fst (node_mut v p)) = raw_get v"
    by (intro ext) (auto simp: node_mut_def raw_get_def om_lookup_insert split: option.splits)
  show "snd (node_mut v p) = raw_get v p"
    by (auto simp: node_mut_def raw_get_def split: option.splits overlay_entry.splits)
qed

lemma raw_get_bookkeeping [vfs_view]:
  "raw_get (record_usage v u) = raw_get v" "raw_get (refresh_usage v) = raw_get v" "raw_get (count_read v k) = raw_get v"
  "raw_get (fst (allocate_inode v)) = raw_get v"
  by (rule raw_get_cong; cases "check_inode_capacity v 1";
      simp add: record_usage_def refresh_usage_def count_read_def allocate_inode_def)+

text \<open>The merge of installed and private entries that \<open>all_paths\<close> streams is the sorted listing
  of the visible tree.\<close>

lemma merge_paths_cons:
  "merge_paths ((bp, bn) # bs) ((path, e) # os) =
     (if bp < path then (bp, bn) # merge_paths bs ((path, e) # os)
      else (case e of Present n \<Rightarrow> [(path, n)] | Deleted \<Rightarrow> [])
        @ merge_paths (if bp = path then bs else (bp, bn) # bs) os)"
  by (simp add: Let_def split: overlay_entry.splits)

lemma merge_paths_nil: "merge_paths [] ((path, e) # os)
    = (case e of Present n \<Rightarrow> [(path, n)] | Deleted \<Rightarrow> []) @ merge_paths [] os"
  by (cases e) simp_all

lemma merge_paths_induct [case_names installed only_private left same right]:
  assumes "\<And>bs. P bs []" "\<And>path e os. P [] os \<Longrightarrow> P [] ((path, e) # os)"
    "\<And>bp bn bs path e os. bp < path \<Longrightarrow> P bs ((path, e) # os) \<Longrightarrow> P ((bp, bn) # bs) ((path, e) # os)"
    "\<And>bn bs path e os. P bs os \<Longrightarrow> P ((path, bn) # bs) ((path, e) # os)"
    "\<And>bp bn bs path e os. path < bp \<Longrightarrow> P ((bp, bn) # bs) os \<Longrightarrow> P ((bp, bn) # bs) ((path, e) # os)"
  shows "P (bs :: (string \<times> node) list) (os :: (string \<times> overlay_entry) list)"
proof (induction "length bs + length os" arbitrary: bs os rule: less_induct)
  case less
  show ?case
  proof (cases os)
    case (Cons x os')
    obtain path e where x: "x = (path, e)" by (cases x)
    show ?thesis
    proof (cases bs)
      case Nil
      then show ?thesis using less [of "[]" os'] Cons x assms(2) by simp
    next
      case (Cons y bs')
      obtain bp bn where y: "y = (bp, bn)" by (cases y)
      note sub = less [of bs' os] less [of bs' os'] less [of bs os']
      consider "bp < path" | "bp = path" | "path < bp" by (rule linorder_cases)
      then show ?thesis
        by cases (use sub Cons \<open>os = x # os'\<close> x y assms(3-5) in auto)
    qed
  qed (use assms(1) in simp)
qed

lemma merge_paths_keys: "fst ` set (merge_paths bs os) \<subseteq> fst ` set bs \<union> fst ` set os"
  by (induction bs os rule: merge_paths_induct)
    (auto simp: merge_paths_cons merge_paths_nil simp del: merge_paths.simps(4) split: overlay_entry.splits)

lemma merge_paths_sorted:
  assumes "sorted_keys bs" "sorted_keys os"
  shows "sorted_keys (merge_paths bs os)"
  using assms
proof (induction bs os rule: merge_paths_induct)
  case (left bp bn bs path e os)
  have "bp < k" if "k \<in> fst ` set (merge_paths bs ((path, e) # os))" for k
  proof -
    have "k \<in> fst ` set bs \<or> k = path \<or> k \<in> fst ` set os" using that merge_paths_keys by force
    then show ?thesis using left.prems left.hyps less_trans [OF left.hyps] by auto
  qed
  then show ?case using left by (auto simp: merge_paths_cons simp del: merge_paths.simps(4))
next
  case (same bn bs path e os)
  have "path < k" if "k \<in> fst ` set (merge_paths bs os)" for k
    using that subsetD [OF merge_paths_keys that] same.prems by auto
  then show ?case using same
    by (auto simp: merge_paths_cons simp del: merge_paths.simps(4) split: overlay_entry.splits)
next
  case (right bp bn bs path e os)
  have "path < k" if "k \<in> fst ` set (merge_paths ((bp, bn) # bs) os)" for k
  proof -
    have "k = bp \<or> k \<in> fst ` set bs \<or> k \<in> fst ` set os" using that merge_paths_keys by force
    then show ?thesis using right.prems right.hyps less_trans [OF right.hyps] by auto
  qed
  moreover have "\<not> bp < path" "bp \<noteq> path" using right.hyps by auto
  ultimately show ?case using right.IH right.prems
    by (simp add: merge_paths_cons del: merge_paths.simps(4) split: overlay_entry.splits)
next
  case (only_private path e os)
  have "path < k" if "k \<in> fst ` set (merge_paths [] os)" for k
    using that subsetD [OF merge_paths_keys that] only_private.prems by auto
  then show ?case using only_private by (auto simp: merge_paths_nil split: overlay_entry.splits)
qed simp

lemma merge_paths_lookup:
  assumes "sorted_keys bs" "sorted_keys os"
  shows "map_of (merge_paths bs os) p = (case map_of os p of
       Some (Present n) \<Rightarrow> Some n | Some Deleted \<Rightarrow> None | None \<Rightarrow> map_of bs p)"
  using assms
proof (induction bs os rule: merge_paths_induct)
  case (left bp bn bs path e os)
  have "map_of os bp = None" using left.prems left.hyps by (force simp: map_of_eq_None_iff)
  then show ?case using left
    by (auto simp: merge_paths_cons simp del: merge_paths.simps(4) cong: option.case_cong)
next
  case (same bn bs path e os)
  have "map_of os path = None" "map_of bs path = None" using same.prems by (force simp: map_of_eq_None_iff)+
  then show ?case using same
    by (auto simp: merge_paths_cons simp del: merge_paths.simps(4) split: overlay_entry.splits cong: option.case_cong)
next
  case (right bp bn bs path e os)
  have "map_of os path = None" "map_of ((bp, bn) # bs) path = None"
    using right.prems right.hyps by (force simp: map_of_eq_None_iff)+
  then show ?case using right
    by (auto simp: merge_paths_cons simp del: merge_paths.simps(4) split: overlay_entry.splits cong: option.case_cong)
next
  case (only_private path e os)
  have "map_of os path = None" using only_private.prems by (force simp: map_of_eq_None_iff)
  then show ?case using only_private by (auto simp: merge_paths_nil split: overlay_entry.splits cong: option.case_cong)
qed simp

lemma om_entries_sorted: "sorted_keys (om_entries m)"
  using om_sorted [of m] by (simp add: om_keys_def)

lemma map_of_om_entries: "map_of (om_entries m) = om_lookup m"
  by (rule ext) (simp add: om_lookup.rep_eq)

lemma all_paths_sorted: "sorted_keys (all_paths v)"
  by (simp add: all_paths_def merge_paths_sorted om_entries_sorted)

lemma map_of_all_paths: "map_of (all_paths v) = raw_get v"
  by (rule ext) (simp add: all_paths_def merge_paths_lookup om_entries_sorted map_of_om_entries raw_get_def
      split: option.splits)

lemma in_all_paths: "(p, n) \<in> set (all_paths v) \<longleftrightarrow> raw_get v p = Some n"
  using sorted_keys_set [OF all_paths_sorted, of v] by (simp add: map_of_all_paths)

lemma all_paths_dom: "fst ` set (all_paths v) = dom (raw_get v)"
  by (simp add: map_of_all_paths [symmetric] dom_map_of_conv_image_fst)

lemma finite_tree [simp]: "finite (dom (raw_get v))"
  by (metis all_paths_dom List.finite_set finite_imageI)

lemma length_all_paths: "length (all_paths v) = card (dom (raw_get v))"
  by (metis all_paths_dom distinct_card length_map list.set_map sorted_keys_distinct [OF all_paths_sorted])

lemma walk_set: "k \<in> set (walk v dir) \<longleftrightarrow> raw_get v k \<noteq> None \<and> (k = dir \<or> starts_with k (dir_prefix dir))"
  using all_paths_dom [of v] by (auto simp: walk_def dom_def set_eq_iff)

lemma walk_distinct: "distinct (walk v dir)"
  by (simp add: walk_def sorted_keys_distinct all_paths_sorted)

lemma map_of_om_of_list:
  assumes "distinct (map fst xs)"
  shows "om_lookup (om_of_list xs) = map_of xs"
proof -
  have "om_lookup (foldl (\<lambda>m (k, v). om_insert k v m) m xs) = om_lookup m ++ map_of xs" for m
    using assms
  proof (induction xs arbitrary: m)
    case (Cons x xs)
    obtain k v where x: "x = (k, v)" by (cases x)
    have "map_of xs k = None" using Cons.prems x by (simp add: map_of_eq_None_iff)
    then show ?case
      using Cons x by (auto simp: fun_eq_iff map_add_def om_lookup_insert split: option.splits)
  qed simp
  from this [of om_empty] show ?thesis by (simp add: om_of_list_def fun_eq_iff map_add_def split: option.splits)
qed

section \<open>Resolved paths\<close>

text \<open>A path is free of links when no node on the way to it, nor the node itself, is a symbolic link.\<close>

definition links_free :: "vfs \<Rightarrow> string list \<Rightarrow> bool" where
  "links_free v cs \<longleftrightarrow> list_all (\<lambda>i. \<not> (case raw_get v (render (take i cs)) of
       Some n \<Rightarrow> is_symlink_kind (kind n) | None \<Rightarrow> False)) [1..<Suc (length cs)]"

lemma links_free_snoc:
  "links_free v (cs @ [c]) \<longleftrightarrow> links_free v cs \<and> \<not> (case raw_get v (render (cs @ [c])) of
       Some n \<Rightarrow> is_symlink_kind (kind n) | None \<Rightarrow> False)"
  by (auto simp: links_free_def list_all_iff)

lemma links_free_Nil [simp]: "links_free v []"
  by (simp add: links_free_def)

lemma realpath_step:
  assumes "list_all clean (cs @ [c])"
  shows "realpath_inner v (render (cs @ [c])) follow depth =
     (if 40 < depth then Err (Loop (render (cs @ [c])))
      else bind_oc (realpath_inner v (render cs) True (depth + 1))
        (\<lambda>rp. case raw_get v (child_path rp c) of
           Some n \<Rightarrow> (case kind n of
               NSymlink target \<Rightarrow> if follow then realpath_inner v (resolve_against rp target) True (depth + 1)
                 else Ok (child_path rp c)
             | _ \<Rightarrow> Ok (child_path rp c))
         | None \<Rightarrow> Ok (child_path rp c)))"
  by (subst realpath_inner.simps) (simp add: render_last [OF assms] Let_def)

lemma realpath_root: "realpath_inner v ''/'' follow depth = (if 40 < depth then Err (Loop ''/'') else Ok ''/'')"
  by (subst realpath_inner.simps) simp

definition resolved :: "vfs \<Rightarrow> bool \<Rightarrow> string \<Rightarrow> bool" where
  "resolved v follow r \<longleftrightarrow> (\<exists>cs. list_all clean cs \<and> r = render cs \<and> links_free v (if follow then cs else butlast cs))"

lemma realpath_inner_resolved:
  assumes "clean_path p" "realpath_inner v p follow depth = Ok r"
  shows "resolved v follow r"
  using assms
proof (induction v p follow depth arbitrary: r rule: realpath_inner.induct)
  case (1 v p follow depth)
  note lim = realpath_inner.simps [of v p follow depth]
  have depth: "\<not> 40 < depth" using 1(4) lim by (auto split: if_splits)
  from 1(3) show ?case
  proof (cases rule: clean_path_cases)
    case root
    then show ?thesis using 1(4) depth by (auto simp: realpath_root resolved_def intro!: exI [of _ "[]"])
  next
    case (child cs c)
    note r = render_last [OF child(1)]
    have par: "(case parent_of p of Some d \<Rightarrow> d | None \<Rightarrow> ''/'') = render cs" and p: "p \<noteq> ''/''"
      using r child(2) by auto
    obtain rp where rp: "realpath_inner v (render cs) True (depth + 1) = Ok rp"
      and rest: "(case raw_get v (child_path rp c) of
           Some n \<Rightarrow> (case kind n of
               NSymlink target \<Rightarrow> if follow then realpath_inner v (resolve_against rp target) True (depth + 1)
                 else Ok (child_path rp c)
             | _ \<Rightarrow> Ok (child_path rp c))
         | None \<Rightarrow> Ok (child_path rp c)) = Ok r"
      using 1(4) depth unfolding child(2) realpath_step [OF child(1)] by (auto simp: bind_oc_Ok)
    have "resolved v True rp"
      using 1(1) [OF depth p refl] rp par child(1) by (auto simp: clean_path_def)
    then obtain es where es: "list_all clean es" "rp = render es" "links_free v es"
      by (auto simp: resolved_def)
    have cand: "child_path rp c = render (es @ [c])" "list_all clean (es @ [c])"
      using es child(1) render_last [of es c] by auto
    show ?thesis
    proof (cases "\<exists>n target. raw_get v (child_path rp c) = Some n \<and> kind n = NSymlink target \<and> follow")
      case True
      then obtain n target where n: "raw_get v (child_path rp c) = Some n" "kind n = NSymlink target" "follow" by auto
      have "resolved v True r"
        using 1(2) [OF depth p refl, of "child_path rp c" rp n target] n rest child(2) r normalize_clean
        by (auto simp: resolve_against_def)
      then show ?thesis using n(3) by simp
    next
      case False
      then have "r = render (es @ [c])" using rest cand(1) by (auto split: option.splits node_kind.splits)
      moreover have "links_free v (if follow then es @ [c] else es)"
        using False es(3) cand(1) by (auto simp: links_free_snoc split: option.splits elim: is_symlink_kind.elims)
      ultimately show ?thesis using cand(2) unfolding resolved_def
        by (intro exI [of _ "es @ [c]"]) auto
    qed
  qed
qed

lemma realpath_inner_plain:
  assumes "list_all clean cs" "links_free v cs"
  shows "realpath_inner v (render cs) follow depth =
    (if length cs + depth \<le> 40 then Ok (render cs) else Err (Loop (render (take (length cs + depth - 41) cs))))"
  using assms
proof (induction cs arbitrary: follow depth rule: rev_induct)
  case (snoc c cs)
  have plain: "\<not> (case raw_get v (render (cs @ [c])) of Some n \<Rightarrow> is_symlink_kind (kind n) | None \<Rightarrow> False)"
    and free: "links_free v cs" using snoc.prems(2) by (auto simp: links_free_snoc)
  have step: "realpath_inner v (render cs) True (Suc depth) =
      (if length cs + depth < 40 then Ok (render cs) else Err (Loop (render (take (length cs + depth - 40) cs))))"
    using snoc.IH [of True "Suc depth"] snoc.prems(1) free by auto
  show ?case
    using plain render_last(4) [OF snoc.prems(1)]
    by (auto simp: realpath_step [OF snoc.prems(1)] step split: option.splits node_kind.splits)
qed (simp add: realpath_root)

text \<open>Resolution only reads the links, and a smaller starting depth resolves at least as much.\<close>

definition link_at :: "vfs \<Rightarrow> string \<Rightarrow> string option" where
  "link_at v p = (case raw_get v p of
       Some n \<Rightarrow> (case kind n of NSymlink target \<Rightarrow> Some target | _ \<Rightarrow> None)
     | None \<Rightarrow> None)"

lemma realpath_link_at:
  "realpath_inner v path follow depth =
     (if 40 < depth then Err (Loop path)
      else if path = ''/'' then Ok ''/''
      else bind_oc (realpath_inner v (case parent_of path of Some d \<Rightarrow> d | None \<Rightarrow> ''/'') True (Suc depth))
        (\<lambda>rp. case (if follow then link_at v (child_path rp (basename path)) else None) of
             Some target \<Rightarrow> realpath_inner v (resolve_against rp target) True (Suc depth)
           | None \<Rightarrow> Ok (child_path rp (basename path))))"
proof -
  have step: "(\<lambda>rp. case raw_get v (child_path rp (basename path)) of
             Some n \<Rightarrow> (case kind n of
                 NSymlink target \<Rightarrow>
                   if follow then realpath_inner v (resolve_against rp target) True (Suc depth)
                   else Ok (child_path rp (basename path))
               | _ \<Rightarrow> Ok (child_path rp (basename path)))
           | None \<Rightarrow> Ok (child_path rp (basename path)))
      = (\<lambda>rp. case (if follow then link_at v (child_path rp (basename path)) else None) of
             Some target \<Rightarrow> realpath_inner v (resolve_against rp target) True (Suc depth)
           | None \<Rightarrow> Ok (child_path rp (basename path)))"
    by (rule ext) (simp add: link_at_def split: option.split node_kind.split)
  show ?thesis by (subst realpath_inner.simps) (simp only: Let_def Suc_eq_plus1 [symmetric] step)
qed

lemma realpath_inner_cong:
  assumes "link_at w = link_at v"
  shows "realpath_inner w path follow depth = realpath_inner v path follow depth"
proof (induction "41 - depth" arbitrary: path follow depth rule: less_induct)
  case less
  show ?case
  proof (cases "40 < depth")
    case False
    have IH: "realpath_inner w q f (Suc depth) = realpath_inner v q f (Suc depth)" for q f
      using False by (intro less) simp
    show ?thesis
      unfolding realpath_link_at [of w path] realpath_link_at [of v path] by (simp add: IH assms cong: if_cong option.case_cong)
  qed (simp add: realpath_link_at)
qed

lemma realpath_inner_shallower: "realpath_inner v path follow (Suc depth) = Ok r \<Longrightarrow> realpath_inner v path follow depth = Ok r"
proof (induction "41 - depth" arbitrary: path follow depth r rule: less_induct)
  case less
  have "realpath_inner v path follow (Suc depth) = Err (Loop path)" if "40 < Suc depth"
    using that by (subst realpath_inner.simps) simp
  then have depth: "\<not> 40 < Suc depth" "\<not> 40 < depth" using less.prems by fastforce+
  have IH: "realpath_inner v q f (Suc depth) = Ok x" if "realpath_inner v q f (Suc (Suc depth)) = Ok x" for q f x
    by (rule less.hyps [OF _ that]) (use depth in linarith)
  show ?case
  proof (cases "path = ''/''")
    case False
    let ?parent = "case parent_of path of Some d \<Rightarrow> d | None \<Rightarrow> ''/''"
    obtain rp where rp: "realpath_inner v ?parent True (Suc (Suc depth)) = Ok rp"
      and rest: "(case (if follow then link_at v (child_path rp (basename path)) else None) of
             Some target \<Rightarrow> realpath_inner v (resolve_against rp target) True (Suc (Suc depth))
           | None \<Rightarrow> Ok (child_path rp (basename path))) = Ok r"
      using less.prems depth False unfolding realpath_link_at [of v path follow "Suc depth"] by (auto simp: bind_oc_Ok)
    have "(case (if follow then link_at v (child_path rp (basename path)) else None) of
             Some target \<Rightarrow> realpath_inner v (resolve_against rp target) True (Suc depth)
           | None \<Rightarrow> Ok (child_path rp (basename path))) = Ok r"
      using rest IH by (cases "if follow then link_at v (child_path rp (basename path)) else None") simp_all
    then show ?thesis using depth False unfolding realpath_link_at [of v path follow depth] IH [OF rp] by simp
  next
    case True
    show ?thesis using less.prems depth unfolding True realpath_root by simp
  qed
qed

lemma child_path_prefix: "child_path dir name = dir_prefix dir @ name"
  by (simp add: child_path_def dir_prefix_def)

lemma starts_with_split: "starts_with k p \<Longrightarrow> k = p @ drop (length p) k"
  unfolding starts_with_def by (metis append_take_drop_id)

lemma suffixes_distinct:
  assumes "distinct ks"
  shows "distinct (map (drop (length p)) (filter (\<lambda>k. starts_with k p) ks))"
proof -
  have "inj_on (drop (length p)) {k. starts_with k p}"
    by (rule inj_onI) (metis starts_with_split mem_Collect_eq)
  then show ?thesis using assms
    by (auto simp: distinct_map intro: inj_on_subset)
qed

lemma suffixes_set:
  "rest \<in> set (map (drop (length p)) (filter (\<lambda>k. starts_with k p) ks)) \<longleftrightarrow> p @ rest \<in> set ks"
  using starts_with_split by (force simp: image_iff)

text \<open>A small tree with a link to a directory, on which the definitions are evaluated.\<close>

lemma raw_get_with_disk_limit: "raw_get (with_disk_limit limit) = [''/'' \<mapsto> dir_node 1 493 0]"
  by (rule ext) (simp add: raw_get_def with_disk_limit_def Let_def om_lookup_insert)

definition linked_vfs :: vfs where
  "linked_vfs = insert_node (insert_node (insert_node (new_vfs\<lparr>next_inode := 5\<rparr>) ''/a'' (dir_node 2 493 0))
     ''/a/f'' (file_node 3 [1, 2] 420 0))
     ''/b'' \<lparr>inode = 4, kind = NSymlink ''a'', mode = 511, uid = 0, gid = 0, mtime = 0\<rparr>"

lemma linked_vfs_tree:
  "raw_get linked_vfs = [''/'' \<mapsto> dir_node 1 493 0, ''/a'' \<mapsto> dir_node 2 493 0, ''/a/f'' \<mapsto> file_node 3 [1, 2] 420 0,
     ''/b'' \<mapsto> \<lparr>inode = 4, kind = NSymlink ''a'', mode = 511, uid = 0, gid = 0, mtime = 0\<rparr>]"
  by (simp add: linked_vfs_def vfs_view new_vfs_def raw_get_with_disk_limit)

lemmas path_eval = realpath_def realpath_inner.simps resolve_against_def starts_with_def normalize_path_def
  parent_of_def basename_def child_path_def file_node_def dir_node_def Let_def

section \<open>Properties\<close>

text \<open>The merged stream of installed and private entries, tombstones dropped, lists the visible
  tree: strictly sorted by path, each visible node once and nothing else.\<close>

theorem all_paths_lists_tree:
  "sorted_wrt (<) (map fst (all_paths v)) \<and> set (all_paths v) = {(p, n). raw_get v p = Some n}
    \<and> length (all_paths v) = card {p. contains_node v p}"
proof -
  have "{p. contains_node v p} = dom (raw_get v)" by (auto simp: contains_node_def)
  then show ?thesis using all_paths_sorted in_all_paths by (auto simp: length_all_paths)
qed

text \<open>C26. Freezing a file system and mounting the result in a new session shows the same tree with
  the same inode counter, a correct node count and no private entries; mounting fails exactly when
  the limit of the session is below the frozen usage.\<close>

theorem freeze_mount_roundtrip:
  "case from_base (freeze v) limit of
     Ok w \<Rightarrow> ft_disk_used (freeze v) \<le> limit \<and> raw_get w = raw_get v \<and> all_paths w = all_paths v
       \<and> node_count w = length (all_paths v) \<and> next_inode w = next_inode v
       \<and> overlay w = om_empty \<and> orphaned w = om_empty
   | Err e \<Rightarrow> e = NoSpace \<and> limit < ft_disk_used (freeze v)
   | Panic \<Rightarrow> False"
proof (cases "limit < ft_disk_used (freeze v)")
  case False
  have nodes: "om_lookup (ft_nodes (freeze v)) = raw_get v"
    by (simp add: freeze_def Let_def map_of_om_of_list sorted_keys_distinct all_paths_sorted map_of_all_paths)
  obtain w where w: "from_base (freeze v) limit = Ok w" "base w = freeze v" "overlay w = om_empty"
    "node_count w = om_size (ft_nodes (freeze v))" "next_inode w = next_inode v" "orphaned w = om_empty"
    using False by (simp add: from_base_def) (simp add: freeze_def Let_def)
  have "raw_get w = raw_get v" by (rule ext) (simp add: raw_get_def w nodes)
  moreover from this have "all_paths w = all_paths v"
    by (intro sorted_keys_ext) (simp_all add: all_paths_sorted map_of_all_paths)
  moreover have "node_count w = length (all_paths v)"
    by (simp add: w om_size_card nodes length_all_paths dom_def)
  ultimately show ?thesis using w False by simp
qed (simp add: from_base_def)

text \<open>C27. What \<open>realpath\<close> returns is resolved: a normalized path such that no directory on the way
  is a symbolic link, and, when the final link is followed, the path itself is not one.\<close>

theorem realpath_is_resolved:
  assumes "realpath v (resolve_against cwd path) follow = Ok r"
  shows "resolved v follow r"
  using assms normalize_clean unfolding realpath_def
  by (intro realpath_inner_resolved) (auto simp: resolve_against_def)

theorem realpath_is_resolved_witness: "resolved linked_vfs True ''/a/f''"
proof -
  have "realpath linked_vfs (resolve_against ''/'' ''b/f'') True = Ok ''/a/f''"
    by (simp add: linked_vfs_tree path_eval)
  then show ?thesis by (rule realpath_is_resolved)
qed

text \<open>A normalized path without symbolic links resolves to itself, whether it exists or not, when
  it has at most forty components; a deeper path is reported as a loop of links although none is on
  the way, because the recursion on the parent counts against the same bound as following links.\<close>

theorem realpath_without_links:
  assumes "list_all clean cs" "links_free v cs"
  shows "realpath v (render cs) follow =
    (if length cs \<le> 40 then Ok (render cs) else Err (Loop (render (take (length cs - 41) cs))))"
  using realpath_inner_plain [OF assms, of follow 0] by (simp add: realpath_def)

theorem realpath_without_links_witness:
  "realpath linked_vfs (render [''a'', ''f'', ''new'']) True = Ok (render [''a'', ''f'', ''new''])
    \<and> realpath linked_vfs (render (replicate 50 ''x'')) True = Err (Loop (render (replicate 9 ''x'')))"
proof -
  have "list_all clean (replicate n ''x'')" "links_free linked_vfs (replicate n ''x'')" for n
  proof -
    have "raw_get linked_vfs (render (replicate (Suc i) ''x'')) = None" for i
      by (simp add: linked_vfs_tree render_def)
    then have "raw_get linked_vfs (render (take i (replicate n ''x''))) = None" if "i \<in> set [1..<Suc n]" for i
      using that by (cases i) (auto simp: min_def)
    then show "links_free linked_vfs (replicate n ''x'')"
      by (simp add: links_free_def list_all_iff del: take_replicate)
    show "list_all clean (replicate n ''x'')" by (simp add: list_all_iff clean_def)
  qed
  from realpath_without_links [OF this, of 50 True]
  have "realpath linked_vfs (render (replicate 50 ''x'')) True = Err (Loop (render (replicate 9 ''x'')))"
    by simp
  moreover have "list_all clean [''a'', ''f'', ''new'']" "links_free linked_vfs [''a'', ''f'', ''new'']"
    by (simp_all add: clean_def links_free_def render_def linked_vfs_tree dir_node_def file_node_def)
  from realpath_without_links [OF this, of True]
  have "realpath linked_vfs (render [''a'', ''f'', ''new'']) True = Ok (render [''a'', ''f'', ''new''])" by simp
  ultimately show ?thesis by simp
qed

text \<open>Listing a directory returns, sorted and without duplicates, exactly the names whose
  child paths are visible.\<close>

theorem list_dir_children:
  assumes "list_dir v cwd path = Ok names"
  shows "\<exists>real n. realpath v (resolve_against cwd path) True = Ok real \<and> raw_get v real = Some n \<and> kind n = NDir
    \<and> sorted names \<and> distinct names
    \<and> set names = {name. name \<noteq> '''' \<and> slash \<notin> set name \<and> contains_node v (child_path real name)}"
proof -
  obtain real where real: "realpath v (resolve_against cwd path) True = Ok real"
    using assms by (auto simp: list_dir_def bind_oc_Ok)
  obtain n where n: "raw_get v real = Some n" "kind n = NDir"
    using assms real by (auto simp: list_dir_def split: option.splits if_splits)
  let ?suffixes = "map (drop (length (dir_prefix real))) (filter (\<lambda>k. starts_with k (dir_prefix real)) (map fst (all_paths v)))"
  have names: "names = sort (filter (\<lambda>rest. rest \<noteq> '''' \<and> slash \<notin> set rest) ?suffixes)"
    using assms real n by (simp add: list_dir_def Let_def)
  have "distinct ?suffixes"
    by (rule suffixes_distinct) (simp add: sorted_keys_distinct all_paths_sorted)
  moreover have "rest \<in> set ?suffixes \<longleftrightarrow> contains_node v (child_path real rest)" for rest
    using suffixes_set [of rest "dir_prefix real" "map fst (all_paths v)"] all_paths_dom [of v]
    by (simp add: contains_node_def child_path_prefix dom_def)
  ultimately show ?thesis using real n by (auto simp: names)
qed

theorem list_dir_children_witness:
  "\<exists>names. list_dir linked_vfs ''/'' ''b'' = Ok names \<and> distinct names \<and> ''f'' \<in> set names"
proof -
  have real: "realpath linked_vfs (resolve_against ''/'' ''b'') True = Ok ''/a''"
    by (simp add: linked_vfs_tree path_eval)
  then obtain names where names: "list_dir linked_vfs ''/'' ''b'' = Ok names"
    by (simp add: list_dir_def linked_vfs_tree dir_node_def Let_def)
  then show ?thesis using list_dir_children [OF names] real
    by (simp add: contains_node_def linked_vfs_tree child_path_def)
qed

end
