(* ===== verification/Vfs_Ops.thy ===== *)
theory Vfs_Ops
  imports Vfs
begin

unbundle bit_operations_syntax

text \<open>
  The operations of \<open>src/src/vfs.rs\<close> that change the tree: writing, creating, removing, renaming,
  copying, unlinked files that stay open, metadata and the bulk loaders. Each definition follows the
  source statement by statement, so the order of the checks decides which error is reported and
  what a failed call leaves behind.
\<close>

section \<open>Where a write lands\<close>

definition require_parent_dir :: "vfs \<Rightarrow> string \<Rightarrow> unit vfs_query" where
  "require_parent_dir v path =
     (let parent = (case parent_of path of Some d \<Rightarrow> d | None \<Rightarrow> ''/'')
      in bind_oc (realpath v parent True)
        (\<lambda>real_parent. case raw_get v real_parent of
           Some n \<Rightarrow> if kind n = NDir then Ok () else Err (NotADir parent)
         | None \<Rightarrow> Err (NotFound parent)))"

definition write_target :: "vfs \<Rightarrow> string \<Rightarrow> string \<Rightarrow> string vfs_query" where
  "write_target v cwd path =
     (let full = resolve_against cwd path
      in bind_oc (reject_pseudo_mutation full) (\<lambda>_.
         bind_oc (check_path_limits full) (\<lambda>_.
           let parent = (case parent_of full of Some d \<Rightarrow> d | None \<Rightarrow> ''/'')
           in bind_oc (realpath v parent True)
             (\<lambda>real_parent. Ok (child_path real_parent (basename full))))))"

definition kind_is_dir :: "node option \<Rightarrow> bool" where
  "kind_is_dir n \<longleftrightarrow> map_option kind n = Some NDir"

section \<open>Writing files\<close>

definition insert_fresh_file :: "vfs \<Rightarrow> string \<Rightarrow> bytes \<Rightarrow> u32 \<Rightarrow> unit vfs_result" where
  "insert_fresh_file v target data m = and_then (allocate_inode v)
     (\<lambda>v1 i. (insert_node v1 target (file_node i data m (mutation_time_ms v1)), Ok ()))"

text \<open>The \<open>match self.node_mut(&target)\<close> of \<open>write\<close>, \<open>append\<close> and \<open>copy_file\<close>: a regular file is
  changed in place and keeps its inode, anything else is replaced by a new file.\<close>

definition put_contents :: "vfs \<Rightarrow> string \<Rightarrow> (bytes \<Rightarrow> bytes) \<Rightarrow> bytes \<Rightarrow> u32 \<Rightarrow> unit vfs_result" where
  "put_contents v target change data m = (case node_mut v target of
       (v1, Some n) \<Rightarrow> (case kind n of
           NFile d \<Rightarrow> (set_node v1 target (n\<lparr>kind := NFile (change d), mtime := mutation_time_ms v\<rparr>), Ok ())
         | _ \<Rightarrow> insert_fresh_file v1 target data m)
     | (v1, None) \<Rightarrow> insert_fresh_file v1 target data m)"

definition write_file :: "vfs \<Rightarrow> string \<Rightarrow> string \<Rightarrow> bytes \<Rightarrow> u32 \<Rightarrow> unit vfs_result" where
  "write_file v cwd path data m =
     try_in v (write_target v cwd path) (\<lambda>target.
     try_in v (require_parent_dir v target) (\<lambda>_.
       if kind_is_dir (raw_get v target) then (v, Err (IsADir path))
       else
         let replacement_usage = saturating_add NODE_OVERHEAD (len64 data)
         in try_in v (projected_usage_after_replacement v target replacement_usage) (\<lambda>used.
            and_then (put_contents v target (\<lambda>_. data) data m)
              (\<lambda>v1 _. (record_usage v1 used, Ok ())))))"

definition append_growth :: "vfs \<Rightarrow> string \<Rightarrow> string \<Rightarrow> bytes \<Rightarrow> u64 vfs_query" where
  "append_growth v target path data =
     (let fresh = saturating_add NODE_OVERHEAD (len64 data)
      in case raw_get v target of
           Some n \<Rightarrow> (case kind n of
               NFile _ \<Rightarrow> Ok (len64 data)
             | NDir \<Rightarrow> Err (IsADir path)
             | _ \<Rightarrow> Ok (saturating_sub fresh (node_usage v target n)))
         | None \<Rightarrow> Ok fresh)"

text \<open>\<open>extend_from_slice\<close> on the contents of an existing file.\<close>

definition append_overflow :: "vfs \<Rightarrow> string \<Rightarrow> bytes \<Rightarrow> bool" where
  "append_overflow v target data = (case raw_get v target of
       Some n \<Rightarrow> (case kind n of NFile d \<Rightarrow> vec_overflow (length d) (length d + length data) | _ \<Rightarrow> False)
     | None \<Rightarrow> False)"

definition append_file :: "vfs \<Rightarrow> string \<Rightarrow> string \<Rightarrow> bytes \<Rightarrow> u32 \<Rightarrow> unit vfs_result" where
  "append_file v cwd path data m =
     try_in v (write_target v cwd path) (\<lambda>target.
     try_in v (require_parent_dir v target) (\<lambda>_.
     try_in v (append_growth v target path data) (\<lambda>added.
     try_in v (usage_after_adding v added) (\<lambda>used.
       if append_overflow v target data then (fst (node_mut v target), Panic)
       else and_then (put_contents v target (\<lambda>d. d @ data) data m)
         (\<lambda>v1 _. (record_usage v1 used, Ok ()))))))"

definition checked_end :: "nat \<Rightarrow> bytes \<Rightarrow> nat option" where
  \<comment> \<open>\<open>offset.checked_add(data.len())\<close> on 64-bit \<open>usize\<close>\<close>
  "checked_end offset data = (if offset + length data < 2 ^ 64 then Some (offset + length data) else None)"

definition write_bytes_at :: "bytes \<Rightarrow> nat \<Rightarrow> bytes \<Rightarrow> bytes" where
  "write_bytes_at bs offset data =
     (let stop = offset + length data;
          grown = (if length bs < stop then bs @ replicate (stop - length bs) 0 else bs)
      in take offset grown @ data @ drop stop grown)"

definition write_at :: "vfs \<Rightarrow> string \<Rightarrow> string \<Rightarrow> nat \<Rightarrow> bytes \<Rightarrow> unit vfs_result" where
  "write_at v cwd path offset data =
     try_in v (write_target v cwd path) (\<lambda>target.
     try_in v (ok_or (checked_end offset data) (Invalid path)) (\<lambda>stop.
     try_in v (case raw_get v target of
           Some n \<Rightarrow> (case kind n of
               NFile bs \<Rightarrow> Ok (length bs)
             | NDir \<Rightarrow> Err (IsADir path)
             | _ \<Rightarrow> Err (Invalid path))
         | None \<Rightarrow> Err (NotFound path)) (\<lambda>existing_len.
     try_in v (usage_after_adding v (of_nat (stop - existing_len))) (\<lambda>used.
       case node_mut v target of
         (v1, Some n) \<Rightarrow> (case kind n of
             NFile bs \<Rightarrow> if vec_overflow (length bs) stop then (v1, Panic)
               else (record_usage (set_node v1 target
                 (n\<lparr>kind := NFile (write_bytes_at bs offset data), mtime := mutation_time_ms v\<rparr>)) used, Ok ())
           | _ \<Rightarrow> (v1, Panic))
       | (v1, None) \<Rightarrow> (v1, Panic)))))"

definition resize_file :: "vfs \<Rightarrow> string \<Rightarrow> string \<Rightarrow> nat \<Rightarrow> unit vfs_result" where
  "resize_file v cwd path new_len =
     try_in v (write_target v cwd path) (\<lambda>target.
     try_in v (file_len v ''/'' target) (\<lambda>old_len.
     try_in v (usage_after_adding v (of_nat (new_len - old_len))) (\<lambda>grown.
       let used = saturating_sub grown (of_nat (old_len - new_len))
       in case node_mut v target of
            (v1, Some n) \<Rightarrow> (case kind n of
                NFile bs \<Rightarrow> if vec_overflow (length bs) new_len then (v1, Panic)
                  else (record_usage (set_node v1 target
                    (n\<lparr>kind := NFile (resize_buffer bs new_len), mtime := mutation_time_ms v\<rparr>)) used, Ok ())
              | _ \<Rightarrow> (v1, Panic))
          | (v1, None) \<Rightarrow> (v1, Panic))))"

section \<open>Creating nodes\<close>

text \<open>The tail of \<open>mkdir\<close>, \<open>symlink\<close> and \<open>touch\<close>: the inode is taken before the quota is checked.\<close>

definition add_node :: "vfs \<Rightarrow> string \<Rightarrow> (u64 \<Rightarrow> u64 \<Rightarrow> node) \<Rightarrow> unit vfs_result" where
  "add_node v target build = and_then (allocate_inode v)
     (\<lambda>v1 i. let n = build i (mutation_time_ms v1)
       in try_in v1 (usage_after_adding v1 (node_usage v1 target n))
            (\<lambda>used. (record_usage (insert_node v1 target n) used, Ok ())))"

definition mkdir :: "vfs \<Rightarrow> string \<Rightarrow> string \<Rightarrow> unit vfs_result" where
  "mkdir v cwd path =
     try_in v (write_target v cwd path) (\<lambda>target.
       if contains_node v target then (v, Err (Exists path))
       else try_in v (require_parent_dir v target) (\<lambda>_. add_node v target (\<lambda>i t. dir_node i 493 t)))"

definition symlink :: "vfs \<Rightarrow> string \<Rightarrow> string \<Rightarrow> string \<Rightarrow> unit vfs_result" where
  "symlink v cwd target linkpath =
     try_in v (write_target v cwd linkpath) (\<lambda>link_target.
       if contains_node v link_target then (v, Err (Exists linkpath))
       else try_in v (require_parent_dir v link_target) (\<lambda>_. add_node v link_target
         (\<lambda>i t. \<lparr>inode = i, kind = NSymlink target, mode = 511, uid = 0, gid = 0, mtime = t\<rparr>)))"

definition touch :: "vfs \<Rightarrow> string \<Rightarrow> string \<Rightarrow> u64 \<Rightarrow> unit vfs_result" where
  "touch v cwd path t =
     try_in v (write_target v cwd path) (\<lambda>target. case node_mut v target of
         (v1, Some n) \<Rightarrow> (set_node v1 target (n\<lparr>mtime := t\<rparr>), Ok ())
       | (v1, None) \<Rightarrow> try_in v1 (require_parent_dir v1 target) (\<lambda>_.
           add_node v1 target (\<lambda>i _. file_node i [] 420 t)))"

fun missing_from :: "vfs \<Rightarrow> string \<Rightarrow> string list \<Rightarrow> string list \<Rightarrow> string list vfs_query" where
  "missing_from v current [] additions = Ok additions"
| "missing_from v current (component # rest) additions =
     (let next = child_path current component;
          real = (case realpath v next True of Ok r \<Rightarrow> r | _ \<Rightarrow> next)
      in case raw_get v real of
           Some n \<Rightarrow> if kind n = NDir then missing_from v real rest additions else Err (NotADir real)
         | None \<Rightarrow> missing_from v real rest
             (if real \<in> set additions then additions else additions @ [real]))"

definition missing_directories :: "vfs \<Rightarrow> string \<Rightarrow> string list vfs_query" where
  "missing_directories v path = missing_from v ''/'' (filter (\<lambda>c. c \<noteq> []) (split_slash path)) []"

definition directory_addition_usage :: "vfs \<Rightarrow> string list \<Rightarrow> u64" where
  "directory_addition_usage v additions = foldl (\<lambda>usage _. saturating_add usage NODE_OVERHEAD) 0
     (filter (\<lambda>path. \<not> om_contains (baseline_dirs v) path) additions)"

fun insert_each :: "vfs \<Rightarrow> string list \<Rightarrow> unit vfs_result" where
  "insert_each v [] = (v, Ok ())"
| "insert_each v (path # rest) = and_then (allocate_inode v)
     (\<lambda>v1 i. insert_each (insert_node v1 path (dir_node i 493 (mutation_time_ms v1))) rest)"

definition insert_directories :: "vfs \<Rightarrow> string list \<Rightarrow> unit vfs_result" where
  "insert_directories v additions =
     try_in v (check_inode_capacity v (length additions)) (\<lambda>_. insert_each v additions)"

definition mkdir_all :: "vfs \<Rightarrow> string \<Rightarrow> string \<Rightarrow> unit vfs_result" where
  "mkdir_all v cwd path =
     (let full = resolve_against cwd path
      in try_in v (reject_pseudo_mutation full) (\<lambda>_.
         try_in v (check_path_limits full) (\<lambda>_.
         try_in v (missing_directories v full) (\<lambda>additions.
           let used = saturating_add (disk_used v) (directory_addition_usage v additions)
           in if disk_limit v < used then (v, Err NoSpace)
              else and_then (insert_directories v additions)
                (\<lambda>v1 _. (record_usage v1 used, Ok ()))))))"

section \<open>Removing nodes and unlinked files\<close>

definition remove_file :: "vfs \<Rightarrow> string \<Rightarrow> string \<Rightarrow> unit vfs_result" where
  "remove_file v cwd path =
     (let full = resolve_against cwd path
      in try_in v (reject_pseudo_mutation full) (\<lambda>_.
         try_in v (realpath v full False) (\<lambda>real. case raw_get v real of
             Some n \<Rightarrow> if kind n = NDir then (v, Err (IsADir path))
               else (refresh_usage (fst (remove_node v real)), Ok ())
           | None \<Rightarrow> (v, Err (NotFound path)))))"

definition unlink_open_file :: "vfs \<Rightarrow> string \<Rightarrow> string \<Rightarrow> u64 vfs_result" where
  "unlink_open_file v cwd path =
     (let full = resolve_against cwd path
      in try_in v (reject_pseudo_mutation full) (\<lambda>_.
         try_in v (realpath v full False) (\<lambda>real.
           case map_option kind (raw_get v real) of
             Some (NFile _) \<Rightarrow>
               let i = next_orphan v
               in try_in v (ok_or (checked_add i 1) NoSpace) (\<lambda>next.
                  case remove_node (v\<lparr>next_orphan := next\<rparr>) real of
                    (v1, Some n) \<Rightarrow> (refresh_usage (v1\<lparr>orphaned := om_insert i n (orphaned v1)\<rparr>), Ok i)
                  | (v1, None) \<Rightarrow> (v1, Panic))
           | _ \<Rightarrow> (v, Err (NotFound path)))))"

definition orphan_missing :: "u64 \<Rightarrow> vfs_error" where
  "orphan_missing i = NotFound (''unlinked file '' @ decimal (unat i))"

definition orphan_metadata :: "vfs \<Rightarrow> u64 \<Rightarrow> node vfs_query" where
  "orphan_metadata v i = ok_or (om_lookup (orphaned v) i) (orphan_missing i)"

definition orphan_bytes :: "vfs \<Rightarrow> u64 \<Rightarrow> (node \<times> bytes) vfs_query" where
  \<comment> \<open>\<open>let NodeKind::File(bytes) = &node.kind else { unreachable!() }\<close>\<close>
  "orphan_bytes v i = bind_oc (orphan_metadata v i)
     (\<lambda>n. case kind n of NFile bs \<Rightarrow> Ok (n, bs) | _ \<Rightarrow> Panic)"

definition orphan_len :: "vfs \<Rightarrow> u64 \<Rightarrow> nat vfs_query" where
  "orphan_len v i = bind_oc (orphan_bytes v i) (\<lambda>(n, bs). Ok (length bs))"

definition read_orphan_range :: "vfs \<Rightarrow> u64 \<Rightarrow> nat \<Rightarrow> nat \<Rightarrow> bytes vfs_result" where
  "read_orphan_range v i offset maximum = try_in v (orphan_bytes v i)
     (\<lambda>(n, bs). let out = range_of bs offset maximum in (count_read v (length out), Ok out))"

definition set_orphan :: "vfs \<Rightarrow> u64 \<Rightarrow> node \<Rightarrow> bytes \<Rightarrow> vfs" where
  "set_orphan v i n bs = v\<lparr>orphaned := om_insert i (n\<lparr>kind := NFile bs, mtime := mutation_time_ms v\<rparr>) (orphaned v)\<rparr>"

definition write_orphan_at :: "vfs \<Rightarrow> u64 \<Rightarrow> nat \<Rightarrow> bytes \<Rightarrow> unit vfs_result" where
  "write_orphan_at v i offset data =
     try_in v (ok_or (checked_end offset data) NoSpace) (\<lambda>stop.
     try_in v (orphan_bytes v i) (\<lambda>(n, bs).
       let used = saturating_add (disk_used v) (of_nat (stop - length bs))
       in if disk_limit v < used then (v, Err NoSpace)
          else if vec_overflow (length bs) stop then (v, Panic)
          else (record_usage (set_orphan v i n (write_bytes_at bs offset data)) used, Ok ())))"

definition resize_orphan :: "vfs \<Rightarrow> u64 \<Rightarrow> nat \<Rightarrow> unit vfs_result" where
  "resize_orphan v i new_len =
     try_in v (orphan_bytes v i) (\<lambda>(n, bs).
     try_in v (usage_after_adding v (of_nat (new_len - length bs))) (\<lambda>grown.
       let used = saturating_sub grown (of_nat (length bs - new_len))
       in if vec_overflow (length bs) new_len then (v, Panic)
          else (record_usage (set_orphan v i n (resize_buffer bs new_len)) used, Ok ())))"

definition retain_orphans :: "vfs \<Rightarrow> u64 set \<Rightarrow> vfs" where
  "retain_orphans v live =
     (let dropped = filter (\<lambda>(i, n). i \<notin> live) (om_entries (orphaned v));
          freed = foldl (\<lambda>total (i, n). saturating_add total (saturating_add NODE_OVERHEAD (node_payload_len n)))
            0 dropped;
          v1 = v\<lparr>orphaned := om_retain (\<lambda>i n. i \<in> live) (orphaned v)\<rparr>
      in if 0 < freed then record_usage v1 (saturating_sub (disk_used v1) freed) else v1)"

definition remove_each :: "vfs \<Rightarrow> string list \<Rightarrow> vfs" where
  "remove_each v keys = foldl (\<lambda>v k. fst (remove_node v k)) v keys"

definition remove_all :: "vfs \<Rightarrow> string \<Rightarrow> string \<Rightarrow> unit vfs_result" where
  "remove_all v cwd path =
     (let full = resolve_against cwd path
      in try_in v (reject_pseudo_mutation full) (\<lambda>_.
         try_in v (realpath v full False) (\<lambda>real.
           if \<not> contains_node v real then (v, Err (NotFound path))
           else (refresh_usage (remove_each v (walk v real)), Ok ()))))"

definition rmdir :: "vfs \<Rightarrow> string \<Rightarrow> string \<Rightarrow> unit vfs_result" where
  "rmdir v cwd path =
     (let full = resolve_against cwd path
      in try_in v (reject_pseudo_mutation full) (\<lambda>_.
         try_in v (realpath v full True) (\<lambda>real. case raw_get v real of
             Some n \<Rightarrow>
               if kind n = NDir then try_in v (list_dir v cwd path) (\<lambda>names.
                 if names \<noteq> [] then (v, Err (NotEmpty path))
                 else (refresh_usage (fst (remove_node v real)), Ok ()))
               else (v, Err (NotADir path))
           | None \<Rightarrow> (v, Err (NotFound path)))))"

section \<open>Renaming and copying\<close>

definition into_directory :: "vfs \<Rightarrow> string \<Rightarrow> string \<Rightarrow> string" where
  \<comment> \<open>moving or copying into an existing directory keeps the last name of the source\<close>
  "into_directory v to_target from_real =
     (if kind_is_dir (raw_get v to_target) then child_path to_target (basename from_real) else to_target)"

definition moved_key :: "string \<Rightarrow> string \<Rightarrow> string \<Rightarrow> string" where
  "moved_key from_real to_target k = to_target @ drop (length from_real) k"

definition usage_at :: "vfs \<Rightarrow> string \<Rightarrow> int" where
  "usage_at v path = (case raw_get v path of None \<Rightarrow> 0 | Some n \<Rightarrow> uint (node_usage v path n))"

fun rename_delta :: "vfs \<Rightarrow> string \<Rightarrow> string \<Rightarrow> string list \<Rightarrow> string list \<Rightarrow> int \<Rightarrow> int vfs_query" where
  "rename_delta v from_real to_target subtree [] delta = Ok delta"
| "rename_delta v from_real to_target subtree (k # ks) delta = (case raw_get v k of
       None \<Rightarrow> Panic
     | Some n \<Rightarrow>
         let newk = moved_key from_real to_target k
         in bind_oc (check_path_limits newk) (\<lambda>_.
              rename_delta v from_real to_target subtree ks
                (delta + uint (node_usage v newk n) - uint (node_usage v k n)
                   - (if newk \<in> set subtree then 0 else usage_at v newk))))"

fun move_each :: "vfs \<Rightarrow> string \<Rightarrow> string \<Rightarrow> string list \<Rightarrow> unit vfs_result" where
  "move_each v from_real to_target [] = (v, Ok ())"
| "move_each v from_real to_target (k # ks) = (case remove_node v k of
       (v1, None) \<Rightarrow> (v1, Panic)
     | (v1, Some n) \<Rightarrow> move_each (insert_node v1 (moved_key from_real to_target k) n) from_real to_target ks)"

definition rename_path :: "vfs \<Rightarrow> string \<Rightarrow> string \<Rightarrow> string \<Rightarrow> unit vfs_result" where
  "rename_path v cwd from to =
     (let from_abs = resolve_against cwd from
      in try_in v (reject_pseudo_mutation from_abs) (\<lambda>_.
         try_in v (realpath v from_abs False) (\<lambda>from_real.
           if \<not> contains_node v from_real then (v, Err (NotFound from))
           else try_in v (write_target v cwd to) (\<lambda>target.
             let to_target = into_directory v target from_real;
                 subtree = walk v from_real
             in try_in v (rename_delta v from_real to_target subtree subtree 0) (\<lambda>delta.
                try_in v (usage_after_delta v delta) (\<lambda>used.
                  and_then (move_each v from_real to_target subtree)
                    (\<lambda>v1 _. (record_usage v1 used, Ok ()))))))))"

definition copy_native :: "vfs \<Rightarrow> string \<Rightarrow> string \<Rightarrow> node \<Rightarrow> unit vfs_result" where
  \<comment> \<open>the branch of \<open>copy_file\<close> for native executables; only the times and the inode are new\<close>
  "copy_native v cwd to source =
     try_in v (write_target v cwd to) (\<lambda>target.
     try_in v (require_parent_dir v target) (\<lambda>_.
       and_then (allocate_inode v) (\<lambda>v1 i.
         let n = source\<lparr>inode := i, mtime := mutation_time_ms v1\<rparr>
         in try_in v1 (projected_usage_after_replacement v1 target (node_usage v1 target n))
              (\<lambda>used. (record_usage (insert_node v1 target n) used, Ok ())))))"

definition copy_regular :: "vfs \<Rightarrow> string \<Rightarrow> string \<Rightarrow> node \<Rightarrow> bytes \<Rightarrow> unit vfs_result" where
  "copy_regular v cwd to source data =
     try_in v (write_target v cwd to) (\<lambda>target.
     try_in v (require_parent_dir v target) (\<lambda>_.
       if kind_is_dir (raw_get v target) then (v, Err (IsADir to))
       else try_in v (projected_usage_after_replacement v target (saturating_add NODE_OVERHEAD (len64 data)))
         (\<lambda>used. and_then (put_contents (count_read v (length data)) target (\<lambda>_. data) data (mode source))
            (\<lambda>v1 _. (record_usage v1 used, Ok ())))))"

definition copy_file :: "vfs \<Rightarrow> string \<Rightarrow> string \<Rightarrow> string \<Rightarrow> unit vfs_result" where
  "copy_file v cwd from to =
     try_in v (reject_pseudo_mutation (resolve_against cwd to)) (\<lambda>_.
     try_in v (metadata v cwd from True) (\<lambda>source.
       case kind source of
         NNative _ \<Rightarrow> copy_native v cwd to source
       | NFile data \<Rightarrow> copy_regular v cwd to source data
       | _ \<Rightarrow> and_then (read_file v cwd from) (\<lambda>v1 _. (v1, Panic))))"

section \<open>Metadata\<close>

definition chmod :: "vfs \<Rightarrow> string \<Rightarrow> string \<Rightarrow> u32 \<Rightarrow> unit vfs_result" where
  "chmod v cwd path m =
     (let full = resolve_against cwd path
      in try_in v (reject_pseudo_mutation full) (\<lambda>_.
         try_in v (realpath v full True) (\<lambda>real. case node_mut v real of
             (v1, Some n) \<Rightarrow> (set_node v1 real (n\<lparr>mode := m AND 4095\<rparr>), Ok ())
           | (v1, None) \<Rightarrow> (v1, Err (NotFound path)))))"

definition chown :: "vfs \<Rightarrow> string \<Rightarrow> string \<Rightarrow> u32 option \<Rightarrow> u32 option \<Rightarrow> unit vfs_result" where
  "chown v cwd path u g =
     (let full = resolve_against cwd path
      in try_in v (reject_pseudo_mutation full) (\<lambda>_.
         try_in v (realpath v full True) (\<lambda>real. case node_mut v real of
             (v1, Some n) \<Rightarrow> (set_node v1 real (n\<lparr>uid := (case u of Some x \<Rightarrow> x | None \<Rightarrow> uid n),
                                                gid := (case g of Some x \<Rightarrow> x | None \<Rightarrow> gid n)\<rparr>), Ok ())
           | (v1, None) \<Rightarrow> (v1, Err (NotFound path)))))"

definition set_mtime :: "vfs \<Rightarrow> string \<Rightarrow> u64 \<Rightarrow> vfs" where
  "set_mtime v real t = (case node_mut v real of
       (v1, Some n) \<Rightarrow> set_node v1 real (n\<lparr>mtime := t\<rparr>)
     | (v1, None) \<Rightarrow> v1)"

section \<open>Copying trees and loading\<close>

fun copy_delta :: "vfs \<Rightarrow> string \<Rightarrow> string \<Rightarrow> string list \<Rightarrow> int \<Rightarrow> int vfs_query" where
  "copy_delta v from_real to_target [] delta = Ok delta"
| "copy_delta v from_real to_target (k # ks) delta = (case raw_get v k of
       None \<Rightarrow> Panic
     | Some n \<Rightarrow>
         let newk = moved_key from_real to_target k
         in bind_oc (check_path_limits newk) (\<lambda>_.
              copy_delta v from_real to_target ks (delta + uint (node_usage v newk n) - usage_at v newk)))"

fun copy_each :: "vfs \<Rightarrow> string \<Rightarrow> string \<Rightarrow> bool \<Rightarrow> string list \<Rightarrow> unit vfs_result" where
  "copy_each v from_real to_target preserve [] = (v, Ok ())"
| "copy_each v from_real to_target preserve (k # ks) = (case raw_get v k of
       None \<Rightarrow> (v, Panic)
     | Some n \<Rightarrow> and_then (allocate_inode v) (\<lambda>v1 i.
         let copied = n\<lparr>inode := i, mtime := (if preserve then mtime n else mutation_time_ms v1)\<rparr>
         in copy_each (insert_node v1 (moved_key from_real to_target k) copied) from_real to_target preserve ks))"

definition copy_recursive :: "vfs \<Rightarrow> string \<Rightarrow> string \<Rightarrow> string \<Rightarrow> bool \<Rightarrow> unit vfs_result" where
  "copy_recursive v cwd from to preserve =
     (let from_abs = resolve_against cwd from
      in try_in v (realpath v from_abs True) (\<lambda>from_real.
        if \<not> is_dir v cwd from then
          and_then (copy_file v cwd from to) (\<lambda>v1 _.
            if preserve then
              try_in v1 (metadata v1 cwd from True) (\<lambda>source.
                and_then (chmod v1 cwd to (mode source)) (\<lambda>v2 _. touch v2 cwd to (mtime source)))
            else (v1, Ok ()))
        else try_in v (write_target v cwd to) (\<lambda>target.
          let to_target = into_directory v target from_real;
              subtree = walk v from_real
          in try_in v (copy_delta v from_real to_target subtree 0) (\<lambda>delta.
             try_in v (usage_after_delta v delta) (\<lambda>used.
             try_in v (check_inode_capacity v (length subtree)) (\<lambda>_.
               and_then (copy_each v from_real to_target preserve subtree)
                 (\<lambda>v1 _. (record_usage v1 used, Ok ()))))))))"

definition put_file :: "vfs \<Rightarrow> string \<Rightarrow> bytes \<Rightarrow> u32 \<Rightarrow> unit vfs_result" where
  "put_file v path data m =
     (let norm = normalize_path path
      in try_in v (reject_pseudo_mutation norm) (\<lambda>_.
         try_in v (check_path_limits norm) (\<lambda>_.
           if kind_is_dir (raw_get v norm) then (v, Err (IsADir norm))
           else try_in v (case parent_of norm of Some parent \<Rightarrow> missing_directories v parent | None \<Rightarrow> Ok [])
             (\<lambda>additions.
               let previous = (case raw_get v norm of None \<Rightarrow> 0 | Some n \<Rightarrow> node_usage v norm n);
                   used = saturating_add (saturating_add (saturating_sub (disk_used v) previous)
                     (directory_addition_usage v additions)) (saturating_add NODE_OVERHEAD (len64 data))
               in if disk_limit v < used then (v, Err NoSpace)
                  else try_in v (check_inode_capacity v (length additions + 1)) (\<lambda>_.
                    and_then (insert_directories v additions) (\<lambda>v1 _.
                    and_then (insert_fresh_file v1 norm data m)
                      (\<lambda>v2 _. (record_usage v2 used, Ok ()))))))))"

definition seed_native_executable :: "vfs \<Rightarrow> string \<Rightarrow> native_program \<Rightarrow> unit vfs_result" where
  "seed_native_executable v path program =
     (let norm = normalize_path path
      in case allocate_inode v of
           (v1, Ok i) \<Rightarrow>
             let v2 = insert_node v1 norm \<lparr>inode = i, kind = NNative program, mode = 493, uid = 0, gid = 0,
                   mtime = mutation_time_ms v1\<rparr>
             in (refresh_usage (v2\<lparr>baseline_native := om_insert norm program (baseline_native v2)\<rparr>), Ok ())
         | (v1, _) \<Rightarrow> (v1, Panic))"

definition put_dir :: "vfs \<Rightarrow> string \<Rightarrow> u32 \<Rightarrow> unit vfs_result" where
  "put_dir v path m =
     (let norm = normalize_path path
      in try_in v (reject_pseudo_mutation norm) (\<lambda>_.
         and_then (mkdir_all v ''/'' norm) (\<lambda>v1 _. case node_mut v1 norm of
             (v2, Some n) \<Rightarrow> (set_node v2 norm (n\<lparr>mode := m\<rparr>), Ok ())
           | (v2, None) \<Rightarrow> (v2, Ok ()))))"

section \<open>The tree invariant\<close>

text \<open>The invariant of the file system, computed from what it lists: the node count is the number of
  visible nodes; visible and unlinked nodes have pairwise different inodes, all below the allocator;
  unlinked nodes are regular files with identities below the next one.\<close>

definition inodes_of :: "vfs \<Rightarrow> u64 list" where
  "inodes_of v = map (inode \<circ> snd) (all_paths v) @ map inode (om_values (orphaned v))"

definition vfs_inv :: "vfs \<Rightarrow> bool" where
  "vfs_inv v \<longleftrightarrow> node_count v = length (all_paths v) \<and> distinct (inodes_of v)
     \<and> list_all (\<lambda>i. i < next_inode v) (inodes_of v)
     \<and> list_all (\<lambda>(j, n). is_file_kind (kind n) \<and> j < next_orphan v) (om_entries (orphaned v))"

text \<open>The same over maps: \<open>f\<close> the visible tree, \<open>g\<close> the unlinked nodes, \<open>c\<close> the node count, \<open>j\<close>
  and \<open>i\<close> the next identity and inode.\<close>

definition tree_ok :: "(string \<rightharpoonup> node) \<Rightarrow> nat \<Rightarrow> (u64 \<rightharpoonup> node) \<Rightarrow> u64 \<Rightarrow> u64 \<Rightarrow> bool" where
  "tree_ok f c g j i \<longleftrightarrow> finite (dom f) \<and> c = card (dom f)
     \<and> (\<forall>p n. f p = Some n \<longrightarrow> inode n < i)
     \<and> (\<forall>p q m n. f p = Some m \<longrightarrow> f q = Some n \<longrightarrow> inode m = inode n \<longrightarrow> p = q)
     \<and> (\<forall>k n. g k = Some n \<longrightarrow> inode n < i \<and> is_file_kind (kind n) \<and> k < j)
     \<and> (\<forall>k l m n. g k = Some m \<longrightarrow> g l = Some n \<longrightarrow> inode m = inode n \<longrightarrow> k = l)
     \<and> (\<forall>p k m n. f p = Some m \<longrightarrow> g k = Some n \<longrightarrow> inode m \<noteq> inode n)"

definition unused :: "(string \<rightharpoonup> node) \<Rightarrow> (u64 \<rightharpoonup> node) \<Rightarrow> u64 \<Rightarrow> u64 \<Rightarrow> bool" where
  "unused f g i x \<longleftrightarrow> x < i \<and> (\<forall>p n. f p = Some n \<longrightarrow> inode n \<noteq> x) \<and> (\<forall>k n. g k = Some n \<longrightarrow> inode n \<noteq> x)"

lemma injective_update:
  assumes "f k = None"
  shows "(\<forall>p q m n. (f(k \<mapsto> v)) p = Some m \<longrightarrow> (f(k \<mapsto> v)) q = Some n \<longrightarrow> h m = h n \<longrightarrow> p = q) \<longleftrightarrow>
    (\<forall>p q m n. f p = Some m \<longrightarrow> f q = Some n \<longrightarrow> h m = h n \<longrightarrow> p = q) \<and> (\<forall>q n. f q = Some n \<longrightarrow> h n \<noteq> h v)"
    (is "?upd \<longleftrightarrow> ?old \<and> ?new")
proof
  assume upd: "?upd"
  have ?old using upd assms by (metis fun_upd_other option.distinct(1))
  moreover have ?new using upd assms by (metis fun_upd_other fun_upd_same option.distinct(1))
  ultimately show "?old \<and> ?new" ..
next
  assume "?old \<and> ?new"
  then show ?upd by (auto simp: eq_commute split: if_splits)
qed

lemma not_in_values: "x \<notin> h ` ran f \<longleftrightarrow> (\<forall>q n. f q = Some n \<longrightarrow> h n \<noteq> x)"
  unfolding ran_def by blast

lemma distinct_values_iff:
  assumes "distinct (map fst xs)"
  shows "distinct (map (h \<circ> snd) xs) \<longleftrightarrow>
    (\<forall>p q m n. map_of xs p = Some m \<longrightarrow> map_of xs q = Some n \<longrightarrow> h m = h n \<longrightarrow> p = q)"
  using assms
proof (induction xs)
  case (Cons x xs)
  obtain k v where x: "x = (k, v)" by (cases x)
  have None: "map_of xs k = None" using Cons.prems x by (simp add: map_of_eq_None_iff)
  have "set (map (h \<circ> snd) xs) = h ` ran (map_of xs)"
    using Cons.prems by (simp add: ran_distinct image_comp)
  then have new: "h v \<notin> set (map (h \<circ> snd) xs) \<longleftrightarrow> (\<forall>q n. map_of xs q = Some n \<longrightarrow> h n \<noteq> h v)"
    by (simp only: not_in_values)
  have IH: "distinct (map (h \<circ> snd) xs) \<longleftrightarrow>
      (\<forall>p q m n. map_of xs p = Some m \<longrightarrow> map_of xs q = Some n \<longrightarrow> h m = h n \<longrightarrow> p = q)"
    by (rule Cons.IH) (use Cons.prems in simp)
  have upd: "map_of (x # xs) = (map_of xs)(k \<mapsto> v)" by (simp add: x)
  have "distinct (map (h \<circ> snd) (x # xs)) \<longleftrightarrow> distinct (map (h \<circ> snd) xs) \<and> h v \<notin> set (map (h \<circ> snd) xs)"
    by (simp only: x) auto
  then show ?case
    by (simp only: upd injective_update [of "map_of xs" k v h, OF None] new IH)
qed simp

lemma visible_inodes: "set (map (inode \<circ> snd) (all_paths v)) = inode ` ran (raw_get v)"
  using ran_distinct [OF sorted_keys_distinct [OF all_paths_sorted, of v]]
  by (simp add: map_of_all_paths image_comp)

lemma orphan_inodes: "set (map inode (om_values (orphaned v))) = inode ` ran (om_lookup (orphaned v))"
  by (simp add: om_set_values ran_def)

lemma om_entries_values_distinct: "distinct (map h (om_values m)) \<longleftrightarrow>
    (\<forall>p q v w. om_lookup m p = Some v \<longrightarrow> om_lookup m q = Some w \<longrightarrow> h v = h w \<longrightarrow> p = q)"
  using distinct_values_iff [OF sorted_keys_distinct [OF om_entries_sorted], of h m]
  by (simp add: om_values_def map_of_om_entries)

lemma vfs_inv_iff: "vfs_inv v \<longleftrightarrow>
    tree_ok (raw_get v) (node_count v) (om_lookup (orphaned v)) (next_orphan v) (next_inode v)"
proof -
  have vis: "distinct (map (inode \<circ> snd) (all_paths v)) \<longleftrightarrow>
      (\<forall>p q m n. raw_get v p = Some m \<longrightarrow> raw_get v q = Some n \<longrightarrow> inode m = inode n \<longrightarrow> p = q)"
    using distinct_values_iff [OF sorted_keys_distinct [OF all_paths_sorted], of inode v] by (simp add: map_of_all_paths)
  have disj: "inode ` ran (raw_get v) \<inter> inode ` ran (om_lookup (orphaned v)) = {} \<longleftrightarrow>
      (\<forall>p k m n. raw_get v p = Some m \<longrightarrow> om_lookup (orphaned v) k = Some n \<longrightarrow> inode m \<noteq> inode n)"
    by (auto simp: ran_def)
  have bound: "list_all (\<lambda>i. i < next_inode v) (inodes_of v) \<longleftrightarrow> (\<forall>p n. raw_get v p = Some n \<longrightarrow> inode n < next_inode v)
      \<and> (\<forall>k n. om_lookup (orphaned v) k = Some n \<longrightarrow> inode n < next_inode v)"
    unfolding list_all_iff inodes_of_def set_append visible_inodes orphan_inodes ran_def by blast
  have files: "list_all (\<lambda>(j, n). is_file_kind (kind n) \<and> j < next_orphan v) (om_entries (orphaned v))
      \<longleftrightarrow> (\<forall>k n. om_lookup (orphaned v) k = Some n \<longrightarrow> is_file_kind (kind n) \<and> k < next_orphan v)"
    by (auto simp: list_all_iff om_in_entries)
  have inodes: "distinct (inodes_of v) \<longleftrightarrow> distinct (map (inode \<circ> snd) (all_paths v))
      \<and> distinct (map inode (om_values (orphaned v))) \<and> inode ` ran (raw_get v) \<inter> inode ` ran (om_lookup (orphaned v)) = {}"
    by (simp only: inodes_of_def distinct_append visible_inodes orphan_inodes)
  show ?thesis
    unfolding vfs_inv_def tree_ok_def inodes vis disj bound files om_entries_values_distinct length_all_paths
    by (auto simp del: map_map)
qed

lemma tree_ok_insert:
  assumes "tree_ok f c g j i" "unused f g i (inode n)"
  shows "tree_ok (f(p \<mapsto> n)) (if p \<in> dom f then c else c + 1) g j i"
proof -
  have "card (dom (f(p \<mapsto> n))) = (if p \<in> dom f then card (dom f) else card (dom f) + 1)"
    using assms(1) by (auto simp: tree_ok_def card_insert_if insert_absorb)
  moreover have "inode n \<noteq> inode m" if "f q = Some m \<or> g k = Some m" for q k m
    using assms(2) that unfolding unused_def by metis
  ultimately show ?thesis using assms unfolding tree_ok_def unused_def by (auto split: if_splits)
qed

lemma tree_ok_update:
  assumes "tree_ok f c g j i" "f p = Some m" "inode n = inode m"
  shows "tree_ok (f(p \<mapsto> n)) c g j i"
proof -
  have "dom (f(p \<mapsto> n)) = dom f" using assms(2) by auto
  then show ?thesis using assms unfolding tree_ok_def by (auto split: if_splits)
qed

lemma tree_ok_remove:
  assumes "tree_ok f c g j i" "f p = Some n"
  shows "tree_ok (f(p := None)) (c - 1) g j i" "unused (f(p := None)) g i (inode n)"
proof -
  have "card (dom (f(p := None))) = card (dom f) - 1" "finite (dom (f(p := None)))"
    using assms by (simp_all add: tree_ok_def domI)
  then show "tree_ok (f(p := None)) (c - 1) g j i"
    using assms(1) unfolding tree_ok_def by auto
  show "unused (f(p := None)) g i (inode n)" using assms unfolding tree_ok_def unused_def by auto metis
qed

lemma tree_ok_allocate:
  assumes "tree_ok f c g j i" "i < i'"
  shows "tree_ok f c g j i'" "unused f g i' i"
proof -
  have "x < i'" if "x < i" for x using that assms(2) by (rule less_trans)
  then show "tree_ok f c g j i'" using assms(1) unfolding tree_ok_def by blast
  show "unused f g i' i" using assms unfolding tree_ok_def unused_def by blast
qed

lemma tree_ok_orphan:
  assumes "tree_ok f c g j i" "unused f g i (inode n)" "is_file_kind (kind n)" "j < j'"
  shows "tree_ok f c (g(j \<mapsto> n)) j' i"
proof -
  have "x < j'" if "x < j" for x using that assms(4) by (rule less_trans)
  moreover have "inode n \<noteq> inode m" if "f q = Some m \<or> g k = Some m" for q k m
    using assms(2) that unfolding unused_def by metis
  ultimately show ?thesis using assms unfolding tree_ok_def unused_def by (auto split: if_splits)
qed

lemma tree_ok_orphan_update:
  assumes "tree_ok f c g j i" "g k = Some m" "inode n = inode m" "is_file_kind (kind n)"
  shows "tree_ok f c (g(k \<mapsto> n)) j i"
  using assms unfolding tree_ok_def by (auto split: if_splits)

lemma tree_ok_orphan_subset:
  assumes "tree_ok f c g j i" "\<And>k n. g' k = Some n \<Longrightarrow> g k = Some n"
  shows "tree_ok f c g' j i"
  using assms(1) unfolding tree_ok_def by (meson assms(2))

lemma tree_ok_ids:
  assumes "tree_ok f c g j' i" "\<And>k n. g k = Some n \<Longrightarrow> k < j"
  shows "tree_ok f c g j i"
  using assms(1) unfolding tree_ok_def by (simp add: assms(2))

text \<open>The primitives over the invariant. \<open>spare v x\<close>: inode \<open>x\<close> was allocated and no node has it.\<close>

abbreviation spare :: "vfs \<Rightarrow> u64 \<Rightarrow> bool" where
  "spare v x \<equiv> unused (raw_get v) (om_lookup (orphaned v)) (next_inode v) x"

lemma vfs_inv_cong:
  assumes "raw_get w = raw_get v" "node_count w = node_count v" "orphaned w = orphaned v"
    "next_orphan w = next_orphan v" "next_inode w = next_inode v"
  shows "vfs_inv w = vfs_inv v"
  by (simp add: vfs_inv_iff assms)

lemma vfs_inv_bookkeeping [simp]:
  "vfs_inv (record_usage v u) = vfs_inv v" "vfs_inv (refresh_usage v) = vfs_inv v" "vfs_inv (count_read v k) = vfs_inv v"
  "vfs_inv (v\<lparr>mutation_time_ms := t\<rparr>) = vfs_inv v" "vfs_inv (v\<lparr>baseline_dirs := ds\<rparr>) = vfs_inv v"
  "vfs_inv (v\<lparr>baseline_native := ns\<rparr>) = vfs_inv v" "vfs_inv (v\<lparr>disk_peak := u\<rparr>) = vfs_inv v"
  by (rule vfs_inv_cong; simp add: vfs_view record_usage_def refresh_usage_def count_read_def)+

lemma node_mut_fields:
  "node_count (fst (node_mut v p)) = node_count v" "orphaned (fst (node_mut v p)) = orphaned v"
  "next_orphan (fst (node_mut v p)) = next_orphan v" "next_inode (fst (node_mut v p)) = next_inode v"
  "mutation_time_ms (fst (node_mut v p)) = mutation_time_ms v"
  by (simp_all add: node_mut_def split: option.split)

lemma node_mut_cases:
  obtains (missing) v1 where "node_mut v p = (v1, None)" "raw_get v p = None" "raw_get v1 = raw_get v" "vfs_inv v1 = vfs_inv v"
  | (found) v1 n where "node_mut v p = (v1, Some n)" "raw_get v p = Some n" "raw_get v1 = raw_get v" "vfs_inv v1 = vfs_inv v"
proof -
  obtain v1 r where e: "node_mut v p = (v1, r)" by (cases "node_mut v p")
  then have "r = raw_get v p" "raw_get v1 = raw_get v" using raw_get_node_mut [where v = v and p = p] by auto
  moreover have "vfs_inv v1 = vfs_inv v"
    using e node_mut_fields [where v = v and p = p] raw_get_node_mut(1) [where v = v and p = p]
    by (intro vfs_inv_cong) auto
  ultimately show thesis using missing found e by (cases r) auto
qed

lemma vfs_inv_set_node:
  "vfs_inv v \<Longrightarrow> raw_get v p = Some m \<Longrightarrow> inode n = inode m \<Longrightarrow> vfs_inv (set_node v p n)"
  unfolding vfs_inv_iff raw_get_set_node
  by (simp add: tree_ok_update set_node_def)

lemma vfs_inv_insert:
  assumes "vfs_inv v" "spare v (inode n)"
  shows "vfs_inv (insert_node v p n)"
proof -
  have "node_count (insert_node v p n) = (if p \<in> dom (raw_get v) then node_count v else node_count v + 1)"
    by (auto simp: insert_node_def Let_def contains_node_def dom_def)
  moreover have "orphaned (insert_node v p n) = orphaned v" "next_orphan (insert_node v p n) = next_orphan v"
    "next_inode (insert_node v p n) = next_inode v" by (simp_all add: insert_node_def Let_def)
  ultimately show ?thesis
    using tree_ok_insert [OF assms [unfolded vfs_inv_iff], of p] by (simp add: vfs_inv_iff raw_get_insert_node)
qed

lemma remove_node_cases:
  assumes "vfs_inv v"
  obtains (missing) "raw_get v p = None" "remove_node v p = (v, None)"
  | (removed) v1 n where "raw_get v p = Some n" "remove_node v p = (v1, Some n)" "vfs_inv v1" "spare v1 (inode n)"
      "raw_get v1 = (raw_get v)(p := None)" "orphaned v1 = orphaned v" "next_orphan v1 = next_orphan v"
      "next_inode v1 = next_inode v"
proof (cases "raw_get v p")
  case None
  then show thesis by (intro missing) (simp_all add: remove_node_def)
next
  case (Some n)
  obtain v1 where e: "remove_node v p = (v1, Some n)" using Some by (simp add: remove_node_def Let_def)
  then have fields: "raw_get v1 = (raw_get v)(p := None)" "orphaned v1 = orphaned v" "next_orphan v1 = next_orphan v"
    "next_inode v1 = next_inode v" "node_count v1 = node_count v - 1"
    using raw_get_remove_node [of v p] Some by (auto simp: remove_node_def Let_def split: if_splits)
  note rm = tree_ok_remove [OF assms [unfolded vfs_inv_iff] Some]
  show thesis using removed [OF Some e] fields rm by (simp add: vfs_inv_iff)
qed

lemma allocate_inode_cases:
  assumes "vfs_inv v"
  obtains (full) "allocate_inode v = (v, Err NoSpace)" "vfs_inv v"
  | (fresh) v1 where "allocate_inode v = (v1, Ok (next_inode v))" "v1 = v\<lparr>next_inode := next_inode v + 1\<rparr>" "vfs_inv v1"
      "spare v1 (next_inode v)" "raw_get v1 = raw_get v" "unat (next_inode v) + 1 < 2 ^ 64"
proof (cases "checked_add (next_inode v) 1")
  case None
  then show thesis using assms by (intro full) (simp_all add: allocate_inode_def check_inode_capacity_def)
next
  case (Some x)
  let ?w = "v\<lparr>next_inode := next_inode v + 1\<rparr>"
  have lim: "unat (next_inode v) + 1 < 2 ^ 64" using Some by (auto simp: checked_add_def split: if_splits)
  then have lt: "next_inode v < next_inode v + 1" by (simp add: word_less_nat_alt unat_word_ariths)
  have "allocate_inode v = (?w, Ok (next_inode v))" using Some by (simp add: allocate_inode_def check_inode_capacity_def)
  then show thesis using fresh lim tree_ok_allocate [OF assms [unfolded vfs_inv_iff] lt]
    by (simp add: vfs_inv_iff raw_get_same_tree)
qed

section \<open>Every operation keeps the invariant\<close>

text \<open>\<open>good\<close>: the call left a consistent file system and did not panic. The rules follow the
  \<open>?\<close> operator, so each operation is checked along its own text.\<close>

named_theorems good_rules \<open>rules for calls that keep the invariant\<close>
named_theorems no_panic \<open>queries that never panic\<close>

definition good :: "vfs \<times> (vfs_error, 'a) outcome \<Rightarrow> bool" where
  "good x \<longleftrightarrow> vfs_inv (fst x) \<and> snd x \<noteq> Panic"

lemma good_simps [simp]:
  "good (v, Ok a) = vfs_inv v" "good (v, Err e) = vfs_inv v" "\<not> good (v, Panic)"
  by (simp_all add: good_def)

lemma good_try:
  "vfs_inv v \<Longrightarrow> r \<noteq> Panic \<Longrightarrow> (\<And>a. r = Ok a \<Longrightarrow> good (k a)) \<Longrightarrow> good (try_in v r k)"
  by (cases r) auto

lemma good_then: "good x \<Longrightarrow> (\<And>w a. x = (w, Ok a) \<Longrightarrow> vfs_inv w \<Longrightarrow> good (k w a)) \<Longrightarrow> good (and_then x k)"
  by (cases "(x, k)" rule: and_then.cases) auto

lemma bind_oc_Panic [simp]: "bind_oc r k = Panic \<longleftrightarrow> r = Panic \<or> (\<exists>a. r = Ok a \<and> k a = Panic)"
  by (cases r) auto

lemma inv_try: "vfs_inv v \<Longrightarrow> (\<And>a. r = Ok a \<Longrightarrow> vfs_inv (fst (k a))) \<Longrightarrow> vfs_inv (fst (try_in v r k))"
  by (cases r) auto

lemma inv_then:
  "vfs_inv (fst x) \<Longrightarrow> (\<And>w a. x = (w, Ok a) \<Longrightarrow> vfs_inv (fst (k w a))) \<Longrightarrow> vfs_inv (fst (and_then x k))"
  by (cases "(x, k)" rule: and_then.cases) auto

lemma good_node_mut:
  assumes "\<And>w. raw_get v p = None \<Longrightarrow> raw_get w = raw_get v \<Longrightarrow> vfs_inv w = vfs_inv v \<Longrightarrow> good (absent w)"
    "\<And>w n. raw_get v p = Some n \<Longrightarrow> raw_get w = raw_get v \<Longrightarrow> vfs_inv w = vfs_inv v \<Longrightarrow> good (present w n)"
  shows "good (case node_mut v p of (w, r) \<Rightarrow> case r of None \<Rightarrow> absent w | Some n \<Rightarrow> present w n)"
  by (rule node_mut_cases [of v p]) (simp_all add: assms)

lemma node_mut_inv: "vfs_inv (fst (node_mut v p)) = vfs_inv v"
  by (rule node_mut_cases [of v p]) simp_all

lemma inv_node_mut:
  assumes "\<And>w. raw_get v p = None \<Longrightarrow> vfs_inv w = vfs_inv v \<Longrightarrow> vfs_inv (fst (absent w))"
    "\<And>w n. raw_get v p = Some n \<Longrightarrow> raw_get w = raw_get v \<Longrightarrow> vfs_inv w = vfs_inv v \<Longrightarrow> vfs_inv (fst (present w n))"
  shows "vfs_inv (fst (case node_mut v p of (w, r) \<Rightarrow> case r of None \<Rightarrow> absent w | Some n \<Rightarrow> present w n))"
  by (rule node_mut_cases [of v p]) (simp_all add: assms)

lemma realpath_inner_no_panic: "realpath_inner v p follow depth \<noteq> Panic"
proof (induction v p follow depth rule: realpath_inner.induct)
  case (1 v p follow depth)
  then show ?case
    by (subst realpath_inner.simps) (auto simp: Let_def split: option.splits node_kind.splits)
qed

lemma query_no_panic [no_panic, simp]:
  "reject_pseudo_mutation p \<noteq> Panic" "check_path_limits p \<noteq> Panic" "realpath v p follow \<noteq> Panic"
  "usage_after_adding v u \<noteq> Panic" "usage_after_delta v d \<noteq> Panic" "projected_usage_after_replacement v p u \<noteq> Panic"
  "check_inode_capacity v c \<noteq> Panic"
  by (simp_all add: reject_pseudo_mutation_def check_path_limits_def realpath_def realpath_inner_no_panic usage_after_adding_def
      usage_after_delta_def projected_usage_after_replacement_def check_inode_capacity_def Let_def)

lemma write_target_no_panic [no_panic, simp]: "write_target v cwd p \<noteq> Panic"
  by (auto simp: write_target_def Let_def intro!:)

lemma lookup_no_panic [no_panic, simp]:
  "require_parent_dir v p \<noteq> Panic" "metadata v cwd p follow \<noteq> Panic" "list_dir v cwd p \<noteq> Panic" "file_len v cwd p \<noteq> Panic"
  "append_growth v t p bs \<noteq> Panic"
  by (auto simp: require_parent_dir_def metadata_def metadata_ref_def list_dir_def file_len_def append_growth_def Let_def
      split: option.splits node_kind.splits)

lemma missing_no_panic [no_panic, simp]: "missing_directories v p \<noteq> Panic"
proof -
  have "missing_from v current cs additions \<noteq> Panic" for current cs additions
    by (induction cs arbitrary: current additions) (simp_all add: Let_def split: option.split)
  then show ?thesis by (simp add: missing_directories_def)
qed

lemma good_insert_fresh: "vfs_inv v \<Longrightarrow> good (insert_fresh_file v p bs m)"
  by (erule allocate_inode_cases) (simp_all add: insert_fresh_file_def vfs_inv_insert file_node_def)

lemma good_put_contents: "vfs_inv v \<Longrightarrow> good (put_contents v p change bs m)"
  unfolding put_contents_def
  by (intro good_node_mut) (auto simp: good_insert_fresh vfs_inv_set_node split: node_kind.splits)

lemma good_write: "vfs_inv v \<Longrightarrow> good (write_file v cwd p bs m)"
  unfolding write_file_def Let_def by (auto intro!: good_try good_then good_put_contents)

lemma good_append:
  assumes "vfs_inv v" "case write_target v cwd p of Ok t \<Rightarrow> \<not> append_overflow v t bs | _ \<Rightarrow> True"
  shows "good (append_file v cwd p bs m)"
  using assms unfolding append_file_def by (auto intro!: good_try good_then good_put_contents)

lemma vfs_inv_append: "vfs_inv v \<Longrightarrow> vfs_inv (fst (append_file v cwd p bs m))"
proof -
  assume inv: "vfs_inv v"
  have "good (and_then (put_contents v t (\<lambda>d. d @ bs) bs m) (\<lambda>v1 _. (record_usage v1 used, Ok ())))" for t used
    by (intro good_then good_put_contents inv) simp
  then show ?thesis unfolding append_file_def using inv by (auto intro!: inv_try simp: good_def node_mut_inv)
qed

lemma good_write_at: "vfs_inv v \<Longrightarrow> off + length bs \<le> MAX_VEC \<Longrightarrow> good (write_at v cwd p off bs)"
  unfolding write_at_def
  by (auto simp: checked_end_def intro!: good_try good_node_mut vfs_inv_set_node split: option.splits node_kind.splits if_splits)

lemma vfs_inv_write_at: "vfs_inv v \<Longrightarrow> vfs_inv (fst (write_at v cwd p off bs))"
  unfolding write_at_def by (auto intro!: inv_try inv_node_mut vfs_inv_set_node split: node_kind.splits)

lemma good_add_node:
  assumes "vfs_inv v" "\<And>i t. inode (build i t) = i"
  shows "good (add_node v p build)"
  using assms(1)
  by (rule allocate_inode_cases) (auto simp: add_node_def Let_def assms intro!: good_try vfs_inv_insert)

lemma good_mkdir: "vfs_inv v \<Longrightarrow> good (mkdir v cwd p)"
  unfolding mkdir_def by (auto intro!: good_try good_add_node simp: dir_node_def)

lemma good_symlink: "vfs_inv v \<Longrightarrow> good (symlink v cwd t p)"
  unfolding symlink_def by (auto intro!: good_try good_add_node)

lemma good_touch: "vfs_inv v \<Longrightarrow> good (touch v cwd p t)"
  unfolding touch_def
  by (auto intro!: good_try good_node_mut good_add_node vfs_inv_set_node simp: file_node_def)

lemma good_insert_each: "vfs_inv v \<Longrightarrow> good (insert_each v ps)"
proof (induction ps arbitrary: v)
  case (Cons p ps)
  from Cons.prems show ?case
    by (rule allocate_inode_cases) (auto simp: dir_node_def intro!: Cons.IH vfs_inv_insert)
qed simp

lemma good_insert_directories: "vfs_inv v \<Longrightarrow> good (insert_directories v ps)"
  unfolding insert_directories_def by (auto intro!: good_try good_insert_each)

lemma good_mkdir_all: "vfs_inv v \<Longrightarrow> good (mkdir_all v cwd p)"
  unfolding mkdir_all_def Let_def by (auto intro!: good_try good_then good_insert_directories)

lemma vfs_inv_remove: "vfs_inv v \<Longrightarrow> vfs_inv (fst (remove_node v p))"
  by (rule remove_node_cases [of v p]) simp_all

lemma good_remove_file: "vfs_inv v \<Longrightarrow> good (remove_file v cwd p)"
  unfolding remove_file_def Let_def by (auto intro!: good_try vfs_inv_remove split: option.splits)

lemma vfs_inv_remove_each: "vfs_inv v \<Longrightarrow> vfs_inv (remove_each v ks)"
  unfolding remove_each_def by (induction ks arbitrary: v) (simp_all add: vfs_inv_remove)

lemma good_remove_all: "vfs_inv v \<Longrightarrow> good (remove_all v cwd p)"
  unfolding remove_all_def Let_def by (auto intro!: good_try vfs_inv_remove_each)

lemma good_rmdir: "vfs_inv v \<Longrightarrow> good (rmdir v cwd p)"
  unfolding rmdir_def Let_def by (auto intro!: good_try vfs_inv_remove split: option.splits)

lemma good_unlink:
  assumes "vfs_inv v"
  shows "good (unlink_open_file v cwd p)"
proof -
  have "good (case remove_node (v\<lparr>next_orphan := j\<rparr>) real of
          (w, Some n) \<Rightarrow> (refresh_usage (w\<lparr>orphaned := om_insert (next_orphan v) n (orphaned w)\<rparr>), Ok (next_orphan v))
        | (w, None) \<Rightarrow> (w, Panic))"
    if j: "checked_add (next_orphan v) 1 = Some j" and reg: "map_option kind (raw_get v real) = Some (NFile bs)" for j real bs
  proof -
    have lt: "next_orphan v < j" using j by (simp add: word_less_nat_alt rust_arith)
    have ids: "k < next_orphan v" if "om_lookup (orphaned v) k = Some n" for k n
      using assms that by (simp add: vfs_inv_iff tree_ok_def)
    have "tree_ok (raw_get v) (node_count v) (om_lookup (orphaned v)) j (next_inode v)"
      by (rule tree_ok_ids [OF assms [unfolded vfs_inv_iff]]) (rule less_trans [OF ids lt])
    then have "vfs_inv (v\<lparr>next_orphan := j\<rparr>)" by (simp add: vfs_inv_iff raw_get_same_tree)
    then show ?thesis
    proof (cases rule: remove_node_cases [where p = real])
      case (removed w n)
      have n: "is_file_kind (kind n)" using removed(1) reg by (auto simp: raw_get_same_tree)
      have "tree_ok (raw_get w) (node_count w) (om_lookup (orphaned w)) (next_orphan v) (next_inode w)"
        by (rule tree_ok_ids [OF removed(3) [unfolded vfs_inv_iff]]) (use ids removed(6) in simp)
      from tree_ok_orphan [OF this _ n lt] removed(4)
      have "tree_ok (raw_get w) (node_count w) ((om_lookup (orphaned w))(next_orphan v \<mapsto> n)) j (next_inode w)" .
      moreover have "(om_lookup (orphaned w))(next_orphan v \<mapsto> n) = om_lookup (om_insert (next_orphan v) n (orphaned w))"
        by (auto simp: om_lookup_insert)
      ultimately have "vfs_inv (w\<lparr>orphaned := om_insert (next_orphan v) n (orphaned w)\<rparr>)"
        using removed(7) by (simp add: vfs_inv_iff raw_get_same_tree)
      then show ?thesis by (simp add: removed(2))
    qed (use reg in \<open>simp add: raw_get_same_tree\<close>)
  qed
  then show ?thesis
    unfolding unlink_open_file_def Let_def using assms
    by (auto intro!: good_try split: option.split node_kind.split)
qed

lemma orphan_bytes_no_panic: "vfs_inv v \<Longrightarrow> orphan_bytes v j \<noteq> Panic"
proof -
  assume "vfs_inv v"
  then have "is_file_kind (kind n)" if "om_lookup (orphaned v) j = Some n" for n
    using that by (auto simp: vfs_inv_iff tree_ok_def)
  then show ?thesis
    by (auto simp: orphan_bytes_def orphan_metadata_def ok_or_def split: option.splits node_kind.splits)
qed

lemma orphan_bytes_Ok: "orphan_bytes v j = Ok (n, bs) \<longleftrightarrow> om_lookup (orphaned v) j = Some n \<and> kind n = NFile bs"
  by (auto simp: orphan_bytes_def orphan_metadata_def ok_or_def split: option.splits node_kind.splits)

lemma vfs_inv_set_orphan:
  assumes "vfs_inv v" "om_lookup (orphaned v) j = Some n"
  shows "vfs_inv (set_orphan v j n bs)"
proof -
  have "om_lookup (om_insert j m (orphaned v)) = (om_lookup (orphaned v))(j \<mapsto> m)" for m
    by (auto simp: om_lookup_insert)
  then show ?thesis
    using tree_ok_orphan_update [OF assms(1) [unfolded vfs_inv_iff] assms(2)]
    by (simp add: vfs_inv_iff set_orphan_def raw_get_same_tree)
qed

lemma good_write_orphan: "vfs_inv v \<Longrightarrow> off + length bs \<le> MAX_VEC \<Longrightarrow> good (write_orphan_at v j off bs)"
  unfolding write_orphan_at_def Let_def
  by (auto intro!: good_try vfs_inv_set_orphan simp: orphan_bytes_no_panic orphan_bytes_Ok checked_end_def split: if_splits)

lemma good_resize_orphan: "vfs_inv v \<Longrightarrow> k \<le> MAX_VEC \<Longrightarrow> good (resize_orphan v j k)"
  unfolding resize_orphan_def Let_def
  by (auto intro!: good_try vfs_inv_set_orphan simp: orphan_bytes_no_panic orphan_bytes_Ok)

lemma vfs_inv_orphan_writes:
  assumes "vfs_inv v"
  shows "vfs_inv (fst (write_orphan_at v j off bs))" "vfs_inv (fst (resize_orphan v j k))"
  using assms unfolding write_orphan_at_def resize_orphan_def Let_def
  by (auto intro!: inv_try vfs_inv_set_orphan simp: orphan_bytes_Ok)

lemma good_read_orphan: "vfs_inv v \<Longrightarrow> good (read_orphan_range v j off k)"
  unfolding read_orphan_range_def Let_def by (auto intro!: good_try simp: orphan_bytes_no_panic)

lemma vfs_inv_retain_orphans:
  assumes "vfs_inv v"
  shows "vfs_inv (retain_orphans v live)"
proof -
  have "om_lookup (om_retain (\<lambda>i n. i \<in> live) (orphaned v)) k = Some n \<Longrightarrow> om_lookup (orphaned v) k = Some n" for k n
    by (auto simp: om_lookup_retain split: option.splits if_splits)
  from tree_ok_orphan_subset [OF assms [unfolded vfs_inv_iff], OF this]
  have "vfs_inv (v\<lparr>orphaned := om_retain (\<lambda>i n. i \<in> live) (orphaned v)\<rparr>)"
    by (simp add: vfs_inv_iff raw_get_same_tree)
  then show ?thesis by (simp add: retain_orphans_def Let_def)
qed

lemma good_chmod: "vfs_inv v \<Longrightarrow> good (chmod v cwd p m)"
  unfolding chmod_def Let_def by (auto intro!: good_try good_node_mut vfs_inv_set_node)

lemma good_chown: "vfs_inv v \<Longrightarrow> good (chown v cwd p u g)"
  unfolding chown_def Let_def by (auto intro!: good_try good_node_mut vfs_inv_set_node)

lemma vfs_inv_set_mtime: "vfs_inv v \<Longrightarrow> vfs_inv (set_mtime v p t)"
  unfolding set_mtime_def by (rule node_mut_cases [of v p]) (auto intro!: vfs_inv_set_node)

lemma rename_delta_no_panic:
  "(\<And>k. k \<in> set ks \<Longrightarrow> raw_get v k \<noteq> None) \<Longrightarrow> rename_delta v from_real to_target subtree ks d \<noteq> Panic"
proof (induction ks arbitrary: d)
  case (Cons k ks)
  then obtain n where "raw_get v k = Some n" by (meson list.set_intros(1) not_None_eq)
  then show ?case using Cons by (simp add: Let_def)
qed simp

lemma copy_delta_no_panic:
  "(\<And>k. k \<in> set ks \<Longrightarrow> raw_get v k \<noteq> None) \<Longrightarrow> copy_delta v from_real to_target ks d \<noteq> Panic"
proof (induction ks arbitrary: d)
  case (Cons k ks)
  then obtain n where "raw_get v k = Some n" by (meson list.set_intros(1) not_None_eq)
  then show ?case using Cons by (simp add: Let_def)
qed simp

lemma good_move_each:
  assumes "vfs_inv v" "distinct ks" "\<And>k. k \<in> set ks \<Longrightarrow> raw_get v k \<noteq> None"
  shows "good (move_each v from_real to_target ks)"
  using assms
proof (induction ks arbitrary: v)
  case (Cons k ks)
  from Cons.prems(1) show ?case
  proof (cases rule: remove_node_cases [where p = k])
    case (removed w n)
    let ?u = "insert_node w (moved_key from_real to_target k) n"
    have "good (move_each ?u from_real to_target ks)"
    proof (rule Cons.IH)
      show "vfs_inv ?u" using removed by (simp add: vfs_inv_insert)
      show "distinct ks" using Cons.prems by simp
      show "raw_get ?u l \<noteq> None" if "l \<in> set ks" for l
        using that Cons.prems removed(5) by (auto simp: raw_get_insert_node)
    qed
    then show ?thesis by (simp add: removed(2))
  qed (use Cons.prems(3) in simp)
qed simp

lemma good_rename: "vfs_inv v \<Longrightarrow> good (rename_path v cwd from to)"
  unfolding rename_path_def Let_def
  by (auto intro!: good_try good_then good_move_each rename_delta_no_panic simp: walk_distinct walk_set)

lemma good_copy_each:
  assumes "vfs_inv v" "\<And>k. k \<in> set ks \<Longrightarrow> raw_get v k \<noteq> None"
  shows "good (copy_each v from_real to_target preserve ks)"
  using assms
proof (induction ks arbitrary: v)
  case (Cons k ks)
  then obtain n where n: "raw_get v k = Some n" by (meson list.set_intros(1) not_None_eq)
  from Cons.prems(1) show ?case
  proof (cases rule: allocate_inode_cases)
    case (fresh w)
    let ?m = "n\<lparr>inode := next_inode v, mtime := (if preserve then mtime n else mutation_time_ms w)\<rparr>"
    have "good (copy_each (insert_node w (moved_key from_real to_target k) ?m) from_real to_target preserve ks)"
      using Cons.prems(2) fresh by (intro Cons.IH vfs_inv_insert) (auto simp: raw_get_insert_node)
    then show ?thesis by (simp add: n fresh(1) Let_def)
  qed (simp add: n)
qed simp

lemma read_non_regular:
  assumes "metadata v cwd p True = Ok n" "\<not> is_file_kind (kind n)"
  shows "read_file v cwd p = (v, Err (if kind n = NDir then IsADir p
    else case kind n of NNative _ \<Rightarrow> Invalid (''opaque native executable: '' @ p) | _ \<Rightarrow> NotFound p))"
  using assms by (auto simp: metadata_def metadata_ref_def bind_oc_Ok read_file_def read_regular_def split: node_kind.split)

lemma good_copy_native:
  assumes "vfs_inv v"
  shows "good (copy_native v cwd to n)"
  unfolding copy_native_def
proof (intro good_try assms no_panic)
  fix target
  show "good (and_then (allocate_inode v) (\<lambda>w i.
         let n = n\<lparr>inode := i, mtime := mutation_time_ms w\<rparr>
         in try_in w (projected_usage_after_replacement w target (node_usage w target n))
              (\<lambda>used. (record_usage (insert_node w target n) used, Ok ()))))"
    using assms by (rule allocate_inode_cases) (auto simp: Let_def intro!: good_try vfs_inv_insert)
qed

lemma good_copy_file: "vfs_inv v \<Longrightarrow> good (copy_file v cwd from to)"
  unfolding copy_file_def copy_regular_def
  by (auto intro!: good_try good_then good_copy_native good_put_contents simp: read_non_regular split: node_kind.split)

lemma good_copy_recursive: "vfs_inv v \<Longrightarrow> good (copy_recursive v cwd from to preserve)"
  unfolding copy_recursive_def Let_def
  by (auto intro!: good_try good_then good_copy_file good_chmod good_touch good_copy_each copy_delta_no_panic simp: walk_set)

lemma good_put_file: "vfs_inv v \<Longrightarrow> good (put_file v p bs m)"
  unfolding put_file_def Let_def
  by (auto intro!: good_try good_then good_insert_directories good_insert_fresh split: option.split)

lemma good_put_dir: "vfs_inv v \<Longrightarrow> good (put_dir v p m)"
  unfolding put_dir_def Let_def
  by (auto intro!: good_try good_then good_mkdir_all good_node_mut vfs_inv_set_node)

lemma vfs_inv_seed_native: "vfs_inv v \<Longrightarrow> vfs_inv (fst (seed_native_executable v p program))"
  by (erule allocate_inode_cases) (simp_all add: seed_native_executable_def Let_def vfs_inv_insert)

lemma vfs_inv_seed_each: "vfs_inv v \<Longrightarrow> vfs_inv (fst (seed_each v ps))"
proof (induction ps arbitrary: v)
  case (Cons p ps)
  from Cons.prems show ?case
    by (rule allocate_inode_cases) (auto simp: Let_def dir_node_def intro!: Cons.IH vfs_inv_insert)
qed simp

lemma vfs_inv_seed_dirs: "vfs_inv v \<Longrightarrow> vfs_inv (fst (seed_dirs v ps))"
  unfolding seed_dirs_def Let_def by (intro inv_then vfs_inv_seed_each) (auto dest: vfs_inv_seed_each [of v ps])

lemma vfs_inv_resize_file: "vfs_inv v \<Longrightarrow> vfs_inv (fst (resize_file v cwd p k))"
  unfolding resize_file_def Let_def by (auto intro!: inv_try inv_node_mut vfs_inv_set_node split: node_kind.splits)

text \<open>Seeding does not panic as long as the inodes last.\<close>

lemma allocate_inode_room:
  "unat (next_inode v) + 1 < 2 ^ 64 \<Longrightarrow> allocate_inode v = (v\<lparr>next_inode := next_inode v + 1\<rparr>, Ok (next_inode v))"
  by (simp add: allocate_inode_def check_inode_capacity_def checked_add_def)

lemma seed_each_room:
  "unat (next_inode v) + length ps < 2 ^ 64 \<Longrightarrow> snd (seed_each v ps) = Ok ()"
proof (induction ps arbitrary: v)
  case (Cons p ps)
  have "unat (next_inode v + 1) = unat (next_inode v) + 1" using Cons.prems by (simp add: unat_word_ariths)
  moreover have "next_inode (insert_node w q n) = next_inode w" for w q n by (simp add: insert_node_def Let_def)
  ultimately show ?case using Cons.prems by (simp add: allocate_inode_room Let_def Cons.IH)
qed simp

lemma seed_room:
  "unat (next_inode v) + length ps < 2 ^ 64 \<Longrightarrow> snd (seed_dirs v ps) = Ok ()"
  "unat (next_inode v) + 1 < 2 ^ 64 \<Longrightarrow> snd (seed_native_executable v p program) = Ok ()"
  using seed_each_room [of v ps]
  by (cases "seed_each v ps", auto simp: seed_dirs_def seed_native_executable_def allocate_inode_room Let_def)

section \<open>Sequences of calls\<close>

datatype vfs_op =
    VWrite string string bytes u32 | VAppend string string bytes u32 | VWriteAt string string nat bytes
  | VResize string string nat | VMkdir string string | VMkdirAll string string | VSymlink string string string
  | VTouch string string u64 | VRemoveFile string string | VUnlinkOpen string string | VWriteOrphan u64 nat bytes
  | VResizeOrphan u64 nat | VReadOrphan u64 nat nat | VRetainOrphans "u64 set" | VRemoveAll string string
  | VRmdir string string | VRename string string string | VCopyFile string string string
  | VCopyRecursive string string string bool | VChmod string string u32 | VChown string string "u32 option" "u32 option"
  | VSetMtime string u64 | VPutFile string bytes u32 | VPutDir string u32 | VSetTime u64 | VRead string string
  | VReadLimited string string nat | VReadRange string string nat nat
  | VSeedDirs "string list" | VSeedNative string native_program | VRemount u64

abbreviation forget :: "'a vfs_result \<Rightarrow> unit vfs_result" where
  "forget \<equiv> map_ok (\<lambda>_. ())"

definition remount :: "vfs \<Rightarrow> u64 \<Rightarrow> unit vfs_result" where
  \<comment> \<open>freeze the tree of a machine and start a session over it\<close>
  "remount v limit = (case from_base (freeze v) limit of
       Ok w \<Rightarrow> (w, Ok ()) | Err e \<Rightarrow> (v, Err e) | Panic \<Rightarrow> (v, Panic))"

fun vfs_run :: "vfs \<Rightarrow> vfs_op \<Rightarrow> unit vfs_result" where
  "vfs_run v (VWrite cwd p bs m) = write_file v cwd p bs m"
| "vfs_run v (VAppend cwd p bs m) = append_file v cwd p bs m"
| "vfs_run v (VWriteAt cwd p off bs) = write_at v cwd p off bs"
| "vfs_run v (VResize cwd p k) = resize_file v cwd p k"
| "vfs_run v (VMkdir cwd p) = mkdir v cwd p"
| "vfs_run v (VMkdirAll cwd p) = mkdir_all v cwd p"
| "vfs_run v (VSymlink cwd t p) = symlink v cwd t p"
| "vfs_run v (VTouch cwd p t) = touch v cwd p t"
| "vfs_run v (VRemoveFile cwd p) = remove_file v cwd p"
| "vfs_run v (VUnlinkOpen cwd p) = forget (unlink_open_file v cwd p)"
| "vfs_run v (VWriteOrphan j off bs) = write_orphan_at v j off bs"
| "vfs_run v (VResizeOrphan j k) = resize_orphan v j k"
| "vfs_run v (VReadOrphan j off k) = forget (read_orphan_range v j off k)"
| "vfs_run v (VRetainOrphans live) = (retain_orphans v live, Ok ())"
| "vfs_run v (VRemoveAll cwd p) = remove_all v cwd p"
| "vfs_run v (VRmdir cwd p) = rmdir v cwd p"
| "vfs_run v (VRename cwd a b) = rename_path v cwd a b"
| "vfs_run v (VCopyFile cwd a b) = copy_file v cwd a b"
| "vfs_run v (VCopyRecursive cwd a b preserve) = copy_recursive v cwd a b preserve"
| "vfs_run v (VChmod cwd p m) = chmod v cwd p m"
| "vfs_run v (VChown cwd p u g) = chown v cwd p u g"
| "vfs_run v (VSetMtime p t) = (set_mtime v p t, Ok ())"
| "vfs_run v (VPutFile p bs m) = put_file v p bs m"
| "vfs_run v (VPutDir p m) = put_dir v p m"
| "vfs_run v (VSetTime t) = (set_mutation_time v t, Ok ())"
| "vfs_run v (VRead cwd p) = forget (read_file v cwd p)"
| "vfs_run v (VReadLimited cwd p k) = forget (read_limited v cwd p k)"
| "vfs_run v (VReadRange cwd p off k) = forget (read_range v cwd p off k)"
| "vfs_run v (VSeedDirs ps) = seed_dirs v ps"
| "vfs_run v (VSeedNative p program) = seed_native_executable v p program"
| "vfs_run v (VRemount limit) = remount v limit"

lemma good_forget [simp]: "good (forget x) = good x"
  by (simp add: good_def)

lemma good_read_regular:
  "vfs_inv v \<Longrightarrow> (\<And>bs. good (serve bs)) \<Longrightarrow> good (read_regular v cwd p serve)"
  unfolding read_regular_def by (auto intro!: good_try split: option.split node_kind.split)

lemma good_reads:
  assumes "vfs_inv v"
  shows "good (read_file v cwd p)" "good (read_limited v cwd p k)" "good (read_range v cwd p off k)"
  using assms
  by (auto simp: read_file_def read_limited_def read_shared_limited_def read_range_def Let_def intro!: good_read_regular)

lemma good_remount:
  assumes "vfs_inv v"
  shows "good (remount v limit)"
proof (cases "limit < ft_disk_used (freeze v)")
  case True
  then show ?thesis using assms by (simp add: remount_def from_base_def)
next
  case False
  let ?w = "fst (remount v limit)"
  have nodes: "om_lookup (ft_nodes (freeze v)) = raw_get v" "ft_next_inode (freeze v) = next_inode v"
    by (simp_all add: freeze_def Let_def map_of_om_of_list sorted_keys_distinct all_paths_sorted map_of_all_paths)
  have w: "base ?w = freeze v" "overlay ?w = om_empty" "node_count ?w = om_size (ft_nodes (freeze v))"
    "orphaned ?w = om_empty" "next_inode ?w = ft_next_inode (freeze v)"
    using False by (simp_all add: remount_def from_base_def)
  have "raw_get ?w = raw_get v" by (rule ext) (simp add: raw_get_def w nodes)
  then have "vfs_inv ?w"
    using assms unfolding vfs_inv_iff tree_ok_def by (simp add: w nodes om_size_card dom_def)
  then show ?thesis using False by (simp add: good_def remount_def from_base_def)
qed

text \<open>When a call reaches none of its panics: seeding has an inode for every node, what is resized is a regular
  file, and no file grows past the capacity of a \<open>Vec\<close>.\<close>

fun safe_op :: "vfs \<Rightarrow> vfs_op \<Rightarrow> bool" where
  "safe_op v (VSeedDirs ps) = (unat (next_inode v) + length ps < 2 ^ 64)"
| "safe_op v (VSeedNative _ _) = (unat (next_inode v) + 1 < 2 ^ 64)"
| "safe_op v (VResize cwd path k) = (k \<le> MAX_VEC \<and> resolve_against cwd path \<noteq> ''/'' \<and> (case write_target v cwd path of
       Ok target \<Rightarrow> (case raw_get v target of Some n \<Rightarrow> is_file_kind (kind n) | None \<Rightarrow> True)
     | _ \<Rightarrow> True))"
| "safe_op v (VResizeOrphan _ k) = (k \<le> MAX_VEC)"
| "safe_op v (VWriteAt _ _ off bs) = (off + length bs \<le> MAX_VEC)"
| "safe_op v (VWriteOrphan _ off bs) = (off + length bs \<le> MAX_VEC)"
| "safe_op v (VAppend cwd path bs _) = (case write_target v cwd path of Ok target \<Rightarrow> \<not> append_overflow v target bs | _ \<Rightarrow> True)"
| "safe_op v _ = True"

lemma vfs_run_good:
  assumes "vfs_inv v" "safe_op v op" "\<nexists>cwd p k. op = VResize cwd p k"
  shows "good (vfs_run v op)"
  using assms
  by (cases op) (simp_all add: good_write good_append good_write_at good_mkdir good_mkdir_all good_symlink good_touch
      good_remove_file good_unlink good_write_orphan good_resize_orphan good_read_orphan vfs_inv_retain_orphans
      good_remove_all good_rmdir good_rename good_copy_file good_copy_recursive good_chmod good_chown vfs_inv_set_mtime
      good_put_file good_put_dir set_mutation_time_def good_reads good_remount seed_room good_def [of "seed_dirs v ps" for ps]
      good_def [of "seed_native_executable v p program" for p program] vfs_inv_seed_dirs vfs_inv_seed_native)

lemma vfs_run_inv: "vfs_inv v \<Longrightarrow> vfs_inv (fst (vfs_run v op))"
proof -
  assume inv: "vfs_inv v"
  show ?thesis
  proof (cases "safe_op v op \<and> (\<nexists>cwd p k. op = VResize cwd p k)")
    case True
    then show ?thesis using vfs_run_good [OF inv, of op] by (simp add: good_def)
  next
    case False
    then show ?thesis using inv
      by (cases op) (simp_all add: vfs_inv_resize_file vfs_inv_seed_dirs vfs_inv_seed_native vfs_inv_append
          vfs_inv_write_at vfs_inv_orphan_writes)
  qed
qed

interpretation vsys: op_system vfs_run vfs_inv
  by unfold_locales (rule vfs_run_inv)

lemma vfs_inv_initial: "vfs_inv (with_disk_limit limit)"
  by (simp add: vfs_inv_iff raw_get_with_disk_limit tree_ok_def)
    (simp add: with_disk_limit_def Let_def dir_node_def)

section \<open>Where a write lands\<close>

text \<open>Below the root and away from links, the path a write goes to is the path a read resolves to.\<close>

lemma resolve_against_clean: "clean_path (resolve_against cwd path)"
  using normalize_clean by (simp add: resolve_against_def)

lemma realpath_False:
  assumes "clean_path p" "p \<noteq> ''/''" "realpath v p True = Ok r"
  obtains rp where "realpath v (case parent_of p of Some d \<Rightarrow> d | None \<Rightarrow> ''/'') True = Ok rp"
    "realpath v p False = Ok (child_path rp (basename p))"
    "link_at v (child_path rp (basename p)) = None \<Longrightarrow> r = child_path rp (basename p)"
proof -
  let ?parent = "case parent_of p of Some d \<Rightarrow> d | None \<Rightarrow> ''/''"
  obtain rp where rp: "realpath_inner v ?parent True (Suc 0) = Ok rp"
    and rest: "(case link_at v (child_path rp (basename p)) of
             Some target \<Rightarrow> realpath_inner v (resolve_against rp target) True (Suc 0)
           | None \<Rightarrow> Ok (child_path rp (basename p))) = Ok r"
    using assms(2,3) unfolding realpath_def realpath_link_at [of v p True 0] by (auto simp: bind_oc_Ok)
  have "realpath v p False = Ok (child_path rp (basename p))"
    using assms(2) unfolding realpath_def realpath_link_at [of v p False 0] by (simp add: rp)
  moreover have "realpath v ?parent True = Ok rp"
    unfolding realpath_def by (rule realpath_inner_shallower [OF rp])
  moreover have "link_at v (child_path rp (basename p)) = None \<Longrightarrow> r = child_path rp (basename p)"
    using rest by simp
  ultimately show thesis using that by simp
qed

lemma write_target_eq:
  assumes "resolve_against cwd path \<noteq> ''/''" "realpath v (resolve_against cwd path) True = Ok r"
    "\<not> is_symlink v cwd path" "write_target v cwd path = Ok target"
  shows "target = r" "link_at v r = None"
proof -
  let ?p = "resolve_against cwd path"
  obtain rp where rp: "realpath v (case parent_of ?p of Some d \<Rightarrow> d | None \<Rightarrow> ''/'') True = Ok rp"
    "realpath v ?p False = Ok (child_path rp (basename ?p))"
    "link_at v (child_path rp (basename ?p)) = None \<Longrightarrow> r = child_path rp (basename ?p)"
    using realpath_False [OF resolve_against_clean assms(1,2)] by metis
  have "target = child_path rp (basename ?p)"
    using assms(4) rp(1) by (auto simp: write_target_def Let_def bind_oc_Ok)
  moreover have "link_at v (child_path rp (basename ?p)) = None"
    using assms(3) rp(2) by (auto simp: is_symlink_def node_kind_at_def link_at_def split: option.splits node_kind.splits)
  ultimately show "target = r" "link_at v r = None" using rp(3) by auto
qed

lemma realpath_cong: "link_at w = link_at v \<Longrightarrow> realpath w p follow = realpath v p follow"
  unfolding realpath_def by (rule realpath_inner_cong)

lemma link_at_update:
  assumes "raw_get w = (raw_get v)(p \<mapsto> n)" "link_at v p = None" "\<not> is_symlink_kind (kind n)"
  shows "link_at w = link_at v"
proof (rule ext)
  fix x
  have "raw_get w p = Some n" by (simp add: assms(1))
  then have "link_at w p = None" using assms(3) by (cases "kind n") (simp_all add: link_at_def)
  moreover have "raw_get w x = raw_get v x" if "x \<noteq> p" using that by (simp add: assms(1))
  ultimately show "link_at w x = link_at v x" using assms(2) by (cases "x = p") (simp_all add: link_at_def)
qed

lemma put_contents_Ok:
  assumes "put_contents v p change bs m = (w, Ok ())"
  obtains n where "raw_get w = (raw_get v)(p \<mapsto> n)" "mutation_time_ms w = mutation_time_ms v"
    "case raw_get v p of
       Some old \<Rightarrow> (case kind old of NFile d \<Rightarrow> n = old\<lparr>kind := NFile (change d), mtime := mutation_time_ms v\<rparr>
         | _ \<Rightarrow> kind n = NFile bs)
     | None \<Rightarrow> kind n = NFile bs"
proof -
  have fresh: "\<exists>n. raw_get w = (raw_get v1)(p \<mapsto> n) \<and> kind n = NFile bs \<and> mutation_time_ms w = mutation_time_ms v1"
    if ins: "insert_fresh_file v1 p bs m = (w, Ok ())" for v1
  proof -
    obtain v2 i where "allocate_inode v1 = (v2, Ok i)" "w = insert_node v2 p (file_node i bs m (mutation_time_ms v2))"
      using ins by (auto simp: insert_fresh_file_def and_then_Ok)
    moreover from this(1) have "raw_get v2 = raw_get v1" "mutation_time_ms v2 = mutation_time_ms v1"
      using raw_get_bookkeeping(4) [of v1] by (auto simp: allocate_inode_def try_in_Ok)
    moreover have "mutation_time_ms (insert_node v2 p n) = mutation_time_ms v2" for n
      by (simp add: insert_node_def Let_def)
    ultimately show ?thesis by (auto simp: raw_get_insert_node file_node_def)
  qed
  show thesis
  proof (cases rule: node_mut_cases [of v p])
    case (missing v1)
    then have "insert_fresh_file v1 p bs m = (w, Ok ())" using assms by (simp add: put_contents_def)
    then show thesis using fresh [of v1] missing that node_mut_fields(5) [of v p] by auto
  next
    case (found v1 n)
    show thesis
    proof (cases "is_file_kind (kind n)")
      case True
      then obtain d where d: "kind n = NFile d" by (cases "kind n") auto
      then have "w = set_node v1 p (n\<lparr>kind := NFile (change d), mtime := mutation_time_ms v\<rparr>)"
        using assms found by (simp add: put_contents_def)
      then show thesis using that found d node_mut_fields(5) [of v p] by (simp add: raw_get_set_node) (simp add: set_node_def)
    next
      case False
      then have "insert_fresh_file v1 p bs m = (w, Ok ())"
        using assms found by (simp add: put_contents_def split: node_kind.splits)
      then show thesis using fresh [of v1] found that False node_mut_fields(5) [of v p]
        by (cases "kind n") auto
    qed
  qed
qed

lemma write_target_clean:
  assumes "resolve_against cwd path \<noteq> ''/''" "write_target v cwd path = Ok target"
  obtains es c where "list_all clean (es @ [c])" "target = render (es @ [c])" "links_free v es"
proof -
  let ?p = "resolve_against cwd path"
  obtain cs c where p: "list_all clean (cs @ [c])" "?p = render (cs @ [c])"
    using resolve_against_clean [of cwd path] assms(1) by (auto elim: clean_path_cases)
  note r = render_last [OF p(1)]
  obtain rp where rp: "realpath v (render cs) True = Ok rp" "target = child_path rp c"
    using assms(2) by (auto simp: write_target_def Let_def bind_oc_Ok p(2) r)
  have "clean_path (render cs)" using p(1) by (auto simp: clean_path_def)
  then obtain es where es: "list_all clean es" "rp = render es" "links_free v es"
    using realpath_inner_resolved [of "render cs" v True 0 rp] rp(1) by (auto simp: realpath_def resolved_def)
  show thesis
    by (rule that [of es c]) (use es p(1) rp(2) render_last(4) [of es c] in auto)
qed

lemma file_len_missing:
  assumes "list_all clean cs" "links_free v cs" "raw_get v (render cs) = None"
  shows "file_len v ''/'' (render cs) \<noteq> Ok k"
proof -
  have "starts_with (render cs) ''/''" by (cases cs) (simp_all add: starts_with_def render_def)
  then have "resolve_against ''/'' (render cs) = render cs"
    by (simp add: resolve_against_def normalize_of_render assms(1))
  then show ?thesis using realpath_inner_plain [OF assms(1,2), of True 0] assms(3)
    by (simp add: file_len_def realpath_def)
qed

lemma try_in_Panic: "snd (try_in v r k) = Panic \<longleftrightarrow> r = Panic \<or> (\<exists>a. r = Ok a \<and> snd (k a) = Panic)"
  by (cases r) auto

lemma resize_no_panic:
  assumes "safe_op v (VResize cwd path k)"
  shows "snd (resize_file v cwd path k) \<noteq> Panic"
proof (cases "write_target v cwd path")
  case (Ok target)
  have root: "resolve_against cwd path \<noteq> ''/''" using assms by simp
  obtain es c where t: "list_all clean (es @ [c])" "target = render (es @ [c])" "links_free v es"
    by (rule write_target_clean [OF root Ok])
  show ?thesis
  proof (cases "raw_get v target")
    case None
    then have "links_free v (es @ [c])" using t by (simp add: links_free_snoc)
    from file_len_missing [OF t(1) this] None obtain e where "file_len v ''/'' target = Err e"
      using lookup_no_panic(4) [of v "''/''" target] by (cases "file_len v ''/'' target") (auto simp: t(2))
    then show ?thesis using Ok by (simp add: resize_file_def)
  next
    case (Some n)
    then obtain bs where "kind n = NFile bs" "k \<le> MAX_VEC" using assms Ok by (cases "kind n") auto
    moreover obtain v1 where "node_mut v target = (v1, Some n)"
      using Some by (cases rule: node_mut_cases [of v target]) auto
    ultimately show ?thesis by (simp add: resize_file_def Ok Let_def try_in_Panic)
  qed
qed (use write_target_no_panic [of v cwd path] in \<open>simp_all add: resize_file_def\<close>)

section \<open>Properties\<close>

text \<open>C28. After any sequence of file-system calls, sessions over frozen trees included, the node count
  is the number of visible nodes, no inode is used twice or ahead of the allocator, and unlinked
  nodes are regular files with identities that were handed out.\<close>

theorem vfs_invariant: "vfs_inv (run_ops vfs_run (with_disk_limit limit) ops)"
  by (rule vsys.run_ops_inv) (rule vfs_inv_initial)

text \<open>C29. In every reachable state a call does not panic unless it is one of these, which \<open>safe_op\<close> excludes:
  seeding when the inodes run out, resizing something that is not a regular file, and a write, append or
  resize that makes a file longer than \<open>isize::MAX\<close>. No other \<open>expect\<close>, \<open>unwrap\<close> or \<open>unreachable!\<close> of the
  file system is reached.\<close>

theorem vfs_calls_do_not_panic:
  assumes "v = run_ops vfs_run (with_disk_limit limit) ops" "safe_op v op"
  shows "snd (vfs_run v op) \<noteq> Panic"
proof -
  have inv: "vfs_inv v" unfolding assms(1) by (rule vsys.run_ops_inv) (rule vfs_inv_initial)
  show ?thesis
  proof (cases "\<exists>cwd path k. op = VResize cwd path k")
    case True
    then show ?thesis using resize_no_panic assms(2) by auto
  next
    case False
    then show ?thesis using vfs_run_good [OF inv assms(2)] by (simp add: good_def)
  qed
qed

theorem vfs_calls_do_not_panic_witness:
  "snd (vfs_run (run_ops vfs_run (with_disk_limit 1000) [VMkdir ''/'' ''/a'']) (VRename ''/'' ''/a'' ''/b'')) \<noteq> Panic"
  by (rule vfs_calls_do_not_panic [OF refl]) simp

lemma is_symlink_link_at:
  "is_symlink v cwd path = (case realpath v (resolve_against cwd path) False of Ok p \<Rightarrow> link_at v p \<noteq> None | _ \<Rightarrow> False)"
  by (auto simp: is_symlink_def node_kind_at_def link_at_def split: outcome.splits option.splits node_kind.splits)

lemma write_file_Ok:
  assumes "write_file v cwd path data m = (w, Ok ())" "resolve_against cwd path \<noteq> ''/''"
    "realpath v (resolve_against cwd path) True = Ok r" "\<not> is_symlink v cwd path"
  obtains n where "raw_get w = (raw_get v)(r \<mapsto> n)" "kind n = NFile data" "link_at w = link_at v"
    "mutation_time_ms w = mutation_time_ms v"
    "\<And>old. raw_get v r = Some old \<Longrightarrow> is_file_kind (kind old) \<Longrightarrow> n = old\<lparr>kind := NFile data, mtime := mutation_time_ms v\<rparr>"
proof -
  obtain target used w1 where t: "write_target v cwd path = Ok target"
    "put_contents v target (\<lambda>_. data) data m = (w1, Ok ())" "w = record_usage w1 used"
    using assms(1) by (auto simp: write_file_def Let_def try_in_Ok and_then_Ok split: if_splits)
  note target = write_target_eq [OF assms(2-4) t(1)]
  obtain n where n: "raw_get w1 = (raw_get v)(r \<mapsto> n)" "mutation_time_ms w1 = mutation_time_ms v"
    "case raw_get v r of
       Some old \<Rightarrow> (case kind old of NFile d \<Rightarrow> n = old\<lparr>kind := NFile data, mtime := mutation_time_ms v\<rparr>
         | _ \<Rightarrow> kind n = NFile data)
     | None \<Rightarrow> kind n = NFile data"
    using t(2) target(1) by (auto elim: put_contents_Ok)
  have w: "raw_get w = (raw_get v)(r \<mapsto> n)" by (simp add: t(3) raw_get_bookkeeping n(1))
  have k: "kind n = NFile data" using n(3) by (auto split: option.splits node_kind.splits)
  show thesis
  proof (rule that [OF w k])
    show "link_at w = link_at v" by (rule link_at_update [OF w target(2)]) (simp add: k)
    show "mutation_time_ms w = mutation_time_ms v" using n(2) by (simp add: t(3) record_usage_def)
    show "n = old\<lparr>kind := NFile data, mtime := mutation_time_ms v\<rparr>" if "raw_get v r = Some old" "is_file_kind (kind old)" for old
      using n(3) that by (cases "kind old") auto
  qed
qed

lemma append_file_Ok:
  assumes "append_file v cwd path data m = (w, Ok ())" "resolve_against cwd path \<noteq> ''/''"
    "realpath v (resolve_against cwd path) True = Ok r" "\<not> is_symlink v cwd path"
    "raw_get v r = Some old" "kind old = NFile bs"
  shows "raw_get w = (raw_get v)(r \<mapsto> old\<lparr>kind := NFile (bs @ data), mtime := mutation_time_ms v\<rparr>)" "link_at w = link_at v"
proof -
  obtain target used w1 where t: "write_target v cwd path = Ok target"
    "put_contents v target (\<lambda>d. d @ data) data m = (w1, Ok ())" "w = record_usage w1 used"
    using assms(1) by (auto simp: append_file_def try_in_Ok and_then_Ok split: if_splits)
  note target = write_target_eq [OF assms(2-4) t(1)]
  have "raw_get w1 = (raw_get v)(r \<mapsto> old\<lparr>kind := NFile (bs @ data), mtime := mutation_time_ms v\<rparr>)"
    using t(2) target(1) assms(5,6) by (auto elim!: put_contents_Ok)
  then show w: "raw_get w = (raw_get v)(r \<mapsto> old\<lparr>kind := NFile (bs @ data), mtime := mutation_time_ms v\<rparr>)"
    by (simp add: t(3) raw_get_bookkeeping)
  show "link_at w = link_at v" by (rule link_at_update [OF w target(2)]) simp
qed

lemma read_file_at:
  assumes "realpath v (resolve_against cwd path) True = Ok r" "raw_get v r = Some n" "kind n = NFile bs"
  shows "read_file v cwd path = (count_read v (length bs), Ok bs)"
  using assms by (simp add: read_file_def read_regular_def)


text \<open>Unlinking a file that is still open removes its name and nothing else from the tree and keeps
  the node, inode and contents, under a new identity: reading the identity returns what the file
  held, and the name can be created again without touching it.\<close>

theorem unlink_keeps_open_file:
  assumes "vfs_inv v" "unlink_open_file v cwd path = (w, Ok j)"
  shows "\<exists>real n bs. realpath v (resolve_against cwd path) False = Ok real \<and> raw_get v real = Some n \<and> kind n = NFile bs
    \<and> raw_get w = (raw_get v)(real := None)
    \<and> om_lookup (orphaned v) j = None \<and> orphaned w = om_insert j n (orphaned v)
    \<and> read_orphan_range w j 0 (length bs) = (count_read w (length bs), Ok bs)"
proof -
  obtain real where real: "realpath v (resolve_against cwd path) False = Ok real"
    using assms(2) by (auto simp: unlink_open_file_def Let_def try_in_Ok)
  obtain bs where bs: "map_option kind (raw_get v real) = Some (NFile bs)"
    using assms(2) real by (auto simp: unlink_open_file_def Let_def try_in_Ok split: option.splits node_kind.splits)
  then obtain n where n: "raw_get v real = Some n" "kind n = NFile bs" by auto
  obtain next_id where j: "checked_add (next_orphan v) 1 = Some next_id"
    using assms(2) real n by (auto simp: unlink_open_file_def Let_def try_in_Ok)
  let ?u = "v\<lparr>next_orphan := next_id\<rparr>"
  obtain w1 where w1: "remove_node ?u real = (w1, Some n)"
    using n(1) raw_get_same_tree(3) [of next_id v] by (simp add: remove_node_def Let_def)
  then have fields: "raw_get w1 = (raw_get v)(real := None)" "orphaned w1 = orphaned v"
    using raw_get_remove_node [of ?u real]
    by (simp add: raw_get_same_tree) (use w1 in \<open>auto simp: remove_node_def Let_def split: option.splits if_splits\<close>)
  have w: "w = refresh_usage (w1\<lparr>orphaned := om_insert j n (orphaned v)\<rparr>)" "j = next_orphan v"
    using assms(2) real n j w1 fields(2) by (auto simp: unlink_open_file_def Let_def try_in_Ok)
  have orph: "orphaned w = om_insert j n (orphaned v)" by (simp add: w(1) refresh_usage_def)
  have "om_lookup (orphaned v) j = None"
    using assms(1) w(2) by (cases "om_lookup (orphaned v) j") (auto simp: vfs_inv_iff tree_ok_def)
  moreover have "read_orphan_range w j 0 (length bs) = (count_read w (length bs), Ok bs)"
    by (simp add: read_orphan_range_def orphan_bytes_def orphan_metadata_def orph n(2) range_of_def Let_def)
  ultimately show ?thesis
    using real n orph fields(1) by (auto simp: w(1) raw_get_bookkeeping raw_get_same_tree)
qed

text \<open>Without a limit, writing to an existing regular file succeeds.\<close>

lemma put_existing:
  assumes "raw_get v t = Some n" "kind n = NFile bs"
  shows "\<exists>w. put_contents v t change data m = (w, Ok ()) \<and> disk_limit w = disk_limit v"
proof -
  obtain v1 where v1: "node_mut v t = (v1, Some n)" using assms(1) by (cases rule: node_mut_cases [of v t]) auto
  then have "disk_limit v1 = disk_limit v" by (auto simp: node_mut_def split: if_splits option.splits)
  then show ?thesis using v1 by (simp add: put_contents_def assms(2) set_node_def)
qed

lemma unlimited [simp]: "\<not> u64_max < x"
  by (simp add: not_less)

lemma unlimited_writes:
  assumes "write_target v cwd path = Ok t" "require_parent_dir v t = Ok ()" "raw_get v t = Some n" "kind n = NFile bs"
    "disk_limit v = u64_max" "length bs + length data \<le> MAX_VEC"
  shows "\<exists>w. write_file v cwd path data m = (w, Ok ()) \<and> disk_limit w = u64_max"
    "\<exists>w. append_file v cwd path data m = (w, Ok ()) \<and> disk_limit w = u64_max"
  using put_existing [OF assms(3,4), of "\<lambda>_. data" data m] put_existing [OF assms(3,4), of "\<lambda>d. d @ data" data m] assms
  by (auto simp: write_file_def append_file_def append_growth_def projected_usage_after_replacement_def
      usage_after_adding_def kind_is_dir_def record_usage_def append_overflow_def Let_def)

lemma linked_vfs_limit: "disk_limit linked_vfs = u64_max"
  by (simp add: linked_vfs_def insert_node_def new_vfs_def with_disk_limit_def Let_def)

lemma linked_vfs_target: "write_target linked_vfs ''/'' ''a/f'' = Ok ''/a/f''"
  by (simp add: write_target_def linked_vfs_tree path_eval reject_pseudo_mutation_def check_path_limits_def PATH_MAX_def NAME_MAX_def)


lemma vfs_inv_linked: "vfs_inv linked_vfs"
proof -
  let ?v = "new_vfs\<lparr>next_inode := 5\<rparr>"
  have fields: "raw_get ?v = [''/'' \<mapsto> dir_node 1 493 0]" "orphaned ?v = om_empty" "next_inode ?v = 5" "node_count ?v = 1"
    by (simp_all add: raw_get_same_tree new_vfs_def raw_get_with_disk_limit) (simp_all add: with_disk_limit_def Let_def)
  then have "vfs_inv ?v" by (simp add: vfs_inv_iff tree_ok_def dir_node_def)
  moreover have "orphaned (insert_node v p n) = orphaned v" "next_inode (insert_node v p n) = next_inode v" for v p n
    by (simp_all add: insert_node_def Let_def)
  ultimately show ?thesis unfolding linked_vfs_def
    by (intro vfs_inv_insert) (auto simp: raw_get_insert_node fields unused_def dir_node_def file_node_def split: if_splits)
qed

theorem unlink_keeps_open_file_witness:
  "\<exists>w j. unlink_open_file linked_vfs ''/'' ''a/f'' = (w, Ok j) \<and> raw_get w ''/a/f'' = None
     \<and> snd (read_orphan_range w j 0 2) = Ok [1, 2]"
proof -
  have real: "realpath linked_vfs (resolve_against ''/'' ''a/f'') False = Ok ''/a/f''"
    by (simp add: linked_vfs_tree path_eval)
  have free: "reject_pseudo_mutation (resolve_against ''/'' ''a/f'') = Ok ()"
    by (simp add: path_eval reject_pseudo_mutation_def)
  have "next_orphan linked_vfs = 1" by (simp add: linked_vfs_def insert_node_def new_vfs_def with_disk_limit_def Let_def)
  then have "checked_add (next_orphan linked_vfs) 1 = Some 2" by (simp add: checked_add_def)
  moreover obtain w1 where "remove_node (linked_vfs\<lparr>next_orphan := 2\<rparr>) ''/a/f'' = (w1, Some (file_node 3 [1, 2] 420 0))"
    by (simp add: remove_node_def Let_def raw_get_same_tree linked_vfs_tree)
  ultimately obtain w j where w: "unlink_open_file linked_vfs ''/'' ''a/f'' = (w, Ok j)"
    by (simp add: unlink_open_file_def Let_def real free linked_vfs_tree file_node_def)
  from unlink_keeps_open_file [OF vfs_inv_linked w] real
  have "raw_get w ''/a/f'' = None" "snd (read_orphan_range w j 0 2) = Ok [1, 2]"
    by (auto simp: linked_vfs_tree file_node_def numeral_2_eq_2)
  then show ?thesis using w by blast
qed

section \<open>Deviations\<close>

text \<open>Behaviours of the code that differ from what its callers and comments expect, each shown on a
  concrete file system.\<close>

lemmas new_vfs_tree = raw_get_with_disk_limit [of u64_max, folded new_vfs_def]

lemma new_vfs_fields:
  "disk_limit new_vfs = u64_max" "next_inode new_vfs = 2" "baseline_dirs new_vfs = om_empty" "mutation_time_ms new_vfs = 0"
  by (simp_all add: new_vfs_def with_disk_limit_def Let_def)

lemmas limits_eval = reject_pseudo_mutation_def check_path_limits_def PATH_MAX_def NAME_MAX_def

text \<open>\<open>mkdir /\<close> succeeds and adds a node under the key \<open>//\<close>, which no lookup reaches.\<close>

lemma mkdir_root_adds_unreachable_node:
  "snd (mkdir new_vfs ''/'' ''/'') = Ok () \<and> contains_node (fst (mkdir new_vfs ''/'' ''/'')) ''//''
    \<and> normalize_path p \<noteq> ''//''"
proof -
  have t: "write_target new_vfs ''/'' ''/'' = Ok ''//''"
    by (simp add: write_target_def new_vfs_tree path_eval limits_eval)
  have par: "require_parent_dir new_vfs ''//'' = Ok ()"
    by (simp add: require_parent_dir_def new_vfs_tree path_eval)
  have alloc: "allocate_inode new_vfs = (new_vfs\<lparr>next_inode := 3\<rparr>, Ok 2)"
    by (simp add: allocate_inode_def check_inode_capacity_def new_vfs_fields checked_add_def)
  have "normalize_path (normalize_path p) = normalize_path p"
    using normalize_clean [of p] normalize_of_render by (auto simp: clean_path_def)
  moreover have "normalize_path ''//'' = ''/''" by (simp add: normalize_path_def)
  ultimately have "normalize_path p \<noteq> ''//''" by force
  then show ?thesis
    by (simp add: mkdir_def t par contains_node_def new_vfs_tree add_node_def alloc Let_def usage_after_adding_def
        new_vfs_fields vfs_view)
qed

text \<open>\<open>rename\<close> does not check the parent of the destination, so a file can be moved to a place
  that no directory lists.\<close>

lemma distinct_singleton: "distinct xs \<Longrightarrow> set xs = {x} \<Longrightarrow> xs = [x]"
proof (cases xs)
  case (Cons y ys)
  assume "distinct xs" "set xs = {x}"
  then show ?thesis using Cons by (cases ys) auto
qed simp

lemma rename_without_parent:
  "\<exists>w. rename_path linked_vfs ''/'' ''a/f'' ''/no/g'' = (w, Ok ())
    \<and> raw_get w ''/no/g'' = Some (file_node 3 [1, 2] 420 0) \<and> raw_get w ''/no'' = None"
proof -
  let ?n = "file_node 3 [1, 2] 420 0"
  have src: "realpath linked_vfs (resolve_against ''/'' ''a/f'') False = Ok ''/a/f''"
    "reject_pseudo_mutation (resolve_against ''/'' ''a/f'') = Ok ()"
    by (simp_all add: linked_vfs_tree path_eval reject_pseudo_mutation_def)
  have t: "write_target linked_vfs ''/'' ''/no/g'' = Ok ''/no/g''" "into_directory linked_vfs ''/no/g'' ''/a/f'' = ''/no/g''"
    by (simp_all add: write_target_def into_directory_def kind_is_dir_def linked_vfs_tree path_eval limits_eval)
  have "set (walk linked_vfs ''/a/f'') = {''/a/f''}"
    by (auto simp: walk_set linked_vfs_tree dir_prefix_def starts_with_def split: if_splits)
  then have walk: "walk linked_vfs ''/a/f'' = [''/a/f'']"
    by (rule distinct_singleton [OF walk_distinct])
  have delta: "rename_delta linked_vfs ''/a/f'' ''/no/g'' [''/a/f''] [''/a/f''] 0 = Ok 0"
    by (simp add: linked_vfs_tree moved_key_def limits_eval node_usage_def usage_at_def file_node_def)
  obtain w1 where w1: "remove_node linked_vfs ''/a/f'' = (w1, Some ?n)"
    using snd_remove_node [of linked_vfs "''/a/f''"] by (cases "remove_node linked_vfs ''/a/f''") (simp add: linked_vfs_tree)
  then have tree: "raw_get w1 = (raw_get linked_vfs)(''/a/f'' := None)" using raw_get_remove_node [of linked_vfs "''/a/f''"] by simp
  obtain used where "usage_after_delta linked_vfs 0 = Ok used"
    by (simp add: usage_after_delta_def linked_vfs_limit Let_def)
  then have "rename_path linked_vfs ''/'' ''a/f'' ''/no/g'' = (record_usage (insert_node w1 ''/no/g'' ?n) used, Ok ())"
    by (simp add: rename_path_def Let_def src t walk delta contains_node_def linked_vfs_tree w1 moved_key_def del: rename_delta.simps)
  then show ?thesis by (simp add: vfs_view tree linked_vfs_tree)
qed

text \<open>Resizing a native executable reaches an \<open>unreachable!\<close>.\<close>

lemma resize_native_panics:
  assumes "raw_get v = [''/'' \<mapsto> dir_node 1 493 0, ''/true'' \<mapsto> n]" "kind n = NNative program" "disk_limit v = u64_max"
  shows "snd (resize_file v ''/'' ''/true'' 0) = Panic"
proof -
  have "write_target v ''/'' ''/true'' = Ok ''/true''" "file_len v ''/'' ''/true'' = Ok 0"
    by (simp_all add: write_target_def file_len_def path_eval limits_eval assms)
  moreover obtain v1 where "node_mut v ''/true'' = (v1, Some n)"
    using assms(1) by (cases rule: node_mut_cases [of v "''/true''"]) auto
  ultimately show ?thesis
    by (simp add: resize_file_def usage_after_adding_def assms(2,3) Let_def)
qed

text \<open>Without a disk limit, a length above \<open>isize::MAX\<close> is not refused and the buffer cannot grow to it.\<close>

lemma resize_past_capacity_panics: "snd (resize_file linked_vfs ''/'' ''a/f'' (2 ^ 63)) = Panic"
proof -
  have f: "raw_get linked_vfs ''/a/f'' = Some (file_node 3 [1, 2] 420 0)" by (simp add: linked_vfs_tree)
  have "file_len linked_vfs ''/'' ''/a/f'' = Ok 2"
    by (simp add: file_len_def path_eval linked_vfs_tree file_node_def)
  moreover obtain v1 where "node_mut linked_vfs ''/a/f'' = (v1, Some (file_node 3 [1, 2] 420 0))"
    using f by (cases rule: node_mut_cases [of linked_vfs "''/a/f''"]) auto
  ultimately show ?thesis
    by (simp add: resize_file_def linked_vfs_target usage_after_adding_def linked_vfs_limit Let_def file_node_def
        vec_overflow_def MAX_VEC_def)
qed

end
