(* ===== verification/Decimal.thy ===== *)
theory Decimal
  imports Prelude
begin

text \<open>
  Numbers in text: \<open>to_string\<close> and \<open>parse\<close> of the Rust integer types that shell variables and
  arithmetic use. A string is the list of its characters; code points up to \<open>U+00FF\<close> are represented.
  \<open>decimal\<close> of the prelude is \<open>to_string\<close> of an unsigned integer.
\<close>

type_synonym i64 = "64 word"

section \<open>Parsing and printing\<close>

definition is_ascii_digit :: "char \<Rightarrow> bool" where
  "is_ascii_digit c \<longleftrightarrow> 48 \<le> (of_char c :: nat) \<and> (of_char c :: nat) \<le> 57"

definition is_ascii_alphabetic :: "char \<Rightarrow> bool" where
  "is_ascii_alphabetic c \<longleftrightarrow>
     (65 \<le> (of_char c :: nat) \<and> (of_char c :: nat) \<le> 90) \<or> (97 \<le> (of_char c :: nat) \<and> (of_char c :: nat) \<le> 122)"

definition is_ascii_alphanumeric :: "char \<Rightarrow> bool" where
  "is_ascii_alphanumeric c \<longleftrightarrow> is_ascii_digit c \<or> is_ascii_alphabetic c"

definition is_whitespace :: "char \<Rightarrow> bool" where
  "is_whitespace c \<longleftrightarrow> (of_char c :: nat) \<in> {9, 10, 11, 12, 13, 32, 133, 160}"

definition trim_start :: "string \<Rightarrow> string" where
  "trim_start s = dropWhile is_whitespace s"

definition trim :: "string \<Rightarrow> string" where
  "trim s = rev (dropWhile is_whitespace (rev (trim_start s)))"

fun digits_from :: "nat \<Rightarrow> string \<Rightarrow> nat option" where
  "digits_from acc [] = Some acc"
| "digits_from acc (c # cs) = (if is_ascii_digit c then digits_from (10 * acc + (of_char c - 48)) cs else None)"

definition parse_digits :: "string \<Rightarrow> nat option" where
  "parse_digits s = (if s = [] then None else digits_from 0 s)"

definition parse_below :: "nat \<Rightarrow> string \<Rightarrow> nat option" where
  "parse_below bound s = (case parse_digits s of
       Some n \<Rightarrow> if n < bound then Some n else None | None \<Rightarrow> None)"

definition parse_usize :: "string \<Rightarrow> nat option" where
  "parse_usize s = parse_below (2 ^ 64) (case s of c # cs \<Rightarrow> if c = CHR ''+'' then cs else s | [] \<Rightarrow> [])"

definition parse_u32 :: "string \<Rightarrow> nat option" where
  "parse_u32 s = parse_below (2 ^ 32) (case s of c # cs \<Rightarrow> if c = CHR ''+'' then cs else s | [] \<Rightarrow> [])"

definition parse_i64 :: "string \<Rightarrow> int option" where
  "parse_i64 s = (case s of
       [] \<Rightarrow> None
     | c # cs \<Rightarrow>
         if c = CHR ''-'' then map_option (\<lambda>n. - int n) (parse_below (2 ^ 63 + 1) cs)
         else map_option int (parse_below (2 ^ 63) (if c = CHR ''+'' then cs else s)))"

definition show_int :: "int \<Rightarrow> string" where
  "show_int i = (if i < 0 then CHR ''-'' # decimal (nat (- i)) else decimal (nat i))"

section \<open>Round trips\<close>

lemma decimal_unfold: "decimal n = (if n < 10 then [char_of (48 + n)] else decimal (n div 10) @ [char_of (48 + n mod 10)])"
  by (rule decimal.simps)

lemma of_char_digit: "d < 10 \<Longrightarrow> (of_char (char_of (48 + d) :: char) :: nat) = 48 + d"
  by simp

lemma decimal_digits: "c \<in> set (decimal n) \<Longrightarrow> is_ascii_digit c"
proof (induction n rule: decimal.induct)
  case (1 n)
  have d: "is_ascii_digit (char_of (48 + d))" if "d < 10" for d :: nat
    using that of_char_digit [OF that] by (simp add: is_ascii_digit_def)
  show ?case
  proof (cases "n < 10")
    case True
    then show ?thesis using 1(2) d [of n] by (simp add: decimal_unfold [of n])
  next
    case False
    then show ?thesis using 1 d [of "n mod 10"] by (auto simp: decimal_unfold [of n])
  qed
qed

lemma decimal_nonempty [simp]: "decimal n \<noteq> []"
  by (subst decimal_unfold) simp

lemma digits_from_append:
  "digits_from acc (s @ t) = (case digits_from acc s of Some n \<Rightarrow> digits_from n t | None \<Rightarrow> None)"
  by (induction s arbitrary: acc) auto

lemma digits_from_decimal: "digits_from 0 (decimal n) = Some n"
proof (induction n rule: decimal.induct)
  case (1 n)
  have d: "digits_from acc [char_of (48 + d)] = Some (10 * acc + d)" if "d < 10" for acc d
    using that of_char_digit [OF that] by (simp add: is_ascii_digit_def)
  show ?case
  proof (cases "n < 10")
    case True
    then show ?thesis using d [of n 0] by (simp add: decimal_unfold [of n])
  next
    case False
    then show ?thesis using 1 d [of "n mod 10" "n div 10"]
      by (simp add: decimal_unfold [of n] digits_from_append)
  qed
qed

lemma parse_below_decimal: "n < bound \<Longrightarrow> parse_below bound (decimal n) = Some n"
  by (simp add: parse_below_def parse_digits_def digits_from_decimal)

lemma decimal_head: "\<exists>c cs. decimal n = c # cs \<and> is_ascii_digit c"
  using decimal_digits [of "hd (decimal n)" n] by (cases "decimal n") auto

lemma parse_usize_decimal: "n < 2 ^ 64 \<Longrightarrow> parse_usize (decimal n) = Some n"
  using decimal_head [of n] parse_below_decimal [of n "2 ^ 64"]
  by (auto simp: parse_usize_def is_ascii_digit_def)

lemma parse_show_int:
  assumes "- (2 ^ 63) \<le> i" "i < 2 ^ 63"
  shows "parse_i64 (show_int i) = Some i"
proof (cases "i < 0")
  case True
  then have "nat (- i) < 2 ^ 63 + 1" using assms(1) by simp
  then show ?thesis using True by (simp add: show_int_def parse_i64_def parse_below_decimal)
next
  case False
  then have "nat i < 2 ^ 63" using assms(2) by simp
  then show ?thesis using False decimal_head [of "nat i"] parse_below_decimal [of "nat i" "2 ^ 63"]
    by (auto simp: show_int_def parse_i64_def is_ascii_digit_def)
qed

lemma show_int_trim: "trim (show_int i) = show_int i"
proof -
  have nw: "\<not> is_whitespace c" if "is_ascii_digit c \<or> c = CHR ''-''" for c
    using that by (auto simp: is_ascii_digit_def is_whitespace_def)
  have "set (show_int i) \<subseteq> {c. \<not> is_whitespace c}"
    using nw decimal_digits by (auto simp: show_int_def split: if_splits)
  then have "dropWhile is_whitespace (show_int i) = show_int i"
    "dropWhile is_whitespace (rev (show_int i)) = rev (show_int i)"
    by (auto simp: dropWhile_eq_self_iff hd_rev) (metis hd_in_set last_in_set mem_Collect_eq rev_is_Nil_conv subsetD)+
  then show ?thesis by (simp add: trim_def trim_start_def)
qed

end
