(* ===== verification/Variables.thy ===== *)
theory Variables
  imports Paths Decimal
begin

text \<open>
  The variable storage of \<open>src/src/variables.rs\<close>: scalar variables, arrays and positional parameters,
  each with a running estimate of its bytes in saturating 64-bit arithmetic. Strings are lists of bytes,
  so \<open>length\<close> is \<open>str::len\<close>. A hash map is an ordered map: no operation here depends on the order in which a
  hash map is traversed.
\<close>

section \<open>Sizes\<close>

definition ENTRY_OVERHEAD :: u64 where "ENTRY_OVERHEAD = 48"

definition string_bytes :: "string \<Rightarrow> u64" where
  "string_bytes s = saturating_add (len64 s) ENTRY_OVERHEAD"

definition entry_bytes :: "string \<Rightarrow> string \<Rightarrow> u64" where
  "entry_bytes name s = saturating_add (string_bytes name) (string_bytes s)"

datatype array_val = Indexed "(u64, string) omap" | Assoc "(string, string) omap"

definition array_bytes :: "array_val \<Rightarrow> u64" where
  "array_bytes a = (case a of
       Indexed m \<Rightarrow> fold (\<lambda>s total. saturating_add total (string_bytes s)) (om_values m) 0
     | Assoc m \<Rightarrow> fold (\<lambda>(key, s) total. saturating_add total (entry_bytes key s)) (om_entries m) 0)"

definition end_index :: "array_val \<Rightarrow> u64" where
  "end_index a = (case a of
       Indexed m \<Rightarrow> (case om_keys m of [] \<Rightarrow> 0 | _ \<Rightarrow> saturating_add (last (om_keys m)) 1)
     | Assoc _ \<Rightarrow> 0)"

section \<open>Scalar variables\<close>

record variables =
  v_values :: "(string, string) omap"
  v_bytes :: u64

definition no_variables :: variables where
  "no_variables = \<lparr>v_values = om_empty, v_bytes = 0\<rparr>"

definition v_insert :: "string \<Rightarrow> string \<Rightarrow> variables \<Rightarrow> variables \<times> string option" where
  "v_insert name s v =
     (let total = saturating_add (v_bytes v) (entry_bytes name s);
          previous = om_lookup (v_values v) name;
          total = (case previous of Some old \<Rightarrow> saturating_sub total (entry_bytes name old) | None \<Rightarrow> total)
      in (\<lparr>v_values = om_insert name s (v_values v), v_bytes = total\<rparr>, previous))"

definition from_iter :: "(string \<times> string) list \<Rightarrow> variables" where
  "from_iter entries = fold (\<lambda>(name, s) v. fst (v_insert name s v)) entries no_variables"

definition v_remove :: "string \<Rightarrow> variables \<Rightarrow> variables \<times> string option" where
  "v_remove name v =
     (let previous = om_lookup (v_values v) name
      in (\<lparr>v_values = om_remove name (v_values v),
            v_bytes = (case previous of Some old \<Rightarrow> saturating_sub (v_bytes v) (entry_bytes name old) | None \<Rightarrow> v_bytes v)\<rparr>, previous))"

definition v_retain :: "(string \<Rightarrow> string \<Rightarrow> bool) \<Rightarrow> variables \<Rightarrow> variables" where
  "v_retain keep v =
     (let released = fold (\<lambda>(name, s) total. if keep name s then total else saturating_add total (entry_bytes name s))
            (om_entries (v_values v)) 0
      in \<lparr>v_values = om_retain keep (v_values v), v_bytes = saturating_sub (v_bytes v) released\<rparr>)"

definition v_clear :: "variables \<Rightarrow> variables" where
  "v_clear v = v\<lparr>v_values := om_empty, v_bytes := 0\<rparr>"

section \<open>Arrays\<close>

record arrays =
  a_values :: "(string, array_val) omap"
  a_bytes :: u64

datatype array_key = Index u64 | Name string

definition no_arrays :: arrays where
  "no_arrays = \<lparr>a_values = om_empty, a_bytes = 0\<rparr>"

definition a_insert :: "string \<Rightarrow> array_val \<Rightarrow> arrays \<Rightarrow> arrays \<times> array_val option" where
  "a_insert name val a =
     (let total = saturating_add (saturating_add (a_bytes a) (string_bytes name)) (array_bytes val);
          previous = om_lookup (a_values a) name;
          total = (case previous of
              Some old \<Rightarrow> saturating_sub (saturating_sub total (string_bytes name)) (array_bytes old)
            | None \<Rightarrow> total)
      in (\<lparr>a_values = om_insert name val (a_values a), a_bytes = total\<rparr>, previous))"

definition a_remove :: "string \<Rightarrow> arrays \<Rightarrow> arrays \<times> array_val option" where
  "a_remove name a =
     (let previous = om_lookup (a_values a) name
      in (\<lparr>a_values = om_remove name (a_values a),
            a_bytes = (case previous of
                Some old \<Rightarrow> saturating_sub (saturating_sub (a_bytes a) (string_bytes name)) (array_bytes old)
              | None \<Rightarrow> a_bytes a)\<rparr>, previous))"

definition a_clear :: "arrays \<Rightarrow> arrays" where
  "a_clear a = a\<lparr>a_values := om_empty, a_bytes := 0\<rparr>"

definition unwrap_bytes :: "u64 option \<Rightarrow> u64" where
  "unwrap_bytes removed = (case removed of Some n \<Rightarrow> n | None \<Rightarrow> 0)"

definition set_element :: "string \<Rightarrow> array_key \<Rightarrow> string \<Rightarrow> arrays \<Rightarrow> arrays \<times> unit option" where
  "set_element name key s a =
     (let added = string_bytes s;
          update = (\<lambda>val removed extra. (\<lparr>a_values = om_insert name val (a_values a),
             a_bytes = saturating_sub (saturating_add (saturating_add (a_bytes a) added) extra) (unwrap_bytes removed)\<rparr>, Some ()))
      in case om_lookup (a_values a) name of
           None \<Rightarrow> (a, None)
         | Some val \<Rightarrow> (case (val, key) of
             (Indexed m, Index index) \<Rightarrow>
               update (Indexed (om_insert index s m)) (map_option string_bytes (om_lookup m index)) 0
           | (Assoc m, Name k) \<Rightarrow>
               let extra = string_bytes k in
               update (Assoc (om_insert k s m)) (map_option (\<lambda>old. saturating_add (string_bytes old) extra) (om_lookup m k)) extra
           | _ \<Rightarrow> (a, None)))"

definition unset_element :: "string \<Rightarrow> array_key \<Rightarrow> arrays \<Rightarrow> arrays \<times> unit option" where
  "unset_element name key a =
     (let update = (\<lambda>val removed. (\<lparr>a_values = om_insert name val (a_values a),
             a_bytes = saturating_sub (a_bytes a) (unwrap_bytes removed)\<rparr>, Some ()))
      in case om_lookup (a_values a) name of
           None \<Rightarrow> (a, None)
         | Some val \<Rightarrow> (case (val, key) of
             (Indexed m, Index index) \<Rightarrow> update (Indexed (om_remove index m)) (map_option string_bytes (om_lookup m index))
           | (Assoc m, Name k) \<Rightarrow> update (Assoc (om_remove k m)) (map_option (entry_bytes k) (om_lookup m k))
           | _ \<Rightarrow> (a, None)))"

definition clear_elements :: "string \<Rightarrow> arrays \<Rightarrow> arrays" where
  "clear_elements name a = (case om_lookup (a_values a) name of
       None \<Rightarrow> a
     | Some val \<Rightarrow> \<lparr>a_values = om_insert name (case val of Indexed _ \<Rightarrow> Indexed om_empty | Assoc _ \<Rightarrow> Assoc om_empty) (a_values a),
                    a_bytes = saturating_sub (a_bytes a) (array_bytes val)\<rparr>)"

section \<open>Positional parameters\<close>

record positional =
  pos_values :: "string list"
  pos_bytes :: u64

definition strings_bytes :: "string list \<Rightarrow> u64" where
  "strings_bytes ss = fold (\<lambda>s total. saturating_add total (string_bytes s)) ss 0"

definition positional_from :: "string list \<Rightarrow> positional" where
  "positional_from ss = \<lparr>pos_values = ss, pos_bytes = strings_bytes ss\<rparr>"

definition pos_replace :: "string list \<Rightarrow> positional \<Rightarrow> positional \<times> positional" where
  "pos_replace ss p = (positional_from ss, p)"

definition pos_shift :: "nat \<Rightarrow> positional \<Rightarrow> positional" where
  "pos_shift count p =
     (let count = min count (length (pos_values p));
          released = strings_bytes (take count (pos_values p))
      in \<lparr>pos_values = drop count (pos_values p), pos_bytes = saturating_sub (pos_bytes p) released\<rparr>)"

definition into_vec :: "positional \<Rightarrow> string list" where
  "into_vec p = pos_values p"

section \<open>The estimates are exact\<close>

definition string_size :: "string \<Rightarrow> nat" where
  "string_size s = length s + 48"

fun array_size :: "array_val \<Rightarrow> nat" where
  "array_size (Indexed m) = om_weight (\<lambda>_ s. string_size s) m"
| "array_size (Assoc m) = om_weight (\<lambda>k s. string_size k + string_size s) m"

definition variables_size :: "variables \<Rightarrow> nat" where
  "variables_size v = om_weight (\<lambda>name s. string_size name + string_size s) (v_values v)"

definition arrays_size :: "arrays \<Rightarrow> nat" where
  "arrays_size a = om_weight (\<lambda>name val. string_size name + array_size val) (a_values a)"

definition positional_size :: "positional \<Rightarrow> nat" where
  "positional_size p = sum_list (map string_size (pos_values p))"

lemma unat_string_bytes: "string_size s < 2 ^ 64 \<Longrightarrow> unat (string_bytes s) = string_size s"
  by (simp add: string_bytes_def ENTRY_OVERHEAD_def string_size_def rust_arith)

lemma unat_entry_bytes: "string_size k + string_size s < 2 ^ 64 \<Longrightarrow> unat (entry_bytes k s) = string_size k + string_size s"
  by (simp add: entry_bytes_def unat_string_bytes rust_arith)

lemma unat_fold_bytes:
  assumes "\<And>x. x \<in> set xs \<Longrightarrow> g x < 2 ^ 64 \<Longrightarrow> unat (f x) = g x" "unat t + sum_list (map g xs) < 2 ^ 64"
  shows "unat (fold (\<lambda>x total. saturating_add total (f x)) xs (t :: u64)) = unat t + sum_list (map g xs)"
  using assms
proof (induction xs arbitrary: t)
  case (Cons x xs)
  then have "unat (saturating_add t (f x)) = unat t + g x" by (simp add: rust_arith)
  then show ?case using Cons by simp
qed simp

lemma unat_array_bytes: "array_size a < 2 ^ 64 \<Longrightarrow> unat (array_bytes a) = array_size a"
proof (cases a)
  case (Indexed m)
  moreover assume "array_size a < 2 ^ 64"
  ultimately show ?thesis
    using unat_fold_bytes [of "om_values m" string_size string_bytes 0] unat_string_bytes
    by (simp add: array_bytes_def om_weight_def om_values_def comp_def case_prod_unfold)
next
  case (Assoc m)
  moreover assume "array_size a < 2 ^ 64"
  ultimately show ?thesis
    using unat_fold_bytes [of "om_entries m" "\<lambda>(k, s). string_size k + string_size s" "\<lambda>(k, s). entry_bytes k s" 0] unat_entry_bytes
    by (auto simp: array_bytes_def om_weight_def case_prod_unfold)
qed

definition v_exact :: "variables \<Rightarrow> bool" where
  "v_exact v \<longleftrightarrow> unat (v_bytes v) = variables_size v"

definition a_exact :: "arrays \<Rightarrow> bool" where
  "a_exact a \<longleftrightarrow> unat (a_bytes a) = arrays_size a"

definition pos_exact :: "positional \<Rightarrow> bool" where
  "pos_exact p \<longleftrightarrow> unat (pos_bytes p) = positional_size p"

lemma exact_empty [simp]: "v_exact no_variables" "a_exact no_arrays"
  by (simp_all add: v_exact_def a_exact_def variables_size_def arrays_size_def no_variables_def no_arrays_def)

lemma v_insert_size: "variables_size (fst (v_insert name s v)) \<le> variables_size v + string_size name + string_size s"
  using om_weight_remove [of "\<lambda>name s. string_size name + string_size s" "v_values v" name]
  by (simp add: variables_size_def v_insert_def Let_def om_weight_insert)

lemma v_insert_exact:
  assumes "v_exact v" "variables_size v + string_size name + string_size s < 2 ^ 64"
  shows "v_exact (fst (v_insert name s v))"
proof -
  let ?f = "\<lambda>name s. string_size name + string_size s"
  have split: "variables_size v = om_weight ?f (om_remove name (v_values v))
      + (case om_lookup (v_values v) name of None \<Rightarrow> 0 | Some old \<Rightarrow> ?f name old)"
    unfolding variables_size_def by (rule om_weight_remove)
  then show ?thesis
    using assms by (cases "om_lookup (v_values v) name")
      (simp_all add: v_exact_def v_insert_def Let_def variables_size_def om_weight_insert unat_entry_bytes rust_arith)
qed

lemma v_remove_exact:
  assumes "v_exact v" "variables_size v < 2 ^ 64"
  shows "v_exact (fst (v_remove name v))" "variables_size (fst (v_remove name v)) \<le> variables_size v"
proof -
  let ?f = "\<lambda>name s. string_size name + string_size s"
  have "variables_size v = om_weight ?f (om_remove name (v_values v))
      + (case om_lookup (v_values v) name of None \<Rightarrow> 0 | Some old \<Rightarrow> ?f name old)"
    unfolding variables_size_def by (rule om_weight_remove)
  then show "v_exact (fst (v_remove name v))" "variables_size (fst (v_remove name v)) \<le> variables_size v"
    using assms by (cases "om_lookup (v_values v) name";
      simp add: v_exact_def v_remove_def Let_def variables_size_def unat_entry_bytes rust_arith)+
qed

lemma v_retain_exact:
  assumes "v_exact v" "variables_size v < 2 ^ 64"
  shows "v_exact (v_retain keep v)"
proof -
  let ?f = "\<lambda>name s. string_size name + string_size s"
  let ?gone = "om_retain (\<lambda>k s. \<not> keep k s) (v_values v)"
  have split: "variables_size v = om_weight ?f (om_retain keep (v_values v)) + om_weight ?f ?gone"
    unfolding variables_size_def by (rule om_weight_split)
  have "fold (\<lambda>(name, s) total. if keep name s then total else saturating_add total (entry_bytes name s)) xs t
      = fold (\<lambda>x total. saturating_add total (case x of (name, s) \<Rightarrow> entry_bytes name s)) (filter (\<lambda>(k, s). \<not> keep k s) xs) t" for xs t
    by (induction xs arbitrary: t) auto
  moreover have "unat (fold (\<lambda>x total. saturating_add total (case x of (name, s) \<Rightarrow> entry_bytes name s)) (om_entries ?gone) 0) = om_weight ?f ?gone"
    using unat_fold_bytes [of "om_entries ?gone" "\<lambda>(k, s). ?f k s" "\<lambda>(k, s). entry_bytes k s" 0] unat_entry_bytes split assms(2)
    by (auto simp: om_weight_def)
  ultimately show ?thesis
    using assms split by (simp add: v_exact_def v_retain_def Let_def variables_size_def om_entries_retain rust_arith)
qed

lemma a_insert_size: "arrays_size (fst (a_insert name val a)) \<le> arrays_size a + string_size name + array_size val"
  using om_weight_remove [of "\<lambda>name val. string_size name + array_size val" "a_values a" name]
  by (simp add: arrays_size_def a_insert_def Let_def om_weight_insert)

lemma a_split: "arrays_size a = om_weight (\<lambda>name val. string_size name + array_size val) (om_remove name (a_values a))
      + (case om_lookup (a_values a) name of None \<Rightarrow> 0 | Some old \<Rightarrow> string_size name + array_size old)"
  unfolding arrays_size_def by (rule om_weight_remove)

lemma a_insert_exact:
  assumes "a_exact a" "arrays_size a + string_size name + array_size val < 2 ^ 64"
  shows "a_exact (fst (a_insert name val a))"
  using assms a_split [of a name] by (cases "om_lookup (a_values a) name")
    (simp_all add: a_exact_def a_insert_def Let_def arrays_size_def om_weight_insert unat_string_bytes unat_array_bytes rust_arith)

lemma a_remove_exact:
  assumes "a_exact a" "arrays_size a < 2 ^ 64"
  shows "a_exact (fst (a_remove name a))" "arrays_size (fst (a_remove name a)) \<le> arrays_size a"
  using assms a_split [of a name] by (cases "om_lookup (a_values a) name";
      simp add: a_exact_def a_remove_def Let_def arrays_size_def unat_string_bytes unat_array_bytes rust_arith)+

lemma positional_exact:
  assumes "sum_list (map string_size ss) < 2 ^ 64"
  shows "unat (strings_bytes ss) = sum_list (map string_size ss)"
  using unat_fold_bytes [of ss string_size string_bytes 0] unat_string_bytes assms by (simp add: strings_bytes_def)

lemma positional_from_exact: "sum_list (map string_size ss) < 2 ^ 64 \<Longrightarrow> pos_exact (positional_from ss)"
  by (simp add: pos_exact_def positional_from_def positional_size_def positional_exact)

lemma pos_shift_exact:
  assumes "pos_exact p" "positional_size p < 2 ^ 64"
  shows "pos_exact (pos_shift n p)" "positional_size (pos_shift n p) \<le> positional_size p"
proof -
  let ?n = "min n (length (pos_values p))"
  have "positional_size p = sum_list (map string_size (take ?n (pos_values p))) + sum_list (map string_size (drop ?n (pos_values p)))"
    by (simp add: positional_size_def flip: sum_list_append map_append)
  then show "pos_exact (pos_shift n p)" "positional_size (pos_shift n p) \<le> positional_size p"
    using assms positional_exact [of "take ?n (pos_values p)"]
    by (simp_all add: pos_exact_def pos_shift_def Let_def positional_size_def rust_arith)
qed

lemma exact_by:
  assumes "a_exact a" "om_lookup (a_values a) name = Some old"
    "unat estimate + array_size old = unat (a_bytes a) + array_size new"
  shows "a_exact \<lparr>a_values = om_insert name new (a_values a), a_bytes = estimate\<rparr>"
  using assms a_split [of a name] by (simp add: a_exact_def arrays_size_def om_weight_insert)

lemma array_size_within: "om_lookup (a_values a) name = Some old \<Longrightarrow> array_size old \<le> arrays_size a"
  using a_split [of a name] by simp

lemma unat_adjusted:
  assumes "unat a + unat b + unat c < 2 ^ 64"
  shows "unat (saturating_sub (saturating_add (saturating_add a b) c) r) = unat a + unat b + unat c - unat (r :: u64)"
proof -
  have "unat (saturating_add a b) = unat a + unat b" using assms unfolding unat_saturating_add by (simp add: min_def)
  then have "unat (saturating_add (saturating_add a b) c) = unat a + unat b + unat c"
    using assms unfolding unat_saturating_add [of "saturating_add a b"] by (simp add: min_def)
  then show ?thesis by (simp add: unat_saturating_sub)
qed

lemma removed_string:
  assumes "om_weight (\<lambda>_ s. string_size s) m < 2 ^ 64"
  shows "unat (unwrap_bytes (map_option string_bytes (om_lookup m i))) + om_weight (\<lambda>_ s. string_size s) (om_remove i m)
    = om_weight (\<lambda>_ s. string_size s) m"
proof (cases "om_lookup m i")
  case (Some s)
  then have "om_weight (\<lambda>_ s. string_size s) m = om_weight (\<lambda>_ s. string_size s) (om_remove i m) + string_size s"
    using om_weight_remove [of "\<lambda>_ s. string_size s" m i] by simp
  then show ?thesis using assms unat_string_bytes [of s] by (simp add: Some unwrap_bytes_def)
qed (simp add: unwrap_bytes_def)

lemma removed_entry:
  assumes "om_weight (\<lambda>k s. string_size k + string_size s) m < 2 ^ 64"
  shows "unat (unwrap_bytes (map_option (entry_bytes k) (om_lookup m k))) + om_weight (\<lambda>k s. string_size k + string_size s) (om_remove k m)
    = om_weight (\<lambda>k s. string_size k + string_size s) m"
proof (cases "om_lookup m k")
  case (Some s)
  then have "om_weight (\<lambda>k s. string_size k + string_size s) m
      = om_weight (\<lambda>k s. string_size k + string_size s) (om_remove k m) + (string_size k + string_size s)"
    using om_weight_remove [of "\<lambda>k s. string_size k + string_size s" m k] by (simp only: option.case)
  moreover from this have "unat (entry_bytes k s) = string_size k + string_size s" using assms by (intro unat_entry_bytes) linarith
  ultimately show ?thesis by (simp add: Some unwrap_bytes_def)
qed (simp add: unwrap_bytes_def)

lemma entry_bytes_commute: "saturating_add (string_bytes s) (string_bytes k) = entry_bytes k s"
  unfolding entry_bytes_def saturating_add_def
  by (simp only: add.commute [of "unat (string_bytes s)"] add.commute [of "string_bytes s"])

lemma set_element_exact:
  assumes "a_exact a" "arrays_size a + (case key of Index _ \<Rightarrow> 0 | Name k \<Rightarrow> string_size k) + string_size s < 2 ^ 64"
  shows "a_exact (fst (set_element name key s a))"
proof (cases "om_lookup (a_values a) name")
  case None
  then show ?thesis using assms(1) by (simp add: set_element_def Let_def)
next
  case (Some old)
  have total: "unat (a_bytes a) = arrays_size a" "array_size old \<le> arrays_size a"
    using assms(1) array_size_within [OF Some] by (simp_all add: a_exact_def)
  show ?thesis
  proof (cases old; cases key)
    fix m i assume c: "old = Indexed m" "key = Index i"
    let ?r = "unwrap_bytes (map_option string_bytes (om_lookup m i))"
    have s: "unat (string_bytes s) = string_size s" using assms(2) c by (intro unat_string_bytes) simp
    have "unat (saturating_sub (saturating_add (saturating_add (a_bytes a) (string_bytes s)) 0) ?r) = arrays_size a + string_size s - unat ?r"
      using assms(2) c by (subst unat_adjusted) (simp_all add: total s)
    moreover have "unat ?r + om_weight (\<lambda>_ s. string_size s) (om_remove i m) = array_size old"
      using removed_string [of m i] total assms(2) c by simp
    ultimately have "unat (saturating_sub (saturating_add (saturating_add (a_bytes a) (string_bytes s)) 0) ?r) + array_size old
        = unat (a_bytes a) + array_size (Indexed (om_insert i s m))"
      using total by (simp add: om_weight_insert)
    then show ?thesis using exact_by [OF assms(1) Some] by (simp add: set_element_def Some c Let_def)
  next
    fix m k assume c: "old = Assoc m" "key = Name k"
    let ?r = "unwrap_bytes (map_option (entry_bytes k) (om_lookup m k))"
    have s: "unat (string_bytes s) = string_size s" "unat (string_bytes k) = string_size k"
      using assms(2) c by (auto intro!: unat_string_bytes)
    have "unat (saturating_sub (saturating_add (saturating_add (a_bytes a) (string_bytes s)) (string_bytes k)) ?r)
        = arrays_size a + string_size s + string_size k - unat ?r"
      using assms(2) c by (subst unat_adjusted) (simp_all add: total s)
    moreover have "unat ?r + om_weight (\<lambda>k s. string_size k + string_size s) (om_remove k m) = array_size old"
      using removed_entry [of m k] total assms(2) c by simp
    ultimately have "unat (saturating_sub (saturating_add (saturating_add (a_bytes a) (string_bytes s)) (string_bytes k)) ?r) + array_size old
        = unat (a_bytes a) + array_size (Assoc (om_insert k s m))"
      using total by (simp add: om_weight_insert)
    then show ?thesis using exact_by [OF assms(1) Some] by (simp add: set_element_def Some c Let_def entry_bytes_commute)
  qed (use assms(1) in \<open>simp_all add: set_element_def Some Let_def\<close>)
qed

lemma set_element_size:
  "arrays_size (fst (set_element name key s a)) \<le> arrays_size a + (case key of Index _ \<Rightarrow> 0 | Name k \<Rightarrow> string_size k) + string_size s"
proof (cases "om_lookup (a_values a) name")
  case (Some old)
  then show ?thesis
  proof (cases old; cases key)
    fix m i assume "old = Indexed m" "key = Index i"
    then show ?thesis using Some a_split [of a name] om_weight_remove [of "\<lambda>_. string_size" m i]
      by (simp add: set_element_def Let_def arrays_size_def om_weight_insert)
  next
    fix m k assume "old = Assoc m" "key = Name k"
    then show ?thesis using Some a_split [of a name] om_weight_remove [of "\<lambda>k s. string_size k + string_size s" m k]
      by (simp add: set_element_def Let_def arrays_size_def om_weight_insert)
  qed (simp_all add: set_element_def Some Let_def)
qed (simp add: set_element_def Let_def)

lemma unset_element_exact:
  assumes "a_exact a" "arrays_size a < 2 ^ 64"
  shows "a_exact (fst (unset_element name key a))"
proof (cases "om_lookup (a_values a) name")
  case None
  then show ?thesis using assms(1) by (simp add: unset_element_def Let_def)
next
  case (Some old)
  have total: "unat (a_bytes a) = arrays_size a" "array_size old \<le> arrays_size a"
    using assms(1) array_size_within [OF Some] by (simp_all add: a_exact_def)
  show ?thesis
  proof (cases old; cases key)
    fix m i assume c: "old = Indexed m" "key = Index i"
    then have "unat (saturating_sub (a_bytes a) (unwrap_bytes (map_option string_bytes (om_lookup m i)))) + array_size old
      = unat (a_bytes a) + array_size (Indexed (om_remove i m))"
      using total removed_string [of m i] assms(2) by (simp add: unat_saturating_sub)
    then show ?thesis using exact_by [OF assms(1) Some] by (simp add: unset_element_def Some c Let_def)
  next
    fix m k assume c: "old = Assoc m" "key = Name k"
    then have "unat (saturating_sub (a_bytes a) (unwrap_bytes (map_option (entry_bytes k) (om_lookup m k)))) + array_size old
      = unat (a_bytes a) + array_size (Assoc (om_remove k m))"
      using total removed_entry [of m k] assms(2) by (simp add: unat_saturating_sub)
    then show ?thesis using exact_by [OF assms(1) Some] by (simp add: unset_element_def Some c Let_def)
  qed (use assms(1) in \<open>simp_all add: unset_element_def Some Let_def\<close>)
qed

lemma clear_elements_exact:
  assumes "a_exact a" "arrays_size a < 2 ^ 64"
  shows "a_exact (clear_elements name a)"
proof (cases "om_lookup (a_values a) name")
  case (Some old)
  note within = array_size_within [OF Some]
  have "array_size (case old of Indexed _ \<Rightarrow> Indexed om_empty | Assoc _ \<Rightarrow> Assoc om_empty) = 0" by (cases old) simp_all
  then show ?thesis
    using assms within exact_by [OF assms(1) Some, of "saturating_sub (a_bytes a) (array_bytes old)"]
    by (simp add: clear_elements_def Some a_exact_def unat_array_bytes rust_arith)
qed (use assms in \<open>simp add: clear_elements_def\<close>)

end
