(* ===== verification/Arith.thy ===== *)
theory Arith
  imports Decimal "HOL-Library.Signed_Division"
begin

unbundle bit_operations_syntax

text \<open>
  Shell arithmetic, \<open>src/src/arith.rs\<close>: a recursive-descent parser that evaluates while it parses.
  An \<open>i64\<close> is a 64-bit word read with \<open>sint\<close>; the arithmetic wraps. Variables are reached through the
  operations of the trait \<open>ArithVars\<close>, a parameter here (the record \<open>arith_vars\<close>); the shell's own
  implementation of it is in theory \<open>Shell_Env\<close>.

  The functions of the parser call each other in circles, so each is defined over the calls it makes:
  \<open>rec\<close> answers a call and \<open>arith_call\<close> closes the circle with fuel. Running out of fuel is \<open>None\<close>, and
  \<open>arithmetic_terminates\<close> shows that enough fuel always exists.
\<close>

section \<open>Errors, variables and parser state\<close>

record arith_error =
  ae_message :: string
  ae_variable :: bool

definition expression_error :: "string \<Rightarrow> arith_error" where
  "expression_error message = \<lparr>ae_message = message, ae_variable = False\<rparr>"

definition variable_error :: "string \<Rightarrow> arith_error" where
  "variable_error message = \<lparr>ae_message = message, ae_variable = True\<rparr>"

definition describe :: "arith_error \<Rightarrow> string \<Rightarrow> string" where
  "describe e expression = (if ae_variable e then ae_message e else trim_start expression @ '': '' @ ae_message e)"

record 's arith_vars =
  arith_get :: "'s \<Rightarrow> string \<Rightarrow> 's \<times> (string, string option) outcome"
  arith_get_element :: "'s \<Rightarrow> string \<Rightarrow> i64 \<Rightarrow> 's \<times> (string, string option) outcome"
  arith_set :: "'s \<Rightarrow> string \<Rightarrow> i64 \<Rightarrow> 's \<times> (string, unit) outcome"
  arith_set_element :: "'s \<Rightarrow> string \<Rightarrow> i64 \<Rightarrow> i64 \<Rightarrow> 's \<times> (string, unit) outcome"

definition MAX_RECURSION :: nat where "MAX_RECURSION = 128"
definition MAX_NESTING :: nat where "MAX_NESTING = 256"

datatype place = Scalar string | Element string i64

record operand =
  op_value :: i64
  op_place :: "place option"

definition rvalue :: "i64 \<Rightarrow> operand" where
  "rvalue v = \<lparr>op_value = v, op_place = None\<rparr>"

record 's parser =
  p_vars :: 's
  p_chars :: string
  p_position :: nat
  p_token_start :: nat
  p_depth :: nat
  p_nesting :: nat

text \<open>A step returns \<open>None\<close> when the fuel is used up, else the parser and the outcome; \<open>then_do\<close> is the
  \<open>?\<close> operator.\<close>

type_synonym ('s, 'a) arith_result = "('s parser \<times> (arith_error, 'a) outcome) option"

definition then_do :: "('s, 'a) arith_result \<Rightarrow> ('s parser \<Rightarrow> 'a \<Rightarrow> ('s, 'b) arith_result) \<Rightarrow> ('s, 'b) arith_result" where
  "then_do x k = (case x of
       None \<Rightarrow> None
     | Some (p, r) \<Rightarrow> (case r of Ok a \<Rightarrow> k p a | Err e \<Rightarrow> Some (p, Err e) | Panic \<Rightarrow> Some (p, Panic)))"

section \<open>Scanning\<close>

definition rest_of :: "'s parser \<Rightarrow> string" where
  "rest_of p = drop (p_position p) (p_chars p)"

definition at_end :: "'s parser \<Rightarrow> bool" where
  "at_end p \<longleftrightarrow> length (p_chars p) \<le> p_position p"

definition skip_blanks :: "'s parser \<Rightarrow> 's parser" where
  "skip_blanks p = p\<lparr>p_position := p_position p + length (takeWhile is_whitespace (rest_of p))\<rparr>"

definition peek_char :: "'s parser \<Rightarrow> 's parser \<times> char option" where
  "peek_char p = (let p = skip_blanks p in (p, case rest_of p of [] \<Rightarrow> None | c # _ \<Rightarrow> Some c))"

definition looking_at :: "'s parser \<Rightarrow> string \<Rightarrow> 's parser \<times> bool" where
  "looking_at p text = (let p = skip_blanks p in (p, starts_with (rest_of p) text))"

definition eat :: "'s parser \<Rightarrow> string \<Rightarrow> 's parser \<times> bool" where
  "eat p text = (case looking_at p text of
       (p, False) \<Rightarrow> (p, False)
     | (p, True) \<Rightarrow> (p\<lparr>p_token_start := p_position p, p_position := p_position p + length text\<rparr>, True))"

definition longer_operators :: "string list" where
  "longer_operators = [''<<='', ''>>='', ''**'', ''<<'', ''>>'', ''<='', ''>='', ''=='', ''!='', ''&&'', ''||'',
     ''*='', ''/='', ''%='', ''+='', ''-='', ''&='', ''^='', ''|='']"

definition shadowed :: "string \<Rightarrow> string list \<Rightarrow> string \<Rightarrow> bool" where
  "shadowed rest candidates candidate \<longleftrightarrow> list_ex (\<lambda>operator. length candidate < length operator
     \<and> starts_with operator candidate \<and> operator \<notin> set candidates \<and> starts_with rest operator) longer_operators"

definition binary_operator :: "'s parser \<Rightarrow> string list \<Rightarrow> 's parser \<times> string option" where
  "binary_operator p candidates = (let p = skip_blanks p in
     (p, find (\<lambda>candidate. starts_with (rest_of p) candidate \<and> \<not> shadowed (rest_of p) candidates candidate) candidates))"

definition quote_mark :: char where
  "quote_mark = CHR 0x22"

definition error_at :: "'s parser \<Rightarrow> string \<Rightarrow> arith_error" where
  "error_at p message = expression_error
     (message @ '' (error token is '' @ [quote_mark] @ drop (min (p_token_start p) (length (p_chars p))) (p_chars p)
        @ [quote_mark] @ '')'')"

definition nest :: "'s parser \<Rightarrow> ('s, unit) arith_result" where
  "nest p = (let p = p\<lparr>p_nesting := p_nesting p + 1\<rparr> in
     if MAX_NESTING < p_nesting p then Some (p, Err (error_at p ''expression nesting too deep'')) else Some (p, Ok ()))"

definition unnest :: "'s parser \<Rightarrow> 's parser" where
  "unnest p = p\<lparr>p_nesting := p_nesting p - 1\<rparr>"

definition identifier_after :: "'s parser \<Rightarrow> nat \<Rightarrow> bool" where
  "identifier_after p offset = (case dropWhile is_whitespace (drop (p_position p + offset) (p_chars p)) of
       [] \<Rightarrow> False | c # _ \<Rightarrow> is_ascii_alphabetic c \<or> c = CHR ''_'')"

section \<open>Operators and constants\<close>

function power_loop :: "i64 \<Rightarrow> i64 \<Rightarrow> i64 \<Rightarrow> i64" where
  "power_loop result base exponent =
     (if 0 < sint exponent
      then power_loop (if exponent AND 1 = 1 then result * base else result) (base * base) (signed_drop_bit 1 exponent)
      else result)"
  by pat_completeness auto

termination
  by (relation "measure (\<lambda>(result, base, exponent). nat (sint exponent))")
    (auto simp: sint_signed_drop_bit_eq drop_bit_eq_div)

declare power_loop.simps [simp del]

definition wrapping_power :: "i64 \<Rightarrow> i64 \<Rightarrow> i64" where
  "wrapping_power base exponent = power_loop 1 base exponent"

definition shift_count :: "i64 \<Rightarrow> nat" where
  \<comment> \<open>\<open>right as u32\<close>, which the wrapping shifts take modulo 64\<close>
  "shift_count right = unat (ucast right :: u32) mod 64"

definition from_bool :: "bool \<Rightarrow> i64" where
  "from_bool b = (if b then 1 else 0)"

definition apply_op :: "'s parser \<Rightarrow> string \<Rightarrow> i64 \<Rightarrow> i64 \<Rightarrow> (arith_error, i64) outcome" where
  "apply_op p operator left right =
     (if operator = ''|'' then Ok (left OR right)
      else if operator = ''^'' then Ok (left XOR right)
      else if operator = ''&'' then Ok (left AND right)
      else if operator = ''=='' then Ok (from_bool (left = right))
      else if operator = ''!='' then Ok (from_bool (left \<noteq> right))
      else if operator = ''<='' then Ok (from_bool (sint left \<le> sint right))
      else if operator = ''>='' then Ok (from_bool (sint right \<le> sint left))
      else if operator = ''<'' then Ok (from_bool (sint left < sint right))
      else if operator = ''>'' then Ok (from_bool (sint right < sint left))
      else if operator = ''<<'' then Ok (push_bit (shift_count right) left)
      else if operator = ''>>'' then Ok (signed_drop_bit (shift_count right) left)
      else if operator = ''+'' then Ok (left + right)
      else if operator = ''-'' then Ok (left - right)
      else if operator = ''*'' then Ok (left * right)
      else if (operator = ''/'' \<or> operator = ''%'') \<and> right = 0 then Err (error_at p ''division by 0'')
      else if operator = ''/'' then Ok (word_of_int (sint left sdiv sint right))
      else if operator = ''%'' then Ok (word_of_int (sint left smod sint right))
      else if operator = ''**'' \<and> sint right < 0 then Err (error_at p ''exponent less than 0'')
      else if operator = ''**'' then Ok (wrapping_power left right)
      else Panic)"

definition char_value :: "nat \<Rightarrow> char \<Rightarrow> nat option" where
  "char_value radix c =
     (let n = of_char c in
      if 48 \<le> n \<and> n \<le> 57 then Some (n - 48)
      else if 97 \<le> n \<and> n \<le> 122 then Some (n - 97 + 10)
      else if 65 \<le> n \<and> n \<le> 90 then Some (if radix \<le> 36 then n - 65 + 10 else n - 65 + 36)
      else if c = CHR ''@'' then Some 62
      else if c = CHR ''_'' then Some 63
      else None)"

fun constant_digits :: "nat \<Rightarrow> i64 \<Rightarrow> string \<Rightarrow> (string, i64) outcome" where
  "constant_digits radix v [] = Ok v"
| "constant_digits radix v (c # cs) = (case char_value radix c of
       None \<Rightarrow> Err ''invalid integer constant''
     | Some digit \<Rightarrow> if radix \<le> digit then Err ''value too great for base''
         else constant_digits radix (v * of_nat radix + of_nat digit) cs)"

definition split_once_hash :: "string \<Rightarrow> (string \<times> string) option" where
  "split_once_hash s = (if CHR ''#'' \<in> set s
     then Some (takeWhile (\<lambda>c. c \<noteq> CHR ''#'') s, tl (dropWhile (\<lambda>c. c \<noteq> CHR ''#'') s)) else None)"

definition constant_base :: "string \<Rightarrow> (string, nat \<times> string) outcome" where
  "constant_base s = (case split_once_hash s of
       Some (radix, digits) \<Rightarrow> (case parse_u32 radix of
           None \<Rightarrow> Err ''invalid arithmetic base''
         | Some b \<Rightarrow> if \<not> (2 \<le> b \<and> b \<le> 64) then Err ''invalid arithmetic base''
             else if digits = [] then Err ''invalid integer constant'' else Ok (b, digits))
     | None \<Rightarrow>
         if starts_with s ''0x'' \<or> starts_with s ''0X'' then Ok (16, drop 2 s)
         else if 1 < length s \<and> starts_with s ''0'' then Ok (8, drop 1 s)
         else Ok (10, s))"

definition parse_constant :: "string \<Rightarrow> (string, i64) outcome" where
  "parse_constant s = bind_oc (constant_base s) (\<lambda>(radix, digits). constant_digits radix 0 digits)"

section \<open>The grammar\<close>

datatype call =
    CEval string nat
  | CComma bool | CCommaLoop bool operand
  | CAssignment bool | CConditional bool
  | COr bool | COrLoop bool operand
  | CAnd bool | CAndLoop bool operand
  | CLevel nat bool | CLevelLoop nat bool operand
  | CPower bool | CUnary bool | CPostfix bool | CPrimary bool | CVariable bool

type_synonym 's caller = "call \<Rightarrow> 's parser \<Rightarrow> ('s, operand) arith_result"

definition succeed :: "'s parser \<Rightarrow> 'a \<Rightarrow> ('s, 'a) arith_result" where
  "succeed p a = Some (p, Ok a)"

definition fail :: "'s parser \<Rightarrow> arith_error \<Rightarrow> ('s, 'a) arith_result" where
  "fail p e = Some (p, Err e)"

definition comma :: "'s caller \<Rightarrow> bool \<Rightarrow> 's parser \<Rightarrow> ('s, operand) arith_result" where
  "comma rec skip p = then_do (rec (CAssignment skip) p) (\<lambda>p x. rec (CCommaLoop skip x) p)"

definition comma_loop :: "'s caller \<Rightarrow> bool \<Rightarrow> operand \<Rightarrow> 's parser \<Rightarrow> ('s, operand) arith_result" where
  "comma_loop rec skip x p = (case eat p '','' of
       (p, True) \<Rightarrow> then_do (rec (CAssignment skip) p) (\<lambda>p x. rec (CCommaLoop skip x) p)
     | (p, False) \<Rightarrow> succeed p x)"

definition ASSIGNMENT_OPERATORS :: "string list" where
  "ASSIGNMENT_OPERATORS = [''<<='', ''>>='', ''*='', ''/='', ''%='', ''+='', ''-='', ''&='', ''^='', ''|='', ''='']"

definition store :: "'s arith_vars \<Rightarrow> 's parser \<Rightarrow> place \<Rightarrow> i64 \<Rightarrow> ('s, unit) arith_result" where
  "store ops p pl v = (case (case pl of
         Scalar name \<Rightarrow> arith_set ops (p_vars p) name v
       | Element name index \<Rightarrow> arith_set_element ops (p_vars p) name index v) of
       (s, r) \<Rightarrow> Some (p\<lparr>p_vars := s\<rparr>, case r of Ok _ \<Rightarrow> Ok () | Err message \<Rightarrow> Err (variable_error message) | Panic \<Rightarrow> Panic))"

definition assignment :: "'s arith_vars \<Rightarrow> 's caller \<Rightarrow> bool \<Rightarrow> 's parser \<Rightarrow> ('s, operand) arith_result" where
  "assignment ops rec skip p = then_do (rec (CConditional skip) p) (\<lambda>p target.
     case binary_operator p ASSIGNMENT_OPERATORS of
       (p, None) \<Rightarrow> succeed p target
     | (p, Some operator) \<Rightarrow>
         let p = fst (eat p operator) in
         case op_place target of
           None \<Rightarrow> fail p (error_at p ''attempted assignment to non-variable'')
         | Some pl \<Rightarrow> then_do (rec (CAssignment skip) p) (\<lambda>p x.
             let right = op_value x in
             if skip then succeed p (rvalue 0)
             else then_do (if operator = ''='' then succeed p right
                           else Some (p, apply_op p (butlast operator) (op_value target) right))
               (\<lambda>p v. then_do (store ops p pl v) (\<lambda>p _. succeed p (rvalue v)))))"

definition conditional :: "'s caller \<Rightarrow> bool \<Rightarrow> 's parser \<Rightarrow> ('s, operand) arith_result" where
  "conditional rec skip p = then_do (rec (COr skip) p) (\<lambda>p condition.
     case eat p ''?'' of
       (p, False) \<Rightarrow> succeed p condition
     | (p, True) \<Rightarrow>
         let take_first = op_value condition \<noteq> 0 in
         then_do (nest p) (\<lambda>p _.
         then_do (rec (CComma (skip \<or> \<not> take_first)) p) (\<lambda>p first.
           case eat p '':'' of
             (p, False) \<Rightarrow> let p = p\<lparr>p_token_start := p_position p\<rparr> in
               fail p (error_at p (''`:'' @ [CHR 0x27] @ '' expected for conditional expression''))
           | (p, True) \<Rightarrow> then_do (rec (CConditional (skip \<or> take_first)) p) (\<lambda>p second.
               succeed (unnest p) (rvalue (if take_first then op_value first else op_value second))))))"

definition logical_or :: "'s caller \<Rightarrow> bool \<Rightarrow> 's parser \<Rightarrow> ('s, operand) arith_result" where
  "logical_or rec skip p = then_do (rec (CAnd skip) p) (\<lambda>p left. rec (COrLoop skip left) p)"

definition or_loop :: "'s caller \<Rightarrow> bool \<Rightarrow> operand \<Rightarrow> 's parser \<Rightarrow> ('s, operand) arith_result" where
  "or_loop rec skip left p = (case eat p ''||'' of
       (p, True) \<Rightarrow>
         let decided = op_value left \<noteq> 0 in
         then_do (rec (CAnd (skip \<or> decided)) p) (\<lambda>p right.
           rec (COrLoop skip (rvalue (from_bool (decided \<or> op_value right \<noteq> 0)))) p)
     | (p, False) \<Rightarrow> succeed p left)"

definition logical_and :: "'s caller \<Rightarrow> bool \<Rightarrow> 's parser \<Rightarrow> ('s, operand) arith_result" where
  "logical_and rec skip p = then_do (rec (CLevel 0 skip) p) (\<lambda>p left. rec (CAndLoop skip left) p)"

definition and_loop :: "'s caller \<Rightarrow> bool \<Rightarrow> operand \<Rightarrow> 's parser \<Rightarrow> ('s, operand) arith_result" where
  "and_loop rec skip left p = (case eat p ''&&'' of
       (p, True) \<Rightarrow>
         let decided = op_value left = 0 in
         then_do (rec (CLevel 0 (skip \<or> decided)) p) (\<lambda>p right.
           rec (CAndLoop skip (rvalue (from_bool (\<not> decided \<and> op_value right \<noteq> 0)))) p)
     | (p, False) \<Rightarrow> succeed p left)"

definition LEVELS :: "string list list" where
  "LEVELS = [[''|''], [''^''], [''&''], [''=='', ''!=''], [''<='', ''>='', ''<'', ''>''], [''<<'', ''>>''],
     [''+'', ''-''], [''*'', ''/'', ''%'']]"

definition binary_level :: "'s caller \<Rightarrow> nat \<Rightarrow> bool \<Rightarrow> 's parser \<Rightarrow> ('s, operand) arith_result" where
  "binary_level rec level skip p =
     (if level < length LEVELS
      then then_do (rec (CLevel (level + 1) skip) p) (\<lambda>p left. rec (CLevelLoop level skip left) p)
      else rec (CPower skip) p)"

definition level_loop :: "'s caller \<Rightarrow> nat \<Rightarrow> bool \<Rightarrow> operand \<Rightarrow> 's parser \<Rightarrow> ('s, operand) arith_result" where
  "level_loop rec level skip left p = (case binary_operator p (LEVELS ! level) of
       (p, None) \<Rightarrow> succeed p left
     | (p, Some operator) \<Rightarrow>
         let p = fst (eat p operator) in
         then_do (rec (CLevel (level + 1) skip) p) (\<lambda>p right.
         then_do (if skip then succeed p 0 else Some (p, apply_op p operator (op_value left) (op_value right)))
           (\<lambda>p v. rec (CLevelLoop level skip (rvalue v)) p)))"

definition power_level :: "'s caller \<Rightarrow> bool \<Rightarrow> 's parser \<Rightarrow> ('s, operand) arith_result" where
  "power_level rec skip p = then_do (rec (CUnary skip) p) (\<lambda>p base.
     case binary_operator p [''**''] of
       (p, None) \<Rightarrow> succeed p base
     | (p, Some _) \<Rightarrow>
         let p = fst (eat p ''**'') in
         then_do (nest p) (\<lambda>p _.
         then_do (rec (CPower skip) p) (\<lambda>p exponent.
           let p = unnest p in
           if skip then succeed p (rvalue 0)
           else then_do (Some (p, apply_op p ''**'' (op_value base) (op_value exponent))) (\<lambda>p v. succeed p (rvalue v)))))"

definition step_variable :: "'s arith_vars \<Rightarrow> 's caller \<Rightarrow> bool \<Rightarrow> string \<Rightarrow> i64 \<Rightarrow> 's parser \<Rightarrow> ('s, operand) arith_result" where
  \<comment> \<open>the prefix operators \<open>++\<close> and \<open>--\<close>\<close>
  "step_variable ops rec skip operator delta p =
     (let p = fst (eat p operator) in
      then_do (rec (CPostfix skip) p) (\<lambda>p target.
        case op_place target of
          None \<Rightarrow> fail p (error_at p ''attempted assignment to non-variable'')
        | Some pl \<Rightarrow>
            if skip then succeed p (rvalue 0)
            else let v = op_value target + delta in
              then_do (store ops p pl v) (\<lambda>p _. succeed p (rvalue v))))"

definition unary :: "'s arith_vars \<Rightarrow> 's caller \<Rightarrow> bool \<Rightarrow> 's parser \<Rightarrow> ('s, operand) arith_result" where
  "unary ops rec skip p =
     (let p = skip_blanks p in
      if snd (looking_at p ''++'') \<and> identifier_after p 2 then step_variable ops rec skip ''++'' 1 p
      else if snd (looking_at p ''--'') \<and> identifier_after p 2 then step_variable ops rec skip ''--'' (- 1) p
      else case find (\<lambda>operator. snd (peek_char p) = Some operator) [CHR ''-'', CHR ''+'', CHR ''!'', CHR ''~''] of
          None \<Rightarrow> rec (CPostfix skip) p
        | Some operator \<Rightarrow>
            let p = fst (eat p [operator]) in
            then_do (nest p) (\<lambda>p _.
            then_do (rec (CUnary skip) p) (\<lambda>p x.
              let v = op_value x in
              succeed (unnest p) (rvalue (if operator = CHR ''-'' then - v
                else if operator = CHR ''+'' then v
                else if operator = CHR ''!'' then from_bool (v = 0)
                else NOT v)))))"

definition postfix :: "'s arith_vars \<Rightarrow> 's caller \<Rightarrow> bool \<Rightarrow> 's parser \<Rightarrow> ('s, operand) arith_result" where
  "postfix ops rec skip p = then_do (rec (CPrimary skip) p) (\<lambda>p x.
     case op_place x of
       None \<Rightarrow> succeed p x
     | Some pl \<Rightarrow> (case eat p ''++'' of
           (p, True) \<Rightarrow> then_do (if skip then succeed p () else store ops p pl (op_value x + 1)) (\<lambda>p _. succeed p (rvalue (op_value x)))
         | (p, False) \<Rightarrow> (case eat p ''--'' of
               (p, True) \<Rightarrow> then_do (if skip then succeed p () else store ops p pl (op_value x - 1)) (\<lambda>p _. succeed p (rvalue (op_value x)))
             | (p, False) \<Rightarrow> succeed p x)))"

definition constant_token :: "'s parser \<Rightarrow> ('s, i64) arith_result" where
  "constant_token p =
     (let s = takeWhile (\<lambda>c. is_ascii_alphanumeric c \<or> c = CHR ''#'' \<or> c = CHR ''@'' \<or> c = CHR ''_'') (rest_of p);
          p = p\<lparr>p_token_start := p_position p, p_position := p_position p + length s\<rparr>
      in case parse_constant s of
           Ok v \<Rightarrow> succeed p v | Err message \<Rightarrow> fail p (error_at p message) | Panic \<Rightarrow> Some (p, Panic))"

definition primary :: "'s caller \<Rightarrow> bool \<Rightarrow> 's parser \<Rightarrow> ('s, operand) arith_result" where
  "primary rec skip p = (case peek_char p of
       (p, None) \<Rightarrow> fail p (error_at p ''arithmetic syntax error: operand expected'')
     | (p, Some first) \<Rightarrow>
         if first = CHR ''('' then
           let p = fst (eat p ''('') in
           then_do (nest p) (\<lambda>p _.
           then_do (rec (CComma skip) p) (\<lambda>p x.
             case eat (unnest p) '')'' of
               (p, False) \<Rightarrow> let p = p\<lparr>p_token_start := p_position p\<rparr> in fail p (error_at p (''missing `)'' @ [CHR 0x27]))
             | (p, True) \<Rightarrow> succeed p (rvalue (op_value x))))
         else if is_ascii_digit first then then_do (constant_token p) (\<lambda>p v. succeed p (rvalue v))
         else if is_ascii_alphabetic first \<or> first = CHR ''_'' then rec (CVariable skip) p
         else let p = p\<lparr>p_token_start := p_position p\<rparr> in
           fail p (error_at p ''arithmetic syntax error: operand expected''))"

definition place_name :: "place \<Rightarrow> string" where
  "place_name pl = (case pl of Scalar name \<Rightarrow> name | Element name _ \<Rightarrow> name)"

definition variable_value :: "'s caller \<Rightarrow> place \<Rightarrow> string option \<Rightarrow> 's parser \<Rightarrow> ('s, i64) arith_result" where
  "variable_value rec pl stored p = (case stored of
       None \<Rightarrow> succeed p 0
     | Some content \<Rightarrow>
         let trimmed = trim content in
         if trimmed = [] then succeed p 0
         else case parse_i64 trimmed of
             Some v \<Rightarrow> succeed p (word_of_int v)
           | None \<Rightarrow>
               if MAX_RECURSION \<le> p_depth p
               then fail p (expression_error (''expression recursion level exceeded (error token is ''
                      @ [quote_mark] @ place_name pl @ [quote_mark] @ '')''))
               else then_do (rec (CEval trimmed (p_depth p + 1)) p) (\<lambda>p x. succeed p (op_value x)))"

definition load :: "'s arith_vars \<Rightarrow> 's parser \<Rightarrow> place \<Rightarrow> ('s, string option) arith_result" where
  "load ops p pl = (case (case pl of
         Scalar name \<Rightarrow> arith_get ops (p_vars p) name
       | Element name index \<Rightarrow> arith_get_element ops (p_vars p) name index) of
       (s, r) \<Rightarrow> Some (p\<lparr>p_vars := s\<rparr>, case r of Ok v \<Rightarrow> Ok v | Err message \<Rightarrow> Err (variable_error message) | Panic \<Rightarrow> Panic))"

definition variable :: "'s arith_vars \<Rightarrow> 's caller \<Rightarrow> bool \<Rightarrow> 's parser \<Rightarrow> ('s, operand) arith_result" where
  "variable ops rec skip p =
     (let name = takeWhile (\<lambda>c. is_ascii_alphanumeric c \<or> c = CHR ''_'') (rest_of p);
          p = p\<lparr>p_token_start := p_position p, p_position := p_position p + length name\<rparr>
      in then_do
        (if starts_with (rest_of p) ''['' then
           then_do (nest (p\<lparr>p_position := p_position p + 1\<rparr>)) (\<lambda>p _.
           then_do (rec (CComma skip) p) (\<lambda>p x.
             case eat (unnest p) '']'' of
               (p, False) \<Rightarrow> let p = p\<lparr>p_token_start := p_position p\<rparr> in fail p (error_at p (''missing `]'' @ [CHR 0x27]))
             | (p, True) \<Rightarrow> succeed p (Element name (op_value x))))
         else succeed p (Scalar name))
        (\<lambda>p pl.
           if skip then succeed p \<lparr>op_value = 0, op_place = Some pl\<rparr>
           else then_do (load ops p pl) (\<lambda>p stored.
                then_do (variable_value rec pl stored p) (\<lambda>p v. succeed p \<lparr>op_value = v, op_place = Some pl\<rparr>))))"

definition evaluate_at_depth :: "'s caller \<Rightarrow> string \<Rightarrow> nat \<Rightarrow> 's parser \<Rightarrow> ('s, operand) arith_result" where
  "evaluate_at_depth rec expression depth outer =
     (let p = skip_blanks \<lparr>p_vars = p_vars outer, p_chars = expression, p_position = 0, p_token_start = 0,
                p_depth = depth, p_nesting = 0\<rparr>
      in if at_end p then succeed outer (rvalue 0)
         else case then_do (rec (CComma False) p) (\<lambda>p x.
             let p = skip_blanks p in
             if \<not> at_end p
             then let p = p\<lparr>p_token_start := p_position p\<rparr> in fail p (error_at p ''arithmetic syntax error in expression'')
             else succeed p (rvalue (op_value x))) of
           None \<Rightarrow> None
         | Some (p, r) \<Rightarrow> Some (outer\<lparr>p_vars := p_vars p\<rparr>, r))"

fun arith_step :: "'s arith_vars \<Rightarrow> 's caller \<Rightarrow> 's caller" where
  "arith_step ops rec (CEval expression depth) p = evaluate_at_depth rec expression depth p"
| "arith_step ops rec (CComma skip) p = comma rec skip p"
| "arith_step ops rec (CCommaLoop skip x) p = comma_loop rec skip x p"
| "arith_step ops rec (CAssignment skip) p = assignment ops rec skip p"
| "arith_step ops rec (CConditional skip) p = conditional rec skip p"
| "arith_step ops rec (COr skip) p = logical_or rec skip p"
| "arith_step ops rec (COrLoop skip x) p = or_loop rec skip x p"
| "arith_step ops rec (CAnd skip) p = logical_and rec skip p"
| "arith_step ops rec (CAndLoop skip x) p = and_loop rec skip x p"
| "arith_step ops rec (CLevel level skip) p = binary_level rec level skip p"
| "arith_step ops rec (CLevelLoop level skip x) p = level_loop rec level skip x p"
| "arith_step ops rec (CPower skip) p = power_level rec skip p"
| "arith_step ops rec (CUnary skip) p = unary ops rec skip p"
| "arith_step ops rec (CPostfix skip) p = postfix ops rec skip p"
| "arith_step ops rec (CPrimary skip) p = primary rec skip p"
| "arith_step ops rec (CVariable skip) p = variable ops rec skip p"

fun arith_call :: "'s arith_vars \<Rightarrow> nat \<Rightarrow> 's caller" where
  "arith_call ops 0 c p = None"
| "arith_call ops (Suc fuel) c p = arith_step ops (arith_call ops fuel) c p"

definition evaluate :: "'s arith_vars \<Rightarrow> nat \<Rightarrow> 's \<Rightarrow> string \<Rightarrow> ('s \<times> (arith_error, i64) outcome) option" where
  "evaluate ops fuel s expression =
     (case arith_call ops fuel (CEval expression 0)
        \<lparr>p_vars = s, p_chars = [], p_position = 0, p_token_start = 0, p_depth = 0, p_nesting = 0\<rparr> of
        None \<Rightarrow> None
      | Some (p, r) \<Rightarrow> Some (p_vars p, bind_oc r (\<lambda>x. Ok (op_value x))))"

section \<open>What a call keeps\<close>

fun skip_of :: "call \<Rightarrow> bool" where
  "skip_of (CEval _ _) = False"
| "skip_of (CComma skip) = skip" | "skip_of (CCommaLoop skip _) = skip"
| "skip_of (CAssignment skip) = skip" | "skip_of (CConditional skip) = skip"
| "skip_of (COr skip) = skip" | "skip_of (COrLoop skip _) = skip"
| "skip_of (CAnd skip) = skip" | "skip_of (CAndLoop skip _) = skip"
| "skip_of (CLevel _ skip) = skip" | "skip_of (CLevelLoop _ skip _) = skip"
| "skip_of (CPower skip) = skip" | "skip_of (CUnary skip) = skip" | "skip_of (CPostfix skip) = skip"
| "skip_of (CPrimary skip) = skip" | "skip_of (CVariable skip) = skip"

definition keeps_rel :: "('s parser \<Rightarrow> 's parser \<Rightarrow> bool) \<Rightarrow> 's parser \<Rightarrow> ('s, 'a) arith_result \<Rightarrow> bool" where
  "keeps_rel R p x \<longleftrightarrow> (\<forall>q r. x = Some (q, r) \<longrightarrow> R p q)"

text \<open>A relation between the parser before and after a call. If it allows what the scanner does, and,
  where variables may be touched (\<open>ok False\<close>), a change of the variables, every call respects it.\<close>

locale parser_relation =
  fixes ok :: "bool \<Rightarrow> bool"
    and R :: "'s parser \<Rightarrow> 's parser \<Rightarrow> bool"
  assumes refl: "R p p"
    and trans: "R p q \<Longrightarrow> R q r \<Longrightarrow> R p r"
    and ok_skip: "ok b \<Longrightarrow> ok (b \<or> c)"
    and forward: "p_position p \<le> j \<Longrightarrow> R p (p\<lparr>p_position := j\<rparr>)"
    and token: "R p (p\<lparr>p_token_start := t\<rparr>)"
    and nesting: "R p (p\<lparr>p_nesting := n\<rparr>)"
    and touch: "ok False \<Longrightarrow> R p (p\<lparr>p_vars := s\<rparr>)"
begin

lemma keeps_simps [simp]:
  "keeps_rel R p None" "keeps_rel R p (Some (q, r)) = R p q" "keeps_rel R p (succeed q a) = R p q" "keeps_rel R p (fail q e) = R p q"
  by (simp_all add: keeps_rel_def succeed_def fail_def)

lemma keeps_then:
  assumes "keeps_rel R p x" "\<And>q a. R p q \<Longrightarrow> keeps_rel R p (k q a)"
  shows "keeps_rel R p (then_do x k)"
proof (unfold keeps_rel_def, intro allI impI)
  fix q r
  assume "then_do x k = Some (q, r)"
  then consider e where "x = Some (q, e)" | u a where "x = Some (u, Ok a)" "k u a = Some (q, r)"
    by (auto simp: then_do_def split: option.splits outcome.splits)
  then show "R p q"
  proof cases
    case 2
    then have "R p u" using assms(1) by (simp add: keeps_rel_def)
    then show ?thesis using assms(2) [of u a] 2(2) by (simp add: keeps_rel_def)
  qed (use assms(1) in \<open>simp add: keeps_rel_def\<close>)
qed

lemma keeps_after: "R p q \<Longrightarrow> keeps_rel R q x \<Longrightarrow> keeps_rel R p x"
  unfolding keeps_rel_def using trans by blast

lemma R_skip: "R p q \<Longrightarrow> R p (skip_blanks q)"
  unfolding skip_blanks_def by (erule trans) (rule forward, simp)

lemma R_eat: "R p q \<Longrightarrow> R p (fst (eat q t))"
  unfolding eat_def looking_at_def Let_def
  using R_skip [of p q] trans [OF _ trans [OF token forward], of p "skip_blanks q"]
  by (cases "starts_with (rest_of (skip_blanks q)) t") simp_all

lemma R_peek: "R p q \<Longrightarrow> R p (fst (peek_char q))"
  using R_skip [of p q] by (simp add: peek_char_def Let_def)

lemma R_operator: "R p q \<Longrightarrow> R p (fst (binary_operator q cs))"
  using R_skip [of p q] by (simp add: binary_operator_def Let_def)

lemma R_updates:
  "R p q \<Longrightarrow> R p (q\<lparr>p_token_start := t\<rparr>)" "R p q \<Longrightarrow> R p (unnest q)"
  "R p q \<Longrightarrow> p_position q \<le> j \<Longrightarrow> R p (q\<lparr>p_position := j\<rparr>)"
  "ok False \<Longrightarrow> R p q \<Longrightarrow> R p (q\<lparr>p_vars := s\<rparr>)"
  using trans token nesting forward touch unfolding unnest_def by blast+

lemma keeps_nest: "R p q \<Longrightarrow> keeps_rel R p (nest q)"
  using trans [OF _ nesting] by (simp add: nest_def Let_def)

lemma keeps_store: "ok False \<Longrightarrow> R p q \<Longrightarrow> keeps_rel R p (store ops q pl v)"
  using R_updates(4) by (simp add: store_def split: prod.split)

lemma keeps_load: "ok False \<Longrightarrow> R p q \<Longrightarrow> keeps_rel R p (load ops q pl)"
  using R_updates(4) by (simp add: load_def split: prod.split)

lemma keeps_constant: "R p q \<Longrightarrow> keeps_rel R p (constant_token q)"
proof -
  assume "R p q"
  then have "R p (q\<lparr>p_token_start := t, p_position := p_position q + k\<rparr>)" for t k
    using R_updates(1,3) [of p "q\<lparr>p_token_start := t\<rparr>"] R_updates(1) [of p q t] by simp
  then show ?thesis by (simp add: constant_token_def Let_def split: outcome.split)
qed

lemma keeps_cases:
  "(b \<Longrightarrow> keeps_rel R p x) \<Longrightarrow> (\<not> b \<Longrightarrow> keeps_rel R p y) \<Longrightarrow> keeps_rel R p (if b then x else y)"
  "(b \<Longrightarrow> keeps_rel R p x) \<Longrightarrow> (\<not> b \<Longrightarrow> keeps_rel R p y) \<Longrightarrow> keeps_rel R p (case b of True \<Rightarrow> x | False \<Rightarrow> y)"
  "keeps_rel R p y \<Longrightarrow> (\<And>a. keeps_rel R p (f a)) \<Longrightarrow> keeps_rel R p (case m of None \<Rightarrow> y | Some a \<Rightarrow> f a)"
  "R p q \<Longrightarrow> keeps_rel R p (succeed q a)" "R p q \<Longrightarrow> keeps_rel R p (fail q e)" "R p q \<Longrightarrow> keeps_rel R p (Some (q, r))"
  by (auto split: bool.split option.split)

lemmas keeps_rules = keeps_then keeps_cases keeps_nest keeps_store keeps_load keeps_constant
  R_eat R_peek R_operator R_updates(1,2) R_skip

lemmas unfold_calls = comma_def comma_loop_def assignment_def conditional_def logical_or_def or_loop_def
  logical_and_def and_loop_def binary_level_def level_loop_def power_level_def unary_def step_variable_def
  postfix_def primary_def variable_value_def Let_def case_prod_unfold

lemma step_keeps:
  assumes rec: "\<And>c p q r. ok (skip_of c) \<Longrightarrow> rec c p = Some (q, r) \<Longrightarrow> R p q"
    and c: "ok (skip_of c)" and step: "arith_step ops rec c p = Some (q, r)"
  shows "R p q"
proof -
  have call: "keeps_rel R p (rec c q)" if "ok (skip_of c)" "R p q" for c p q
    using that rec trans unfolding keeps_rel_def by blast
  have nonskip: "ok False" if "ok b" "\<not> b" for b using that by simp
  have eval: "keeps_rel R p (evaluate_at_depth rec e d q)" if "ok False" "R p q" for e d p q
    using that R_updates(4) by (auto simp: evaluate_at_depth_def Let_def split: option.splits)
  have name: "R p (q\<lparr>p_token_start := p_position q, p_position := p_position q + k\<rparr>)" if "R p q" for p q k
    using R_updates(3) [OF R_updates(1) [OF that]] by simp
  have var: "keeps_rel R p (variable ops rec b q)" if "ok b" "R p q" for b p q
    unfolding variable_def variable_value_def Let_def case_prod_unfold
    by (intro keeps_rules call name R_updates(3); (rule that | simp add: that nonskip [OF that(1)])?)
  have "keeps_rel R p (arith_step ops rec c p)"
  proof (cases c)
    case (CEval e d)
    then show ?thesis using eval [of p p e d] c refl by simp
  next
    case (CVariable b)
    then show ?thesis using var [of b p p] c refl by simp
  qed (use c ok_skip refl [of p] in \<open>simp_all only: arith_step.simps skip_of.simps unfold_calls\<close>,
      (intro keeps_rules call; (simp add: nonskip)?)+)
  then show ?thesis using step by (simp add: keeps_rel_def)
qed

lemma call_keeps: "ok (skip_of c) \<Longrightarrow> arith_call ops fuel c p = Some (q, r) \<Longrightarrow> R p q"
proof (induction fuel arbitrary: c p q r)
  case (Suc fuel)
  show ?case by (rule step_keeps [of "arith_call ops fuel" c ops p q r]) (use Suc in auto)
qed simp

end

definition same_vars :: "'s parser \<Rightarrow> 's parser \<Rightarrow> bool" where
  "same_vars p q \<longleftrightarrow> p_vars q = p_vars p"

definition advances :: "'s parser \<Rightarrow> 's parser \<Rightarrow> bool" where
  "advances p q \<longleftrightarrow> p_chars q = p_chars p \<and> p_depth q = p_depth p \<and> p_position p \<le> p_position q"

interpretation skipping: parser_relation "\<lambda>skip. skip" same_vars
  by unfold_locales (auto simp: same_vars_def)

interpretation scanning: parser_relation "\<lambda>skip. True" advances
  by unfold_locales (auto simp: advances_def)

lemma call_advances: "arith_call ops fuel c p = Some (q, r) \<Longrightarrow> advances p q"
  by (rule scanning.call_keeps) simp_all

section \<open>Termination\<close>

text \<open>A family of results indexed by fuel is settled when from some fuel on it has one value.\<close>

definition settled :: "(nat \<Rightarrow> 'a option) \<Rightarrow> bool" where
  "settled F \<longleftrightarrow> (\<exists>n x. \<forall>f\<ge>n. F f = Some x)"

lemma settled_Some [simp]: "settled (\<lambda>f. Some x)" "settled (\<lambda>f. succeed p a)" "settled (\<lambda>f. fail p e)" "settled (\<lambda>f. nest p)"
  "settled (\<lambda>f. store ops p pl v)" "settled (\<lambda>f. load ops p pl)" "settled (\<lambda>f. constant_token p)"
  by (auto simp: settled_def succeed_def fail_def nest_def store_def load_def constant_token_def Let_def
      split: prod.split outcome.split)

lemma settled_then:
  assumes "settled F" "\<And>p a f. F f = Some (p, Ok a) \<Longrightarrow> settled (\<lambda>f. k f p a)"
  shows "settled (\<lambda>f. then_do (F f) (k f))"
proof -
  obtain n p r where n: "\<forall>f\<ge>n. F f = Some (p, r)" using assms(1) by (auto simp: settled_def)
  show ?thesis
  proof (cases r)
    case (Ok a)
    then have "F n = Some (p, Ok a)" using n by simp
    then have "settled (\<lambda>f. k f p a)" by (rule assms(2))
    then obtain n' x where "\<forall>f\<ge>n'. k f p a = Some x" by (auto simp: settled_def)
    then have "\<forall>f\<ge>max n n'. then_do (F f) (k f) = Some x" using n Ok by (simp add: then_do_def)
    then show ?thesis unfolding settled_def by blast
  next
    case (Err e)
    then have "\<forall>f\<ge>n. then_do (F f) (k f) = Some (p, Err e)" using n by (simp add: then_do_def)
    then show ?thesis unfolding settled_def by blast
  next
    case Panic
    then have "\<forall>f\<ge>n. then_do (F f) (k f) = Some (p, Panic)" using n by (simp add: then_do_def)
    then show ?thesis unfolding settled_def by blast
  qed
qed

lemma settled_cases:
  "(b \<Longrightarrow> settled F) \<Longrightarrow> (\<not> b \<Longrightarrow> settled G) \<Longrightarrow> settled (\<lambda>f. if b then F f else G f)"
  "(b \<Longrightarrow> settled F) \<Longrightarrow> (\<not> b \<Longrightarrow> settled G) \<Longrightarrow> settled (\<lambda>f. case b of True \<Rightarrow> F f | False \<Rightarrow> G f)"
  "(m = None \<Longrightarrow> settled F) \<Longrightarrow> (\<And>a. m = Some a \<Longrightarrow> settled (\<lambda>f. H f a)) \<Longrightarrow> settled (\<lambda>f. case m of None \<Rightarrow> F f | Some a \<Rightarrow> H f a)"
  by (cases b; simp) ((cases b; simp), (cases m; simp))

lemma settled_call: "settled (\<lambda>f. arith_step ops (arith_call ops f) c p) \<Longrightarrow> settled (\<lambda>f. arith_call ops f c p)"
proof -
  assume "settled (\<lambda>f. arith_step ops (arith_call ops f) c p)"
  then obtain n x where n: "\<forall>f\<ge>n. arith_step ops (arith_call ops f) c p = Some x" by (auto simp: settled_def)
  have "arith_call ops f c p = Some x" if "Suc n \<le> f" for f using n that by (cases f) auto
  then show ?thesis unfolding settled_def by blast
qed

text \<open>Each call makes calls on a shorter rest of the expression, or further down the grammar, or on the
  value of a variable one level deeper.\<close>

fun rank :: "call \<Rightarrow> nat" where
  "rank (CEval _ _) = 0"
| "rank (CVariable _) = 0" | "rank (CPrimary _) = 1" | "rank (CPostfix _) = 2" | "rank (CUnary _) = 3" | "rank (CPower _) = 4"
| "rank (CLevelLoop level _ _) = 5" | "rank (CLevel level _) = 6 + (8 - level)"
| "rank (CAndLoop _ _) = 5" | "rank (CAnd _) = 15" | "rank (COrLoop _ _) = 5" | "rank (COr _) = 16"
| "rank (CConditional _) = 17" | "rank (CAssignment _) = 18" | "rank (CCommaLoop _ _) = 5" | "rank (CComma _) = 19"

definition recursion_left :: "call \<Rightarrow> 's parser \<Rightarrow> nat" where
  "recursion_left c p = (case c of CEval _ d \<Rightarrow> 2 * (129 - d) + 1 | _ \<Rightarrow> 2 * (129 - p_depth p))"

definition call_order :: "((call \<times> 's parser) \<times> (call \<times> 's parser)) set" where
  "call_order = inv_image (less_than <*lex*> less_than <*lex*> less_than)
     (\<lambda>(c, p). (recursion_left c p, length (rest_of p), rank c))"

lemma wf_call_order: "wf call_order"
  unfolding call_order_def by (intro wf_inv_image wf_lex_prod wf_less_than)

lemma rest_advances: "advances p q \<Longrightarrow> length (rest_of q) \<le> length (rest_of p)"
  by (auto simp: advances_def rest_of_def)

lemma rest_skip: "length (rest_of (skip_blanks p)) \<le> length (rest_of p)"
  by (simp add: skip_blanks_def rest_of_def)

lemma eat_shorter:
  assumes "snd (eat p t)" "t \<noteq> []"
  shows "length (rest_of (fst (eat p t))) < length (rest_of p)"
proof -
  have s: "starts_with (rest_of (skip_blanks p)) t"
    using assms(1) by (simp add: eat_def looking_at_def Let_def split: bool.splits)
  then have "length t \<le> length (rest_of (skip_blanks p))"
    unfolding starts_with_def by (metis length_take min.cobounded1)
  moreover have "length (rest_of (fst (eat p t))) = length (rest_of (skip_blanks p)) - length t"
    using s by (simp add: eat_def looking_at_def Let_def rest_of_def)
  moreover have "0 < length t" using assms(2) by simp
  ultimately show ?thesis using rest_skip [of p] by linarith
qed

lemma rest_skip_blanks: "rest_of (skip_blanks p) = dropWhile is_whitespace (rest_of p)"
  by (simp add: skip_blanks_def rest_of_def dropWhile_eq_drop add.commute)

lemma skip_blanks_idem [simp]: "skip_blanks (skip_blanks p) = skip_blanks p"
proof -
  have "takeWhile is_whitespace (dropWhile is_whitespace s) = []" for s by (induction s) auto
  then show ?thesis by (simp add: skip_blanks_def [of "skip_blanks p"] rest_skip_blanks)
qed

definition within :: "nat \<Rightarrow> nat \<Rightarrow> 's parser \<Rightarrow> bool" where
  "within n d p \<longleftrightarrow> p_depth p = d \<and> length (rest_of p) \<le> n"

lemma within_advances: "within n d p \<Longrightarrow> advances p q \<Longrightarrow> within n d q"
  using rest_advances [of p q] by (auto simp: within_def advances_def)

lemma within_rules:
  "within n d p \<Longrightarrow> within n d (skip_blanks p)" "within n d p \<Longrightarrow> within n d (fst (eat p t))"
  "within n d p \<Longrightarrow> within n d (fst (peek_char p))" "within n d p \<Longrightarrow> within n d (fst (binary_operator p cs))"
  "within n d p \<Longrightarrow> within n d (p\<lparr>p_token_start := k\<rparr>)" "within n d p \<Longrightarrow> within n d (unnest p)"
  "within n d p \<Longrightarrow> within n d (p\<lparr>p_vars := s\<rparr>)"
  by (erule within_advances, rule scanning.R_skip scanning.R_eat scanning.R_peek scanning.R_operator scanning.R_updates(1)
      scanning.R_updates(2) scanning.R_updates(4), simp_all add: scanning.refl)+

definition tracked :: "nat \<Rightarrow> nat \<Rightarrow> (nat \<Rightarrow> ('s, 'a) arith_result) \<Rightarrow> bool" where
  "tracked n d F \<longleftrightarrow> settled F \<and> (\<forall>f q r. F f = Some (q, r) \<longrightarrow> within n d q)"

lemma tracked_then:
  assumes "tracked n d F" "\<And>q a. within n d q \<Longrightarrow> tracked n d (\<lambda>f. k f q a)"
  shows "tracked n d (\<lambda>f. then_do (F f) (k f))"
proof (unfold tracked_def, intro conjI allI impI)
  show "settled (\<lambda>f. then_do (F f) (k f))"
  proof (rule settled_then)
    show "settled F" using assms(1) by (simp add: tracked_def)
    show "settled (\<lambda>f. k f p a)" if "F f = Some (p, Ok a)" for p a f
      using assms(2) [of p a] that assms(1) unfolding tracked_def by blast
  qed
  fix f q r
  assume "then_do (F f) (k f) = Some (q, r)"
  then consider e where "F f = Some (q, e)" | u a where "F f = Some (u, Ok a)" "k f u a = Some (q, r)"
    by (auto simp: then_do_def split: option.splits outcome.splits)
  then show "within n d q"
  proof cases
    case 2
    then have "within n d u" using assms(1) by (auto simp: tracked_def)
    then show ?thesis using assms(2) [of u a] 2(2) unfolding tracked_def by blast
  qed (use assms(1) in \<open>auto simp: tracked_def\<close>)
qed

lemma tracked_keeps: "within n d p \<Longrightarrow> settled F \<Longrightarrow> (\<And>f. keeps_rel advances p (F f)) \<Longrightarrow> tracked n d F"
  using within_advances [of n d p] unfolding tracked_def keeps_rel_def by blast

lemma tracked_leaf:
  "within n d p \<Longrightarrow> tracked n d (\<lambda>f. succeed p a)" "within n d p \<Longrightarrow> tracked n d (\<lambda>f. fail p e)"
  "within n d p \<Longrightarrow> tracked n d (\<lambda>f. Some (p, r))" "within n d p \<Longrightarrow> tracked n d (\<lambda>f. nest p)"
  "within n d p \<Longrightarrow> tracked n d (\<lambda>f. store ops p pl v)" "within n d p \<Longrightarrow> tracked n d (\<lambda>f. load ops p pl)"
  "within n d p \<Longrightarrow> tracked n d (\<lambda>f. constant_token p)"
  by (erule tracked_keeps; simp add: scanning.refl scanning.keeps_nest scanning.keeps_store scanning.keeps_load
      scanning.keeps_constant)+

lemma tracked_cases:
  "(b \<Longrightarrow> tracked n d F) \<Longrightarrow> (\<not> b \<Longrightarrow> tracked n d G) \<Longrightarrow> tracked n d (\<lambda>f. if b then F f else G f)"
  "(b \<Longrightarrow> tracked n d F) \<Longrightarrow> (\<not> b \<Longrightarrow> tracked n d G) \<Longrightarrow> tracked n d (\<lambda>f. case b of True \<Rightarrow> F f | False \<Rightarrow> G f)"
  "(m = None \<Longrightarrow> tracked n d F) \<Longrightarrow> (\<And>a. m = Some a \<Longrightarrow> tracked n d (\<lambda>f. H f a))
    \<Longrightarrow> tracked n d (\<lambda>f. case m of None \<Rightarrow> F f | Some a \<Rightarrow> H f a)"
  by (cases b; simp) ((cases b; simp), (cases m; simp))

lemma tracked_weaken: "tracked m d F \<Longrightarrow> m \<le> n \<Longrightarrow> tracked n d F"
  by (auto simp: tracked_def within_def intro: order_trans)

lemma eat_within: "snd (eat p t) \<Longrightarrow> t \<noteq> [] \<Longrightarrow> within n d p \<Longrightarrow> 0 < n \<and> within (n - 1) d (fst (eat p t))"
  using eat_shorter [of p t] within_rules(2) [of n d p t] by (auto simp: within_def)

lemma tracked_eat:
  assumes "within n d q" "t \<noteq> []"
    "0 < n \<Longrightarrow> within (n - 1) d (fst (eat q t)) \<Longrightarrow> tracked (n - 1) d F"
    "within n d (fst (eat q t)) \<Longrightarrow> tracked n d G"
  shows "tracked n d (\<lambda>f. case snd (eat q t) of True \<Rightarrow> F f | False \<Rightarrow> G f)"
proof (cases "snd (eat q t)")
  case True
  then show ?thesis using eat_within [OF True assms(2,1)] assms(3) by (simp add: tracked_weaken [of "n - 1"])
next
  case False
  then show ?thesis using assms(4) within_rules(2) [OF assms(1)] by simp
qed

lemma eat_starts: "starts_with (rest_of (skip_blanks p)) t \<Longrightarrow> snd (eat p t)"
  by (simp add: eat_def looking_at_def Let_def)

lemma operator_eaten:
  assumes "snd (binary_operator q cs) = Some operator"
  shows "operator \<in> set cs" "snd (eat (fst (binary_operator q cs)) operator)"
  using assms by (auto simp: binary_operator_def Let_def find_Some_iff intro!: eat_starts)

lemma tracked_operator:
  assumes "within n d q" "[] \<notin> set cs"
    "within n d (fst (binary_operator q cs)) \<Longrightarrow> tracked n d G"
    "\<And>operator. 0 < n \<Longrightarrow> operator \<in> set cs \<Longrightarrow> within (n - 1) d (fst (eat (fst (binary_operator q cs)) operator))
      \<Longrightarrow> tracked (n - 1) d (\<lambda>f. F f operator)"
  shows "tracked n d (\<lambda>f. case snd (binary_operator q cs) of None \<Rightarrow> G f | Some operator \<Rightarrow> F f operator)"
proof (cases "snd (binary_operator q cs)")
  case None
  then show ?thesis using assms(3) within_rules(4) [OF assms(1)] by simp
next
  case (Some operator)
  have "operator \<noteq> []" using operator_eaten(1) [OF Some] assms(2) by blast
  from eat_within [OF operator_eaten(2) [OF Some] this within_rules(4) [OF assms(1)]]
  show ?thesis using assms(4) operator_eaten(1) [OF Some] by (simp add: Some tracked_weaken [of "n - 1"])
qed

fun is_eval :: "call \<Rightarrow> bool" where
  "is_eval (CEval _ _) = True" | "is_eval _ = False"

lemma call_order_grammar:
  assumes "\<not> is_eval c" "\<not> is_eval c'" "within m (p_depth p) q" "m < length (rest_of p) \<or> m \<le> length (rest_of p) \<and> rank c' < rank c"
  shows "((c', q), (c, p)) \<in> call_order"
proof -
  have "recursion_left c' q = recursion_left c p"
    using assms(1,2,3) by (cases c; cases c') (simp_all add: recursion_left_def within_def)
  then show ?thesis using assms(3,4) by (auto simp: call_order_def within_def)
qed

lemma call_order_eval: "p_depth p = d \<Longrightarrow> ((CComma False, p), (CEval e d, q)) \<in> call_order"
  by (simp add: call_order_def recursion_left_def)

lemma call_order_variable:
  "\<not> is_eval c \<Longrightarrow> within m (p_depth p) q \<Longrightarrow> \<not> MAX_RECURSION \<le> p_depth q
    \<Longrightarrow> ((CEval e (p_depth q + 1), q), (c, p)) \<in> call_order"
  by (cases c) (auto simp: call_order_def recursion_left_def MAX_RECURSION_def within_def)

lemma level_operators: "[] \<notin> set (LEVELS ! l)" if "l < 8"
  using that by (auto simp: LEVELS_def nth_Cons split: nat.splits)

lemma peek_eaten: "snd (peek_char p) = Some c \<Longrightarrow> snd (eat p [c])"
  by (rule eat_starts) (auto simp: peek_char_def Let_def starts_with_def split: list.splits)

lemma tracked_find:
  assumes "within n d q" "tracked n d G"
    "\<And>c. 0 < n \<Longrightarrow> within (n - 1) d (fst (eat q [c])) \<Longrightarrow> tracked (n - 1) d (\<lambda>f. F f c)"
  shows "tracked n d (\<lambda>f. case find (\<lambda>c. snd (peek_char q) = Some c) cs of None \<Rightarrow> G f | Some c \<Rightarrow> F f c)"
proof (cases "find (\<lambda>c. snd (peek_char q) = Some c) cs")
  case (Some c)
  then have "snd (eat q [c])" by (intro peek_eaten) (auto simp: find_Some_iff)
  from eat_within [OF this _ assms(1)] show ?thesis using assms(3) by (simp add: Some tracked_weaken [of "n - 1"])
qed (use assms(2) in simp)

lemma tracked_peek:
  assumes "within n d q" "within n d (fst (peek_char q)) \<Longrightarrow> tracked n d G"
    "0 < n \<Longrightarrow> within (n - 1) d (fst (eat (fst (peek_char q)) [a])) \<Longrightarrow> tracked (n - 1) d F"
    "\<And>c. within n d (fst (peek_char q)) \<Longrightarrow> tracked n d (\<lambda>f. H f c)"
  shows "tracked n d (\<lambda>f. case snd (peek_char q) of None \<Rightarrow> G f | Some c \<Rightarrow> if c = a then F f else H f c)"
proof (cases "snd (peek_char q)")
  case (Some c)
  show ?thesis
  proof (cases "c = a")
    case True
    then have "snd (eat (fst (peek_char q)) [a])"
      using Some by (intro peek_eaten) (simp add: peek_char_def Let_def)
    from eat_within [OF this _ within_rules(3) [OF assms(1)]] show ?thesis
      using assms(3) by (simp add: Some True tracked_weaken [of "n - 1"])
  qed (use assms(4) within_rules(3) [OF assms(1)] in \<open>simp add: Some\<close>)
qed (use assms(2) within_rules(3) [OF assms(1)] in simp)

lemma tracked_subscript:
  assumes "within n d p"
    "\<And>q. within n d q \<Longrightarrow> tracked n d (\<lambda>f. G f q)"
    "\<And>q. 0 < n \<Longrightarrow> within (n - 1) d q \<Longrightarrow> tracked (n - 1) d (\<lambda>f. F f q)"
  defines "q k t \<equiv> p\<lparr>p_token_start := t, p_position := p_position p + k\<rparr>"
  shows "tracked n d (\<lambda>f. if starts_with (rest_of (q k t)) ''[''
    then F f ((q k t)\<lparr>p_position := p_position (q k t) + 1\<rparr>) else G f (q k t))"
proof -
  have "within n d (q k t)" using assms(1) by (auto simp: q_def within_def rest_of_def)
  moreover from this have "0 < n \<and> within (n - 1) d ((q k t)\<lparr>p_position := p_position (q k t) + 1\<rparr>)"
    if "starts_with (rest_of (q k t)) ''[''"
  proof -
    have "0 < length (rest_of (q k t))" using that by (cases "rest_of (q k t)") (simp_all add: starts_with_def)
    then show ?thesis using \<open>within n d (q k t)\<close> by (auto simp: within_def rest_of_def)
  qed
  ultimately show ?thesis
    using assms(2) [of "q k t"] tracked_weaken [OF assms(3) diff_le_self, of "(q k t)\<lparr>p_position := p_position (q k t) + 1\<rparr>"]
    by (cases "starts_with (rest_of (q k t)) ''[''") simp_all
qed

fun valid_call :: "call \<Rightarrow> bool" where
  "valid_call (CLevelLoop level _ _) = (level < length LEVELS)" | "valid_call _ = True"

lemma grammar_settled:
  assumes IH: "\<And>c' q. ((c', q), (c, p)) \<in> call_order \<Longrightarrow> valid_call c' \<Longrightarrow> settled (\<lambda>f. arith_call ops f c' q)"
    and c: "\<not> is_eval c" "valid_call c"
  shows "settled (\<lambda>f. arith_step ops (arith_call ops f) c p)"
proof -
  let ?N = "length (rest_of p)" and ?d = "p_depth p"
  have call: "tracked m ?d (\<lambda>f. arith_call ops f c' q)"
    if "within m ?d q" "m < ?N \<or> m \<le> ?N \<and> rank c' < rank c" "\<not> is_eval c'" "valid_call c'" for m c' q
    using IH [OF call_order_grammar [OF c(1) that(3,1,2)] that(4)] within_advances [OF that(1)] call_advances
    unfolding tracked_def by blast
  have p: "within ?N ?d p" by (simp add: within_def)
  note rules = tracked_then tracked_leaf tracked_eat tracked_operator tracked_cases call within_rules(1,3,5,6,7)
  have LEVELS: "length LEVELS = 8" by (simp add: LEVELS_def)
  have ASSIGN: "[] \<notin> set ASSIGNMENT_OPERATORS" by (simp add: ASSIGNMENT_OPERATORS_def)
  have "tracked ?N ?d (\<lambda>f. arith_step ops (arith_call ops f) c p)"
  proof (cases c)
    case (CComma b)
    then show ?thesis unfolding CComma arith_step.simps comma_def by (intro rules p) (simp_all add: CComma)
  next
    case (CCommaLoop b x)
    then show ?thesis unfolding CCommaLoop arith_step.simps comma_loop_def case_prod_unfold
      by (intro rules p) (simp_all add: CCommaLoop p)
  next
    case (CAssignment b)
    then show ?thesis unfolding CAssignment arith_step.simps assignment_def case_prod_unfold Let_def
      by (intro rules p) (simp_all add: CAssignment ASSIGN)
  next
    case (CConditional b)
    then show ?thesis unfolding CConditional arith_step.simps conditional_def case_prod_unfold Let_def
      by (intro rules p) (simp_all add: CConditional)
  next
    case (COr b)
    then show ?thesis unfolding COr arith_step.simps logical_or_def by (intro rules p) (simp_all add: COr)
  next
    case (COrLoop b x)
    then show ?thesis unfolding COrLoop arith_step.simps or_loop_def case_prod_unfold Let_def
      by (intro rules p) (simp_all add: COrLoop)
  next
    case (CAnd b)
    then show ?thesis unfolding CAnd arith_step.simps logical_and_def by (intro rules p) (simp_all add: CAnd)
  next
    case (CAndLoop b x)
    then show ?thesis unfolding CAndLoop arith_step.simps and_loop_def case_prod_unfold Let_def
      by (intro rules p) (simp_all add: CAndLoop)
  next
    case (CLevel l b)
    then show ?thesis unfolding CLevel arith_step.simps binary_level_def
      by (intro rules p) (simp_all add: CLevel LEVELS)
  next
    case (CLevelLoop l b x)
    then show ?thesis using c(2) unfolding CLevelLoop arith_step.simps level_loop_def case_prod_unfold Let_def
      by (intro rules p) (simp_all add: CLevelLoop LEVELS level_operators)
  next
    case (CPower b)
    then show ?thesis unfolding CPower arith_step.simps power_level_def case_prod_unfold Let_def
      by (intro rules p) (simp_all add: CPower)
  next
    case (CUnary b)
    let ?q = "skip_blanks p"
    have q: "within ?N ?d ?q" by (rule within_rules(1) [OF p])
    have step: "tracked ?N ?d (\<lambda>f. step_variable ops (arith_call ops f) b t delta ?q)" for t delta
      unfolding step_variable_def Let_def by (intro rules within_rules(2) q) (simp_all add: CUnary)
    show ?thesis unfolding CUnary arith_step.simps unary_def Let_def
      by (intro tracked_cases(1) step tracked_find q; intro rules q) (simp_all add: CUnary)
  next
    case (CPostfix b)
    then show ?thesis unfolding CPostfix arith_step.simps postfix_def case_prod_unfold Let_def
      by (intro rules p) (simp_all add: CPostfix)
  next
    case (CPrimary b)
    have q: "within ?N ?d (fst (peek_char p))" by (rule within_rules(3) [OF p])
    show ?thesis unfolding CPrimary arith_step.simps primary_def case_prod_unfold Let_def
      by (intro tracked_peek p; intro rules q) (simp_all add: CPrimary)
  next
    case (CVariable b)
    have eval: "tracked ?N ?d (\<lambda>f. arith_call ops f (CEval e (p_depth q + 1)) q)"
      if "within ?N ?d q" "\<not> MAX_RECURSION \<le> p_depth q" for e q
      using IH [OF call_order_variable [OF c(1) that]] within_advances [OF that(1)] call_advances
      unfolding tracked_def by simp blast
    have stored: "tracked ?N ?d (\<lambda>f. variable_value (arith_call ops f) a v q)" if "within ?N ?d q" for a v q
      unfolding variable_value_def Let_def by (intro tracked_then tracked_leaf tracked_cases eval that)
    show ?thesis unfolding CVariable arith_step.simps variable_def Let_def case_prod_unfold
      by (rule tracked_then, rule tracked_subscript [OF p]; intro rules stored) (simp_all add: CVariable)
  qed (use c in simp)
  then show ?thesis by (simp add: tracked_def)
qed

lemma settled_map: "settled F \<Longrightarrow> settled (\<lambda>f. case F f of None \<Rightarrow> None | Some (p, r) \<Rightarrow> Some (g p r))"
  unfolding settled_def by fastforce

lemma eval_settled:
  assumes "\<And>q. p_depth q = d \<Longrightarrow> settled (\<lambda>f. arith_call ops f (CComma False) q)"
  shows "settled (\<lambda>f. arith_step ops (arith_call ops f) (CEval e d) p)"
proof -
  let ?q = "skip_blanks \<lparr>p_vars = p_vars p, p_chars = e, p_position = 0, p_token_start = 0, p_depth = d, p_nesting = 0\<rparr>"
  have "settled (\<lambda>f. arith_call ops f (CComma False) ?q)" by (rule assms) (simp add: skip_blanks_def)
  then have "settled (\<lambda>f. then_do (arith_call ops f (CComma False) ?q) (\<lambda>p x.
             let p = skip_blanks p in
             if \<not> at_end p
             then let p = p\<lparr>p_token_start := p_position p\<rparr> in fail p (error_at p ''arithmetic syntax error in expression'')
             else succeed p (rvalue (op_value x))))"
    by (rule settled_then) (simp add: Let_def)
  then show ?thesis
    unfolding arith_step.simps evaluate_at_depth_def Let_def by (intro settled_cases settled_map) simp_all
qed

lemma calls_settle: "valid_call c \<Longrightarrow> settled (\<lambda>f. arith_call ops f c p)"
proof (induction "(c, p)" arbitrary: c p rule: wf_induct_rule [OF wf_call_order])
  case (1 c p)
  show ?case
  proof (rule settled_call, cases "is_eval c")
    case True
    then obtain e d where c: "c = CEval e d" by (cases c) auto
    show "settled (\<lambda>f. arith_step ops (arith_call ops f) c p)"
      unfolding c by (rule eval_settled) (rule 1(1), simp_all add: c call_order_eval)
  next
    case False
    show "settled (\<lambda>f. arith_step ops (arith_call ops f) c p)"
      by (rule grammar_settled [OF _ False 1(2)]) (rule 1(1))
  qed
qed

text \<open>C31. Evaluation terminates: for every expression, every variable state and every implementation
  of the variables there is an amount of fuel from which on the evaluator returns, always with the
  same result. Neither the loops of the grammar nor variables whose values are expressions that name
  each other keep it running.\<close>

theorem arithmetic_terminates: "\<exists>n s' r. \<forall>k. evaluate ops (n + k) s expression = Some (s', r)"
proof -
  let ?p = "\<lparr>p_vars = s, p_chars = [], p_position = 0, p_token_start = 0, p_depth = 0, p_nesting = 0\<rparr>"
  obtain n q r where n: "\<forall>fuel\<ge>n. arith_call ops fuel (CEval expression 0) ?p = Some (q, r)"
    using calls_settle [of "CEval expression 0" ops ?p] by (auto simp: settled_def)
  have "evaluate ops (n + k) s expression = Some (p_vars q, bind_oc r (\<lambda>x. Ok (op_value x)))" for k
    using n by (simp add: evaluate_def)
  then show ?thesis by blast
qed

text \<open>C33. A skipped operand has no effect: whatever part of the grammar is parsed with \<open>skip\<close> set, which
  is how the operand that \<open>&&\<close>, \<open>||\<close> or \<open>?:\<close> does not select is parsed, no variable changes, even when
  the operand contains assignments, increments or errors.\<close>

theorem skipped_operands_have_no_effect:
  assumes "skip_of c" "arith_call ops fuel c p = Some (q, r)"
  shows "p_vars q = p_vars p"
  using skipping.call_keeps [OF assms] by (simp add: same_vars_def)

definition counting_vars :: "nat arith_vars" where
  \<comment> \<open>variables that are never set and count the calls made to them\<close>
  "counting_vars = \<lparr>arith_get = \<lambda>s name. (s + 1, Ok None), arith_get_element = \<lambda>s name index. (s + 1, Ok None),
     arith_set = \<lambda>s name v. (s + 1, Ok ()), arith_set_element = \<lambda>s name index v. (s + 1, Ok ())\<rparr>"

definition parser_at :: "nat \<Rightarrow> string \<Rightarrow> nat parser" where
  "parser_at s text = \<lparr>p_vars = s, p_chars = text, p_position = 0, p_token_start = 0, p_depth = 0, p_nesting = 0\<rparr>"

lemma skipped_operands_have_no_effect_witness:
  "p_vars (fst (the (arith_call counting_vars 9 (CUnary True) (parser_at 7 ''++x'')))) = 7"
proof -
  have e: "arith_call counting_vars 9 (CUnary True) (parser_at 7 ''++x'')
      = Some ((parser_at 7 ''++x'')\<lparr>p_position := 3, p_token_start := 2\<rparr>, Ok (rvalue 0))"
    by code_simp
  show ?thesis
    unfolding e option.sel fst_conv
    by (rule trans [OF skipped_operands_have_no_effect [OF _ e]]) (simp_all add: parser_at_def)
qed

section \<open>Operators on signed integers\<close>

lemma word_of_sint: "word_of_int (sint w) = w" for w :: i64 by simp

lemma bit_ops_signed:
  "word_of_int (sint l OR sint r) = l OR r"  "word_of_int (sint l AND sint r) = l AND r"
  "word_of_int (sint l XOR sint r) = l XOR r" for l r :: i64
  by (simp_all add: of_int_or_eq of_int_and_eq of_int_xor_eq)

lemma shift_signed:
  "word_of_int (sint l * 2 ^ n) = push_bit n l" "word_of_int (sint l div 2 ^ n) = signed_drop_bit n l" for l :: i64
proof -
  show "word_of_int (sint l * 2 ^ n) = push_bit n l" by (simp add: push_bit_eq_mult)
  have "sint (signed_drop_bit n l) = sint l div 2 ^ n" by (simp add: sint_signed_drop_bit_eq drop_bit_eq_div)
  then show "word_of_int (sint l div 2 ^ n) = signed_drop_bit n l" by (simp flip: \<open>sint (signed_drop_bit n l) = _\<close>)
qed

lemma uint_mod_sint: "k dvd 2 ^ 64 \<Longrightarrow> uint w mod k = sint w mod k" for w :: i64
  by (simp add: uint_sint take_bit_eq_mod mod_mod_cancel)

lemma shift_count_mod: "int (shift_count r) = sint r mod 64"
proof -
  have "int (shift_count r) = uint r mod 2 ^ 32 mod 64"
    unfolding shift_count_def by (simp add: zmod_int unsigned_ucast_eq take_bit_eq_mod)
  also have "\<dots> = uint r mod 64" by (rule mod_mod_cancel) simp
  also have "\<dots> = sint r mod 64" by (rule uint_mod_sint) simp
  finally show ?thesis .
qed

lemma even_sint: "even (sint w) \<longleftrightarrow> \<not> w AND 1 = 1" for w :: i64
proof -
  have "word_of_int (sint w AND 1) = w AND 1" by (simp add: of_int_and_eq)
  then have "w AND 1 = word_of_int (of_bool (odd (sint w)))" by (simp add: and_one_eq mod_2_eq_odd)
  then show ?thesis by (cases "even (sint w)") simp_all
qed

lemma power_split: "(b :: i64) ^ n = (if odd n then b else 1) * (b * b) ^ (n div 2)"
proof -
  have "b ^ n = b ^ (n mod 2 + 2 * (n div 2))" by simp
  also have "\<dots> = b ^ (n mod 2) * (b * b) ^ (n div 2)" by (simp only: power_add power_mult power2_eq_square)
  finally show ?thesis by (simp add: mod_2_eq_odd)
qed

lemma power_loop_eq: "0 \<le> sint e \<Longrightarrow> power_loop r b e = r * b ^ nat (sint e)"
proof (induction r b e rule: power_loop.induct)
  case (1 r b e)
  show ?case
  proof (cases "0 < sint e")
    case True
    have h: "sint (signed_drop_bit 1 e) = sint e div 2" by (simp add: sint_signed_drop_bit_eq drop_bit_eq_div)
    have "power_loop r b e = (if e AND 1 = 1 then r * b else r) * (b * b) ^ (nat (sint e) div 2)"
      using True by (subst power_loop.simps) (simp only: 1(1) [OF True] h if_True, simp add: nat_div_distrib)
    also have "\<dots> = r * b ^ nat (sint e)"
      using True by (simp add: power_split [of b] even_nat_iff even_sint)
    finally show ?thesis .
  next
    case False
    with 1(2) show ?thesis by (subst power_loop.simps) simp
  qed
qed

definition int_op :: "string \<Rightarrow> int \<Rightarrow> int \<Rightarrow> int option" where
  \<comment> \<open>the operators on unbounded integers; \<open>None\<close> where there is no value\<close>
  "int_op operator l r = Option.bind (map_of
     [(''|'', Some (l OR r)), (''^'', Some (l XOR r)), (''&'', Some (l AND r)),
      (''=='', Some (of_bool (l = r))), (''!='', Some (of_bool (l \<noteq> r))), (''<='', Some (of_bool (l \<le> r))),
      (''>='', Some (of_bool (l \<ge> r))), (''<'', Some (of_bool (l < r))), (''>'', Some (of_bool (l > r))),
      (''<<'', Some (l * 2 ^ nat (r mod 64))), (''>>'', Some (l div 2 ^ nat (r mod 64))),
      (''+'', Some (l + r)), (''-'', Some (l - r)), (''*'', Some (l * r)),
      (''/'', if r = 0 then None else Some (l sdiv r)), (''%'', if r = 0 then None else Some (l smod r)),
      (''**'', if r < 0 then None else Some (l ^ nat r))] operator) id"

definition BINARY_OPERATORS :: "string list" where
  "BINARY_OPERATORS = ''**'' # concat LEVELS"

lemma sint_inj: "sint l = sint r \<longleftrightarrow> l = r" for l r :: i64
  by (metis word_of_sint)

lemma sint_eq_0: "sint r = 0 \<longleftrightarrow> r = 0" for r :: i64
  using sint_inj [of r 0] by simp

lemma shift_nat: "nat (sint r mod 64) = shift_count r"
  by (simp flip: shift_count_mod)

lemma apply_op_int:
  assumes "operator \<in> set BINARY_OPERATORS"
  shows "apply_op p operator l r = (case int_op operator (sint l) (sint r) of
     Some i \<Rightarrow> Ok (word_of_int i)
   | None \<Rightarrow> Err (error_at p (if operator = ''**'' then ''exponent less than 0'' else ''division by 0'')))"
  using assms unfolding BINARY_OPERATORS_def LEVELS_def concat.simps append.simps set_simps
  by (elim insertE) (simp_all add: apply_op_def int_op_def from_bool_def bit_ops_signed shift_nat shift_signed sint_inj sint_eq_0
    wrapping_power_def power_loop_eq push_bit_eq_mult)

text \<open>C32. Every binary operator computes the operation on signed integers and wraps the result to 64
  bits: shifts count modulo 64, a right shift and the comparisons are signed, division truncates
  towards zero, exponentiation by squaring gives the power, and the only errors are division by zero and
  a negative exponent.\<close>

theorem operators_wrap_integers:
  assumes "operator \<in> set BINARY_OPERATORS"
  shows "apply_op p operator l r = (case int_op operator (sint l) (sint r) of
     Some i \<Rightarrow> Ok (word_of_int i)
   | None \<Rightarrow> Err (error_at p (if operator = ''**'' then ''exponent less than 0'' else ''division by 0'')))"
  using assms by (rule apply_op_int)

lemma operators_wrap_integers_witness:
  "apply_op (parser_at 0 ''x'') ''**'' 3 41 = Ok (word_of_int (3 ^ 41))"
  using operators_wrap_integers [of "''**''" "parser_at 0 ''x''" 3 41] by (simp add: BINARY_OPERATORS_def int_op_def)

end
