(* ===== verification/Arith_Grammar.thy ===== *)
theory Arith_Grammar
  imports Arith
begin

text \<open>
  What shell arithmetic means: a syntax tree, the text a tree may be written as (an inductive grammar
  with the precedences and associativity of the language and free blanks) and the value and effect of a
  tree over integer variables. The evaluator of \<open>src/src/arith.rs\<close> is shown to implement it.
\<close>

section \<open>Expressions and their meaning\<close>

datatype expr =
    Num i64 | Var string | Paren expr
  | PreStep bool string | PostStep bool string
  | Unary char expr | Pow expr expr | Bin string expr expr
  | AndE expr expr | OrE expr expr | CondE expr expr expr
  | AssignE string string expr | CommaE expr expr

type_synonym env = "string \<Rightarrow> i64"

definition wrapped :: "string \<Rightarrow> i64 \<Rightarrow> i64 \<Rightarrow> i64 option" where
  "wrapped operator l r = map_option word_of_int (int_op operator (sint l) (sint r))"

definition un_op :: "char \<Rightarrow> i64 \<Rightarrow> i64" where
  "un_op c v = (if c = CHR ''-'' then - v else if c = CHR ''+'' then v
     else if c = CHR ''!'' then of_bool (v = 0) else NOT v)"

definition step_by :: "bool \<Rightarrow> i64" where
  "step_by up = (if up then 1 else - 1)"

definition seq :: "env \<times> i64 option \<Rightarrow> (env \<Rightarrow> i64 \<Rightarrow> env \<times> i64 option) \<Rightarrow> env \<times> i64 option" where
  "seq x k = (case x of (m, None) \<Rightarrow> (m, None) | (m, Some v) \<Rightarrow> k m v)"

fun sem :: "expr \<Rightarrow> env \<Rightarrow> env \<times> i64 option" where
  "sem (Num v) m = (m, Some v)"
| "sem (Var x) m = (m, Some (m x))"
| "sem (Paren e) m = sem e m"
| "sem (PreStep up x) m = (m(x := m x + step_by up), Some (m x + step_by up))"
| "sem (PostStep up x) m = (m(x := m x + step_by up), Some (m x))"
| "sem (Unary c e) m = seq (sem e m) (\<lambda>m v. (m, Some (un_op c v)))"
| "sem (Pow a b) m = seq (sem a m) (\<lambda>m l. seq (sem b m) (\<lambda>m r. (m, wrapped ''**'' l r)))"
| "sem (Bin operator a b) m = seq (sem a m) (\<lambda>m l. seq (sem b m) (\<lambda>m r. (m, wrapped operator l r)))"
| "sem (AndE a b) m = seq (sem a m) (\<lambda>m l. if l = 0 then (m, Some 0)
     else seq (sem b m) (\<lambda>m r. (m, Some (of_bool (r \<noteq> 0)))))"
| "sem (OrE a b) m = seq (sem a m) (\<lambda>m l. if l \<noteq> 0 then (m, Some 1)
     else seq (sem b m) (\<lambda>m r. (m, Some (of_bool (r \<noteq> 0)))))"
| "sem (CondE c a b) m = seq (sem c m) (\<lambda>m v. if v \<noteq> 0 then sem a m else sem b m)"
| "sem (AssignE x operator e) m = seq (sem e m) (\<lambda>m' r.
     case (if operator = [] then Some r else wrapped operator (m x) r) of
       None \<Rightarrow> (m', None) | Some v \<Rightarrow> (m'(x := v), Some v))"
| "sem (CommaE a b) m = seq (sem a m) (\<lambda>m _. sem b m)"

fun nesting :: "expr \<Rightarrow> nat" where
  "nesting (Num v) = 0" | "nesting (Var x) = 0" | "nesting (PreStep up x) = 0" | "nesting (PostStep up x) = 0"
| "nesting (Paren e) = nesting e + 1" | "nesting (Unary c e) = nesting e + 1"
| "nesting (Pow a b) = max (nesting a) (nesting b + 1)"
| "nesting (Bin operator a b) = max (nesting a) (nesting b)"
| "nesting (AndE a b) = max (nesting a) (nesting b)" | "nesting (OrE a b) = max (nesting a) (nesting b)"
| "nesting (CondE c a b) = max (nesting c) (max (nesting a) (nesting b) + 1)"
| "nesting (AssignE x operator e) = nesting e" | "nesting (CommaE a b) = max (nesting a) (nesting b)"

fun vars_of :: "expr \<Rightarrow> string set" where
  "vars_of (Num v) = {}" | "vars_of (Var x) = {x}" | "vars_of (PreStep up x) = {x}" | "vars_of (PostStep up x) = {x}"
| "vars_of (Paren e) = vars_of e" | "vars_of (Unary c e) = vars_of e"
| "vars_of (Pow a b) = vars_of a \<union> vars_of b"
| "vars_of (Bin operator a b) = vars_of a \<union> vars_of b"
| "vars_of (AndE a b) = vars_of a \<union> vars_of b" | "vars_of (OrE a b) = vars_of a \<union> vars_of b"
| "vars_of (CondE c a b) = vars_of c \<union> vars_of a \<union> vars_of b"
| "vars_of (AssignE x operator e) = insert x (vars_of e)" | "vars_of (CommaE a b) = vars_of a \<union> vars_of b"

section \<open>The grammar\<close>

definition name_char :: "char \<Rightarrow> bool" where
  "name_char c \<longleftrightarrow> is_ascii_alphanumeric c \<or> c = CHR ''_''"

definition is_name :: "string \<Rightarrow> bool" where
  "is_name x \<longleftrightarrow> (\<exists>c cs. x = c # cs \<and> (is_ascii_alphabetic c \<or> c = CHR ''_'') \<and> list_all name_char cs)"

definition constant_char :: "char \<Rightarrow> bool" where
  "constant_char c \<longleftrightarrow> is_ascii_alphanumeric c \<or> c = CHR ''#'' \<or> c = CHR ''@'' \<or> c = CHR ''_''"

definition constant_text :: "i64 \<Rightarrow> string \<Rightarrow> bool" where
  "constant_text v s \<longleftrightarrow> (\<exists>c cs. s = c # cs \<and> is_ascii_digit c \<and> list_all constant_char cs) \<and> parse_constant s = Ok v"

definition blanks :: "string \<Rightarrow> bool" where
  "blanks w \<longleftrightarrow> list_all is_whitespace w"

definition MULTI_CHAR_OPERATORS :: "string list" where
  "MULTI_CHAR_OPERATORS = [''++'', ''--''] @ longer_operators"

definition clear_of :: "string \<Rightarrow> string \<Rightarrow> bool" where
  \<comment> \<open>the text behind the operator does not make it a longer one\<close>
  "clear_of operator t \<longleftrightarrow>
     t = [] \<or> \<not> list_ex (\<lambda>m. starts_with m (operator @ [hd t])) MULTI_CHAR_OPERATORS"

definition behind :: "string \<Rightarrow> string \<Rightarrow> string \<Rightarrow> bool" where
  "behind operator s t \<longleftrightarrow> (\<exists>w. blanks w \<and> t = w @ s) \<and> clear_of operator t"

inductive written :: "nat \<Rightarrow> expr \<Rightarrow> string \<Rightarrow> bool" where
  num: "constant_text v s \<Longrightarrow> written 17 (Num v) s"
| var: "is_name x \<Longrightarrow> written 17 (Var x) x"
| paren: "written k e s \<Longrightarrow> 1 \<le> k \<Longrightarrow> blanks w1 \<Longrightarrow> blanks w2 \<Longrightarrow> written 17 (Paren e) (''('' @ w1 @ s @ w2 @ '')'')"
| post_step: "is_name x \<Longrightarrow> blanks w \<Longrightarrow> written 16 (PostStep up x) (x @ w @ (if up then ''++'' else ''--''))"
| pre_step: "is_name x \<Longrightarrow> blanks w \<Longrightarrow> written 15 (PreStep up x) ((if up then ''++'' else ''--'') @ w @ x)"
| unary: "written k e s \<Longrightarrow> 15 \<le> k \<Longrightarrow> c \<in> set ''-+!~'' \<Longrightarrow> behind [c] s t \<Longrightarrow> written 15 (Unary c e) (c # t)"
| pow: "written i a s1 \<Longrightarrow> written j b s2 \<Longrightarrow> 15 \<le> i \<Longrightarrow> 14 \<le> j \<Longrightarrow> blanks w1 \<Longrightarrow> behind ''**'' s2 t
    \<Longrightarrow> written 14 (Pow a b) (s1 @ w1 @ ''**'' @ t)"
| bin: "written i a s1 \<Longrightarrow> written j b s2 \<Longrightarrow> l < 8 \<Longrightarrow> operator \<in> set (LEVELS ! l) \<Longrightarrow> 6 + l \<le> i \<Longrightarrow> 6 + l < j
    \<Longrightarrow> blanks w1 \<Longrightarrow> behind operator s2 t \<Longrightarrow> written (6 + l) (Bin operator a b) (s1 @ w1 @ operator @ t)"
| conj: "written i a s1 \<Longrightarrow> written j b s2 \<Longrightarrow> 5 \<le> i \<Longrightarrow> 5 < j \<Longrightarrow> blanks w1 \<Longrightarrow> behind ''&&'' s2 t
    \<Longrightarrow> written 5 (AndE a b) (s1 @ w1 @ ''&&'' @ t)"
| disj: "written i a s1 \<Longrightarrow> written j b s2 \<Longrightarrow> 4 \<le> i \<Longrightarrow> 4 < j \<Longrightarrow> blanks w1 \<Longrightarrow> behind ''||'' s2 t
    \<Longrightarrow> written 4 (OrE a b) (s1 @ w1 @ ''||'' @ t)"
| cond: "written i c s1 \<Longrightarrow> written j a s2 \<Longrightarrow> written k b s3 \<Longrightarrow> 3 < i \<Longrightarrow> 1 \<le> j \<Longrightarrow> 3 \<le> k
    \<Longrightarrow> blanks w1 \<Longrightarrow> behind ''?'' s2 t2 \<Longrightarrow> blanks w3 \<Longrightarrow> behind '':'' s3 t3
    \<Longrightarrow> written 3 (CondE c a b) (s1 @ w1 @ ''?'' @ t2 @ w3 @ '':'' @ t3)"
| assign: "is_name x \<Longrightarrow> written j e s \<Longrightarrow> 2 \<le> j \<Longrightarrow> operator @ ''='' \<in> set ASSIGNMENT_OPERATORS \<Longrightarrow> blanks w1
    \<Longrightarrow> behind (operator @ ''='') s t \<Longrightarrow> written 2 (AssignE x operator e) (x @ w1 @ operator @ ''='' @ t)"
| comma: "written i a s1 \<Longrightarrow> written j b s2 \<Longrightarrow> 1 \<le> i \<Longrightarrow> 1 < j \<Longrightarrow> blanks w1 \<Longrightarrow> behind '','' s2 t
    \<Longrightarrow> written 1 (CommaE a b) (s1 @ w1 @ '','' @ t)"

section \<open>The next token\<close>

definition TOKENS :: "(string \<times> nat) list" where
  \<comment> \<open>the operators that may follow an operand, with their level\<close>
  "TOKENS = [('':'', 0), ('','', 1)] @ map (\<lambda>operator. (operator, 2)) ASSIGNMENT_OPERATORS
     @ [(''?'', 3), (''||'', 4), (''&&'', 5)] @ concat (map (\<lambda>l. map (\<lambda>operator. (operator, 6 + l)) (LEVELS ! l)) [0..<8])
     @ [(''**'', 14)]"

definition pending :: "'s parser \<Rightarrow> string" where
  "pending p = dropWhile is_whitespace (rest_of p)"

definition ahead :: "nat \<Rightarrow> string \<Rightarrow> string \<Rightarrow> bool" where
  "ahead l operator t \<longleftrightarrow> operator = [] \<and> l = 0 \<and> (t = [] \<or> hd t = CHR '')'')
     \<or> (operator, l) \<in> set TOKENS \<and> (\<exists>v. t = operator @ v \<and> clear_of operator v)"

definition ends_before :: "nat \<Rightarrow> string \<Rightarrow> bool" where
  \<comment> \<open>the text goes on with the end, a closing parenthesis or an operator below the level\<close>
  "ends_before k u \<longleftrightarrow> (\<exists>l operator. l < k \<and> ahead l operator (dropWhile is_whitespace u))"

lemma ahead_cases [consumes 1, case_names closing token]:
  assumes "ahead l operator t"
  obtains "operator = []" "l = 0" "t = [] \<or> hd t = CHR '')''"
  | v where "(operator, l) \<in> set TOKENS" "t = operator @ v" "clear_of operator v"
  using assms unfolding ahead_def by blast

lemma rest_pending: "rest_of (skip_blanks p) = pending p"
  by (simp add: rest_of_def skip_blanks_def pending_def dropWhile_eq_drop add.commute)

lemma pending_skip [simp]: "pending (skip_blanks p) = pending p"
  by (simp add: pending_def [of "skip_blanks p"] rest_pending) (simp add: pending_def dropWhile_idem)

lemma pending_token_start [simp]: "pending (p\<lparr>p_token_start := a\<rparr>) = pending p"
  by (simp add: pending_def rest_of_def)

lemma pending_nesting [simp]: "pending (p\<lparr>p_nesting := a\<rparr>) = pending p" "pending (unnest p) = pending p"
  by (simp_all add: pending_def rest_of_def unnest_def)

lemma skip_fields [simp]: "p_vars (skip_blanks p) = p_vars p" "p_nesting (skip_blanks p) = p_nesting p"
  by (simp_all add: skip_blanks_def)

lemma eat_snd: "snd (eat p t) = starts_with (pending p) t"
  by (simp add: eat_def looking_at_def Let_def rest_pending split: bool.split)

lemma eat_fields [simp]: "p_vars (fst (eat p t)) = p_vars p" "p_nesting (fst (eat p t)) = p_nesting p"
  by (simp_all add: eat_def looking_at_def Let_def split: bool.split)

lemma drop_rest: "rest_of (p\<lparr>p_token_start := a, p_position := p_position p + n\<rparr>) = drop n (rest_of p)"
  by (simp add: rest_of_def add.commute)

lemma eat_pending:
  "pending (fst (eat p t)) = (if starts_with (pending p) t then dropWhile is_whitespace (drop (length t) (pending p)) else pending p)"
  by (simp add: eat_def looking_at_def Let_def rest_pending split: bool.split)
    (simp add: pending_def [of "_\<lparr>p_token_start := _, p_position := _\<rparr>"] drop_rest rest_pending)

lemma operator_snd: "snd (binary_operator p cs)
    = find (\<lambda>c. starts_with (pending p) c \<and> \<not> shadowed (pending p) cs c) cs"
  by (simp add: binary_operator_def Let_def rest_pending)

lemma operator_fst: "fst (binary_operator p cs) = skip_blanks p"
  by (simp add: binary_operator_def Let_def)

lemma starts_with_short: "length t \<le> length a \<Longrightarrow> starts_with (a @ v) t = starts_with a t"
  by (simp add: starts_with_def)

lemma starts_with_longer:
  assumes "starts_with (a @ v) t" "length a < length t"
  shows "v \<noteq> [] \<and> starts_with t (a @ [hd v])"
proof -
  have t: "t = a @ take (length t - length a) v" using assms by (simp add: starts_with_def)
  then have v: "v \<noteq> []" using assms(2) by auto
  obtain n where "length t - length a = Suc n" using assms(2) by (metis Suc_diff_Suc)
  then have "t = (a @ [hd v]) @ take n (tl v)" using t v by (cases v) simp_all
  then show ?thesis using v starts_with_append by metis
qed

lemma starts_with_operator:
  assumes "clear_of operator v" "t \<in> set MULTI_CHAR_OPERATORS \<or> length t \<le> length operator"
  shows "starts_with (operator @ v) t = starts_with operator t"
proof (cases "length t \<le> length operator")
  case False
  then have "\<not> starts_with operator t" by (metis length_take min.cobounded1 starts_with_def)
  then show ?thesis using assms False starts_with_longer [of operator v t] by (auto simp: clear_of_def list_ex_iff)
qed (rule starts_with_short)

lemma clear_of_append: "t \<noteq> [] \<Longrightarrow> clear_of operator (t @ u) = clear_of operator t"
  by (simp add: clear_of_def)

definition op_group :: "nat \<Rightarrow> string list" where
  "op_group k = (if k = 2 then ASSIGNMENT_OPERATORS else if k = 14 then [''**''] else LEVELS ! (k - 6))"

definition GROUPS :: "nat list" where
  "GROUPS = [2, 6, 7, 8, 9, 10, 11, 12, 13, 14]"

definition SINGLE_LEVELS :: "(string \<times> nat) list" where
  "SINGLE_LEVELS = [('':'', 0), ('','', 1), (''?'', 3), (''||'', 4), (''&&'', 5)]"

definition SINGLES :: "string list" where
  "SINGLES = map fst SINGLE_LEVELS"

lemma token_table:
  "list_all (\<lambda>(operator, l). operator \<noteq> [] \<and> list_all (\<lambda>t. starts_with operator t \<longleftrightarrow> operator = t) SINGLES
     \<and> \<not> starts_with operator ''++'' \<and> \<not> starts_with operator ''--'' \<and> \<not> constant_char (hd operator)
     \<and> hd operator \<noteq> CHR ''['' \<and> \<not> is_whitespace (hd operator)) TOKENS"
  by code_simp

lemma group_table:
  "list_all (\<lambda>(operator, l). list_all (\<lambda>k. list_all (\<lambda>t. t \<in> set MULTI_CHAR_OPERATORS \<or> length t \<le> length operator) (op_group k)
     \<and> find (\<lambda>c. starts_with operator c \<and> \<not> shadowed operator (op_group k) c) (op_group k)
        = (if l = k then Some operator else None)) GROUPS) TOKENS"
  by code_simp

lemma closing_table:
  "list_all (\<lambda>k. list_all (\<lambda>t. t \<noteq> [] \<and> hd t \<noteq> CHR '')'') (op_group k)) GROUPS"
  "list_all (\<lambda>t. t \<noteq> [] \<and> hd t \<noteq> CHR '')'') SINGLES"
  by code_simp+

lemma single_table: "list_all (\<lambda>t. t \<in> set MULTI_CHAR_OPERATORS \<or> length t \<le> 1) SINGLES"
  by code_simp

lemma single_level_table:
  "list_all (\<lambda>(operator, l). list_all (\<lambda>(t, k). operator = t \<longrightarrow> l = k) SINGLE_LEVELS) TOKENS"
  by code_simp

lemma closed_starts: "t = [] \<or> hd t = CHR '')'' \<Longrightarrow> c \<noteq> [] \<Longrightarrow> hd c \<noteq> CHR '')'' \<Longrightarrow> \<not> starts_with t c"
  by (cases t; cases c) (auto simp: starts_with_def)

lemma shadowed_operator: "clear_of operator v \<Longrightarrow> shadowed (operator @ v) cs c = shadowed operator cs c"
  unfolding shadowed_def list_ex_iff
  using starts_with_operator [of operator v] by (auto simp: MULTI_CHAR_OPERATORS_def)

lemma operator_ahead:
  assumes "ahead l operator (pending p)" "k \<in> set GROUPS"
  shows "snd (binary_operator p (op_group k)) = (if l = k then Some operator else None)"
  using assms(1)
proof (cases rule: ahead_cases)
  case closing
  moreover have "k \<noteq> 0" using assms(2) by (auto simp: GROUPS_def)
  ultimately show ?thesis
    using closing_table(1) assms(2) by (auto simp: operator_snd find_None_iff list_all_iff closed_starts)
next
  case (token v)
  note op = token(1) and v = token(2,3)
  have "snd (binary_operator p (op_group k))
      = find (\<lambda>c. starts_with operator c \<and> \<not> shadowed operator (op_group k) c) (op_group k)"
    unfolding operator_snd v(1) shadowed_operator [OF v(2)]
    using group_table op assms(2) by (intro find_cong) (auto simp: list_all_iff starts_with_operator [OF v(2)])
  then show ?thesis using group_table op assms(2) by (auto simp: list_all_iff)
qed

lemma eat_ahead:
  assumes "ahead l operator (pending p)" "t \<in> set SINGLES"
  shows "snd (eat p t) \<longleftrightarrow> operator = t"
  using assms(1)
proof (cases rule: ahead_cases)
  case closing
  then show ?thesis using closing_table(2) assms(2) by (auto simp: eat_snd list_all_iff closed_starts)
next
  case (token v)
  note op = token(1) and v = token(2,3)
  have "t \<in> set MULTI_CHAR_OPERATORS \<or> length t \<le> 1"
    using assms(2) single_table by (auto simp: list_all_iff)
  moreover have o: "operator \<noteq> []" "starts_with operator t \<longleftrightarrow> operator = t"
    using token_table op assms(2) by (auto simp: list_all_iff)
  ultimately have "t \<in> set MULTI_CHAR_OPERATORS \<or> length t \<le> length operator"
    by (cases operator) auto
  then show ?thesis by (simp only: eat_snd v(1) starts_with_operator [OF v(2)] o)
qed

lemma eat_level:
  assumes "ahead l operator (pending p)" "(t, k) \<in> set SINGLE_LEVELS" "l \<noteq> k"
  shows "\<not> snd (eat p t)"
proof
  assume "snd (eat p t)"
  moreover have t: "t \<in> set SINGLES" using assms(2) by (force simp: SINGLES_def)
  ultimately have "operator = t" using eat_ahead [OF assms(1)] by simp
  moreover have "t \<noteq> []" using t closing_table(2) by (auto simp: list_all_iff)
  ultimately have "(t, l) \<in> set TOKENS" using assms(1) by (auto simp: ahead_def)
  then show False using assms(2,3) single_level_table by (auto simp: list_all_iff)
qed

lemma step_ahead:
  assumes "ahead l operator (pending p)"
  shows "\<not> snd (eat p ''++'')" "\<not> snd (eat p ''--'')"
  using assms token_table unfolding ahead_def
  by (auto simp: eat_snd closed_starts list_all_iff starts_with_operator MULTI_CHAR_OPERATORS_def)

lemma peek_snd: "snd (peek_char p) = (case pending p of [] \<Rightarrow> None | c # _ \<Rightarrow> Some c)"
  by (simp add: peek_char_def Let_def rest_pending)

lemma peek_fst: "fst (peek_char p) = skip_blanks p"
  by (simp add: peek_char_def Let_def)

lemma looking_snd: "snd (looking_at p t) = starts_with (pending p) t"
  by (simp add: looking_at_def Let_def rest_pending)

lemma ends_before_mono: "ends_before k u \<Longrightarrow> k \<le> m \<Longrightarrow> ends_before m u"
  by (auto simp: ends_before_def intro: less_le_trans)

lemma char_classes:
  "is_ascii_digit c \<or> is_ascii_alphabetic c \<or> c = CHR ''_'' \<Longrightarrow> \<not> is_whitespace c \<and> c \<notin> set ''-+!~(''"
  by (auto simp: is_ascii_digit_def is_ascii_alphabetic_def is_whitespace_def)

lemma written_head: "written l e s \<Longrightarrow> \<exists>c cs. s = c # cs \<and> \<not> is_whitespace c \<and> (16 \<le> l \<longrightarrow> c \<notin> set ''-+!~'')"
proof (induction rule: written.induct)
  case (num v s)
  then show ?case using char_classes by (auto simp: constant_text_def)
next
  case (var x)
  then show ?case using char_classes by (auto simp: is_name_def)
next
  case (post_step x w up)
  then show ?case using char_classes by (auto simp: is_name_def)
next
  case (assign x j e s operator w1 t)
  then show ?case using char_classes by (fastforce simp: is_name_def)
qed (auto simp: is_whitespace_def)

definition boundary :: "string \<Rightarrow> bool" where
  "boundary u \<longleftrightarrow> u = [] \<or> \<not> constant_char (hd u) \<and> hd u \<noteq> CHR ''[''"

lemma blank_boundary: "u \<noteq> [] \<Longrightarrow> is_whitespace (hd u) \<Longrightarrow> boundary u"
  by (auto simp: boundary_def constant_char_def is_whitespace_def is_ascii_alphanumeric_def is_ascii_digit_def is_ascii_alphabetic_def)

lemma ahead_boundary:
  assumes "ahead l operator u" shows "boundary u"
  using assms
proof (cases rule: ahead_cases)
  case closing
  then show ?thesis
    by (auto simp: boundary_def constant_char_def is_ascii_alphanumeric_def is_ascii_digit_def is_ascii_alphabetic_def)
next
  case (token v)
  then show ?thesis using token_table by (auto simp: boundary_def list_all_iff hd_append)
qed

lemma dropped_boundary: "boundary (dropWhile is_whitespace u) \<Longrightarrow> boundary u"
  by (cases u) (auto intro: blank_boundary split: if_splits)

lemma take_token:
  assumes "list_all P s" "boundary u" "\<And>c. P c \<Longrightarrow> constant_char c"
  shows "takeWhile P (s @ u) = s"
proof -
  have "takeWhile P u = []" using assms(2,3) by (cases u) (auto simp: boundary_def)
  then show ?thesis using assms(1) by (simp add: takeWhile_append2 list_all_iff)
qed

lemma name_start: "is_name x \<Longrightarrow> \<exists>c cs. x = c # cs \<and> \<not> is_ascii_digit c \<and> c \<notin> set ''-+!~('' \<and> \<not> is_whitespace c
    \<and> (is_ascii_alphabetic c \<or> c = CHR ''_'')"
proof -
  assume "is_name x"
  then obtain c cs where "x = c # cs" "is_ascii_alphabetic c \<or> c = CHR ''_''" by (auto simp: is_name_def)
  moreover from this(2) have "\<not> is_ascii_digit c" by (auto simp: is_ascii_digit_def is_ascii_alphabetic_def)
  ultimately show ?thesis using char_classes [of c] by blast
qed

lemma name_chars: "is_name x \<Longrightarrow> list_all name_char x"
  by (auto simp: is_name_def name_char_def is_ascii_alphanumeric_def list_all_iff)

lemma blanks_drop: "blanks w \<Longrightarrow> dropWhile is_whitespace (w @ t) = dropWhile is_whitespace t"
  by (simp add: blanks_def dropWhile_append2 list_all_iff)

lemma written_drop:
  assumes "written l e s"
  shows "dropWhile is_whitespace (s @ u) = s @ u" "s \<noteq> []"
  using written_head [OF assms] by auto

lemma behind_drop:
  assumes "written l e s" "behind operator s t"
  shows "dropWhile is_whitespace (t @ u) = s @ u" "clear_of operator (t @ u)"
  using assms(2) written_drop [OF assms(1)]
  by (auto simp: behind_def blanks_drop) (metis append_is_Nil_conv append_assoc clear_of_append)

lemma token_ahead:
  assumes "(operator, l) \<in> set TOKENS" "blanks w" "clear_of operator t"
  shows "ahead l operator (dropWhile is_whitespace (w @ operator @ t))" "dropWhile is_whitespace (w @ operator @ t) = operator @ t"
proof -
  have "operator \<noteq> [] \<and> \<not> is_whitespace (hd operator)" using token_table assms(1) by (auto simp: list_all_iff)
  then show d: "dropWhile is_whitespace (w @ operator @ t) = operator @ t"
    by (cases operator) (simp_all add: blanks_drop assms(2))
  then show "ahead l operator (dropWhile is_whitespace (w @ operator @ t))"
    using assms unfolding ahead_def d by blast
qed

lemma step_boundary: "blanks w \<Longrightarrow> boundary (w @ (if up then ''++'' else ''--'') @ u)"
proof (cases w)
  case Nil
  then show ?thesis
    by (simp add: boundary_def constant_char_def is_ascii_alphanumeric_def is_ascii_digit_def is_ascii_alphabetic_def)
next
  case (Cons c cs)
  moreover assume "blanks w"
  ultimately show ?thesis by (intro blank_boundary) (simp_all add: blanks_def)
qed

section \<open>Calls that return\<close>

definition gives :: "(nat \<Rightarrow> 'a option) \<Rightarrow> ('a \<Rightarrow> bool) \<Rightarrow> bool" where
  \<comment> \<open>with enough fuel the call returns, and what it returns satisfies \<open>P\<close>\<close>
  "gives F P \<longleftrightarrow> (\<exists>n y. (\<forall>f\<ge>n. F f = Some y) \<and> P y)"

lemma gives_value: "P y \<Longrightarrow> gives (\<lambda>f. Some y) P" "P (p, Ok a) \<Longrightarrow> gives (\<lambda>f. succeed p a) P" "P (p, Err e) \<Longrightarrow> gives (\<lambda>f. fail p e) P"
  unfolding gives_def succeed_def fail_def by blast+

lemma gives_ex: "gives F P \<Longrightarrow> \<exists>n q r. (\<forall>f\<ge>n. F f = Some (q, r)) \<and> P (q, r)"
  by (auto simp: gives_def)

lemma gives_call: "gives (\<lambda>f. arith_step ops (arith_call ops f) c p) P \<Longrightarrow> gives (\<lambda>f. arith_call ops f c p) P"
proof -
  assume "gives (\<lambda>f. arith_step ops (arith_call ops f) c p) P"
  then obtain n y where "\<forall>f\<ge>n. arith_step ops (arith_call ops f) c p = Some y" "P y" by (auto simp: gives_def)
  then have "\<forall>f\<ge>Suc n. arith_call ops f c p = Some y" by (metis Suc_le_D Suc_le_mono arith_call.simps(2))
  with \<open>P y\<close> show ?thesis unfolding gives_def by blast
qed

lemma gives_then:
  assumes "gives F R"
    "\<And>q a. R (q, Ok a) \<Longrightarrow> gives (\<lambda>f. K f q a) P" "\<And>q e. R (q, Err e) \<Longrightarrow> P (q, Err e)" "\<And>q. R (q, Panic) \<Longrightarrow> P (q, Panic)"
  shows "gives (\<lambda>f. then_do (F f) (K f)) P"
proof -
  obtain n q r where n: "\<forall>f\<ge>n. F f = Some (q, r)" "R (q, r)" using assms(1) by (auto simp: gives_def)
  show ?thesis
  proof (cases r)
    case (Ok a)
    then obtain m y where "\<forall>f\<ge>m. K f q a = Some y" "P y"
      using assms(2) n(2) unfolding gives_def by blast
    then show ?thesis using n Ok unfolding gives_def by (intro exI [of _ "max n m"] exI [of _ y]) (simp add: then_do_def)
  qed (use n assms(3,4) in \<open>(auto simp: gives_def then_do_def intro!: exI [of _ n] exI [of _ q] exI [of _ r])\<close>)
qed

lemma then_nest: "p_nesting p < MAX_NESTING \<Longrightarrow> then_do (nest p) K = K (p\<lparr>p_nesting := p_nesting p + 1\<rparr>) ()"
  by (simp add: nest_def then_do_def)

section \<open>The evaluator implements the meaning\<close>

definition value_of :: "string option \<Rightarrow> i64 \<Rightarrow> bool" where
  \<comment> \<open>the content of a variable is a number, or there is none\<close>
  "value_of content v \<longleftrightarrow> (case content of None \<Rightarrow> v = 0
     | Some c \<Rightarrow> if trim c = [] then v = 0 else map_option word_of_int (parse_i64 (trim c)) = Some v)"

definition gcall :: "nat \<Rightarrow> bool \<Rightarrow> call" where
  "gcall k skip = (if k \<le> 1 then CComma skip else if k = 2 then CAssignment skip else if k = 3 then CConditional skip
     else if k = 4 then COr skip else if k = 5 then CAnd skip else if k \<le> 13 then CLevel (k - 6) skip
     else if k = 14 then CPower skip else if k = 15 then CUnary skip else if k = 16 then CPostfix skip else CPrimary skip)"

definition loop_call :: "nat \<Rightarrow> bool \<Rightarrow> operand \<Rightarrow> call" where
  "loop_call k skip x = (if k = 1 then CCommaLoop skip x else if k = 4 then COrLoop skip x else if k = 5 then CAndLoop skip x
     else CLevelLoop (k - 6) skip x)"

definition LOOPS :: "nat list" where
  "LOOPS = [1, 4, 5, 6, 7, 8, 9, 10, 11, 12, 13]"

locale integer_store =
  fixes ops :: "'s arith_vars" and inv :: "'s \<Rightarrow> bool" and val :: "'s \<Rightarrow> env" and names :: "string set"
  assumes get: "inv s \<Longrightarrow> x \<in> names \<Longrightarrow> \<exists>c. arith_get ops s x = (s, Ok c) \<and> value_of c (val s x)"
    and set: "inv s \<Longrightarrow> x \<in> names \<Longrightarrow> \<exists>s'. arith_set ops s x v = (s', Ok ()) \<and> inv s' \<and> val s' = (val s)(x := v)"
begin

definition means :: "bool \<Rightarrow> expr \<Rightarrow> 's parser \<Rightarrow> string \<Rightarrow> 's parser \<times> (arith_error, operand) outcome \<Rightarrow> bool" where
  "means skip e p u y = (case y of (q, r) \<Rightarrow> inv (p_vars q) \<and> (case r of
     Ok x \<Rightarrow> pending q = dropWhile is_whitespace u \<and> p_nesting q = p_nesting p
       \<and> (\<forall>n. e = Var n \<longrightarrow> op_place x = Some (Scalar n))
       \<and> (if skip then p_vars q = p_vars p else sem e (val (p_vars p)) = (val (p_vars q), Some (op_value x)))
   | Err _ \<Rightarrow> \<not> skip \<and> sem e (val (p_vars p)) = (val (p_vars q), None)
   | Panic \<Rightarrow> False))"

definition ready :: "expr \<Rightarrow> string \<Rightarrow> string \<Rightarrow> 's parser \<Rightarrow> bool" where
  "ready e s u p \<longleftrightarrow> pending p = s @ u \<and> inv (p_vars p) \<and> p_nesting p + nesting e \<le> MAX_NESTING \<and> vars_of e \<subseteq> names"

definition parses :: "nat \<Rightarrow> expr \<Rightarrow> string \<Rightarrow> bool" where
  "parses k e s \<longleftrightarrow> (\<forall>p skip u. ready e s u p \<longrightarrow> ends_before k u \<longrightarrow> gives (\<lambda>f. arith_call ops f (gcall k skip) p) (means skip e p u))"

definition enters_loop :: "nat \<Rightarrow> expr \<Rightarrow> string \<Rightarrow> bool" where
  "enters_loop k e s \<longleftrightarrow> (\<forall>p skip u Q. ready e s u p \<longrightarrow> ends_before (k + 1) u
     \<longrightarrow> (\<forall>q x. means skip e p u (q, Ok x) \<longrightarrow> gives (\<lambda>f. arith_call ops f (loop_call k skip x) q) Q)
     \<longrightarrow> (\<forall>q err. means skip e p u (q, Err err) \<longrightarrow> Q (q, Err err))
     \<longrightarrow> gives (\<lambda>f. arith_call ops f (gcall k skip) p) Q)"

lemma means_panic [simp]: "\<not> means skip e p u (q, Panic)"
  by (simp add: means_def)

lemma means_same: "means skip e p u (q, r) \<Longrightarrow> p_vars q' = p_vars q \<Longrightarrow> pending q' = pending q \<Longrightarrow> p_nesting q' = p_nesting q
    \<Longrightarrow> means skip e p u (q', r)"
  by (simp add: means_def split: outcome.splits)

lemma from_bool_eq: "from_bool b = of_bool b"
  by (simp add: from_bool_def)

lemma next_level:
  assumes "k < 8" "gives (\<lambda>f. arith_call ops f (gcall (k + 7) skip) p) P"
  shows "gives (\<lambda>f. arith_call ops f (CLevel (k + 1) skip) p) P"
proof (cases "k = 7")
  case True
  then show ?thesis using assms(2) by (intro gives_call) (simp add: binary_level_def LEVELS_def gcall_def)
next
  case False
  then show ?thesis using assms by (simp add: gcall_def)
qed

lemma loop_level_cases: "k \<in> set LOOPS \<Longrightarrow> k = 1 \<or> k = 4 \<or> k = 5 \<or> (\<exists>i<8. k = i + 6)"
  by (auto simp: LOOPS_def)

lemma loop_enter:
  assumes "parses (k + 1) e s" "k \<in> set LOOPS"
  shows "enters_loop k e s"
  unfolding enters_loop_def
proof (intro allI impI)
  fix p :: "'s parser" and skip u Q
  assume *: "ready e s u p" "ends_before (k + 1) u"
    "\<forall>q x. means skip e p u (q, Ok x) \<longrightarrow> gives (\<lambda>f. arith_call ops f (loop_call k skip x) q) Q"
    "\<forall>q err. means skip e p u (q, Err err) \<longrightarrow> Q (q, Err err)"
  have "gives (\<lambda>f. arith_call ops f (gcall (k + 1) skip) p) (means skip e p u)"
    using assms(1) *(1,2) by (simp add: parses_def)
  note * = this *
  show "gives (\<lambda>f. arith_call ops f (gcall k skip) p) Q"
    using loop_level_cases [OF assms(2)]
  proof (elim disjE exE conjE)
    fix i assume i: "i < 8" "k = i + 6"
    have "gives (\<lambda>f. arith_call ops f (CLevel (i + 1) skip) p) (means skip e p u)"
      using next_level [OF i(1)] *(1) by (simp add: i add.commute)
    then show ?thesis
      using i * by (intro gives_call) (auto simp: gcall_def loop_call_def binary_level_def LEVELS_def intro!: gives_then)
  qed (use * in \<open>(intro gives_call, auto simp: gcall_def loop_call_def comma_def logical_or_def logical_and_def intro!: gives_then)\<close>)+
qed

lemma group_eqs: "ASSIGNMENT_OPERATORS = op_group 2" "[''**''] = op_group 14" "i < 8 \<Longrightarrow> LEVELS ! i = op_group (i + 6)"
  by (simp_all add: op_group_def)

lemma kept: "\<not> snd (eat q t) \<Longrightarrow> pending (fst (eat q t)) = pending q"
  by (simp add: eat_snd eat_pending)

lemma loop_done:
  assumes k: "k \<in> set LOOPS" and q: "ahead l operator (pending q)" "l < k" "means skip e p u (q, Ok x)"
  shows "gives (\<lambda>f. arith_call ops f (loop_call k skip x) q) (means skip e p u)"
proof -
  have eat: "\<not> snd (eat q t)" if "(t, k) \<in> set SINGLE_LEVELS" for t
    using eat_level [OF q(1) that] q(2) by simp
  have finished: "gives (\<lambda>f. succeed (fst (eat q t)) x) (means skip e p u)" if "\<not> snd (eat q t)" for t
    by (rule gives_value(2), rule means_same [OF q(3)]) (simp_all add: kept that)
  show ?thesis
    using loop_level_cases [OF k]
  proof (elim disjE exE conjE)
    fix i assume i: "i < 8" "k = i + 6"
    then have none: "snd (binary_operator q (LEVELS ! i)) = None"
      using operator_ahead [OF q(1), of k] q(2) k by (simp add: group_eqs(3) GROUPS_def LOOPS_def)
    have "gives (\<lambda>f. succeed (skip_blanks q) x) (means skip e p u)"
      by (rule gives_value(2), rule means_same [OF q(3)]) simp_all
    then show ?thesis
      using i by (intro gives_call) (simp add: loop_call_def level_loop_def case_prod_unfold none operator_fst)
  next
    assume "k = 1"
    with eat have "\<not> snd (eat q '','')" by (simp add: SINGLE_LEVELS_def)
    then show ?thesis using \<open>k = 1\<close> finished
      by (intro gives_call) (simp add: loop_call_def comma_loop_def case_prod_unfold)
  next
    assume "k = 4"
    with eat have "\<not> snd (eat q ''||'')" by (simp add: SINGLE_LEVELS_def)
    then show ?thesis using \<open>k = 4\<close> finished
      by (intro gives_call) (simp add: loop_call_def or_loop_def case_prod_unfold)
  next
    assume "k = 5"
    with eat have "\<not> snd (eat q ''&&'')" by (simp add: SINGLE_LEVELS_def)
    then show ?thesis using \<open>k = 5\<close> finished
      by (intro gives_call) (simp add: loop_call_def and_loop_def case_prod_unfold)
  qed
qed

lemma loop_exit:
  assumes "enters_loop k e s" "k \<in> set LOOPS"
  shows "parses k e s"
  unfolding parses_def
proof (intro allI impI)
  fix p :: "'s parser" and skip u
  assume *: "ready e s u p" "ends_before k u"
  then obtain l operator where a: "l < k" "ahead l operator (dropWhile is_whitespace u)" by (auto simp: ends_before_def)
  have "gives (\<lambda>f. arith_call ops f (loop_call k skip x) q) (means skip e p u)" if "means skip e p u (q, Ok x)" for q x
    using that by (intro loop_done [OF assms(2) _ a(1) that]) (use a that in \<open>simp add: means_def\<close>)
  moreover have "ends_before (k + 1) u" using a by (auto simp: ends_before_def intro: less_SucI)
  ultimately show "gives (\<lambda>f. arith_call ops f (gcall k skip) p) (means skip e p u)"
    using assms(1) *(1) unfolding enters_loop_def by simp
qed

lemma means_pending: "means skip e p u (q, Ok x) \<Longrightarrow> pending q = dropWhile is_whitespace u"
  by (simp add: means_def)

lemma parsesI:
  assumes "\<And>p skip u l operator. ready e s u p \<Longrightarrow> l < k \<Longrightarrow> ahead l operator (dropWhile is_whitespace u)
      \<Longrightarrow> gives (\<lambda>f. arith_step ops (arith_call ops f) (gcall k skip) p) (means skip e p u)"
  shows "parses k e s"
  using assms unfolding parses_def ends_before_def by (blast intro: gives_call)

lemma parsesD:
  assumes "parses k e s" "ready e s u p" "l < k" "ahead l operator (dropWhile is_whitespace u)"
  shows "gives (\<lambda>f. arith_call ops f (gcall k skip) p) (means skip e p u)"
  using assms unfolding parses_def ends_before_def by blast

lemma gives_final:
  assumes "means skip e p u (q, Ok x)" "p_vars q' = p_vars q" "pending q' = pending q" "p_nesting q' = p_nesting q"
  shows "gives (\<lambda>f. succeed q' x) (means skip e p u)"
  using means_same [OF assms] by (rule gives_value(2))

lemma pass_assignment:
  assumes "parses 3 e s" shows "parses 2 e s"
proof (rule parsesI)
  fix p :: "'s parser" and skip u l operator
  assume *: "ready e s u p" "l < 2" "ahead l operator (dropWhile is_whitespace u)"
  have none: "snd (binary_operator q ASSIGNMENT_OPERATORS) = None" if "means skip e p u (q, Ok x)" for q x
    using operator_ahead [of l operator q 2] *(2,3) means_pending [OF that] by (simp add: group_eqs GROUPS_def)
  have "gives (\<lambda>f. arith_call ops f (CConditional skip) p) (means skip e p u)"
    using parsesD [OF assms *(1) _ *(3), of skip] *(2) by (simp add: gcall_def)
  then have "gives (\<lambda>f. assignment ops (arith_call ops f) skip p) (means skip e p u)"
    unfolding assignment_def by (rule gives_then) (simp_all add: case_prod_unfold none operator_fst gives_final)
  then show "gives (\<lambda>f. arith_step ops (arith_call ops f) (gcall 2 skip) p) (means skip e p u)"
    by (simp add: gcall_def)
qed

lemma pass_conditional:
  assumes "parses 4 e s" shows "parses 3 e s"
proof (rule parsesI)
  fix p :: "'s parser" and skip u l operator
  assume *: "ready e s u p" "l < 3" "ahead l operator (dropWhile is_whitespace u)"
  have none: "\<not> snd (eat q ''?'')" if "means skip e p u (q, Ok x)" for q x
    using eat_level [of l operator q "''?''" 3] *(2,3) means_pending [OF that] by (simp add: SINGLE_LEVELS_def)
  have "gives (\<lambda>f. arith_call ops f (COr skip) p) (means skip e p u)"
    using parsesD [OF assms *(1) _ *(3), of skip] *(2) by (simp add: gcall_def)
  then have "gives (\<lambda>f. conditional (arith_call ops f) skip p) (means skip e p u)"
    unfolding conditional_def by (rule gives_then) (simp_all add: case_prod_unfold none kept gives_final)
  then show "gives (\<lambda>f. arith_step ops (arith_call ops f) (gcall 3 skip) p) (means skip e p u)"
    by (simp add: gcall_def)
qed

lemma pass_power:
  assumes "parses 15 e s" shows "parses 14 e s"
proof (rule parsesI)
  fix p :: "'s parser" and skip u l operator
  assume *: "ready e s u p" "l < 14" "ahead l operator (dropWhile is_whitespace u)"
  have none: "snd (binary_operator q [''**'']) = None" if "means skip e p u (q, Ok x)" for q x
    using operator_ahead [of l operator q 14] *(2,3) means_pending [OF that] by (simp add: group_eqs GROUPS_def)
  have "gives (\<lambda>f. arith_call ops f (CUnary skip) p) (means skip e p u)"
    using parsesD [OF assms *(1) _ *(3), of skip] *(2) by (simp add: gcall_def)
  then have "gives (\<lambda>f. power_level (arith_call ops f) skip p) (means skip e p u)"
    unfolding power_level_def by (rule gives_then) (simp_all add: case_prod_unfold none operator_fst gives_final)
  then show "gives (\<lambda>f. arith_step ops (arith_call ops f) (gcall 14 skip) p) (means skip e p u)"
    by (simp add: gcall_def)
qed

lemma pass_unary:
  assumes "parses 16 e s" "written j e s" "16 \<le> j" shows "parses 15 e s"
proof (rule parsesI)
  fix p :: "'s parser" and skip u l operator
  assume *: "ready e s u p" "l < 15" "ahead l operator (dropWhile is_whitespace u)"
  obtain c cs where s: "s = c # cs" "c \<notin> set ''-+!~''" using written_head [OF assms(2)] assms(3) by auto
  have head: "\<not> starts_with (pending p) ''++''" "\<not> starts_with (pending p) ''--''" "snd (peek_char p) = Some c"
    using *(1) s by (auto simp: ready_def starts_with_def peek_snd)
  have "ready e s u (skip_blanks p)" using *(1) by (simp add: ready_def)
  then have "gives (\<lambda>f. arith_call ops f (CPostfix skip) (skip_blanks p)) (means skip e (skip_blanks p) u)"
    using parsesD [OF assms(1) _ _ *(3), of "skip_blanks p" skip] *(2) by (simp add: gcall_def)
  moreover have "means skip e (skip_blanks p) u = means skip e p u" unfolding means_def [abs_def] skip_fields ..
  ultimately show "gives (\<lambda>f. arith_step ops (arith_call ops f) (gcall 15 skip) p) (means skip e p u)"
    using s(2) head by (simp add: gcall_def unary_def Let_def looking_snd peek_snd eq_commute [of c])
qed

lemma pass_postfix:
  assumes "parses 17 e s" shows "parses 16 e s"
proof (rule parsesI)
  fix p :: "'s parser" and skip u l operator
  assume *: "ready e s u p" "l < 16" "ahead l operator (dropWhile is_whitespace u)"
  have none: "\<not> snd (eat q ''++'')" "\<not> snd (eat (fst (eat q ''++'')) ''--'')" if "means skip e p u (q, Ok x)" for q x
    using step_ahead [of l operator q] step_ahead [of l operator "fst (eat q ''++'')"] *(3) means_pending [OF that]
    by (simp_all add: kept)
  have "gives (\<lambda>f. arith_call ops f (CPrimary skip) p) (means skip e p u)"
    using parsesD [OF assms *(1) _ *(3), of skip] *(2) by (simp add: gcall_def)
  then have "gives (\<lambda>f. postfix ops (arith_call ops f) skip p) (means skip e p u)"
    unfolding postfix_def
    by (rule gives_then) (auto simp: case_prod_unfold none kept gives_final split: option.split)
  then show "gives (\<lambda>f. arith_step ops (arith_call ops f) (gcall 16 skip) p) (means skip e p u)"
    by (simp add: gcall_def)
qed

lemma parses_below:
  assumes "parses k e s" "written j e s" "k \<le> j" "1 \<le> i" "i \<le> k" "k \<le> 17"
  shows "parses i e s"
  using assms(5)
proof (induction rule: inc_induct)
  case (step n)
  then have "n < 17" "1 \<le> n" using assms by auto
  then have "n \<in> set LOOPS \<or> n = 2 \<or> n = 3 \<or> n = 14 \<or> n = 15 \<or> n = 16"
    unfolding LOOPS_def by (simp, presburger)
  then consider "n \<in> set LOOPS" | "n = 2" | "n = 3" | "n = 14" | "n = 15" | "n = 16" by blast
  then show ?case
  proof cases
    assume "n \<in> set LOOPS"
    then show ?case using step(3) loop_exit loop_enter by simp
  next
    assume "n = 15"
    then show ?case using step pass_unary [OF _ assms(2)] assms(3) by simp
  qed (use step(3) pass_assignment pass_conditional pass_power pass_postfix in simp_all)
qed (rule assms(1))

lemma num_primary:
  assumes "constant_text v s" shows "parses 17 (Num v) s"
proof (rule parsesI)
  fix p :: "'s parser" and skip u l operator
  assume *: "ready (Num v) s u p" "l < 17" "ahead l operator (dropWhile is_whitespace u)"
  let ?q = "(skip_blanks p)\<lparr>p_token_start := p_position (skip_blanks p), p_position := p_position (skip_blanks p) + length s\<rparr>"
  obtain c cs where s: "s = c # cs" "is_ascii_digit c" "list_all constant_char s"
    using assms by (auto simp: constant_text_def constant_char_def is_ascii_alphanumeric_def)
  have "takeWhile constant_char (s @ u) = s"
    using s(3) dropped_boundary [OF ahead_boundary [OF *(3)]] by (rule take_token)
  then have token: "constant_token (skip_blanks p) = succeed ?q v"
    using * assms by (simp add: constant_token_def rest_pending ready_def constant_text_def constant_char_def [abs_def] Let_def)
  have "pending ?q = dropWhile is_whitespace u"
    using * by (simp add: pending_def [of ?q] drop_rest rest_pending ready_def)
  then have "means skip (Num v) p u (?q, Ok (rvalue v))"
    using * by (simp add: means_def ready_def rvalue_def)
  then show "gives (\<lambda>f. arith_step ops (arith_call ops f) (gcall 17 skip) p) (means skip (Num v) p u)"
    using s char_classes [of c] *(1) token
    by (auto simp: gcall_def primary_def case_prod_unfold peek_snd peek_fst ready_def then_do_def succeed_def gives_def)
qed

lemma var_primary:
  assumes x: "is_name x" and p: "ready (Var x) x u p" and u: "boundary u"
  shows "gives (\<lambda>f. arith_call ops f (CPrimary skip) p) (means skip (Var x) p u)"
proof -
  let ?r = "skip_blanks p"
  let ?q = "?r\<lparr>p_token_start := p_position ?r, p_position := p_position ?r + length x\<rparr>"
  obtain c cs where c: "x = c # cs" "\<not> is_ascii_digit c" "c \<notin> set ''-+!~(''" "is_ascii_alphabetic c \<or> c = CHR ''_''"
    using name_start [OF x] by blast
  then have "c \<noteq> CHR ''(''" by auto
  note c = c this
  have take: "takeWhile name_char (x @ u) = x"
    using name_chars [OF x] u by (rule take_token) (auto simp: name_char_def constant_char_def)
  have q: "rest_of ?q = u" "pending ?q = dropWhile is_whitespace u" "p_vars ?q = p_vars p" "p_nesting ?q = p_nesting p"
    using p by (simp_all add: pending_def [of ?q] drop_rest rest_pending ready_def)
  have "\<not> starts_with u ''[''" using u by (cases u) (auto simp: boundary_def starts_with_def)
  then have var: "variable ops rec skip ?r = (if skip then succeed ?q \<lparr>op_value = 0, op_place = Some (Scalar x)\<rparr>
      else then_do (load ops ?q (Scalar x)) (\<lambda>p stored. then_do (variable_value rec (Scalar x) stored p)
        (\<lambda>p v. succeed p \<lparr>op_value = v, op_place = Some (Scalar x)\<rparr>)))" for rec
    using take p q(1) by (simp add: variable_def rest_pending ready_def name_char_def [abs_def] Let_def) (simp add: then_do_def succeed_def)
  obtain content where content: "arith_get ops (p_vars p) x = (p_vars p, Ok content)" "value_of content (val (p_vars p) x)"
    using get p by (auto simp: ready_def)
  have stored: "variable_value rec (Scalar x) content q = succeed q (val (p_vars p) x)" for rec q
    using content(2) by (auto simp: variable_value_def value_of_def Let_def split: option.splits if_splits)
  have "load ops ?q (Scalar x) = Some (?q, Ok content)" by (simp add: load_def content(1))
  then have "variable ops rec skip ?r = succeed ?q \<lparr>op_value = if skip then 0 else val (p_vars p) x, op_place = Some (Scalar x)\<rparr>" for rec
    unfolding var by (simp add: then_do_def stored) (simp add: succeed_def)
  then have "gives (\<lambda>f. variable ops (arith_call ops f) skip ?r) (means skip (Var x) p u)"
    using p q by (simp add: gives_value means_def ready_def)
  then have "gives (\<lambda>f. arith_call ops f (CVariable skip) ?r) (means skip (Var x) p u)" by (intro gives_call) simp
  moreover have "pending p = c # cs @ u" using p c(1) by (simp add: ready_def)
  ultimately show ?thesis
    using c by (intro gives_call) (simp add: primary_def case_prod_unfold peek_snd peek_fst)
qed

lemma var_parses: "is_name x \<Longrightarrow> parses 17 (Var x) x"
  unfolding parses_def ends_before_def
  using var_primary dropped_boundary ahead_boundary by (auto simp: gcall_def)

lemma paren_primary:
  assumes e: "parses 1 e s" "written k e s" and w: "blanks w1" "blanks w2"
  shows "parses 17 (Paren e) (''('' @ w1 @ s @ w2 @ '')'')"
proof (rule parsesI)
  fix p :: "'s parser" and skip u l operator
  assume p: "ready (Paren e) (''('' @ w1 @ s @ w2 @ '')'') u p" and "ahead l operator (dropWhile is_whitespace u)"
  let ?r = "fst (eat (skip_blanks p) ''('')"
  let ?n = "?r\<lparr>p_nesting := p_nesting ?r + 1\<rparr>" and ?v = "w2 @ '')'' @ u"
  have "pending ?r = s @ ?v"
    using p written_drop(1) [OF e(2), of ?v] by (simp add: eat_pending ready_def starts_with_def blanks_drop w)
  then have n: "ready e s ?v ?n" using p by (simp add: ready_def pending_def rest_of_def)
  have "ahead 0 [] (dropWhile is_whitespace ?v)" by (simp add: blanks_drop w ahead_def is_whitespace_def)
  from parsesD [OF e(1) n _ this, of skip]
  have "gives (\<lambda>f. arith_call ops f (CComma skip) ?n) (means skip e ?n ?v)" by (simp add: gcall_def)
  then have inner: "gives (\<lambda>f. then_do (arith_call ops f (CComma skip) ?n) (\<lambda>p x.
      case eat (unnest p) '')'' of
        (p, False) \<Rightarrow> let p = p\<lparr>p_token_start := p_position p\<rparr> in fail p (error_at p (''missing `)'' @ [CHR 0x27]))
      | (p, True) \<Rightarrow> succeed p (rvalue (op_value x)))) (means skip (Paren e) p u)"
  proof (rule gives_then)
    fix q x assume q: "means skip e ?n ?v (q, Ok x)"
    have "pending (unnest q) = '')'' @ u"
      using means_pending [OF q] by (simp add: blanks_drop w is_whitespace_def)
    then have eaten: "snd (eat (unnest q) '')'')" "pending (fst (eat (unnest q) '')'')) = dropWhile is_whitespace u"
      by (simp_all add: eat_snd eat_pending starts_with_def)
    then have "means skip (Paren e) p u (fst (eat (unnest q) '')''), Ok (rvalue (op_value x)))"
      using q p by (cases skip) (simp_all add: means_def rvalue_def ready_def, simp_all add: unnest_def)
    then show "gives (\<lambda>f. case eat (unnest q) '')'' of
        (p, False) \<Rightarrow> let p = p\<lparr>p_token_start := p_position p\<rparr> in fail p (error_at p (''missing `)'' @ [CHR 0x27]))
      | (p, True) \<Rightarrow> succeed p (rvalue (op_value x))) (means skip (Paren e) p u)"
      by (simp add: case_prod_unfold eaten(1) gives_value)
  qed (simp_all add: means_def)
  have deeper: "p_nesting ?r < MAX_NESTING" using p by (simp add: ready_def)
  from inner show "gives (\<lambda>f. arith_step ops (arith_call ops f) (gcall 17 skip) p) (means skip (Paren e) p u)"
    using p deeper by (simp add: then_nest gcall_def primary_def case_prod_unfold peek_snd peek_fst ready_def Let_def)
qed

definition step_text :: "bool \<Rightarrow> string" where
  "step_text up = (if up then ''++'' else ''--'')"

lemma gives_store:
  assumes "inv (p_vars q)" "x \<in> names"
    "\<And>s'. inv s' \<Longrightarrow> val s' = (val (p_vars q))(x := v) \<Longrightarrow> gives (\<lambda>f. K f (q\<lparr>p_vars := s'\<rparr>) ()) P"
  shows "gives (\<lambda>f. then_do (store ops q (Scalar x) v) (K f)) P"
proof -
  obtain s' where s: "arith_set ops (p_vars q) x v = (s', Ok ())" "inv s'" "val s' = (val (p_vars q))(x := v)"
    using set [OF assms(1,2)] by blast
  show ?thesis using assms(3) [OF s(2,3)] by (simp add: store_def s(1) then_do_def)
qed

lemma pending_vars [simp]: "pending (q\<lparr>p_vars := v\<rparr>) = pending q"
  by (simp add: pending_def rest_of_def)

lemma post_step_parses:
  assumes x: "is_name x" and w: "blanks w"
  shows "parses 16 (PostStep up x) (x @ w @ step_text up)"
proof (rule parsesI)
  fix p :: "'s parser" and skip u l operator
  assume p: "ready (PostStep up x) (x @ w @ step_text up) u p" and "ahead l operator (dropWhile is_whitespace u)"
  let ?v = "w @ step_text up @ u"
  have "ready (Var x) x ?v p" using p by (simp add: ready_def)
  moreover have "boundary ?v" using step_boundary [OF w] by (simp add: step_text_def)
  ultimately have "gives (\<lambda>f. arith_call ops f (CPrimary skip) p) (means skip (Var x) p ?v)" by (rule var_primary [OF x])
  then have "gives (\<lambda>f. postfix ops (arith_call ops f) skip p) (means skip (PostStep up x) p u)"
    unfolding postfix_def
  proof (rule gives_then)
    fix q y assume q: "means skip (Var x) p ?v (q, Ok y)"
    have place: "op_place y = Some (Scalar x)" using q by (simp add: means_def)
    define r where "r = (if up then fst (eat q ''++'') else fst (eat (fst (eat q ''++'')) ''--''))"
    have "pending q = step_text up @ u"
      using means_pending [OF q] by (simp add: blanks_drop w step_text_def is_whitespace_def)
    then have eaten: "snd (eat q ''++'') = up" "\<not> up \<Longrightarrow> snd (eat (fst (eat q ''++'')) ''--'')"
      and r: "pending r = dropWhile is_whitespace u" "p_vars r = p_vars q" "p_nesting r = p_nesting q"
      by (auto simp: r_def eat_snd eat_pending step_text_def starts_with_def)
    have "gives (\<lambda>f. then_do (if skip then succeed r () else store ops r (Scalar x) (op_value y + step_by up))
        (\<lambda>p _. succeed p (rvalue (op_value y)))) (means skip (PostStep up x) p u)"
    proof (cases skip)
      case True
      then have "means skip (PostStep up x) p u (r, Ok (rvalue (op_value y)))"
        using q r p by (simp add: means_def ready_def)
      then show ?thesis using True by (simp add: then_do_def succeed_def gives_value)
    next
      case False
      have v: "inv (p_vars r)" "x \<in> names" "val (p_vars p) x = op_value y" "val (p_vars q) = val (p_vars p)"
        using p q r False by (auto simp: means_def ready_def)
      have "means skip (PostStep up x) p u (r\<lparr>p_vars := s'\<rparr>, Ok (rvalue (op_value y)))"
        if "inv s'" "val s' = (val (p_vars r))(x := op_value y + step_by up)" for s'
        using that q r v False by (simp add: means_def rvalue_def)
      then show ?thesis using False by (simp del: fun_upd_apply) (intro gives_store [OF v(1,2)] gives_value)
    qed
    then show "gives (\<lambda>f. case op_place y of None \<Rightarrow> succeed q y
       | Some pl \<Rightarrow> (case eat q ''++'' of
           (p, True) \<Rightarrow> then_do (if skip then succeed p () else store ops p pl (op_value y + 1)) (\<lambda>p _. succeed p (rvalue (op_value y)))
         | (p, False) \<Rightarrow> (case eat p ''--'' of
               (p, True) \<Rightarrow> then_do (if skip then succeed p () else store ops p pl (op_value y - 1)) (\<lambda>p _. succeed p (rvalue (op_value y)))
             | (p, False) \<Rightarrow> succeed p y))) (means skip (PostStep up x) p u)"
      using eaten place by (cases up; cases skip) (simp_all add: case_prod_unfold step_by_def r_def)
  qed (auto simp: means_def)
  then show "gives (\<lambda>f. arith_step ops (arith_call ops f) (gcall 16 skip) p) (means skip (PostStep up x) p u)"
    by (simp add: gcall_def)
qed

lemma pre_step_parses:
  assumes x: "is_name x" and w: "blanks w"
  shows "parses 15 (PreStep up x) (step_text up @ w @ x)"
proof (rule parsesI)
  fix p :: "'s parser" and skip u l operator
  assume p: "ready (PreStep up x) (step_text up @ w @ x) u p" and l: "l < 15" and u: "ahead l operator (dropWhile is_whitespace u)"
  let ?b = "skip_blanks p"
  define r where "r = fst (eat ?b (step_text up))"
  obtain c cs where c: "x = c # cs" "\<not> is_whitespace c" "is_ascii_alphabetic c \<or> c = CHR ''_''"
    using name_start [OF x] by blast
  have rest: "rest_of ?b = step_text up @ w @ x @ u" using p by (simp add: rest_pending ready_def)
  have "drop (p_position ?b + 2) (p_chars ?b) = drop 2 (rest_of ?b)" by (simp add: rest_of_def add.commute)
  then have "dropWhile is_whitespace (drop (p_position ?b + 2) (p_chars ?b)) = x @ u"
    using c by (simp only: rest) (simp add: step_text_def blanks_drop w)
  then have "identifier_after ?b 2" using c by (simp add: identifier_after_def)
  moreover have "snd (looking_at ?b ''++'') = up" "\<not> up \<Longrightarrow> snd (looking_at ?b ''--'')"
    using p by (auto simp: looking_snd ready_def step_text_def starts_with_def)
  ultimately have unary: "unary ops rec skip p = step_variable ops rec skip (step_text up) (step_by up) ?b" for rec
    by (cases up) (simp_all add: unary_def Let_def step_text_def step_by_def)
  have "pending r = x @ u" "p_vars r = p_vars p" "p_nesting r = p_nesting p"
    using p c by (auto simp: r_def eat_pending ready_def starts_with_def blanks_drop w)
  then have r: "ready (Var x) x u r" "p_vars r = p_vars p" "p_nesting r = p_nesting p" using p by (simp_all add: ready_def)
  have "parses 16 (Var x) x" by (rule pass_postfix [OF var_parses [OF x]])
  from parsesD [OF this r(1) _ u] have "gives (\<lambda>f. arith_call ops f (CPostfix skip) r) (means skip (Var x) r u)"
    using l by (simp add: gcall_def)
  then have "gives (\<lambda>f. step_variable ops (arith_call ops f) skip (step_text up) (step_by up) ?b) (means skip (PreStep up x) p u)"
    unfolding step_variable_def Let_def r_def [symmetric]
  proof (rule gives_then)
    fix q y assume q: "means skip (Var x) r u (q, Ok y)"
    then have place: "op_place y = Some (Scalar x)" by (simp add: means_def)
    show "gives (\<lambda>f. case op_place y of
          None \<Rightarrow> fail q (error_at q ''attempted assignment to non-variable'')
        | Some pl \<Rightarrow>
            if skip then succeed q (rvalue 0)
            else then_do (store ops q pl (op_value y + step_by up)) (\<lambda>p _. succeed p (rvalue (op_value y + step_by up))))
       (means skip (PreStep up x) p u)"
    proof (cases skip)
      case True
      then have "means skip (PreStep up x) p u (q, Ok (rvalue 0))" using q r p by (simp add: means_def ready_def)
      then show ?thesis using True place by (simp add: gives_value)
    next
      case False
      have v: "inv (p_vars q)" "x \<in> names" "val (p_vars p) x = op_value y" "val (p_vars q) = val (p_vars p)"
        using p q r False by (auto simp: means_def ready_def)
      have "means skip (PreStep up x) p u (q\<lparr>p_vars := s'\<rparr>, Ok (rvalue (op_value y + step_by up)))"
        if "inv s'" "val s' = (val (p_vars q))(x := op_value y + step_by up)" for s'
        using that q r v False by (simp add: means_def rvalue_def)
      then show ?thesis using False place by (simp del: fun_upd_apply) (intro gives_store [OF v(1,2)] gives_value)
    qed
  qed (auto simp: means_def)
  then show "gives (\<lambda>f. arith_step ops (arith_call ops f) (gcall 15 skip) p) (means skip (PreStep up x) p u)"
    by (simp add: gcall_def unary)
qed

lemma unary_parses:
  assumes e: "parses 15 e s" "written k e s" and c: "c \<in> set ''-+!~''" and t: "behind [c] s t"
  shows "parses 15 (Unary c e) (c # t)"
proof (rule parsesI)
  fix p :: "'s parser" and skip u l operator
  assume p: "ready (Unary c e) (c # t) u p" and l: "l < 15" and u: "ahead l operator (dropWhile is_whitespace u)"
  let ?b = "skip_blanks p"
  define n where "n = (fst (eat ?b [c]))\<lparr>p_nesting := p_nesting p + 1\<rparr>"
  have clear: "clear_of [c] (t @ u)" by (rule behind_drop [OF e(2) t])
  have "snd (peek_char ?b) = Some c" using p by (simp add: peek_snd ready_def)
  moreover have "\<not> snd (looking_at ?b ''++'')" "\<not> snd (looking_at ?b ''--'')"
    using starts_with_operator [OF clear] p by (auto simp: looking_snd ready_def MULTI_CHAR_OPERATORS_def) (auto simp: starts_with_def)
  moreover have "p_nesting (fst (eat ?b [c])) < MAX_NESTING" using p by (simp add: ready_def)
  ultimately have unary: "unary ops rec skip p = then_do (rec (CUnary skip) n) (\<lambda>p x. succeed (unnest p) (rvalue (un_op c (op_value x))))" for rec
    using c by (auto simp: unary_def Let_def then_nest n_def un_op_def from_bool_eq)
  have "pending n = s @ u" "p_vars n = p_vars p" "p_nesting n = p_nesting p + 1"
    using p behind_drop(1) [OF e(2) t, of u] by (auto simp: n_def eat_pending ready_def starts_with_def)
  then have n: "ready e s u n" "p_vars n = p_vars p" "p_nesting n = p_nesting p + 1" using p by (simp_all add: ready_def)
  from parsesD [OF e(1) n(1) l u] have "gives (\<lambda>f. arith_call ops f (CUnary skip) n) (means skip e n u)"
    by (simp add: gcall_def)
  then have "gives (\<lambda>f. unary ops (arith_call ops f) skip p) (means skip (Unary c e) p u)"
    unfolding unary
  proof (rule gives_then)
    fix q y assume "means skip e n u (q, Ok y)"
    then have "means skip (Unary c e) p u (unnest q, Ok (rvalue (un_op c (op_value y))))"
      using n p by (cases skip) (simp_all add: means_def ready_def rvalue_def seq_def, simp_all add: unnest_def)
    then show "gives (\<lambda>f. succeed (unnest q) (rvalue (un_op c (op_value y)))) (means skip (Unary c e) p u)" by (rule gives_value)
  qed (auto simp: means_def n seq_def)
  then show "gives (\<lambda>f. arith_step ops (arith_call ops f) (gcall 15 skip) p) (means skip (Unary c e) p u)"
    by (simp add: gcall_def)
qed

lemma operand_ready:
  assumes q: "means skip a p (w @ operator @ t @ u) (q, Ok x)" and w: "blanks w"
    and op: "(operator, l) \<in> set TOKENS" and b: "written j b s" "behind operator s t"
  shows "ahead l operator (pending q)"
    "pending q' = pending q \<Longrightarrow> pending (fst (eat q' operator)) = s @ u"
    "pending q' = pending q \<Longrightarrow> snd (eat q' operator)"
proof -
  have clear: "clear_of operator (t @ u)" by (rule behind_drop [OF b])
  have q': "pending q = operator @ t @ u"
    using means_pending [OF q] token_ahead(2) [OF op w clear] by simp
  then show "ahead l operator (pending q)" using means_pending [OF q] token_ahead(1) [OF op w clear] by simp
  show "pending (fst (eat q' operator)) = s @ u" "snd (eat q' operator)" if "pending q' = pending q"
    using that behind_drop(1) [OF b, of u] by (simp_all add: q' eat_pending eat_snd starts_with_def)
qed

lemma apply_wrapped: "operator \<in> set BINARY_OPERATORS \<Longrightarrow> \<exists>err. apply_op p operator l r = (case wrapped operator l r of
     Some v \<Rightarrow> Ok v | None \<Rightarrow> Err err)"
  by (auto simp: apply_op_int wrapped_def split: option.split)

lemma gives_apply:
  assumes "operator \<in> set BINARY_OPERATORS"
    "\<And>v. wrapped operator l r = Some v \<Longrightarrow> gives (\<lambda>f. K f p v) P" "\<And>err. wrapped operator l r = None \<Longrightarrow> P (p, Err err)"
  shows "gives (\<lambda>f. then_do (Some (p, apply_op p operator l r)) (K f)) P"
  using apply_wrapped [OF assms(1), of p l r] assms(2,3)
  by (cases "wrapped operator l r") (auto simp: then_do_def gives_value)

lemma TOKENS_table: "(''**'', 14) \<in> set TOKENS" "('','', 1) \<in> set TOKENS" "(''||'', 4) \<in> set TOKENS" "(''&&'', 5) \<in> set TOKENS"
  "(''?'', 3) \<in> set TOKENS" "('':'', 0) \<in> set TOKENS" "''**'' \<in> set BINARY_OPERATORS"
  "operator \<in> set ASSIGNMENT_OPERATORS \<Longrightarrow> (operator, 2) \<in> set TOKENS"
  by (simp_all add: TOKENS_def BINARY_OPERATORS_def)

lemma pow_parses:
  assumes a: "parses 15 a s1" and b: "parses 14 b s2" "written j b s2" and w: "blanks w1" and t: "behind ''**'' s2 t"
  shows "parses 14 (Pow a b) (s1 @ w1 @ ''**'' @ t)"
proof (rule parsesI)
  fix p :: "'s parser" and skip u l operator
  assume p: "ready (Pow a b) (s1 @ w1 @ ''**'' @ t) u p" and l: "l < 14" and u: "ahead l operator (dropWhile is_whitespace u)"
  let ?u = "w1 @ ''**'' @ t @ u"
  have ra: "ready a s1 ?u p" using p by (auto simp: ready_def max_def split: if_splits)
  have "ahead 14 ''**'' (dropWhile is_whitespace ?u)"
    by (rule token_ahead [OF TOKENS_table(1) w behind_drop(2) [OF b(2) t]])
  from parsesD [OF a ra _ this] have "gives (\<lambda>f. arith_call ops f (CUnary skip) p) (means skip a p ?u)" by (simp add: gcall_def)
  then have "gives (\<lambda>f. power_level (arith_call ops f) skip p) (means skip (Pow a b) p u)"
    unfolding power_level_def
  proof (rule gives_then)
    fix q x assume q: "means skip a p ?u (q, Ok x)"
    note right = operand_ready [OF q w TOKENS_table(1) b(2) t]
    define n where "n = (fst (eat (skip_blanks q) ''**''))\<lparr>p_nesting := p_nesting p + 1\<rparr>"
    have op: "snd (binary_operator q [''**'']) = Some ''**''"
      using operator_ahead [OF right(1), of 14] by (simp add: group_eqs GROUPS_def)
    have deeper: "p_nesting q = p_nesting p" "p_nesting q < MAX_NESTING" using q p by (auto simp: means_def ready_def max_def split: if_splits)
    have n: "ready b s2 u n" "p_vars n = p_vars q" "p_nesting n = p_nesting p + 1"
      using right(2) [of "skip_blanks q"] q p by (auto simp: n_def ready_def means_def max_def split: if_splits)
    from parsesD [OF b(1) n(1) l u] have "gives (\<lambda>f. arith_call ops f (CPower skip) n) (means skip b n u)" by (simp add: gcall_def)
    then have "gives (\<lambda>f. then_do (arith_call ops f (CPower skip) n) (\<lambda>p y.
        if skip then succeed (unnest p) (rvalue 0)
        else then_do (Some (unnest p, apply_op (unnest p) ''**'' (op_value x) (op_value y))) (\<lambda>p v. succeed p (rvalue v))))
        (means skip (Pow a b) p u)"
    proof (rule gives_then)
      fix r y assume r: "means skip b n u (r, Ok y)"
      have m: "means skip (Pow a b) p u (unnest r, Ok (rvalue v))" if "skip \<or> wrapped ''**'' (op_value x) (op_value y) = Some v" for v
        using q r n that deeper by (cases skip) (auto simp: means_def seq_def rvalue_def unnest_def)
      have "means skip (Pow a b) p u (unnest r, Err err)" if "\<not> skip" "wrapped ''**'' (op_value x) (op_value y) = None" for err
        using q r n that by (auto simp: means_def seq_def unnest_def)
      then show "gives (\<lambda>f. if skip then succeed (unnest r) (rvalue 0)
        else then_do (Some (unnest r, apply_op (unnest r) ''**'' (op_value x) (op_value y))) (\<lambda>p v. succeed p (rvalue v)))
        (means skip (Pow a b) p u)"
        using m by (cases skip) (auto intro!: gives_value gives_apply TOKENS_table(7))
    qed (use q n in \<open>auto simp: means_def seq_def\<close>)
    then show "gives (\<lambda>f. case binary_operator q [''**''] of
       (p, None) \<Rightarrow> succeed p x
     | (p, Some _) \<Rightarrow>
         let p = fst (eat p ''**'') in
         then_do (nest p) (\<lambda>p _.
         then_do (arith_call ops f (CPower skip) p) (\<lambda>p exponent.
           let p = unnest p in
           if skip then succeed p (rvalue 0)
           else then_do (Some (p, apply_op p ''**'' (op_value x) (op_value exponent))) (\<lambda>p v. succeed p (rvalue v))))) (means skip (Pow a b) p u)"
      using deeper by (simp add: case_prod_unfold op operator_fst Let_def then_nest n_def)
  qed (auto simp: means_def seq_def)
  then show "gives (\<lambda>f. arith_step ops (arith_call ops f) (gcall 14 skip) p) (means skip (Pow a b) p u)"
    by (simp add: gcall_def)
qed

lemma loop_binary:
  assumes a: "enters_loop k a s1" and b: "parses (k + 1) b s2" "written j b s2"
    and op: "(operator, k) \<in> set TOKENS" and w: "blanks w1" and t: "behind operator s2 t"
    and e: "nesting e = max (nesting a) (nesting b)" "vars_of e = vars_of a \<union> vars_of b"
      "\<And>m m'. sem a m = (m', None) \<Longrightarrow> sem e m = (m', None)"
    and step: "\<And>skip p q x u Q. means skip a p (w1 @ operator @ t @ u) (q, Ok x) \<Longrightarrow> ahead k operator (pending q)
      \<Longrightarrow> (\<And>sk q'. pending q' = pending q \<Longrightarrow> p_vars q' = p_vars q \<Longrightarrow> p_nesting q' = p_nesting q
          \<Longrightarrow> gives (\<lambda>f. arith_call ops f (gcall (k + 1) sk) (fst (eat q' operator))) (means sk b q u))
      \<Longrightarrow> (\<And>r y. means skip e p u (r, Ok y) \<Longrightarrow> gives (\<lambda>f. arith_call ops f (loop_call k skip y) r) Q)
      \<Longrightarrow> (\<And>r err. means skip e p u (r, Err err) \<Longrightarrow> Q (r, Err err))
      \<Longrightarrow> gives (\<lambda>f. arith_call ops f (loop_call k skip x) q) Q"
  shows "enters_loop k e (s1 @ w1 @ operator @ t)"
  unfolding enters_loop_def
proof (intro allI impI)
  fix p :: "'s parser" and skip u Q
  assume p: "ready e (s1 @ w1 @ operator @ t) u p" and u: "ends_before (k + 1) u"
    and Ok: "\<forall>q x. means skip e p u (q, Ok x) \<longrightarrow> gives (\<lambda>f. arith_call ops f (loop_call k skip x) q) Q"
    and Err: "\<forall>q err. means skip e p u (q, Err err) \<longrightarrow> Q (q, Err err)"
  let ?u = "w1 @ operator @ t @ u"
  have ra: "ready a s1 ?u p" using p e(1,2) by (auto simp: ready_def max_def split: if_splits)
  have "ahead k operator (dropWhile is_whitespace ?u)"
    by (rule token_ahead [OF op w behind_drop(2) [OF b(2) t]])
  then have ends: "ends_before (k + 1) ?u" unfolding ends_before_def by (intro exI [of _ k]) auto
  have "gives (\<lambda>f. arith_call ops f (loop_call k skip x) q) Q" if q: "means skip a p ?u (q, Ok x)" for q x
  proof (rule step [OF q])
    note right = operand_ready [OF q w op b(2) t]
    show "ahead k operator (pending q)" by (rule right)
    fix sk and q' :: "'s parser"
    assume q': "pending q' = pending q" "p_vars q' = p_vars q" "p_nesting q' = p_nesting q"
    let ?r = "fst (eat q' operator)"
    have "ready b s2 u ?r"
      using right(2) [OF q'(1)] q q' p e(1,2) by (auto simp: ready_def means_def max_def split: if_splits)
    then have "gives (\<lambda>f. arith_call ops f (gcall (k + 1) sk) ?r) (means sk b ?r u)" using b(1) u by (simp add: parses_def)
    moreover have "means sk b ?r u = means sk b q u" unfolding means_def [abs_def] eat_fields q' ..
    ultimately show "gives (\<lambda>f. arith_call ops f (gcall (k + 1) sk) ?r) (means sk b q u)" by simp
  qed (use Ok Err in auto)
  moreover have "Q (q, Err err)" if "means skip a p ?u (q, Err err)" for q err
    using that Err e(3) by (auto simp: means_def)
  ultimately show "gives (\<lambda>f. arith_call ops f (gcall k skip) p) Q"
    using a ra ends unfolding enters_loop_def by blast
qed

lemma comma_enters:
  assumes "enters_loop 1 a s1" "parses 2 b s2" "written j b s2" "blanks w1" "behind '','' s2 t"
  shows "enters_loop 1 (CommaE a b) (s1 @ w1 @ '','' @ t)"
proof (rule loop_binary [OF assms(1) _ assms(3) TOKENS_table(2) assms(4,5)])
  fix skip p q x u Q
  assume q: "means skip a p (w1 @ '','' @ t @ u) (q, Ok x)" "ahead 1 '','' (pending q)"
    and right: "\<And>sk q'. pending q' = pending q \<Longrightarrow> p_vars q' = p_vars q \<Longrightarrow> p_nesting q' = p_nesting q
      \<Longrightarrow> gives (\<lambda>f. arith_call ops f (gcall (1 + 1) sk) (fst (eat q' '',''))) (means sk b q u)"
    and Q: "\<And>r y. means skip (CommaE a b) p u (r, Ok y) \<Longrightarrow> gives (\<lambda>f. arith_call ops f (loop_call 1 skip y) r) Q"
      "\<And>r err. means skip (CommaE a b) p u (r, Err err) \<Longrightarrow> Q (r, Err err)"
  have eaten: "snd (eat q '','')" using eat_ahead [OF q(2), of "'',''"] by (simp add: SINGLES_def SINGLE_LEVELS_def)
  have m: "means skip (CommaE a b) p u (r, y)" if "means skip b q u (r, y)" for r y
    using that q(1) by (cases y; cases skip) (auto simp: means_def seq_def)
  have "gives (\<lambda>f. then_do (arith_call ops f (CAssignment skip) (fst (eat q '','')))
      (\<lambda>p x. arith_call ops f (CCommaLoop skip x) p)) Q"
    using right [of q skip] Q m by (auto simp: gcall_def loop_call_def intro!: gives_then)
  then show "gives (\<lambda>f. arith_call ops f (loop_call 1 skip x) q) Q"
    by (intro gives_call) (simp add: loop_call_def comma_loop_def case_prod_unfold eaten)
qed (use assms(2) in \<open>simp_all add: seq_def numeral_2_eq_2\<close>)

lemma or_enters:
  assumes "enters_loop 4 a s1" "parses 5 b s2" "written j b s2" "blanks w1" "behind ''||'' s2 t"
  shows "enters_loop 4 (OrE a b) (s1 @ w1 @ ''||'' @ t)"
proof (rule loop_binary [OF assms(1) _ assms(3) TOKENS_table(3) assms(4,5)])
  fix skip p q x u Q
  assume q: "means skip a p (w1 @ ''||'' @ t @ u) (q, Ok x)" "ahead 4 ''||'' (pending q)"
    and right: "\<And>sk q'. pending q' = pending q \<Longrightarrow> p_vars q' = p_vars q \<Longrightarrow> p_nesting q' = p_nesting q
      \<Longrightarrow> gives (\<lambda>f. arith_call ops f (gcall (4 + 1) sk) (fst (eat q' ''||''))) (means sk b q u)"
    and Q: "\<And>r y. means skip (OrE a b) p u (r, Ok y) \<Longrightarrow> gives (\<lambda>f. arith_call ops f (loop_call 4 skip y) r) Q"
      "\<And>r err. means skip (OrE a b) p u (r, Err err) \<Longrightarrow> Q (r, Err err)"
  let ?sk = "skip \<or> op_value x \<noteq> 0" and ?v = "\<lambda>y. rvalue (from_bool (op_value x \<noteq> 0 \<or> op_value y \<noteq> 0))"
  have eaten: "snd (eat q ''||'')" using eat_ahead [OF q(2), of "''||''"] by (simp add: SINGLES_def SINGLE_LEVELS_def)
  have ok: "means skip (OrE a b) p u (r, Ok (?v y))" if "means ?sk b q u (r, Ok y)" for r y
    using that q(1) by (cases skip; cases "op_value x = 0") (auto simp: means_def seq_def rvalue_def from_bool_eq)
  have err: "means skip (OrE a b) p u (r, Err err)" if "means ?sk b q u (r, Err err)" for r err
    using that q(1) by (cases skip; cases "op_value x = 0") (auto simp: means_def seq_def)
  have "gives (\<lambda>f. arith_call ops f (CAnd ?sk) (fst (eat q ''||''))) (means ?sk b q u)"
    using right [of q ?sk] by (simp add: gcall_def)
  then have "gives (\<lambda>f. then_do (arith_call ops f (CAnd ?sk) (fst (eat q ''||'')))
      (\<lambda>p y. arith_call ops f (COrLoop skip (?v y)) p)) Q"
    by (rule gives_then) (use Q(1) [OF ok] Q(2) [OF err] in \<open>simp_all add: loop_call_def\<close>)
  then show "gives (\<lambda>f. arith_call ops f (loop_call 4 skip x) q) Q"
    by (intro gives_call) (simp add: loop_call_def or_loop_def case_prod_unfold eaten)
qed (use assms(2) in \<open>simp_all add: seq_def\<close>)

lemma and_enters:
  assumes "enters_loop 5 a s1" "parses 6 b s2" "written j b s2" "blanks w1" "behind ''&&'' s2 t"
  shows "enters_loop 5 (AndE a b) (s1 @ w1 @ ''&&'' @ t)"
proof (rule loop_binary [OF assms(1) _ assms(3) TOKENS_table(4) assms(4,5)])
  fix skip p q x u Q
  assume q: "means skip a p (w1 @ ''&&'' @ t @ u) (q, Ok x)" "ahead 5 ''&&'' (pending q)"
    and right: "\<And>sk q'. pending q' = pending q \<Longrightarrow> p_vars q' = p_vars q \<Longrightarrow> p_nesting q' = p_nesting q
      \<Longrightarrow> gives (\<lambda>f. arith_call ops f (gcall (5 + 1) sk) (fst (eat q' ''&&''))) (means sk b q u)"
    and Q: "\<And>r y. means skip (AndE a b) p u (r, Ok y) \<Longrightarrow> gives (\<lambda>f. arith_call ops f (loop_call 5 skip y) r) Q"
      "\<And>r err. means skip (AndE a b) p u (r, Err err) \<Longrightarrow> Q (r, Err err)"
  let ?sk = "skip \<or> op_value x = 0" and ?v = "\<lambda>y. rvalue (from_bool (op_value x \<noteq> 0 \<and> op_value y \<noteq> 0))"
  have eaten: "snd (eat q ''&&'')" using eat_ahead [OF q(2), of "''&&''"] by (simp add: SINGLES_def SINGLE_LEVELS_def)
  have ok: "means skip (AndE a b) p u (r, Ok (?v y))" if "means ?sk b q u (r, Ok y)" for r y
    using that q(1) by (cases skip; cases "op_value x = 0") (auto simp: means_def seq_def rvalue_def from_bool_eq)
  have err: "means skip (AndE a b) p u (r, Err err)" if "means ?sk b q u (r, Err err)" for r err
    using that q(1) by (cases skip; cases "op_value x = 0") (auto simp: means_def seq_def)
  have "gives (\<lambda>f. arith_call ops f (CLevel 0 ?sk) (fst (eat q ''&&''))) (means ?sk b q u)"
    using right [of q ?sk] by (simp add: gcall_def)
  then have "gives (\<lambda>f. then_do (arith_call ops f (CLevel 0 ?sk) (fst (eat q ''&&'')))
      (\<lambda>p y. arith_call ops f (CAndLoop skip (?v y)) p)) Q"
    by (rule gives_then) (use Q(1) [OF ok] Q(2) [OF err] in \<open>simp_all add: loop_call_def\<close>)
  then show "gives (\<lambda>f. arith_call ops f (loop_call 5 skip x) q) Q"
    by (intro gives_call) (simp add: loop_call_def and_loop_def case_prod_unfold eaten Let_def)
qed (use assms(2) in \<open>simp_all add: seq_def\<close>)

lemma level_tokens:
  assumes "i < 8" "operator \<in> set (LEVELS ! i)"
  shows "(operator, i + 6) \<in> set TOKENS" "operator \<in> set BINARY_OPERATORS" "i + 6 \<in> set GROUPS"
proof -
  have "i \<in> set [0..<8]" using assms(1) by simp
  then show "(operator, i + 6) \<in> set TOKENS" unfolding TOKENS_def using assms(2) by (fastforce simp: add.commute simp del: upt_Suc upt_rec_numeral set_upt)
  have "LEVELS ! i \<in> set LEVELS" using assms(1) by (intro nth_mem) (simp add: LEVELS_def)
  then show "operator \<in> set BINARY_OPERATORS" using assms(2) by (auto simp: BINARY_OPERATORS_def)
  show "i + 6 \<in> set GROUPS" using assms(1) by (simp add: GROUPS_def) presburger
qed

lemma level_enters:
  assumes "enters_loop (i + 6) a s1" "parses (i + 7) b s2" "written j b s2" "blanks w1" "behind operator s2 t"
    and i: "i < 8" "operator \<in> set (LEVELS ! i)"
  shows "enters_loop (i + 6) (Bin operator a b) (s1 @ w1 @ operator @ t)"
proof (rule loop_binary [OF assms(1) _ assms(3) level_tokens(1) [OF i] assms(4,5)])
  fix skip p q x u Q
  assume q: "means skip a p (w1 @ operator @ t @ u) (q, Ok x)" "ahead (i + 6) operator (pending q)"
    and right: "\<And>sk q'. pending q' = pending q \<Longrightarrow> p_vars q' = p_vars q \<Longrightarrow> p_nesting q' = p_nesting q
      \<Longrightarrow> gives (\<lambda>f. arith_call ops f (gcall (i + 6 + 1) sk) (fst (eat q' operator))) (means sk b q u)"
    and Q: "\<And>r y. means skip (Bin operator a b) p u (r, Ok y) \<Longrightarrow> gives (\<lambda>f. arith_call ops f (loop_call (i + 6) skip y) r) Q"
      "\<And>r err. means skip (Bin operator a b) p u (r, Err err) \<Longrightarrow> Q (r, Err err)"
  have found: "snd (binary_operator q (LEVELS ! i)) = Some operator"
    using operator_ahead [OF q(2) level_tokens(3) [OF i]] i(1) by (simp add: group_eqs)
  have "gives (\<lambda>f. arith_call ops f (CLevel (i + 1) skip) (fst (eat (skip_blanks q) operator))) (means skip b q u)"
    using right [of "skip_blanks q" skip] next_level [OF i(1)] by (simp add: add.commute add.left_commute)
  then have "gives (\<lambda>f. then_do (arith_call ops f (CLevel (i + 1) skip) (fst (eat (skip_blanks q) operator))) (\<lambda>p y.
      then_do (if skip then succeed p 0 else Some (p, apply_op p operator (op_value x) (op_value y)))
        (\<lambda>p v. arith_call ops f (CLevelLoop i skip (rvalue v)) p))) Q"
  proof (rule gives_then)
    fix r y assume r: "means skip b q u (r, Ok y)"
    have m: "means skip (Bin operator a b) p u (r, Ok (rvalue v))" if "skip \<or> wrapped operator (op_value x) (op_value y) = Some v" for v
      using q r that by (cases skip) (auto simp: means_def seq_def rvalue_def)
    have n: "means skip (Bin operator a b) p u (r, Err err)" if "\<not> skip" "wrapped operator (op_value x) (op_value y) = None" for err
      using q r that by (auto simp: means_def seq_def)
    show "gives (\<lambda>f. then_do (if skip then succeed r 0 else Some (r, apply_op r operator (op_value x) (op_value y)))
        (\<lambda>p v. arith_call ops f (CLevelLoop i skip (rvalue v)) p)) Q"
    proof (cases skip)
      case True
      then show ?thesis using Q(1) [OF m] i by (simp add: succeed_def then_do_def loop_call_def)
    next
      case False
      then show ?thesis using Q(1) [OF m] Q(2) [OF n] i level_tokens [OF i]
        by (auto simp: loop_call_def intro!: gives_apply)
    qed
  next
    fix r err assume "means skip b q u (r, Err err)"
    then have "means skip (Bin operator a b) p u (r, Err err)" using q(1) by (cases skip) (auto simp: means_def seq_def)
    then show "Q (r, Err err)" by (rule Q)
  qed simp
  then show "gives (\<lambda>f. arith_call ops f (loop_call (i + 6) skip x) q) Q"
    using i(1) by (intro gives_call) (simp add: loop_call_def level_loop_def case_prod_unfold found operator_fst Let_def)
qed (use assms(2) in \<open>simp_all add: seq_def add.commute\<close>)

lemma cond_parses:
  assumes c: "parses 4 c s1" and a: "parses 1 a s2" "written j a s2" and b: "parses 3 b s3" "written k b s3"
    and w: "blanks w1" "blanks w3" and t: "behind ''?'' s2 t2" "behind '':'' s3 t3"
  shows "parses 3 (CondE c a b) (s1 @ w1 @ ''?'' @ t2 @ w3 @ '':'' @ t3)"
proof (rule parsesI)
  fix p :: "'s parser" and skip u l operator
  let ?e = "CondE c a b"
  assume p: "ready ?e (s1 @ w1 @ ''?'' @ t2 @ w3 @ '':'' @ t3) u p" and l: "l < 3"
    and u: "ahead l operator (dropWhile is_whitespace u)"
  let ?u2 = "w3 @ '':'' @ t3 @ u"
  let ?u = "w1 @ ''?'' @ t2 @ ?u2"
  have rc: "ready c s1 ?u p" using p by (auto simp: ready_def max_def split: if_splits)
  have "ahead 3 ''?'' (dropWhile is_whitespace ?u)"
    by (rule token_ahead [OF TOKENS_table(5) w(1) behind_drop(2) [OF a(2) t(1)]])
  from parsesD [OF c rc _ this] have "gives (\<lambda>f. arith_call ops f (COr skip) p) (means skip c p ?u)" by (simp add: gcall_def)
  then have "gives (\<lambda>f. conditional (arith_call ops f) skip p) (means skip ?e p u)"
    unfolding conditional_def
  proof (rule gives_then)
    fix q x assume q: "means skip c p ?u (q, Ok x)"
    define first where "first \<longleftrightarrow> op_value x \<noteq> 0"
    define n where "n = (fst (eat q ''?''))\<lparr>p_nesting := p_nesting p + 1\<rparr>"
    note question = operand_ready [OF q w(1) TOKENS_table(5) a(2) t(1)]
    have deeper: "p_nesting q = p_nesting p" "p_nesting q < MAX_NESTING" using q p by (auto simp: means_def ready_def)
    have n: "ready a s2 ?u2 n" "p_vars n = p_vars q" "p_nesting n = p_nesting p + 1"
      using question(2) [of q] q p by (auto simp: n_def ready_def means_def max_def split: if_splits)
    have "ahead 0 '':'' (dropWhile is_whitespace ?u2)"
      by (rule token_ahead [OF TOKENS_table(6) w(2) behind_drop(2) [OF b(2) t(2)]])
    from parsesD [OF a(1) n(1) _ this]
    have "gives (\<lambda>f. arith_call ops f (CComma (skip \<or> \<not> first)) n) (means (skip \<or> \<not> first) a n ?u2)" by (simp add: gcall_def)
    then have "gives (\<lambda>f. then_do (arith_call ops f (CComma (skip \<or> \<not> first)) n) (\<lambda>p y.
           case eat p '':'' of
             (p, False) \<Rightarrow> let p = p\<lparr>p_token_start := p_position p\<rparr> in
               fail p (error_at p (''`:'' @ [CHR 0x27] @ '' expected for conditional expression''))
           | (p, True) \<Rightarrow> then_do (arith_call ops f (CConditional (skip \<or> first)) p) (\<lambda>p z.
               succeed (unnest p) (rvalue (if first then op_value y else op_value z))))) (means skip ?e p u)"
    proof (rule gives_then)
      fix r y assume r: "means (skip \<or> \<not> first) a n ?u2 (r, Ok y)"
      note colon = operand_ready [OF r w(2) TOKENS_table(6) b(2) t(2)]
      let ?o = "fst (eat r '':'')"
      have o: "ready b s3 u ?o" "p_vars ?o = p_vars r" "p_nesting ?o = p_nesting p + 1"
        using colon(2) [of r] r n p by (auto simp: ready_def means_def max_def split: if_splits)
      from parsesD [OF b(1) o(1) l u]
      have "gives (\<lambda>f. arith_call ops f (CConditional (skip \<or> first)) ?o) (means (skip \<or> first) b ?o u)" by (simp add: gcall_def)
      then have "gives (\<lambda>f. then_do (arith_call ops f (CConditional (skip \<or> first)) ?o) (\<lambda>p z.
               succeed (unnest p) (rvalue (if first then op_value y else op_value z)))) (means skip ?e p u)"
      proof (rule gives_then)
        fix v z assume v: "means (skip \<or> first) b ?o u (v, Ok z)"
        have "means skip ?e p u (unnest v, Ok (rvalue (if first then op_value y else op_value z)))"
          using q r n o v by (cases skip; cases first) (auto simp: means_def seq_def rvalue_def first_def unnest_def)
        then show "gives (\<lambda>f. succeed (unnest v) (rvalue (if first then op_value y else op_value z))) (means skip ?e p u)"
          by (rule gives_value)
      qed (use q r n in \<open>(cases skip; cases first; auto simp: means_def seq_def first_def)\<close>)+
      then show "gives (\<lambda>f. case eat r '':'' of
             (p, False) \<Rightarrow> let p = p\<lparr>p_token_start := p_position p\<rparr> in
               fail p (error_at p (''`:'' @ [CHR 0x27] @ '' expected for conditional expression''))
           | (p, True) \<Rightarrow> then_do (arith_call ops f (CConditional (skip \<or> first)) p) (\<lambda>p z.
               succeed (unnest p) (rvalue (if first then op_value y else op_value z)))) (means skip ?e p u)"
        using colon(3) [of r] by (simp add: case_prod_unfold)
    qed (use q n in \<open>(cases skip; cases first; auto simp: means_def seq_def first_def)\<close>)+
    then show "gives (\<lambda>f. case eat q ''?'' of
       (p, False) \<Rightarrow> succeed p x
     | (p, True) \<Rightarrow>
         let take_first = op_value x \<noteq> 0 in
         then_do (nest p) (\<lambda>p _.
         then_do (arith_call ops f (CComma (skip \<or> \<not> take_first)) p) (\<lambda>p first.
           case eat p '':'' of
             (p, False) \<Rightarrow> let p = p\<lparr>p_token_start := p_position p\<rparr> in
               fail p (error_at p (''`:'' @ [CHR 0x27] @ '' expected for conditional expression''))
           | (p, True) \<Rightarrow> then_do (arith_call ops f (CConditional (skip \<or> take_first)) p) (\<lambda>p second.
               succeed (unnest p) (rvalue (if take_first then op_value first else op_value second)))))) (means skip ?e p u)"
      using question(3) [of q] deeper by (simp add: case_prod_unfold then_nest n_def first_def [symmetric] Let_def)
  qed (auto simp: means_def seq_def)
  then show "gives (\<lambda>f. arith_step ops (arith_call ops f) (gcall 3 skip) p) (means skip ?e p u)"
    by (simp add: gcall_def)
qed

lemma compound_operators: "operator @ ''='' \<in> set ASSIGNMENT_OPERATORS \<Longrightarrow> operator = [] \<or> operator \<in> set BINARY_OPERATORS"
proof -
  have "list_all (\<lambda>m. butlast m = [] \<or> butlast m \<in> set BINARY_OPERATORS) ASSIGNMENT_OPERATORS" by code_simp
  moreover assume "operator @ ''='' \<in> set ASSIGNMENT_OPERATORS"
  ultimately have "butlast (operator @ ''='') = [] \<or> butlast (operator @ ''='') \<in> set BINARY_OPERATORS"
    by (auto simp only: list_all_iff)
  then show ?thesis by simp
qed

lemma gives_assign:
  assumes x: "x \<in> names" and op: "operator @ ''='' \<in> set ASSIGNMENT_OPERATORS"
    and r: "means False e q u (r, Ok y)" and p: "p_nesting q = p_nesting p" "val (p_vars q) = val (p_vars p)" "old = val (p_vars p) x"
  shows "gives (\<lambda>f. then_do (if operator = [] then succeed r (op_value y) else Some (r, apply_op r operator old (op_value y)))
     (\<lambda>p v. then_do (store ops p (Scalar x) v) (\<lambda>p _. succeed p (rvalue v)))) (means False (AssignE x operator e) p u)"
proof -
  have inv: "inv (p_vars r)" using r by (simp add: means_def)
  have ok: "gives (\<lambda>f. then_do (store ops r (Scalar x) v) (\<lambda>p _. succeed p (rvalue v))) (means False (AssignE x operator e) p u)"
    if "(if operator = [] then Some (op_value y) else wrapped operator old (op_value y)) = Some v" for v
    using r p that by (intro gives_store [OF inv x] gives_value) (auto simp: means_def seq_def rvalue_def split: if_splits)
  show ?thesis
  proof (cases "operator = []")
    case True
    then show ?thesis using ok by (simp add: succeed_def then_do_def)
  next
    case False
    then have "gives (\<lambda>f. then_do (Some (r, apply_op r operator old (op_value y)))
       (\<lambda>p v. then_do (store ops p (Scalar x) v) (\<lambda>p _. succeed p (rvalue v)))) (means False (AssignE x operator e) p u)"
      using compound_operators [OF op] ok r p by (intro gives_apply) (auto simp: means_def seq_def)
    then show ?thesis using False by simp
  qed
qed

lemma assign_parses:
  assumes x: "is_name x" and e: "parses 2 e s" "written j e s" and op: "operator @ ''='' \<in> set ASSIGNMENT_OPERATORS"
    and w: "blanks w1" and t: "behind (operator @ ''='') s t"
  shows "parses 2 (AssignE x operator e) (x @ w1 @ (operator @ ''='') @ t)"
proof (rule parsesI)
  fix p :: "'s parser" and skip u l operator'
  let ?e = "AssignE x operator e" and ?op = "operator @ ''=''"
  assume p: "ready ?e (x @ w1 @ ?op @ t) u p" and l: "l < 2" and u: "ahead l operator' (dropWhile is_whitespace u)"
  let ?u = "w1 @ ?op @ t @ u"
  have rx: "ready (Var x) x ?u p" using p by (simp add: ready_def)
  have "ahead 2 ?op (dropWhile is_whitespace ?u)"
    by (rule token_ahead [OF TOKENS_table(8) [OF op] w behind_drop(2) [OF e(2) t]])
  moreover have "parses 3 (Var x) x"
    by (rule parses_below [OF var_parses [OF x] var [OF x]]) simp_all
  ultimately have "gives (\<lambda>f. arith_call ops f (gcall 3 skip) p) (means skip (Var x) p ?u)"
    by (intro parsesD [OF _ rx, of 3 2]) simp_all
  then have "gives (\<lambda>f. arith_call ops f (CConditional skip) p) (means skip (Var x) p ?u)"
    by (simp add: gcall_def)
  then have "gives (\<lambda>f. assignment ops (arith_call ops f) skip p) (means skip ?e p u)"
    unfolding assignment_def
  proof (rule gives_then)
    fix q target assume q: "means skip (Var x) p ?u (q, Ok target)"
    note right = operand_ready [OF q w TOKENS_table(8) [OF op] e(2) t]
    have place: "op_place target = Some (Scalar x)" using q by (simp add: means_def)
    have found: "snd (binary_operator q ASSIGNMENT_OPERATORS) = Some ?op"
      using operator_ahead [OF right(1), of 2] by (simp add: group_eqs GROUPS_def)
    define n where "n = fst (eat (skip_blanks q) ?op)"
    have n: "ready e s u n" "p_vars n = p_vars q" "p_nesting n = p_nesting q"
      using right(2) [of "skip_blanks q"] q p by (auto simp: n_def ready_def means_def)
    from parsesD [OF e(1) n(1) l u] have "gives (\<lambda>f. arith_call ops f (CAssignment skip) n) (means skip e n u)" by (simp add: gcall_def)
    then have "gives (\<lambda>f. then_do (arith_call ops f (CAssignment skip) n) (\<lambda>p y.
             if skip then succeed p (rvalue 0)
             else then_do (if operator = [] then succeed p (op_value y) else Some (p, apply_op p operator (op_value target) (op_value y)))
               (\<lambda>p v. then_do (store ops p (Scalar x) v) (\<lambda>p _. succeed p (rvalue v))))) (means skip ?e p u)"
    proof (rule gives_then)
      fix r y assume r: "means skip e n u (r, Ok y)"
      show "gives (\<lambda>f. if skip then succeed r (rvalue 0)
             else then_do (if operator = [] then succeed r (op_value y) else Some (r, apply_op r operator (op_value target) (op_value y)))
               (\<lambda>p v. then_do (store ops p (Scalar x) v) (\<lambda>p _. succeed p (rvalue v)))) (means skip ?e p u)"
      proof (cases skip)
        case True
        then have "means skip ?e p u (r, Ok (rvalue 0))" using q r n by (auto simp: means_def)
        then show ?thesis using True by (simp add: gives_value)
      next
        case False
        moreover from False have "p_nesting n = p_nesting p" "val (p_vars n) = val (p_vars p)" "op_value target = val (p_vars p) x" "x \<in> names"
          using q n p by (auto simp: means_def ready_def)
        ultimately show ?thesis using gives_assign [OF _ op, of x e n u r y p "op_value target"] r by simp
      qed
    qed (use q n in \<open>(cases skip; auto simp: means_def seq_def)\<close>)+
    then show "gives (\<lambda>f. case binary_operator q ASSIGNMENT_OPERATORS of
       (p, None) \<Rightarrow> succeed p target
     | (p, Some operator) \<Rightarrow>
         let p = fst (eat p operator) in
         case op_place target of
           None \<Rightarrow> fail p (error_at p ''attempted assignment to non-variable'')
         | Some pl \<Rightarrow> then_do (arith_call ops f (CAssignment skip) p) (\<lambda>p x.
             let right = op_value x in
             if skip then succeed p (rvalue 0)
             else then_do (if operator = ''='' then succeed p right
                           else Some (p, apply_op p (butlast operator) (op_value target) right))
               (\<lambda>p v. then_do (store ops p pl v) (\<lambda>p _. succeed p (rvalue v))))) (means skip ?e p u)"
      by (cases skip; cases "operator = []") (simp_all add: case_prod_unfold found operator_fst place n_def Let_def)
  qed (auto simp: means_def)
  then show "gives (\<lambda>f. arith_step ops (arith_call ops f) (gcall 2 skip) p) (means skip ?e p u)"
    by (simp add: gcall_def)
qed

lemma enters_below:
  assumes "k \<in> set LOOPS" "k \<le> i" "written i e s" "parses i e s" "i \<in> set LOOPS \<Longrightarrow> enters_loop i e s" "i \<le> 17"
  shows "enters_loop k e s"
proof (cases "k = i")
  case False
  then have "parses (k + 1) e s" using assms by (intro parses_below [OF assms(4,3)]) auto
  then show ?thesis using loop_enter assms(1) by blast
qed (use assms in simp)

lemma written_level: "written l e s \<Longrightarrow> 1 \<le> l \<and> l \<le> 17"
  by (induction rule: written.induct) auto

lemma parses_at: "written i e s \<Longrightarrow> parses i e s \<Longrightarrow> 1 \<le> k \<Longrightarrow> k \<le> i \<Longrightarrow> parses k e s"
  using parses_below [of i e s i k] written_level [of i e s] by simp

lemma enters_at: "written i e s \<Longrightarrow> parses i e s \<and> (i \<in> set LOOPS \<longrightarrow> enters_loop i e s) \<Longrightarrow> k \<in> set LOOPS \<Longrightarrow> k \<le> i
    \<Longrightarrow> enters_loop k e s"
  using enters_below [of k i e s] written_level [of i e s] by blast

lemma loop_case: "k \<in> set LOOPS \<Longrightarrow> enters_loop k e s \<Longrightarrow> parses k e s \<and> (k \<in> set LOOPS \<longrightarrow> enters_loop k e s)"
  using loop_exit by blast

lemma other_case: "k \<notin> set LOOPS \<Longrightarrow> parses k e s \<Longrightarrow> parses k e s \<and> (k \<in> set LOOPS \<longrightarrow> enters_loop k e s)"
  by blast

lemma LOOPS_table: "1 \<in> set LOOPS" "4 \<in> set LOOPS" "5 \<in> set LOOPS" "l < 8 \<Longrightarrow> l + 6 \<in> set LOOPS"
  "2 \<notin> set LOOPS" "3 \<notin> set LOOPS" "14 \<notin> set LOOPS" "15 \<notin> set LOOPS" "16 \<notin> set LOOPS" "17 \<notin> set LOOPS"
  by (simp_all add: LOOPS_def) presburger

lemma written_parses: "written l e s \<Longrightarrow> parses l e s \<and> (l \<in> set LOOPS \<longrightarrow> enters_loop l e s)"
proof (induction rule: written.induct)
  case (num v s) then show ?case by (intro other_case LOOPS_table num_primary)
next
  case (var x) then show ?case by (intro other_case LOOPS_table var_parses)
next
  case (paren k e s w1 w2)
  then have "parses 1 e s" using parses_at by blast
  then show ?case using paren by (intro other_case LOOPS_table paren_primary)
next
  case (post_step x w up)
  then show ?case using post_step_parses [of x w up] LOOPS_table by (simp add: step_text_def)
next
  case (pre_step x w up)
  then show ?case using pre_step_parses [of x w up] LOOPS_table by (simp add: step_text_def)
next
  case (unary k e s c t)
  then have "parses 15 e s" using parses_at by (metis one_le_numeral)
  then show ?case using unary by (intro other_case LOOPS_table unary_parses)
next
  case (pow i a s1 j b s2 w1 t)
  then have "parses 15 a s1" "parses 14 b s2" using parses_at by (metis one_le_numeral)+
  then show ?case using pow by (intro other_case LOOPS_table pow_parses)
next
  case (bin i a s1 j b s2 l operator w1 t)
  have "enters_loop (l + 6) a s1" 
    by (rule enters_at [OF bin.hyps(1) bin.IH(1) LOOPS_table(4) [OF bin.hyps(3)]]) (use bin.hyps(5) in simp)
  moreover have "parses (l + 7) b s2"
    by (rule parses_at [OF bin.hyps(2) bin.IH(2) [THEN conjunct1]]) (use bin.hyps(6) in simp_all)
  ultimately have "enters_loop (l + 6) (Bin operator a b) (s1 @ w1 @ operator @ t)" using bin by (intro level_enters)
  then show ?case using loop_case [OF LOOPS_table(4) [OF bin(3)]] by (simp add: add.commute)
next
  case (conj i a s1 j b s2 w1 t)
  have "enters_loop 5 a s1" by (rule enters_at [of i]) (use conj LOOPS_table in simp_all)
  moreover have "parses 6 b s2" by (rule parses_at [of j]) (use conj in simp_all)
  ultimately show ?case using conj by (intro loop_case LOOPS_table and_enters)
next
  case (disj i a s1 j b s2 w1 t)
  have "enters_loop 4 a s1" by (rule enters_at [of i]) (use disj LOOPS_table in simp_all)
  moreover have "parses 5 b s2" by (rule parses_at [of j]) (use disj in simp_all)
  ultimately show ?case using disj by (intro loop_case LOOPS_table or_enters)
next
  case (cond i c s1 j a s2 k b s3 w1 t2 w3 t3)
  have "parses 4 c s1" by (rule parses_at [of i]) (use cond in simp_all)
  moreover have "parses 1 a s2" by (rule parses_at [of j]) (use cond in simp_all)
  moreover have "parses 3 b s3" by (rule parses_at [of k]) (use cond in simp_all)
  ultimately show ?case using cond by (intro other_case LOOPS_table cond_parses)
next
  case (assign x j e s operator w1 t)
  then have "parses 2 e s" using parses_at by (metis one_le_numeral)
  then have "parses 2 (AssignE x operator e) (x @ w1 @ (operator @ ''='') @ t)" using assign by (intro assign_parses)
  then show ?case using LOOPS_table by simp
next
  case (comma i a s1 j b s2 w1 t)
  have "enters_loop 1 a s1" by (rule enters_at [of i]) (use comma LOOPS_table in simp_all)
  moreover have "parses 2 b s2" by (rule parses_at [of j]) (use comma in simp_all)
  ultimately show ?case using comma by (intro loop_case LOOPS_table comma_enters)
qed

theorem evaluates:
  assumes e: "written k e s" "nesting e \<le> MAX_NESTING" "vars_of e \<subseteq> names" and w: "blanks w1" "blanks w2" and st: "inv st"
  shows "\<exists>n st' r. (\<forall>k. evaluate ops (n + k) st (w1 @ s @ w2) = Some (st', r)) \<and> inv st'
    \<and> sem e (val st) = (val st', case r of Ok v \<Rightarrow> Some v | _ \<Rightarrow> None) \<and> r \<noteq> Panic"
proof -
  let ?p = "\<lparr>p_vars = st, p_chars = w1 @ s @ w2, p_position = 0, p_token_start = 0, p_depth = 0, p_nesting = 0\<rparr>"
  let ?q = "skip_blanks ?p" and ?o = "\<lparr>p_vars = st, p_chars = [], p_position = 0, p_token_start = 0, p_depth = 0, p_nesting = 0\<rparr>"
  let ?F = "\<lambda>f. then_do (arith_call ops f (CComma False) ?q) (\<lambda>p x. let p = skip_blanks p in
     if \<not> at_end p
     then let p = p\<lparr>p_token_start := p_position p\<rparr> in fail p (error_at p ''arithmetic syntax error in expression'')
     else succeed p (rvalue (op_value x)))"
  have p: "pending ?p = s @ w2" using written_drop(1) [OF e(1), of w2] by (simp add: pending_def rest_of_def blanks_drop w(1))
  then have ready: "ready e s w2 ?q" using e st by (simp add: ready_def)
  have "rest_of ?q \<noteq> []" using written_drop(2) [OF e(1)] p by (simp add: rest_pending)
  then have "\<not> at_end ?q" by (auto simp: at_end_def rest_of_def)
  have w2: "dropWhile is_whitespace w2 = []" using blanks_drop [OF w(2), of "[]"] by simp
  have "parses 1 e s" using written_parses parses_at e(1) written_level by blast
  from parsesD [OF this ready, of 0 "[]"]
  have "gives (\<lambda>f. arith_call ops f (CComma False) ?q) (means False e ?q w2)" by (simp add: w2 ahead_def gcall_def)
  then have "gives ?F (means False (Paren e) ?q w2)"
  proof (rule gives_then)
    fix q x assume q: "means False e ?q w2 (q, Ok x)"
    then have "rest_of (skip_blanks q) = []" by (simp add: rest_pending means_def w2)
    then have "at_end (skip_blanks q)" by (simp add: at_end_def rest_of_def)
    then show "gives (\<lambda>f. let p = skip_blanks q in
             if \<not> at_end p
             then let p = p\<lparr>p_token_start := p_position p\<rparr> in fail p (error_at p ''arithmetic syntax error in expression'')
             else succeed p (rvalue (op_value x))) (means False (Paren e) ?q w2)"
      using q by (simp add: Let_def gives_value means_def rvalue_def)
  qed (simp_all add: means_def)
  from gives_ex [OF this] obtain n q r where run: "\<forall>f\<ge>n. ?F f = Some (q, r)" and m: "means False (Paren e) ?q w2 (q, r)"
    by (elim exE conjE)
  have "evaluate ops (Suc f) st (w1 @ s @ w2) = Some (p_vars q, bind_oc r (\<lambda>x. Ok (op_value x)))" if "n \<le> f" for f
    using run that \<open>\<not> at_end ?q\<close> by (simp add: evaluate_def evaluate_at_depth_def)
  then have "\<forall>k. evaluate ops (Suc n + k) st (w1 @ s @ w2) = Some (p_vars q, bind_oc r (\<lambda>x. Ok (op_value x)))" by simp
  moreover have "inv (p_vars q) \<and> sem e (val st) = (val (p_vars q), case bind_oc r (\<lambda>x. Ok (op_value x)) of Ok v \<Rightarrow> Some v | _ \<Rightarrow> None)
      \<and> bind_oc r (\<lambda>x. Ok (op_value x)) \<noteq> Panic"
    using m by (cases r) (auto simp: means_def)
  ultimately show ?thesis by blast
qed

end

end
