(* ===== verification/Shell_Env.thy ===== *)
theory Shell_Env
  imports Variables Arith_Grammar
begin

text \<open>
  The variables of a shell process: the part of \<open>ProcessContext\<close> and \<open>Interp\<close> in \<open>src/src/interp.rs\<close> that
  scalar variables, arrays, positional parameters and function scopes live in, and the implementation of
  \<open>ArithVars\<close> for it in \<open>src/src/expand.rs\<close>. Text is the list of its bytes; where the code works on
  characters the two agree for ASCII text. The saved bindings of a scope are a hash map in the code; the
  bindings of different names do not interact, so the ordered map stands for any order of restoring.
\<close>

section \<open>State\<close>

record local_binding =
  lb_scalar :: "string option"
  lb_array :: "array_val option"
  lb_exported :: bool

definition binding_bytes :: "string \<Rightarrow> local_binding \<Rightarrow> u64" where
  "binding_bytes name b = saturating_add
     (saturating_add (string_bytes name) (case lb_scalar b of None \<Rightarrow> 0 | Some s \<Rightarrow> string_bytes s))
     (case lb_array b of None \<Rightarrow> 0 | Some a \<Rightarrow> array_bytes a)"

record expansion_failure =
  ee_message :: string
  ee_status :: int
  ee_abort_shell :: bool

definition parameter_error :: "string \<Rightarrow> expansion_failure" where
  "parameter_error message = \<lparr>ee_message = message, ee_status = 1, ee_abort_shell = True\<rparr>"

definition assignment_error :: "string \<Rightarrow> expansion_failure" where
  "assignment_error message = \<lparr>ee_message = message, ee_status = 1, ee_abort_shell = False\<rparr>"

record shell_env =
  se_vars :: variables
  se_arrays :: arrays
  se_positional :: positional
  se_exported :: "string set"
  se_readonly :: "string set"
  local_scopes :: "(string, local_binding) omap list"
  local_saved_bytes :: u64
  frame_saved_bytes :: u64
  input_stream :: bytes
  last_status :: int
  shell_pid :: u32
  ppid :: u32
  se_pid :: u32
  random_state :: u32
  se_cwd :: string
  arg0 :: string
  optind :: nat
  getopts_offset :: nat
  opt_nounset :: bool
  expansion_error :: "expansion_failure option"

definition state_bytes :: "shell_env \<Rightarrow> u64" where
  "state_bytes e = saturating_add (saturating_add (saturating_add (saturating_add (saturating_add
     (v_bytes (se_vars e)) (a_bytes (se_arrays e))) (pos_bytes (se_positional e))) (local_saved_bytes e))
     (frame_saved_bytes e)) (len64 (input_stream e))"

section \<open>Reading and setting variables\<close>

fun join_strings :: "string \<Rightarrow> string list \<Rightarrow> string" where
  "join_strings separator [] = []"
| "join_strings separator [s] = s"
| "join_strings separator (s # ss) = s @ separator @ join_strings separator ss"

definition array_get :: "shell_env \<Rightarrow> string \<Rightarrow> string \<Rightarrow> string option" where
  "array_get e name key = (case om_lookup (a_values (se_arrays e)) name of
       None \<Rightarrow> None
     | Some a \<Rightarrow> (case a of
         Assoc m \<Rightarrow> om_lookup m key
       | Indexed m \<Rightarrow> (case parse_usize (trim key) of None \<Rightarrow> None | Some i \<Rightarrow> om_lookup m (of_nat i))))"

definition next_random :: "u32 \<Rightarrow> u32" where
  "next_random state = state * 1103515245 + 12345"

definition get_var :: "shell_env \<Rightarrow> string \<Rightarrow> shell_env \<times> string option" where
  "get_var e name =
     (if name = ''?'' then (e, Some (show_int (last_status e)))
      else if name = ''$'' then (e, Some (decimal (unat (shell_pid e))))
      else if name = ''PPID'' then (e, Some (decimal (unat (ppid e))))
      else if name = ''BASHPID'' then (e, Some (decimal (unat (se_pid e))))
      else if name = ''RANDOM'' then
        let state = next_random (random_state e) in
        (e\<lparr>random_state := state\<rparr>, Some (decimal (unat (and (drop_bit 16 state) 0x7fff))))
      else if name = ''#'' then (e, Some (decimal (length (pos_values (se_positional e)))))
      else if name = ''PWD'' then (e, Some (se_cwd e))
      else if name = ''@'' then (e, Some (join_strings '' '' (pos_values (se_positional e))))
      else if name = ''*'' then
        let separator = (case om_lookup (v_values (se_vars e)) ''IFS'' of
            Some ifs \<Rightarrow> (case ifs of [] \<Rightarrow> [] | c # _ \<Rightarrow> [c]) | None \<Rightarrow> '' '') in
        (e, Some (join_strings separator (pos_values (se_positional e))))
      else case parse_usize name of
        Some n \<Rightarrow>
          (e, if n = 0 then Some (arg0 e)
              else if n - 1 < length (pos_values (se_positional e)) then Some (pos_values (se_positional e) ! (n - 1)) else None)
      | None \<Rightarrow>
          (e, if om_contains (a_values (se_arrays e)) name
              then Some (case array_get e name ''0'' of Some s \<Rightarrow> s | None \<Rightarrow> [])
              else om_lookup (v_values (se_vars e)) name))"

definition remove_var :: "string \<Rightarrow> shell_env \<Rightarrow> shell_env" where
  "remove_var name e = e\<lparr>se_vars := fst (v_remove name (se_vars e))\<rparr>"

definition insert_var :: "string \<Rightarrow> string \<Rightarrow> shell_env \<Rightarrow> shell_env" where
  "insert_var name s e = e\<lparr>se_vars := fst (v_insert name s (se_vars e))\<rparr>"

definition remove_array :: "string \<Rightarrow> shell_env \<Rightarrow> shell_env" where
  "remove_array name e = e\<lparr>se_arrays := fst (a_remove name (se_arrays e))\<rparr>"

definition insert_array :: "string \<Rightarrow> array_val \<Rightarrow> shell_env \<Rightarrow> shell_env" where
  "insert_array name a e = e\<lparr>se_arrays := fst (a_insert name a (se_arrays e))\<rparr>"

definition set_var :: "string \<Rightarrow> string \<Rightarrow> shell_env \<Rightarrow> shell_env" where
  "set_var name s e =
     (if name = ''RANDOM'' then
        let seed = (case parse_u32 s of Some n \<Rightarrow> of_nat n | None \<Rightarrow> 0) in
        remove_array name (remove_var name (e\<lparr>random_state := seed\<rparr>))
      else
        let e = (if name = ''PWD'' then e\<lparr>se_cwd := s\<rparr> else e);
            e = (if name = ''OPTIND'' then e\<lparr>optind := (case parse_usize s of Some n \<Rightarrow> if 0 < n then n else 1 | None \<Rightarrow> 1),
                                              getopts_offset := 1\<rparr> else e)
        in insert_var name s (remove_array name e))"

section \<open>Function scopes\<close>

definition enter_function_scope :: "shell_env \<Rightarrow> shell_env" where
  "enter_function_scope e = e\<lparr>local_scopes := local_scopes e @ [om_empty]\<rparr>"

definition in_function_scope :: "shell_env \<Rightarrow> bool" where
  "in_function_scope e \<longleftrightarrow> local_scopes e \<noteq> []"

definition binding_of :: "shell_env \<Rightarrow> string \<Rightarrow> local_binding" where
  "binding_of e name = \<lparr>lb_scalar = om_lookup (v_values (se_vars e)) name,
     lb_array = om_lookup (a_values (se_arrays e)) name, lb_exported = (name \<in> se_exported e)\<rparr>"

definition declare_local :: "string \<Rightarrow> shell_env \<Rightarrow> shell_env" where
  "declare_local name e =
     (let binding = binding_of e name; saved_bytes = binding_bytes name binding in
      if local_scopes e = [] then e
      else if om_contains (last (local_scopes e)) name then e
      else let e = e\<lparr>local_scopes := butlast (local_scopes e) @ [om_insert name binding (last (local_scopes e))],
                     local_saved_bytes := saturating_add (local_saved_bytes e) saved_bytes\<rparr>;
               e = remove_array name (remove_var name e)
           in e\<lparr>se_exported := se_exported e - {name}\<rparr>)"

definition restore_binding :: "string \<times> local_binding \<Rightarrow> shell_env \<Rightarrow> shell_env" where
  "restore_binding nb e =
     (case nb of (name, binding) \<Rightarrow>
      let e = e\<lparr>local_saved_bytes := saturating_sub (local_saved_bytes e) (binding_bytes name binding)\<rparr>;
          e = remove_array name (remove_var name e);
          e = e\<lparr>se_exported := se_exported e - {name}\<rparr>;
          e = (case lb_scalar binding of Some s \<Rightarrow> insert_var name s e | None \<Rightarrow> e);
          e = (case lb_array binding of Some a \<Rightarrow> insert_array name a e | None \<Rightarrow> e)
      in if lb_exported binding then e\<lparr>se_exported := insert name (se_exported e)\<rparr> else e)"

definition leave_function_scope :: "shell_env \<Rightarrow> shell_env" where
  "leave_function_scope e =
     (if local_scopes e = [] then e
      else fold restore_binding (om_entries (last (local_scopes e))) (e\<lparr>local_scopes := butlast (local_scopes e)\<rparr>))"

definition export_var :: "string \<Rightarrow> shell_env \<Rightarrow> shell_env" where
  "export_var name e = e\<lparr>se_exported := insert name (se_exported e)\<rparr>"

section \<open>Arrays\<close>

definition is_array :: "shell_env \<Rightarrow> string \<Rightarrow> bool" where
  "is_array e name \<longleftrightarrow> om_contains (a_values (se_arrays e)) name"

definition ensure_indexed :: "string \<Rightarrow> shell_env \<Rightarrow> shell_env" where
  "ensure_indexed name e =
     (if is_array e name then e
      else insert_array name (Indexed (case om_lookup (v_values (se_vars e)) name of
             Some s \<Rightarrow> om_insert 0 s om_empty | None \<Rightarrow> om_empty)) e)"

fun is_assoc :: "array_val option \<Rightarrow> bool" where
  "is_assoc (Some (Assoc _)) = True" | "is_assoc _ = False"

definition declare_assoc :: "string \<Rightarrow> shell_env \<Rightarrow> shell_env" where
  "declare_assoc name e = (if is_assoc (om_lookup (a_values (se_arrays e)) name) then e
     else insert_array name (Assoc om_empty) e)"

definition declare_indexed :: "string \<Rightarrow> shell_env \<Rightarrow> shell_env" where
  "declare_indexed name e = ensure_indexed name e"

definition enumerated :: "string list \<Rightarrow> (u64, string) omap" where
  "enumerated elems = fold (\<lambda>(i, s). om_insert (of_nat i) s) (enumerate 0 elems) om_empty"

definition set_array :: "string \<Rightarrow> string list \<Rightarrow> shell_env \<Rightarrow> shell_env" where
  "set_array name elems e = insert_array name (Indexed (enumerated elems)) (remove_var name e)"

definition set_array_element :: "string \<Rightarrow> array_key \<Rightarrow> string \<Rightarrow> shell_env \<Rightarrow> shell_env" where
  "set_array_element name key s e = e\<lparr>se_arrays := fst (set_element name key s (se_arrays e))\<rparr>"

definition append_element :: "string \<Rightarrow> string \<Rightarrow> shell_env \<Rightarrow> shell_env" where
  "append_element name s e =
     (let index = (case om_lookup (a_values (se_arrays e)) name of Some a \<Rightarrow> end_index a | None \<Rightarrow> 0)
      in set_array_element name (Index index) s e)"

definition array_append :: "string \<Rightarrow> string list \<Rightarrow> shell_env \<Rightarrow> shell_env" where
  "array_append name elems e = fold (append_element name) elems (ensure_indexed name e)"

definition array_set :: "string \<Rightarrow> string \<Rightarrow> string \<Rightarrow> shell_env \<Rightarrow> shell_env" where
  "array_set name key s e =
     (if is_assoc (om_lookup (a_values (se_arrays e)) name) then set_array_element name (Name key) s e
      else set_array_element name (Index (case parse_usize (trim key) of Some i \<Rightarrow> of_nat i | None \<Rightarrow> 0)) s (ensure_indexed name e))"

definition array_all :: "shell_env \<Rightarrow> string \<Rightarrow> string list" where
  "array_all e name = (case om_lookup (a_values (se_arrays e)) name of
       None \<Rightarrow> [] | Some a \<Rightarrow> (case a of Assoc m \<Rightarrow> om_values m | Indexed m \<Rightarrow> om_values m))"

definition array_keys :: "shell_env \<Rightarrow> string \<Rightarrow> string list" where
  "array_keys e name = (case om_lookup (a_values (se_arrays e)) name of
       None \<Rightarrow> [] | Some a \<Rightarrow> (case a of Assoc m \<Rightarrow> om_keys m | Indexed m \<Rightarrow> map (\<lambda>i. decimal (unat i)) (om_keys m)))"

definition array_len :: "shell_env \<Rightarrow> string \<Rightarrow> nat" where
  "array_len e name = (case om_lookup (a_values (se_arrays e)) name of
       None \<Rightarrow> 0 | Some a \<Rightarrow> (case a of Assoc m \<Rightarrow> om_size m | Indexed m \<Rightarrow> om_size m))"

definition array_unset_elem :: "string \<Rightarrow> string \<Rightarrow> shell_env \<Rightarrow> shell_env" where
  "array_unset_elem name key e =
     (let unset = (\<lambda>k. e\<lparr>se_arrays := fst (unset_element name k (se_arrays e))\<rparr>) in
      case om_lookup (a_values (se_arrays e)) name of
        None \<Rightarrow> e
      | Some a \<Rightarrow> (case a of
          Assoc _ \<Rightarrow> unset (Name key)
        | Indexed _ \<Rightarrow> (case parse_usize (trim key) of Some i \<Rightarrow> unset (Index (of_nat i)) | None \<Rightarrow> e)))"

definition child_env :: "shell_env \<Rightarrow> string \<Rightarrow> string option" where
  "child_env e k = (if k \<in> se_exported e then om_lookup (v_values (se_vars e)) k else None)"

section \<open>Variables in arithmetic\<close>

definition MAX_ARITH_ARRAY_INDEX :: int where "MAX_ARITH_ARRAY_INDEX = 2 ^ 20"

definition shell_arith_get :: "shell_env \<Rightarrow> string \<Rightarrow> shell_env \<times> (string, string option) outcome" where
  "shell_arith_get e name = (case get_var e name of
       (e, None) \<Rightarrow> (e, if opt_nounset e then Err (name @ '': unbound variable'') else Ok None)
     | (e, Some s) \<Rightarrow> (e, Ok (Some s)))"

definition indexed_text :: "string \<Rightarrow> int \<Rightarrow> string \<Rightarrow> string" where
  "indexed_text name index message = name @ ''['' @ show_int index @ '']: '' @ message"

definition subscript_base :: "shell_env \<Rightarrow> string \<Rightarrow> shell_env \<times> int" where
  "subscript_base e name = (case om_lookup (a_values (se_arrays e)) name of
       Some (Indexed m) \<Rightarrow> (e, int (om_size m))
     | _ \<Rightarrow> (case get_var e name of (e, s) \<Rightarrow> (e, if s = None then 0 else 1)))"

definition resolve_array_index :: "shell_env \<Rightarrow> string \<Rightarrow> i64 \<Rightarrow> shell_env \<times> (string, int) outcome" where
  \<comment> \<open>\<open>saturating_add\<close> of a length and a negative index never saturates\<close>
  "resolve_array_index e name index =
     (if 0 \<le> sint index then (e, Ok (sint index))
      else case subscript_base e name of (e, len) \<Rightarrow>
        let resolved = len + sint index in
        (e, if resolved < 0 then Err (indexed_text name (sint index) ''bad array subscript'') else Ok resolved))"

definition shell_arith_get_element :: "shell_env \<Rightarrow> string \<Rightarrow> i64 \<Rightarrow> shell_env \<times> (string, string option) outcome" where
  "shell_arith_get_element e name index = and_then (resolve_array_index e name index) (\<lambda>e index.
     (e, case array_get e name (show_int index) of
           None \<Rightarrow> if opt_nounset e then Err (indexed_text name index ''unbound variable'') else Ok None
         | Some s \<Rightarrow> Ok (Some s)))"

definition shell_arith_set :: "shell_env \<Rightarrow> string \<Rightarrow> i64 \<Rightarrow> shell_env \<times> (string, unit) outcome" where
  "shell_arith_set e name v =
     (if name \<in> se_readonly e then (e, Err (name @ '': readonly variable''))
      else (set_var name (show_int (sint v)) e, Ok ()))"

definition shell_arith_set_element :: "shell_env \<Rightarrow> string \<Rightarrow> i64 \<Rightarrow> i64 \<Rightarrow> shell_env \<times> (string, unit) outcome" where
  "shell_arith_set_element e name index v =
     (if name \<in> se_readonly e then (e, Err (name @ '': readonly variable''))
      else and_then (resolve_array_index e name index) (\<lambda>e index.
        if MAX_ARITH_ARRAY_INDEX < index then (e, Err (indexed_text name index ''array subscript too large''))
        else (array_set name (show_int index) (show_int (sint v)) e, Ok ())))"

definition shell_arith :: "shell_env arith_vars" where
  "shell_arith = \<lparr>arith_get = shell_arith_get, arith_get_element = shell_arith_get_element,
     arith_set = shell_arith_set, arith_set_element = shell_arith_set_element\<rparr>"

definition eval_arith :: "nat \<Rightarrow> shell_env \<Rightarrow> string \<Rightarrow> (shell_env \<times> (string, i64) outcome) option" where
  \<comment> \<open>\<open>None\<close> only when the fuel is used up; \<open>Panic\<close> carries a panic of the evaluator on\<close>
  "eval_arith fuel e expr = (case evaluate shell_arith fuel e expr of
       None \<Rightarrow> None
     | Some (e, r) \<Rightarrow> Some (case r of
         Ok v \<Rightarrow> (e, Ok v)
       | Err error \<Rightarrow> (case expansion_error e of
             Some _ \<Rightarrow> e
           | None \<Rightarrow> e\<lparr>expansion_error := Some (parameter_error (''shellsim: '' @ describe error expr @ [CHR 0x0A]))\<rparr>, Ok 0)
       | Panic \<Rightarrow> (e, Panic)))"

section \<open>What each operation does to a binding\<close>

lemma binding_remove_var: "binding_of (remove_var x e) y = (if y = x then (binding_of e y)\<lparr>lb_scalar := None\<rparr> else binding_of e y)"
  by (simp add: binding_of_def remove_var_def v_remove_def Let_def om_lookup_remove)

lemma binding_insert_var: "binding_of (insert_var x s e) y = (if y = x then (binding_of e y)\<lparr>lb_scalar := Some s\<rparr> else binding_of e y)"
  by (simp add: binding_of_def insert_var_def v_insert_def Let_def om_lookup_insert)

lemma binding_remove_array: "binding_of (remove_array x e) y = (if y = x then (binding_of e y)\<lparr>lb_array := None\<rparr> else binding_of e y)"
  by (simp add: binding_of_def remove_array_def a_remove_def Let_def om_lookup_remove)

lemma binding_insert_array: "binding_of (insert_array x a e) y = (if y = x then (binding_of e y)\<lparr>lb_array := Some a\<rparr> else binding_of e y)"
  by (simp add: binding_of_def insert_array_def a_insert_def Let_def om_lookup_insert)

lemma binding_exported: "binding_of (e\<lparr>se_exported := S\<rparr>) y = (binding_of e y)\<lparr>lb_exported := (y \<in> S)\<rparr>"
  by (simp add: binding_of_def)

lemma binding_fields [simp]:
  "binding_of (e\<lparr>local_scopes := sc\<rparr>) = binding_of e" "binding_of (e\<lparr>local_saved_bytes := n\<rparr>) = binding_of e"
  "binding_of (e\<lparr>random_state := r\<rparr>) = binding_of e" "binding_of (e\<lparr>se_cwd := s\<rparr>) = binding_of e"
  "binding_of (e\<lparr>optind := i\<rparr>) = binding_of e" "binding_of (e\<lparr>getopts_offset := i\<rparr>) = binding_of e"
  by (simp_all add: binding_of_def fun_eq_iff)

lemmas binding_ops = binding_remove_var binding_insert_var binding_remove_array binding_insert_array binding_exported

lemma scopes_ops [simp]:
  "local_scopes (remove_var x e) = local_scopes e" "local_scopes (insert_var x s e) = local_scopes e"
  "local_scopes (remove_array x e) = local_scopes e" "local_scopes (insert_array x a e) = local_scopes e"
  by (simp_all add: remove_var_def insert_var_def remove_array_def insert_array_def)

lemma exported_ops [simp]:
  "se_exported (remove_var x e) = se_exported e" "se_exported (insert_var x s e) = se_exported e"
  "se_exported (remove_array x e) = se_exported e" "se_exported (insert_array x a e) = se_exported e"
  by (simp_all add: remove_var_def insert_var_def remove_array_def insert_array_def)

lemma binding_restore: "binding_of (restore_binding (x, b) e) y = (if y = x then b else binding_of e y)"
  by (cases "lb_scalar b"; cases "lb_array b"; cases "lb_exported b")
    (simp_all add: restore_binding_def Let_def binding_ops, simp_all add: binding_of_def)

lemma scopes_restore [simp]: "local_scopes (restore_binding xb e) = local_scopes e"
  by (cases xb) (simp add: restore_binding_def Let_def split: option.split)

lemma binding_restore_all:
  "distinct (map fst xs) \<Longrightarrow> binding_of (fold restore_binding xs e) y = (case map_of xs y of Some b \<Rightarrow> b | None \<Rightarrow> binding_of e y)"
proof (induction xs arbitrary: e)
  case (Cons x xs)
  obtain n b where x: "x = (n, b)" by fastforce
  have "map_of xs n = None" using Cons.prems by (simp add: x map_of_eq_None_iff)
  then show ?case using Cons by (auto simp: x binding_restore split: option.split)
qed simp

lemma binding_leave:
  assumes "local_scopes e \<noteq> []"
  shows "binding_of (leave_function_scope e) y = (case om_lookup (last (local_scopes e)) y of Some b \<Rightarrow> b | None \<Rightarrow> binding_of e y)"
    "local_scopes (leave_function_scope e) = butlast (local_scopes e)"
proof -
  let ?xs = "om_entries (last (local_scopes e))"
  have "map_of ?xs = om_lookup (last (local_scopes e))" by (simp add: om_lookup.rep_eq)
  moreover have "distinct (map fst ?xs)" using om_distinct [of "last (local_scopes e)"] by (simp add: om_keys_def)
  ultimately show "binding_of (leave_function_scope e) y = (case om_lookup (last (local_scopes e)) y of Some b \<Rightarrow> b | None \<Rightarrow> binding_of e y)"
    using assms by (simp add: leave_function_scope_def binding_restore_all split: option.split)
  have "local_scopes (fold restore_binding xs e) = local_scopes e" for xs e by (induction xs arbitrary: e) simp_all
  then show "local_scopes (leave_function_scope e) = butlast (local_scopes e)"
    using assms by (simp add: leave_function_scope_def)
qed

section \<open>Runs\<close>

datatype env_op =
    SetVar string string | GetVar string | DeclareLocal string | Export string
  | DeclareAssoc string | DeclareIndexed string | SetArray string "string list" | ArrayAppend string "string list"
  | ArraySet string string string | ArrayUnset string string | SetPositional "string list" | Shift nat
  | CallFunction "env_op list"

fun env_step :: "env_op \<Rightarrow> shell_env \<Rightarrow> shell_env" where
  "env_step (SetVar x s) e = set_var x s e"
| "env_step (GetVar x) e = fst (get_var e x)"
| "env_step (DeclareLocal x) e = declare_local x e"
| "env_step (Export x) e = export_var x e"
| "env_step (DeclareAssoc x) e = declare_assoc x e"
| "env_step (DeclareIndexed x) e = declare_indexed x e"
| "env_step (SetArray x ss) e = set_array x ss e"
| "env_step (ArrayAppend x ss) e = array_append x ss e"
| "env_step (ArraySet x k s) e = array_set x k s e"
| "env_step (ArrayUnset x k) e = array_unset_elem x k e"
| "env_step (SetPositional ss) e = e\<lparr>se_positional := fst (pos_replace ss (se_positional e))\<rparr>"
| "env_step (Shift n) e = e\<lparr>se_positional := pos_shift n (se_positional e)\<rparr>"
| "env_step (CallFunction body) e = e"

fun env_run :: "env_op list \<Rightarrow> shell_env \<Rightarrow> shell_env" where
  "env_run [] e = e"
| "env_run (oper # ops) e = env_run ops (case oper of
       CallFunction body \<Rightarrow> leave_function_scope (env_run body (enter_function_scope e))
     | _ \<Rightarrow> env_step oper e)"

lemma env_run_append: "env_run (xs @ ys) e = env_run ys (env_run xs e)"
  by (induction xs e rule: env_run.induct) simp_all

lemma scopes_ensure [simp]: "local_scopes (ensure_indexed x e) = local_scopes e"
  by (simp add: ensure_indexed_def)

lemma scopes_append [simp]: "local_scopes (fold (append_element x) ss e) = local_scopes e"
  by (induction ss arbitrary: e) (simp_all add: append_element_def set_array_element_def Let_def)

lemma scopes_step: "\<forall>x. oper \<noteq> DeclareLocal x \<Longrightarrow> local_scopes (env_step oper e) = local_scopes e"
  by (cases oper) (auto simp: set_var_def get_var_def export_var_def declare_assoc_def declare_indexed_def set_array_def array_append_def
      array_set_def set_array_element_def array_unset_elem_def Let_def split: option.split array_val.split)

lemma scopes_declare:
  "local_scopes (declare_local x e) = (if local_scopes e = [] \<or> om_contains (last (local_scopes e)) x then local_scopes e
     else butlast (local_scopes e) @ [om_insert x (binding_of e x) (last (local_scopes e))])"
  by (simp add: declare_local_def Let_def)

text \<open>A balanced run inside a function changes neither the outer scopes nor a binding that is already saved.\<close>

definition extends_scope :: "shell_env \<Rightarrow> shell_env \<Rightarrow> bool" where
  "extends_scope e e' \<longleftrightarrow> (if local_scopes e = [] then local_scopes e' = []
     else local_scopes e' \<noteq> [] \<and> butlast (local_scopes e') = butlast (local_scopes e)
       \<and> (\<forall>x b. om_lookup (last (local_scopes e)) x = Some b \<longrightarrow> om_lookup (last (local_scopes e')) x = Some b))"

lemma extends_refl: "local_scopes e' = local_scopes e \<Longrightarrow> extends_scope e e'"
  by (simp add: extends_scope_def)

lemma extends_trans: "extends_scope a b \<Longrightarrow> extends_scope b c \<Longrightarrow> extends_scope a c"
  by (auto simp: extends_scope_def split: if_splits)

lemma extends_declare: "extends_scope e (declare_local x e)"
  by (auto simp: extends_scope_def scopes_declare om_lookup_insert)

lemma extends_leave: "extends_scope (enter_function_scope e) e' \<Longrightarrow> extends_scope e (leave_function_scope e')"
  by (intro extends_refl) (auto simp: extends_scope_def enter_function_scope_def binding_leave)

lemma extends_step: "extends_scope e (env_step oper e)"
  by (cases "\<exists>x. oper = DeclareLocal x") (auto simp: extends_declare intro: extends_refl scopes_step)

lemma env_run_extends: "extends_scope e (env_run ops e)"
proof (induction ops e rule: env_run.induct)
  case (2 oper ops e)
  let ?e = "case oper of CallFunction body \<Rightarrow> leave_function_scope (env_run body (enter_function_scope e)) | _ \<Rightarrow> env_step oper e"
  have "extends_scope e ?e"
    using extends_step [of e oper] 2(1) extends_leave by (cases oper) simp_all
  then show ?case using 2(2) extends_trans by simp
qed (simp add: extends_refl)

lemma scopes_call: "local_scopes (leave_function_scope (env_run body (enter_function_scope e))) = local_scopes e"
  using env_run_extends [of "enter_function_scope e" body]
  by (auto simp: extends_scope_def enter_function_scope_def binding_leave)

lemma env_run_undeclared:
  "local_scopes e \<noteq> [] \<Longrightarrow> om_lookup (last (local_scopes e)) x = None \<Longrightarrow> DeclareLocal x \<notin> set ops
    \<Longrightarrow> local_scopes (env_run ops e) \<noteq> [] \<and> om_lookup (last (local_scopes (env_run ops e))) x = None"
proof (induction ops arbitrary: e)
  case (Cons oper ops)
  let ?e = "case oper of CallFunction body \<Rightarrow> leave_function_scope (env_run body (enter_function_scope e)) | _ \<Rightarrow> env_step oper e"
  have "local_scopes ?e = local_scopes e" if "\<forall>y. oper \<noteq> DeclareLocal y"
    using scopes_step [OF that, of e] scopes_call by (cases oper) (simp_all)
  moreover have "local_scopes ?e \<noteq> [] \<and> om_lookup (last (local_scopes ?e)) x = None" if "oper = DeclareLocal y" for y
    using Cons.prems that by (auto simp: scopes_declare om_lookup_insert)
  ultimately have "local_scopes ?e \<noteq> [] \<and> om_lookup (last (local_scopes ?e)) x = None"
    using Cons.prems(1,2) by (cases "\<forall>y. oper \<noteq> DeclareLocal y") auto
  then show ?case using Cons.IH Cons.prems(3) by simp
qed simp

lemma scope_entered [simp]: "local_scopes (enter_function_scope e) = local_scopes e @ [om_empty]"
  by (simp add: enter_function_scope_def)

lemma binding_declared: "local_scopes e \<noteq> [] \<Longrightarrow> om_lookup (last (local_scopes e)) x = None
    \<Longrightarrow> binding_of (declare_local x e) x = \<lparr>lb_scalar = None, lb_array = None, lb_exported = False\<rparr>"
  by (simp add: declare_local_def Let_def binding_ops)

text \<open>C35. A variable declared local in a function is unset there, and when the function returns it has
  the value, the array and the export mark it had when it was declared, whatever the function and the
  functions it calls did to it; a variable that is not declared local keeps what the function left.\<close>

theorem local_variables_restored:
  assumes "DeclareLocal x \<notin> set before" "DeclareLocal y \<notin> set (before @ DeclareLocal x # after)"
  shows "binding_of (env_run (before @ [DeclareLocal x]) (enter_function_scope e)) x
      = \<lparr>lb_scalar = None, lb_array = None, lb_exported = False\<rparr>
    \<and> binding_of (env_run [CallFunction (before @ DeclareLocal x # after)] e) x
      = binding_of (env_run before (enter_function_scope e)) x
    \<and> binding_of (env_run [CallFunction (before @ DeclareLocal x # after)] e) y
      = binding_of (env_run (before @ DeclareLocal x # after) (enter_function_scope e)) y"
proof -
  let ?e = "env_run before (enter_function_scope e)" and ?ops = "before @ DeclareLocal x # after"
  let ?d = "declare_local x ?e" and ?stop = "env_run ?ops (enter_function_scope e)"
  have e: "local_scopes ?e \<noteq> []" "om_lookup (last (local_scopes ?e)) x = None"
    using env_run_undeclared [of "enter_function_scope e" x before] assms(1) by simp_all
  have "om_lookup (last (local_scopes ?d)) x = Some (binding_of ?e x)" "local_scopes ?d \<noteq> []"
    using e by (auto simp: scopes_declare)
  moreover have run: "?stop = env_run after ?d" by (simp add: env_run_append)
  ultimately have x: "local_scopes ?stop \<noteq> []" "om_lookup (last (local_scopes ?stop)) x = Some (binding_of ?e x)"
    using env_run_extends [of ?d after] by (auto simp: extends_scope_def)
  have y: "om_lookup (last (local_scopes ?stop)) y = None"
    using env_run_undeclared [of "enter_function_scope e" y ?ops] assms(2) by simp
  show ?thesis
    using binding_declared [OF e] x y by (simp add: env_run_append [of before "[DeclareLocal x]"] binding_leave)
qed

definition boot_env :: shell_env where
  "boot_env = \<lparr>se_vars = no_variables, se_arrays = no_arrays, se_positional = positional_from [], se_exported = {}, se_readonly = {},
     local_scopes = [], local_saved_bytes = 0, frame_saved_bytes = 0, input_stream = [], last_status = 0, shell_pid = 100, ppid = 1,
     se_pid = 100, random_state = 1, se_cwd = ''/'', arg0 = ''sh'', optind = 1, getopts_offset = 1, opt_nounset = False,
     expansion_error = None\<rparr>"

lemma local_variables_restored_witness:
  "lb_scalar (binding_of (env_run [SetVar ''x'' ''1'', CallFunction [SetVar ''y'' ''2'', DeclareLocal ''x'', SetVar ''x'' ''3'']] boot_env) ''x'') = Some ''1''"
proof -
  let ?e = "set_var ''x'' ''1'' boot_env"
  have "binding_of (env_run [CallFunction ([SetVar ''y'' ''2''] @ DeclareLocal ''x'' # [SetVar ''x'' ''3''])] ?e) ''x''
      = binding_of (env_run [SetVar ''y'' ''2''] (enter_function_scope ?e)) ''x''"
    by (rule local_variables_restored [of "''x''" "[SetVar ''y'' ''2'']" "''y''" "[SetVar ''x'' ''3'']" ?e, THEN conjunct2, THEN conjunct1]) simp_all
  then show ?thesis by (simp add: set_var_def Let_def enter_function_scope_def binding_ops)
qed

section \<open>The byte estimates of an environment\<close>

definition binding_size :: "string \<Rightarrow> local_binding \<Rightarrow> nat" where
  "binding_size name b = string_size name + (case lb_scalar b of None \<Rightarrow> 0 | Some s \<Rightarrow> string_size s)
     + (case lb_array b of None \<Rightarrow> 0 | Some a \<Rightarrow> array_size a)"

definition saved_size :: "(string, local_binding) omap list \<Rightarrow> nat" where
  "saved_size scopes = sum_list (map (om_weight binding_size) scopes)"

definition env_total :: "shell_env \<Rightarrow> nat" where
  "env_total e = variables_size (se_vars e) + arrays_size (se_arrays e) + positional_size (se_positional e) + saved_size (local_scopes e)"

definition env_holds :: "nat \<Rightarrow> shell_env \<Rightarrow> bool" where
  \<comment> \<open>every estimate is exact, with \<open>n\<close> bytes of saved bindings that are being restored\<close>
  "env_holds n e \<longleftrightarrow> v_exact (se_vars e) \<and> a_exact (se_arrays e) \<and> pos_exact (se_positional e)
     \<and> unat (local_saved_bytes e) = saved_size (local_scopes e) + n"

fun op_cost :: "env_op \<Rightarrow> nat" where
  "op_cost (SetVar x s) = string_size x + string_size s"
| "op_cost (SetArray x ss) = string_size x + sum_list (map string_size ss)"
| "op_cost (ArrayAppend x ss) = string_size x + sum_list (map string_size ss)"
| "op_cost (ArraySet x k s) = string_size x + string_size k + string_size s"
| "op_cost (SetPositional ss) = sum_list (map string_size ss)"
| "op_cost (DeclareLocal x) = string_size x" | "op_cost (DeclareAssoc x) = string_size x" | "op_cost (DeclareIndexed x) = string_size x"
| "op_cost _ = 0"

definition fits :: "shell_env \<Rightarrow> nat \<Rightarrow> bool" where
  "fits e cost \<longleftrightarrow> 2 * env_total e + cost < 2 ^ 64"

fun affordable :: "env_op list \<Rightarrow> shell_env \<Rightarrow> bool" where
  \<comment> \<open>at every step of the run the state and the operands fit twice into 64 bits\<close>
  "affordable [] e \<longleftrightarrow> True"
| "affordable (oper # ops) e \<longleftrightarrow> fits e (op_cost oper) \<and> affordable ops (env_run [oper] e)
     \<and> (case oper of CallFunction body \<Rightarrow> affordable body (enter_function_scope e) \<and> fits (env_run body (enter_function_scope e)) 0 | _ \<Rightarrow> True)"

lemma unat_binding_bytes: "binding_size x b < 2 ^ 64 \<Longrightarrow> unat (binding_bytes x b) = binding_size x b"
proof -
  assume small: "binding_size x b < 2 ^ 64"
  let ?s = "case lb_scalar b of None \<Rightarrow> 0 | Some s \<Rightarrow> string_size s" and ?a = "case lb_array b of None \<Rightarrow> 0 | Some a \<Rightarrow> array_size a"
  have "unat (case lb_scalar b of None \<Rightarrow> 0 | Some s \<Rightarrow> string_bytes s) = ?s"
    using small by (cases "lb_scalar b") (simp_all add: binding_size_def unat_string_bytes)
  moreover have "unat (case lb_array b of None \<Rightarrow> 0 | Some a \<Rightarrow> array_bytes a) = ?a"
    using small by (cases "lb_array b") (simp_all add: binding_size_def unat_array_bytes)
  moreover have "unat (string_bytes x) = string_size x" using small by (simp add: binding_size_def unat_string_bytes)
  ultimately have "unat (string_bytes x) + unat (case lb_scalar b of None \<Rightarrow> 0 | Some s \<Rightarrow> string_bytes s)
      + unat (case lb_array b of None \<Rightarrow> 0 | Some a \<Rightarrow> array_bytes a) = binding_size x b" by (simp add: binding_size_def)
  then show ?thesis
    using small unat_adjusted [of "string_bytes x" "case lb_scalar b of None \<Rightarrow> 0 | Some s \<Rightarrow> string_bytes s" "case lb_array b of None \<Rightarrow> 0 | Some a \<Rightarrow> array_bytes a" 0]
    by (simp add: binding_bytes_def unat_saturating_sub)
qed

lemma exact_cong [simp]:
  "env_holds n (e\<lparr>se_exported := S\<rparr>) = env_holds n e" "env_holds n (e\<lparr>random_state := r\<rparr>) = env_holds n e"
  "env_holds n (e\<lparr>se_cwd := s\<rparr>) = env_holds n e" "env_holds n (e\<lparr>optind := i\<rparr>) = env_holds n e" "env_holds n (e\<lparr>getopts_offset := i\<rparr>) = env_holds n e"
  "env_total (e\<lparr>se_exported := S\<rparr>) = env_total e" "env_total (e\<lparr>random_state := r\<rparr>) = env_total e"
  "env_total (e\<lparr>se_cwd := s\<rparr>) = env_total e" "env_total (e\<lparr>optind := i\<rparr>) = env_total e" "env_total (e\<lparr>getopts_offset := i\<rparr>) = env_total e"
  by (simp_all add: env_holds_def env_total_def)

lemma remove_var_exact:
  "env_holds n e \<Longrightarrow> env_total e < 2 ^ 64 \<Longrightarrow> env_holds n (remove_var x e) \<and> env_total (remove_var x e) \<le> env_total e"
  using v_remove_exact [of "se_vars e" x] by (simp add: env_holds_def env_total_def remove_var_def)

lemma remove_array_exact:
  "env_holds n e \<Longrightarrow> env_total e < 2 ^ 64 \<Longrightarrow> env_holds n (remove_array x e) \<and> env_total (remove_array x e) \<le> env_total e"
  using a_remove_exact [of "se_arrays e" x] by (simp add: env_holds_def env_total_def remove_array_def)

lemma insert_var_exact:
  "env_holds n e \<Longrightarrow> env_total e + string_size x + string_size s < 2 ^ 64
    \<Longrightarrow> env_holds n (insert_var x s e) \<and> env_total (insert_var x s e) \<le> env_total e + string_size x + string_size s"
  using v_insert_exact [of "se_vars e" x s] v_insert_size [of x s "se_vars e"] by (simp add: env_holds_def env_total_def insert_var_def)

lemma insert_array_exact:
  "env_holds n e \<Longrightarrow> env_total e + string_size x + array_size a < 2 ^ 64
    \<Longrightarrow> env_holds n (insert_array x a e) \<and> env_total (insert_array x a e) \<le> env_total e + string_size x + array_size a"
  using a_insert_exact [of "se_arrays e" x a] a_insert_size [of x a "se_arrays e"] by (simp add: env_holds_def env_total_def insert_array_def)

lemma set_array_element_exact:
  "env_holds n e \<Longrightarrow> env_total e + (case key of Index _ \<Rightarrow> 0 | Name k \<Rightarrow> string_size k) + string_size s < 2 ^ 64
    \<Longrightarrow> env_holds n (set_array_element x key s e)
      \<and> env_total (set_array_element x key s e) \<le> env_total e + (case key of Index _ \<Rightarrow> 0 | Name k \<Rightarrow> string_size k) + string_size s"
  using set_element_exact [of "se_arrays e" key s x] set_element_size [of x key s "se_arrays e"]
  by (simp add: env_holds_def env_total_def set_array_element_def)

lemma var_size_within: "om_lookup (v_values (se_vars e)) x = Some s \<Longrightarrow> string_size s \<le> env_total e"
  using om_weight_remove [of "\<lambda>name s. string_size name + string_size s" "v_values (se_vars e)" x]
  by (simp add: env_total_def variables_size_def)

lemma ensure_indexed_exact:
  assumes "env_holds n e" "2 * env_total e + string_size x < 2 ^ 64"
  shows "env_holds n (ensure_indexed x e) \<and> env_total (ensure_indexed x e) \<le> 2 * env_total e + string_size x"
proof (cases "is_array e x")
  case True
  then show ?thesis using assms by (simp add: ensure_indexed_def)
next
  case False
  let ?a = "Indexed (case om_lookup (v_values (se_vars e)) x of Some s \<Rightarrow> om_insert 0 s om_empty | None \<Rightarrow> om_empty)"
  have "array_size ?a \<le> env_total e"
    using var_size_within [of e x] by (cases "om_lookup (v_values (se_vars e)) x") (simp_all add: om_weight_singleton)
  then show ?thesis using insert_array_exact [of n e x ?a] assms False by (auto simp: ensure_indexed_def)
qed

lemma append_exact:
  "env_holds n e \<Longrightarrow> env_total e + sum_list (map string_size ss) < 2 ^ 64 \<Longrightarrow> env_holds n (fold (append_element x) ss e)"
proof (induction ss arbitrary: e)
  case (Cons s ss)
  let ?key = "Index (case om_lookup (a_values (se_arrays e)) x of Some a \<Rightarrow> end_index a | None \<Rightarrow> 0)"
  have "env_holds n (append_element x s e)" "env_total (append_element x s e) \<le> env_total e + string_size s"
    using set_array_element_exact [of n e ?key s x] Cons.prems by (simp_all add: append_element_def Let_def)
  then show ?case using Cons by simp
qed simp

lemma insert_saved_var:
  assumes "env_holds n e" "env_total e + string_size x + (case v of None \<Rightarrow> 0 | Some s \<Rightarrow> string_size s) < 2 ^ 64"
  shows "env_holds n (case v of Some s \<Rightarrow> insert_var x s e | None \<Rightarrow> e)
    \<and> env_total (case v of Some s \<Rightarrow> insert_var x s e | None \<Rightarrow> e) \<le> env_total e + string_size x + (case v of None \<Rightarrow> 0 | Some s \<Rightarrow> string_size s)"
proof (cases v)
  case (Some s)
  then show ?thesis using insert_var_exact [of n e x s] assms by simp
qed (use assms in simp)

lemma insert_saved_array:
  assumes "env_holds n e" "env_total e + string_size x + (case v of None \<Rightarrow> 0 | Some a \<Rightarrow> array_size a) < 2 ^ 64"
  shows "env_holds n (case v of Some a \<Rightarrow> insert_array x a e | None \<Rightarrow> e)
    \<and> env_total (case v of Some a \<Rightarrow> insert_array x a e | None \<Rightarrow> e) \<le> env_total e + string_size x + (case v of None \<Rightarrow> 0 | Some a \<Rightarrow> array_size a)"
proof (cases v)
  case (Some a)
  then show ?thesis using insert_array_exact [of n e x a] assms by simp
qed (use assms in simp)

lemma restore_exact:
  assumes "env_holds (binding_size x b + n) e" "env_total e + 2 * binding_size x b < 2 ^ 64"
  shows "env_holds n (restore_binding (x, b) e) \<and> env_total (restore_binding (x, b) e) \<le> env_total e + 2 * binding_size x b"
proof -
  define e1 where "e1 = e\<lparr>local_saved_bytes := saturating_sub (local_saved_bytes e) (binding_bytes x b)\<rparr>"
  define e2 where "e2 = (remove_array x (remove_var x e1))\<lparr>se_exported := se_exported (remove_array x (remove_var x e1)) - {x}\<rparr>"
  define e3 where "e3 = (case lb_scalar b of Some s \<Rightarrow> insert_var x s e2 | None \<Rightarrow> e2)"
  define e4 where "e4 = (case lb_array b of Some a \<Rightarrow> insert_array x a e3 | None \<Rightarrow> e3)"
  have "env_holds n e1" "env_total e1 = env_total e"
    using assms by (simp_all add: e1_def env_holds_def env_total_def unat_saturating_sub unat_binding_bytes)
  then have e2: "env_holds n e2" "env_total e2 \<le> env_total e"
    using remove_var_exact [of n e1 x] remove_array_exact [of n "remove_var x e1" x] assms(2) by (simp_all add: e2_def)
  have e3: "env_holds n e3 \<and> env_total e3 \<le> env_total e2 + string_size x + (case lb_scalar b of None \<Rightarrow> 0 | Some s \<Rightarrow> string_size s)"
    unfolding e3_def using e2 assms(2) by (intro insert_saved_var) (simp_all add: binding_size_def)
  have e4: "env_holds n e4 \<and> env_total e4 \<le> env_total e3 + string_size x + (case lb_array b of None \<Rightarrow> 0 | Some a \<Rightarrow> array_size a)"
    unfolding e4_def using e2 e3 assms(2) by (intro insert_saved_array) (simp_all add: binding_size_def)
  have "restore_binding (x, b) e = (if lb_exported b then e4\<lparr>se_exported := insert x (se_exported e4)\<rparr> else e4)"
    by (simp only: restore_binding_def prod.case Let_def e4_def e3_def e2_def e1_def)
  then have "env_holds n (restore_binding (x, b) e) = env_holds n e4" "env_total (restore_binding (x, b) e) = env_total e4" by simp_all
  moreover have "env_total e4 \<le> env_total e + 2 * binding_size x b"
    using e2(2) e3 [THEN conjunct2] e4 [THEN conjunct2] by (simp add: binding_size_def)
  ultimately show ?thesis using e4 by simp
qed

lemma restore_all_exact:
  assumes "env_holds (sum_list (map (\<lambda>(x, b). binding_size x b) xs)) e"
    "env_total e + 2 * sum_list (map (\<lambda>(x, b). binding_size x b) xs) < 2 ^ 64"
  shows "env_holds 0 (fold restore_binding xs e)"
  using assms
proof (induction xs arbitrary: e)
  case (Cons x xs)
  obtain n b where x: "x = (n, b)" by fastforce
  show ?case using Cons restore_exact [of n b "sum_list (map (\<lambda>(x, b). binding_size x b) xs)" e] by (simp add: x)
qed simp

lemma saved_last: "sc \<noteq> [] \<Longrightarrow> saved_size sc = saved_size (butlast sc) + om_weight binding_size (last sc)"
  by (cases sc rule: rev_cases) (simp_all add: saved_size_def)

lemma leave_exact:
  assumes "env_holds 0 e" "fits e 0"
  shows "env_holds 0 (leave_function_scope e)"
proof (cases "local_scopes e = []")
  case True
  then show ?thesis using assms(1) by (simp add: leave_function_scope_def)
next
  case False
  let ?e = "e\<lparr>local_scopes := butlast (local_scopes e)\<rparr>" and ?w = "om_weight binding_size (last (local_scopes e))"
  have "env_holds ?w ?e" "env_total ?e + ?w = env_total e"
    using assms(1) saved_last [OF False] by (simp_all add: env_holds_def env_total_def)
  then have "env_holds 0 (fold restore_binding (om_entries (last (local_scopes e))) ?e)"
    using assms(2) by (intro restore_all_exact) (simp_all add: om_weight_def fits_def)
  then show ?thesis using False by (simp add: leave_function_scope_def)
qed

lemma binding_within: "binding_size x (binding_of e x) \<le> string_size x + variables_size (se_vars e) + arrays_size (se_arrays e)"
proof -
  have "(case om_lookup (v_values (se_vars e)) x of None \<Rightarrow> 0 | Some s \<Rightarrow> string_size s) \<le> variables_size (se_vars e)"
  proof (cases "om_lookup (v_values (se_vars e)) x")
    case (Some s)
    then show ?thesis
      using om_weight_remove [of "\<lambda>name s. string_size name + string_size s" "v_values (se_vars e)" x] by (simp add: variables_size_def)
  qed simp
  moreover have "(case om_lookup (a_values (se_arrays e)) x of None \<Rightarrow> 0 | Some a \<Rightarrow> array_size a) \<le> arrays_size (se_arrays e)"
    using array_size_within [of "se_arrays e" x] by (cases "om_lookup (a_values (se_arrays e)) x") simp_all
  ultimately show ?thesis by (simp add: binding_size_def binding_of_def)
qed

lemma declare_exact:
  assumes "env_holds 0 e" "fits e (string_size x)"
  shows "env_holds 0 (declare_local x e)"
proof (cases "local_scopes e = [] \<or> om_contains (last (local_scopes e)) x")
  case True
  then show ?thesis using assms(1) by (auto simp: declare_local_def Let_def)
next
  case False
  let ?b = "binding_of e x"
  define e1 where "e1 = e\<lparr>local_scopes := butlast (local_scopes e) @ [om_insert x ?b (last (local_scopes e))],
     local_saved_bytes := saturating_add (local_saved_bytes e) (binding_bytes x ?b)\<rparr>"
  have "om_remove x (last (local_scopes e)) = last (local_scopes e)" using False by simp
  then have saved: "saved_size (local_scopes e1) = saved_size (local_scopes e) + binding_size x ?b"
    using False saved_last [of "local_scopes e"] by (simp add: e1_def saved_size_def om_weight_insert)
  have small: "env_total e + binding_size x ?b < 2 ^ 64" using assms(2) binding_within [of x e] by (simp add: fits_def env_total_def)
  then have "unat (local_saved_bytes e1) = saved_size (local_scopes e1)"
    using assms(1) saved by (simp add: e1_def env_holds_def env_total_def unat_saturating_add unat_binding_bytes)
  then have e1: "env_holds 0 e1" "env_total e1 < 2 ^ 64"
    using assms(1) small saved by (simp_all add: env_holds_def env_total_def) (simp_all add: e1_def)
  have "env_holds 0 (remove_array x (remove_var x e1))"
    using remove_var_exact [OF e1, of x] remove_array_exact [of 0 "remove_var x e1" x] e1 by simp
  then show ?thesis using False by (auto simp: declare_local_def Let_def e1_def [symmetric])
qed

lemma enumerated_size: "array_size (Indexed (enumerated ss)) \<le> sum_list (map string_size ss)"
proof -
  have "om_weight (\<lambda>_ s. string_size s) (fold (\<lambda>(i, s). om_insert (of_nat i) s) xs m)
      \<le> om_weight (\<lambda>_ s. string_size s) m + sum_list (map (string_size \<circ> snd) xs)" for xs :: "(nat \<times> string) list" and m :: "(u64, string) omap"
  proof (induction xs arbitrary: m)
    case (Cons x xs)
    have "om_weight (\<lambda>_ s. string_size s) (om_insert (of_nat (fst x)) (snd x) m) \<le> om_weight (\<lambda>_ s. string_size s) m + string_size (snd x)"
      using om_weight_remove [of "\<lambda>_ s. string_size s" m "of_nat (fst x)"] by (simp add: om_weight_insert)
    then show ?case using Cons [of "om_insert (of_nat (fst x)) (snd x) m"] by (simp add: case_prod_unfold)
  qed simp
  from this [of "enumerate 0 ss" om_empty] show ?thesis
    by (simp add: enumerated_def flip: map_map)
qed

lemma set_var_exact:
  assumes "env_holds 0 e" "fits e (string_size x + string_size s)"
  shows "env_holds 0 (set_var x s e)"
proof (cases "x = ''RANDOM''")
  case True
  let ?e = "e\<lparr>random_state := (case parse_u32 s of Some n \<Rightarrow> of_nat n | None \<Rightarrow> 0)\<rparr>"
  have "env_holds 0 ?e" "env_total ?e < 2 ^ 64" using assms by (simp_all add: fits_def)
  then show ?thesis
    using remove_var_exact [of 0 ?e x] remove_array_exact [of 0 "remove_var x ?e" x] True by (simp add: set_var_def Let_def)
next
  case False
  define e1 where "e1 = (let e = (if x = ''PWD'' then e\<lparr>se_cwd := s\<rparr> else e) in
     if x = ''OPTIND'' then e\<lparr>optind := (case parse_usize s of Some n \<Rightarrow> if 0 < n then n else 1 | None \<Rightarrow> 1), getopts_offset := 1\<rparr> else e)"
  have e1: "env_holds 0 e1" "env_total e1 = env_total e" using assms(1) by (simp_all add: e1_def Let_def)
  then have "env_holds 0 (remove_array x e1) \<and> env_total (remove_array x e1) \<le> env_total e"
    using remove_array_exact [of 0 e1 x] assms(2) by (simp add: fits_def)
  then have "env_holds 0 (insert_var x s (remove_array x e1))"
    using insert_var_exact [of 0 "remove_array x e1" x s] assms(2) by (simp add: fits_def)
  moreover have "set_var x s e = insert_var x s (remove_array x e1)"
    using False by (simp add: set_var_def e1_def Let_def)
  ultimately show ?thesis by simp
qed

lemma array_set_exact:
  assumes "env_holds 0 e" "fits e (string_size x + string_size k + string_size s)"
  shows "env_holds 0 (array_set x k s e)"
proof (cases "is_assoc (om_lookup (a_values (se_arrays e)) x)")
  case True
  then show ?thesis using set_array_element_exact [of 0 e "Name k" s x] assms by (simp add: array_set_def fits_def)
next
  case False
  let ?key = "Index (case parse_usize (trim k) of Some i \<Rightarrow> of_nat i | None \<Rightarrow> 0)"
  have "env_holds 0 (ensure_indexed x e) \<and> env_total (ensure_indexed x e) \<le> 2 * env_total e + string_size x"
    using assms by (intro ensure_indexed_exact) (simp_all add: fits_def)
  then show ?thesis using set_array_element_exact [of 0 "ensure_indexed x e" ?key s x] assms(2) False
    by (simp add: array_set_def fits_def)
qed

lemma fst_get_var: "fst (get_var e x) = (if x = ''RANDOM'' then e\<lparr>random_state := next_random (random_state e)\<rparr> else e)"
proof (cases "x = ''RANDOM''")
  case False
  then show ?thesis unfolding get_var_def Let_def by (simp only: if_False) (simp split: option.split)
qed (simp add: get_var_def Let_def)

lemma env_step_exact:
  assumes "env_holds 0 e" "fits e (op_cost oper)"
  shows "env_holds 0 (env_step oper e)"
proof (cases oper)
  case (SetVar x s)
  then show ?thesis using set_var_exact assms by simp
next
  case (GetVar x)
  then show ?thesis using fst_get_var [of e x] assms by simp
next
  case (DeclareLocal x)
  then show ?thesis using declare_exact assms by simp
next
  case (DeclareAssoc x)
  then show ?thesis using insert_array_exact [of 0 e x "Assoc om_empty"] assms by (simp add: declare_assoc_def fits_def)
next
  case (DeclareIndexed x)
  then show ?thesis using ensure_indexed_exact [of 0 e x] assms by (simp add: declare_indexed_def fits_def)
next
  case (SetArray x ss)
  then have "env_holds 0 (remove_var x e) \<and> env_total (remove_var x e) \<le> env_total e"
    using assms by (intro remove_var_exact) (simp_all add: fits_def)
  then show ?thesis
    using insert_array_exact [of 0 "remove_var x e" x "Indexed (enumerated ss)"] enumerated_size [of ss] assms(2) SetArray
    by (simp add: set_array_def fits_def)
next
  case (ArrayAppend x ss)
  then have "env_holds 0 (ensure_indexed x e) \<and> env_total (ensure_indexed x e) \<le> 2 * env_total e + string_size x"
    using assms by (intro ensure_indexed_exact) (simp_all add: fits_def)
  then show ?thesis using append_exact [of 0 "ensure_indexed x e" ss x] assms(2) ArrayAppend by (simp add: array_append_def fits_def)
next
  case (ArraySet x k s)
  then show ?thesis using array_set_exact assms by simp
next
  case (ArrayUnset x k)
  have "env_holds 0 (e\<lparr>se_arrays := fst (unset_element x key (se_arrays e))\<rparr>)" for key
    using unset_element_exact [of "se_arrays e" x key] assms by (simp add: env_holds_def fits_def env_total_def)
  then show ?thesis using ArrayUnset assms(1)
    by (simp add: array_unset_elem_def Let_def split: option.split array_val.split)
next
  case (SetPositional ss)
  then show ?thesis using assms positional_from_exact [of ss] by (simp add: env_holds_def fits_def pos_replace_def)
next
  case (Shift n)
  then show ?thesis using assms pos_shift_exact [of "se_positional e" n] by (simp add: env_holds_def fits_def env_total_def)
next
  case (Export x)
  then show ?thesis using assms(1) by (simp add: export_var_def)
next
  case (CallFunction body)
  then show ?thesis using assms(1) by simp
qed

lemma env_run_cons: "env_run (oper # ops) e = env_run ops (env_run [oper] e)"
  by simp

lemma env_run_exact: "env_holds 0 e \<Longrightarrow> affordable ops e \<Longrightarrow> env_holds 0 (env_run ops e)"
proof (induction ops e rule: env_run.induct)
  case (2 oper ops e)
  have "env_holds 0 (env_run [oper] e)"
  proof (cases "\<exists>body. oper = CallFunction body")
    case True
    then obtain body where oper: "oper = CallFunction body" by blast
    have "env_holds 0 (enter_function_scope e)"
      using 2(3) by (simp add: env_holds_def enter_function_scope_def saved_size_def)
    then have "env_holds 0 (env_run body (enter_function_scope e))" using 2(1) [OF oper] 2(4) oper by simp
    then show ?thesis using leave_exact 2(4) by (simp add: oper)
  next
    case False
    then have "env_run [oper] e = env_step oper e" by (cases oper) simp_all
    then show ?thesis using env_step_exact 2(3,4) by simp
  qed
  then show ?case using 2(2,4) by simp
qed simp

text \<open>C36. The running byte estimates are exact: after any sequence of variable, array, parameter and
  function operations that starts in a fresh environment, every estimate equals the recount of what is
  stored, as long as the state and the operands of each step stay below half the range of the counters;
  so charging the estimate charges the real size.\<close>

theorem variable_bytes_exact:
  assumes "affordable ops boot_env"
  shows "let e = env_run ops boot_env in
     unat (v_bytes (se_vars e)) = variables_size (se_vars e) \<and> unat (a_bytes (se_arrays e)) = arrays_size (se_arrays e)
     \<and> unat (pos_bytes (se_positional e)) = positional_size (se_positional e)
     \<and> unat (local_saved_bytes e) = saved_size (local_scopes e)"
proof -
  have "env_holds 0 boot_env"
    by (simp add: env_holds_def boot_env_def positional_from_exact saved_size_def)
  then have "env_holds 0 (env_run ops boot_env)" using assms by (rule env_run_exact)
  then show ?thesis by (simp add: env_holds_def v_exact_def a_exact_def pos_exact_def Let_def)
qed

lemma variable_bytes_exact_witness:
  "unat (v_bytes (se_vars (env_run [SetVar ''x'' ''abc'', SetVar ''x'' ''d''] boot_env))) = 98"
proof -
  let ?ops = "[SetVar ''x'' ''abc'', SetVar ''x'' ''d'']" and ?e = "set_var ''x'' ''abc'' boot_env"
  have e: "v_values (se_vars ?e) = om_insert ''x'' ''abc'' om_empty" "a_values (se_arrays ?e) = om_empty" "local_scopes ?e = []"
      "pos_values (se_positional ?e) = []"
    by (simp_all add: set_var_def Let_def insert_var_def remove_array_def v_insert_def a_remove_def boot_env_def no_variables_def no_arrays_def positional_from_def)
  have "env_total boot_env = 0"
    by (simp add: env_total_def variables_size_def arrays_size_def positional_size_def saved_size_def boot_env_def no_variables_def no_arrays_def positional_from_def)
  moreover have "env_total ?e = 100"
    by (simp add: env_total_def variables_size_def arrays_size_def positional_size_def e om_weight_singleton string_size_def saved_size_def)
  ultimately have "affordable ?ops boot_env" by (simp add: fits_def string_size_def)
  then have "unat (v_bytes (se_vars (env_run ?ops boot_env))) = variables_size (se_vars (env_run ?ops boot_env))"
    using variable_bytes_exact [of ?ops] by (simp add: Let_def del: env_run.simps)
  also have "v_values (se_vars (env_run ?ops boot_env)) = om_insert ''x'' ''d'' om_empty"
    by (simp add: set_var_def [of _ "''d''"] Let_def insert_var_def remove_array_def v_insert_def e)
  then have "variables_size (se_vars (env_run ?ops boot_env)) = 98" by (simp only: variables_size_def om_weight_singleton) (simp add: string_size_def)
  finally show ?thesis .
qed

section \<open>Arithmetic over shell variables\<close>

definition arith_names :: "string set" where
  "arith_names = {x. is_name x} - {''PPID'', ''BASHPID'', ''RANDOM''}"

definition content_value :: "string option \<Rightarrow> i64" where
  "content_value c = (case c of None \<Rightarrow> 0 | Some s \<Rightarrow> if trim s = [] then 0
     else (case parse_i64 (trim s) of Some i \<Rightarrow> word_of_int i | None \<Rightarrow> 0))"

definition numeric :: "string option \<Rightarrow> bool" where
  "numeric c \<longleftrightarrow> (case c of None \<Rightarrow> True | Some s \<Rightarrow> trim s = [] \<or> parse_i64 (trim s) \<noteq> None)"

definition env_value :: "string set \<Rightarrow> shell_env \<Rightarrow> string \<Rightarrow> i64" where
  "env_value N e x = (if x \<in> N then content_value (snd (get_var e x)) else 0)"

definition numeric_env :: "string set \<Rightarrow> shell_env \<Rightarrow> bool" where
  \<comment> \<open>the names are ordinary variables that may be written and hold numbers or nothing\<close>
  "numeric_env N e \<longleftrightarrow> N \<subseteq> arith_names \<and> N \<inter> se_readonly e = {} \<and> \<not> opt_nounset e \<and> (\<forall>x\<in>N. numeric (snd (get_var e x)))"

lemma name_not_number:
  assumes "is_name x" shows "parse_usize x = None"
proof -
  obtain c cs where x: "x = c # cs" "\<not> is_ascii_digit c" "c \<notin> set ''-+!~(''" using name_start [OF assms] by blast
  then show ?thesis by (simp add: parse_usize_def parse_below_def parse_digits_def)
qed

lemma get_var_name:
  assumes "x \<in> arith_names"
  shows "get_var e x = (e, if x = ''PWD'' then Some (se_cwd e)
     else if om_contains (a_values (se_arrays e)) x then Some (case array_get e x ''0'' of Some s \<Rightarrow> s | None \<Rightarrow> [])
     else om_lookup (v_values (se_vars e)) x)"
proof -
  have n: "is_name x" "x \<noteq> ''PPID''" "x \<noteq> ''BASHPID''" "x \<noteq> ''RANDOM''" using assms by (auto simp: arith_names_def)
  obtain c cs where c: "x = c # cs" "is_ascii_alphabetic c \<or> c = CHR ''_''" using name_start [OF n(1)] by blast
  have "x \<noteq> ''?''" "x \<noteq> ''$''" "x \<noteq> ''#''" "x \<noteq> ''@''" "x \<noteq> ''*''" using c by (auto simp: is_ascii_alphabetic_def)
  then show ?thesis using n name_not_number [OF n(1)] unfolding get_var_def by (simp only: if_False option.case) simp
qed

lemma set_var_fields:
  assumes "x \<in> arith_names"
  shows "v_values (se_vars (set_var x s e)) = om_insert x s (v_values (se_vars e))"
    "a_values (se_arrays (set_var x s e)) = om_remove x (a_values (se_arrays e))"
    "se_cwd (set_var x s e) = (if x = ''PWD'' then s else se_cwd e)"
    "se_readonly (set_var x s e) = se_readonly e" "opt_nounset (set_var x s e) = opt_nounset e"
  using assms by (auto simp: arith_names_def set_var_def Let_def insert_var_def remove_array_def v_insert_def a_remove_def)

lemma get_after_set:
  assumes "x \<in> arith_names" "y \<in> arith_names"
  shows "snd (get_var (set_var x s e) y) = (if y = x then Some s else snd (get_var e y))"
proof -
  have "array_get (set_var x s e) y k = array_get e y k" if "y \<noteq> x" for k
    using that by (simp add: array_get_def set_var_fields [OF assms(1)])
  then show ?thesis
    by (simp add: get_var_name [OF assms(2)] set_var_fields [OF assms(1)] om_lookup_insert om_lookup_remove)
qed

lemma number_stored: "numeric (Some (show_int (sint v)))" "content_value (Some (show_int (sint v))) = v"
proof -
  have "parse_i64 (show_int (sint v)) = Some (sint v)"
    using sint_greater_eq [of v] sint_less [of v] by (intro parse_show_int) simp_all
  moreover have "show_int i \<noteq> []" for i by (simp add: show_int_def decimal_nonempty)
  ultimately show "numeric (Some (show_int (sint v)))" "content_value (Some (show_int (sint v))) = v"
    by (simp_all add: numeric_def content_value_def show_int_trim)
qed

lemma value_content: "numeric c \<Longrightarrow> value_of c (content_value c)"
  by (auto simp: numeric_def content_value_def value_of_def split: option.splits)

interpretation shell: integer_store shell_arith "numeric_env N" "env_value N" N for N
proof
  fix e x assume e: "numeric_env N e" and x: "x \<in> N"
  then have "x \<in> arith_names" by (auto simp: numeric_env_def)
  then have "fst (get_var e x) = e" by (simp add: get_var_name)
  then show "\<exists>c. arith_get shell_arith e x = (e, Ok c) \<and> value_of c (env_value N e x)"
    using e x value_content [of "snd (get_var e x)"]
    by (cases "get_var e x") (auto simp: shell_arith_def shell_arith_get_def env_value_def numeric_env_def split: option.splits)
next
  fix e x and v :: i64 assume e: "numeric_env N e" and x: "x \<in> N"
  let ?e = "set_var x (show_int (sint v)) e"
  have names: "x \<in> arith_names" "\<And>y. y \<in> N \<Longrightarrow> y \<in> arith_names" using e x by (auto simp: numeric_env_def)
  have "arith_set shell_arith e x v = (?e, Ok ())" using e x by (auto simp: shell_arith_def shell_arith_set_def numeric_env_def)
  moreover have "numeric_env N ?e"
    using e get_after_set [OF names(1) names(2)] number_stored(1) by (auto simp: numeric_env_def set_var_fields [OF names(1)])
  moreover have "env_value N ?e = (env_value N e)(x := v)"
    using x get_after_set [OF names(1) names(2)] number_stored(2) by (auto simp: env_value_def fun_eq_iff)
  ultimately show "\<exists>e'. arith_set shell_arith e x v = (e', Ok ()) \<and> numeric_env N e' \<and> env_value N e' = (env_value N e)(x := v)"
    by blast
qed

text \<open>C34. Arithmetic over shell variables implements the language, for expressions over scalar variables (no
  array subscripts) nested at most \<open>MAX_NESTING\<close> deep, in a shell without \<open>nounset\<close> whose variables of the
  expression are ordinary and writable, and unset, blank or a decimal integer: any text of such an expression, with the precedence and
  associativity of the grammar and blanks anywhere, evaluates to the value of the expression on 64-bit integers, sets
  the variables that it assigns in the order of evaluation, skips the operands that are not selected, and fails exactly
  when the expression divides by zero or has a negative exponent; the evaluation ends and leaves the variables as
  the hypothesis has them, so that it applies again.\<close>

theorem shell_arithmetic_meaning:
  assumes "written k e s" "nesting e \<le> MAX_NESTING" "vars_of e \<subseteq> N" "numeric_env N st" "blanks w1" "blanks w2"
  shows "\<exists>n st' r. (\<forall>k. evaluate shell_arith (n + k) st (w1 @ s @ w2) = Some (st', r)) \<and> numeric_env N st'
    \<and> sem e (env_value N st) = (env_value N st', case r of Ok v \<Rightarrow> Some v | _ \<Rightarrow> None) \<and> r \<noteq> Panic"
  using assms by (intro shell.evaluates)

lemma written_example: "written 2 (AssignE ''x'' [] (Bin ''-'' (Num 7) (Bin ''*'' (Var ''x'') (Num 2)))) ''x=7-x * 2''"
proof -
  have num: "written 17 (Num 7) ''7''" "written 17 (Num 2) ''2''"
    by (rule written.num, simp add: constant_text_def parse_constant_def constant_base_def split_once_hash_def
        starts_with_def char_value_def is_ascii_digit_def)+
  have x: "is_name ''x''" by (simp add: is_name_def is_ascii_alphabetic_def)
  have "written (6 + 7) (Bin ''*'' (Var ''x'') (Num 2)) (''x'' @ '' '' @ ''*'' @ '' 2'')"
    by (rule written.bin [OF written.var [OF x] num(2)])
      (simp_all add: LEVELS_def blanks_def is_whitespace_def behind_def clear_of_def MULTI_CHAR_OPERATORS_def longer_operators_def starts_with_def
        exI [of _ "'' ''"])
  then have "written 13 (Bin ''*'' (Var ''x'') (Num 2)) ''x * 2''" by simp
  then have "written (6 + 6) (Bin ''-'' (Num 7) (Bin ''*'' (Var ''x'') (Num 2))) (''7'' @ [] @ ''-'' @ ''x * 2'')"
    by (rule written.bin [OF num(1)])
      (simp_all add: LEVELS_def blanks_def behind_def clear_of_def MULTI_CHAR_OPERATORS_def longer_operators_def starts_with_def)
  then have "written 12 (Bin ''-'' (Num 7) (Bin ''*'' (Var ''x'') (Num 2))) ''7-x * 2''" by simp
  then have "written 2 (AssignE ''x'' [] (Bin ''-'' (Num 7) (Bin ''*'' (Var ''x'') (Num 2)))) (''x'' @ [] @ [] @ ''='' @ ''7-x * 2'')"
    by (rule written.assign [OF x])
      (simp_all add: ASSIGNMENT_OPERATORS_def blanks_def behind_def clear_of_def MULTI_CHAR_OPERATORS_def longer_operators_def starts_with_def)
  then show ?thesis by simp
qed

lemma shell_arithmetic_meaning_witness:
  "\<exists>n st'. evaluate shell_arith n boot_env '' x=7-x * 2'' = Some (st', Ok 7) \<and> env_value {''x''} st' ''x'' = 7"
proof -
  let ?e = "AssignE ''x'' [] (Bin ''-'' (Num 7) (Bin ''*'' (Var ''x'') (Num 2)))"
  have env: "numeric_env {''x''} boot_env" "env_value {''x''} boot_env = (\<lambda>_. 0)"
  proof -
    have x: "''x'' \<in> arith_names" by (simp add: arith_names_def is_name_def is_ascii_alphabetic_def)
    then have "snd (get_var boot_env ''x'') = None"
      by (simp add: get_var_name boot_env_def no_arrays_def no_variables_def)
    then show "numeric_env {''x''} boot_env" "env_value {''x''} boot_env = (\<lambda>_. 0)"
      using x by (auto simp: numeric_env_def numeric_def env_value_def content_value_def fun_eq_iff) (simp_all add: boot_env_def)
  qed
  have "sem ?e (env_value {''x''} boot_env) = ((\<lambda>_. 0)(''x'' := 7), Some 7)"
    by (simp add: env seq_def wrapped_def int_op_def)
  moreover obtain n st' r where run: "\<forall>k. evaluate shell_arith (n + k) boot_env ('' '' @ ''x=7-x * 2'' @ []) = Some (st', r)"
      "sem ?e (env_value {''x''} boot_env) = (env_value {''x''} st', case r of Ok v \<Rightarrow> Some v | _ \<Rightarrow> None)"
    using shell_arithmetic_meaning [OF written_example _ _ env(1), of "'' ''" "[]"]
    by (auto simp: blanks_def is_whitespace_def MAX_NESTING_def)
  ultimately have "env_value {''x''} st' = (\<lambda>_. 0)(''x'' := 7)" "(case r of Ok v \<Rightarrow> Some v | _ \<Rightarrow> None) = Some 7" by simp_all
  then have "r = Ok 7" "env_value {''x''} st' ''x'' = 7" by (simp_all split: outcome.splits)
  moreover have "evaluate shell_arith n boot_env '' x=7-x * 2'' = Some (st', r)" using run(1) [rule_format, of 0] by simp
  ultimately show ?thesis by blast
qed

section \<open>Subscripts of sparse arrays\<close>

lemma negative_subscript_of_sparse_array:
  assumes "om_lookup (a_values (se_arrays e)) x = Some (Indexed (om_insert 5 s om_empty))"
  shows "resolve_array_index e x (- 1) = (e, Ok 0)" "end_index (Indexed (om_insert 5 s om_empty)) = 6"
proof -
  show "resolve_array_index e x (- 1) = (e, Ok 0)"
    using assms by (simp add: resolve_array_index_def subscript_base_def om_size_insert Let_def)
  have "om_keys (om_insert 5 s om_empty) = [5 :: u64]" unfolding om_keys_def by transfer simp
  then show "end_index (Indexed (om_insert 5 s om_empty)) = 6" by (simp add: end_index_def saturating_add_def)
qed

lemma scalar_subscript_reads_nothing:
  assumes "om_lookup (a_values (se_arrays e)) x = None" "x \<in> arith_names" "x \<noteq> ''PWD''" "om_lookup (v_values (se_vars e)) x = Some s" "\<not> opt_nounset e"
  shows "resolve_array_index e x (- 1) = (e, Ok 0)" "shell_arith_get_element e x (- 1) = (e, Ok None)"
  using assms by (simp_all add: shell_arith_get_element_def resolve_array_index_def subscript_base_def get_var_name array_get_def Let_def)

end
