(* ===== verification/Telemetry.thy ===== *)
theory Telemetry
  imports Process
begin

text \<open>
  The telemetry logs of \<open>src/src/telemetry.rs\<close>: \<open>text_log\<close> is \<open>BoundedTextLog\<close>, which keeps its first
  window, and \<open>invocation_log\<close> is \<open>InvocationLog\<close>, which drops its oldest records and keeps, per
  process, a stack of the sequence numbers of the invocations that have not finished.

  Shown: both logs stay within their bounds and account for every byte and every record
  (\<open>window_inv\<close>), and completing an invocation through the stack and the position computed from its
  sequence number is the same as scanning the window for the last unfinished invocation of the
  process (\<open>index_inv\<close>), as long as no record was too large to be kept. A record that is too large
  uses up a sequence number, after which the computed position is wrong
  (\<open>oversized_record_loses_completion\<close>).
\<close>

section \<open>The text log\<close>

definition MAX_INVOCATION_EVENTS :: nat where "MAX_INVOCATION_EVENTS = 4096"

definition MAX_INVOCATION_BYTES :: u64 where "MAX_INVOCATION_BYTES = 4 * 1024 * 1024"

definition MAX_TEXT_EVENTS :: nat where "MAX_TEXT_EVENTS = 4096"

definition MAX_TEXT_BYTES :: u64 where "MAX_TEXT_BYTES = 1024 * 1024"

record text_log =
  tl_entries :: "string list"
  tl_modeled_bytes :: u64
  tl_dropped :: u64

definition empty_text_log :: text_log where
  "empty_text_log = \<lparr>tl_entries = [], tl_modeled_bytes = 0, tl_dropped = 0\<rparr>"

definition record_text :: "text_log \<Rightarrow> string \<Rightarrow> text_log" where
  "record_text l v =
     (if MAX_TEXT_EVENTS \<le> length (tl_entries l) \<or> len64 v > MAX_TEXT_BYTES
         \<or> saturating_add (tl_modeled_bytes l) (len64 v) > MAX_TEXT_BYTES
      then l\<lparr>tl_dropped := saturating_add (tl_dropped l) 1\<rparr>
      else l\<lparr>tl_entries := tl_entries l @ [v],
             tl_modeled_bytes := saturating_add (tl_modeled_bytes l) (len64 v)\<rparr>)"

definition values_since :: "text_log \<Rightarrow> nat \<Rightarrow> string list" where
  "values_since l start = drop start (tl_entries l)"

section \<open>The invocation log\<close>

datatype command_trust = Real | Partial | Unsupported

record invocation_event =
  ie_sequence :: u64
  ie_pid :: process_id
  ie_argv :: "string list"
  ie_trust :: command_trust
  ie_status :: "u32 option"
  ie_cpu :: "u64 option"
  ie_disk_delta :: "u64 option"
  ie_unsupported_reason :: "string option"

record retained_invocation =
  ri_event :: invocation_event
  ri_cpu_before :: u64
  ri_disk_before :: u64
  ri_modeled_bytes :: u64

record invocation_log =
  il_events :: "retained_invocation list"
  il_open :: "(process_id, u64 list) omap"
  il_modeled_bytes :: u64
  il_next_sequence :: u64
  il_dropped :: u64

definition empty_invocation_log :: invocation_log where
  "empty_invocation_log = \<lparr>il_events = [], il_open = om_empty, il_modeled_bytes = 0,
     il_next_sequence = 0, il_dropped = 0\<rparr>"

abbreviation seq_of :: "retained_invocation \<Rightarrow> u64" where
  "seq_of e \<equiv> ie_sequence (ri_event e)"

abbreviation pid_of :: "retained_invocation \<Rightarrow> process_id" where
  "pid_of e \<equiv> ie_pid (ri_event e)"

text \<open>The difference of two counters, computed in \<open>i128\<close> and clamped to \<open>i64\<close>.\<close>

definition signed_delta :: "u64 \<Rightarrow> u64 \<Rightarrow> u64" where
  "signed_delta after before =
     word_of_int (max (- (2 ^ 63)) (min (2 ^ 63 - 1) (uint after - uint before)))"

definition invocation_bytes :: "string list \<Rightarrow> string option \<Rightarrow> u64" where
  "invocation_bytes argv reason =
     saturating_add (foldl (\<lambda>n v. saturating_add n (len64 v)) 128 argv)
       (case reason of None \<Rightarrow> 0 | Some r \<Rightarrow> len64 r)"

definition forget_open :: "invocation_log \<Rightarrow> process_id \<Rightarrow> u64 \<Rightarrow> invocation_log" where
  "forget_open l pid sequence =
     (case om_lookup (il_open l) pid of
        None \<Rightarrow> l
      | Some s \<Rightarrow>
          (let s' = retain (\<lambda>candidate. candidate \<noteq> sequence) s
           in if s' = [] then l\<lparr>il_open := om_remove pid (il_open l)\<rparr>
              else l\<lparr>il_open := om_insert pid s' (il_open l)\<rparr>))"

lemma forget_open_events [simp]: "il_events (forget_open l pid s) = il_events l"
  by (auto simp: forget_open_def Let_def split: option.splits)

text \<open>The loop of \<open>begin\<close> that makes room; an empty window ends it.\<close>

function make_room :: "invocation_log \<Rightarrow> u64 \<Rightarrow> invocation_log" where
  "make_room l n =
     (if MAX_INVOCATION_EVENTS \<le> length (il_events l)
         \<or> saturating_add (il_modeled_bytes l) n > MAX_INVOCATION_BYTES
      then (case il_events l of
              [] \<Rightarrow> l
            | e # es \<Rightarrow>
                (let l' = l\<lparr>il_events := es,
                            il_modeled_bytes := saturating_sub (il_modeled_bytes l) (ri_modeled_bytes e),
                            il_dropped := saturating_add (il_dropped l) 1\<rparr>
                 in make_room (if ie_status (ri_event e) = None
                               then forget_open l' (pid_of e) (seq_of e) else l') n))
      else l)"
  by pat_completeness auto
termination
  by (relation "measure (\<lambda>(l, n). length (il_events l))") auto

declare make_room.simps [simp del]

definition begin_invocation :: "invocation_log \<Rightarrow> process_id \<Rightarrow> string list \<Rightarrow> command_trust
    \<Rightarrow> string option \<Rightarrow> u64 \<Rightarrow> u64 \<Rightarrow> invocation_log" where
  "begin_invocation l pid argv trust reason cpu_before disk_before =
     (case checked_add (il_next_sequence l) 1 of
        None \<Rightarrow> l\<lparr>il_dropped := saturating_add (il_dropped l) 1\<rparr>
      | Some sequence \<Rightarrow>
          (let current_sequence = il_next_sequence l;
               l1 = l\<lparr>il_next_sequence := sequence\<rparr>;
               n = invocation_bytes argv reason
           in if n > MAX_INVOCATION_BYTES
              then l1\<lparr>il_dropped := saturating_add (il_dropped l1) 1\<rparr>
              else let l2 = make_room l1 n
                   in l2\<lparr>il_modeled_bytes := saturating_add (il_modeled_bytes l2) n,
                         il_open := om_insert pid
                           ((case om_lookup (il_open l2) pid of None \<Rightarrow> [] | Some s \<Rightarrow> s)
                              @ [current_sequence]) (il_open l2),
                         il_events := il_events l2 @
                           [\<lparr>ri_event = \<lparr>ie_sequence = current_sequence, ie_pid = pid, ie_argv = argv,
                               ie_trust = trust, ie_status = None, ie_cpu = None,
                               ie_disk_delta = None, ie_unsupported_reason = reason\<rparr>,
                             ri_cpu_before = cpu_before, ri_disk_before = disk_before,
                             ri_modeled_bytes = n\<rparr>]\<rparr>))"

definition complete :: "u32 \<Rightarrow> u64 \<Rightarrow> u64 \<Rightarrow> retained_invocation \<Rightarrow> retained_invocation" where
  "complete status cpu_after disk_after e =
     e\<lparr>ri_event := (ri_event e)\<lparr>ie_status := Some status,
        ie_cpu := Some (saturating_sub cpu_after (ri_cpu_before e)),
        ie_disk_delta := Some (signed_delta disk_after (ri_disk_before e))\<rparr>\<rparr>"

definition finish_sequence :: "u32 \<Rightarrow> u64 \<Rightarrow> u64 \<Rightarrow> u64 \<Rightarrow> invocation_log \<Rightarrow> invocation_log" where
  "finish_sequence status cpu_after disk_after sequence l =
     (case il_events l of
        [] \<Rightarrow> l
      | first # _ \<Rightarrow>
          (case checked_sub sequence (seq_of first) of
             None \<Rightarrow> l
           | Some offset \<Rightarrow>
               if unat offset < length (il_events l) \<and> seq_of (il_events l ! unat offset) = sequence
               then l\<lparr>il_events := (il_events l)[unat offset :=
                        complete status cpu_after disk_after (il_events l ! unat offset)]\<rparr>
               else l))"

definition finish_latest :: "invocation_log \<Rightarrow> process_id \<Rightarrow> u32 \<Rightarrow> u64 \<Rightarrow> u64 \<Rightarrow> invocation_log" where
  "finish_latest l pid status cpu_after disk_after =
     (case om_lookup (il_open l) pid of
        None \<Rightarrow> l
      | Some s \<Rightarrow>
          if s = [] then l
          else finish_sequence status cpu_after disk_after (last s)
                 (l\<lparr>il_open := if butlast s = [] then om_remove pid (il_open l)
                              else om_insert pid (butlast s) (il_open l)\<rparr>))"

definition finish_process :: "invocation_log \<Rightarrow> process_id \<Rightarrow> u32 \<Rightarrow> u64 \<Rightarrow> u64 \<Rightarrow> invocation_log" where
  "finish_process l pid status cpu_after disk_after =
     fold (finish_sequence status cpu_after disk_after)
       (case om_lookup (il_open l) pid of None \<Rightarrow> [] | Some s \<Rightarrow> s)
       (l\<lparr>il_open := om_remove pid (il_open l)\<rparr>)"

definition log_events :: "invocation_log \<Rightarrow> invocation_event list" where
  "log_events l = map ri_event (il_events l)"

definition events_since :: "invocation_log \<Rightarrow> u64 \<Rightarrow> invocation_event list" where
  "events_since l sequence = map ri_event (filter (\<lambda>e. sequence \<le> seq_of e) (il_events l))"

section \<open>Sequences of calls\<close>

datatype log_op =
    Begin process_id "string list" command_trust "string option" u64 u64
  | Finish_Latest process_id u32 u64 u64
  | Finish_Process process_id u32 u64 u64

fun run_log_op :: "invocation_log \<Rightarrow> log_op \<Rightarrow> invocation_log \<times> unit" where
  "run_log_op l (Begin pid argv trust reason cpu disk) =
     (begin_invocation l pid argv trust reason cpu disk, ())"
| "run_log_op l (Finish_Latest pid status cpu disk) = (finish_latest l pid status cpu disk, ())"
| "run_log_op l (Finish_Process pid status cpu disk) = (finish_process l pid status cpu disk, ())"

fun is_begin :: "log_op \<Rightarrow> bool" where
  "is_begin (Begin pid argv trust reason cpu disk) = True"
| "is_begin op = False"

text \<open>A call whose record is small enough to be kept.\<close>

fun keepable :: "log_op \<Rightarrow> bool" where
  "keepable (Begin pid argv trust reason cpu disk) = (invocation_bytes argv reason \<le> MAX_INVOCATION_BYTES)"
| "keepable op = True"

section \<open>The window\<close>

definition retained_bytes :: "invocation_log \<Rightarrow> nat" where
  "retained_bytes l = sum_list (map (\<lambda>e. unat (ri_modeled_bytes e)) (il_events l))"

definition window_inv :: "invocation_log \<Rightarrow> bool" where
  "window_inv l \<longleftrightarrow> length (il_events l) \<le> MAX_INVOCATION_EVENTS
     \<and> unat (il_modeled_bytes l) = retained_bytes l
     \<and> il_modeled_bytes l \<le> MAX_INVOCATION_BYTES
     \<and> sorted_wrt (<) (map seq_of (il_events l))
     \<and> (\<forall>e \<in> set (il_events l). seq_of e < il_next_sequence l)"

text \<open>The outcome of making room: the records dropped are a prefix of the window, each counted.\<close>

lemma forget_open_fields [simp]:
  "il_modeled_bytes (forget_open l pid s) = il_modeled_bytes l"
  "il_next_sequence (forget_open l pid s) = il_next_sequence l"
  "il_dropped (forget_open l pid s) = il_dropped l"
  by (auto simp: forget_open_def Let_def split: option.splits)

definition drop_oldest :: "invocation_log \<Rightarrow> invocation_log" where
  "drop_oldest l =
     (let e = hd (il_events l);
          l' = l\<lparr>il_events := tl (il_events l),
                 il_modeled_bytes := saturating_sub (il_modeled_bytes l) (ri_modeled_bytes e),
                 il_dropped := saturating_add (il_dropped l) 1\<rparr>
      in if ie_status (ri_event e) = None then forget_open l' (pid_of e) (seq_of e) else l')"

lemma drop_oldest_fields [simp]:
  "il_events (drop_oldest l) = tl (il_events l)"
  "il_modeled_bytes (drop_oldest l)
     = saturating_sub (il_modeled_bytes l) (ri_modeled_bytes (hd (il_events l)))"
  "il_next_sequence (drop_oldest l) = il_next_sequence l"
  "il_dropped (drop_oldest l) = saturating_add (il_dropped l) 1"
  by (simp_all add: drop_oldest_def Let_def)

lemma make_room_step: "make_room l n =
  (if il_events l \<noteq> [] \<and> (MAX_INVOCATION_EVENTS \<le> length (il_events l)
        \<or> saturating_add (il_modeled_bytes l) n > MAX_INVOCATION_BYTES)
   then make_room (drop_oldest l) n else l)"
  by (subst make_room.simps) (simp add: drop_oldest_def Let_def split: list.splits)

text \<open>What dropping the oldest record keeps, making room keeps.\<close>

lemma make_room_induct:
  assumes "I l" "\<And>l. I l \<Longrightarrow> il_events l \<noteq> [] \<Longrightarrow> I (drop_oldest l)"
  shows "I (make_room l n)"
  using assms(1)
proof (induction "length (il_events l)" arbitrary: l rule: less_induct)
  case less
  show ?case
  proof (cases "il_events l \<noteq> [] \<and> (MAX_INVOCATION_EVENTS \<le> length (il_events l)
        \<or> saturating_add (il_modeled_bytes l) n > MAX_INVOCATION_BYTES)")
    case True
    then have "length (il_events (drop_oldest l)) < length (il_events l)" by simp
    from less.hyps [OF this assms(2) [OF less.prems]] True show ?thesis
      by (subst make_room_step) simp
  next
    case False
    then show ?thesis using less.prems by (subst make_room_step) (simp only: if_False)
  qed
qed

lemma make_room_exit:
  "il_events (make_room l n) = [] \<or> length (il_events (make_room l n)) < MAX_INVOCATION_EVENTS
     \<and> saturating_add (il_modeled_bytes (make_room l n)) n \<le> MAX_INVOCATION_BYTES"
proof (induction "length (il_events l)" arbitrary: l rule: less_induct)
  case less
  show ?case
  proof (cases "il_events l \<noteq> [] \<and> (MAX_INVOCATION_EVENTS \<le> length (il_events l)
        \<or> saturating_add (il_modeled_bytes l) n > MAX_INVOCATION_BYTES)")
    case True
    then have "length (il_events (drop_oldest l)) < length (il_events l)" by simp
    from less.hyps [OF this] True show ?thesis by (subst (1 2 3) make_room_step) simp
  next
    case False
    then show ?thesis by (subst (1 2 3) make_room_step) (simp only: if_False, auto)
  qed
qed

lemma window_inv_drop: "window_inv l \<Longrightarrow> il_events l \<noteq> [] \<Longrightarrow> window_inv (drop_oldest l)"
  by (cases "il_events l")
    (auto simp: window_inv_def retained_bytes_def rust_arith word_le_nat_alt)

lemma make_room_window: "window_inv l \<Longrightarrow> window_inv (make_room l n)"
  by (rule make_room_induct [where I = window_inv]) (auto intro: window_inv_drop)

lemma make_room_next [simp]: "il_next_sequence (make_room l n) = il_next_sequence l"
  by (rule make_room_induct [where I = "\<lambda>l'. il_next_sequence l' = il_next_sequence l"]) simp_all

lemma make_room_fits:
  assumes "window_inv l" "n \<le> MAX_INVOCATION_BYTES"
  shows "length (il_events (make_room l n)) < MAX_INVOCATION_EVENTS
    \<and> unat (il_modeled_bytes (make_room l n)) + unat n \<le> unat MAX_INVOCATION_BYTES"
proof -
  let ?l = "make_room l n"
  have inv: "window_inv ?l" by (rule make_room_window [OF assms(1)])
  have n: "unat n \<le> 4194304" using assms(2) by (simp add: word_le_nat_alt MAX_INVOCATION_BYTES_def)
  show ?thesis
  proof (cases "il_events ?l = []")
    case True
    then show ?thesis using inv n
      by (simp add: window_inv_def retained_bytes_def MAX_INVOCATION_EVENTS_def MAX_INVOCATION_BYTES_def)
  next
    case False
    then show ?thesis using make_room_exit [of l n] inv n
      by (auto simp: word_le_nat_alt rust_arith window_inv_def MAX_INVOCATION_BYTES_def)
  qed
qed

text \<open>A record is kept or dropped, never lost: with \<open>k\<close> invocations begun, the dropped count is what
  the window does not hold (saturating at the largest \<open>u64\<close>).\<close>

definition accounted :: "nat \<Rightarrow> invocation_log \<Rightarrow> bool" where
  "accounted k l \<longleftrightarrow> length (il_events l) \<le> k
     \<and> unat (il_dropped l) = min (k - length (il_events l)) (2 ^ 64 - 1)"

lemma accounted_drop: "accounted k l \<Longrightarrow> il_events l \<noteq> [] \<Longrightarrow> accounted k (drop_oldest l)"
  by (cases "il_events l") (auto simp: accounted_def rust_arith)

lemma make_room_accounted: "accounted k l \<Longrightarrow> accounted k (make_room l n)"
  by (rule make_room_induct [where I = "accounted k"]) (auto intro: accounted_drop)

text \<open>The cases of \<open>begin\<close>: the sequence numbers are used up, the record is too large, or it is
  appended after making room.\<close>

definition fresh_invocation :: "u64 \<Rightarrow> process_id \<Rightarrow> string list \<Rightarrow> command_trust \<Rightarrow> string option
    \<Rightarrow> u64 \<Rightarrow> u64 \<Rightarrow> retained_invocation" where
  "fresh_invocation sequence pid argv trust reason cpu disk =
     \<lparr>ri_event = \<lparr>ie_sequence = sequence, ie_pid = pid, ie_argv = argv, ie_trust = trust,
        ie_status = None, ie_cpu = None, ie_disk_delta = None, ie_unsupported_reason = reason\<rparr>,
      ri_cpu_before = cpu, ri_disk_before = disk, ri_modeled_bytes = invocation_bytes argv reason\<rparr>"

lemma fresh_invocation_fields [simp]:
  "seq_of (fresh_invocation s pid argv trust reason cpu disk) = s"
  "pid_of (fresh_invocation s pid argv trust reason cpu disk) = pid"
  "ie_status (ri_event (fresh_invocation s pid argv trust reason cpu disk)) = None"
  "ri_modeled_bytes (fresh_invocation s pid argv trust reason cpu disk) = invocation_bytes argv reason"
  by (simp_all add: fresh_invocation_def)

lemma begin_cases:
  obtains (numbers_used_up) "il_next_sequence l = u64_max"
      "begin_invocation l pid argv trust reason cpu disk = l\<lparr>il_dropped := saturating_add (il_dropped l) 1\<rparr>"
  | (too_large) "unat (il_next_sequence l + 1) = unat (il_next_sequence l) + 1"
      "MAX_INVOCATION_BYTES < invocation_bytes argv reason"
      "begin_invocation l pid argv trust reason cpu disk =
         l\<lparr>il_next_sequence := il_next_sequence l + 1, il_dropped := saturating_add (il_dropped l) 1\<rparr>"
  | (kept) l2 where "unat (il_next_sequence l + 1) = unat (il_next_sequence l) + 1"
      "invocation_bytes argv reason \<le> MAX_INVOCATION_BYTES"
      "l2 = make_room (l\<lparr>il_next_sequence := il_next_sequence l + 1\<rparr>) (invocation_bytes argv reason)"
      "begin_invocation l pid argv trust reason cpu disk =
         l2\<lparr>il_modeled_bytes := saturating_add (il_modeled_bytes l2) (invocation_bytes argv reason),
            il_open := om_insert pid ((case om_lookup (il_open l2) pid of None \<Rightarrow> [] | Some s \<Rightarrow> s)
               @ [il_next_sequence l]) (il_open l2),
            il_events := il_events l2
               @ [fresh_invocation (il_next_sequence l) pid argv trust reason cpu disk]\<rparr>"
proof (cases "checked_add (il_next_sequence l) 1")
  case None
  then have "unat (il_next_sequence l) = unat u64_max"
    using u64_bound [of "il_next_sequence l"] by (simp add: rust_arith)
  with None show thesis
    by (intro numbers_used_up) (simp_all add: begin_invocation_def word_unat_eq_iff)
next
  case (Some sequence)
  then have s: "sequence = il_next_sequence l + 1"
    by (simp add: checked_add_def split: if_splits)
  with Some have u: "unat (il_next_sequence l + 1) = unat (il_next_sequence l) + 1"
    by (simp add: rust_arith)
  show thesis
  proof (cases "MAX_INVOCATION_BYTES < invocation_bytes argv reason")
    case True
    then show thesis using Some s u by (intro too_large) (simp_all add: begin_invocation_def Let_def)
  next
    case False
    then show thesis using Some s u
      by (intro kept [OF u _ refl]) (simp_all add: begin_invocation_def Let_def fresh_invocation_def)
  qed
qed

lemma sequence_next: "unat (s + 1) = unat s + 1 \<Longrightarrow> a < s \<Longrightarrow> a < s + 1" for a s :: u64
  by (simp add: word_less_nat_alt)

lemma begin_window:
  assumes "window_inv l"
  shows "window_inv (begin_invocation l pid argv trust reason cpu disk)"
proof (cases rule: begin_cases [of l pid argv trust reason cpu disk])
  case (kept l2)
  have w: "window_inv (l\<lparr>il_next_sequence := il_next_sequence l + 1\<rparr>)"
    using assms kept(1) sequence_next by (auto simp: window_inv_def retained_bytes_def)
  have w2: "window_inv l2" unfolding kept(3) by (rule make_room_window [OF w])
  have old: "\<forall>e \<in> set (il_events l2). seq_of e < il_next_sequence l"
    unfolding kept(3) using assms
    by (intro make_room_induct [where I = "\<lambda>l'. \<forall>e \<in> set (il_events l'). seq_of e < il_next_sequence l"])
      (auto simp: window_inv_def dest: list.set_sel(2))
  have "il_next_sequence l2 = il_next_sequence l + 1" unfolding kept(3) by simp
  moreover have "il_next_sequence l < il_next_sequence l + 1"
    using kept(1) by (simp add: word_less_nat_alt)
  ultimately show ?thesis
    using w2 old make_room_fits [OF w kept(2)] unfolding kept(4) kept(3) [symmetric]
    by (auto simp: window_inv_def retained_bytes_def sorted_wrt_append rust_arith word_le_nat_alt
        MAX_INVOCATION_BYTES_def)
qed (use assms sequence_next in \<open>auto simp: window_inv_def retained_bytes_def\<close>)

lemma begin_accounted:
  assumes "accounted k l"
  shows "accounted (Suc k) (begin_invocation l pid argv trust reason cpu disk)"
proof (cases rule: begin_cases [of l pid argv trust reason cpu disk])
  case (kept l2)
  have "accounted k (l\<lparr>il_next_sequence := il_next_sequence l + 1\<rparr>)"
    using assms by (simp add: accounted_def)
  then have "accounted k l2" unfolding kept(3) by (rule make_room_accounted)
  then show ?thesis unfolding kept(4) by (auto simp: accounted_def)
qed (use assms in \<open>auto simp: accounted_def rust_arith\<close>)

section \<open>Completion\<close>

lemma complete_fields [simp]:
  "seq_of (complete status cpu disk e) = seq_of e"
  "pid_of (complete status cpu disk e) = pid_of e"
  "ri_modeled_bytes (complete status cpu disk e) = ri_modeled_bytes e"
  "ie_status (ri_event (complete status cpu disk e)) = Some status"
  by (simp_all add: complete_def)

lemma map_update_same: "i < length xs \<Longrightarrow> f (xs ! i) = f y \<Longrightarrow> map f (xs[i := y]) = map f xs"
  by (simp add: map_update list_update_same_conv)

text \<open>Completing one record changes nothing but that record.\<close>

lemma finish_sequence_cases:
  obtains (missed) "finish_sequence status cpu disk s l = l"
  | (hit) i where "i < length (il_events l)" "seq_of (il_events l ! i) = s"
      "finish_sequence status cpu disk s l
         = l\<lparr>il_events := (il_events l)[i := complete status cpu disk (il_events l ! i)]\<rparr>"
proof (cases "finish_sequence status cpu disk s l = l")
  case False
  then obtain e es offset where "il_events l = e # es" "checked_sub s (seq_of e) = Some offset"
      "unat offset < length (il_events l)" "seq_of (il_events l ! unat offset) = s"
    by (auto simp: finish_sequence_def split: list.splits option.splits if_splits)
  then show thesis by (intro hit [of "unat offset"]) (simp_all add: finish_sequence_def)
qed (rule missed)

lemma finish_sequence_fields [simp]:
  "il_open (finish_sequence status cpu disk s l) = il_open l"
  "il_modeled_bytes (finish_sequence status cpu disk s l) = il_modeled_bytes l"
  "il_next_sequence (finish_sequence status cpu disk s l) = il_next_sequence l"
  "il_dropped (finish_sequence status cpu disk s l) = il_dropped l"
  "length (il_events (finish_sequence status cpu disk s l)) = length (il_events l)"
  by (cases rule: finish_sequence_cases [of status cpu disk s l]; simp)+

lemma finish_sequence_maps [simp]:
  "map seq_of (il_events (finish_sequence status cpu disk s l)) = map seq_of (il_events l)"
  "map (\<lambda>e. unat (ri_modeled_bytes e)) (il_events (finish_sequence status cpu disk s l))
     = map (\<lambda>e. unat (ri_modeled_bytes e)) (il_events l)"
  by (cases rule: finish_sequence_cases [of status cpu disk s l]; simp add: map_update_same)+

lemma window_inv_sequences: "(\<forall>e \<in> set (il_events l). seq_of e < n) \<longleftrightarrow> (\<forall>s \<in> set (map seq_of (il_events l)). s < n)"
  by auto

lemma finish_sequence_window [simp]: "window_inv (finish_sequence status cpu disk s l) = window_inv l"
  unfolding window_inv_def window_inv_sequences retained_bytes_def by simp

lemma finish_sequence_accounted [simp]:
  "accounted k (finish_sequence status cpu disk s l) = accounted k l"
  by (simp add: accounted_def)

lemma fold_finish_sequence:
  "window_inv (fold (finish_sequence status cpu disk) ss l) = window_inv l"
  "accounted k (fold (finish_sequence status cpu disk) ss l) = accounted k l"
  by (induction ss arbitrary: l) simp_all

lemma finish_window:
  "window_inv l \<Longrightarrow> window_inv (finish_latest l pid status cpu disk)"
  "window_inv l \<Longrightarrow> window_inv (finish_process l pid status cpu disk)"
  by (simp_all add: finish_latest_def finish_process_def fold_finish_sequence split: option.splits)
    (simp_all add: window_inv_def retained_bytes_def)

lemma finish_accounted:
  "accounted k l \<Longrightarrow> accounted k (finish_latest l pid status cpu disk)"
  "accounted k l \<Longrightarrow> accounted k (finish_process l pid status cpu disk)"
  by (simp_all add: finish_latest_def finish_process_def fold_finish_sequence split: option.splits)
    (simp_all add: accounted_def)

interpretation telemetry: op_system run_log_op window_inv
proof
  fix l op
  assume "window_inv l"
  then show "window_inv (fst (run_log_op l op))"
    by (cases op) (auto intro: begin_window finish_window)
qed

lemma accounted_run: "accounted k l
    \<Longrightarrow> accounted (k + length (filter is_begin ops)) (run_ops run_log_op l ops)"
proof (induction ops arbitrary: k l)
  case (Cons op ops)
  have "accounted (k + length (filter is_begin [op])) (fst (run_log_op l op))"
    using Cons.prems by (cases op) (auto intro: begin_accounted finish_accounted)
  from Cons.IH [OF this] show ?case by (simp add: add.assoc split: if_splits)
qed simp

lemma window_inv_empty: "window_inv empty_invocation_log"
  by (simp add: window_inv_def empty_invocation_log_def retained_bytes_def)

section \<open>The index of unfinished invocations\<close>

definition unfinished :: "process_id \<Rightarrow> retained_invocation \<Rightarrow> bool" where
  "unfinished pid e \<longleftrightarrow> pid_of e = pid \<and> ie_status (ri_event e) = None"

definition open_of :: "invocation_log \<Rightarrow> process_id \<Rightarrow> u64 list" where
  "open_of l pid = (case om_lookup (il_open l) pid of None \<Rightarrow> [] | Some s \<Rightarrow> s)"

definition contiguous :: "invocation_log \<Rightarrow> bool" where
  "contiguous l \<longleftrightarrow> length (il_events l) \<le> unat (il_next_sequence l)
     \<and> (\<forall>i < length (il_events l).
          unat (seq_of (il_events l ! i)) + length (il_events l) = unat (il_next_sequence l) + i)"

definition index_inv :: "invocation_log \<Rightarrow> bool" where
  "index_inv l \<longleftrightarrow> contiguous l
     \<and> (\<forall>pid. open_of l pid = map seq_of (filter (unfinished pid) (il_events l))
            \<and> om_lookup (il_open l) pid \<noteq> Some [])"

lemma contiguous_distinct: "contiguous l \<Longrightarrow> distinct (map seq_of (il_events l))"
  unfolding contiguous_def distinct_conv_nth length_map by (metis (no_types, lifting) add_left_cancel nth_map)

lemma unfinished_complete [simp]: "unfinished pid (complete status cpu disk e) = False"
  by (simp add: unfinished_def)

text \<open>With consecutive sequence numbers the computed position is the position of the record.\<close>

lemma finish_sequence_found:
  assumes c: "contiguous l" and s: "s \<in> set (map seq_of (il_events l))"
  shows "finish_sequence status cpu disk s l = l\<lparr>il_events :=
    map (\<lambda>e. if seq_of e = s then complete status cpu disk e else e) (il_events l)\<rparr>"
proof -
  let ?es = "il_events l"
  obtain i where i: "i < length ?es" "seq_of (?es ! i) = s"
    using s by (auto simp: in_set_conv_nth)
  then obtain first rest where es: "?es = first # rest" by (cases ?es) auto
  have "unat (seq_of first) + length ?es = unat (il_next_sequence l)"
    using c es unfolding contiguous_def by force
  moreover have "unat s + length ?es = unat (il_next_sequence l) + i"
    using c i unfolding contiguous_def by blast
  ultimately have "unat s = unat (seq_of first) + i" by linarith
  then obtain offset where "checked_sub s (seq_of first) = Some offset" "unat offset = i"
    by (cases "checked_sub s (seq_of first)") (auto simp: rust_arith)
  moreover have "?es[i := complete status cpu disk (?es ! i)]
      = map (\<lambda>e. if seq_of e = s then complete status cpu disk e else e) ?es"
    using i contiguous_distinct [OF c]
    by (intro nth_equalityI) (auto simp: nth_list_update distinct_conv_nth)
  ultimately show ?thesis using i es by (simp add: finish_sequence_def)
qed

lemma contiguous_map:
  "contiguous (l\<lparr>il_events := es\<rparr>)"
  if "contiguous l" "map seq_of es = map seq_of (il_events l)"
proof -
  have "length es = length (il_events l)" using that(2) by (metis length_map)
  then show ?thesis using that unfolding contiguous_def
    by (auto dest: map_eq_imp_length_eq) (metis nth_map)
qed

lemma filter_complete:
  "filter (unfinished pid) (map (\<lambda>e. if Q e then complete status cpu disk e else e) es)
     = filter (\<lambda>e. unfinished pid e \<and> \<not> Q e) es"
  by (induction es) auto

text \<open>The reference for \<open>finish_latest\<close>: scan the window for the last match.\<close>

fun update_last :: "('a \<Rightarrow> bool) \<Rightarrow> ('a \<Rightarrow> 'a) \<Rightarrow> 'a list \<Rightarrow> 'a list" where
  "update_last P f [] = []"
| "update_last P f (x # xs) =
     (if list_ex P xs then x # update_last P f xs else if P x then f x # xs else x # xs)"

lemma update_last_none: "filter P xs = [] \<Longrightarrow> update_last P f xs = xs"
  by (induction xs) (auto simp: list_ex_iff filter_empty_conv)

lemma update_last_by_key:
  assumes "distinct (map k xs)" "filter P xs \<noteq> []"
  shows "update_last P f xs = map (\<lambda>x. if k x = last (map k (filter P xs)) then f x else x) xs"
  using assms
proof (induction xs)
  case (Cons x xs)
  show ?case
  proof (cases "filter P xs = []")
    case True
    then have "P x" "\<not> list_ex P xs" using Cons.prems
      by (auto simp: list_ex_iff filter_empty_conv split: if_splits)
    moreover have "map (\<lambda>y. if k y = k x then f y else y) xs = xs"
      using Cons.prems(1) by (intro map_idI) (auto simp: image_iff)
    ultimately show ?thesis using True by simp
  next
    case False
    then have "list_ex P xs" by (auto simp: list_ex_iff filter_empty_conv)
    moreover have "last (map k (filter P xs)) \<in> k ` set xs"
      using last_in_set [of "map k (filter P xs)"] False by auto
    ultimately show ?thesis using Cons False by auto
  qed
qed simp

lemma last_filter_neq:
  "distinct xs \<Longrightarrow> xs \<noteq> [] \<Longrightarrow> filter (\<lambda>x. x \<noteq> last xs) xs = butlast xs"
  by (induction xs rule: rev_induct) auto

lemma open_last:
  assumes "index_inv l" "om_lookup (il_open l) pid = Some s"
  shows "s \<noteq> []" "last s \<in> set (map seq_of (il_events l))"
    "s = map seq_of (filter (unfinished pid) (il_events l))"
proof -
  show ne: "s \<noteq> []" and s: "s = map seq_of (filter (unfinished pid) (il_events l))"
    using assms by (auto simp: index_inv_def open_of_def split: option.splits)
  show "last s \<in> set (map seq_of (il_events l))"
    using last_in_set [OF ne] unfolding s by auto
qed

lemma finish_latest_scan:
  assumes inv: "index_inv l"
  shows "il_events (finish_latest l pid status cpu disk)
    = update_last (unfinished pid) (complete status cpu disk) (il_events l)"
proof (cases "om_lookup (il_open l) pid")
  case None
  then have "filter (unfinished pid) (il_events l) = []"
    using inv unfolding index_inv_def open_of_def by (metis list.map_disc_iff option.simps(4))
  then show ?thesis using None by (simp add: finish_latest_def update_last_none)
next
  case (Some s)
  note s = open_last [OF inv Some]
  have "contiguous (l\<lparr>il_open := m\<rparr>)" for m using inv by (simp add: index_inv_def contiguous_def)
  note found = finish_sequence_found [OF this, of "last s"]
  have "filter (unfinished pid) (il_events l) \<noteq> []" using s(1,3) by auto
  from update_last_by_key [OF contiguous_distinct this] inv s found show ?thesis
    by (simp add: finish_latest_def Some index_inv_def)
qed

lemma finish_latest_open:
  assumes inv: "index_inv l"
  shows "open_of (finish_latest l pid status cpu disk) q =
    (if q = pid then butlast (open_of l pid) else open_of l q)"
    "om_lookup (il_open (finish_latest l pid status cpu disk)) q \<noteq> Some []"
proof -
  have "\<forall>q. om_lookup (il_open l) q \<noteq> Some []" using inv by (simp add: index_inv_def)
  then show "open_of (finish_latest l pid status cpu disk) q =
      (if q = pid then butlast (open_of l pid) else open_of l q)"
    "om_lookup (il_open (finish_latest l pid status cpu disk)) q \<noteq> Some []"
    by (auto simp: finish_latest_def open_of_def om_lookup_insert om_lookup_remove split: option.splits)
qed

lemma update_last_maps:
  "(\<And>x. k (f x) = k x) \<Longrightarrow> map k (update_last P f xs) = map k xs"
  by (induction xs) auto

lemma filter_update_last:
  assumes "\<And>x. \<not> P (f x)"
  shows "filter P (update_last P f xs) = butlast (filter P xs)"
proof (induction xs)
  case (Cons x xs)
  then show ?case using assms by (cases "filter P xs = []") (auto simp: list_ex_iff filter_empty_conv)
qed simp

lemma filter_update_last_other:
  assumes "\<And>x. P x \<Longrightarrow> \<not> Q x" "\<And>x. \<not> Q (f x)"
  shows "filter Q (update_last P f xs) = filter Q xs"
  using assms by (induction xs) auto

lemma finish_latest_index:
  assumes inv: "index_inv l"
  shows "index_inv (finish_latest l pid status cpu disk)"
proof -
  let ?l = "finish_latest l pid status cpu disk"
  have ev: "il_events ?l = update_last (unfinished pid) (complete status cpu disk) (il_events l)"
    by (rule finish_latest_scan [OF inv])
  have nx: "il_next_sequence ?l = il_next_sequence l"
    by (simp add: finish_latest_def split: option.splits)
  have "contiguous (l\<lparr>il_events := il_events ?l\<rparr>)"
    unfolding ev using inv by (intro contiguous_map) (simp_all add: index_inv_def update_last_maps)
  then have "contiguous ?l" by (simp add: contiguous_def nx)
  moreover have "open_of ?l q = map seq_of (filter (unfinished q) (il_events ?l))" for q
  proof (cases "q = pid")
    case True
    then show ?thesis using inv
      by (simp add: finish_latest_open [OF inv] ev filter_update_last index_inv_def map_butlast)
  next
    case False
    then have "filter (unfinished q) (il_events ?l) = filter (unfinished q) (il_events l)"
      unfolding ev by (intro filter_update_last_other) (auto simp: unfinished_def)
    then show ?thesis using inv False by (simp add: finish_latest_open [OF inv] index_inv_def)
  qed
  ultimately show ?thesis by (simp add: index_inv_def finish_latest_open(2) [OF inv])
qed

lemma fold_finish_sequence_found:
  assumes "contiguous l" "set ss \<subseteq> set (map seq_of (il_events l))"
  shows "fold (finish_sequence status cpu disk) ss l = l\<lparr>il_events :=
    map (\<lambda>e. if seq_of e \<in> set ss then complete status cpu disk e else e) (il_events l)\<rparr>"
  using assms
proof (induction ss arbitrary: l)
  case (Cons s ss)
  let ?m = "map (\<lambda>e. if seq_of e = s then complete status cpu disk e else e) (il_events l)"
  have seqs: "map seq_of ?m = map seq_of (il_events l)" by auto
  have "contiguous (l\<lparr>il_events := ?m\<rparr>)" by (rule contiguous_map [OF Cons.prems(1) seqs])
  moreover have "set ss \<subseteq> set (map seq_of (il_events (l\<lparr>il_events := ?m\<rparr>)))"
    using Cons.prems(2) seqs by (simp del: set_map list.map_comp map_map)
  moreover have "finish_sequence status cpu disk s l = l\<lparr>il_events := ?m\<rparr>"
    by (rule finish_sequence_found [OF Cons.prems(1)]) (use Cons.prems(2) in simp)
  moreover have "complete status cpu disk (complete status cpu disk e) = complete status cpu disk e" for e
    by (simp add: complete_def)
  ultimately show ?case using Cons.IH [of "l\<lparr>il_events := ?m\<rparr>"] by (auto simp: o_def)
qed simp

lemma unfinished_sequences:
  assumes "contiguous l" "e \<in> set (il_events l)"
  shows "seq_of e \<in> set (map seq_of (filter (unfinished pid) (il_events l))) \<longleftrightarrow> unfinished pid e"
  using contiguous_distinct [OF assms(1)] assms(2) by (auto simp: distinct_map inj_on_def)

lemma finish_process_scan:
  assumes inv: "index_inv l"
  shows "il_events (finish_process l pid status cpu disk)
    = map (\<lambda>e. if unfinished pid e then complete status cpu disk e else e) (il_events l)"
    "il_open (finish_process l pid status cpu disk) = om_remove pid (il_open l)"
    "il_next_sequence (finish_process l pid status cpu disk) = il_next_sequence l"
proof -
  let ?ss = "map seq_of (filter (unfinished pid) (il_events l))"
  have c: "contiguous l" and o: "open_of l pid = ?ss" using inv by (simp_all add: index_inv_def)
  have "finish_process l pid status cpu disk = l\<lparr>il_open := om_remove pid (il_open l), il_events :=
      map (\<lambda>e. if seq_of e \<in> set ?ss then complete status cpu disk e else e) (il_events l)\<rparr>"
    unfolding finish_process_def open_of_def [symmetric] o
    by (subst fold_finish_sequence_found) (use c in \<open>auto simp: contiguous_def\<close>)
  moreover have "map (\<lambda>e. if seq_of e \<in> set ?ss then complete status cpu disk e else e) (il_events l)
      = map (\<lambda>e. if unfinished pid e then complete status cpu disk e else e) (il_events l)"
    using unfinished_sequences [OF c] by (intro map_cong) (simp_all only: refl)
  ultimately show "il_events (finish_process l pid status cpu disk)
      = map (\<lambda>e. if unfinished pid e then complete status cpu disk e else e) (il_events l)"
    "il_open (finish_process l pid status cpu disk) = om_remove pid (il_open l)"
    "il_next_sequence (finish_process l pid status cpu disk) = il_next_sequence l" by simp_all
qed

lemma finish_process_index:
  assumes inv: "index_inv l"
  shows "index_inv (finish_process l pid status cpu disk)"
proof -
  let ?l = "finish_process l pid status cpu disk"
  note [simp] = finish_process_scan [OF inv]
  have "contiguous (l\<lparr>il_events := il_events ?l\<rparr>)"
    using inv by (intro contiguous_map) (simp_all add: index_inv_def)
  then have "contiguous ?l" by (simp add: contiguous_def)
  moreover have "filter (\<lambda>e. unfinished q e \<and> \<not> unfinished pid e) (il_events l)
      = (if q = pid then [] else filter (unfinished q) (il_events l))" for q
    by (cases "q = pid") (auto simp: unfinished_def filter_empty_conv intro!: filter_cong)
  ultimately show ?thesis using inv
    by (simp add: index_inv_def filter_complete open_of_def om_lookup_remove)
qed

lemma forget_open_lookup:
  assumes "\<And>q. om_lookup (il_open l) q \<noteq> Some []"
  shows "open_of (forget_open l p s) q =
    (if q = p then filter (\<lambda>c. c \<noteq> s) (open_of l p) else open_of l q)"
    "om_lookup (il_open (forget_open l p s)) q \<noteq> Some []"
  using assms [of q] assms [of p]
  by (auto simp: forget_open_def open_of_def Let_def om_lookup_insert om_lookup_remove
      split: option.splits)

lemma drop_oldest_index:
  assumes inv: "index_inv l" and ne: "il_events l \<noteq> []"
  shows "index_inv (drop_oldest l)"
proof -
  obtain e es where es: "il_events l = e # es" using ne by (cases "il_events l") auto
  have c: "contiguous l" and o: "\<And>q. open_of l q = map seq_of (filter (unfinished q) (e # es))"
    and nn: "\<And>q. om_lookup (il_open l) q \<noteq> Some []" using inv by (simp_all add: index_inv_def es)
  have fresh: "seq_of e \<notin> seq_of ` set es" using contiguous_distinct [OF c] by (simp add: es)
  have c': "contiguous (drop_oldest l)"
    using c unfolding contiguous_def drop_oldest_fields es
    by (auto simp: nth_Cons' dest: spec [of _ "Suc _"])
  have keep: "filter (\<lambda>s. s \<noteq> seq_of e) (map seq_of (filter (unfinished q) es))
      = map seq_of (filter (unfinished q) es)" for q
    using fresh by (intro filter_True) (auto simp: image_iff)
  have "open_of (drop_oldest l) q = map seq_of (filter (unfinished q) es)
      \<and> om_lookup (il_open (drop_oldest l)) q \<noteq> Some []" for q
  proof (cases "ie_status (ri_event e) = None")
    case True
    let ?l = "l\<lparr>il_events := es, il_modeled_bytes := saturating_sub (il_modeled_bytes l) (ri_modeled_bytes e),
        il_dropped := saturating_add (il_dropped l) 1\<rparr>"
    have "drop_oldest l = forget_open ?l (pid_of e) (seq_of e)"
      using True by (simp add: drop_oldest_def es Let_def)
    moreover have "open_of ?l p = open_of l p" "om_lookup (il_open ?l) p \<noteq> Some []" for p
      using nn by (simp_all add: open_of_def)
    ultimately show ?thesis using True o keep forget_open_lookup [of ?l "pid_of e" "seq_of e" q]
      by (auto simp: unfinished_def)
  next
    case False
    then have "il_open (drop_oldest l) = il_open l" by (auto simp: drop_oldest_def es Let_def)
    moreover have "\<not> unfinished q e" using False by (simp add: unfinished_def)
    ultimately show ?thesis using nn o [of q] by (simp add: open_of_def)
  qed
  with c' show ?thesis by (simp add: index_inv_def es)
qed

lemma begin_index:
  assumes inv: "index_inv l" and small: "invocation_bytes argv reason \<le> MAX_INVOCATION_BYTES"
  shows "index_inv (begin_invocation l pid argv trust reason cpu disk)"
proof (cases rule: begin_cases [of l pid argv trust reason cpu disk])
  case numbers_used_up
  then show ?thesis using inv by (simp add: index_inv_def contiguous_def open_of_def)
next
  case too_large
  then show ?thesis using small by simp
next
  case (kept l2)
  let ?n = "invocation_bytes argv reason"
  let ?room = "\<lambda>l'. index_inv (l'\<lparr>il_next_sequence := il_next_sequence l\<rparr>)"
  have drop: "?room (drop_oldest l')" if "?room l'" "il_events l' \<noteq> []" for l'
  proof -
    have "(drop_oldest l')\<lparr>il_next_sequence := il_next_sequence l\<rparr>
        = drop_oldest (l'\<lparr>il_next_sequence := il_next_sequence l\<rparr>)"
      by (simp add: drop_oldest_def Let_def forget_open_def split: option.splits)
    then show ?thesis using drop_oldest_index [OF that(1)] that(2) by simp
  qed
  have "?room l2" unfolding kept(3) by (rule make_room_induct [where I = ?room]) (use inv drop in simp_all)
  then have c: "contiguous (l2\<lparr>il_next_sequence := il_next_sequence l\<rparr>)"
    and o: "\<And>q. open_of l2 q = map seq_of (filter (unfinished q) (il_events l2))"
    and nn: "\<And>q. om_lookup (il_open l2) q \<noteq> Some []"
    by (simp_all add: index_inv_def open_of_def)
  have nx: "il_next_sequence l2 = il_next_sequence l + 1" by (simp add: kept(3))
  show ?thesis
    using c o nn kept(1) unfolding kept(4) open_of_def [symmetric]
    by (auto simp: index_inv_def contiguous_def nx nth_append less_Suc_eq open_of_def
        om_lookup_insert unfinished_def)
qed

lemma index_run:
  assumes "index_inv l" "list_all keepable ops"
  shows "index_inv (run_ops run_log_op l ops)"
  using assms
proof (induction ops arbitrary: l)
  case (Cons op ops)
  then have "index_inv (fst (run_log_op l op))"
    by (cases op) (auto intro: begin_index finish_latest_index finish_process_index)
  then show ?case using Cons by simp
qed simp

lemma index_inv_empty: "index_inv empty_invocation_log"
  by (simp add: index_inv_def contiguous_def open_of_def empty_invocation_log_def)

section \<open>The text log stays within its bounds\<close>

definition text_bytes :: "string list \<Rightarrow> nat" where
  "text_bytes vs = sum_list (map (\<lambda>v. unat (len64 v :: u64)) vs)"

definition text_inv :: "nat \<Rightarrow> text_log \<Rightarrow> bool" where
  "text_inv k l \<longleftrightarrow> length (tl_entries l) \<le> MAX_TEXT_EVENTS \<and> tl_modeled_bytes l \<le> MAX_TEXT_BYTES
     \<and> unat (tl_modeled_bytes l) = text_bytes (tl_entries l) \<and> length (tl_entries l) \<le> k
     \<and> unat (tl_dropped l) = min (k - length (tl_entries l)) (2 ^ 64 - 1)"

lemma record_text_inv: "text_inv k l \<Longrightarrow> text_inv (Suc k) (record_text l v)"
proof (cases "MAX_TEXT_EVENTS \<le> length (tl_entries l) \<or> len64 v > MAX_TEXT_BYTES
    \<or> saturating_add (tl_modeled_bytes l) (len64 v) > MAX_TEXT_BYTES")
  case False
  then show "text_inv k l \<Longrightarrow> ?thesis"
    by (auto simp: text_inv_def record_text_def text_bytes_def rust_arith word_le_nat_alt not_less
        MAX_TEXT_BYTES_def)
qed (auto simp: text_inv_def record_text_def rust_arith)

lemma record_text_extends: "\<exists>new. tl_entries (fold (\<lambda>v l. record_text l v) vs l) = tl_entries l @ new
    \<and> set new \<subseteq> set vs"
proof (induction vs arbitrary: l)
  case (Cons v vs)
  have "tl_entries (record_text l v) = tl_entries l \<or> tl_entries (record_text l v) = tl_entries l @ [v]"
    by (simp add: record_text_def)
  with Cons.IH [of "record_text l v"] show ?case by fastforce
qed simp

lemma record_text_marker:
  "tl_entries (fold (\<lambda>v l. record_text l v) vs l)
     = tl_entries l @ values_since (fold (\<lambda>v l. record_text l v) vs l) (length (tl_entries l))"
  using record_text_extends [of vs l] by (auto simp: values_since_def)

lemma text_log_run: "text_inv (length vs) (fold (\<lambda>v l. record_text l v) vs empty_text_log)"
proof (induction vs rule: rev_induct)
  case Nil
  show ?case by (simp add: text_inv_def empty_text_log_def text_bytes_def)
qed (simp add: record_text_inv)

section \<open>Properties\<close>

text \<open>After any sequence of calls the window of invocations holds at most 4096 records and 4 MiB of
  modelled bytes, its byte counter is the exact sum of its records, its sequence numbers increase
  strictly and lie below the next one, and every invocation begun is either retained or counted as
  dropped (the counter saturates).\<close>

theorem telemetry_window_exact:
  "let l = run_ops run_log_op empty_invocation_log ops
   in length (il_events l) \<le> 4096 \<and> unat (il_modeled_bytes l) \<le> 4194304
      \<and> unat (il_modeled_bytes l) = sum_list (map (\<lambda>e. unat (ri_modeled_bytes e)) (il_events l))
      \<and> sorted_wrt (<) (map seq_of (il_events l))
      \<and> list_all (\<lambda>e. seq_of e < il_next_sequence l) (il_events l)
      \<and> length (il_events l) \<le> length (filter is_begin ops)
      \<and> unat (il_dropped l)
          = min (length (filter is_begin ops) - length (il_events l)) (2 ^ 64 - 1)"
proof -
  have "accounted 0 empty_invocation_log" by (simp add: accounted_def empty_invocation_log_def)
  from accounted_run [OF this, of ops] telemetry.run_ops_inv [OF window_inv_empty, of ops]
  show ?thesis
    by (simp add: Let_def window_inv_def accounted_def retained_bytes_def list_all_iff
        MAX_INVOCATION_EVENTS_def MAX_INVOCATION_BYTES_def word_le_nat_alt)
qed

text \<open>C37. Completing an invocation through the per-process stack of sequence numbers is the same as
  scanning the window: \<open>finish_latest\<close> completes the last unfinished record of the process and
  \<open>finish_process\<close> all of them, and no other record changes, after any sequence of calls none of
  which began a record larger than the whole window.\<close>

theorem completion_equals_scan:
  assumes "list_all keepable ops" "l = run_ops run_log_op empty_invocation_log ops"
  shows "il_events (finish_latest l pid status cpu disk)
      = update_last (unfinished pid) (complete status cpu disk) (il_events l)
    \<and> il_events (finish_process l pid status cpu disk)
      = map (\<lambda>e. if unfinished pid e then complete status cpu disk e else e) (il_events l)"
  using finish_latest_scan finish_process_scan(1) index_run [OF index_inv_empty assms(1)]
  unfolding assms(2) by blast

lemmas telemetry_eval = Let_def begin_invocation_def invocation_bytes_def checked_add_def
  saturating_add_def saturating_sub_def empty_invocation_log_def make_room.simps
  MAX_INVOCATION_EVENTS_def MAX_INVOCATION_BYTES_def

theorem completion_equals_scan_witness:
  "let l = run_ops run_log_op empty_invocation_log
             [Begin 7 [''outer''] Partial None 10 20, Begin 8 [''other''] Real None 11 20,
              Begin 7 [''inner''] Real None 12 20]
   in map (ie_status \<circ> ri_event) (il_events (finish_latest l 7 3 15 21)) = [None, None, Some 3]
    \<and> map (ie_status \<circ> ri_event) (il_events (finish_process l 7 3 15 21)) = [Some 3, None, Some 3]"
proof -
  let ?ops = "[Begin 7 [''outer''] Partial None 10 20, Begin 8 [''other''] Real None 11 20,
              Begin 7 [''inner''] Real None 12 20]"
  have "list_all keepable ?ops" by (simp add: telemetry_eval)
  note scan = completion_equals_scan [OF this refl, of 7 3 15 21]
  have "map (\<lambda>e. (pid_of e, ie_status (ri_event e))) (il_events (run_ops run_log_op empty_invocation_log ?ops))
      = [(7, None), (8, None), (7, None)]"
    by (simp add: telemetry_eval)
  then obtain a b c where "il_events (run_ops run_log_op empty_invocation_log ?ops) = [a, b, c]"
      "pid_of a = 7" "pid_of b = 8" "pid_of c = 7" "ie_status (ri_event a) = None"
      "ie_status (ri_event b) = None" "ie_status (ri_event c) = None"
    by (auto simp: map_eq_Cons_conv)
  with scan show ?thesis by (simp add: Let_def unfinished_def)
qed

text \<open>A record larger than the window is dropped but keeps its sequence number. Sequence numbers are
  then no longer consecutive, the computed position misses, and the invocation that follows is never
  marked as finished.\<close>

lemma oversized_record_loses_completion:
  "let big = replicate 4194304 CHR ''x'';
       l = run_ops run_log_op empty_invocation_log
             [Begin 7 [''first''] Real None 0 0, Finish_Latest 7 0 0 0,
              Begin 7 [''echo'', big] Real None 0 0, Finish_Latest 7 0 0 0,
              Begin 7 [''third''] Real None 0 0, Finish_Latest 7 0 0 0]
   in map ie_argv (log_events l) = [[''first''], [''third'']]
    \<and> map ie_status (log_events l) = [Some 0, None]"
  by (simp add: telemetry_eval finish_latest_def finish_sequence_def checked_sub_def complete_def
      log_events_def word_le_nat_alt)

end
