(* ===== verification/Display.thy ===== *)
theory Display
  imports Process Resources
begin

text \<open>
  The virtual display of \<open>src/src/display.rs\<close>: one frame buffer with an owner, a bounded queue of key
  transitions, and the memory both hold in the resource meter of \<open>Resources\<close>. Every operation takes
  the display and the meter, as in the code, and returns both.

  Shown: the shape of the frame and the queue bound (\<open>display_inv\<close>); the memory the display holds is
  the memory it reserved, byte for byte, after any sequence of calls and also when a call fails;
  and the display belongs to one process at a time.
\<close>

section \<open>State\<close>

definition MAX_DIMENSION :: u32 where "MAX_DIMENSION = 2048"

definition MAX_EVENTS :: nat where "MAX_EVENTS = 256"

definition EVENT_BYTES :: u64 where "EVENT_BYTES = 16"

definition DISPLAY_HANDLE :: u32 where "DISPLAY_HANDLE = 1"

definition RGBA8888 :: u32 where "RGBA8888 = 1"

record key_event =
  key_code :: u32
  key_pressed :: bool

record display_frame =
  fr_width :: u32
  fr_height :: u32
  fr_pixels :: bytes

datatype display_error = Invalid_Argument | Invalid_Handle | Busy | Queue_Full | Resource_Exhausted

record virtual_display =
  vd_frame :: "display_frame option"
  vd_generation :: u64
  vd_owner :: "process_id option"
  vd_events :: "key_event list"

definition new_display :: virtual_display where
  "new_display = \<lparr>vd_frame = None, vd_generation = 0, vd_owner = None, vd_events = []\<rparr>"

type_synonym display_state = "virtual_display \<times> resources"

type_synonym 'a display_result = "display_state \<times> (display_error, 'a) outcome"

section \<open>Operations\<close>

definition checked_mul :: "'a::len word \<Rightarrow> 'a word \<Rightarrow> 'a word option" where
  "checked_mul a b = (if unat a * unat b < 2 ^ LENGTH('a) then Some (a * b) else None)"

definition inject_key :: "display_state \<Rightarrow> key_event \<Rightarrow> unit display_result" where
  "inject_key s event = (case s of (d, r) \<Rightarrow>
     if key_code event = 0 \<or> key_code event > 0xffff then ((d, r), Err Invalid_Argument)
     else if MAX_EVENTS \<le> length (vd_events d) then ((d, r), Err Queue_Full)
     else case reserve_memory r EVENT_BYTES of
       (r', False) \<Rightarrow> ((d, r'), Err Resource_Exhausted)
     | (r', True) \<Rightarrow> ((d\<lparr>vd_events := vd_events d @ [event]\<rparr>, r'), Ok ()))"

definition frame_bytes :: "virtual_display \<Rightarrow> u64" where
  "frame_bytes d = (case vd_frame d of None \<Rightarrow> 0 | Some f \<Rightarrow> len64 (fr_pixels f))"

text \<open>The accounting of \<open>open\<close>: grow or shrink the reservation of the old frame to the new size.\<close>

definition resize_reservation :: "resources \<Rightarrow> u64 \<Rightarrow> u64 \<Rightarrow> resources \<times> bool" where
  "resize_reservation r old_bytes bytes =
     (if bytes > old_bytes then reserve_memory r (bytes - old_bytes)
      else (release_memory r (old_bytes - bytes), True))"

definition open_display :: "display_state \<Rightarrow> process_id \<Rightarrow> u32 \<Rightarrow> u32 \<Rightarrow> u32 \<Rightarrow> u32 display_result" where
  "open_display s owner width height format = (case s of (d, r) \<Rightarrow>
     if vd_owner d \<noteq> None then ((d, r), Err Busy)
     else if width = 0 \<or> height = 0 \<or> width > MAX_DIMENSION \<or> height > MAX_DIMENSION
       \<or> format \<noteq> RGBA8888 then ((d, r), Err Invalid_Argument)
     else case Option.bind (checked_mul (ucast width) (ucast height)) (\<lambda>pixels. checked_mul pixels 4) of
       None \<Rightarrow> ((d, r), Err Invalid_Argument)
     | Some n \<Rightarrow>
         (case resize_reservation r (frame_bytes d) n of
            (r', False) \<Rightarrow> ((d, r'), Err Resource_Exhausted)
          | (r', True) \<Rightarrow>
              ((d\<lparr>vd_frame := Some \<lparr>fr_width = width, fr_height = height,
                    fr_pixels = replicate (unat n) 0\<rparr>, vd_owner := Some owner\<rparr>, r'),
               Ok DISPLAY_HANDLE)))"

definition present :: "display_state \<Rightarrow> process_id \<Rightarrow> u32 \<Rightarrow> bytes \<Rightarrow> u32 \<Rightarrow> unit display_result" where
  "present s owner handle pixels stride = (case s of (d, r) \<Rightarrow>
     if handle \<noteq> DISPLAY_HANDLE \<or> vd_owner d \<noteq> Some owner then ((d, r), Err Invalid_Handle)
     else case vd_frame d of
       None \<Rightarrow> ((d, r), Err Invalid_Handle)
     | Some f \<Rightarrow>
         (case checked_mul (fr_width f) 4 of
            None \<Rightarrow> ((d, r), Err Invalid_Argument)
          | Some row_bytes \<Rightarrow>
              if stride \<noteq> row_bytes \<or> length pixels \<noteq> length (fr_pixels f)
              then ((d, r), Err Invalid_Argument)
              else case charge_cpu r (len64 pixels) of
                (r', False) \<Rightarrow> ((d, r'), Err Resource_Exhausted)
              | (r', True) \<Rightarrow>
                  ((d\<lparr>vd_frame := Some (f\<lparr>fr_pixels := pixels\<rparr>),
                      vd_generation := saturating_add (vd_generation d) 1\<rparr>, r'), Ok ())))"

definition poll_key :: "display_state \<Rightarrow> process_id \<Rightarrow> u32 \<Rightarrow> key_event option display_result" where
  "poll_key s owner handle = (case s of (d, r) \<Rightarrow>
     if handle \<noteq> DISPLAY_HANDLE \<or> vd_owner d \<noteq> Some owner then ((d, r), Err Invalid_Handle)
     else case vd_events d of
       [] \<Rightarrow> ((d, r), Ok None)
     | event # rest \<Rightarrow> ((d\<lparr>vd_events := rest\<rparr>, release_memory r EVENT_BYTES), Ok (Some event)))"

definition close_display :: "display_state \<Rightarrow> process_id \<Rightarrow> u32 \<Rightarrow> unit display_result" where
  "close_display s owner handle = (case s of (d, r) \<Rightarrow>
     if handle \<noteq> DISPLAY_HANDLE \<or> vd_owner d \<noteq> Some owner then ((d, r), Err Invalid_Handle)
     else ((d\<lparr>vd_owner := None\<rparr>, r), Ok ()))"

definition close_owner :: "display_state \<Rightarrow> process_id \<Rightarrow> unit display_result" where
  "close_owner s owner = (case s of (d, r) \<Rightarrow>
     ((if vd_owner d = Some owner then d\<lparr>vd_owner := None\<rparr> else d, r), Ok ()))"

section \<open>Sequences of calls\<close>

datatype display_op =
    Inject key_event
  | Open process_id u32 u32 u32
  | Present process_id u32 bytes u32
  | Poll process_id u32
  | Close process_id u32
  | Close_Owner process_id

datatype display_value = Done | Handle u32 | Key "key_event option"

fun run_display :: "display_state \<Rightarrow> display_op \<Rightarrow> display_value display_result" where
  "run_display s (Inject e) = map_ok (\<lambda>_. Done) (inject_key s e)"
| "run_display s (Open p w h f) = map_ok Handle (open_display s p w h f)"
| "run_display s (Present p n px st) = map_ok (\<lambda>_. Done) (present s p n px st)"
| "run_display s (Poll p n) = map_ok Key (poll_key s p n)"
| "run_display s (Close p n) = map_ok (\<lambda>_. Done) (close_display s p n)"
| "run_display s (Close_Owner p) = map_ok (\<lambda>_. Done) (close_owner s p)"

lemmas display_op_defs = inject_key_def open_display_def present_def poll_key_def close_display_def
  close_owner_def

section \<open>Invariant\<close>

text \<open>The memory the display holds: four bytes per pixel and sixteen per queued event.\<close>

definition held_bytes :: "virtual_display \<Rightarrow> nat" where
  "held_bytes d = (case vd_frame d of None \<Rightarrow> 0 | Some f \<Rightarrow> length (fr_pixels f))
     + 16 * length (vd_events d)"

definition frame_ok :: "display_frame \<Rightarrow> bool" where
  "frame_ok f \<longleftrightarrow> 0 < fr_width f \<and> fr_width f \<le> MAX_DIMENSION \<and> 0 < fr_height f
     \<and> fr_height f \<le> MAX_DIMENSION
     \<and> length (fr_pixels f) = unat (fr_width f) * unat (fr_height f) * 4"

text \<open>\<open>base\<close> is the memory reserved by everything else.\<close>

definition display_inv :: "nat \<Rightarrow> display_state \<Rightarrow> bool" where
  "display_inv base s \<longleftrightarrow> (case s of (d, r) \<Rightarrow>
     (\<forall>f. vd_frame d = Some f \<longrightarrow> frame_ok f) \<and> (vd_owner d \<noteq> None \<longrightarrow> vd_frame d \<noteq> None)
     \<and> length (vd_events d) \<le> MAX_EVENTS
     \<and> unat (memory_current r) = base + held_bytes d)"

lemma reserve_memory_cases:
  obtains (refused) r' where "reserve_memory r n = (r', False)" "memory_current r' = memory_current r"
  | (granted) r' where "reserve_memory r n = (r', True)"
      "unat (memory_current r') = unat (memory_current r) + unat n"
proof (cases "reserve_memory r n")
  case (Pair r' b)
  then have "if b then unat (memory_current r') = unat (memory_current r) + unat n
      else memory_current r' = memory_current r"
    by (auto simp: reserve_memory_def rust_arith split: if_splits option.splits)
  with Pair refused granted show thesis by (cases b) simp_all
qed

lemma charge_cpu_memory: "memory_current (fst (charge_cpu r n)) = memory_current r"
  by (auto simp: charge_cpu_def split: option.splits)

lemma inject_key_inv: "display_inv base s \<Longrightarrow> display_inv base (fst (inject_key s e))"
  by (cases s; cases rule: reserve_memory_cases [of "snd s" EVENT_BYTES])
    (auto simp: inject_key_def display_inv_def held_bytes_def EVENT_BYTES_def)

lemma release_exact: "unat n \<le> unat (memory_current r)
    \<Longrightarrow> unat (memory_current (release_memory r n)) = unat (memory_current r) - unat n"
  by (simp add: release_memory_def rust_arith)

lemma poll_key_inv: "display_inv base s \<Longrightarrow> display_inv base (fst (poll_key s p n))"
  by (cases s)
    (auto simp: poll_key_def display_inv_def held_bytes_def EVENT_BYTES_def release_exact
      split: list.splits)

lemma present_inv: "display_inv base s \<Longrightarrow> display_inv base (fst (present s p n px st))"
  using charge_cpu_memory [of "snd s" "len64 px"]
  by (cases s; cases "charge_cpu (snd s) (len64 px)")
    (auto simp: present_def display_inv_def held_bytes_def frame_ok_def
      split: option.splits bool.splits)

lemma close_inv:
  "display_inv base s \<Longrightarrow> display_inv base (fst (close_display s p n))"
  "display_inv base s \<Longrightarrow> display_inv base (fst (close_owner s p))"
  by (cases s; simp add: close_display_def close_owner_def display_inv_def held_bytes_def)+


text \<open>A frame of at most 2048 by 2048 pixels has at most 16 MiB, so its size is computed exactly.\<close>

lemma frame_size:
  assumes "w \<le> MAX_DIMENSION" "h \<le> MAX_DIMENSION"
  shows "\<exists>n. Option.bind (checked_mul (ucast w) (ucast h)) (\<lambda>p. checked_mul p 4) = Some (n :: u64)
    \<and> unat n = unat w * unat h * 4 \<and> unat n \<le> 16777216"
proof -
  have w: "unat w \<le> 2048" and h: "unat h \<le> 2048"
    using assms by (simp_all add: word_le_nat_alt MAX_DIMENSION_def)
  have wh: "unat w * unat h \<le> 2048 * 2048" by (rule mult_le_mono [OF w h])
  have u: "unat (ucast w :: u64) = unat w" "unat (ucast h :: u64) = unat h"
    by (simp_all add: unsigned_ucast_eq take_bit_nat_eq_self less_le_trans [OF unsigned_less])
  have p: "unat (ucast w * ucast h :: u64) = unat w * unat h"
    using wh by (simp add: unat_word_ariths u)
  have "unat w * unat h * 4 < 18446744073709551616" using wh by linarith
  then have q: "unat (ucast w * ucast h * 4 :: u64) = unat w * unat h * 4"
    by (subst unat_word_ariths(2)) (simp add: p)
  show ?thesis using wh by (simp add: checked_mul_def u p q mult.commute [of "unat h" "unat w"])
qed

lemma resize_reservation_cases:
  assumes "unat old \<le> unat (memory_current r)"
  obtains (refused) r' where "resize_reservation r old n = (r', False)"
      "memory_current r' = memory_current r"
  | (granted) r' where "resize_reservation r old n = (r', True)"
      "unat (memory_current r') + unat old = unat (memory_current r) + unat n"
proof (cases "old < n")
  case True
  then have n: "unat (n - old) = unat n - unat old" "unat old < unat n"
    by (simp_all add: unat_sub word_less_nat_alt word_le_nat_alt)
  show thesis
    using True n refused granted
    by (cases rule: reserve_memory_cases [of r "n - old"]) (simp_all add: resize_reservation_def)
next
  case False
  then have n: "unat (old - n) = unat old - unat n" "unat n \<le> unat old"
    by (simp_all add: unat_sub not_less word_le_nat_alt)
  moreover have "unat (old - n) \<le> unat (memory_current r)" using n assms by linarith
  note release_exact [OF this]
  ultimately show thesis
    using False assms by (intro granted) (simp add: resize_reservation_def, linarith)
qed

lemma unat_frame_bytes:
  assumes "\<forall>f. vd_frame d = Some f \<longrightarrow> frame_ok f"
  shows "unat (frame_bytes d) + 16 * length (vd_events d) = held_bytes d"
proof (cases "vd_frame d")
  case (Some f)
  then have "length (fr_pixels f) \<le> 16777216"
    using assms frame_size [of "fr_width f" "fr_height f"] by (auto simp: frame_ok_def)
  then show ?thesis using Some by (simp add: frame_bytes_def held_bytes_def rust_arith)
qed (simp add: frame_bytes_def held_bytes_def)

lemma open_display_inv:
  assumes "display_inv base s"
  shows "display_inv base (fst (open_display s p w h f))"
proof -
  obtain d r where s: "s = (d, r)" by fastforce
  show ?thesis
  proof (cases "vd_owner d \<noteq> None \<or> w = 0 \<or> h = 0 \<or> w > MAX_DIMENSION \<or> h > MAX_DIMENSION \<or> f \<noteq> RGBA8888")
    case True
    then show ?thesis using assms by (auto simp: s open_display_def)
  next
    case False
    then obtain n where n: "Option.bind (checked_mul (ucast w) (ucast h)) (\<lambda>p. checked_mul p 4) = Some (n :: u64)"
        "unat n = unat w * unat h * 4" using frame_size [of w h] by (auto simp: not_less)
    have held: "unat (frame_bytes d) + 16 * length (vd_events d) = held_bytes d"
      by (rule unat_frame_bytes) (use assms in \<open>simp add: s display_inv_def\<close>)
    then have le: "unat (frame_bytes d) \<le> unat (memory_current r)"
      using assms by (simp add: s display_inv_def)
    show ?thesis
      using False n held assms
      by (cases rule: resize_reservation_cases [OF le, of n])
        (auto simp: s open_display_def display_inv_def held_bytes_def frame_ok_def word_gt_0 not_less)
  qed
qed

interpretation display: op_system run_display "display_inv base"
proof
  fix s op
  assume "display_inv base s"
  then show "display_inv base (fst (run_display s op))"
    by (cases op) (simp_all add: inject_key_inv open_display_inv present_inv poll_key_inv close_inv)
qed

section \<open>Properties\<close>

text \<open>Over any sequence of display calls on a machine whose other components hold some memory, the
  meter's working set is that memory plus exactly what the display holds: four bytes for every pixel
  of the retained frame and sixteen for every queued key. Failed calls reserve nothing, reopening
  with another size moves the reservation by the difference, and the frame always has
  the shape of its dimensions, at most 2048 by 2048, with at most 256 keys queued.\<close>

theorem display_memory_exact:
  assumes "unat (memory_current r) = base" "(d', r') = run_ops run_display (new_display, r) ops"
  shows "unat (memory_current r') = base + 16 * length (vd_events d')
      + (case vd_frame d' of None \<Rightarrow> 0 | Some f \<Rightarrow> unat (fr_width f) * unat (fr_height f) * 4)
    \<and> length (vd_events d') \<le> 256
    \<and> (case vd_frame d' of None \<Rightarrow> vd_owner d' = None
       | Some f \<Rightarrow> length (fr_pixels f) = unat (fr_width f) * unat (fr_height f) * 4
           \<and> unat (fr_width f) \<le> 2048 \<and> unat (fr_height f) \<le> 2048)"
proof -
  have "display_inv base (new_display, r)"
    using assms(1) by (simp add: display_inv_def new_display_def held_bytes_def)
  then have "display_inv base (d', r')" unfolding assms(2) by (rule display.run_ops_inv)
  then show ?thesis
    by (auto simp: display_inv_def held_bytes_def frame_ok_def MAX_EVENTS_def MAX_DIMENSION_def
        word_le_nat_alt split: option.splits)
qed

theorem display_memory_exact_witness:
  "unat (memory_current (snd (run_ops run_display (new_display, new_resources default_limits)
     [Inject \<lparr>key_code = 27, key_pressed = True\<rparr>, Open 1 2 2 1, Poll 1 1, Close 1 1, Open 9 1 3 1]))) = 12"
proof -
  let ?s = "run_ops run_display (new_display, new_resources default_limits)
     [Inject \<lparr>key_code = 27, key_pressed = True\<rparr>, Open 1 2 2 1, Poll 1 1, Close 1 1, Open 9 1 3 1]"
  have "vd_events (fst ?s) = []" "map_option fr_width (vd_frame (fst ?s)) = Some 1"
      "map_option fr_height (vd_frame (fst ?s)) = Some 3"
    by (simp_all add: display_op_defs new_display_def new_resources_def default_limits_def
        reserve_memory_def release_memory_def resize_reservation_def frame_bytes_def is_stopped_def
        checked_mul_def checked_add_def saturating_sub_def MAX_EVENTS_def MAX_DIMENSION_def
        EVENT_BYTES_def DISPLAY_HANDLE_def RGBA8888_def)
  moreover have "unat (memory_current (new_resources default_limits)) = 0"
    by (simp add: new_resources_def)
  note display_memory_exact [OF this prod.collapse]
  ultimately show ?thesis by (auto simp del: run_ops.simps split: option.splits)
qed

text \<open>A process that does not own the display can neither draw, read keys nor close it, and cannot
  take it over: its calls fail and change nothing.\<close>

lemma display_owner_exclusive:
  assumes "vd_owner d = Some p" "q \<noteq> p"
  shows "present (d, r) q n px st = ((d, r), Err Invalid_Handle)"
    "poll_key (d, r) q n = ((d, r), Err Invalid_Handle)"
    "close_display (d, r) q n = ((d, r), Err Invalid_Handle)"
    "close_owner (d, r) q = ((d, r), Ok ())"
    "open_display (d, r) q w h f = ((d, r), Err Busy)"
  using assms by (auto simp: display_op_defs)

text \<open>What is presented is what an observer of the frame sees, also after the display is closed.\<close>

lemma presented_frame_retained:
  assumes "present (d, r) p n px st = ((d', r'), Ok ())"
  shows "map_option fr_pixels (vd_frame (fst (fst (close_owner (d', r') p)))) = Some px
    \<and> unat (vd_generation d') = min (unat (vd_generation d) + 1) (2 ^ 64 - 1)"
  using assms
  by (auto simp: present_def close_owner_def rust_arith split: if_splits option.splits prod.splits bool.splits)

end
