(* ===== verification/Shell_Ast.thy ===== *)
theory Shell_Ast
  imports Prelude
begin

text \<open>
  The syntax trees of the shell, \<open>src/src/shell.rs\<close>: the commands, their redirections and the errors of
  the parser, with the size estimate that meters a copy of a tree. The bytes that the compiler gives
  to a shell_node and to a redirection are arguments.
\<close>

datatype redir_op =
    RRead | RWrite | RAppend | RReadWrite | RDupOut | RClose | RHeredoc | RHeredocRaw | RHereString

record redirect =
  rd_fd :: int
  rd_op :: redir_op
  rd_target :: string

datatype shell_node =
    Command "(string \<times> string) list" "string list" "redirect list"
  | ArgvCommand "string list"
  | Pipeline "shell_node list"
  | NAnd shell_node shell_node
  | NOr shell_node shell_node
  | Seq "shell_node list"
  | Background shell_node
  | Subshell shell_node
  | Group shell_node
  | NIf shell_node shell_node "(shell_node \<times> shell_node) list" "shell_node option"
  | For string "string list" shell_node
  | CFor string string string shell_node
  | While shell_node shell_node bool
  | NCase string "(string list \<times> shell_node) list"
  | FuncDef string shell_node
  | Arithmetic string
  | NNot shell_node
  | Timed shell_node bool
  | Redirected shell_node "redirect list"
  | Empty

datatype shell_error =
    UnexpectedEof string
  | UnexpectedToken string string
  | UnclosedQuote char
  | NestingTooDeep

text \<open>\<open>fmt::Display for ShellError\<close>.\<close>

fun shell_error_text :: "shell_error \<Rightarrow> string" where
  "shell_error_text (UnexpectedEof e) = ''unexpected end of file (expected '' @ e @ '')''"
| "shell_error_text (UnexpectedToken f e) = ''unexpected token '' @ f @ '' (expected '' @ e @ '')''"
| "shell_error_text (UnclosedQuote q) = ''unclosed '' @ [q] @ '' quote''"
| "shell_error_text NestingTooDeep = ''commands are nested too deeply''"

section \<open>The size estimate\<close>

text \<open>\<open>size_of::<Node>()\<close> and \<open>size_of::<Redirect>()\<close>.\<close>

record layout =
  size_of_node :: u64
  size_of_redirect :: u64

definition owned_strings :: "string list \<Rightarrow> u64" where
  "owned_strings ss = fold (\<lambda>s total. saturating_add (saturating_add total (len64 s)) 24) ss 0"

definition owned_redirects :: "layout \<Rightarrow> redirect list \<Rightarrow> u64" where
  "owned_redirects l rs =
     fold (\<lambda>r total. saturating_add (saturating_add total (len64 (rd_target r))) (size_of_redirect l)) rs 0"

definition owned_assigns :: "u64 \<Rightarrow> (string \<times> string) list \<Rightarrow> u64" where
  "owned_assigns start as = fold (\<lambda>(n, v) total.
     saturating_add (saturating_add (saturating_add total (len64 n)) (len64 v)) 48) as start"

fun estimated_bytes :: "layout \<Rightarrow> shell_node \<Rightarrow> u64" where
  "estimated_bytes l (Command as ws rs) = saturating_add (size_of_node l)
     (saturating_add (owned_assigns (owned_strings ws) as) (owned_redirects l rs))"
| "estimated_bytes l (ArgvCommand ws) = saturating_add (size_of_node l) (owned_strings ws)"
| "estimated_bytes l (Pipeline ns) = saturating_add (size_of_node l)
     (fold (\<lambda>n total. saturating_add total (estimated_bytes l n)) ns 0)"
| "estimated_bytes l (Seq ns) = saturating_add (size_of_node l)
     (fold (\<lambda>n total. saturating_add total (estimated_bytes l n)) ns 0)"
| "estimated_bytes l (NAnd a b) = saturating_add (size_of_node l)
     (saturating_add (estimated_bytes l a) (estimated_bytes l b))"
| "estimated_bytes l (NOr a b) = saturating_add (size_of_node l)
     (saturating_add (estimated_bytes l a) (estimated_bytes l b))"
| "estimated_bytes l (Background n) = saturating_add (size_of_node l) (estimated_bytes l n)"
| "estimated_bytes l (Subshell n) = saturating_add (size_of_node l) (estimated_bytes l n)"
| "estimated_bytes l (Group n) = saturating_add (size_of_node l) (estimated_bytes l n)"
| "estimated_bytes l (NNot n) = saturating_add (size_of_node l) (estimated_bytes l n)"
| "estimated_bytes l (Timed n posix) = saturating_add (size_of_node l) (estimated_bytes l n)"
| "estimated_bytes l (NIf c t es el) = saturating_add (size_of_node l)
     (saturating_add
       (fold (\<lambda>(c', b) total. saturating_add (saturating_add total (estimated_bytes l c')) (estimated_bytes l b)) es
         (saturating_add (estimated_bytes l c) (estimated_bytes l t)))
       (case el of None \<Rightarrow> 0 | Some n \<Rightarrow> estimated_bytes l n))"
| "estimated_bytes l (For v ws b) = saturating_add (size_of_node l)
     (saturating_add (saturating_add (len64 v) (owned_strings ws)) (estimated_bytes l b))"
| "estimated_bytes l (CFor i c u b) = saturating_add (size_of_node l)
     (saturating_add (saturating_add (saturating_add (len64 i) (len64 c)) (len64 u)) (estimated_bytes l b))"
| "estimated_bytes l (While c b u) = saturating_add (size_of_node l)
     (saturating_add (estimated_bytes l c) (estimated_bytes l b))"
| "estimated_bytes l (NCase w arms) = saturating_add (size_of_node l)
     (fold (\<lambda>(ps, b) total. saturating_add (saturating_add total (owned_strings ps)) (estimated_bytes l b)) arms
       (len64 w))"
| "estimated_bytes l (FuncDef n b) = saturating_add (size_of_node l) (saturating_add (len64 n) (estimated_bytes l b))"
| "estimated_bytes l (Arithmetic e) = saturating_add (size_of_node l) (len64 e)"
| "estimated_bytes l (Redirected n rs) = saturating_add (size_of_node l)
     (saturating_add (estimated_bytes l n) (owned_redirects l rs))"
| "estimated_bytes l Empty = size_of_node l"

text \<open>The height of a tree, which bounds the recursion of code that walks it.\<close>

fun height :: "shell_node \<Rightarrow> nat" where
  "height (Pipeline ns) = Suc (fold (\<lambda>n h. max h (height n)) ns 0)"
| "height (Seq ns) = Suc (fold (\<lambda>n h. max h (height n)) ns 0)"
| "height (NAnd a b) = Suc (max (height a) (height b))"
| "height (NOr a b) = Suc (max (height a) (height b))"
| "height (Background n) = Suc (height n)"
| "height (Subshell n) = Suc (height n)"
| "height (Group n) = Suc (height n)"
| "height (NNot n) = Suc (height n)"
| "height (Timed n posix) = Suc (height n)"
| "height (NIf c t es el) = Suc (max (max (height c) (height t))
     (max (fold (\<lambda>(c', b) h. max h (max (height c') (height b))) es 0)
       (case el of None \<Rightarrow> 0 | Some n \<Rightarrow> height n)))"
| "height (For v ws b) = Suc (height b)"
| "height (CFor i c u b) = Suc (height b)"
| "height (While c b u) = Suc (max (height c) (height b))"
| "height (NCase w arms) = Suc (fold (\<lambda>(ps, b) h. max h (height b)) arms 0)"
| "height (FuncDef n b) = Suc (height b)"
| "height (Redirected n rs) = Suc (height n)"
| "height _ = 1"

end
