(* ===== verification/Machine.thy ===== *)
theory Machine
  imports Shell_Ast Fd_Table Process Scheduler Resources Timeline Vfs_Ops Shell_Env
begin

unbundle bit_operations_syntax

text \<open>
  The machine that joins the components: \<open>Environment\<close> and \<open>ProcessState\<close> of \<open>src/src/interp.rs\<close>
  with the descriptor operations of the interpreter, and the system calls of \<open>src/src/syscalls.rs\<close>
  on descriptors and files. A call reads and changes several components: it charges the meter,
  resolves a descriptor in the table of the active process, acts on the arena or the file
  system, wakes the tasks whose wait it ended and keeps the process table's copy of the
  descriptors up to date.

  An \<open>expect\<close> of the code is a \<open>Panic\<close>. The copy cost of a write depends on how many owners share a
  buffer, which values do not show: it is the argument \<open>aliased\<close>.
\<close>

section \<open>State\<close>

datatype job_state = JobRunning | JobStopped signal | JobDone int

record job =
  job_id :: u32
  job_pid :: process_id
  job_cmd :: string
  job_state :: job_state

text \<open>A handler keeps the source text and the parsed body.\<close>

datatype disposition = Ignore | Handler string shell_node

record alias_definition =
  alias_source :: string
  alias_words :: "string list"

text \<open>The process context. The fields that expansion works on are those of \<open>shell_env\<close>; the resumable
  program image is not part of the model.\<close>

record process_state = shell_env +
  action_generation :: u64
  session_id :: process_id
  process_group :: process_id
  umask :: "16 word"
  shell_options :: "string set"
  command_hash :: "(string, string) omap"
  directory_stack :: "string list"
  funcs :: "(string, shell_node) omap"
  aliases :: "(string, alias_definition) omap"
  syscall_random_state :: u64
  opt_errexit :: bool
  opt_errtrace :: bool
  opt_xtrace :: bool
  opt_pipefail :: bool
  expansion_depth :: nat
  loop_break :: u32
  loop_continue :: u32
  loop_depth :: u32
  returning :: "int option"
  source_depth :: u32
  exiting :: "int option"
  cond_depth :: u32
  ps_uid :: u32
  input_pos :: nat
  fds :: fd_table
  jobs :: "job list"
  next_job_id :: u32
  pending_signals :: "signal set"
  signal_dispositions :: "(signal, disposition) omap"
  exit_disposition :: "disposition option"
  err_disposition :: "disposition option"
  err_trap_active :: bool
  handling_error :: bool
  handling_signal :: bool
  deadline_interrupt :: "event_id option"
  fork_allocation_bytes :: u64
  exec_allocation_bytes :: u64
  state_baseline :: u64
  state_reserved :: u64
  expansion_reserved :: u64
  detached_output :: bool

record machine =
  vfs :: vfs
  clock :: timeline
  resources :: resources
  processes :: process_table
  terminal :: controlling_terminal
  sched :: scheduler
  descriptors :: descriptor_arena
  pipe_reservations :: "(pipe_id, u64) omap"
  active :: process_id
  contexts :: "(process_id, process_state) omap"
  next_temp :: u64
  pending_stdout :: bytes
  pending_stderr :: bytes

datatype syscall_error =
    SysFile vfs_error
  | SysDescriptor descriptor_error
  | InvalidArgument
  | IsDirectory
  | Permission
  | ResourceExhausted
  | NoSuchProcess
  | ExecutableFormat
  | SysProcess string

type_synonym 'a sys_result = "machine \<times> (syscall_error, 'a) outcome"

section \<open>Calls into the components\<close>

fun map_err :: "('e \<Rightarrow> 'f) \<Rightarrow> ('e, 'a) outcome \<Rightarrow> ('f, 'a) outcome" where
  "map_err f (Ok a) = Ok a"
| "map_err f (Err e) = Err (f e)"
| "map_err f Panic = Panic"

text \<open>\<open>ProcessStates::current\<close>: the context of the active process must exist.\<close>

definition with_active :: "machine \<Rightarrow> (process_state \<Rightarrow> 'a sys_result) \<Rightarrow> 'a sys_result" where
  "with_active m k = (case om_lookup (contexts m) (active m) of None \<Rightarrow> (m, Panic) | Some p \<Rightarrow> k p)"

definition set_active :: "machine \<Rightarrow> process_state \<Rightarrow> machine" where
  "set_active m p = m\<lparr>contexts := om_insert (active m) p (contexts m)\<rparr>"

text \<open>A call on the arena, on the descriptor table of the active process, on the file system and on
  the scheduler. The result of a wake is not looked at.\<close>

fun in_descriptors :: "machine \<Rightarrow> 'a arena_result \<Rightarrow> 'a sys_result" where
  "in_descriptors m (a, r) = (m\<lparr>descriptors := a\<rparr>, map_err SysDescriptor r)"

definition in_table :: "machine \<Rightarrow> process_state \<Rightarrow> 'a fd_result \<Rightarrow> 'a sys_result" where
  "in_table m p x = (case x of ((t, a), r) \<Rightarrow>
     ((set_active m (p\<lparr>fds := t\<rparr>))\<lparr>descriptors := a\<rparr>, map_err SysDescriptor r))"

fun in_vfs :: "machine \<Rightarrow> 'a vfs_result \<Rightarrow> 'a sys_result" where
  "in_vfs m (v, r) = (m\<lparr>vfs := v\<rparr>, map_err SysFile r)"

fun in_sched :: "machine \<Rightarrow> 'a sched_result \<Rightarrow> unit sys_result" where
  "in_sched m (s, Panic) = (m\<lparr>sched := s\<rparr>, Panic)"
| "in_sched m (s, _) = (m\<lparr>sched := s\<rparr>, Ok ())"

definition try_desc :: "machine \<Rightarrow> (descriptor_error, 'a) outcome \<Rightarrow> ('a \<Rightarrow> 'b sys_result) \<Rightarrow> 'b sys_result" where
  "try_desc m r k = try_in m (map_err SysDescriptor r) k"

definition try_file :: "machine \<Rightarrow> (vfs_error, 'a) outcome \<Rightarrow> ('a \<Rightarrow> 'b sys_result) \<Rightarrow> 'b sys_result" where
  "try_file m r k = try_in m (map_err SysFile r) k"

section \<open>Booting\<close>

definition ROOT_PID :: process_id where "ROOT_PID = 1234"

definition boot_variables :: "(string \<times> string) list" where
  "boot_variables = [(''HOME'', ''/root''),
     (''PATH'', ''/usr/local/sbin:/usr/local/bin:/usr/sbin:/usr/bin:/sbin:/bin''), (''PWD'', ''/''),
     (''SHELL'', ''/bin/bash''), (''TERM'', ''xterm-256color''), (''USER'', ''root''),
     (''HOSTNAME'', ''sandbox''), (''LANG'', ''C.UTF-8''), (''IFS'', [CHR '' '', CHR 0x09, CHR 0x0A])]"

definition boot_exports :: "string list" where
  "boot_exports = [''HOME'', ''PATH'', ''PWD'', ''SHELL'', ''TERM'', ''USER'', ''HOSTNAME'', ''LANG'']"

text \<open>The three standard descriptors: an empty input and two captures.\<close>

definition standard_descriptors :: "unit fd_result" where
  "standard_descriptors =
     and_then (in_arena new_fd_table (open_input new_arena [])) (\<lambda>(t, a) stdin.
     and_then (in_arena t (open_capture a)) (\<lambda>(t, a) stdout.
     and_then (in_arena t (open_capture a)) (\<lambda>(t, a) stderr.
     and_then (install t a 0 stdin) (\<lambda>(t, a) _.
     and_then (install t a 1 stdout) (\<lambda>(t, a) _.
       install t a 2 stderr)))))"

definition root_state :: "fd_table \<Rightarrow> process_state" where
  "root_state t =
     \<lparr>se_vars = from_iter boot_variables, se_arrays = no_arrays, se_positional = positional_from [],
      se_exported = set boot_exports, se_readonly = {}, local_scopes = [], local_saved_bytes = 0,
      frame_saved_bytes = 0, input_stream = [], last_status = 0, shell_pid = ROOT_PID, ppid = 0,
      se_pid = ROOT_PID, random_state = 1, se_cwd = ''/'', arg0 = ''shellsim'', optind = 1,
      getopts_offset = 1, opt_nounset = False, expansion_error = None,
      action_generation = 0, session_id = ROOT_PID, process_group = ROOT_PID, umask = 0x12,
      shell_options = {}, command_hash = om_empty, directory_stack = [], funcs = om_empty,
      aliases = om_empty, syscall_random_state = 0x5eed5eed5eed5eed, opt_errexit = False,
      opt_errtrace = False, opt_xtrace = False, opt_pipefail = False, expansion_depth = 0,
      loop_break = 0, loop_continue = 0, loop_depth = 0, returning = None, source_depth = 0,
      exiting = None, cond_depth = 0, ps_uid = 0, input_pos = 0, fds = t, jobs = [], next_job_id = 1,
      pending_signals = {}, signal_dispositions = om_empty, exit_disposition = None,
      err_disposition = None, err_trap_active = True, handling_error = False, handling_signal = False,
      deadline_interrupt = None, fork_allocation_bytes = 0, exec_allocation_bytes = 0,
      state_baseline = 0, state_reserved = 0, expansion_reserved = 0, detached_output = False\<rparr>"

text \<open>The copy of a descriptor table that \<open>/proc\<close> shows.\<close>

definition descriptor_labels :: "descriptor_arena \<Rightarrow> fd_table \<Rightarrow> (fd, string) omap" where
  "descriptor_labels a t = om_of_list (List.map_filter (\<lambda>(f, i). case description_label a i of
       Ok label \<Rightarrow> Some (f, label) | _ \<Rightarrow> None) (om_entries (entries t)))"

text \<open>The exported variables, collected into an ordered map.\<close>

definition exported_env :: "process_state \<Rightarrow> environment" where
  "exported_env p = om_retain (\<lambda>name _. name \<in> se_exported p) (v_values (se_vars p))"

definition shell_state_bytes :: "process_state \<Rightarrow> u64" where
  "shell_state_bytes p = state_bytes (shell_env.truncate p)"

text \<open>The machine around a seeded file system.\<close>

definition boot_machine :: "limits \<Rightarrow> vfs \<Rightarrow> fd_table \<Rightarrow> descriptor_arena \<Rightarrow> machine" where
  "boot_machine l v t a =
     (let p = root_state t; p = p\<lparr>state_baseline := shell_state_bytes p\<rparr>; env = exported_env p
      in \<lparr>vfs = v, clock = new_timeline, resources = new_resources l,
          processes = update_descriptors (new_table ROOT_PID ''/'' env) ROOT_PID (descriptor_labels a t),
          terminal = new_terminal ROOT_PID, sched = new_scheduler ROOT_PID, descriptors = a,
          pipe_reservations = om_empty, active = ROOT_PID, contexts = om_insert ROOT_PID p om_empty,
          next_temp = 0, pending_stdout = [], pending_stderr = []\<rparr>)"

definition boot_programs :: "(string \<times> native_program) list" where
  "boot_programs = builtin_programs
     @ map (\<lambda>name. (name, NpLegacyRegistered name)) [''sh'', ''bash'', ''dash'', ''zsh'']"

fun seed_programs :: "vfs \<Rightarrow> (string \<times> native_program) list \<Rightarrow> unit vfs_result" where
  "seed_programs v [] = (v, Ok ())"
| "seed_programs v ((path, program) # rest) =
     and_then (seed_native_executable v path program) (\<lambda>v _. seed_programs v rest)"

text \<open>The commands of the registry that get a file: all but the older bodies of built-in programs, each
  of \<open>/usr/bin\<close> in \<open>/bin\<close> as well.\<close>

definition registry_paths :: "(string \<times> native_program) list \<Rightarrow> (string \<times> native_program) list" where
  "registry_paths registered = concat (map (\<lambda>(path, image).
     (path, image) # (if starts_with path ''/usr/bin/'' then [(''/bin/'' @ drop 9 path, image)] else []))
     (filter (\<lambda>(path, image). case image of
        NpLegacyRegistered name \<Rightarrow> native_from_name name = None | _ \<Rightarrow> True) registered))"

definition with_limits :: "limits \<Rightarrow> (string \<times> native_program) list \<Rightarrow> (vfs_error, machine) outcome" where
  "with_limits l registered =
     (case standard_descriptors of
        ((t, a), Ok _) \<Rightarrow>
          (let v = set_mutation_time (with_disk_limit (lim_disk l)) (unix_ms new_timeline)
           in case and_then (seed_dirs v [''/root'', ''/tmp'', ''/work'', ''/usr'', ''/usr/bin'', ''/bin''])
                (\<lambda>v _. seed_programs v (concat (map (\<lambda>(name, program).
                    [(''/usr/bin/'' @ name, program), (''/bin/'' @ name, program)]) boot_programs)
                  @ registry_paths registered)) of
                (v, Ok _) \<Rightarrow> Ok (boot_machine l v t a)
              | (v, Err e) \<Rightarrow> Err e
              | (v, Panic) \<Rightarrow> Panic)
      | _ \<Rightarrow> Panic)"

section \<open>Wake-ups and reservations\<close>

definition wake_lock_waiters :: "machine \<Rightarrow> unit sys_result" where
  "wake_lock_waiters m =
     (case take_file_lock_changes (descriptors m) of (a, changed) \<Rightarrow>
        let m' = m\<lparr>descriptors := a\<rparr>
        in if changed then in_sched m' (wake_file_lock_waiters (sched m')) else (m', Ok ()))"

definition release_reservation :: "pipe_id \<Rightarrow> machine \<Rightarrow> machine" where
  "release_reservation p m = (case om_lookup (pipe_reservations m) p of
       None \<Rightarrow> m
     | Some n \<Rightarrow> m\<lparr>pipe_reservations := om_remove p (pipe_reservations m),
                   resources := release_memory (resources m) n\<rparr>)"

definition release_closed_pipe_memory :: "machine \<Rightarrow> machine" where
  "release_closed_pipe_memory m =
     fold release_reservation
       (filter (\<lambda>p. \<not> contains_pipe (descriptors m) p) (om_keys (pipe_reservations m))) m"

definition endpoint_reason :: "pipe_id \<times> bool \<Rightarrow> wait_reason" where
  "endpoint_reason e = (case e of (p, reader) \<Rightarrow> if reader then PipeWritable p else PipeReadable p)"

definition wake_pipe_endpoint :: "machine \<Rightarrow> (pipe_id \<times> bool) option \<Rightarrow> unit sys_result" where
  "wake_pipe_endpoint m e =
     and_then (case e of
         None \<Rightarrow> (m, Ok ())
       | Some x \<Rightarrow> in_sched m (wake_waiters (sched m) (endpoint_reason x)))
     (\<lambda>m _. wake_lock_waiters (release_closed_pipe_memory m))"

definition refresh_descriptor_snapshot :: "machine \<Rightarrow> process_id \<Rightarrow> machine" where
  "refresh_descriptor_snapshot m pid =
     m\<lparr>processes := update_descriptors (processes m) pid
        (case om_lookup (contexts m) pid of
           None \<Rightarrow> om_empty
         | Some p \<Rightarrow> descriptor_labels (descriptors m) (fds p))\<rparr>"

definition install_new_description :: "machine \<Rightarrow> fd \<Rightarrow> description_id \<Rightarrow> unit sys_result" where
  "install_new_description m f d = with_active m (\<lambda>p.
     case in_table m p (install (fds p) (descriptors m) f d) of
       (m', Ok _) \<Rightarrow> (refresh_descriptor_snapshot m' (se_pid p), Ok ())
     | (m', Err e) \<Rightarrow> (m'\<lparr>descriptors := fst (discard_unreferenced (descriptors m') d)\<rparr>, Err e)
     | (m', Panic) \<Rightarrow> (m', Panic))"

text \<open>The walk up the process ancestry; it is bounded by the size of the process table.\<close>

fun wake_ancestors :: "nat \<Rightarrow> machine \<Rightarrow> process_id \<Rightarrow> unit sys_result" where
  "wake_ancestors 0 m pid = (m, Ok ())"
| "wake_ancestors (Suc n) m pid =
     and_then (in_sched m (wake_child_activity_waiters (sched m) pid))
       (\<lambda>m _. case proc (processes m) pid of
          None \<Rightarrow> (m, Ok ())
        | Some r \<Rightarrow> if pr_ppid r = pid then (m, Ok ()) else wake_ancestors n m (pr_ppid r))"

definition wake_activity :: "machine \<Rightarrow> process_id \<Rightarrow> unit sys_result" where
  "wake_activity m pid = wake_ancestors MAX_PROCESSES m pid"

definition sync_vfs_time :: "machine \<Rightarrow> machine" where
  "sync_vfs_time m = m\<lparr>vfs := set_mutation_time (vfs m) (unix_ms (clock m))\<rparr>"

fun io_wait_reason :: "io_wait \<Rightarrow> wait_reason" where
  "io_wait_reason (WaitInput d) = InputReadable d"
| "io_wait_reason (WaitPipeReadable p) = PipeReadable p"
| "io_wait_reason (WaitPipeWritable p) = PipeWritable p"

definition block_on_io :: "machine \<Rightarrow> io_wait \<Rightarrow> unit sys_result" where
  "block_on_io m w = (case block_current (sched m) (io_wait_reason w) of
       (s, Ok _) \<Rightarrow> (m\<lparr>sched := s\<rparr>, Ok ())
     | (s, Err e) \<Rightarrow> (m\<lparr>sched := s\<rparr>, Err (SysProcess ''unable to block process on descriptor''))
     | (s, Panic) \<Rightarrow> (m\<lparr>sched := s\<rparr>, Panic))"

section \<open>Reading and writing\<close>

datatype file_mutation = MutWrite | MutResize nat

definition cow_copy_bytes :: "node \<Rightarrow> bool \<Rightarrow> bool \<Rightarrow> file_mutation \<Rightarrow> u64" where
  "cow_copy_bytes n installed aliased mutation = (case kind n of
       NFile bs \<Rightarrow>
         if \<not> installed \<and> \<not> aliased then 0
         else (case mutation of
             MutWrite \<Rightarrow> len64 bs
           | MutResize new_len \<Rightarrow> if new_len = length bs then 0 else of_nat (min new_len (length bs)))
     | _ \<Rightarrow> 0)"

definition file_cow_bytes :: "vfs \<Rightarrow> string \<Rightarrow> string \<Rightarrow> bool \<Rightarrow> file_mutation \<Rightarrow> u64 vfs_query" where
  "file_cow_bytes v cwd path aliased mutation = bind_oc (write_target v cwd path)
     (\<lambda>target. case raw_get v target of
        None \<Rightarrow> Ok 0
      | Some n \<Rightarrow> Ok (cow_copy_bytes n (\<not> om_contains (overlay v) target) aliased mutation))"

definition orphan_cow_bytes :: "vfs \<Rightarrow> u64 \<Rightarrow> bool \<Rightarrow> file_mutation \<Rightarrow> u64 vfs_query" where
  "orphan_cow_bytes v i aliased mutation = bind_oc (orphan_metadata v i)
     (\<lambda>n. Ok (cow_copy_bytes n False aliased mutation))"

definition read_fd_at :: "machine \<Rightarrow> fd \<Rightarrow> u64 \<Rightarrow> nat \<Rightarrow> bytes sys_result" where
  "read_fd_at m f offset maximum = with_active m (\<lambda>p.
     try_desc m (fd_get (fds p) f) (\<lambda>d.
     try_desc m (file_state_of (descriptors m) d) (\<lambda>fo. case fo of
         None \<Rightarrow> (m, Err InvalidArgument)
       | Some file \<Rightarrow>
           if \<not> fs_readable file then (m, Err Permission)
           else let n = min maximum MAX_CAPTURE_BYTES
                in in_vfs m (case fs_orphan file of
                     Some i \<Rightarrow> read_orphan_range (vfs m) i (unat offset) n
                   | None \<Rightarrow> read_range (vfs m) ''/'' (fs_path file) (unat offset) n))))"

definition wake_after_read :: "machine \<Rightarrow> process_id \<Rightarrow> description_id \<Rightarrow> 'a io_poll \<Rightarrow> 'a io_poll sys_result" where
  "wake_after_read m pid d result = (case result of
       Ready _ \<Rightarrow> try_desc m (pipe_endpoint (descriptors m) d) (\<lambda>e. case e of
           Some (q, True) \<Rightarrow> and_then (in_sched m (wake_waiters (sched m) (PipeWritable q)))
             (\<lambda>m _. and_then (wake_activity m pid) (\<lambda>m _. (m, Ok result)))
         | _ \<Rightarrow> (m, Ok result))
     | Blocks _ \<Rightarrow> (m, Ok result))"

definition wake_after_write :: "machine \<Rightarrow> process_id \<Rightarrow> description_id \<Rightarrow> 'a io_poll \<Rightarrow> 'a io_poll sys_result" where
  "wake_after_write m pid d result = (case result of
       Ready _ \<Rightarrow> try_desc m (pipe_endpoint (descriptors m) d) (\<lambda>e. case e of
           Some (q, False) \<Rightarrow> and_then (in_sched m (wake_waiters (sched m) (PipeReadable q)))
             (\<lambda>m _. and_then (wake_activity m pid) (\<lambda>m _. (m, Ok result)))
         | _ \<Rightarrow> (m, Ok result))
     | Blocks _ \<Rightarrow> (m, Ok result))"

definition charge :: "machine \<Rightarrow> u64 \<Rightarrow> machine \<times> bool" where
  "charge m n = (case charge_cpu (resources m) n of (r, ok) \<Rightarrow> (m\<lparr>resources := r\<rparr>, ok))"

definition reserve :: "machine \<Rightarrow> u64 \<Rightarrow> machine \<times> bool" where
  "reserve m n = (case reserve_memory (resources m) n of (r, ok) \<Rightarrow> (m\<lparr>resources := r\<rparr>, ok))"

definition release :: "machine \<Rightarrow> u64 \<Rightarrow> machine" where
  "release m n = m\<lparr>resources := release_memory (resources m) n\<rparr>"

text \<open>The quantum of a read from a generated device: as much as the remaining fuel covers.\<close>

definition device_quantum :: "machine \<Rightarrow> description_id \<Rightarrow> nat \<Rightarrow> nat sys_result" where
  "device_quantum m d maximum = try_desc m (is_generated_device (descriptors m) d) (\<lambda>generated.
     if \<not> generated then (m, Ok maximum)
     else let n = min (min maximum DEVICE_READ_QUANTUM) (unat (cpu_remaining (resources m) div 2))
          in if n = 0 then (fst (charge m 1), Err ResourceExhausted)
             else case charge m (of_nat n) of
               (m', False) \<Rightarrow> (m', Err ResourceExhausted)
             | (m', True) \<Rightarrow> (m', Ok n))"

definition sys_read :: "machine \<Rightarrow> fd \<Rightarrow> nat \<Rightarrow> bytes io_poll sys_result" where
  "sys_read m f maximum = with_active m (\<lambda>p.
     try_desc m (fd_get (fds p) f) (\<lambda>d.
     try_desc m (file_state_of (descriptors m) d) (\<lambda>fo. case fo of
         Some file \<Rightarrow> and_then (read_fd_at m f (fs_cursor file) maximum)
           (\<lambda>m bs. and_then (in_descriptors m (advance_file (descriptors m) d (length bs)))
              (\<lambda>m _. (m, Ok (Ready bs))))
       | None \<Rightarrow> and_then (device_quantum m d maximum)
           (\<lambda>m n. and_then (in_descriptors m (read_description (descriptors m) d n))
              (\<lambda>m result. wake_after_read m (se_pid p) d result)))))"

text \<open>The position of a write: the length of the file for an appending description, else the cursor.\<close>

definition write_position :: "vfs \<Rightarrow> file_state \<Rightarrow> (syscall_error, u64) outcome" where
  "write_position v file =
     (if fs_append file
      then (case fs_orphan file of
          Some i \<Rightarrow> bind_oc (map_err SysFile (orphan_metadata v i)) (\<lambda>n. case kind n of
              NFile bs \<Rightarrow> Ok (len64 bs) | _ \<Rightarrow> Err InvalidArgument)
        | None \<Rightarrow> bind_oc (map_err SysFile (file_len v ''/'' (fs_path file))) (\<lambda>n. Ok (of_nat n)))
      else Ok (fs_cursor file))"

definition write_cost :: "vfs \<Rightarrow> file_state \<Rightarrow> bool \<Rightarrow> file_mutation \<Rightarrow> u64 vfs_query" where
  "write_cost v file aliased mutation = (case fs_orphan file of
       Some i \<Rightarrow> orphan_cow_bytes v i aliased mutation
     | None \<Rightarrow> file_cow_bytes v ''/'' (fs_path file) aliased mutation)"

definition write_file_at :: "machine \<Rightarrow> description_id \<Rightarrow> file_state \<Rightarrow> bytes \<Rightarrow> bool \<Rightarrow> nat io_poll sys_result" where
  "write_file_at m d file bs aliased =
     (if \<not> fs_writable file then (m, Err Permission)
      else try_in m (write_position (vfs m) file) (\<lambda>position.
        try_file m (write_cost (vfs m) file aliased MutWrite) (\<lambda>copied.
          case charge m copied of
            (m1, False) \<Rightarrow> (m1, Err ResourceExhausted)
          | (m1, True) \<Rightarrow> (case reserve m1 copied of
              (m2, False) \<Rightarrow> (m2, Err ResourceExhausted)
            | (m2, True) \<Rightarrow>
                let m3 = sync_vfs_time m2
                in case (case fs_orphan file of
                       Some i \<Rightarrow> write_orphan_at (vfs m3) i (unat position) bs
                     | None \<Rightarrow> write_at (vfs m3) ''/'' (fs_path file) (unat position) bs) of
                     (v, Ok _) \<Rightarrow>
                       let m4 = release (m3\<lparr>vfs := v\<rparr>) copied
                       in and_then (in_descriptors m4 (seek_file (descriptors m4) d
                              (saturating_add position (len64 bs))))
                            (\<lambda>m _. (m, Ok (Ready (length bs))))
                   | (v, Err e) \<Rightarrow>
                       let m4 = release (m3\<lparr>vfs := v\<rparr>) copied;
                           m5 = (if fs_remove_on_first_write_error file \<and> position = 0
                                 then m4\<lparr>vfs := fst (remove_file (vfs m4) ''/'' (fs_path file))\<rparr> else m4)
                       in (m5, Err (SysFile e))
                   | (v, Panic) \<Rightarrow> (m3\<lparr>vfs := v\<rparr>, Panic)))))"

definition sys_write :: "machine \<Rightarrow> fd \<Rightarrow> bytes \<Rightarrow> bool \<Rightarrow> nat io_poll sys_result" where
  "sys_write m f bs aliased = with_active m (\<lambda>p.
     try_desc m (fd_get (fds p) f) (\<lambda>d.
     try_desc m (file_state_of (descriptors m) d) (\<lambda>fo. case fo of
         Some file \<Rightarrow> write_file_at m d file bs aliased
       | None \<Rightarrow> and_then (in_descriptors m (write_description (descriptors m) d bs))
           (\<lambda>m result. wake_after_write m (se_pid p) d result))))"

section \<open>Descriptor calls\<close>

definition endpoint_at :: "machine \<Rightarrow> fd_table \<Rightarrow> fd \<Rightarrow> (pipe_id \<times> bool) option" where
  \<comment> \<open>\<open>fds.get(fd).ok().and_then(|id| pipe_endpoint(id).ok().flatten())\<close>\<close>
  "endpoint_at m t f = (case fd_get t f of
       Ok d \<Rightarrow> (case pipe_endpoint (descriptors m) d of Ok e \<Rightarrow> e | _ \<Rightarrow> None)
     | _ \<Rightarrow> None)"

definition sys_duplicate :: "machine \<Rightarrow> fd \<Rightarrow> fd \<Rightarrow> unit sys_result" where
  "sys_duplicate m source destination = with_active m (\<lambda>p.
     let previous = endpoint_at m (fds p) destination
     in and_then (in_table m p (duplicate (fds p) (descriptors m) source destination))
          (\<lambda>m _. and_then (wake_pipe_endpoint m previous)
             (\<lambda>m _. (refresh_descriptor_snapshot m (se_pid p), Ok ()))))"

definition sys_descriptor_state :: "machine \<Rightarrow> fd \<Rightarrow> descriptor_state sys_result" where
  "sys_descriptor_state m f = with_active m (\<lambda>p. try_desc m (fd_get (fds p) f)
     (\<lambda>d. (m, map_err SysDescriptor (state_of (descriptors m) d))))"

definition file_lock_inode :: "machine \<Rightarrow> fd \<Rightarrow> u64 sys_result" where
  "file_lock_inode m f = with_active m (\<lambda>p. try_desc m (fd_get (fds p) f)
     (\<lambda>d. (m, map_err SysDescriptor (inode_of (descriptors m) d))))"

definition sys_file_lock :: "machine \<Rightarrow> fd \<Rightarrow> file_lock_mode option \<Rightarrow> bool sys_result" where
  "sys_file_lock m f lock_mode = (case charge m (of_nat MAX_OPEN_DESCRIPTIONS) of
       (m', False) \<Rightarrow> (m', Err ResourceExhausted)
     | (m', True) \<Rightarrow> and_then (file_lock_inode m' f) (\<lambda>m ino. with_active m (\<lambda>p.
         try_desc m (fd_get (fds p) f) (\<lambda>d.
           and_then (in_descriptors m (lock_file (descriptors m) d ino lock_mode)) (\<lambda>m acquired.
             and_then (wake_lock_waiters m) (\<lambda>m _. (m, Ok acquired)))))))"

definition file_length :: "vfs \<Rightarrow> file_state \<Rightarrow> nat vfs_query" where
  "file_length v file = (case fs_orphan file of
       Some i \<Rightarrow> orphan_len v i | None \<Rightarrow> file_len v ''/'' (fs_path file))"

definition descriptor_readiness :: "machine \<Rightarrow> fd \<Rightarrow> bool \<Rightarrow> descriptor_ready io_poll sys_result" where
  "descriptor_readiness m f writing = with_active m (\<lambda>p. try_desc m (fd_get (fds p) f) (\<lambda>d.
     try_desc m (file_state_of (descriptors m) d) (\<lambda>fo. case fo of
         Some file \<Rightarrow>
           if (writing \<and> \<not> fs_writable file) \<or> (\<not> writing \<and> \<not> fs_readable file)
           then (m, Err (SysDescriptor WrongAccess))
           else if writing then (m, Ok (Ready \<lparr>rd_bytes = u64_max, rd_hangup = False\<rparr>))
           else try_file m (file_length (vfs m) file) (\<lambda>n.
             (m, Ok (Ready \<lparr>rd_bytes = saturating_sub (of_nat n) (fs_cursor file), rd_hangup = False\<rparr>)))
       | None \<Rightarrow> (m, map_err SysDescriptor (readiness (descriptors m) d writing)))))"

definition sys_directory_path :: "machine \<Rightarrow> fd \<Rightarrow> string sys_result" where
  "sys_directory_path m f = with_active m (\<lambda>p. try_desc m (fd_get (fds p) f)
     (\<lambda>d. (m, map_err SysDescriptor (directory_path (descriptors m) d))))"

text \<open>Two free descriptor numbers from 5 on; 3 and 4 are the working directory and the root of a guest.\<close>

definition free_fds :: "fd_table \<Rightarrow> fd list" where
  "free_fds t = filter (\<lambda>f. fd_get t f = Err InvalidFd)
     (map (\<lambda>k. 5 + int k) [0..<MAX_FDS_PER_PROCESS])"

definition PIPE_RESERVATION :: u64 where
  "PIPE_RESERVATION = of_nat DEFAULT_PIPE_CAPACITY + 256"

text \<open>One round of the loop of \<open>pipe\<close>; each of its three calls is followed by an \<open>expect\<close>.\<close>

definition install_end :: "machine \<Rightarrow> process_state \<Rightarrow> bool \<Rightarrow> bool \<Rightarrow> fd \<Rightarrow> description_id
    \<Rightarrow> (machine \<times> process_state) \<times> (syscall_error, unit) outcome" where
  "install_end m p cloexec nonblock f d =
     (case install (fds p) (descriptors m) f d of
        ((t, a), Ok _) \<Rightarrow>
          (case set_close_on_exec t f cloexec of
             (t', Ok _) \<Rightarrow>
               (case set_nonblocking a d nonblock of
                  (a', Ok _) \<Rightarrow> ((m\<lparr>descriptors := a'\<rparr>, p\<lparr>fds := t'\<rparr>), Ok ())
                | (a', _) \<Rightarrow> ((m\<lparr>descriptors := a'\<rparr>, p\<lparr>fds := t'\<rparr>), Panic))
           | (t', _) \<Rightarrow> ((m\<lparr>descriptors := a\<rparr>, p\<lparr>fds := t'\<rparr>), Panic))
      | ((t, a), _) \<Rightarrow> ((m\<lparr>descriptors := a\<rparr>, p\<lparr>fds := t\<rparr>), Panic))"

definition sys_pipe :: "machine \<Rightarrow> bool \<Rightarrow> bool \<Rightarrow> (fd \<times> fd) sys_result" where
  "sys_pipe m cloexec nonblock = with_active m (\<lambda>p. case take 2 (free_fds (fds p)) of
       [f, g] \<Rightarrow>
         if MAX_FDS_PER_PROCESS - 2 < om_size (entries (fds p)) then (m, Err (SysDescriptor DescriptorLimit))
         else (case charge m 1 of
           (m1, False) \<Rightarrow> (m1, Err ResourceExhausted)
         | (m1, True) \<Rightarrow> (case reserve m1 PIPE_RESERVATION of
             (m2, False) \<Rightarrow> (m2, Err ResourceExhausted)
           | (m2, True) \<Rightarrow> (case open_pipe (descriptors m2) DEFAULT_PIPE_CAPACITY of
               (a, Ok (reader, writer)) \<Rightarrow>
                 (let m3 = m2\<lparr>descriptors := a\<rparr>
                  in try_desc m3 (pipe_endpoint a reader) (\<lambda>e. case e of
                       None \<Rightarrow> (m3, Panic)
                     | Some (q, _) \<Rightarrow>
                         (let m4 = m3\<lparr>pipe_reservations := om_insert q PIPE_RESERVATION (pipe_reservations m3)\<rparr>
                          in case and_then (install_end m4 p cloexec nonblock f reader)
                               (\<lambda>(m, p) _. install_end m p cloexec nonblock g writer) of
                               ((m5, p'), Ok _) \<Rightarrow>
                                 (refresh_descriptor_snapshot (set_active m5 p') (se_pid p), Ok (f, g))
                             | ((m5, p'), Err e) \<Rightarrow> (set_active m5 p', Err e)
                             | ((m5, p'), Panic) \<Rightarrow> (set_active m5 p', Panic))))
             | (a, Err e) \<Rightarrow> (release (m2\<lparr>descriptors := a\<rparr>) PIPE_RESERVATION, Err (SysDescriptor e))
             | (a, Panic) \<Rightarrow> (m2\<lparr>descriptors := a\<rparr>, Panic))))
     | _ \<Rightarrow> (m, Err (SysDescriptor DescriptorLimit)))"

definition sys_file_state :: "machine \<Rightarrow> fd \<Rightarrow> file_state sys_result" where
  "sys_file_state m f = with_active m (\<lambda>p. try_desc m (fd_get (fds p) f) (\<lambda>d.
     try_desc m (file_state_of (descriptors m) d) (\<lambda>fo. case fo of
         None \<Rightarrow> (m, Err (SysDescriptor WrongAccess)) | Some file \<Rightarrow> (m, Ok file))))"

definition sys_resize_file :: "machine \<Rightarrow> fd \<Rightarrow> nat \<Rightarrow> bool \<Rightarrow> unit sys_result" where
  "sys_resize_file m f new_len aliased = and_then (sys_file_state m f) (\<lambda>m file.
     if \<not> fs_writable file then (m, Err Permission)
     else try_file m (file_length (vfs m) file) (\<lambda>old_len.
       try_file m (write_cost (vfs m) file aliased (MutResize new_len)) (\<lambda>copied.
         let allocation = saturating_add copied (of_nat (new_len - old_len))
         in case charge m (saturating_add allocation 1) of
              (m1, False) \<Rightarrow> (m1, Err ResourceExhausted)
            | (m1, True) \<Rightarrow> (case reserve m1 allocation of
                (m2, False) \<Rightarrow> (m2, Err ResourceExhausted)
              | (m2, True) \<Rightarrow>
                  let m3 = sync_vfs_time m2
                  in case (case fs_orphan file of
                         Some i \<Rightarrow> resize_orphan (vfs m3) i new_len
                       | None \<Rightarrow> resize_file (vfs m3) ''/'' (fs_path file) new_len) of
                       (v, Panic) \<Rightarrow> (m3\<lparr>vfs := v\<rparr>, Panic)
                     | (v, r) \<Rightarrow> (release (m3\<lparr>vfs := v\<rparr>) allocation, map_err SysFile r)))))"

definition sys_close :: "machine \<Rightarrow> fd \<Rightarrow> unit sys_result" where
  "sys_close m f = with_active m (\<lambda>p.
     try_desc m (fd_get (fds p) f) (\<lambda>d.
     try_desc m (pipe_endpoint (descriptors m) d) (\<lambda>e.
       and_then (in_table m p (close_fd (fds p) (descriptors m) f)) (\<lambda>m _.
         and_then (wake_pipe_endpoint m e) (\<lambda>m _.
           (refresh_descriptor_snapshot
              (m\<lparr>vfs := retain_orphans (vfs m) (live_orphans (descriptors m))\<rparr>) (se_pid p), Ok ()))))))"

text \<open>The position of \<open>seek\<close> is computed in \<open>i128\<close> and converted back to \<open>u64\<close>.\<close>

definition seek_base :: "machine \<Rightarrow> file_state \<Rightarrow> u32 \<Rightarrow> (syscall_error, int) outcome" where
  "seek_base m file whence =
     (if whence = 0 then Ok 0
      else if whence = 1 then Ok (uint (fs_cursor file))
      else if whence = 2 then bind_oc (map_err SysFile (file_length (vfs m) file)) (\<lambda>n. Ok (int n))
      else Err InvalidArgument)"

definition sys_seek :: "machine \<Rightarrow> fd \<Rightarrow> int \<Rightarrow> u32 \<Rightarrow> u64 sys_result" where
  "sys_seek m f delta whence = with_active m (\<lambda>p.
     try_desc m (fd_get (fds p) f) (\<lambda>d.
       if whence > 2 then (m, Err InvalidArgument)
       else try_desc m (state_of (descriptors m) d) (\<lambda>st.
         if ds_kind st = KDevice then (m, Ok 0)
         else and_then (sys_file_state m f) (\<lambda>m file.
           try_in m (seek_base m file whence) (\<lambda>start.
             if start + delta < 0 \<or> 2 ^ 64 \<le> start + delta then (m, Err InvalidArgument)
             else let position = word_of_int (start + delta)
                  in and_then (in_descriptors m (seek_file (descriptors m) d position))
                       (\<lambda>m _. (m, Ok position)))))))"

section \<open>Redirection scopes\<close>

text \<open>A redirected command keeps a fork of the descriptor table and restores it, or drops it when the
  redirection is to last, as for \<open>exec >file\<close>. Applying the redirections expands words and opens
  files; it is the argument \<open>apply_all\<close>.\<close>

record redirect_scope =
  scope_saved :: fd_table
  scope_memory :: u64

definition restore_fds :: "machine \<Rightarrow> fd_table \<Rightarrow> unit sys_result" where
  "restore_fds m saved = with_active m (\<lambda>p. case close_all (fds p) (descriptors m) of
     (_, a) \<Rightarrow> (refresh_descriptor_snapshot ((set_active m (p\<lparr>fds := saved\<rparr>))\<lparr>descriptors := a\<rparr>) (se_pid p), Ok ()))"

definition begin_redirects :: "(machine \<Rightarrow> unit sys_result) \<Rightarrow> machine \<Rightarrow> redirect_scope sys_result" where
  "begin_redirects apply_all m =
     (let snapshot_bytes = saturating_add (disk_used (vfs m)) 4096
      in case reserve m snapshot_bytes of
           (m1, False) \<Rightarrow> (m1, Err (SysProcess ''memory limit exceeded while preparing redirections''))
         | (m1, True) \<Rightarrow> with_active m1 (\<lambda>p. case fork_table (fds p) (descriptors m1) of
               (a, Ok saved) \<Rightarrow> (case apply_all (m1\<lparr>descriptors := a\<rparr>) of
                   (m2, Ok _) \<Rightarrow> (m2, Ok \<lparr>scope_saved = saved, scope_memory = snapshot_bytes\<rparr>)
                 | (m2, Err e) \<Rightarrow> and_then (restore_fds m2 saved)
                     (\<lambda>m3 _. (release (m3\<lparr>vfs := vfs m1\<rparr>) snapshot_bytes, Err e))
                 | (m2, Panic) \<Rightarrow> (m2, Panic))
             | (a, Err e) \<Rightarrow> (release (m1\<lparr>descriptors := a\<rparr>) snapshot_bytes, Err (SysDescriptor e))
             | (a, Panic) \<Rightarrow> (m1\<lparr>descriptors := a\<rparr>, Panic)))"

definition end_redirects :: "machine \<Rightarrow> redirect_scope \<Rightarrow> unit sys_result" where
  "end_redirects m s = and_then (restore_fds m (scope_saved s)) (\<lambda>m _. (release m (scope_memory s), Ok ()))"

definition commit_redirects :: "machine \<Rightarrow> redirect_scope \<Rightarrow> machine" where
  "commit_redirects m s = (case close_all (scope_saved s) (descriptors m) of
     (_, a) \<Rightarrow> release (m\<lparr>descriptors := a\<rparr>) (scope_memory s))"

section \<open>File system calls\<close>

definition contains_nul :: "string \<Rightarrow> bool" where
  "contains_nul s \<longleftrightarrow> list_ex (\<lambda>c. c = CHR 0x00) s"

definition sys_chmod :: "machine \<Rightarrow> string \<Rightarrow> string \<Rightarrow> u32 \<Rightarrow> unit sys_result" where
  "sys_chmod m cwd path md =
     (if path = '''' \<or> contains_nul path \<or> md AND NOT 0xfff \<noteq> 0 then (m, Err InvalidArgument)
      else let m = sync_vfs_time m in in_vfs m (chmod (vfs m) cwd path md))"

definition sys_unlink :: "machine \<Rightarrow> string \<Rightarrow> string \<Rightarrow> unit sys_result" where
  "sys_unlink m cwd path =
     (let m = sync_vfs_time m; absolute = resolve_against cwd path
      in try_file m (realpath (vfs m) absolute False) (\<lambda>name.
        if has_open_file (descriptors m) name
        then try_file m (metadata (vfs m) ''/'' name False) (\<lambda>n.
          if is_file_kind (kind n)
          then and_then (in_vfs m (unlink_open_file (vfs m) ''/'' name)) (\<lambda>m orphan.
            (m\<lparr>descriptors := detach_file (descriptors m) name orphan\<rparr>, Ok ()))
          else in_vfs m (remove_file (vfs m) cwd path))
        else in_vfs m (remove_file (vfs m) cwd path)))"

definition sys_mkdir :: "machine \<Rightarrow> string \<Rightarrow> string \<Rightarrow> unit sys_result" where
  "sys_mkdir m cwd path = with_active m (\<lambda>p.
     let m = sync_vfs_time m
     in and_then (in_vfs m (mkdir (vfs m) cwd path)) (\<lambda>m _.
          in_vfs m (chmod (vfs m) cwd path (0x1ff AND NOT (ucast (umask p))))))"

definition sys_rmdir :: "machine \<Rightarrow> string \<Rightarrow> string \<Rightarrow> unit sys_result" where
  "sys_rmdir m cwd path = (let m = sync_vfs_time m in in_vfs m (rmdir (vfs m) cwd path))"

definition sys_rename :: "machine \<Rightarrow> string \<Rightarrow> string \<Rightarrow> string \<Rightarrow> unit sys_result" where
  "sys_rename m cwd src dst = (let m = sync_vfs_time m in in_vfs m (rename_path (vfs m) cwd src dst))"

definition sys_write_file :: "machine \<Rightarrow> string \<Rightarrow> string \<Rightarrow> bytes \<Rightarrow> u32 \<Rightarrow> unit sys_result" where
  "sys_write_file m cwd path bs md = (let m = sync_vfs_time m in in_vfs m (write_file (vfs m) cwd path bs md))"

definition put_file_with_parents :: "machine \<Rightarrow> string \<Rightarrow> string \<Rightarrow> bytes \<Rightarrow> u32 \<Rightarrow> unit sys_result" where
  "put_file_with_parents m cwd path bs md =
     (let m = sync_vfs_time m in in_vfs m (put_file (vfs m) (resolve_against cwd path) bs md))"

definition sys_mkdir_all :: "machine \<Rightarrow> string \<Rightarrow> string \<Rightarrow> unit sys_result" where
  "sys_mkdir_all m cwd path = (let m = sync_vfs_time m in in_vfs m (mkdir_all (vfs m) cwd path))"

definition sys_copy_file :: "machine \<Rightarrow> string \<Rightarrow> string \<Rightarrow> string \<Rightarrow> unit sys_result" where
  "sys_copy_file m cwd src dst = (let m = sync_vfs_time m in in_vfs m (copy_file (vfs m) cwd src dst))"

definition sys_copy_recursive :: "machine \<Rightarrow> string \<Rightarrow> string \<Rightarrow> string \<Rightarrow> bool \<Rightarrow> unit sys_result" where
  "sys_copy_recursive m cwd src dst preserve =
     (let m = sync_vfs_time m in in_vfs m (copy_recursive (vfs m) cwd src dst preserve))"

definition sys_symlink :: "machine \<Rightarrow> string \<Rightarrow> string \<Rightarrow> string \<Rightarrow> unit sys_result" where
  "sys_symlink m cwd target link = (let m = sync_vfs_time m in in_vfs m (symlink (vfs m) cwd target link))"

definition sys_chown :: "machine \<Rightarrow> string \<Rightarrow> string \<Rightarrow> u32 option \<Rightarrow> u32 option \<Rightarrow> unit sys_result" where
  "sys_chown m cwd path u g = (let m = sync_vfs_time m in in_vfs m (chown (vfs m) cwd path u g))"

definition sys_touch :: "machine \<Rightarrow> string \<Rightarrow> string \<Rightarrow> u64 \<Rightarrow> unit sys_result" where
  "sys_touch m cwd path t = (let m = sync_vfs_time m in in_vfs m (touch (vfs m) cwd path t))"

end
