(* ===== verification/Machine_Inv.thy ===== *)
theory Machine_Inv
  imports Machine
begin

text \<open>
  The invariant of the machine and what the system calls do to it. \<open>kernel_ok\<close> says that the
  reference counts of the arena are those of all process contexts, that the scheduler is
  consistent, that no task waits on a pipe that is ready, and that the memory of the meter covers
  the reserved pipes.
\<close>

section \<open>Waits\<close>

text \<open>No task sleeps on a condition that holds: the wait reasons of blocked (and of stopped, blocked)
  tasks name existing pipe numbers that are not ready.\<close>

definition waits_but :: "wait_reason set \<Rightarrow> descriptor_arena \<Rightarrow> scheduler \<Rightarrow> bool" where
  "waits_but W a s \<longleftrightarrow> (\<forall>t r q. blocked_reason (task s t) = Some r \<longrightarrow>
     (accepts r (PipeReadable q) \<longrightarrow> q < next_pipe a \<and> (PipeReadable q \<in> W \<or> \<not> pipe_readable a q))
     \<and> (accepts r (PipeWritable q) \<longrightarrow> q < next_pipe a \<and> (PipeWritable q \<in> W \<or> \<not> pipe_writable a q)))"

definition waits_ok :: "descriptor_arena \<Rightarrow> scheduler \<Rightarrow> bool" where
  "waits_ok a s = waits_but {} a s"

definition fewer_waits :: "scheduler \<Rightarrow> scheduler \<Rightarrow> bool" where
  "fewer_waits s' s \<longleftrightarrow> (\<forall>t r. blocked_reason (task s' t) = Some r \<longrightarrow> blocked_reason (task s t) = Some r)"

lemma fewer_waits_refl [simp, intro]: "fewer_waits s s"
  by (simp add: fewer_waits_def)

lemma fewer_waits_trans [trans]: "fewer_waits s3 s2 \<Longrightarrow> fewer_waits s2 s1 \<Longrightarrow> fewer_waits s3 s1"
  by (auto simp: fewer_waits_def)

definition nobody_waits :: "scheduler \<Rightarrow> wait_reason \<Rightarrow> bool" where
  "nobody_waits s w \<longleftrightarrow> (\<forall>t r. blocked_reason (task s t) = Some r \<longrightarrow> \<not> accepts r w)"

lemma nobody_waits_fewer: "nobody_waits s w \<Longrightarrow> fewer_waits s' s \<Longrightarrow> nobody_waits s' w"
  by (auto simp: nobody_waits_def fewer_waits_def)

lemma wake_matching_waits:
  assumes "sched_inv s"
  obtains s' n where "wake_matching s P = (s', Ok n)" "sched_inv s'" "fewer_waits s' s"
    "\<forall>t r. blocked_reason (task s' t) = Some r \<longrightarrow> \<not> P r" "current s' = current s"
proof -
  from wake_matching_spec [OF assms, of P] obtain s' where s': "wake_matching s P = (s', Ok (length (waiters s P)))"
      "sched_inv s'" "current s' = current s"
      "\<forall>q. task s' q = (if q \<in> set (waiters s P) then map_option woken (task s q) else task s q)" by blast
  have woken: "blocked_reason (map_option woken t) = None" for t
    by (cases t) (auto simp: blocked_reason_def split: task_state.splits elim: woken.elims)
  have "blocked_reason (task s t) = Some r \<and> \<not> P r" if "blocked_reason (task s' t) = Some r" for t r
  proof (cases "t \<in> set (waiters s P)")
    case True
    then have "task s' t = map_option woken (task s t)" using s'(4) by simp
    then show ?thesis using that woken by simp
  next
    case False
    then have "task s' t = task s t" using s'(4) by simp
    then show ?thesis using that False set_waiters [OF assms, of t P] by auto
  qed
  then show thesis using s'(1-3) by (intro that [of s' "length (waiters s P)"]) (auto simp: fewer_waits_def)
qed

text \<open>What a change of the arena makes ready that was not.\<close>

definition newly_ready :: "descriptor_arena \<Rightarrow> descriptor_arena \<Rightarrow> wait_reason \<Rightarrow> bool" where
  "newly_ready a a' w \<longleftrightarrow> (\<exists>q < next_pipe a.
     w = PipeReadable q \<and> pipe_readable a' q \<and> \<not> pipe_readable a q
     \<or> w = PipeWritable q \<and> pipe_writable a' q \<and> \<not> pipe_writable a q)"

lemma waits_but_arena:
  assumes "waits_but W a s" "next_pipe a \<le> next_pipe a'" "\<And>w. newly_ready a a' w \<Longrightarrow> w \<in> W'" "W \<subseteq> W'"
  shows "waits_but W' a' s"
proof -
  have "PipeReadable q \<in> W'" if "q < next_pipe a" "pipe_readable a' q" "\<not> pipe_readable a q" for q
    using that by (intro assms(3)) (auto simp: newly_ready_def)
  moreover have "PipeWritable q \<in> W'" if "q < next_pipe a" "pipe_writable a' q" "\<not> pipe_writable a q" for q
    using that by (intro assms(3)) (auto simp: newly_ready_def)
  ultimately show ?thesis
    using assms(1,2,4) unfolding waits_but_def by (meson less_le_trans subsetD)
qed

lemma waits_but_fewer:
  assumes "waits_but W a s" "fewer_waits s' s" "\<And>w. w \<in> W \<Longrightarrow> w \<notin> W' \<Longrightarrow> nobody_waits s' w"
  shows "waits_but W' a s'"
  unfolding waits_but_def
proof (intro allI impI conjI)
  fix t r q assume b: "blocked_reason (task s' t) = Some r"
  then have b0: "blocked_reason (task s t) = Some r" using assms(2) by (auto simp: fewer_waits_def)
  have no: "\<not> accepts r w" if "w \<in> W" "w \<notin> W'" for w using assms(3) [OF that] b by (auto simp: nobody_waits_def)
  show "q < next_pipe a" if "accepts r (PipeReadable q)" using that assms(1) b0 by (auto simp: waits_but_def)
  show "q < next_pipe a" if "accepts r (PipeWritable q)" using that assms(1) b0 by (auto simp: waits_but_def)
  show "PipeReadable q \<in> W' \<or> \<not> pipe_readable a q" if "accepts r (PipeReadable q)"
    using that no [of "PipeReadable q"] assms(1) b0 by (auto simp: waits_but_def)
  show "PipeWritable q \<in> W' \<or> \<not> pipe_writable a q" if "accepts r (PipeWritable q)"
    using that no [of "PipeWritable q"] assms(1) b0 by (auto simp: waits_but_def)
qed

lemma newly_ready_same_pipes: "pipes a' = pipes a \<Longrightarrow> \<not> newly_ready a a' w"
  by (auto simp: newly_ready_def pipe_readable_def pipe_writable_def)

lemma newly_ready_old_pipes:
  "(\<And>q. q < next_pipe a \<Longrightarrow> pipe_of a' q = pipe_of a q) \<Longrightarrow> \<not> newly_ready a a' w"
  by (auto simp: newly_ready_def pipe_readable_def pipe_writable_def)

text \<open>Dropping a reference can only end the wait that \<open>endpoint_reason\<close> names.\<close>

lemma release_newly_ready:
  assumes "release_ref a i = (a', r)" "newly_ready a a' w"
  shows "\<exists>x. ep a i = Some x \<and> w = endpoint_reason x"
  using assms(1)
proof (cases rule: release_cases)
  case (dropped e)
  show ?thesis
  proof (cases "endpoint (description e)")
    case None
    then show ?thesis using assms(2) newly_ready_same_pipes [of a' a w] dropped(7) by simp
  next
    case (Some x)
    obtain p b where x: "x = (p, b)" by fastforce
    have pipes: "pipes a' = drop_pipe p b (pipes a)" using dropped(7) Some by (simp add: x)
    have "w = endpoint_reason (p, b)"
      using assms(2) drop_pipe_other [of _ p b "pipes a"] unfolding newly_ready_def
      by (auto simp: pipe_readable_def pipe_writable_def pipes endpoint_reason_def drop_pipe_def Let_def
          om_lookup_insert om_lookup_remove split: option.splits if_splits)
    then show ?thesis using Some dropped(2) by (simp add: ep_def x)
  qed
qed (use assms(2) newly_ready_same_pipes [of a' a w] in simp_all)

lemma read_newly_ready:
  assumes "arena_inv a" "newly_ready a (fst (read_description a i n)) w"
  shows "\<exists>q bs. ep a i = Some (q, True) \<and> w = PipeWritable q \<and> snd (read_description a i n) = Ok (Ready bs)"
proof (cases "entry a i")
  case (Some e)
  show ?thesis
  proof (cases "\<exists>q. description e = PipeReader q")
    case True
    then obtain q where q: "description e = PipeReader q" by blast
    then obtain st where "pipe_of a q = Some st" using entry_pipe [OF assms(1) Some, of q True] by auto
    then show ?thesis
      using assms(2) Some q
      by (auto simp: newly_ready_def read_description_def Let_def pipe_readable_def pipe_writable_def
          set_pipe_def om_lookup_insert ep_def split: if_splits option.splits)
  next
    case False
    then have "pipes (fst (read_description a i n)) = pipes a"
      using Some by (cases "description e"; auto simp: read_description_def Let_def slice_def split: prod.splits)
    then show ?thesis using assms(2) newly_ready_same_pipes by blast
  qed
qed (use assms(2) newly_ready_same_pipes [of a a] in \<open>simp add: read_description_def\<close>)

lemma write_newly_ready:
  assumes "arena_inv a" "newly_ready a (fst (write_description a i bs)) w"
  shows "\<exists>q n. ep a i = Some (q, False) \<and> w = PipeReadable q \<and> snd (write_description a i bs) = Ok (Ready n)"
proof (cases "entry a i")
  case (Some e)
  show ?thesis
  proof (cases "\<exists>q. description e = PipeWriter q")
    case True
    then obtain q where q: "description e = PipeWriter q" by blast
    then obtain st where "pipe_of a q = Some st" using entry_pipe [OF assms(1) Some, of q False] by auto
    then show ?thesis
      using assms(2) Some q
      by (auto simp: newly_ready_def write_description_def Let_def pipe_readable_def pipe_writable_def
          set_pipe_def om_lookup_insert ep_def split: if_splits option.splits)
  next
    case False
    then have "pipes (fst (write_description a i bs)) = pipes a"
      using Some by (cases "description e"; auto simp: write_description_def)
    then show ?thesis using assms(2) newly_ready_same_pipes by blast
  qed
qed (use assms(2) newly_ready_same_pipes [of a a] in \<open>simp add: write_description_def\<close>)


section \<open>The invariant of the machine\<close>

text \<open>References held by the tables of all contexts; \<open>X\<close> are those held elsewhere, as by a suspended
  redirection.\<close>

definition ctx_refs :: "(process_id, process_state) omap \<Rightarrow> description_id \<Rightarrow> nat" where
  "ctx_refs c i = om_weight (\<lambda>_ p. om_count (entries (fds p)) i) c"

definition tables_ok :: "(description_id \<Rightarrow> nat) \<Rightarrow> machine \<Rightarrow> bool" where
  "tables_ok X m \<longleftrightarrow> arena_inv (descriptors m)
     \<and> (\<forall>i. ref_count (descriptors m) i = ctx_refs (contexts m) i + X i)
     \<and> (\<forall>t p. om_lookup (contexts m) t = Some p \<longrightarrow> fd_ok (fds p))"

definition other_refs :: "(description_id \<Rightarrow> nat) \<Rightarrow> machine \<Rightarrow> description_id \<Rightarrow> nat" where
  "other_refs X m i = ctx_refs (om_remove (active m) (contexts m)) i + X i"

lemma ctx_refs_insert: "ctx_refs (om_insert t p c) i = ctx_refs (om_remove t c) i + om_count (entries (fds p)) i"
  by (simp add: ctx_refs_def om_weight_insert)

lemma ctx_refs_remove: "om_lookup c t = Some p \<Longrightarrow>
    ctx_refs c i = ctx_refs (om_remove t c) i + om_count (entries (fds p)) i"
  using om_weight_remove [of "\<lambda>_ p. om_count (entries (fds p)) i" c t] by (simp add: ctx_refs_def)

lemma tables_okD:
  assumes "tables_ok X m" "om_lookup (contexts m) (active m) = Some p"
  shows "table_ok (other_refs X m) (fds p, descriptors m)"
  using assms ctx_refs_remove [OF assms(2)]
  by (auto simp: tables_ok_def table_ok_def refs_with_def other_refs_def)

lemma tables_okI:
  assumes "tables_ok X m" "table_ok (other_refs X m) (fds p', a')"
  shows "tables_ok X ((set_active m p')\<lparr>descriptors := a'\<rparr>)"
  using assms
  by (auto simp: tables_ok_def table_ok_def refs_with_def other_refs_def set_active_def ctx_refs_insert
      om_lookup_insert split: if_splits)

text \<open>The memory of the meter is what the pipes reserved and \<open>b\<close>, what everything else holds.\<close>

definition memory_ok :: "nat \<Rightarrow> machine \<Rightarrow> bool" where
  "memory_ok b m \<longleftrightarrow>
     unat (memory_current (resources m)) = b + om_weight (\<lambda>_ n. unat n) (pipe_reservations m)"

definition reserved_pipes_open :: "machine \<Rightarrow> bool" where
  "reserved_pipes_open m \<longleftrightarrow>
     (\<forall>q. om_contains (pipe_reservations m) q \<longrightarrow> contains_pipe (descriptors m) q)"

text \<open>The invariant in the middle of a call, while the waits in \<open>W\<close> are still to be ended and the
  reservations of closed pipes still to be released, and between calls.\<close>

definition kernel_but :: "wait_reason set \<Rightarrow> (description_id \<Rightarrow> nat) \<Rightarrow> nat \<Rightarrow> machine \<Rightarrow> bool" where
  "kernel_but W X b m \<longleftrightarrow> tables_ok X m \<and> sched_inv (sched m)
     \<and> waits_but W (descriptors m) (sched m) \<and> memory_ok b m"

definition kernel_ok :: "(description_id \<Rightarrow> nat) \<Rightarrow> nat \<Rightarrow> machine \<Rightarrow> bool" where
  "kernel_ok X b m \<longleftrightarrow> kernel_but {} X b m \<and> reserved_pipes_open m"

text \<open>A call keeps the invariant when it does not panic.\<close>

definition keeps :: "(description_id \<Rightarrow> nat) \<Rightarrow> nat \<Rightarrow> 'a sys_result \<Rightarrow> bool" where
  "keeps X b r \<longleftrightarrow> snd r \<noteq> Panic \<longrightarrow> kernel_ok X b (fst r)"

lemma keepsI [intro]: "kernel_ok X b m \<Longrightarrow> keeps X b (m, r)"
  by (simp add: keeps_def)

lemma keeps_panic [simp]: "keeps X b (m, Panic)"
  by (simp add: keeps_def)

lemma keeps_and_then:
  assumes "keeps X b x" "\<And>m v. x = (m, Ok v) \<Longrightarrow> kernel_ok X b m \<Longrightarrow> keeps X b (k m v)"
  shows "keeps X b (and_then x k)"
  using assms by (cases "(x, k)" rule: and_then.cases) (auto simp: keeps_def)

lemma keeps_try:
  assumes "kernel_ok X b m" "\<And>v. r = Ok v \<Longrightarrow> keeps X b (k v)"
  shows "keeps X b (try_in m r k)"
  using assms by (cases r) (auto simp: keeps_def)

lemma keeps_try_desc:
  assumes "kernel_ok X b m" "\<And>v. r = Ok v \<Longrightarrow> keeps X b (k v)"
  shows "keeps X b (try_desc m r k)"
  unfolding try_desc_def by (rule keeps_try [OF assms(1)]) (cases r; use assms(2) in auto)

lemma keeps_try_file:
  assumes "kernel_ok X b m" "\<And>v. r = Ok v \<Longrightarrow> keeps X b (k v)"
  shows "keeps X b (try_file m r k)"
  unfolding try_file_def by (rule keeps_try [OF assms(1)]) (cases r; use assms(2) in auto)

lemma keeps_with_active:
  assumes "\<And>p. om_lookup (contexts m) (active m) = Some p \<Longrightarrow> keeps X b (k p)"
  shows "keeps X b (with_active m k)"
  using assms by (simp add: with_active_def keeps_def split: option.splits)

lemmas keeps_intros = keeps_and_then keeps_try_desc keeps_try_file keeps_try keeps_with_active

lemma kernel_butD:
  assumes "kernel_but W X b m"
  shows "tables_ok X m" "sched_inv (sched m)" "waits_but W (descriptors m) (sched m)" "memory_ok b m"
    "arena_inv (descriptors m)"
  using assms by (simp_all add: kernel_but_def tables_ok_def)

text \<open>Fields the invariant does not mention.\<close>

lemma kernel_but_frame [simp]:
  "kernel_but W X b (m\<lparr>vfs := v\<rparr>) = kernel_but W X b m"
  "kernel_but W X b (m\<lparr>clock := c\<rparr>) = kernel_but W X b m"
  "kernel_but W X b (m\<lparr>processes := t\<rparr>) = kernel_but W X b m"
  "kernel_but W X b (m\<lparr>terminal := tt\<rparr>) = kernel_but W X b m"
  "kernel_but W X b (m\<lparr>active := q\<rparr>) = kernel_but W X b m"
  by (simp_all add: kernel_but_def tables_ok_def memory_ok_def)

lemma kernel_ok_frame [simp]:
  "kernel_ok X b (m\<lparr>vfs := v\<rparr>) = kernel_ok X b m"
  "kernel_ok X b (m\<lparr>clock := c\<rparr>) = kernel_ok X b m"
  "kernel_ok X b (m\<lparr>processes := t\<rparr>) = kernel_ok X b m"
  "kernel_ok X b (m\<lparr>terminal := tt\<rparr>) = kernel_ok X b m"
  "kernel_ok X b (m\<lparr>active := q\<rparr>) = kernel_ok X b m"
  by (simp_all add: kernel_ok_def reserved_pipes_open_def)

lemma keeps_in_vfs: "kernel_ok X b m \<Longrightarrow> keeps X b (in_vfs m x)"
  by (cases x) (auto simp: keeps_def)

lemma kernel_ok_sync [simp]: "kernel_ok X b (sync_vfs_time m) = kernel_ok X b m"
  by (simp add: sync_vfs_time_def)

lemma kernel_ok_refresh [simp]: "kernel_ok X b (refresh_descriptor_snapshot m t) = kernel_ok X b m"
  by (simp add: refresh_descriptor_snapshot_def)

section \<open>Charging and reserving\<close>

lemma charge_ok:
  assumes "charge m n = (m', c)" "kernel_ok X b m"
  shows "kernel_ok X b m'"
proof -
  have "memory_current (fst (charge_cpu (resources m) n)) = memory_current (resources m)"
    by (auto simp: charge_cpu_def split: option.splits)
  then show ?thesis using assms
    by (auto simp: charge_def kernel_ok_def kernel_but_def tables_ok_def memory_ok_def reserved_pipes_open_def
        split: prod.splits)
qed

lemma reserve_refused:
  assumes "reserve m n = (m', False)" "kernel_ok X b m"
  shows "kernel_ok X b m'"
  using assms
  by (auto simp: reserve_def reserve_memory_def kernel_ok_def kernel_but_def tables_ok_def memory_ok_def
      reserved_pipes_open_def split: if_splits option.splits)

lemma reserve_granted:
  assumes "reserve m n = (m', True)" "kernel_ok X b m"
  shows "kernel_ok X (b + unat n) m'" "contexts m' = contexts m" "active m' = active m"
    "descriptors m' = descriptors m" "pipe_reservations m' = pipe_reservations m" "sched m' = sched m"
    "vfs m' = vfs m"
  using assms
  by (auto simp: reserve_def reserve_memory_def kernel_ok_def kernel_but_def tables_ok_def memory_ok_def
      reserved_pipes_open_def rust_arith split: if_splits option.splits)

lemma release_ok: "kernel_ok X (b + unat n) m \<Longrightarrow> kernel_ok X b (release m n)"
  by (auto simp: release_def release_memory_def kernel_ok_def kernel_but_def tables_ok_def memory_ok_def
      reserved_pipes_open_def rust_arith)

section \<open>Changes of the arena and wake-ups\<close>

text \<open>A call on the arena that moves no reference and makes nothing ready.\<close>

lemma kernel_ok_arena:
  assumes ok: "kernel_ok X b m" and inv: "arena_inv a" "ref_count a = ref_count (descriptors m)"
    and pipes: "pipes a = pipes (descriptors m)" "next_pipe a = next_pipe (descriptors m)"
  shows "kernel_ok X b (m\<lparr>descriptors := a\<rparr>)"
proof -
  have "waits_but {} (descriptors m) (sched m)" using ok by (simp add: kernel_ok_def kernel_but_def)
  then have "waits_but {} a (sched m)"
    by (rule waits_but_arena) (use pipes(2) newly_ready_same_pipes [OF pipes(1)] in auto)
  moreover have "tables_ok X (m\<lparr>descriptors := a\<rparr>)"
    using ok inv by (simp add: kernel_ok_def kernel_but_def tables_ok_def)
  moreover have "reserved_pipes_open (m\<lparr>descriptors := a\<rparr>)"
    using ok pipes(1) by (simp add: kernel_ok_def reserved_pipes_open_def contains_pipe_def)
  ultimately show ?thesis using ok by (simp add: kernel_ok_def kernel_but_def memory_ok_def)
qed

lemma keeps_arena:
  assumes "kernel_ok X b m" "sound x" "ref_count (fst x) = ref_count (descriptors m)"
    "pipes (fst x) = pipes (descriptors m)" "next_pipe (fst x) = next_pipe (descriptors m)"
  shows "keeps X b (in_descriptors m x)"
  using kernel_ok_arena [OF assms(1), of "fst x"] assms(2-) by (cases x) (auto simp: keeps_def)

text \<open>Waking on a condition ends every wait that accepts it.\<close>

lemma wake_ends:
  assumes "kernel_but W X b m" "\<And>w r. w \<in> W \<Longrightarrow> w \<notin> W' \<Longrightarrow> accepts r w \<Longrightarrow> P r"
  obtains m' where "in_sched m (wake_matching (sched m) P) = (m', Ok ())" "kernel_but W' X b m'"
    "m' = m\<lparr>sched := sched m'\<rparr>" "current (sched m') = current (sched m)"
proof -
  obtain s' n where s': "wake_matching (sched m) P = (s', Ok n)" "sched_inv s'" "fewer_waits s' (sched m)"
      "\<forall>t r. blocked_reason (task s' t) = Some r \<longrightarrow> \<not> P r" "current s' = current (sched m)"
    by (rule wake_matching_waits [OF kernel_butD(2) [OF assms(1)], of P])
  have "waits_but W' (descriptors m) s'"
    using s'(4) assms(2)
    by (intro waits_but_fewer [OF kernel_butD(3) [OF assms(1)] s'(3)]) (auto simp: nobody_waits_def)
  then have "kernel_but W' X b (m\<lparr>sched := s'\<rparr>)"
    using assms(1) s'(2) by (simp add: kernel_but_def tables_ok_def memory_ok_def)
  then show thesis using s'(1,5) by (intro that [of "m\<lparr>sched := s'\<rparr>"]) simp_all
qed

lemma wake_keeps:
  assumes "kernel_but W X b m"
  obtains m' where "in_sched m (wake_matching (sched m) P) = (m', Ok ())" "kernel_but W X b m'"
    "m' = m\<lparr>sched := sched m'\<rparr>" "current (sched m') = current (sched m)"
  by (rule wake_ends [OF assms, of W P]) auto


lemma kernel_but_cong:
  assumes "kernel_but W X b m" "descriptors m' = descriptors m" "contexts m' = contexts m" "sched m' = sched m"
    "memory_ok b m'"
  shows "kernel_but W X b m'"
  using assms by (simp add: kernel_but_def tables_ok_def)

lemma release_reservation_ok:
  assumes "memory_ok b m"
  shows "memory_ok b (release_reservation q m)"
proof (cases "om_lookup (pipe_reservations m) q")
  case (Some n)
  have "om_weight (\<lambda>_ n. unat n) (pipe_reservations m)
      = om_weight (\<lambda>_ n. unat n) (om_remove q (pipe_reservations m)) + unat n"
    using om_weight_remove [of "\<lambda>_ n. unat n" "pipe_reservations m" q] Some by simp
  then show ?thesis using assms Some
    by (simp add: memory_ok_def release_reservation_def release_memory_def rust_arith)
qed (use assms in \<open>simp add: release_reservation_def\<close>)

lemma release_reservation_fields [simp]:
  "descriptors (release_reservation q m) = descriptors m" "contexts (release_reservation q m) = contexts m"
  "sched (release_reservation q m) = sched m" "active (release_reservation q m) = active m"
  "vfs (release_reservation q m) = vfs m" "processes (release_reservation q m) = processes m"
  "pipe_reservations (release_reservation q m) = om_remove q (pipe_reservations m)"
  by (simp_all add: release_reservation_def split: option.splits)

lemma fold_release_reservation:
  "descriptors (fold release_reservation qs m) = descriptors m"
  "contexts (fold release_reservation qs m) = contexts m"
  "sched (fold release_reservation qs m) = sched m"
  "active (fold release_reservation qs m) = active m"
  "om_lookup (pipe_reservations (fold release_reservation qs m)) q
     = (if q \<in> set qs then None else om_lookup (pipe_reservations m) q)"
  "memory_ok b m \<Longrightarrow> memory_ok b (fold release_reservation qs m)"
  by (induction qs arbitrary: m) (simp_all add: om_lookup_remove release_reservation_ok)

lemma release_closed_ok:
  assumes "kernel_but W X b m"
  shows "kernel_but W X b (release_closed_pipe_memory m)" "reserved_pipes_open (release_closed_pipe_memory m)"
    "contexts (release_closed_pipe_memory m) = contexts m" "active (release_closed_pipe_memory m) = active m"
    "descriptors (release_closed_pipe_memory m) = descriptors m"
proof -
  show "kernel_but W X b (release_closed_pipe_memory m)"
    unfolding release_closed_pipe_memory_def
    by (rule kernel_but_cong [OF assms])
      (use kernel_butD(4) [OF assms] in \<open>simp_all add: fold_release_reservation\<close>)
  show "reserved_pipes_open (release_closed_pipe_memory m)"
    by (auto simp: release_closed_pipe_memory_def reserved_pipes_open_def fold_release_reservation om_set_keys)
qed (simp_all add: release_closed_pipe_memory_def fold_release_reservation)

lemma lock_flag_ok: "kernel_ok X b m \<Longrightarrow> kernel_ok X b (m\<lparr>descriptors := (descriptors m)\<lparr>file_locks_changed := c\<rparr>\<rparr>)"
  by (rule kernel_ok_arena) (auto simp: kernel_ok_def kernel_but_def tables_ok_def arena_changed_inv intro: ref_count_cong)

lemma wake_lock_waiters_ok:
  assumes "kernel_ok X b m"
  obtains m' where "wake_lock_waiters m = (m', Ok ())" "kernel_ok X b m'" "contexts m' = contexts m"
    "active m' = active m" "vfs m' = vfs m"
proof -
  let ?m = "m\<lparr>descriptors := (descriptors m)\<lparr>file_locks_changed := False\<rparr>\<rparr>"
  have ok: "kernel_ok X b ?m" by (rule lock_flag_ok [OF assms])
  then have "kernel_but {} X b ?m" by (simp add: kernel_ok_def)
  then obtain m' where m': "in_sched ?m (wake_matching (sched ?m) contains_lock) = (m', Ok ())"
      "kernel_but {} X b m'" "m' = ?m\<lparr>sched := sched m'\<rparr>"
    by (rule wake_keeps [where P = contains_lock])
  have "kernel_ok X b m'" using m'(2) ok
    by (subst (asm) m'(3), subst m'(3)) (simp add: kernel_ok_def reserved_pipes_open_def)
  moreover have "contexts m' = contexts m" "active m' = active m" "vfs m' = vfs m"
    by (subst m'(3), simp)+
  ultimately show thesis
    using m'(1) ok that [of m'] that [of ?m]
    by (cases "file_locks_changed (descriptors m)")
      (simp_all add: wake_lock_waiters_def take_file_lock_changes_def wake_file_lock_waiters_def)
qed

text \<open>What is left of the call after an endpoint was closed.\<close>

lemma wake_pipe_endpoint_ok:
  assumes "kernel_but (endpoint_reason ` set_option e) X b m"
  obtains m' where "wake_pipe_endpoint m e = (m', Ok ())" "kernel_ok X b m'" "contexts m' = contexts m"
    "active m' = active m"
proof -
  obtain m1 where m1: "(case e of None \<Rightarrow> (m, Ok ()) | Some x \<Rightarrow> in_sched m (wake_waiters (sched m) (endpoint_reason x)))
      = (m1, Ok ())" "kernel_but {} X b m1" "contexts m1 = contexts m" "active m1 = active m"
  proof (cases e)
    case None
    then show thesis using assms that [of m] by simp
  next
    case (Some x)
    obtain m1 where "in_sched m (wake_matching (sched m) (\<lambda>r. accepts r (endpoint_reason x))) = (m1, Ok ())"
        "kernel_but {} X b m1" "m1 = m\<lparr>sched := sched m1\<rparr>"
      using assms by (rule wake_ends [where W' = "{}" and P = "\<lambda>r. accepts r (endpoint_reason x)"]) (simp_all add: Some)
    moreover from this(3) have "contexts m1 = contexts m" "active m1 = active m" by (metis machine.select_convs machine.surjective machine.update_convs(6))+
    ultimately show thesis using Some that [of m1] by (simp add: wake_waiters_matching)
  qed
  let ?m2 = "release_closed_pipe_memory m1"
  have "kernel_ok X b ?m2" using release_closed_ok [OF m1(2)] by (simp add: kernel_ok_def)
  then obtain m' where "wake_lock_waiters ?m2 = (m', Ok ())" "kernel_ok X b m'" "contexts m' = contexts ?m2"
      "active m' = active ?m2" by (rule wake_lock_waiters_ok)
  then show thesis using that [of m'] m1 release_closed_ok [OF m1(2)] by (simp add: wake_pipe_endpoint_def)
qed

section \<open>Closing and duplicating\<close>

lemma in_table_but:
  assumes ok: "kernel_ok X b m" and t: "table_ok (other_refs X m) (t, a)"
    and mono: "next_pipe (descriptors m) \<le> next_pipe a"
    and ready: "\<And>w. newly_ready (descriptors m) a w \<Longrightarrow> w \<in> W"
  shows "kernel_but W X b (fst (in_table m p ((t, a), r)))"
proof -
  have k: "kernel_but {} X b m" using ok by (simp add: kernel_ok_def)
  have "tables_ok X (fst (in_table m p ((t, a), r)))"
    using tables_okI [OF kernel_butD(1) [OF k], of "p\<lparr>fds := t\<rparr>" a] t by (simp add: in_table_def)
  moreover have "waits_but W a (sched m)"
    by (rule waits_but_arena [OF kernel_butD(3) [OF k] mono ready empty_subsetI])
  ultimately show ?thesis
    using kernel_butD(2,4) [OF k] by (simp add: kernel_but_def in_table_def memory_ok_def set_active_def)
qed

lemma newly_ready_cong:
  "pipes a = pipes b \<Longrightarrow> next_pipe a = next_pipe b \<Longrightarrow> newly_ready a c w = newly_ready b c w"
  by (simp add: newly_ready_def pipe_readable_def pipe_writable_def)

lemma retain_ep: "retain_ref a i = (a', r) \<Longrightarrow> ep a' = ep a"
  by (erule retain_cases) (auto simp: set_entry_views ep_def fun_eq_iff)

lemma install_newly_ready:
  assumes run: "install t a f d = ((t', a'), r)" and w: "newly_ready a a' w"
  shows "\<exists>i x. om_lookup (entries t) f = Some i \<and> ep a i = Some x \<and> w = endpoint_reason x"
proof -
  obtain a1 r1 where t1: "retain_ref a d = (a1, r1)" by fastforce
  note same = retain_pipes [OF t1] retain_ep [OF t1]
  have no: "\<not> newly_ready a a w" "\<not> newly_ready a a1 w"
    using newly_ready_same_pipes same by auto
  show ?thesis
  proof (cases "om_lookup (entries t) f")
    case None
    then have "a' = a \<or> a' = a1"
      using run t1 by (cases r1) (auto simp: install_def Let_def split: if_splits)
    then show ?thesis using no w by auto
  next
    case (Some i)
    obtain a2 r2 where t2: "release_ref a1 i = (a2, r2)" by fastforce
    then have "a' = a \<or> a' = a1 \<or> a' = a2"
      using run t1 Some by (cases r1; cases r2) (auto simp: install_def Let_def split: if_splits)
    then have "newly_ready a1 a2 w" using no w newly_ready_cong [of a a1 a2 w] same by auto
    from release_newly_ready [OF t2 this] show ?thesis using Some same by simp
  qed
qed

lemma install_next_pipe:
  assumes "install t a f d = ((t', a'), r)"
  shows "next_pipe a' = next_pipe a"
proof -
  obtain a1 r1 where t1: "retain_ref a d = (a1, r1)" by fastforce
  obtain a2 r2 where t2: "release_ref a1 (the (om_lookup (entries t) f)) = (a2, r2)" by fastforce
  have "a' = a \<or> a' = a1 \<or> a' = a2"
    using assms t1 t2 by (cases r1; cases r2; cases "om_lookup (entries t) f") (auto simp: install_def Let_def split: if_splits)
  then show ?thesis using retain_pipes [OF t1] release_pipe_flow(1) [OF t2] by auto
qed

lemma pipe_endpoint_ep: "pipe_endpoint a d = Ok e \<longleftrightarrow> entry a d \<noteq> None \<and> e = ep a d"
  by (cases "entry a d"; cases "description (the (entry a d))") (auto simp: pipe_endpoint_def ep_def)

lemma endpoint_at_ep: "endpoint_at m t f = (case om_lookup (entries t) f of None \<Rightarrow> None | Some d \<Rightarrow> ep (descriptors m) d)"
proof (cases "om_lookup (entries t) f")
  case (Some d)
  then show ?thesis
    by (cases "entry (descriptors m) d"; cases "description (the (entry (descriptors m) d))")
      (auto simp: endpoint_at_def fd_get_def pipe_endpoint_def ep_def)
qed (simp add: endpoint_at_def fd_get_def)

lemma sys_close_ok:
  assumes ok: "kernel_ok X b m"
  shows "keeps X b (sys_close m f)" "om_lookup (contexts m) (active m) = Some p \<Longrightarrow> snd (sys_close m f) \<noteq> Panic"
proof -
  have "keeps X b (sys_close m f) \<and> snd (sys_close m f) \<noteq> Panic"
    if p: "om_lookup (contexts m) (active m) = Some p" for p
  proof (cases "om_lookup (entries (fds p)) f")
    case None
    then show ?thesis using ok p by (auto simp: sys_close_def with_active_def try_desc_def fd_get_def)
  next
    case (Some d)
    have t: "table_ok (other_refs X m) (fds p, descriptors m)"
      using tables_okD p ok by (simp add: kernel_ok_def kernel_but_def)
    obtain a' r where l: "release_ref (descriptors m) d = (a', r)" by fastforce
    let ?t = "(fds p)\<lparr>entries := om_remove f (entries (fds p)), close_on_exec_set := om_remove f (close_on_exec_set (fds p))\<rparr>"
    have run: "close_fd (fds p) (descriptors m) f = ((?t, a'), r)" using Some l by (simp add: close_fd_def)
    have t': "table_ok (other_refs X m) (?t, a')" and r: "r \<noteq> Panic"
      using close_fd_ok [OF t, of f] run by simp_all
    have "r = Ok ()" "entry (descriptors m) d \<noteq> None"
      using release_entry [of "fds p" "descriptors m" "other_refs X m" f d] t Some l arefs.refs_live
        om_count_pos [OF Some] by (auto simp: table_ok_def refs_with_def)
    let ?e = "ep (descriptors m) d"
    let ?m1 = "fst (in_table m p ((?t, a'), r))"
    have "kernel_but (endpoint_reason ` set_option ?e) X b ?m1"
      using release_newly_ready [OF l] release_pipe_flow(1) [OF l]
      by (intro in_table_but [OF ok t']) auto
    then obtain m2 where m2: "wake_pipe_endpoint ?m1 ?e = (m2, Ok ())" "kernel_ok X b m2"
      by (rule wake_pipe_endpoint_ok)
    have "sys_close m f = (refresh_descriptor_snapshot
              (m2\<lparr>vfs := retain_orphans (vfs m2) (live_orphans (descriptors m2))\<rparr>) (se_pid p), Ok ())"
      using p Some \<open>entry (descriptors m) d \<noteq> None\<close> run \<open>r = Ok ()\<close> m2(1)
      by (simp add: sys_close_def with_active_def try_desc_def fd_get_def pipe_endpoint_ep [THEN iffD2] in_table_def)
    then show ?thesis using m2(2) by auto
  qed
  then show "keeps X b (sys_close m f)" "om_lookup (contexts m) (active m) = Some p \<Longrightarrow> snd (sys_close m f) \<noteq> Panic"
    by (auto intro!: keeps_with_active simp: sys_close_def [unfolded with_active_def] keeps_def split: option.splits)
qed

text \<open>A refused installation changes nothing.\<close>

lemma install_error:
  assumes ok: "table_ok Y (t, a)" and run: "install t a f d = ((t', a'), Err e)"
  shows "t' = t \<and> a' = a"
proof -
  obtain a1 r1 where t1: "retain_ref a d = (a1, r1)" by fastforce
  show ?thesis
  proof (cases r1)
    case (Ok u)
    have "\<exists>a2. release_ref a1 i = (a2, Ok ())" if i: "om_lookup (entries t) f = Some i" for i
    proof -
      have "0 < ref_count a1 i"
        using ok om_count_pos [OF i] retain_counted [of a d a1 u] t1 Ok by (auto simp: table_ok_def refs_with_def)
      then show ?thesis using release_counted by (metis Suc_pred)
    qed
    then have "\<exists>t'' a''. install t a f d = ((t'', a''), Ok ()) \<or> install t a f d = ((t, a), Err e)"
      using run t1 Ok by (cases "om_lookup (entries t) f") (auto simp: install_def Let_def split: if_splits)
    then show ?thesis using run by auto
  next
    case (Err err)
    then have "a1 = a" using t1 arefs.retain_Err by blast
    then show ?thesis using run t1 Err by (auto simp: install_def split: if_splits)
  next
    case Panic
    then show ?thesis using arefs.retain_total [of a d] t1 by simp
  qed
qed

lemma duplicate_error:
  assumes "table_ok Y (t, a)" "duplicate t a f g = ((t', a'), Err e)"
  shows "t' = t \<and> a' = a"
  using assms install_error [OF assms(1)]
  by (auto simp: duplicate_def fd_get_def ok_or_def split: option.splits if_splits)

lemma sys_duplicate_ok:
  assumes ok: "kernel_ok X b m"
  shows "keeps X b (sys_duplicate m f g)"
    "om_lookup (contexts m) (active m) = Some p \<Longrightarrow> snd (sys_duplicate m f g) \<noteq> Panic"
proof -
  have "keeps X b (sys_duplicate m f g) \<and> snd (sys_duplicate m f g) \<noteq> Panic"
    if p: "om_lookup (contexts m) (active m) = Some p" for p
  proof -
    have t: "table_ok (other_refs X m) (fds p, descriptors m)"
      using tables_okD p ok by (simp add: kernel_ok_def kernel_but_def)
    obtain t' a' r where run: "duplicate (fds p) (descriptors m) f g = ((t', a'), r)"
      by (metis prod.collapse)
    have t': "table_ok (other_refs X m) (t', a')" and r: "r \<noteq> Panic"
      using duplicate_ok [OF t, of f g] run by simp_all
    let ?e = "endpoint_at m (fds p) g"
    let ?m1 = "fst (in_table m p ((t', a'), r))"
    have "a' = descriptors m \<or> (\<exists>d. install (fds p) (descriptors m) g d = ((t', a'), r))"
      using run by (auto simp: duplicate_def fd_get_def ok_or_def split: option.splits if_splits)
    then have "w \<in> endpoint_reason ` set_option ?e" if w: "newly_ready (descriptors m) a' w" for w
    proof
      assume "\<exists>d. install (fds p) (descriptors m) g d = ((t', a'), r)"
      then obtain d where "install (fds p) (descriptors m) g d = ((t', a'), r)" ..
      from install_newly_ready [OF this w] show ?thesis by (auto simp: endpoint_at_ep)
    qed (use w newly_ready_same_pipes [of a' "descriptors m" w] in simp)
    moreover have "next_pipe (descriptors m) \<le> next_pipe a'"
      using \<open>a' = descriptors m \<or> _\<close> install_next_pipe by fastforce
    ultimately have but: "kernel_but (endpoint_reason ` set_option ?e) X b ?m1"
      by (intro in_table_but [OF ok t']) auto
    then obtain m2 where m2: "wake_pipe_endpoint ?m1 ?e = (m2, Ok ())" "kernel_ok X b m2"
      by (rule wake_pipe_endpoint_ok)
    show ?thesis
    proof (cases r)
      case (Ok u)
      then have "sys_duplicate m f g = (refresh_descriptor_snapshot m2 (se_pid p), Ok ())"
        using p run m2(1) by (simp add: sys_duplicate_def with_active_def in_table_def Let_def)
      then show ?thesis using m2(2) by auto
    next
      case (Err e)
      then have "t' = fds p" "a' = descriptors m"
        using duplicate_error [OF t] run by auto
      then have "fst (in_table m p ((t', a'), r)) = m"
        using p by (simp add: in_table_def set_active_def)
      then show ?thesis using ok p run Err
        by (auto simp: sys_duplicate_def with_active_def in_table_def Let_def keeps_def)
    qed (use r in simp)
  qed
  then show "keeps X b (sys_duplicate m f g)"
    "om_lookup (contexts m) (active m) = Some p \<Longrightarrow> snd (sys_duplicate m f g) \<noteq> Panic"
    by (auto simp: sys_duplicate_def [unfolded with_active_def] keeps_def split: option.splits)
qed

section \<open>Reading and writing\<close>

lemma arena_but:
  assumes ok: "kernel_ok X b m" and inv: "arena_inv a" "ref_count a = ref_count (descriptors m)"
    and pipes: "next_pipe a = next_pipe (descriptors m)" "\<And>w. newly_ready (descriptors m) a w \<Longrightarrow> w \<in> W"
    and dom: "\<And>q. contains_pipe (descriptors m) q \<Longrightarrow> contains_pipe a q"
  shows "kernel_but W X b (m\<lparr>descriptors := a\<rparr>)" "reserved_pipes_open (m\<lparr>descriptors := a\<rparr>)"
proof -
  have k: "kernel_but {} X b m" using ok by (simp add: kernel_ok_def)
  have "waits_but W a (sched m)"
    by (rule waits_but_arena [OF kernel_butD(3) [OF k] _ pipes(2) empty_subsetI]) (simp add: pipes(1))
  then show "kernel_but W X b (m\<lparr>descriptors := a\<rparr>)"
    using k inv by (simp add: kernel_but_def tables_ok_def memory_ok_def)
  show "reserved_pipes_open (m\<lparr>descriptors := a\<rparr>)"
    using ok dom by (auto simp: kernel_ok_def reserved_pipes_open_def)
qed

lemma wake_ancestors_ok:
  assumes "kernel_ok X b m"
  obtains m' where "wake_ancestors n m t = (m', Ok ())" "kernel_ok X b m'" "contexts m' = contexts m" "active m' = active m"
  using assms
proof (induction n arbitrary: m t thesis)
  case 0
  then show ?case by simp
next
  case (Suc n)
  let ?P = "\<lambda>r. waits_for_child_activity r t"
  have "kernel_but {} X b m" using Suc.prems(2) by (simp add: kernel_ok_def)
  then obtain m1 where m1: "in_sched m (wake_matching (sched m) ?P) = (m1, Ok ())" "kernel_but {} X b m1"
      "m1 = m\<lparr>sched := sched m1\<rparr>" by (rule wake_keeps [where P = ?P])
  have f: "contexts m1 = contexts m" "active m1 = active m" by (subst m1(3), simp)+
  have ok1: "kernel_ok X b m1" using m1(2) Suc.prems(2)
    by (subst (asm) m1(3), subst m1(3)) (simp add: kernel_ok_def reserved_pipes_open_def)
  show ?case
  proof (cases "proc (processes m1) t")
    case None
    then show ?thesis using m1(1) ok1 f by (intro Suc.prems(1) [of m1]) (simp_all add: wake_child_activity_waiters_def)
  next
    case (Some r)
    obtain m2 where "wake_ancestors n m1 (pr_ppid r) = (m2, Ok ())" "kernel_ok X b m2"
        "contexts m2 = contexts m1" "active m2 = active m1" by (rule Suc.IH [OF _ ok1])
    then show ?thesis
      using m1(1) ok1 f Some Suc.prems(1) [of m2] Suc.prems(1) [of m1]
      by (cases "pr_ppid r = t") (simp_all add: wake_child_activity_waiters_def)
  qed
qed

text \<open>After the transfer: the other end is woken when bytes moved.\<close>

lemma wake_then_activity:
  assumes but: "kernel_but W X b m" "reserved_pipes_open m" "W \<subseteq> {w}"
  obtains m1 m2 where "in_sched m (wake_waiters (sched m) w) = (m1, Ok ())"
    "wake_activity m1 t = (m2, Ok ())" "kernel_ok X b m2" "contexts m2 = contexts m" "active m2 = active m"
proof -
  obtain m1 where m1: "in_sched m (wake_matching (sched m) (\<lambda>r. accepts r w)) = (m1, Ok ())"
      "kernel_but {} X b m1" "m1 = m\<lparr>sched := sched m1\<rparr>"
    using but(1) by (rule wake_ends [where W' = "{}" and P = "\<lambda>r. accepts r w"]) (use but(3) in auto)
  have f: "contexts m1 = contexts m" "active m1 = active m" by (subst m1(3), simp)+
  have "kernel_ok X b m1" using m1(2) but(2)
    by (subst (asm) m1(3), subst m1(3)) (simp add: kernel_ok_def reserved_pipes_open_def)
  then obtain m2 where "wake_ancestors MAX_PROCESSES m1 t = (m2, Ok ())" "kernel_ok X b m2"
      "contexts m2 = contexts m1" "active m2 = active m1" by (rule wake_ancestors_ok)
  then show thesis using that [of m1 m2] m1(1) f by (simp add: wake_waiters_matching wake_activity_def)
qed

lemma ep_set_description:
  "entry a i = Some e \<Longrightarrow> endpoint d = endpoint (description e) \<Longrightarrow> ep (set_description a i e d) = ep a"
  by (auto simp: set_description_def set_entry_views ep_def fun_eq_iff)

lemma set_pipe_frame [simp]:
  "ep (set_pipe a p st) = ep a" "next_pipe (set_pipe a p st) = next_pipe a"
  by (auto simp: ep_def set_pipe_def fun_eq_iff)

lemma contains_set_pipe: "contains_pipe a q \<Longrightarrow> contains_pipe (set_pipe a p st) q"
  by (simp add: contains_pipe_def set_pipe_def om_lookup_insert)

lemma entry_updates [simp]:
  "entry (set_description a i e d) i = Some (e\<lparr>description := d\<rparr>)" "descriptions (set_pipe a p st) = descriptions a"
  by (simp_all add: set_description_def set_entry_def set_pipe_def)

lemma contains_set_description [simp]: "contains_pipe (set_description a i e d) q = contains_pipe a q"
  by (simp add: contains_pipe_def)

text \<open>The shape of what a transfer does to the arena.\<close>

inductive io_shape :: "descriptor_arena \<Rightarrow> description_id \<Rightarrow> description_entry \<Rightarrow> descriptor_arena \<Rightarrow> bool"
  for a i e where
  shape_same: "io_shape a i e a"
| shape_entry: "endpoint d = endpoint (description e) \<Longrightarrow> io_shape a i e (set_description a i e d)"
| shape_pipe: "io_shape a i e (set_pipe a p st)"

lemma read_shape: "entry a i = Some e \<Longrightarrow> io_shape a i e (fst (read_description a i n))"
  by (cases "description e")
    (auto simp: read_description_def slice_def Let_def ok_or_def intro: io_shape.intros split: prod.splits option.splits)

lemma write_shape: "entry a i = Some e \<Longrightarrow> io_shape a i e (fst (write_description a i bs))"
  by (cases "description e")
    (auto simp: write_description_def Let_def ok_or_def intro: io_shape.intros split: option.splits)

lemma shape_frame:
  assumes "entry a i = Some e" "io_shape a i e a'"
  shows "ref_count a' = ref_count a" "next_pipe a' = next_pipe a" "ep a' = ep a" "entry a' i \<noteq> None"
    "contains_pipe a q \<Longrightarrow> contains_pipe a' q"
  using assms(2,1)
  by (induction rule: io_shape.induct)
    (auto simp: ref_count_set_description ep_set_description contains_set_pipe)

text \<open>A read or write on the arena followed by its wake-up.\<close>

lemma sys_read_stream_ok:
  assumes ok: "kernel_ok X b m" and e: "entry (descriptors m) d = Some e"
  shows "keeps X b (and_then (in_descriptors m (read_description (descriptors m) d n))
    (\<lambda>m result. wake_after_read m t d result))"
proof -
  let ?a = "descriptors m"
  obtain a' r where run: "read_description ?a d n = (a', r)" by fastforce
  have inv: "arena_inv ?a" using ok by (simp add: kernel_ok_def kernel_but_def tables_ok_def)
  have inv': "arena_inv a'" using read_inv [OF inv, of d n] run by simp
  note frame = shape_frame [OF e read_shape [OF e, of n], unfolded run fst_conv]
  let ?W = "{w. newly_ready ?a a' w}"
  have but: "kernel_but ?W X b (m\<lparr>descriptors := a'\<rparr>)" "reserved_pipes_open (m\<lparr>descriptors := a'\<rparr>)"
    using arena_but [OF ok inv' frame(1,2), of ?W] frame(5) by auto
  have ready: "\<exists>q bs. ep ?a d = Some (q, True) \<and> w = PipeWritable q \<and> r = Ok (Ready bs)" if "w \<in> ?W" for w
    using read_newly_ready [OF inv, of d n w] that run by simp
  have e': "pipe_endpoint a' d = Ok (ep ?a d)" using frame(3,4) by (simp add: pipe_endpoint_ep)
  show ?thesis
  proof (cases "\<exists>q bs. ep ?a d = Some (q, True) \<and> r = Ok (Ready bs)")
    case True
    then obtain q bs where q: "ep ?a d = Some (q, True)" "r = Ok (Ready bs)" by blast
    then have "?W \<subseteq> {PipeWritable q}" using ready by auto
    from wake_then_activity [OF but this, of t] obtain m1 m2 where
      "in_sched (m\<lparr>descriptors := a'\<rparr>) (wake_waiters (sched (m\<lparr>descriptors := a'\<rparr>)) (PipeWritable q)) = (m1, Ok ())"
      "wake_activity m1 t = (m2, Ok ())" "kernel_ok X b m2" by blast
    then show ?thesis using run q e' by (auto simp: wake_after_read_def try_desc_def keeps_def)
  next
    case False
    then have "?W = {}" using ready by auto
    then have "kernel_ok X b (m\<lparr>descriptors := a'\<rparr>)" using but by (simp add: kernel_ok_def)
    then show ?thesis using run e' False
      by (cases r) (auto simp: wake_after_read_def try_desc_def keeps_def split: io_poll.splits option.splits prod.splits bool.splits)
  qed
qed

lemma sys_write_stream_ok:
  assumes ok: "kernel_ok X b m" and e: "entry (descriptors m) d = Some e"
  shows "keeps X b (and_then (in_descriptors m (write_description (descriptors m) d bs))
    (\<lambda>m result. wake_after_write m t d result))"
proof -
  let ?a = "descriptors m"
  obtain a' r where run: "write_description ?a d bs = (a', r)" by fastforce
  have inv: "arena_inv ?a" using ok by (simp add: kernel_ok_def kernel_but_def tables_ok_def)
  have inv': "arena_inv a'" using write_inv [OF inv, of d bs] run by simp
  note frame = shape_frame [OF e write_shape [OF e, of bs], unfolded run fst_conv]
  let ?W = "{w. newly_ready ?a a' w}"
  have but: "kernel_but ?W X b (m\<lparr>descriptors := a'\<rparr>)" "reserved_pipes_open (m\<lparr>descriptors := a'\<rparr>)"
    using arena_but [OF ok inv' frame(1,2), of ?W] frame(5) by auto
  have ready: "\<exists>q n. ep ?a d = Some (q, False) \<and> w = PipeReadable q \<and> r = Ok (Ready n)" if "w \<in> ?W" for w
    using write_newly_ready [OF inv, of d bs w] that run by simp
  have e': "pipe_endpoint a' d = Ok (ep ?a d)" using frame(3,4) by (simp add: pipe_endpoint_ep)
  show ?thesis
  proof (cases "\<exists>q n. ep ?a d = Some (q, False) \<and> r = Ok (Ready n)")
    case True
    then obtain q n where q: "ep ?a d = Some (q, False)" "r = Ok (Ready n)" by blast
    then have "?W \<subseteq> {PipeReadable q}" using ready by auto
    from wake_then_activity [OF but this, of t] obtain m1 m2 where
      "in_sched (m\<lparr>descriptors := a'\<rparr>) (wake_waiters (sched (m\<lparr>descriptors := a'\<rparr>)) (PipeReadable q)) = (m1, Ok ())"
      "wake_activity m1 t = (m2, Ok ())" "kernel_ok X b m2" by blast
    then show ?thesis using run q e' by (auto simp: wake_after_write_def try_desc_def keeps_def)
  next
    case False
    then have "?W = {}" using ready by auto
    then have "kernel_ok X b (m\<lparr>descriptors := a'\<rparr>)" using but by (simp add: kernel_ok_def)
    then show ?thesis using run e' False
      by (cases r) (auto simp: wake_after_write_def try_desc_def keeps_def split: io_poll.splits option.splits prod.splits bool.splits)
  qed
qed

lemma device_quantum_ok: "kernel_ok X b m \<Longrightarrow> keeps X b (device_quantum m d n)"
  unfolding device_quantum_def
proof (rule keeps_try_desc, assumption, goal_cases)
  case (1 g)
  obtain m1 c1 where "charge m 1 = (m1, c1)" by fastforce
  moreover obtain m2 c2 where "charge m (of_nat (min (min n DEVICE_READ_QUANTUM)
      (unat (cpu_remaining (resources m) div 2)))) = (m2, c2)" by fastforce
  ultimately show ?case using charge_ok 1(1) by (cases c2) (auto simp: Let_def keeps_def)
qed

lemma device_quantum_frame: "descriptors (fst (device_quantum m d n)) = descriptors m"
  by (auto simp: device_quantum_def try_desc_def try_in_def Let_def charge_def is_generated_device_def ok_or_def
      split: option.splits prod.splits bool.splits)

lemma entry_ops_ref_count:
  "ref_count (fst (advance_file a d n)) = ref_count a" "ref_count (fst (seek_file a d c)) = ref_count a"
  unfolding advance_file_def seek_file_def
  by (intro try_entry_keeps; auto simp: ref_count_set_description ok_or_def split: open_description.splits option.splits)+

lemma read_fd_at_ok: "kernel_ok X b m \<Longrightarrow> keeps X b (read_fd_at m f c n)"
  unfolding read_fd_at_def
  by (intro keeps_with_active keeps_try_desc)
    (auto intro!: keepsI keeps_in_vfs simp: Let_def split: option.splits)

lemma file_state_of_entry: "file_state_of a d = Ok fo \<Longrightarrow> \<exists>e. entry a d = Some e"
  by (auto simp: file_state_of_def bind_oc_Ok)

lemma sys_read_ok:
  assumes ok: "kernel_ok X b m"
  shows "keeps X b (sys_read m f n)"
  unfolding sys_read_def
proof (intro keeps_with_active keeps_try_desc [OF ok], goal_cases)
  case (1 p d fo)
  obtain e where e: "entry (descriptors m) d = Some e" using file_state_of_entry [OF 1(3)] ..
  show ?case
  proof (cases fo)
    case (Some fl)
    then show ?thesis
      by (auto intro!: keeps_and_then [OF read_fd_at_ok [OF ok]] keeps_and_then [OF keeps_arena] keepsI
          simp: entry_ops_inv entry_ops_ref_count entry_ops_pipes kernel_ok_def kernel_but_def tables_ok_def)
  next
    case None
    have "keeps X b (and_then (in_descriptors m1 (read_description (descriptors m1) d k))
        (\<lambda>m result. wake_after_read m (se_pid p) d result))"
      if "device_quantum m d n = (m1, Ok k)" "kernel_ok X b m1" for m1 k
      using device_quantum_frame [of m d n] that e by (intro sys_read_stream_ok) auto
    then show ?thesis using None by (auto intro!: keeps_and_then [OF device_quantum_ok [OF ok]])
  qed
qed

lemma seek_arena_ok: "kernel_ok X b m \<Longrightarrow> keeps X b (in_descriptors m (seek_file (descriptors m) d c))"
  by (rule keeps_arena)
    (auto simp: entry_ops_inv entry_ops_ref_count entry_ops_pipes kernel_ok_def kernel_but_def tables_ok_def)

lemma write_file_at_ok:
  assumes ok: "kernel_ok X b m"
  shows "keeps X b (write_file_at m d fl bs aliased)"
proof -
  have body: "keeps X b (case charge m n of
            (m1, False) \<Rightarrow> (m1, Err ResourceExhausted)
          | (m1, True) \<Rightarrow> (case reserve m1 n of
              (m2, False) \<Rightarrow> (m2, Err ResourceExhausted)
            | (m2, True) \<Rightarrow> k m2))"
    if k: "\<And>m2. kernel_ok X (b + unat n) m2 \<Longrightarrow> keeps X b (k m2)" for n and k :: "machine \<Rightarrow> 'z sys_result"
    using charge_ok [OF _ ok] reserve_refused reserve_granted(1) k
    by (auto split: prod.splits bool.splits intro!: keepsI)
  show ?thesis
    unfolding write_file_at_def
    by (auto intro!: keepsI keeps_try keeps_try_file body ok keeps_and_then [OF seek_arena_ok] release_ok
        simp: Let_def split: prod.splits outcome.splits)
qed

lemma sys_write_ok:
  assumes ok: "kernel_ok X b m"
  shows "keeps X b (sys_write m f bs aliased)"
  unfolding sys_write_def
proof (intro keeps_with_active keeps_try_desc [OF ok], goal_cases)
  case (1 p d fo)
  obtain e where e: "entry (descriptors m) d = Some e" using file_state_of_entry [OF 1(3)] ..
  then show ?case using write_file_at_ok [OF ok] sys_write_stream_ok [OF ok e] by (cases fo) auto
qed

section \<open>The other calls\<close>

lemma kernel_ok_lock:
  assumes ok: "kernel_ok X b m"
  shows "keeps X b (in_descriptors m (lock_file (descriptors m) d i md))"
  using ok lock_file_inv lock_file_ref_count lock_file_pipes
  by (intro keeps_arena) (auto simp: kernel_ok_def kernel_but_def tables_ok_def)

lemma query_ok:
  "kernel_ok X b m \<Longrightarrow> keeps X b (file_lock_inode m f)"
  "kernel_ok X b m \<Longrightarrow> keeps X b (sys_file_state m f)"
  "kernel_ok X b m \<Longrightarrow> keeps X b (sys_descriptor_state m f)"
  "kernel_ok X b m \<Longrightarrow> keeps X b (sys_directory_path m f)"
  "kernel_ok X b m \<Longrightarrow> keeps X b (descriptor_readiness m f writing)"
  unfolding file_lock_inode_def sys_file_state_def sys_descriptor_state_def sys_directory_path_def
    descriptor_readiness_def
  by (auto intro!: keeps_with_active keeps_try_desc keeps_try_file keepsI split: option.splits)

lemma sys_file_lock_ok:
  assumes ok: "kernel_ok X b m"
  shows "keeps X b (sys_file_lock m f md)"
proof -
  have wake: "keeps X b (and_then (wake_lock_waiters m1) (\<lambda>m _. (m, Ok v)))" if "kernel_ok X b m1" for m1 v
    using that by (rule wake_lock_waiters_ok) auto
  show ?thesis unfolding sys_file_lock_def
    using charge_ok [OF _ ok]
    by (auto intro!: keepsI keeps_and_then [OF query_ok(1)] keeps_with_active keeps_try_desc
        keeps_and_then [OF kernel_ok_lock] wake split: prod.splits bool.splits)
qed

lemma sys_seek_ok:
  assumes ok: "kernel_ok X b m"
  shows "keeps X b (sys_seek m f c wh)"
  unfolding sys_seek_def
  by (auto intro!: keeps_with_active keeps_try_desc keepsI ok keeps_and_then [OF query_ok(2)] keeps_try
      keeps_and_then [OF seek_arena_ok] simp: Let_def)

lemma sys_resize_ok:
  assumes ok: "kernel_ok X b m"
  shows "keeps X b (sys_resize_file m f n aliased)"
proof -
  have body: "keeps X b (case charge m1 k of
            (m1, False) \<Rightarrow> (m1, Err ResourceExhausted)
          | (m1, True) \<Rightarrow> (case reserve m1 j of
              (m2, False) \<Rightarrow> (m2, Err ResourceExhausted)
            | (m2, True) \<Rightarrow> g m2))"
    if "kernel_ok X b m1" "\<And>m2. kernel_ok X (b + unat j) m2 \<Longrightarrow> keeps X b (g m2)"
    for m1 k j and g :: "machine \<Rightarrow> 'z sys_result"
    using charge_ok [OF _ that(1)] reserve_refused reserve_granted(1) that(2)
    by (auto split: prod.splits bool.splits intro!: keepsI)
  show ?thesis unfolding sys_resize_file_def
    by (auto intro!: keeps_and_then [OF query_ok(2) [OF ok]] keepsI keeps_try_file body release_ok
        simp: Let_def split: prod.splits outcome.splits)
qed

lemma detach_arena_ok:
  assumes "kernel_ok X b m"
  shows "kernel_ok X b (m\<lparr>descriptors := detach_file (descriptors m) path i\<rparr>)"
  using assms detach_file_inv detach_file_ref_count
  by (intro kernel_ok_arena) (auto simp: kernel_ok_def kernel_but_def tables_ok_def detach_file_def)

lemma sys_unlink_ok: "kernel_ok X b m \<Longrightarrow> keeps X b (sys_unlink m cwd path)"
  unfolding sys_unlink_def
  by (auto intro!: keeps_try_file keeps_in_vfs keeps_and_then [OF keeps_in_vfs] keepsI detach_arena_ok simp: Let_def)

lemma file_calls_ok:
  assumes "kernel_ok X b m"
  shows "keeps X b (sys_chmod m cwd path md)" "keeps X b (sys_mkdir m cwd path)" "keeps X b (sys_rmdir m cwd path)"
    "keeps X b (sys_rename m cwd path path')" "keeps X b (sys_write_file m cwd path bs md)"
    "keeps X b (put_file_with_parents m cwd path bs md)" "keeps X b (sys_mkdir_all m cwd path)"
    "keeps X b (sys_copy_file m cwd path path')" "keeps X b (sys_copy_recursive m cwd path path' flag)"
    "keeps X b (sys_symlink m cwd path path')" "keeps X b (sys_chown m cwd path u g)"
    "keeps X b (sys_touch m cwd path n)"
  using assms
  by (auto simp: sys_chmod_def sys_mkdir_def sys_rmdir_def sys_rename_def sys_write_file_def
      put_file_with_parents_def sys_mkdir_all_def sys_copy_file_def sys_copy_recursive_def sys_symlink_def
      sys_chown_def sys_touch_def Let_def intro!: keeps_in_vfs keepsI keeps_with_active keeps_and_then [OF keeps_in_vfs])

section \<open>Opening a pipe\<close>

lemma refresh_frame [simp]:
  "contexts (refresh_descriptor_snapshot m t) = contexts m" "active (refresh_descriptor_snapshot m t) = active m"
  "descriptors (refresh_descriptor_snapshot m t) = descriptors m" "vfs (refresh_descriptor_snapshot m t) = vfs m"
  "sched (refresh_descriptor_snapshot m t) = sched m" "resources (refresh_descriptor_snapshot m t) = resources m"
  "pipe_reservations (refresh_descriptor_snapshot m t) = pipe_reservations m"
  by (simp_all add: refresh_descriptor_snapshot_def)

lemma open_pipe_opened:
  assumes inv: "arena_inv a" and run: "open_pipe a cap = (a', Ok (i, j))"
  shows "ref_count a' = ref_count a" "arena_inv a'" "open_in a' i" "open_in a' j" "ref_count a i = 0" "ref_count a j = 0"
    "i \<noteq> j" "ep a' i = Some (next_pipe a, True)" "contains_pipe a' q \<longleftrightarrow> q = next_pipe a \<or> contains_pipe a q"
    "next_pipe a < next_pipe a'" "ep a' j = Some (next_pipe a, False)"
proof -
  show "ref_count a' = ref_count a" using open_pipe_ref_count [OF inv, of cap] run by simp
  show "arena_inv a'" using open_pipe_inv [OF inv run] .
  obtain n a1 a2 where n: "next_pipe a < n" "a1 = a\<lparr>next_pipe := n, pipes := om_insert (next_pipe a)
        \<lparr>pipe_bytes = [], capacity = cap, readers = 1, writers = 1\<rparr> (pipes a)\<rparr>"
      "allocate a1 (PipeReader (next_pipe a)) = (a2, Ok i)" "allocate a2 (PipeWriter (next_pipe a)) = (a', Ok j)"
    by (rule open_pipe_cases [OF inv run]) auto
  obtain k e where e: "i = next_description a1" "next_description a1 < k"
      "a2 = a1\<lparr>next_description := k, descriptions := om_insert (next_description a1) e (descriptions a1)\<rparr>"
      "description e = PipeReader (next_pipe a)"
    using n(3) by (cases rule: allocate_cases) auto
  obtain k' e' where e': "j = next_description a2"
      "a' = a2\<lparr>next_description := k', descriptions := om_insert (next_description a2) e' (descriptions a2)\<rparr>"
      "description e' = PipeWriter (next_pipe a)"
    using n(4) by (cases rule: allocate_cases) auto
  have d: "next_description a1 = next_description a" "descriptions a1 = descriptions a" by (simp_all add: n(2))
  have "entry a i = None" using fresh_description(1) [OF inv] e(1) d by simp
  moreover have "entry a j = None"
    using arena_invD(3) [OF inv, of k] e d e' by (cases "entry a k") auto
  ultimately show "ref_count a i = 0" "ref_count a j = 0" by (simp_all add: ref_count_def)
  show "i \<noteq> j" using e e' by auto
  show "open_in a' i" "open_in a' j" "ep a' i = Some (next_pipe a, True)" "ep a' j = Some (next_pipe a, False)"
    using e e' by (auto simp: om_lookup_insert ep_def)
  show "contains_pipe a' q \<longleftrightarrow> q = next_pipe a \<or> contains_pipe a q" "next_pipe a < next_pipe a'"
    using n(1) by (auto simp: e'(2) e(3) n(2) contains_pipe_def om_lookup_insert)
qed

lemma install_free:
  assumes "0 \<le> f" "om_lookup (entries t) f = None" "om_size (entries t) < MAX_FDS_PER_PROCESS"
    "open_in a d" "ref_count a d = 0"
  obtains a' where "retain_ref a d = (a', Ok ())"
    "install t a f d = ((t\<lparr>entries := om_insert f d (entries t),
       close_on_exec_set := om_remove f (close_on_exec_set t)\<rparr>, a'), Ok ())"
proof -
  obtain e where e: "entry a d = Some e" "references e = 0"
    using assms(4,5) by (auto simp: ref_count_def unat_eq_0)
  then have "retain_ref a d = (set_entry a d (e\<lparr>references := 1\<rparr>), Ok ())"
    by (simp add: retain_ref_def checked_add_def)
  then show thesis using assms(1-3) that by (simp add: install_def Let_def)
qed

text \<open>A fresh description is installed at a free number without a panic.\<close>

lemma install_end_ok:
  assumes ok: "table_ok Y (fds p, descriptors m)" and f: "0 \<le> f" "om_lookup (entries (fds p)) f = None"
    and sz: "om_size (entries (fds p)) < MAX_FDS_PER_PROCESS"
    and d: "open_in (descriptors m) d" "ref_count (descriptors m) d = 0"
  obtains t a where "install_end m p ce nb f d = ((m\<lparr>descriptors := a\<rparr>, p\<lparr>fds := t\<rparr>), Ok ())"
    "table_ok Y (t, a)" "entries t = om_insert f d (entries (fds p))" "pipes a = pipes (descriptors m)"
    "next_pipe a = next_pipe (descriptors m)" "\<forall>i. open_in a i = open_in (descriptors m) i"
    "ref_count a = (ref_count (descriptors m))(d := 1)" "ep a = ep (descriptors m)"
proof -
  let ?t = "(fds p)\<lparr>entries := om_insert f d (entries (fds p)), close_on_exec_set := om_remove f (close_on_exec_set (fds p))\<rparr>"
  obtain a1 where a1: "retain_ref (descriptors m) d = (a1, Ok ())"
      "install (fds p) (descriptors m) f d = ((?t, a1), Ok ())"
    using install_free [OF f sz d] by blast
  have ok1: "table_ok Y (?t, a1)" using install_ok [OF ok, of f d] a1(2) by simp
  note r = retain_counted [OF a1(1)] and rp = retain_pipes [OF a1(1)] and re = retain_ep [OF a1(1)]
  obtain t2 where t2: "set_close_on_exec ?t f ce = (t2, Ok ())" "entries t2 = entries ?t"
    by (simp add: set_close_on_exec_def fd_get_def)
  have ok2: "table_ok Y (t2, a1)" using set_close_on_exec_ok [OF ok1, of f ce] t2 by simp
  obtain e where e: "entry a1 d = Some e" using r d by (auto dest: fun_cong [where x = d])
  let ?a = "set_entry a1 d (e\<lparr>nonblocking := nb\<rparr>)"
  have nb: "set_nonblocking a1 d nb = (?a, Ok ())" using e by (simp add: set_nonblocking_def)
  have rc: "ref_count ?a = ref_count a1" by (rule ref_count_set_entry [OF e]) simp
  have "arena_inv ?a" using entry_ops_inv(7) [of a1 d nb] nb ok1 by (simp add: table_ok_def)
  then have ok3: "table_ok Y (t2, ?a)" using ok2 rc by (simp add: table_ok_def refs_with_def)
  show thesis
  proof (rule that [of ?a t2])
    show "install_end m p ce nb f d = ((m\<lparr>descriptors := ?a\<rparr>, p\<lparr>fds := t2\<rparr>), Ok ())"
      using a1 t2 nb by (simp add: install_end_def)
    show "\<forall>i. open_in ?a i = open_in (descriptors m) i"
      using r e by (auto simp: set_entry_views fun_eq_iff)
    have "ep ?a = ep a1" using e by (auto simp: set_entry_views ep_def fun_eq_iff)
    then show "ep ?a = ep (descriptors m)" using re by simp
  qed (use ok3 t2(2) rp rc r d in simp_all)
qed

lemma free_fds_pair:
  assumes "take 2 (free_fds t) = [f, g]"
  shows "0 \<le> f" "0 \<le> g" "f \<noteq> g" "om_lookup (entries t) f = None" "om_lookup (entries t) g = None"
proof -
  have free: "x \<in> set (free_fds t) \<Longrightarrow> 0 \<le> x \<and> om_lookup (entries t) x = None" for x
    by (auto simp: free_fds_def fd_get_def ok_or_def split: option.splits)
  have "distinct (free_fds t)" by (auto simp: free_fds_def distinct_map inj_on_def)
  then have "distinct [f, g]" using assms distinct_take by metis
  then show "f \<noteq> g" by simp
  have "f \<in> set (free_fds t)" "g \<in> set (free_fds t)"
    using assms set_take_subset [of 2 "free_fds t"] by auto
  then show "0 \<le> f" "0 \<le> g" "om_lookup (entries t) f = None" "om_lookup (entries t) g = None"
    using free by auto
qed

lemma install_both:
  assumes ok: "kernel_ok X (b + unat R) m" and p: "om_lookup (contexts m) (active m) = Some p"
    and run: "open_pipe (descriptors m) cap = (a, Ok (i, j))"
    and free: "0 \<le> f" "0 \<le> g" "f \<noteq> g" "om_lookup (entries (fds p)) f = None" "om_lookup (entries (fds p)) g = None"
    and sz: "om_size (entries (fds p)) \<le> MAX_FDS_PER_PROCESS - 2"
  defines "m4 \<equiv> m\<lparr>descriptors := a, pipe_reservations := om_insert (next_pipe (descriptors m)) R (pipe_reservations m)\<rparr>"
  obtains t a' where "and_then (install_end m4 p ce nb f i) (\<lambda>(m, p) _. install_end m p ce nb g j)
          = ((m4\<lparr>descriptors := a'\<rparr>, p\<lparr>fds := t\<rparr>), Ok ())"
    "kernel_ok X b (set_active (m4\<lparr>descriptors := a'\<rparr>) (p\<lparr>fds := t\<rparr>))"
    "om_lookup (entries t) f = Some i" "om_lookup (entries t) g = Some j" "ep a' = ep a"
proof -
  have inv: "arena_inv (descriptors m)" using ok by (simp add: kernel_ok_def kernel_but_def tables_ok_def)
  note new = open_pipe_opened [OF inv run]
  let ?Y = "other_refs X m"
  have t0: "table_ok ?Y (fds p, descriptors m4)"
    using tables_okD [of X m p] ok p new(1,2)
    by (simp add: m4_def kernel_ok_def kernel_but_def table_ok_def refs_with_def)
  obtain t1 b1 where t1: "install_end m4 p ce nb f i = ((m4\<lparr>descriptors := b1\<rparr>, p\<lparr>fds := t1\<rparr>), Ok ())"
      "table_ok ?Y (t1, b1)" "entries t1 = om_insert f i (entries (fds p))" "pipes b1 = pipes a"
      "next_pipe b1 = next_pipe a" "\<forall>k. open_in b1 k = open_in a k" "ref_count b1 = (ref_count a)(i := 1)" "ep b1 = ep a"
    by (rule install_end_ok [OF t0 free(1,4), of i ce nb])
      (use sz new(1,3,5) in \<open>simp_all add: m4_def MAX_FDS_PER_PROCESS_def\<close>)
  obtain t2 b2 where t2: "install_end (m4\<lparr>descriptors := b1\<rparr>) (p\<lparr>fds := t1\<rparr>) ce nb g j
        = ((m4\<lparr>descriptors := b2\<rparr>, p\<lparr>fds := t2\<rparr>), Ok ())"
      "table_ok ?Y (t2, b2)" "entries t2 = om_insert g j (entries t1)" "pipes b2 = pipes b1"
      "next_pipe b2 = next_pipe b1" "ep b2 = ep b1"
    by (rule install_end_ok [of ?Y "p\<lparr>fds := t1\<rparr>" "m4\<lparr>descriptors := b1\<rparr>" g j ce nb])
      (use t1(2-) sz free new(1,4,6,7) in \<open>simp_all add: MAX_FDS_PER_PROCESS_def om_size_insert om_lookup_insert\<close>)
  have old: "pipe_of b2 q = pipe_of (descriptors m) q" if "q < next_pipe (descriptors m)" for q
    using open_pipe_flow(2) [OF inv that run] t1(4) t2(4) by simp
  have "kernel_but {} X (b + unat R) (fst (in_table m p ((t2, b2), Ok ())))"
    using in_table_but [OF ok t2(2), of "{}" p "Ok ()"] newly_ready_old_pipes [OF old] new(10) t1(5) t2(5) by auto
  moreover have "\<not> om_contains (pipe_reservations m) (next_pipe (descriptors m))"
    using ok arena_invD(5) [OF inv, of "next_pipe (descriptors m)"]
    by (auto simp: kernel_ok_def reserved_pipes_open_def contains_pipe_def)
  ultimately have "kernel_but {} X b (set_active (m4\<lparr>descriptors := b2\<rparr>) (p\<lparr>fds := t2\<rparr>))"
    by (auto simp: kernel_but_def tables_ok_def memory_ok_def in_table_def set_active_def m4_def om_weight_insert)
  moreover have "reserved_pipes_open (set_active (m4\<lparr>descriptors := b2\<rparr>) (p\<lparr>fds := t2\<rparr>))"
    using ok new(9) t1(4) t2(4)
    by (auto simp: kernel_ok_def reserved_pipes_open_def set_active_def m4_def contains_pipe_def om_lookup_insert)
  ultimately show thesis
    using that [of b2 t2] t1 t2 free(3) by (simp add: kernel_ok_def om_lookup_insert)
qed

text \<open>The call either opens both ends at free numbers of the active process, or it leaves the tables, the
  pipes and the reservations as they were; it never panics.\<close>

lemma sys_pipe_cases:
  assumes ok: "kernel_ok X b m" and p: "om_lookup (contexts m) (active m) = Some p"
  obtains (refused) m' e where "sys_pipe m ce nb = (m', Err e)" "kernel_ok X b m'" "contexts m' = contexts m"
      "pipes (descriptors m') = pipes (descriptors m)" "pipe_reservations m' = pipe_reservations m"
  | (opened) m' f g p' where "sys_pipe m ce nb = (m', Ok (f, g))" "kernel_ok X b m'" "f \<noteq> g"
      "om_lookup (contexts m') (active m') = Some p'" "om_lookup (entries (fds p)) f = None"
      "om_lookup (entries (fds p)) g = None" "endpoint_at m' (fds p') f = Some (next_pipe (descriptors m), True)"
      "endpoint_at m' (fds p') g = Some (next_pipe (descriptors m), False)"
proof (cases "\<exists>f g. take 2 (free_fds (fds p)) = [f, g] \<and> om_size (entries (fds p)) \<le> MAX_FDS_PER_PROCESS - 2")
  case False
  consider "take 2 (free_fds (fds p)) = []" | x where "take 2 (free_fds (fds p)) = [x]"
    | f g where "take 2 (free_fds (fds p)) = [f, g]"
    by (cases "free_fds (fds p)"; cases "tl (free_fds (fds p))") (auto simp: numeral_2_eq_2)
  then have "sys_pipe m ce nb = (m, Err (SysDescriptor DescriptorLimit))"
    by cases (use p False in \<open>simp_all add: sys_pipe_def with_active_def not_le\<close>)
  then show thesis using refused ok by blast
next
  case True
  then obtain f g where fg: "take 2 (free_fds (fds p)) = [f, g]"
    and sz: "om_size (entries (fds p)) \<le> MAX_FDS_PER_PROCESS - 2" by blast
  note free = free_fds_pair [OF fg]
  obtain m1 c1 where c1: "charge m 1 = (m1, c1)" by fastforce
  obtain m2 c2 where c2: "reserve m1 PIPE_RESERVATION = (m2, c2)" by fastforce
  obtain a r where a: "open_pipe (descriptors m2) DEFAULT_PIPE_CAPACITY = (a, r)" by fastforce
  have m1: "kernel_ok X b m1" "contexts m1 = contexts m" "active m1 = active m" "descriptors m1 = descriptors m"
      "pipe_reservations m1 = pipe_reservations m"
    using charge_ok [OF c1 ok] c1 by (auto simp: charge_def split: prod.splits)
  have m2: "contexts m2 = contexts m" "active m2 = active m" "descriptors m2 = descriptors m"
      "pipe_reservations m2 = pipe_reservations m"
    using c2 m1 by (auto simp: reserve_def split: prod.splits)
  show thesis
  proof (cases "c1 \<and> c2")
    case False
    then have "sys_pipe m ce nb = (if c1 then m2 else m1, Err ResourceExhausted)"
      using p fg sz c1 c2 by (simp add: sys_pipe_def with_active_def)
    moreover have "kernel_ok X b m2" if "\<not> c2" using reserve_refused [of m1 _ m2] c2 m1(1) that by simp
    ultimately show thesis using refused [of "if c1 then m2 else m1"] False m1 m2 by (cases c1) simp_all
  next
    case True
    have ok2: "kernel_ok X (b + unat PIPE_RESERVATION) m2"
      using reserve_granted(1) [of m1 PIPE_RESERVATION m2] c2 m1(1) True by simp
    have inv: "arena_inv (descriptors m2)" using ok2 by (simp add: kernel_ok_def kernel_but_def tables_ok_def)
    have run: "sys_pipe m ce nb = (case (a, r) of
        (a, Ok (reader, writer)) \<Rightarrow>
          (let m3 = m2\<lparr>descriptors := a\<rparr>
           in try_desc m3 (pipe_endpoint a reader) (\<lambda>e. case e of
               None \<Rightarrow> (m3, Panic)
             | Some (q, _) \<Rightarrow>
                 (let m4 = m3\<lparr>pipe_reservations := om_insert q PIPE_RESERVATION (pipe_reservations m3)\<rparr>
                  in case and_then (install_end m4 p ce nb f reader) (\<lambda>(m, p) _. install_end m p ce nb g writer) of
                       ((m5, p'), Ok _) \<Rightarrow> (refresh_descriptor_snapshot (set_active m5 p') (se_pid p), Ok (f, g))
                     | ((m5, p'), Err e) \<Rightarrow> (set_active m5 p', Err e)
                     | ((m5, p'), Panic) \<Rightarrow> (set_active m5 p', Panic))))
      | (a, Err e) \<Rightarrow> (release (m2\<lparr>descriptors := a\<rparr>) PIPE_RESERVATION, Err (SysDescriptor e))
      | (a, Panic) \<Rightarrow> (m2\<lparr>descriptors := a\<rparr>, Panic))"
      using p fg sz c1 c2 True a by (simp add: sys_pipe_def with_active_def)
    show thesis
    proof (cases rule: open_pipe_cases [OF inv a])
      case (1 err n)
      have a': "pipes a = pipes (descriptors m2)" "next_pipe a = n" "descriptions a = descriptions (descriptors m2)"
        by (subst 1(4), simp)+
      have rc: "ref_count a = ref_count (descriptors m2)" by (rule ref_count_cong) (rule a'(3))
      have "waits_but {} a (sched m2)"
        by (rule waits_but_arena [of "{}" "descriptors m2"])
          (use ok2 newly_ready_same_pipes [OF a'(1)] a'(2) 1(2) in \<open>auto simp: kernel_ok_def kernel_but_def\<close>)
      then have "kernel_ok X (b + unat PIPE_RESERVATION) (m2\<lparr>descriptors := a\<rparr>)"
        using ok2 rc a'(1) open_pipe_inv [OF inv a]
        by (simp add: kernel_ok_def kernel_but_def tables_ok_def memory_ok_def reserved_pipes_open_def contains_pipe_def)
      then have "kernel_ok X b (release (m2\<lparr>descriptors := a\<rparr>) PIPE_RESERVATION)" by (rule release_ok)
      then show thesis using refused run 1(1) m2 a'(1) by (simp add: release_def)
    next
      case (2 n i j a1 a2)
      let ?m4 = "m2\<lparr>descriptors := a, pipe_reservations := om_insert (next_pipe (descriptors m2)) PIPE_RESERVATION (pipe_reservations m2)\<rparr>"
      obtain t a' where t: "and_then (install_end ?m4 p ce nb f i) (\<lambda>(m, p) _. install_end m p ce nb g j)
          = ((?m4\<lparr>descriptors := a'\<rparr>, p\<lparr>fds := t\<rparr>), Ok ())"
          "kernel_ok X b (set_active (?m4\<lparr>descriptors := a'\<rparr>) (p\<lparr>fds := t\<rparr>))"
          "om_lookup (entries t) f = Some i" "om_lookup (entries t) g = Some j" "ep a' = ep a"
        by (rule install_both [OF ok2 _ a [unfolded 2(1)] free sz, of ce nb]) (use p m2 in simp_all)
      note opened_pipe = open_pipe_opened [OF inv a [unfolded 2(1)]]
      then have "pipe_endpoint a i = Ok (Some (next_pipe (descriptors m2), True))" by (simp add: pipe_endpoint_ep)
      then have "sys_pipe m ce nb = (refresh_descriptor_snapshot
          (set_active (?m4\<lparr>descriptors := a'\<rparr>) (p\<lparr>fds := t\<rparr>)) (se_pid p), Ok (f, g))"
        using run t(1) by (simp add: 2(1) Let_def try_desc_def)
      then show thesis
        by (rule opened [where p' = "p\<lparr>fds := t\<rparr>"])
          (use t(2-5) free opened_pipe(8,11) m2 in \<open>simp_all add: set_active_def endpoint_at_ep\<close>)
    qed
  qed
qed

end
