(* ===== verification/Machine_Files.thy ===== *)
theory Machine_Files
  imports Machine_Inv
begin

text \<open>
  Calls of the machine seen from a process: the machine boots into a state that satisfies the invariant,
  \<open>pipe\<close> is all or nothing, and a file that is unlinked while it is open stays readable. Two deviations
  are shown on concrete machines.
\<close>

section \<open>The booted machine\<close>

lemma allocate_table_ok:
  assumes "table_ok X (t, a)" "endpoint d = None" "buffer_ok d"
  shows "table_ok X (t, fst (allocate a d))"
proof -
  obtain a' r where run: "allocate a d = (a', r)" by fastforce
  have "arena_inv a" using assms(1) by (simp add: table_ok_def)
  then show ?thesis
    using allocate_inv [OF _ assms(2,3) run] allocate_ref_count [OF fresh_description(1), of a d] assms(1) run
    by (simp add: table_ok_def refs_with_def)
qed

lemma table_ok_and_then:
  assumes "table_ok X (fst x)" "\<And>t a v. x = ((t, a), Ok v) \<Longrightarrow> table_ok X (t, a) \<Longrightarrow> table_ok X (fst (k (t, a) v))"
  shows "table_ok X (fst (and_then x k))"
  using assms by (cases "(x, k)" rule: and_then.cases) auto

lemma standard_descriptors_ok: "table_ok (\<lambda>_. 0) (fst standard_descriptors)"
proof -
  have start: "table_ok (\<lambda>_. 0) (new_fd_table, new_arena)"
    by (simp add: table_ok_def refs_with_def new_arena_inv new_fd_table_def fd_ok_def) (simp add: ref_count_def new_arena_def)
  have capture: "table_ok (\<lambda>_. 0) (fst (in_arena t (open_capture a)))" if "table_ok (\<lambda>_. 0) (t, a)" for t a
    using allocate_table_ok [OF that, of "OCapture [] 0"] by (cases "open_capture a") (simp add: open_capture_def)
  have input: "table_ok (\<lambda>_. 0) (fst (in_arena t (open_input a [])))" if "table_ok (\<lambda>_. 0) (t, a)" for t a
    using allocate_table_ok [OF that, of "OInput [] 0 True"] that
    by (cases "open_input a []") (simp add: open_input_def split: if_splits)
  show ?thesis
    unfolding standard_descriptors_def
    by (auto intro!: table_ok_and_then simp: start capture input install_ok)
qed

lemma standard_descriptors_succeed: "snd standard_descriptors = Ok ()"
  by (simp add: standard_descriptors_def open_input_def open_capture_def new_arena_def allocate_def Let_def checked_add_def
      MAX_OPEN_DESCRIPTIONS_def om_size_insert install_def retain_ref_def new_fd_table_def om_lookup_insert set_entry_def
      MAX_FDS_PER_PROCESS_def)

lemma boot_machine_ok:
  assumes "table_ok (\<lambda>_. 0) (t, a)"
  shows "kernel_ok (\<lambda>_. 0) 0 (boot_machine l v t a)"
proof -
  let ?m = "boot_machine l v t a"
  have fields: "descriptors ?m = a" "sched ?m = new_scheduler ROOT_PID" "pipe_reservations ?m = om_empty"
      "memory_current (resources ?m) = 0"
    by (simp_all add: boot_machine_def Let_def new_resources_def)
  have "\<exists>p. contexts ?m = om_insert ROOT_PID p om_empty \<and> fds p = t"
    by (rule exI [of _ "(root_state t)\<lparr>state_baseline := shell_state_bytes (root_state t)\<rparr>"])
      (simp add: boot_machine_def Let_def, simp add: root_state_def)
  then obtain p where p: "contexts ?m = om_insert ROOT_PID p om_empty" "fds p = t" by blast
  have "tables_ok (\<lambda>_. 0) ?m"
    using assms p by (auto simp: tables_ok_def table_ok_def refs_with_def ctx_refs_def om_weight_singleton fields
        om_lookup_insert split: if_splits)
  moreover have "waits_but {} a (new_scheduler ROOT_PID)"
    by (auto simp: waits_but_def new_scheduler_def om_lookup_insert split: if_splits)
  ultimately show ?thesis
    by (simp add: kernel_ok_def kernel_but_def fields new_scheduler_inv memory_ok_def reserved_pipes_open_def)
qed

text \<open>C39. \<open>pipe\<close> is all or nothing: it installs both ends of a fresh pipe at two free descriptors of the caller,
  or it reports an error and leaves every descriptor table, every pipe and the reserved memory as they
  were. None of its internal \<open>expect\<close>s fails.\<close>

theorem sys_pipe_all_or_nothing:
  assumes "kernel_ok X b m" "om_lookup (contexts m) (active m) = Some p"
  shows "case sys_pipe m cloexec nonblock of
      (m', Ok (f, g)) \<Rightarrow> kernel_ok X b m' \<and> f \<noteq> g \<and> fd_get (fds p) f = Err InvalidFd \<and> fd_get (fds p) g = Err InvalidFd
        \<and> (\<exists>p'. om_lookup (contexts m') (active m') = Some p'
             \<and> endpoint_at m' (fds p') f = Some (next_pipe (descriptors m), True)
             \<and> endpoint_at m' (fds p') g = Some (next_pipe (descriptors m), False))
    | (m', Err e) \<Rightarrow> kernel_ok X b m' \<and> contexts m' = contexts m \<and> pipes (descriptors m') = pipes (descriptors m)
        \<and> memory_current (resources m') = memory_current (resources m)
    | (m', Panic) \<Rightarrow> False"
  using assms
proof (cases rule: sys_pipe_cases [where ce = cloexec and nb = nonblock])
  case (refused m' e)
  have "unat (memory_current (resources m')) = unat (memory_current (resources m))"
    using assms(1) refused(2,5) by (simp add: kernel_ok_def kernel_but_def memory_ok_def)
  then have "memory_current (resources m') = memory_current (resources m)" by (rule word_unat_eq_iff [THEN iffD2])
  then show ?thesis using refused by simp
next
  case (opened m' f g p')
  then show ?thesis by (auto simp: fd_get_def)
qed

theorem sys_pipe_all_or_nothing_witness:
  "\<exists>t a. standard_descriptors = ((t, a), Ok ()) \<and> snd (sys_pipe (boot_machine unlimited new_vfs t a) False True) \<noteq> Panic"
proof -
  obtain t a where ta: "standard_descriptors = ((t, a), Ok ())"
    using standard_descriptors_succeed by (metis prod.collapse)
  then have "kernel_ok (\<lambda>_. 0) 0 (boot_machine unlimited new_vfs t a)"
    using standard_descriptors_ok boot_machine_ok by (metis fst_conv)
  moreover obtain p where "om_lookup (contexts (boot_machine unlimited new_vfs t a)) (active (boot_machine unlimited new_vfs t a)) = Some p"
    by (simp add: boot_machine_def Let_def om_lookup_insert)
  ultimately have "snd (sys_pipe (boot_machine unlimited new_vfs t a) False True) \<noteq> Panic"
    using sys_pipe_all_or_nothing [of "\<lambda>_. 0" 0 "boot_machine unlimited new_vfs t a" p False True]
    by (cases "sys_pipe (boot_machine unlimited new_vfs t a) False True") auto
  then show ?thesis using ta by blast
qed

section \<open>Removing an open file\<close>

lemma resolve_render: "list_all clean cs \<Longrightarrow> resolve_against ''/'' (render cs) = render cs"
  using normalize_of_render [of cs] by (cases cs) (auto simp: resolve_against_def starts_with_def render_def)

lemma resolved_file:
  assumes r: "realpath v (resolve_against cwd path) False = Ok r" and n: "raw_get v r = Some n" "kind n = NFile bs"
  obtains cs where "list_all clean cs" "r = render cs" "links_free v cs"
proof -
  have "resolved v False r"
    using r normalize_clean unfolding realpath_def
    by (intro realpath_inner_resolved) (auto simp: resolve_against_def)
  then obtain cs where cs: "list_all clean cs" "r = render cs" "links_free v (butlast cs)" by (auto simp: resolved_def)
  have "links_free v cs"
    using cs n by (cases cs rule: rev_cases) (simp_all add: links_free_snoc)
  then show thesis using that cs by blast
qed

text \<open>The second resolution that the call makes gives the same name, unless it gives up on its depth.\<close>

lemma realpath_again:
  assumes "realpath v (resolve_against cwd path) False = Ok r" "raw_get v r = Some n" "kind n = NFile bs"
  shows "realpath v (resolve_against ''/'' r) f = Ok r \<or> (\<exists>e. realpath v (resolve_against ''/'' r) f = Err e)"
proof -
  obtain cs where "list_all clean cs" "r = render cs" "links_free v cs" by (rule resolved_file [OF assms])
  then show ?thesis using realpath_inner_plain [of cs v f 0] resolve_render [of cs] by (simp add: realpath_def)
qed

lemma detach_file_at:
  assumes "entry a d = Some e" "description e = OFile fl"
  shows "entry (detach_file a (fs_path fl) j) d = Some (e\<lparr>description := OFile (fl\<lparr>fs_orphan := Some j\<rparr>)\<rparr>)"
  using assms by (simp add: detach_file_def)

lemma advance_file_Ok:
  assumes "entry a d = Some e" "description e = OFile fl" "unat (fs_cursor fl) + n < 2 ^ 64"
  obtains a' where "advance_file a d n = (a', Ok ())"
proof -
  have "unat (of_nat n :: u64) = n" using assms(3) by (simp add: unat_of_nat_small)
  then have "checked_add (fs_cursor fl) (of_nat n) \<noteq> None" using assms(3) by (simp add: checked_add_None_iff)
  then show thesis using assms that by (auto simp: advance_file_def)
qed

lemma sys_read_orphan:
  assumes p: "om_lookup (contexts m) (active m) = Some p" "fd_get (fds p) f = Ok d"
    and e: "entry (descriptors m) d = Some e" "description e = OFile fl" "fs_orphan fl = Some j" "fs_readable fl"
    and n: "om_lookup (orphaned (vfs m)) j = Some nd" "kind nd = NFile bs" "length bs < 2 ^ 64"
  shows "snd (sys_read m f k) = Ok (Ready (take (min k MAX_CAPTURE_BYTES) (drop (unat (fs_cursor fl)) bs)))"
proof -
  let ?out = "take (min k MAX_CAPTURE_BYTES) (drop (unat (fs_cursor fl)) bs)"
  have out: "range_of bs (unat (fs_cursor fl)) (min k MAX_CAPTURE_BYTES) = ?out"
    by (cases "unat (fs_cursor fl) \<le> length bs"; cases "min k MAX_CAPTURE_BYTES \<le> length bs - unat (fs_cursor fl)")
      (simp_all add: range_of_def Let_def min_def)
  have len: "unat (fs_cursor fl) + length ?out < 2 ^ 64"
    using n(3) unsigned_less [of "fs_cursor fl", where ?'a = nat] by auto
  obtain a where "advance_file (descriptors m) d (length ?out) = (a, Ok ())"
    by (rule advance_file_Ok [OF e(1,2) len])
  moreover have "read_fd_at m f (fs_cursor fl) k = (m\<lparr>vfs := count_read (vfs m) (length ?out)\<rparr>, Ok ?out)"
    using p e n out
    by (simp add: read_fd_at_def with_active_def try_desc_def file_state_of_def read_orphan_range_def
        orphan_bytes_def orphan_metadata_def Let_def)
  ultimately show ?thesis
    using p e by (simp add: sys_read_def with_active_def try_desc_def file_state_of_def)
qed

lemma has_open_file_at:
  assumes "entry a d = Some e" "description e = OFile fl" "fs_orphan fl = None"
  shows "has_open_file a (fs_path fl)"
  using assms unfolding has_open_file_def list_ex_iff
  by (intro bexI [of _ e]) (auto simp: om_set_values)

lemma sync_vfs_frame:
  "raw_get (vfs (sync_vfs_time m)) = raw_get (vfs m)" "link_at (vfs (sync_vfs_time m)) = link_at (vfs m)"
  "contexts (sync_vfs_time m) = contexts m" "active (sync_vfs_time m) = active m"
  "descriptors (sync_vfs_time m) = descriptors m" "vfs_inv (vfs (sync_vfs_time m)) = vfs_inv (vfs m)"
  by (simp_all add: sync_vfs_time_def set_mutation_time_def raw_get_same_tree link_at_def fun_eq_iff vfs_inv_iff)

text \<open>The branch of the call for a regular file that some description names.\<close>

lemma sys_unlink_open:
  assumes "realpath (vfs m) (resolve_against cwd path) False = Ok name"
    "realpath (vfs m) (resolve_against ''/'' name) False = Ok name"
    "raw_get (vfs m) name = Some nd" "kind nd = NFile bs" "has_open_file (descriptors m) name"
  shows "sys_unlink m cwd path = and_then (in_vfs (sync_vfs_time m) (unlink_open_file (vfs (sync_vfs_time m)) ''/'' name))
    (\<lambda>m orphan. (m\<lparr>descriptors := detach_file (descriptors m) name orphan\<rparr>, Ok ()))"
  using assms
  by (simp add: sys_unlink_def Let_def try_file_def sync_vfs_frame realpath_cong [OF sync_vfs_frame(2)]
      metadata_def metadata_ref_def)

text \<open>After the call every description of the path reads what the path held, from its own cursor.\<close>

lemma unlink_redirects_reads:
  assumes v: "vfs_inv (vfs m)"
    and p: "om_lookup (contexts m) (active m) = Some p" "fd_get (fds p) f = Ok d"
    and e: "file_state_of (descriptors m) d = Ok (Some fl)" "fs_readable fl"
    and is_open: "has_open_file (descriptors m) (fs_path fl)"
    and r: "realpath (vfs m) (resolve_against cwd path) False = Ok (fs_path fl)"
    and n: "raw_get (vfs m) (fs_path fl) = Some nd" "kind nd = NFile bs" "length bs < 2 ^ 64"
    and run: "sys_unlink m cwd path = (m', Ok ())"
  shows "snd (sys_read m' f k) = Ok (Ready (take (min k MAX_CAPTURE_BYTES) (drop (unat (fs_cursor fl)) bs)))
    \<and> raw_get (vfs m') (fs_path fl) = None"
proof -
  obtain en where en: "entry (descriptors m) d = Some en" "description en = OFile fl"
    using e(1) by (cases "entry (descriptors m) d"; cases "description (the (entry (descriptors m) d))")
      (auto simp: file_state_of_def)
  let ?m = "sync_vfs_time m"
  have again: "realpath (vfs m) (resolve_against ''/'' (fs_path fl)) False = Ok (fs_path fl)"
    using realpath_again [OF r n(1,2), of False] run n r is_open
    by (auto simp: sys_unlink_def Let_def sync_vfs_frame realpath_cong [OF sync_vfs_frame(2)] try_file_def
        metadata_def metadata_ref_def)
  from run [unfolded sys_unlink_open [OF r again n(1,2) is_open]]
  obtain w j where w: "unlink_open_file (vfs ?m) ''/'' (fs_path fl) = (w, Ok j)"
      "m' = ?m\<lparr>vfs := w, descriptors := detach_file (descriptors m) (fs_path fl) j\<rparr>"
    by (cases "unlink_open_file (vfs ?m) ''/'' (fs_path fl)"; cases "snd (unlink_open_file (vfs ?m) ''/'' (fs_path fl))")
      (auto simp: sync_vfs_frame)
  from unlink_keeps_open_file [OF _ w(1)] v again n
  have orphan: "om_lookup (orphaned w) j = Some nd" "raw_get w (fs_path fl) = None"
    by (auto simp: sync_vfs_frame realpath_cong [OF sync_vfs_frame(2)])
  have "snd (sys_read m' f k) = Ok (Ready (take (min k MAX_CAPTURE_BYTES)
      (drop (unat (fs_cursor (fl\<lparr>fs_orphan := Some j\<rparr>))) bs)))"
    by (rule sys_read_orphan [where j = j and nd = nd and e = "en\<lparr>description := OFile (fl\<lparr>fs_orphan := Some j\<rparr>)\<rparr>"])
      (use p e(2) detach_file_at [OF en, of j] orphan n in \<open>simp_all add: w(2) sync_vfs_frame\<close>)
  then show ?thesis using orphan by (simp add: w(2))
qed

text \<open>The intended case is a description of the file itself. A description of an earlier file of the same
  name, unlinked before, is caught by the same rule: it loses the contents it had.\<close>

lemma second_unlink_replaces_orphan:
  assumes "vfs_inv (vfs m)" "om_lookup (contexts m) (active m) = Some p" "fd_get (fds p) f = Ok d"
    "file_state_of (descriptors m) d = Ok (Some fl)" "fs_readable fl"
    and old: "fs_orphan fl = Some j" "om_lookup (orphaned (vfs m)) j = Some nd" "kind nd = NFile before" "length before < 2 ^ 64"
    and new: "has_open_file (descriptors m) (fs_path fl)"
      "realpath (vfs m) (resolve_against cwd path) False = Ok (fs_path fl)"
      "raw_get (vfs m) (fs_path fl) = Some nd'" "kind nd' = NFile bs" "length bs < 2 ^ 64"
      "sys_unlink m cwd path = (m', Ok ())"
  shows "snd (sys_read m f k) = Ok (Ready (take (min k MAX_CAPTURE_BYTES) (drop (unat (fs_cursor fl)) before)))
    \<and> snd (sys_read m' f k) = Ok (Ready (take (min k MAX_CAPTURE_BYTES) (drop (unat (fs_cursor fl)) bs)))"
proof -
  obtain en where en: "entry (descriptors m) d = Some en" "description en = OFile fl"
    using assms(4) by (cases "entry (descriptors m) d"; cases "description (the (entry (descriptors m) d))")
      (auto simp: file_state_of_def)
  show ?thesis
    using unlink_redirects_reads [OF assms(1-5) new, of k] sys_read_orphan [OF assms(2,3) en old(1) assms(5) old(2-4)] by simp
qed

text \<open>C40. Unlinking a file that is open does not take it away from its readers: a descriptor that named the
  file reads from its cursor the bytes that the file held, while the name is gone.\<close>

theorem unlinked_file_readable:
  assumes "vfs_inv (vfs m)"
    and "om_lookup (contexts m) (active m) = Some p" "fd_get (fds p) f = Ok d"
    and e: "file_state_of (descriptors m) d = Ok (Some fl)" "fs_orphan fl = None" "fs_readable fl"
    and "realpath (vfs m) (resolve_against cwd path) False = Ok (fs_path fl)"
    and "raw_get (vfs m) (fs_path fl) = Some nd" "kind nd = NFile bs" "length bs < 2 ^ 64"
    and "sys_unlink m cwd path = (m', Ok ())"
  shows "snd (sys_read m' f k) = Ok (Ready (take (min k MAX_CAPTURE_BYTES) (drop (unat (fs_cursor fl)) bs)))
    \<and> raw_get (vfs m') (fs_path fl) = None"
proof -
  have "has_open_file (descriptors m) (fs_path fl)"
    using e(1,2) has_open_file_at
    by (cases "entry (descriptors m) d"; cases "description (the (entry (descriptors m) d))")
      (auto simp: file_state_of_def)
  with assms show ?thesis by (intro unlink_redirects_reads)
qed

text \<open>A machine whose shell reads \<open>/a/f\<close> at descriptor 3.\<close>

definition reading_file :: file_state where
  "reading_file = \<lparr>fs_path = ''/a/f'', fs_orphan = None, fs_cursor = 1, fs_readable = True, fs_writable = False,
     fs_append = False, fs_remove_on_first_write_error = False\<rparr>"

definition reading_machine :: machine where
  "reading_machine = boot_machine unlimited linked_vfs
     \<lparr>entries = om_insert 3 1 om_empty, close_on_exec_set = om_empty\<rparr>
     (set_entry new_arena 1 \<lparr>description = OFile reading_file, references = 1, nonblocking = False,
        file_lock = None, de_inode = None\<rparr>)"

lemma reading_machine_state:
  "vfs reading_machine = linked_vfs" "active reading_machine = ROOT_PID"
  "\<exists>p. om_lookup (contexts reading_machine) ROOT_PID = Some p
     \<and> fds p = \<lparr>entries = om_insert 3 1 om_empty, close_on_exec_set = om_empty\<rparr>"
  "entry (descriptors reading_machine) 1 = Some \<lparr>description = OFile reading_file, references = 1,
     nonblocking = False, file_lock = None, de_inode = None\<rparr>"
  by (simp_all add: reading_machine_def boot_machine_def Let_def root_state_def set_entry_def om_lookup_insert)

theorem unlinked_file_readable_witness:
  "\<exists>m'. sys_unlink reading_machine ''/'' ''a/f'' = (m', Ok ()) \<and> snd (sys_read m' 3 9) = Ok (Ready [2])"
proof -
  let ?v = "vfs (sync_vfs_time reading_machine)"
  have tree: "raw_get ?v = raw_get linked_vfs" by (simp add: sync_vfs_frame reading_machine_state)
  have real: "realpath linked_vfs (resolve_against ''/'' ''a/f'') False = Ok ''/a/f''"
      "realpath linked_vfs (resolve_against ''/'' ''/a/f'') False = Ok ''/a/f''"
    by (simp_all add: linked_vfs_tree path_eval)
  then have real': "realpath ?v (resolve_against ''/'' ''/a/f'') False = Ok ''/a/f''"
    by (simp add: realpath_cong [OF sync_vfs_frame(2)] reading_machine_state)
  have is_open: "has_open_file (descriptors reading_machine) ''/a/f''"
    using has_open_file_at [OF reading_machine_state(4), of reading_file] by (simp add: reading_file_def)
  have "next_orphan ?v = 1"
    by (simp add: sync_vfs_time_def set_mutation_time_def reading_machine_state linked_vfs_def insert_node_def
        new_vfs_def with_disk_limit_def Let_def)
  then have "checked_add (next_orphan ?v) 1 = Some 2" by (simp add: checked_add_def)
  moreover obtain w1 where "remove_node (?v\<lparr>next_orphan := 2\<rparr>) ''/a/f'' = (w1, Some (file_node 3 [1, 2] 420 0))"
    by (simp add: remove_node_def Let_def raw_get_same_tree tree linked_vfs_tree)
  moreover have "reject_pseudo_mutation (resolve_against ''/'' ''/a/f'') = Ok ()"
    by (simp add: path_eval reject_pseudo_mutation_def)
  ultimately obtain w j where "unlink_open_file ?v ''/'' ''/a/f'' = (w, Ok j)"
    by (simp add: unlink_open_file_def Let_def real' tree linked_vfs_tree file_node_def)
  then obtain m' where m': "sys_unlink reading_machine ''/'' ''a/f'' = (m', Ok ())"
    using sys_unlink_open [of reading_machine "''/''" "''a/f''" "''/a/f''"] real is_open
    by (simp add: reading_machine_state linked_vfs_tree file_node_def)
  obtain p where "om_lookup (contexts reading_machine) (active reading_machine) = Some p" "fd_get (fds p) 3 = Ok 1"
    using reading_machine_state(2,3) by (auto simp: fd_get_def)
  from unlinked_file_readable [OF _ this _ _ _ _ _ _ _ m', of reading_file "file_node 3 [1, 2] 420 0" "[1, 2]" 9]
  have "snd (sys_read m' 3 9) = Ok (Ready [2])"
    using vfs_inv_linked real reading_machine_state
    by (simp add: file_state_of_def reading_file_def linked_vfs_tree file_node_def MAX_CAPTURE_BYTES_def)
  then show ?thesis using m' by blast
qed

section \<open>Dropping a pipe end without waking\<close>

text \<open>After \<open>exec >/dev/null\<close> in the last writer of pipe 1: descriptor 1 names the device, the scope of the
  redirection holds the write end and task 7 waits to read from the pipe.\<close>

definition half_open :: machine where
  "half_open = (boot_machine unlimited new_vfs \<lparr>entries = om_insert 1 3 om_empty, close_on_exec_set = om_empty\<rparr>
       (piped\<lparr>descriptions := om_insert 1 \<lparr>description = PipeReader 1, references = 1, nonblocking = False, file_lock = None, de_inode = None\<rparr>
         (om_insert 2 \<lparr>description = PipeWriter 1, references = 1, nonblocking = False, file_lock = None, de_inode = None\<rparr>
         (om_insert 3 \<lparr>description = ONull True True, references = 1, nonblocking = False, file_lock = None, de_inode = None\<rparr> om_empty))\<rparr>))
     \<lparr>sched := \<lparr>states = om_insert 7 (Blocked (PipeReadable 1)) (om_insert ROOT_PID Running om_empty),
        runnable = [], blocked = [7], current = Some ROOT_PID\<rparr>\<rparr>"

definition half_open_scope :: redirect_scope where
  "half_open_scope = \<lparr>scope_saved = \<lparr>entries = om_insert 1 2 om_empty, close_on_exec_set = om_empty\<rparr>, scope_memory = 0\<rparr>"

text \<open>Committing the scope drops the end of file on the reader without waking it, which closing or
  duplicating over the descriptor would.\<close>

lemma commit_redirects_loses_wakeup:
  "\<not> pipe_readable (descriptors half_open) 1"
  "pipe_readable (descriptors (commit_redirects half_open half_open_scope)) 1"
  "task (sched (commit_redirects half_open half_open_scope)) 7 = Some (Blocked (PipeReadable 1))"
proof -
  have entries: "om_entries (om_insert 1 2 om_empty) = [(1, 2)]" by (simp add: om_insert.rep_eq om_empty.rep_eq)
  show "\<not> pipe_readable (descriptors half_open) 1"
    by (simp add: half_open_def boot_machine_def Let_def pipe_readable_def piped_state(2))
  show "pipe_readable (descriptors (commit_redirects half_open half_open_scope)) 1"
    by (simp add: half_open_def half_open_scope_def boot_machine_def Let_def pipe_readable_def piped_state(2)
       commit_redirects_def close_all_def release_ref_def checked_sub_def saturating_sub_def drop_endpoint_def
       remove_dead_pipe_def om_update_def om_lookup_insert set_entry_def release_def om_values_def entries)
  show "task (sched (commit_redirects half_open half_open_scope)) 7 = Some (Blocked (PipeReadable 1))"
    by (simp add: half_open_def commit_redirects_def release_def om_lookup_insert split: prod.splits)
qed

end
