(* ===== verification/Lifecycle.thy ===== *)
theory Lifecycle
  imports Machine_Files
begin

text \<open>
  The life of a process, \<open>src/src/interp.rs\<close>: forking a context, finishing a child, signals with stopping,
  continuing and delivery, jobs, and the memory that the shell state of a process reserves; and the
  dispatch loop of \<open>src/src/exec.rs\<close>, which fires timed events and gives the processor to the next task.

  An error carries the message of the source without the debug form of the cause. The machine has
  virtual time and no network: \<open>dispatch_available\<close> takes \<open>host_pending\<close> for the condition that the clock may not
  jump (a real-time clock, or a request that the host has still to answer).
\<close>

section \<open>Forking\<close>

definition MAX_FORK_STATE_BYTES :: u64 where "MAX_FORK_STATE_BYTES = 32 * 1024 * 1024"

text \<open>The closure \<open>string\<close> of \<open>fork_memory_bytes\<close>, and its sums.\<close>

definition fork_string :: "string \<Rightarrow> u64" where
  "fork_string s = saturating_add (len64 s) 24"

definition fork_strings :: "string list \<Rightarrow> u64" where
  "fork_strings ss = fold (\<lambda>s total. saturating_add total (fork_string s)) ss 0"

definition fork_pairs :: "(string \<times> string) list \<Rightarrow> u64" where
  "fork_pairs es = fold (\<lambda>(name, s) total. saturating_add (saturating_add total (fork_string name)) (fork_string s)) es 0"

definition fork_array :: "array_val \<Rightarrow> u64" where
  "fork_array a = (case a of Indexed m \<Rightarrow> fork_strings (om_values m) | Assoc m \<Rightarrow> fork_pairs (om_entries m))"

definition fork_disposition :: "layout \<Rightarrow> disposition \<Rightarrow> u64" where
  "fork_disposition l d = (case d of
       Ignore \<Rightarrow> 16
     | Handler source body \<Rightarrow> saturating_add (fork_string source) (estimated_bytes l body))"

text \<open>A \<open>for\<close> loop that adds to \<open>bytes\<close>.\<close>

definition add_each :: "('a \<Rightarrow> u64) \<Rightarrow> 'a list \<Rightarrow> u64 \<Rightarrow> u64" where
  "add_each f xs start = fold (\<lambda>x bytes. saturating_add bytes (f x)) xs start"

definition fork_binding :: "string \<times> local_binding \<Rightarrow> u64" where
  "fork_binding nb = (case nb of (name, b) \<Rightarrow>
     saturating_add (saturating_add (fork_string name) (case lb_scalar b of None \<Rightarrow> 0 | Some s \<Rightarrow> fork_string s))
       (case lb_array b of None \<Rightarrow> 0 | Some a \<Rightarrow> fork_array a))"

definition fork_alias :: "string \<times> alias_definition \<Rightarrow> u64" where
  "fork_alias na = (case na of (name, a) \<Rightarrow>
     saturating_add (saturating_add (fork_string name) (fork_string (alias_source a))) (fork_strings (alias_words a)))"

definition fork_memory_bytes :: "layout \<Rightarrow> process_state \<Rightarrow> u64" where
  "fork_memory_bytes l p =
     (let bytes = fork_pairs (om_entries (v_values (se_vars p)));
          bytes = saturating_add bytes (fork_strings (sorted_list_of_set (se_exported p)));
          bytes = saturating_add bytes (fork_string (se_cwd p));
          bytes = saturating_add bytes (fork_strings (directory_stack p));
          bytes = saturating_add bytes (fork_strings (pos_values (se_positional p)));
          bytes = saturating_add bytes (of_nat (length (input_stream p)));
          bytes = saturating_add bytes (saturating_mul (of_nat (om_size (entries (fds p)))) 16);
          bytes = add_each (\<lambda>(name, a). saturating_add (fork_string name) (fork_array a)) (om_entries (a_values (se_arrays p))) bytes;
          bytes = add_each (\<lambda>(name, body). saturating_add (fork_string name) (estimated_bytes l body)) (om_entries (funcs p)) bytes;
          bytes = add_each fork_alias (om_entries (aliases p)) bytes;
          bytes = add_each fork_string (sorted_list_of_set (se_readonly p)) bytes;
          bytes = add_each fork_string (sorted_list_of_set (shell_options p)) bytes;
          bytes = add_each (\<lambda>(name, path). saturating_add (fork_string name) (fork_string path)) (om_entries (command_hash p)) bytes;
          bytes = add_each fork_binding (concat (map om_entries (local_scopes p))) bytes;
          bytes = saturating_add bytes (case expansion_error p of None \<Rightarrow> 0 | Some e \<Rightarrow> fork_string (ee_message e));
          bytes = add_each (fork_disposition l) (om_values (signal_dispositions p)) bytes
      in add_each (fork_disposition l)
           (List.map_filter id [exit_disposition p, err_disposition p]) bytes)"

definition with_state_baseline :: "process_state \<Rightarrow> process_state" where
  "with_state_baseline p = p\<lparr>state_baseline := shell_state_bytes p\<rparr>"

definition fork_for_child :: "process_state \<Rightarrow> process_record \<Rightarrow> bool \<Rightarrow> fd_table \<Rightarrow> u64 \<Rightarrow> bool \<Rightarrow> process_state" where
  "fork_for_child p identity new_shell t allocation detached =
     with_state_baseline (p\<lparr>
       se_pid := pr_pid identity,
       ppid := se_pid p,
       process_group := pr_group identity,
       session_id := pr_session identity,
       shell_pid := (if new_shell then pr_pid identity else shell_pid p),
       syscall_random_state := syscall_random_state p XOR (ucast (pr_pid identity) * 0x9e3779b97f4a7c15),
       expansion_error := None,
       expansion_depth := 0,
       jobs := [],
       next_job_id := 1,
       loop_break := 0,
       loop_continue := 0,
       loop_depth := (if new_shell then 0 else loop_depth p),
       returning := None,
       source_depth := 0,
       exiting := None,
       fds := t,
       pending_signals := {},
       signal_dispositions := (if new_shell then om_retain (\<lambda>_ d. d = Ignore) (signal_dispositions p) else signal_dispositions p),
       exit_disposition := (if new_shell then None else exit_disposition p),
       handling_signal := False,
       err_trap_active := (err_trap_active p \<and> opt_errtrace p),
       fork_allocation_bytes := allocation,
       exec_allocation_bytes := 0,
       frame_saved_bytes := 0,
       state_baseline := 0,
       state_reserved := 0,
       expansion_reserved := 0,
       detached_output := detached\<rparr>)"

text \<open>\<open>ProcessStates::activate\<close>.\<close>

definition activate :: "machine \<Rightarrow> process_id \<Rightarrow> unit sys_result" where
  "activate m pid = (if om_contains (contexts m) pid then (m\<lparr>active := pid\<rparr>, Ok ())
     else (m, Err (SysProcess ''process state does not exist'')))"

text \<open>What is undone when the child cannot be scheduled.\<close>

definition abandon_child :: "machine \<Rightarrow> fd_table \<Rightarrow> process_id \<Rightarrow> string \<Rightarrow> u64 \<Rightarrow> machine" where
  "abandon_child m t pid cwd allocation =
     release (m\<lparr>descriptors := snd (close_all t (descriptors m)),
                processes := fst (reap_process (exit_process (processes m) pid 125 cwd) pid)\<rparr>) allocation"

text \<open>Suspending the parent of a foreground child and queueing the child.\<close>

definition schedule_child :: "machine \<Rightarrow> process_state \<Rightarrow> fd_table \<Rightarrow> u64 \<Rightarrow> process_id \<Rightarrow> bool \<Rightarrow> unit sys_result" where
  "schedule_child m p t allocation pid foreground =
     (case (if foreground then map_ok (\<lambda>_. ()) (block_current (sched m) (Child pid)) else (sched m, Ok ())) of
        (s, Panic) \<Rightarrow> (m\<lparr>sched := s\<rparr>, Panic)
      | (s, Err _) \<Rightarrow> (abandon_child (m\<lparr>sched := s\<rparr>) t pid (se_cwd p) allocation, Err (SysProcess ''unable to suspend parent process''))
      | (s, Ok _) \<Rightarrow> (case spawn_task s pid of
            (s, Panic) \<Rightarrow> (m\<lparr>sched := s\<rparr>, Panic)
          | (s, Err _) \<Rightarrow>
              (let s' = (if foreground then fst (dispatch (fst (wake s (se_pid p)))) else s)
               in (abandon_child (m\<lparr>sched := s'\<rparr>) t pid (se_cwd p) allocation, Err (SysProcess ''unable to schedule child process'')))
          | (s, Ok _) \<Rightarrow> (m\<lparr>sched := s\<rparr>, Ok ())))"

text \<open>The context of the child and, for a foreground child, the switch to the next task.\<close>

definition enter_child :: "machine \<Rightarrow> process_state \<Rightarrow> fd_table \<Rightarrow> u64 \<Rightarrow> process_id \<Rightarrow> bool \<Rightarrow> bool \<Rightarrow> bool \<Rightarrow> process_id sys_result" where
  "enter_child m p t allocation pid new_shell foreground detached = (case proc (processes m) pid of
       None \<Rightarrow> (m, Panic)
     | Some identity \<Rightarrow>
         (let child = fork_for_child p identity new_shell t allocation detached;
              m1 = m\<lparr>contexts := om_insert (se_pid child) child (contexts m)\<rparr>
          in if om_contains (contexts m) (se_pid child) then (m1, Err (SysProcess ''process state already exists''))
             else let m2 = refresh_descriptor_snapshot m1 pid
                  in if \<not> foreground then (m2, Ok pid)
                     else (case dispatch (sched m2) of
                         (s, Ok (Some q)) \<Rightarrow> map_ok (\<lambda>_. pid) (activate (m2\<lparr>sched := s\<rparr>) q)
                       | (s, Ok None) \<Rightarrow> (m2\<lparr>sched := s\<rparr>, Err (SysProcess ''child process was not runnable after creation''))
                       | (s, Err _) \<Rightarrow> (m2\<lparr>sched := s\<rparr>, Err (SysProcess ''unable to dispatch child process''))
                       | (s, Panic) \<Rightarrow> (m2\<lparr>sched := s\<rparr>, Panic))))"

definition create_child :: "layout \<Rightarrow> machine \<Rightarrow> string \<Rightarrow> bool \<Rightarrow> bool \<Rightarrow> bool \<Rightarrow> child_placement \<Rightarrow> process_id sys_result" where
  "create_child l m command new_shell foreground detached placement = with_active m (\<lambda>p.
     let fork_bytes = fork_memory_bytes l p; allocation = saturating_add fork_bytes 256
     in if MAX_FORK_STATE_BYTES < fork_bytes then (m, Err (SysProcess ''shell state exceeds the 32 MiB fork limit''))
        else (case reserve m allocation of
            (m1, False) \<Rightarrow> (m1, Err (SysProcess ''memory limit exceeded while creating child process''))
          | (m1, True) \<Rightarrow> (case fork_table (fds p) (descriptors m1) of
              (a, Panic) \<Rightarrow> (m1\<lparr>descriptors := a\<rparr>, Panic)
            | (a, Err _) \<Rightarrow> (release (m1\<lparr>descriptors := a\<rparr>) allocation, Err (SysProcess ''unable to inherit descriptors''))
            | (a, Ok t) \<Rightarrow>
                (let env = exported_env p;
                     table = update_current (processes m1) (se_pid p) (se_cwd p) env
                 in case spawn_process table (se_pid p) placement command (se_cwd p) env of
                      (table, None) \<Rightarrow>
                        (release (m1\<lparr>descriptors := snd (close_all t a), processes := table\<rparr>) allocation,
                         Err (SysProcess ''logical process limit exceeded''))
                    | (table, Some pid) \<Rightarrow>
                        and_then (schedule_child (m1\<lparr>descriptors := a, processes := table\<rparr>) p t allocation pid foreground)
                          (\<lambda>m _. enter_child m p t allocation pid new_shell foreground detached)))))"

definition start_child :: "layout \<Rightarrow> machine \<Rightarrow> string \<Rightarrow> bool \<Rightarrow> process_id sys_result" where
  "start_child l m command new_shell = create_child l m command new_shell True False Inherit"

definition start_background_child :: "layout \<Rightarrow> machine \<Rightarrow> string \<Rightarrow> bool \<Rightarrow> process_id sys_result" where
  "start_background_child l m command new_shell = create_child l m command new_shell False True NewProcessGroup"

definition start_pipeline_child :: "layout \<Rightarrow> machine \<Rightarrow> string \<Rightarrow> bool \<Rightarrow> process_id sys_result" where
  "start_pipeline_child l m command new_shell = create_child l m command new_shell False False Inherit"

section \<open>Signals\<close>

text \<open>A job of a child in the contexts of all processes: the first entry with its process id.\<close>

fun set_job :: "process_id \<Rightarrow> job_state \<Rightarrow> job list \<Rightarrow> job list" where
  "set_job pid st [] = []"
| "set_job pid st (j # js) = (if job_pid j = pid then j\<lparr>job_state := st\<rparr> # js else j # set_job pid st js)"

definition update_jobs :: "process_id \<Rightarrow> job_state \<Rightarrow> machine \<Rightarrow> machine" where
  "update_jobs pid st m = m\<lparr>contexts := om_map (\<lambda>_ p. p\<lparr>jobs := set_job pid st (jobs p)\<rparr>) (contexts m)\<rparr>"

definition default_foreground :: "machine \<Rightarrow> machine" where
  "default_foreground m = (if running_group (processes m) (term_foreground (terminal m)) = []
     then m\<lparr>terminal := (terminal m)\<lparr>term_foreground := term_session (terminal m)\<rparr>\<rparr> else m)"

definition wake_parent_waits :: "machine \<Rightarrow> process_id \<Rightarrow> unit sys_result" where
  "wake_parent_waits m pid =
     and_then (in_sched m (wake_child_waiters (sched m) pid)) (\<lambda>m _.
       in_sched m (wake_child_activity_waiters (sched m) pid))"

text \<open>\<open>scheduler.wake\<close>, \<open>stop\<close> and \<open>continue_task\<close> with their error turned into a message.\<close>

definition on_task :: "machine \<Rightarrow> string \<Rightarrow> unit sched_result \<Rightarrow> unit sys_result" where
  "on_task m message r = (case r of
       (s, Ok _) \<Rightarrow> (m\<lparr>sched := s\<rparr>, Ok ())
     | (s, Err _) \<Rightarrow> (m\<lparr>sched := s\<rparr>, Err (SysProcess message))
     | (s, Panic) \<Rightarrow> (m\<lparr>sched := s\<rparr>, Panic))"

definition is_blocked :: "task_state option \<Rightarrow> bool" where
  "is_blocked t = (case t of Some (Blocked _) \<Rightarrow> True | _ \<Rightarrow> False)"

definition stop_process_state :: "machine \<Rightarrow> process_id \<Rightarrow> signal \<Rightarrow> unit sys_result" where
  "stop_process_state m pid sig =
     and_then (on_task m ''unable to stop process'' (stop_task (sched m) pid)) (\<lambda>m _.
     let m1 = update_jobs pid (JobStopped sig) (m\<lparr>processes := stop_process (processes m) pid sig\<rparr>)
     in and_then (wake_parent_waits m1 pid) (\<lambda>m _. (default_foreground m, Ok ())))"

definition continue_process_state :: "machine \<Rightarrow> process_id \<Rightarrow> unit sys_result" where
  "continue_process_state m pid =
     and_then (on_task m ''unable to continue process'' (continue_task (sched m) pid)) (\<lambda>m _.
     let m1 = m\<lparr>processes := continue_process (processes m) pid\<rparr>;
         signalled = (case om_lookup (contexts m1) pid of None \<Rightarrow> False | Some p \<Rightarrow> pending_signals p \<noteq> {})
     in and_then (if signalled \<and> is_blocked (task (sched m1) pid)
                  then on_task m1 ''unable to wake continued process'' (wake (sched m1) pid) else (m1, Ok ()))
          (\<lambda>m _. (update_jobs pid JobRunning m, Ok ())))"

text \<open>Whether a signal ends a wait of its target.\<close>

definition interrupts :: "process_state \<Rightarrow> signal \<Rightarrow> bool" where
  "interrupts p sig \<longleftrightarrow> sig = SigKill \<or> sig = SigStop
     \<or> (case om_lookup (signal_dispositions p) sig of
          Some (Handler _ _) \<Rightarrow> True
        | Some Ignore \<Rightarrow> False
        | None \<Rightarrow> terminates sig)"

definition post_signal :: "machine \<Rightarrow> process_id \<Rightarrow> signal \<Rightarrow> unit sys_result" where
  "post_signal m pid sig = (case om_lookup (contexts m) pid of
       None \<Rightarrow> (m, Err (SysProcess ''process has no execution context''))
     | Some p \<Rightarrow>
         (let m1 = m\<lparr>contexts := om_insert pid (p\<lparr>pending_signals := insert sig (pending_signals p)\<rparr>) (contexts m)\<rparr>
          in if interrupts p sig \<and> is_blocked (task (sched m1) pid)
             then on_task m1 ''unable to wake process'' (wake (sched m1) pid) else (m1, Ok ())))"

definition is_stopped_process :: "machine \<Rightarrow> process_id \<Rightarrow> bool" where
  "is_stopped_process m pid = (case proc (processes m) pid of
       Some r \<Rightarrow> (case pr_status r of PsStopped _ \<Rightarrow> True | _ \<Rightarrow> False) | None \<Rightarrow> False)"

definition send_signal :: "machine \<Rightarrow> process_id \<Rightarrow> signal \<Rightarrow> unit sys_result" where
  "send_signal m pid sig =
     (if (case proc (processes m) pid of None \<Rightarrow> True | Some r \<Rightarrow> exited (pr_status r))
      then (m, Err (SysProcess ''process does not exist''))
      else if sig = SigContinue then continue_process_state m pid
      else if sig = SigStop \<and> current (sched m) \<noteq> Some pid then stop_process_state m pid sig
      else and_then (if sig = SigKill \<and> is_stopped_process m pid then continue_process_state m pid else (m, Ok ()))
             (\<lambda>m _. post_signal m pid sig))"

fun send_signals :: "machine \<Rightarrow> process_id list \<Rightarrow> signal \<Rightarrow> unit sys_result" where
  "send_signals m [] sig = (m, Ok ())"
| "send_signals m (pid # pids) sig = and_then (send_signal m pid sig) (\<lambda>m _. send_signals m pids sig)"

definition send_signal_group :: "machine \<Rightarrow> process_id \<Rightarrow> signal \<Rightarrow> unit sys_result" where
  "send_signal_group m grp sig = (let members = live_group (processes m) grp
     in if members = [] then (m, Err (SysProcess ''process group does not exist'')) else send_signals m members sig)"

definition send_terminal_signal :: "machine \<Rightarrow> signal \<Rightarrow> unit sys_result" where
  "send_terminal_signal m sig = send_signal_group m (term_foreground (terminal m)) sig"

definition set_terminal_foreground :: "machine \<Rightarrow> process_id \<Rightarrow> unit sys_result" where
  "set_terminal_foreground m grp = (case set_foreground (terminal m) (processes m) grp of
       (tt, Ok _) \<Rightarrow> (m\<lparr>terminal := tt\<rparr>, Ok ())
     | (tt, Err _) \<Rightarrow> (m\<lparr>terminal := tt\<rparr>, Err (SysProcess ''process group is not live in the session''))
     | (tt, Panic) \<Rightarrow> (m\<lparr>terminal := tt\<rparr>, Panic))"

definition stop_active_process :: "machine \<Rightarrow> signal \<Rightarrow> unit sys_result" where
  "stop_active_process m sig = with_active m (\<lambda>p. stop_process_state m (se_pid p) sig)"

datatype signal_delivery = DeliverTerminate signal | DeliverStop signal | DeliverHandler shell_node

text \<open>The next pending signal: while a handler runs, only those that cannot be caught.\<close>

definition next_signal :: "process_state \<Rightarrow> signal option" where
  "next_signal p =
     (if handling_signal p then find (\<lambda>s. s \<in> pending_signals p) [SigKill, SigStop]
      else if pending_signals p = {} then None else Some (Min (pending_signals p)))"

text \<open>The loop of \<open>take_signal_delivery\<close> on the active context; it ends since every round takes a signal out.
  The flag tells that the events of the process are cancelled.\<close>

lemma finite_signals [simp]: "finite (S :: signal set)"
proof -
  have "inj signal_index"
  proof (rule injI)
    fix a b :: signal assume "signal_index a = signal_index b"
    then show "a = b" by (cases a; cases b) simp_all
  qed
  moreover have "range signal_index \<subseteq> {..10}"
  proof safe
    fix s show "signal_index s \<le> 10" by (cases s) simp_all
  qed
  ultimately have "finite (UNIV :: signal set)"
    by (metis finite_imageD finite_subset finite_atMost)
  then show ?thesis by (rule finite_subset [OF subset_UNIV])
qed

lemma next_signal_pending: "next_signal p = Some s \<Longrightarrow> s \<in> pending_signals p"
  using Min_in [OF finite_signals, of "pending_signals p"]
  by (cases "handling_signal p"; cases "pending_signals p = {}") (auto simp: next_signal_def split: if_splits)

lemma next_signal_left:
  "next_signal p = Some s \<Longrightarrow> card (pending_signals p - {s}) < card (pending_signals p)"
  by (intro psubset_card_mono) (auto dest: next_signal_pending)

function deliver :: "process_state \<Rightarrow> process_state \<times> signal_delivery option" where
  "deliver p = (case next_signal p of
       None \<Rightarrow> (p, None)
     | Some sig \<Rightarrow>
         (let p1 = p\<lparr>pending_signals := pending_signals p - {sig}\<rparr>
          in if sig = SigKill then (p1, Some (DeliverTerminate sig))
             else if sig = SigStop then (p1, Some (DeliverStop sig))
             else (case om_lookup (signal_dispositions p1) sig of
                 Some Ignore \<Rightarrow> deliver p1
               | Some (Handler source body) \<Rightarrow> (p1\<lparr>handling_signal := True\<rparr>, Some (DeliverHandler body))
               | None \<Rightarrow> if terminates sig then (p1, Some (DeliverTerminate sig)) else deliver p1)))"
  by pat_completeness auto
termination
  by (relation "measure (\<lambda>p. card (pending_signals p))") (simp_all add: next_signal_left)

declare deliver.simps [simp del]

definition cancel_events :: "machine \<Rightarrow> process_id \<Rightarrow> machine" where
  "cancel_events m pid = m\<lparr>clock := fst (cancel_task_events (clock m) (ucast pid))\<rparr>"

definition take_signal_delivery :: "machine \<Rightarrow> signal_delivery option sys_result" where
  "take_signal_delivery m = with_active m (\<lambda>p. case deliver p of (p', d) \<Rightarrow>
     let m1 = set_active m p'
     in (case d of Some (DeliverTerminate sig) \<Rightarrow> cancel_events m1 (se_pid p) | _ \<Rightarrow> m1, Ok d))"

definition take_default_termination :: "machine \<Rightarrow> signal option sys_result" where
  "take_default_termination m = with_active m (\<lambda>p.
     case find (\<lambda>sig. terminates sig \<and> (sig = SigKill \<or> \<not> om_contains (signal_dispositions p) sig))
            (sorted_list_of_set (pending_signals p)) of
       None \<Rightarrow> (m, Ok None)
     | Some sig \<Rightarrow>
         (let m1 = cancel_events (set_active m (p\<lparr>pending_signals := pending_signals p - {sig}\<rparr>)) (se_pid p)
          in (m1\<lparr>processes := mark_signal_termination (processes m1) (se_pid p) sig\<rparr>, Ok (Some sig))))"

definition finish_signal_handler :: "machine \<Rightarrow> unit sys_result" where
  "finish_signal_handler m = with_active m (\<lambda>p. (set_active m (p\<lparr>handling_signal := False\<rparr>), Ok ()))"

section \<open>Memory of a context\<close>

definition release_expansion_memory :: "machine \<Rightarrow> unit sys_result" where
  "release_expansion_memory m = with_active m (\<lambda>p.
     (release (set_active m (p\<lparr>expansion_reserved := 0\<rparr>)) (expansion_reserved p), Ok ()))"

definition sync_shell_memory :: "machine \<Rightarrow> bool sys_result" where
  "sync_shell_memory m = with_active m (\<lambda>p.
     let target = saturating_sub (shell_state_bytes p) (state_baseline p); reserved = state_reserved p
     in case (if reserved < target then reserve m (target - reserved) else (release m (reserved - target), True)) of
          (m1, False) \<Rightarrow> (m1, Ok False)
        | (m1, True) \<Rightarrow> (set_active m1 (p\<lparr>state_reserved := target\<rparr>), Ok True))"

definition release_exec_metadata :: "machine \<Rightarrow> unit sys_result" where
  "release_exec_metadata m = with_active m (\<lambda>p.
     if exec_allocation_bytes p = 0 then (m, Ok ())
     else and_then (sync_shell_memory m) (\<lambda>m _. with_active m (\<lambda>p.
       (release (set_active m (p\<lparr>exec_allocation_bytes := 0\<rparr>)) (exec_allocation_bytes p), Ok ()))))"

text \<open>What a context returns to the meter when it ends.\<close>

definition context_bytes :: "process_state \<Rightarrow> u64" where
  "context_bytes p = saturating_add (saturating_add (saturating_add (fork_allocation_bytes p) (exec_allocation_bytes p))
     (state_reserved p)) (expansion_reserved p)"

section \<open>The end of a process\<close>

definition append_pending :: "bytes \<Rightarrow> bytes \<Rightarrow> bytes" where
  "append_pending destination bs = destination @ take (min (length bs) (MAX_CAPTURE_BYTES - length destination)) bs"

text \<open>Output of a detached child that nobody has read yet.\<close>

definition drain_to :: "(bytes \<Rightarrow> machine \<Rightarrow> machine) \<Rightarrow> description_id option \<Rightarrow> machine \<Rightarrow> machine" where
  "drain_to keep d m = (case d of
       None \<Rightarrow> m
     | Some i \<Rightarrow> (case drain_capture (descriptors m) i of
           (a, Ok bs) \<Rightarrow> keep bs (m\<lparr>descriptors := a\<rparr>)
         | (a, _) \<Rightarrow> m\<lparr>descriptors := a\<rparr>))"

definition drain_detached :: "process_state \<Rightarrow> machine \<Rightarrow> machine" where
  "drain_detached p m =
     (if \<not> detached_output p then m
      else let out = om_lookup (entries (fds p)) 1; err = om_lookup (entries (fds p)) 2;
               m1 = drain_to (\<lambda>bs m. m\<lparr>pending_stdout := append_pending (pending_stdout m) bs\<rparr>) out m
           in drain_to (\<lambda>bs m. m\<lparr>pending_stderr := append_pending (pending_stderr m) bs\<rparr>)
                (if err = out then None else err) m1)"

definition pipe_ends :: "descriptor_arena \<Rightarrow> fd_table \<Rightarrow> (pipe_id \<times> bool) list" where
  "pipe_ends a t = List.map_filter (\<lambda>i. case pipe_endpoint a i of Ok e \<Rightarrow> e | _ \<Rightarrow> None) (om_values (entries t))"

fun wake_ends_of :: "machine \<Rightarrow> (pipe_id \<times> bool) list \<Rightarrow> unit sys_result" where
  "wake_ends_of m [] = (m, Ok ())"
| "wake_ends_of m (e # es) = and_then (in_sched m (wake_waiters (sched m) (endpoint_reason e))) (\<lambda>m _. wake_ends_of m es)"

text \<open>The descriptors of a process that ends, with all wake-ups.\<close>

definition close_descriptors :: "machine \<Rightarrow> process_state \<Rightarrow> unit sys_result" where
  "close_descriptors m p =
     (let ends = pipe_ends (descriptors m) (fds p);
          (t, a) = close_all (fds p) (descriptors m);
          m1 = (set_active m (p\<lparr>fds := t\<rparr>))\<lparr>descriptors := a\<rparr>
      in and_then (wake_lock_waiters m1) (\<lambda>m _.
           let m2 = release_closed_pipe_memory m;
               m3 = m2\<lparr>vfs := retain_orphans (vfs m2) (live_orphans (descriptors m2))\<rparr>
           in wake_ends_of m3 ends))"

text \<open>The task gives up the processor and the tasks that wait for it are woken.\<close>

definition exit_task :: "machine \<Rightarrow> process_id \<Rightarrow> int \<Rightarrow> process_id option sys_result" where
  "exit_task m pid status =
     (let m1 = m\<lparr>sched := fst (exit_current (sched m) status)\<rparr>
      in and_then (wake_parent_waits m1 pid) (\<lambda>m _.
           case dispatch (sched m) of
             (s, Ok q) \<Rightarrow> (m\<lparr>sched := s\<rparr>, Ok q)
           | (s, Err _) \<Rightarrow> (m\<lparr>sched := s\<rparr>, Ok None)
           | (s, Panic) \<Rightarrow> (m\<lparr>sched := s\<rparr>, Panic)))"

definition note_exit :: "process_id \<Rightarrow> int \<Rightarrow> event_id option \<Rightarrow> process_state \<Rightarrow> process_state" where
  "note_exit pid status deadline parent =
     (let parent = parent\<lparr>jobs := set_job pid (JobDone status) (jobs parent)\<rparr>
      in if deadline \<noteq> None then parent\<lparr>deadline_interrupt := deadline\<rparr> else parent)"

text \<open>Result of a call that is thrown away; a panic is not.\<close>

fun ignore_result :: "'a sys_result \<Rightarrow> unit sys_result" where
  "ignore_result (m, Panic) = (m, Panic)"
| "ignore_result (m, _) = (m, Ok ())"

definition finish_child :: "machine \<Rightarrow> process_id \<Rightarrow> int \<Rightarrow> unit sys_result" where
  "finish_child m pid status = with_active m (\<lambda>p.
     and_then (close_descriptors (drain_detached p m) p) (\<lambda>m _.
     let m1 = m\<lparr>processes := exit_process (update_descriptors (processes m) pid om_empty) pid status (se_cwd p)\<rparr>;
         m2 = cancel_events (default_foreground m1) pid
     in and_then (exit_task m2 pid status) (\<lambda>m scheduled.
     let m3 = m\<lparr>contexts := om_update (ppid p) (note_exit pid status (deadline_interrupt p)) (om_remove pid (contexts m))\<rparr>;
         retained = om_contains (contexts m3) (ppid p)
     in and_then (case scheduled of
            None \<Rightarrow> (m3, Ok ())
          | Some q \<Rightarrow> if om_contains (contexts m3) q then (m3\<lparr>active := q\<rparr>, Ok ()) else (m3, Panic)) (\<lambda>m _.
        and_then (if retained then ignore_result (send_signal m (ppid p) SigChild)
                  else (m\<lparr>processes := fst (reap_process (processes m) pid), sched := fst (reap_task (sched m) pid)\<rparr>, Ok ())) (\<lambda>m _.
          (release m (context_bytes p), Ok ()))))))"

text \<open>A child whose setup failed before it ran.\<close>

definition cancel_unstarted_child :: "machine \<Rightarrow> process_id \<Rightarrow> unit sys_result" where
  "cancel_unstarted_child m pid = with_active m (\<lambda>p.
     let m1 = (case om_lookup (contexts m) pid of
            None \<Rightarrow> m
          | Some child \<Rightarrow>
              (let m1 = release_closed_pipe_memory (m\<lparr>contexts := om_remove pid (contexts m),
                          descriptors := snd (close_all (fds child) (descriptors m))\<rparr>)
               in release (m1\<lparr>vfs := retain_orphans (vfs m1) (live_orphans (descriptors m1))\<rparr>) (context_bytes child)))
     in (m1\<lparr>sched := fst (discard_runnable (sched m1) pid),
            processes := fst (reap_process (exit_process (processes m1) pid 125 (se_cwd p)) pid)\<rparr>, Ok ()))"

section \<open>Jobs\<close>

definition new_job :: "machine \<Rightarrow> process_id \<Rightarrow> string \<Rightarrow> u32 option sys_result" where
  "new_job m pid command = with_active m (\<lambda>p.
     if MAX_PROCESSES \<le> length (jobs p) then (m, Ok None)
     else case checked_add (next_job_id p) 1 of
            None \<Rightarrow> (m, Ok None)
          | Some n \<Rightarrow> (set_active m (p\<lparr>next_job_id := n,
              jobs := jobs p @ [\<lparr>job_id = next_job_id p, job_pid = pid, job_cmd = command, job_state = JobRunning\<rparr>]\<rparr>),
              Ok (Some (next_job_id p))))"

definition next_temp_id :: "machine \<Rightarrow> machine \<times> u64 option" where
  "next_temp_id m = (case checked_add (next_temp m) 1 of
       None \<Rightarrow> (m, None)
     | Some n \<Rightarrow> (m\<lparr>next_temp := n\<rparr>, Some (next_temp m)))"

section \<open>Timed events and dispatch\<close>

text \<open>\<open>ProcessId::try_from\<close> of a task number.\<close>

definition task_pid :: "u64 \<Rightarrow> process_id option" where
  "task_pid t = (if unat t < 2 ^ 32 then Some (ucast t) else None)"

definition timed_wait :: "task_state option \<Rightarrow> u64 \<Rightarrow> bool" where
  "timed_wait t deadline = (case blocked_reason t of None \<Rightarrow> False | Some r \<Rightarrow> accepts_timer r deadline)"

definition set_deadline_interrupt :: "machine \<Rightarrow> process_id \<Rightarrow> event_id \<Rightarrow> unit sys_result" where
  "set_deadline_interrupt m pid ev = (case om_lookup (contexts m) pid of
       None \<Rightarrow> (m, Err (SysProcess ''process state does not exist''))
     | Some p \<Rightarrow> (m\<lparr>contexts := om_insert pid (p\<lparr>deadline_interrupt := Some ev\<rparr>) (contexts m)\<rparr>, Ok ()))"

fun interrupt_each :: "machine \<Rightarrow> event_id \<Rightarrow> process_id list \<Rightarrow> unit sys_result" where
  "interrupt_each m ev [] = (m, Ok ())"
| "interrupt_each m ev (pid # pids) =
     and_then (set_deadline_interrupt m pid ev) (\<lambda>m _.
     and_then (on_task m ''unable to wake process'' (wake (sched m) pid)) (\<lambda>m _. interrupt_each m ev pids))"

fun signal_each :: "machine \<Rightarrow> process_id list \<Rightarrow> signal \<Rightarrow> unit sys_result" where
  "signal_each m [] sig = (m, Ok ())"
| "signal_each m (pid # pids) sig = and_then (ignore_result (send_signal m pid sig)) (\<lambda>m _. signal_each m pids sig)"

definition handle_event :: "machine \<Rightarrow> scheduled_event \<Rightarrow> unit sys_result" where
  "handle_event m ev = (case ev_kind ev of
       WakeTask t \<Rightarrow> (case task_pid t of
           None \<Rightarrow> (m, Ok ())
         | Some pid \<Rightarrow> if timed_wait (task (sched m) pid) (deadline_ns (ev_id ev))
                       then on_task m ''unable to wake process'' (wake (sched m) pid) else (m, Ok ()))
     | Deadline t \<Rightarrow> interrupt_each m (ev_id ev)
         (if t = MAIN_TASK_ID then timer_waiters (sched m) else case task_pid t of None \<Rightarrow> [] | Some pid \<Rightarrow> [pid])
     | SignalTask t sig descendants \<Rightarrow> (case task_pid t of
           None \<Rightarrow> (m, Ok ())
         | Some pid \<Rightarrow> signal_each m (rev (if descendants then live_process_tree (processes m) pid else [pid])) sig)
     | External _ _ \<Rightarrow> (m, Ok ()))"

text \<open>The loop over \<open>pop_ready\<close>. No event handler schedules or fires events, so it runs over the events
  that were ready.\<close>

fun handle_each :: "machine \<Rightarrow> scheduled_event list \<Rightarrow> unit sys_result" where
  "handle_each m [] = (m, Ok ())"
| "handle_each m (ev # evs) =
     and_then (handle_event (m\<lparr>clock := (clock m)\<lparr>ready := evs\<rparr>\<rparr>) ev) (\<lambda>m _. handle_each m evs)"

definition handle_ready_events :: "machine \<Rightarrow> unit sys_result" where
  "handle_ready_events m = handle_each m (ready (clock m))"

definition on_clock :: "machine \<Rightarrow> 'a tl_result \<Rightarrow> 'a sys_result" where
  "on_clock m r = (case r of
       (c, Ok v) \<Rightarrow> (m\<lparr>clock := c\<rparr>, Ok v)
     | (c, Err _) \<Rightarrow> (m\<lparr>clock := c\<rparr>, Err (SysProcess ''clock error''))
     | (c, Panic) \<Rightarrow> (m\<lparr>clock := c\<rparr>, Panic))"

definition wake_due_events :: "machine \<Rightarrow> unit sys_result" where
  "wake_due_events m = and_then (on_clock m (advance_to (clock m) (monotonic_ns (clock m)))) (\<lambda>m _. handle_ready_events m)"

text \<open>The next runnable task, after jumping over idle time as long as events fire. Every round fires a
  pending event, so \<open>dispatch_available\<close> gives the loop one round for each of them and one more.\<close>

primrec dispatch_loop :: "nat \<Rightarrow> machine \<Rightarrow> bool \<Rightarrow> bool sys_result option" where
  "dispatch_loop 0 m advance = None"
| "dispatch_loop (Suc n) m advance = (case dispatch (sched m) of
       (s, Ok (Some pid)) \<Rightarrow> Some (map_ok (\<lambda>_. True) (activate (m\<lparr>sched := s\<rparr>) pid))
     | (s, Err _) \<Rightarrow> Some (m\<lparr>sched := s\<rparr>, Err (SysProcess ''scheduler error''))
     | (s, Panic) \<Rightarrow> Some (m\<lparr>sched := s\<rparr>, Panic)
     | (s, Ok None) \<Rightarrow>
         (let m1 = m\<lparr>sched := s\<rparr>
          in if \<not> advance then Some (m1, Ok False)
             else (case on_clock m1 (advance_to_next (clock m1)) of
                 (m2, Ok []) \<Rightarrow> Some (m2, Ok False)
               | (m2, Ok (ev # evs)) \<Rightarrow> (case handle_ready_events m2 of
                     (m3, Ok _) \<Rightarrow> dispatch_loop n m3 advance
                   | (m3, Err e) \<Rightarrow> Some (m3, Err e)
                   | (m3, Panic) \<Rightarrow> Some (m3, Panic))
               | (m2, Err e) \<Rightarrow> Some (m2, Err e)
               | (m2, Panic) \<Rightarrow> Some (m2, Panic))))"

definition dispatch_available :: "machine \<Rightarrow> bool \<Rightarrow> bool \<Rightarrow> bool sys_result option" where
  "dispatch_available m advance_time host_pending =
     (case and_then (wake_lock_waiters m) (\<lambda>m _. handle_ready_events m) of
        (m1, Ok _) \<Rightarrow> dispatch_loop (Suc (om_size (Timeline.pending (clock m1)))) m1 (advance_time \<and> \<not> host_pending)
      | (m1, Err e) \<Rightarrow> Some (m1, Err e)
      | (m1, Panic) \<Rightarrow> Some (m1, Panic))"

end
