(* ===== verification/Lifecycle_Inv.thy ===== *)
theory Lifecycle_Inv
  imports Lifecycle
begin

text \<open>
  The invariant of the machine over the life of its processes. \<open>machine_ok\<close> adds to \<open>kernel_ok\<close> that the
  process table, the scheduler and the contexts agree on which processes exist, and that the meter holds
  exactly what the pipes and the contexts reserved.
\<close>

section \<open>Tasks\<close>

definition live_task :: "task_state option \<Rightarrow> bool" where
  "live_task t = (case t of None \<Rightarrow> False | Some (Exited _) \<Rightarrow> False | _ \<Rightarrow> True)"

lemma live_task_simps [simp]:
  "\<not> live_task None" "\<not> live_task (Some (Exited c))" "live_task (Some Runnable)" "live_task (Some Running)"
  "live_task (Some (Blocked r))" "live_task (Some (Stopped x))"
  by (simp_all add: live_task_def)

definition same_tasks :: "scheduler \<Rightarrow> scheduler \<Rightarrow> bool" where
  "same_tasks s s' \<longleftrightarrow> (\<forall>t. (task s' t = None) = (task s t = None) \<and> live_task (task s' t) = live_task (task s t))"

lemma same_tasks_refl [simp, intro]: "same_tasks s s"
  by (simp add: same_tasks_def)

lemma same_tasks_trans [trans]: "same_tasks s1 s2 \<Longrightarrow> same_tasks s2 s3 \<Longrightarrow> same_tasks s1 s3"
  by (simp add: same_tasks_def)

lemma same_tasks_put: "live_task (task s p) \<Longrightarrow> live_task (Some t) \<Longrightarrow> states s' = om_insert p t (states s) \<Longrightarrow> same_tasks s s'"
  by (cases "task s p") (auto simp: same_tasks_def om_lookup_insert)

lemma wake_task:
  assumes "wake s p = (s', r)"
  shows "same_tasks s s'" "fewer_waits s' s" "current s' = current s"
  using assms
  by (auto simp: wake_def same_tasks_def fewer_waits_def om_lookup_insert split: task_splits)

lemma stop_task_task:
  assumes "stop_task s p = (s', r)"
  shows "same_tasks s s'" "fewer_waits s' s" "current s' \<in> {None, current s}"
  using assms
  by (auto simp: stop_task_def same_tasks_def fewer_waits_def om_lookup_insert split: task_splits)

lemma continue_task_task:
  assumes "continue_task s p = (s', r)"
  shows "same_tasks s s'" "fewer_waits s' s" "current s' = current s"
  using assms
  by (auto simp: continue_task_def same_tasks_def fewer_waits_def om_lookup_insert split: task_splits)

lemma wake_matching_task:
  assumes "sched_inv s"
  obtains s' n where "wake_matching s P = (s', Ok n)" "same_tasks s s'" "sched_inv s'" "fewer_waits s' s"
    "current s' = current s" "\<forall>t r. blocked_reason (task s' t) = Some r \<longrightarrow> \<not> P r"
proof -
  obtain s' n where run: "wake_matching s P = (s', Ok n)" "sched_inv s'" "fewer_waits s' s"
      "\<forall>t r. blocked_reason (task s' t) = Some r \<longrightarrow> \<not> P r" "current s' = current s"
    by (rule wake_matching_waits [OF assms, of P])
  have "live_task (map_option woken (task s q)) \<and> live_task (task s q)" if "q \<in> set (waiters s P)" for q
    using that set_waiters [OF assms, of q P] by (auto simp: blocked_reason_cases)
  then have "same_tasks s s'"
    using wake_matching_spec [OF assms, of P] run(1) by (auto simp: same_tasks_def)
  then show thesis using run that by blast
qed

lemma dispatch_task:
  assumes "sched_inv s" "dispatch s = (s', r)"
  shows "same_tasks s s'" "fewer_waits s' s" "sched_inv s'"
    "r = Ok (Some q) \<Longrightarrow> current s' = Some q \<and> live_task (task s q) \<and> current s = None"
    "r = Ok None \<Longrightarrow> s' = s \<and> current s = None"
proof -
  show "sched_inv s'" using dispatch_inv [OF assms(1)] assms(2) by simp
  show "same_tasks s s'" "fewer_waits s' s"
    using assms sched_invD(3) [OF assms(1)]
    by (auto simp: dispatch_def Let_def same_tasks_def fewer_waits_def om_lookup_insert split: if_splits list.splits option.splits)
  show "r = Ok (Some q) \<Longrightarrow> current s' = Some q \<and> live_task (task s q) \<and> current s = None"
    using assms by (auto simp: dispatch_def Let_def split: if_splits list.splits option.splits)
  show "r = Ok None \<Longrightarrow> s' = s \<and> current s = None"
    using assms by (auto simp: dispatch_def Let_def split: if_splits list.splits option.splits)
qed

section \<open>The invariant\<close>

text \<open>What the contexts reserved.\<close>

definition reserved_by :: "process_state \<Rightarrow> nat" where
  "reserved_by p = unat (fork_allocation_bytes p) + unat (exec_allocation_bytes p) + unat (state_reserved p)
     + unat (expansion_reserved p)"

definition ctx_bytes :: "(process_id, process_state) omap \<Rightarrow> nat" where
  "ctx_bytes c = om_weight (\<lambda>_ p. reserved_by p) c"

lemma ctx_bytes_insert: "ctx_bytes (om_insert t p c) = ctx_bytes (om_remove t c) + reserved_by p"
  by (simp add: ctx_bytes_def om_weight_insert)

lemma ctx_bytes_remove: "om_lookup c t = Some p \<Longrightarrow> ctx_bytes c = ctx_bytes (om_remove t c) + reserved_by p"
  using om_weight_remove [of "\<lambda>_ p. reserved_by p" c t] by (simp add: ctx_bytes_def)

text \<open>The three tables agree: every task has a process record, and a process has a context exactly as long as its
  task has not exited.\<close>

definition processes_agree :: "machine \<Rightarrow> bool" where
  "processes_agree m \<longleftrightarrow> pt_inv (processes m)
     \<and> (\<forall>t. task (sched m) t \<noteq> None \<longrightarrow> proc (processes m) t \<noteq> None)
     \<and> (\<forall>t. om_lookup (contexts m) t \<noteq> None \<longleftrightarrow> live_task (task (sched m) t))
     \<and> (\<forall>t p. om_lookup (contexts m) t = Some p \<longrightarrow> se_pid p = t)"

definition machine_ok :: "(description_id \<Rightarrow> nat) \<Rightarrow> nat \<Rightarrow> machine \<Rightarrow> bool" where
  "machine_ok X b m \<longleftrightarrow> kernel_ok X (b + ctx_bytes (contexts m)) m \<and> processes_agree m \<and> tl_inv (clock m)"

text \<open>A process has the processor and its context is the active one.\<close>

definition running :: "machine \<Rightarrow> bool" where
  "running m \<longleftrightarrow> current (sched m) = Some (active m)"

definition at_rest :: "machine \<Rightarrow> bool" where
  "at_rest m \<longleftrightarrow> running m \<or> current (sched m) = None"

lemma machine_okD:
  assumes "machine_ok X b m"
  shows "kernel_ok X (b + ctx_bytes (contexts m)) m" "pt_inv (processes m)"
    "task (sched m) t \<noteq> None \<Longrightarrow> proc (processes m) t \<noteq> None"
    "om_lookup (contexts m) t \<noteq> None \<longleftrightarrow> live_task (task (sched m) t)"
    "om_lookup (contexts m) t = Some p \<Longrightarrow> se_pid p = t" "tl_inv (clock m)" "sched_inv (sched m)"
  using assms by (auto simp: machine_ok_def processes_agree_def kernel_ok_def kernel_but_def)

lemma running_context:
  assumes "machine_ok X b m" "running m"
  obtains p where "om_lookup (contexts m) (active m) = Some p" "se_pid p = active m"
proof -
  have "task (sched m) (active m) = Some Running"
    using assms sched_invD(5) [OF machine_okD(7) [OF assms(1)]] by (simp add: running_def)
  then have "om_lookup (contexts m) (active m) \<noteq> None"
    using machine_okD(4) [OF assms(1), of "active m"] by simp
  then show thesis using that machine_okD(5) [OF assms(1), of "active m"] by fastforce
qed

lemma with_active_running:
  assumes "machine_ok X b m" "running m" "\<And>p. om_lookup (contexts m) (active m) = Some p \<Longrightarrow> se_pid p = active m \<Longrightarrow> Q (k p)"
  shows "Q (with_active m k)"
proof -
  obtain p where "om_lookup (contexts m) (active m) = Some p" "se_pid p = active m"
    by (rule running_context [OF assms(1,2)])
  then show ?thesis using assms(3) by (simp add: with_active_def)
qed

section \<open>Exited processes\<close>

text \<open>The same records, and the same ones of them have exited.\<close>

definition same_exits :: "process_table \<Rightarrow> process_table \<Rightarrow> bool" where
  "same_exits t t' \<longleftrightarrow> (\<forall>q. map_option (\<lambda>r. exited (pr_status r)) (proc t' q) = map_option (\<lambda>r. exited (pr_status r)) (proc t q))"

lemma same_exits_refl [simp, intro]: "same_exits t t"
  by (simp add: same_exits_def)

lemma same_exits_trans [trans]: "same_exits t1 t2 \<Longrightarrow> same_exits t2 t3 \<Longrightarrow> same_exits t1 t3"
  by (simp add: same_exits_def)

lemma same_exits_update:
  assumes "\<And>r. exited (pr_status (f r)) = exited (pr_status r)"
  shows "same_exits t (t\<lparr>records := om_update pid f (records t)\<rparr>)"
  using assms by (simp add: same_exits_def om_lookup_update option.map_comp comp_def)

lemma same_exits_records [simp]:
  "same_exits t (stop_process t pid sig)" "same_exits t (continue_process t pid)" "same_exits t (update_descriptors t pid ds)"
  "same_exits t (mark_signal_termination t pid sig)" "same_exits t (update_current t pid cwd env)"
  unfolding stop_process_def continue_process_def update_descriptors_def mark_signal_termination_def update_current_def
  by (rule same_exits_update; simp split: process_status.split)+

text \<open>No process but those in \<open>S\<close> has newly exited.\<close>

definition exits_only :: "process_id set \<Rightarrow> process_table \<Rightarrow> process_table \<Rightarrow> bool" where
  "exits_only S t t' \<longleftrightarrow> (\<forall>q r'. proc t' q = Some r' \<longrightarrow> exited (pr_status r') \<longrightarrow>
     q \<in> S \<or> (\<exists>r. proc t q = Some r \<and> exited (pr_status r)))"

lemma exits_only_same: "same_exits t t' \<Longrightarrow> exits_only S t t'"
  unfolding exits_only_def same_exits_def by (metis (mono_tags, lifting) map_option_eq_Some)

lemma exits_only_refl [simp]: "exits_only S t t"
  by (simp add: exits_only_same)

lemma exits_only_trans: "exits_only S t1 t2 \<Longrightarrow> exits_only S t2 t3 \<Longrightarrow> exits_only S t1 t3"
  unfolding exits_only_def by metis

lemma exits_only_exit [simp]: "pid \<in> S \<Longrightarrow> exits_only S t (exit_process t pid st cwd)"
  by (auto simp: exits_only_def exit_process_def om_lookup_update split: if_splits)

lemma exits_only_reap [simp]: "exits_only S t (fst (reap_process t pid))"
  by (auto simp: exits_only_def reap_process_def om_lookup_remove split: option.splits if_splits)

section \<open>Forking\<close>

lemma forked_table:
  assumes "table_ok X (t, a)" "fork_table t a = (a', r)"
  shows "r \<noteq> Panic" "r = Err e \<Longrightarrow> a' = a"
    "r = Ok t' \<Longrightarrow> t' = t \<and> arena_inv a' \<and> ref_count a' = (\<lambda>i. ref_count a i + om_count (entries t) i)
      \<and> pipes a' = pipes a \<and> next_pipe a' = next_pipe a \<and> snd (close_all t a') = a"
proof -
  note cases = fork_table_cases [OF assms(1)]
  show "r \<noteq> Panic" "r = Err e \<Longrightarrow> a' = a"
    using cases assms(2) by auto
  assume "r = Ok t'"
  then have a': "t' = t" "arena_inv a'" "ref_count a' = (\<lambda>i. ref_count a i + om_count (entries t) i)"
      "without_counts a' = without_counts a"
    using cases assms(2) by auto
  have "run_ops release_ref a' (om_values (entries t)) = a"
    using a' assms(1)
    by (intro arefs.retain_release_list)
      (auto simp: om_count_def table_ok_def refs_with_def om_set_values om_count_pos [unfolded om_count_def])
  moreover have "pipes a' = pipes a" "next_pipe a' = next_pipe a"
    using arg_cong [OF a'(4), of pipes] arg_cong [OF a'(4), of next_pipe] by (simp_all add: without_counts_def)
  ultimately show "t' = t \<and> arena_inv a' \<and> ref_count a' = (\<lambda>i. ref_count a i + om_count (entries t) i)
      \<and> pipes a' = pipes a \<and> next_pipe a' = next_pipe a \<and> snd (close_all t a') = a"
    using a' by (simp add: close_all_def)
qed

text \<open>A wait that no pipe ends.\<close>

definition quiet :: "wait_reason \<Rightarrow> bool" where
  "quiet r \<longleftrightarrow> (\<forall>q. \<not> accepts r (PipeReadable q) \<and> \<not> accepts r (PipeWritable q))"

lemma waits_but_quiet:
  assumes "waits_but W a s" "\<And>t r. blocked_reason (task s' t) = Some r \<Longrightarrow> blocked_reason (task s t) = Some r \<or> quiet r"
  shows "waits_but W a s'"
  unfolding waits_but_def
proof (intro allI impI)
  fix t r q
  assume "blocked_reason (task s' t) = Some r"
  from assms(2) [OF this] show "(accepts r (PipeReadable q) \<longrightarrow> q < next_pipe a \<and> (PipeReadable q \<in> W \<or> \<not> pipe_readable a q))
     \<and> (accepts r (PipeWritable q) \<longrightarrow> q < next_pipe a \<and> (PipeWritable q \<in> W \<or> \<not> pipe_writable a q))"
    using assms(1) unfolding waits_but_def quiet_def by blast
qed

lemma waits_but_block:
  assumes "waits_but W a s" "block_current s r = (s', x)" "quiet r"
  shows "waits_but W a s'"
  using assms(2,3)
  by (intro waits_but_quiet [OF assms(1)])
    (auto simp: block_current_def om_lookup_insert split: option.splits if_splits)

lemma spawn_task_fewer: "spawn_task s p = (s', x) \<Longrightarrow> fewer_waits s' s"
  by (auto simp: spawn_task_def fewer_waits_def om_lookup_insert split: if_splits)

lemma block_current_task:
  assumes "current s = Some p" "sched_inv s"
  shows "\<exists>s'. block_current s r = (s', Ok p) \<and> sched_inv s' \<and> same_tasks s s' \<and> current s' = None \<and> runnable s' = runnable s
    \<and> task s' p = Some (Blocked r)"
proof -
  have "task s p = Some Running" using assms sched_invD(5) by blast
  then show ?thesis
    using assms block_current_inv [OF assms(2), of r]
    by (auto simp: block_current_def intro!: same_tasks_put [of s p "Blocked r"])
qed

lemma kernel_ok_sched:
  assumes "kernel_ok X b m" "sched_inv s" "waits_but {} (descriptors m) s"
  shows "kernel_ok X b (m\<lparr>sched := s\<rparr>)"
  using assms by (simp add: kernel_ok_def kernel_but_def tables_ok_def memory_ok_def reserved_pipes_open_def)

lemma kernel_ok_waits: "kernel_ok X b m \<Longrightarrow> waits_but {} (descriptors m) (sched m)" "kernel_ok X b m \<Longrightarrow> sched_inv (sched m)"
  by (simp_all add: kernel_ok_def kernel_but_def)

lemma kernel_ok_fewer: "kernel_ok X b m \<Longrightarrow> sched_inv s \<Longrightarrow> fewer_waits s (sched m) \<Longrightarrow> kernel_ok X b (m\<lparr>sched := s\<rparr>)"
  by (rule kernel_ok_sched) (auto intro: waits_but_fewer kernel_ok_waits)

definition one_more :: "process_id \<Rightarrow> scheduler \<Rightarrow> scheduler \<Rightarrow> bool" where
  "one_more pid s s' \<longleftrightarrow> (\<forall>t. (task s' t = None) = (t \<noteq> pid \<and> task s t = None)
     \<and> live_task (task s' t) = (t = pid \<or> live_task (task s t)))"

lemma spawn_task_one_more:
  assumes "task s pid = None" "om_size (states s) < MAX_TASKS" "sched_inv s"
  shows "\<exists>s'. spawn_task s pid = (s', Ok ()) \<and> one_more pid s s' \<and> sched_inv s' \<and> current s' = current s \<and> runnable s' = runnable s @ [pid]"
  using assms spawn_task_inv [OF assms(3), of pid]
  by (auto simp: spawn_task_def one_more_def om_lookup_insert)

lemma schedule_child_ok:
  assumes ok: "kernel_ok X b m" and run: "running m" and new: "task (sched m) pid = None" "om_size (states (sched m)) < MAX_TASKS"
  obtains s where "schedule_child m p t allocation pid fg = (m\<lparr>sched := s\<rparr>, Ok ())" "kernel_ok X b (m\<lparr>sched := s\<rparr>)"
    "one_more pid (sched m) s" "current s = (if fg then None else current (sched m))" "pid \<in> set (runnable s)"
proof -
  have cur: "current (sched m) = Some (active m)" using run by (simp add: running_def)
  note inv = kernel_ok_waits [OF ok]
  obtain s1 where s1: "(if fg then map_ok (\<lambda>_. ()) (block_current (sched m) (Child pid)) else (sched m, Ok ())) = (s1, Ok ())"
      "sched_inv s1" "waits_but {} (descriptors m) s1" "same_tasks (sched m) s1" "current s1 = (if fg then None else current (sched m))"
      "om_size (states s1) = om_size (states (sched m))"
  proof (cases fg)
    case True
    obtain s1 where b: "block_current (sched m) (Child pid) = (s1, Ok (active m))" "sched_inv s1" "same_tasks (sched m) s1" "current s1 = None"
      using block_current_task [OF cur inv(2), of "Child pid"] by blast
    have "quiet (Child pid)" by (simp add: quiet_def)
    moreover have "task (sched m) (active m) = Some Running" using sched_invD(5) [OF inv(2)] cur by blast
    then have "om_size (states s1) = om_size (states (sched m))"
      using b(1) cur by (auto simp: block_current_def om_size_insert)
    ultimately show thesis using that [of s1] b waits_but_block [OF inv(1) b(1)] True by simp
  qed (use that inv cur in auto)
  have "task s1 pid = None" using s1(4) new(1) by (simp add: same_tasks_def)
  then obtain s2 where s2: "spawn_task s1 pid = (s2, Ok ())" "one_more pid s1 s2" "sched_inv s2" "current s2 = current s1"
      "runnable s2 = runnable s1 @ [pid]"
    using spawn_task_one_more [OF _ _ s1(2)] s1(6) new(2) by auto
  have "schedule_child m p t allocation pid fg = (m\<lparr>sched := s2\<rparr>, Ok ())"
    using s1(1) s2(1) by (simp add: schedule_child_def)
  moreover have "kernel_ok X b (m\<lparr>sched := s2\<rparr>)"
    using ok s2(3) waits_but_fewer [OF s1(3) spawn_task_fewer [OF s2(1)]] by (intro kernel_ok_sched) auto
  moreover have "one_more pid (sched m) s2"
    using s2(2) s1(4) by (auto simp: one_more_def same_tasks_def)
  ultimately show thesis using that s1(5) s2(4,5) by simp
qed

text \<open>The references of a table that belongs to no context yet.\<close>

definition plus_table :: "(description_id \<Rightarrow> nat) \<Rightarrow> fd_table \<Rightarrow> description_id \<Rightarrow> nat" where
  "plus_table X t i = X i + om_count (entries t) i"

lemma context_added:
  assumes ok: "kernel_ok (plus_table X t) b m" and new: "om_lookup (contexts m) pid = None" and t: "fds p = t" "fd_ok t"
  shows "kernel_ok X b (m\<lparr>contexts := om_insert pid p (contexts m)\<rparr>)"
proof -
  have "ctx_refs (om_insert pid p (contexts m)) i = ctx_refs (contexts m) i + om_count (entries t) i" for i
    using new t(1) by (simp add: ctx_refs_insert)
  then show ?thesis
    using ok t new by (auto simp: kernel_ok_def kernel_but_def tables_ok_def plus_table_def memory_ok_def reserved_pipes_open_def om_lookup_insert)
qed

lemma enter_child_ok:
  assumes ok: "kernel_ok (plus_table X t) (b + ctx_bytes (contexts m) + unat allocation) m" "fd_ok t"
    and pt: "pt_inv (processes m)" "proc (processes m) pid = Some r"
    and cov: "\<And>q. task (sched m) q \<noteq> None \<Longrightarrow> proc (processes m) q \<noteq> None"
    and live: "\<And>q. live_task (task (sched m) q) \<longleftrightarrow> q = pid \<or> om_lookup (contexts m) q \<noteq> None"
    and new: "om_lookup (contexts m) pid = None" and pids: "\<And>q p. om_lookup (contexts m) q = Some p \<Longrightarrow> se_pid p = q"
    and clk: "tl_inv (clock m)" and cur: "current (sched m) = (if fg then None else Some (active m))" "pid \<in> set (runnable (sched m))"
  shows "\<exists>m'. enter_child m p t allocation pid ns fg det = (m', Ok pid) \<and> machine_ok X b m' \<and> running m'
    \<and> same_exits (processes m) (processes m') \<and> same_tasks (sched m) (sched m')"
proof -
  have pid: "pr_pid r = pid" by (rule pt_invD(1) [OF pt])
  let ?c = "fork_for_child p r ns t allocation det"
  let ?m1 = "m\<lparr>contexts := om_insert pid ?c (contexts m)\<rparr>"
  let ?m2 = "refresh_descriptor_snapshot ?m1 pid"
  have c: "se_pid ?c = pid" "fds ?c = t" "reserved_by ?c = unat allocation"
    by (simp_all add: fork_for_child_def with_state_baseline_def pid reserved_by_def)
  have "kernel_ok X (b + ctx_bytes (contexts ?m1)) ?m1"
    using context_added [OF ok(1) new c(2) ok(2)] new c(3) by (simp add: ctx_bytes_insert add.assoc)
  moreover have "processes_agree ?m2"
    unfolding processes_agree_def
  proof (intro conjI allI impI)
    show "pt_inv (processes ?m2)" using pt(1) by (simp add: refresh_descriptor_snapshot_def update_descriptors_def pt_inv_update)
    show "proc (processes ?m2) q \<noteq> None" if "task (sched ?m2) q \<noteq> None" for q
      using that cov [of q] by (auto simp: refresh_descriptor_snapshot_def update_descriptors_def om_lookup_update)
    show "(om_lookup (contexts ?m2) q \<noteq> None) = live_task (task (sched ?m2) q)" for q
      using live [of q] by (simp add: refresh_descriptor_snapshot_def om_lookup_insert)
    show "se_pid p' = q" if "om_lookup (contexts ?m2) q = Some p'" for q p'
      using that pids [of q p'] c(1) by (auto simp: refresh_descriptor_snapshot_def om_lookup_insert split: if_splits)
  qed
  ultimately have m2: "machine_ok X b ?m2"
    using clk by (simp add: machine_ok_def refresh_descriptor_snapshot_def)
  have run: "enter_child m p t allocation pid ns fg det =
      (if \<not> fg then (?m2, Ok pid)
       else case dispatch (sched ?m2) of
           (s, Ok (Some q)) \<Rightarrow> map_ok (\<lambda>_. pid) (activate (?m2\<lparr>sched := s\<rparr>) q)
         | (s, Ok None) \<Rightarrow> (?m2\<lparr>sched := s\<rparr>, Err (SysProcess ''child process was not runnable after creation''))
         | (s, Err _) \<Rightarrow> (?m2\<lparr>sched := s\<rparr>, Err (SysProcess ''unable to dispatch child process''))
         | (s, Panic) \<Rightarrow> (?m2\<lparr>sched := s\<rparr>, Panic))"
    using pt(2) new c(1) by (simp add: enter_child_def Let_def)
  show ?thesis
  proof (cases fg)
    case False
    then show ?thesis using run m2 cur(1) by (simp add: running_def refresh_descriptor_snapshot_def)
  next
    case True
    have sched: "sched ?m2 = sched m" by (simp add: refresh_descriptor_snapshot_def)
    note inv = machine_okD(7) [OF m2]
    obtain q qs where "runnable (sched m) = q # qs" using cur(2) by (cases "runnable (sched m)") auto
    then obtain s where s: "dispatch (sched ?m2) = (s, Ok (Some q))"
      using dispatch_Ok [OF inv, of q qs] cur(1) True sched by auto
    note d = dispatch_task [OF inv s]
    have "om_lookup (contexts ?m2) q \<noteq> None" using d(4) machine_okD(4) [OF m2, of q] by simp
    then have "enter_child m p t allocation pid ns fg det = (?m2\<lparr>sched := s, active := q\<rparr>, Ok pid)"
      using run s True by (simp add: activate_def)
    moreover have "machine_ok X b (?m2\<lparr>sched := s, active := q\<rparr>)"
      using m2 d(1,3) kernel_ok_fewer [OF machine_okD(1) [OF m2] d(3,2)]
      by (auto simp: machine_ok_def processes_agree_def same_tasks_def)
    moreover have "same_exits (processes m) (processes ?m2)" "same_tasks (sched m) s"
      using d(1) sched by (simp_all add: refresh_descriptor_snapshot_def)
    ultimately show ?thesis using d(4) by (simp add: running_def)
  qed
qed

lemma meter_frame:
  "reserve m n = (m', c) \<Longrightarrow> m' = m\<lparr>resources := resources m'\<rparr>" "release m n = m\<lparr>resources := resources (release m n)\<rparr>"
  by (auto simp: reserve_def release_def split: prod.splits)

lemma agree_frame [simp]:
  "processes_agree (m\<lparr>resources := r\<rparr>) = processes_agree m" "processes_agree (m\<lparr>descriptors := a\<rparr>) = processes_agree m"
  by (simp_all add: processes_agree_def)

lemma machine_ok_same:
  assumes "machine_ok X b m" "kernel_ok X (b + ctx_bytes (contexts m)) m'" "processes m' = processes m" "sched m' = sched m"
    "contexts m' = contexts m" "clock m' = clock m"
  shows "machine_ok X b m'"
  using assms by (simp add: machine_ok_def processes_agree_def)

lemma machine_ok_table:
  assumes "machine_ok X b m" "pt_inv t" "\<And>q. proc (processes m) q \<noteq> None \<Longrightarrow> proc t q \<noteq> None"
  shows "machine_ok X b (m\<lparr>processes := t\<rparr>)"
  using assms by (auto simp: machine_ok_def processes_agree_def)

text \<open>A reservation that is given back.\<close>

lemma reserve_release:
  assumes "reserve m n = (m1, True)" "machine_ok X b m" "processes_agree m'"
    "descriptors m' = descriptors m" "sched m' = sched m" "contexts m' = contexts m" "clock m' = clock m"
    "pipe_reservations m' = pipe_reservations m" "resources m' = resources m1"
  shows "machine_ok X b (release m' n)"
proof -
  have "kernel_ok X (b + ctx_bytes (contexts m) + unat n) m1"
    by (rule reserve_granted(1) [OF assms(1) machine_okD(1) [OF assms(2)]])
  then have "kernel_ok X (b + ctx_bytes (contexts m) + unat n) m'"
    using assms(4-) reserve_granted(2-) [OF assms(1) machine_okD(1) [OF assms(2)]]
    by (simp add: kernel_ok_def kernel_but_def tables_ok_def memory_ok_def reserved_pipes_open_def)
  then have "kernel_ok X (b + ctx_bytes (contexts m)) (release m' n)" by (rule release_ok)
  then show ?thesis
    using assms(2,3,6,7) by (subst meter_frame(2), subst (asm) meter_frame(2)) (simp add: machine_ok_def)
qed

text \<open>A refused spawn leaves the records and a successful one adds a fresh one.\<close>

lemma spawn_records:
  assumes "pt_inv t" "spawn_process t parent pl command cwd env = (t', r)"
  shows "pt_inv t'" "r = None \<Longrightarrow> records t' = records t"
    "r = Some pid \<Longrightarrow> proc t pid = None \<and> proc t' pid \<noteq> None \<and> om_size (records t) < MAX_PROCESSES"
    "proc t q \<noteq> None \<Longrightarrow> proc t' q \<noteq> None" "exits_only S t t'"
proof -
  show "exits_only S t t'"
    using assms(2) by (cases rule: spawn_process_cases) (auto simp: exits_only_def om_lookup_insert split: if_splits)
  show "pt_inv t'" by (rule spawn_process_inv [OF assms])
  have "proc t (next_pid t) = None"
    using pt_invD(2) [OF assms(1)] by (cases "proc t (next_pid t)") auto
  with assms(2) show "r = Some pid \<Longrightarrow> proc t pid = None \<and> proc t' pid \<noteq> None \<and> om_size (records t) < MAX_PROCESSES"
    by (cases rule: spawn_process_cases) auto
  show "r = None \<Longrightarrow> records t' = records t"
    using assms(2) by (cases rule: spawn_process_cases) auto
  show "proc t q \<noteq> None \<Longrightarrow> proc t' q \<noteq> None"
    using assms(2) by (cases rule: spawn_process_cases) (auto simp: om_lookup_insert)
qed

text \<open>Forking from the point where memory is reserved, the table is shared and the process has a record.\<close>

lemma forked_child_ok:
  assumes ok: "machine_ok X b m" and run: "running m" and p: "om_lookup (contexts m) (active m) = Some p"
    and res: "reserve m allocation = (m1, True)" and fork: "fork_table (fds p) (descriptors m) = (a, Ok t)"
    and spawn: "pt_inv t0" "\<And>q. proc t0 q = None \<longleftrightarrow> proc (processes m) q = None" "om_size (records t0) = om_size (records (processes m))"
      "spawn_process t0 parent pl command cwd env = (t', Some pid)"
  shows "om_lookup (contexts m) pid = None \<and> (\<exists>m'.
    and_then (schedule_child (m1\<lparr>descriptors := a, processes := t'\<rparr>) p t allocation pid fg)
      (\<lambda>m _. enter_child m p t allocation pid ns fg det) = (m', Ok pid) \<and> machine_ok X b m' \<and> running m'
      \<and> exits_only S t0 (processes m') \<and> one_more pid (sched m) (sched m') \<and> proc (processes m) pid = None)"
proof -
  note k = machine_okD(1) [OF ok]
  have table: "table_ok (other_refs X m) (fds p, descriptors m)"
    using tables_okD p k by (simp add: kernel_ok_def kernel_but_def)
  note f = forked_table(3) [OF table fork refl]
  note frame1 = reserve_granted(2-) [OF res k] and r = spawn_records [OF spawn(1,4)]
  let ?m2 = "m1\<lparr>descriptors := a, processes := t'\<rparr>"
  have "kernel_ok X (b + ctx_bytes (contexts m) + unat allocation) m1"
    by (rule reserve_granted(1) [OF res k])
  then have ok2: "kernel_ok (plus_table X t) (b + ctx_bytes (contexts m) + unat allocation) ?m2"
    using f waits_but_arena [of "{}" "descriptors m" "sched m1" a "{}"] newly_ready_same_pipes [of a "descriptors m"]
    by (auto simp: kernel_ok_def kernel_but_def tables_ok_def plus_table_def frame1 memory_ok_def reserved_pipes_open_def
        contains_pipe_def)
  have "task (sched m) pid = None"
    using r(3) spawn(2) machine_okD(3) [OF ok, of pid] by (cases "task (sched m) pid") auto
  then have fresh: "task (sched m) pid = None" "om_lookup (contexts m) pid = None"
    using machine_okD(4) [OF ok, of pid] by auto
  have "om_size (states (sched m)) \<le> om_size (records (processes m))"
    using machine_okD(3) [OF ok] by (intro om_size_mono) auto
  then have room: "om_size (states (sched m)) < MAX_TASKS"
    using r(3) spawn(3) by (simp add: MAX_TASKS_def MAX_PROCESSES_def)
  obtain s where s: "schedule_child ?m2 p t allocation pid fg = (?m2\<lparr>sched := s\<rparr>, Ok ())" "kernel_ok (plus_table X t)
      (b + ctx_bytes (contexts m) + unat allocation) (?m2\<lparr>sched := s\<rparr>)" "one_more pid (sched m) s"
      "current s = (if fg then None else current (sched m))" "pid \<in> set (runnable s)"
    by (rule schedule_child_ok [OF ok2, of pid p t allocation fg]) (use run fresh(1) room in \<open>auto simp: running_def frame1\<close>)
  obtain rec where rec: "proc t' pid = Some rec" using r(3) by blast
  have "\<exists>m'. enter_child (?m2\<lparr>sched := s\<rparr>) p t allocation pid ns fg det = (m', Ok pid) \<and> machine_ok X b m' \<and> running m'
      \<and> same_exits (processes (?m2\<lparr>sched := s\<rparr>)) (processes m') \<and> same_tasks (sched (?m2\<lparr>sched := s\<rparr>)) (sched m')"
  proof (rule enter_child_ok)
    show "fd_ok t" using table f by (simp add: table_ok_def)
    show "proc (processes (?m2\<lparr>sched := s\<rparr>)) q \<noteq> None" if "task (sched (?m2\<lparr>sched := s\<rparr>)) q \<noteq> None" for q
      using that s(3) rec r(4) [of q] machine_okD(3) [OF ok, of q] spawn(2) [of q]
      by (cases "q = pid"; cases "task (sched m) q") (auto simp: one_more_def)
    show "live_task (task (sched (?m2\<lparr>sched := s\<rparr>)) q) = (q = pid \<or> om_lookup (contexts (?m2\<lparr>sched := s\<rparr>)) q \<noteq> None)" for q
      using s(3) machine_okD(4) [OF ok, of q] by (simp add: one_more_def frame1)
  qed (use s r(1) rec fresh run machine_okD(5,6) [OF ok] meter_frame(1) [OF res] in
      \<open>auto simp: frame1 running_def dest: arg_cong [where f = clock]\<close>)
  then show ?thesis using s(1) fresh(2) s(3) r(3) spawn(2) [of pid] exits_only_trans [OF r(5) [of S] exits_only_same]
    by (auto simp: one_more_def same_tasks_def)
qed

lemma create_child_ok:
  assumes ok: "machine_ok X b m" and run: "running m"
  shows "case create_child l m command ns fg det pl of
      (m', Ok pid) \<Rightarrow> machine_ok X b m' \<and> running m' \<and> om_lookup (contexts m) pid = None \<and> exits_only S (processes m) (processes m')
        \<and> one_more pid (sched m) (sched m') \<and> proc (processes m) pid = None
    | (m', Err e) \<Rightarrow> machine_ok X b m' \<and> running m' \<and> contexts m' = contexts m \<and> sched m' = sched m
        \<and> exits_only S (processes m) (processes m')
    | (m', Panic) \<Rightarrow> False"
proof -
  obtain p where p: "om_lookup (contexts m) (active m) = Some p" "se_pid p = active m"
    by (rule running_context [OF ok run])
  let ?alloc = "saturating_add (fork_memory_bytes l p) 256" and ?env = "exported_env p"
  let ?table = "update_current (processes m) (active m) (se_cwd p) ?env"
  have table: "pt_inv ?table" "\<And>q. proc ?table q = None \<longleftrightarrow> proc (processes m) q = None"
      "om_size (records ?table) = om_size (records (processes m))"
    using machine_okD(2) [OF ok] by (auto simp: update_current_def om_lookup_update pt_inv_update)
  have fds_ok: "table_ok (other_refs X m) (fds p, descriptors m)"
    using tables_okD p(1) machine_okD(1) [OF ok] by (simp add: kernel_ok_def kernel_but_def)
  obtain m1 c where res: "reserve m ?alloc = (m1, c)" by fastforce
  have frame1: "descriptors m1 = descriptors m" "processes m1 = processes m" "sched m1 = sched m" "contexts m1 = contexts m"
      "clock m1 = clock m" "active m1 = active m" "pipe_reservations m1 = pipe_reservations m"
    by (subst meter_frame(1) [OF res], simp)+
  obtain a r where fork: "fork_table (fds p) (descriptors m) = (a, r)" by fastforce
  note forked = forked_table [OF fds_ok fork]
  obtain t' pid where spawn: "spawn_process ?table (active m) pl command (se_cwd p) ?env = (t', pid)" by fastforce
  note recs = spawn_records [OF table(1) spawn]
  have exits: "exits_only S (processes m) ?table" "exits_only S (processes m) t'"
    using exits_only_trans [OF exits_only_same recs(5)] by (simp_all add: exits_only_same)
  note unfold = create_child_def with_active_def Let_def p res fork spawn frame1
  consider "MAX_FORK_STATE_BYTES < fork_memory_bytes l p" | "\<not> MAX_FORK_STATE_BYTES < fork_memory_bytes l p" "\<not> c"
    | e where "\<not> MAX_FORK_STATE_BYTES < fork_memory_bytes l p" c "r = Err e"
    | t where "\<not> MAX_FORK_STATE_BYTES < fork_memory_bytes l p" c "r = Ok t" "pid = None"
    | t q where "\<not> MAX_FORK_STATE_BYTES < fork_memory_bytes l p" c "r = Ok t" "pid = Some q"
    using forked(1) by (cases r; cases pid; cases c) (fastforce+)
  then show ?thesis
  proof cases
    case 2
    have "kernel_ok X (b + ctx_bytes (contexts m)) m1"
      using reserve_refused [OF _ machine_okD(1) [OF ok]] res 2 by simp
    then have "machine_ok X b m1" by (rule machine_ok_same [OF ok]) (simp_all add: frame1)
    then show ?thesis using 2 run by (simp add: unfold running_def)
  next
    case 3
    have "machine_ok X b (release (m1\<lparr>descriptors := a\<rparr>) ?alloc)"
      by (rule reserve_release [OF _ ok]) (use ok res 3 frame1 forked(2) in \<open>auto simp: machine_ok_def processes_agree_def\<close>)
    then show ?thesis using 3 run by (simp add: unfold running_def release_def)
  next
    case 4
    have "machine_ok X b (release (m1\<lparr>descriptors := snd (close_all t a), processes := t'\<rparr>) ?alloc)"
      by (rule reserve_release [OF _ ok])
        (use ok res 4 frame1 forked(3) recs table(2) in \<open>auto simp: machine_ok_def processes_agree_def\<close>)
    then show ?thesis using 4 run exits by (simp add: unfold running_def release_def)
  next
    case 5
    then show ?thesis
      using forked_child_ok [OF ok run p(1) _ _ table, of ?alloc m1 a t "active m" pl command "se_cwd p" ?env t' q fg ns det S] res fork spawn
        exits_only_trans [OF exits(1)]
      by (auto simp: unfold)
  qed (use ok run in \<open>simp add: unfold\<close>)
qed

section \<open>Changes inside contexts\<close>

lemma om_weight_sum: "om_weight f m = (\<Sum>k | om_lookup m k \<noteq> None. f k (the (om_lookup m k)))"
proof -
  have "om_weight f m = (\<Sum>(k, v)\<in>set (om_entries m). f k v)"
    unfolding om_weight_def by (rule sum_list_distinct_conv_sum_set [OF om_distinct_entries])
  also have "\<dots> = (\<Sum>k | om_lookup m k \<noteq> None. f k (the (om_lookup m k)))"
    by (rule sum.reindex_bij_witness [of _ "\<lambda>k. (k, the (om_lookup m k))" fst]) (auto simp: om_in_entries)
  finally show ?thesis .
qed

lemma om_weight_alike:
  assumes "\<And>k. map_option (f k) (om_lookup m k) = map_option (g k) (om_lookup m' k)"
  shows "om_weight f m = om_weight g m'"
proof -
  have "om_lookup m k = None \<longleftrightarrow> om_lookup m' k = None" for k
    using assms [of k] by (cases "om_lookup m k"; cases "om_lookup m' k") simp_all
  moreover have "f k (the (om_lookup m k)) = g k (the (om_lookup m' k))" if "om_lookup m k \<noteq> None" for k
    using assms [of k] that by (cases "om_lookup m k"; cases "om_lookup m' k") simp_all
  ultimately show ?thesis by (auto simp: om_weight_sum intro!: sum.cong)
qed

text \<open>What the invariant looks at in a context.\<close>

definition alike :: "process_state \<Rightarrow> process_state \<Rightarrow> bool" where
  "alike p q \<longleftrightarrow> fds p = fds q \<and> se_pid p = se_pid q \<and> reserved_by p = reserved_by q"

lemma alike_updates [simp]:
  "alike p p" "alike p (p\<lparr>pending_signals := S\<rparr>)" "alike p (p\<lparr>handling_signal := h\<rparr>)" "alike p (p\<lparr>jobs := js\<rparr>)"
  "alike p (p\<lparr>deadline_interrupt := d\<rparr>)" "alike p (p\<lparr>next_job_id := n\<rparr>)"
  by (simp_all add: alike_def reserved_by_def)

lemma alike_trans: "alike p q \<Longrightarrow> alike q r \<Longrightarrow> alike p r"
  by (simp add: alike_def)

definition contexts_alike :: "(process_id, process_state) omap \<Rightarrow> (process_id, process_state) omap \<Rightarrow> bool" where
  "contexts_alike c d \<longleftrightarrow> (\<forall>t. rel_option alike (om_lookup c t) (om_lookup d t))"

lemma contexts_alike_insert:
  "om_lookup c t = Some p \<Longrightarrow> alike p q \<Longrightarrow> contexts_alike c (om_insert t q c)"
  by (auto simp: contexts_alike_def om_lookup_insert alike_def rel_option_iff split: option.splits)

lemma contexts_alike_map: "(\<And>p. alike p (f p)) \<Longrightarrow> contexts_alike c (om_map (\<lambda>_. f) c)"
  by (auto simp: contexts_alike_def rel_option_iff split: option.splits)

lemma contexts_alike_update: "(\<And>p. alike p (f p)) \<Longrightarrow> contexts_alike c (om_update t f c)"
  by (auto simp: contexts_alike_def om_lookup_update alike_def rel_option_iff split: option.splits)

lemma contexts_alikeD:
  assumes "contexts_alike c d"
  shows "om_lookup d t = None \<longleftrightarrow> om_lookup c t = None" "om_lookup d t = Some q \<Longrightarrow> \<exists>p. om_lookup c t = Some p \<and> alike p q"
    "ctx_refs d = ctx_refs c" "ctx_bytes d = ctx_bytes c"
proof -
  have rel: "rel_option alike (om_lookup c t) (om_lookup d t)" for t
    using assms by (simp add: contexts_alike_def)
  show "om_lookup d t = None \<longleftrightarrow> om_lookup c t = None" "om_lookup d t = Some q \<Longrightarrow> \<exists>p. om_lookup c t = Some p \<and> alike p q"
    using rel [of t] by (auto simp: rel_option_iff split: option.splits)
  have "map_option (\<lambda>p. om_count (entries (fds p)) i) (om_lookup d t) = map_option (\<lambda>p. om_count (entries (fds p)) i) (om_lookup c t)"
    "map_option reserved_by (om_lookup d t) = map_option reserved_by (om_lookup c t)" for t i
    using rel [of t] by (auto simp: rel_option_iff alike_def split: option.splits)
  then show "ctx_refs d = ctx_refs c" "ctx_bytes d = ctx_bytes c"
    by (auto simp: ctx_refs_def ctx_bytes_def fun_eq_iff intro!: om_weight_alike)
qed

lemma kernel_ok_contexts:
  assumes "kernel_ok X b m" "contexts_alike (contexts m) c"
  shows "kernel_ok X b (m\<lparr>contexts := c\<rparr>)"
  using assms(1) contexts_alikeD [OF assms(2)]
  by (auto simp: kernel_ok_def kernel_but_def tables_ok_def memory_ok_def reserved_pipes_open_def alike_def) metis

lemma machine_ok_contexts:
  assumes "machine_ok X b m" "contexts_alike (contexts m) c"
  shows "machine_ok X b (m\<lparr>contexts := c\<rparr>)"
  using assms(1) kernel_ok_contexts [OF machine_okD(1) [OF assms(1)] assms(2)] contexts_alikeD [OF assms(2)]
  by (auto simp: machine_ok_def processes_agree_def alike_def) metis

lemma machine_ok_sched:
  assumes "machine_ok X b m" "sched_inv s" "waits_but {} (descriptors m) s" "same_tasks (sched m) s"
  shows "machine_ok X b (m\<lparr>sched := s\<rparr>)"
  using assms kernel_ok_sched [OF machine_okD(1) [OF assms(1)] assms(2,3)]
  by (auto simp: machine_ok_def processes_agree_def same_tasks_def)

lemma machine_ok_fewer:
  assumes "machine_ok X b m" "sched_inv s" "fewer_waits s (sched m)" "same_tasks (sched m) s"
  shows "machine_ok X b (m\<lparr>sched := s\<rparr>)"
  using assms kernel_ok_waits(1) [OF machine_okD(1) [OF assms(1)]]
  by (intro machine_ok_sched) (auto intro: waits_but_fewer)

lemma machine_ok_fields [simp]:
  "machine_ok X b (m\<lparr>terminal := tt\<rparr>) = machine_ok X b m" "machine_ok X b (m\<lparr>vfs := v\<rparr>) = machine_ok X b m"
  "machine_ok X b (m\<lparr>active := q\<rparr>) = machine_ok X b m" "machine_ok X b (m\<lparr>pending_stdout := o1\<rparr>) = machine_ok X b m"
  "machine_ok X b (m\<lparr>pending_stderr := o1\<rparr>) = machine_ok X b m"
  by (simp_all add: machine_ok_def processes_agree_def kernel_ok_def kernel_but_def tables_ok_def memory_ok_def reserved_pipes_open_def)

lemma machine_ok_clock: "machine_ok X b m \<Longrightarrow> tl_inv c \<Longrightarrow> machine_ok X b (m\<lparr>clock := c\<rparr>)"
  by (simp add: machine_ok_def processes_agree_def)

section \<open>Signals\<close>

text \<open>A call that keeps the invariant and does not panic, and that leaves the processor to the process that has
  it, or takes it away.\<close>

definition keeps_machine :: "(description_id \<Rightarrow> nat) \<Rightarrow> nat \<Rightarrow> machine \<Rightarrow> 'a sys_result \<Rightarrow> bool" where
  "keeps_machine X b m r \<longleftrightarrow> snd r \<noteq> Panic \<and> machine_ok X b (fst r) \<and> active (fst r) = active m
     \<and> current (sched (fst r)) \<in> {None, current (sched m)} \<and> fewer_waits (sched (fst r)) (sched m)
     \<and> same_tasks (sched m) (sched (fst r)) \<and> same_exits (processes m) (processes (fst r))"

lemma keeps_machineI:
  "machine_ok X b m' \<Longrightarrow> active m' = active m \<Longrightarrow> sched m' = sched m \<Longrightarrow> same_exits (processes m) (processes m') \<Longrightarrow>
    r \<noteq> Panic \<Longrightarrow> keeps_machine X b m (m', r)"
  by (simp add: keeps_machine_def)

lemma keeps_machine_same: "machine_ok X b m \<Longrightarrow> keeps_machine X b m (m, Err e)" "machine_ok X b m \<Longrightarrow> keeps_machine X b m (m, Ok v)"
  by (simp_all add: keeps_machine_def)

lemma keeps_machine_from:
  "active m1 = active m \<Longrightarrow> sched m1 = sched m \<Longrightarrow> same_exits (processes m) (processes m1) \<Longrightarrow> keeps_machine X b m1 r \<Longrightarrow> keeps_machine X b m r"
  by (auto simp: keeps_machine_def intro: same_exits_trans)

lemma keeps_machine_and_then:
  assumes "keeps_machine X b m x" "\<And>m' v. x = (m', Ok v) \<Longrightarrow> machine_ok X b m' \<Longrightarrow> keeps_machine X b m' (k m' v)"
  shows "keeps_machine X b m (and_then x k)"
  using assms by (cases "(x, k)" rule: and_then.cases) (auto simp: keeps_machine_def intro: fewer_waits_trans same_tasks_trans same_exits_trans)

lemma on_task_ok:
  assumes ok: "machine_ok X b m"
  shows "keeps_machine X b m (on_task m msg (wake (sched m) pid))" "keeps_machine X b m (on_task m msg (stop_task (sched m) pid))"
    "keeps_machine X b m (on_task m msg (continue_task (sched m) pid))"
proof -
  note inv = machine_okD(7) [OF ok]
  have body: "keeps_machine X b m (on_task m msg (s, r))"
    if "sched_inv s" "same_tasks (sched m) s" "fewer_waits s (sched m)" "current s \<in> {None, current (sched m)}" "r \<noteq> Panic" for s r
    using that machine_ok_fewer [OF ok that(1,3,2)] by (auto simp: on_task_def keeps_machine_def split: outcome.splits)
  show "keeps_machine X b m (on_task m msg (wake (sched m) pid))"
    using wake_task [of "sched m" pid] wake_inv [OF inv, of pid] sched_run_no_panic [OF inv, of "Wake pid"]
    by (cases "wake (sched m) pid") (auto intro!: body)
  show "keeps_machine X b m (on_task m msg (stop_task (sched m) pid))"
    using stop_task_task [of "sched m" pid] stop_task_inv [OF inv, of pid] sched_run_no_panic [OF inv, of "StopTask pid"]
    by (cases "stop_task (sched m) pid") (auto intro!: body)
  show "keeps_machine X b m (on_task m msg (continue_task (sched m) pid))"
    using continue_task_task [of "sched m" pid] continue_task_inv [OF inv, of pid] sched_run_no_panic [OF inv, of "ContinueTask pid"]
    by (cases "continue_task (sched m) pid") (auto intro!: body)
qed

lemma in_sched_wake_ok:
  assumes ok: "machine_ok X b m"
  shows "keeps_machine X b m (in_sched m (wake_matching (sched m) P))"
proof -
  obtain s n where s: "wake_matching (sched m) P = (s, Ok n)" "same_tasks (sched m) s" "sched_inv s" "fewer_waits s (sched m)"
      "current s = current (sched m)"
    by (rule wake_matching_task [OF machine_okD(7) [OF ok]])
  then show ?thesis using machine_ok_fewer [OF ok s(3,4,2)] by (simp add: keeps_machine_def)
qed

lemma wake_parent_waits_ok: "machine_ok X b m \<Longrightarrow> keeps_machine X b m (wake_parent_waits m pid)"
  unfolding wake_parent_waits_def wake_defs
  by (rule keeps_machine_and_then) (auto intro: in_sched_wake_ok)

lemma machine_ok_record:
  assumes "machine_ok X b m" "\<And>r. pr_pid (f r) = pr_pid r \<and> pr_ppid (f r) = pr_ppid r \<and> pr_group (f r) = pr_group r
      \<and> pr_session (f r) = pr_session r"
  shows "machine_ok X b (m\<lparr>processes := (processes m)\<lparr>records := om_update pid f (records (processes m))\<rparr>\<rparr>)"
  using machine_okD(2) [OF assms(1)]
  by (intro machine_ok_table [OF assms(1)] pt_inv_update assms(2)) (auto simp: om_lookup_update)

lemma record_changes:
  assumes "machine_ok X b m"
  shows "machine_ok X b (m\<lparr>processes := stop_process (processes m) pid sig\<rparr>)"
    "machine_ok X b (m\<lparr>processes := continue_process (processes m) pid\<rparr>)"
    "machine_ok X b (m\<lparr>processes := exit_process (processes m) pid st cwd\<rparr>)"
    "machine_ok X b (m\<lparr>processes := update_descriptors (processes m) pid ds\<rparr>)"
    "machine_ok X b (m\<lparr>processes := mark_signal_termination (processes m) pid sig\<rparr>)"
  unfolding stop_process_def continue_process_def exit_process_def update_descriptors_def mark_signal_termination_def
  by (auto intro!: machine_ok_record [OF assms] split: process_status.split)

lemma update_jobs_ok: "machine_ok X b m \<Longrightarrow> machine_ok X b (update_jobs pid st m)"
  unfolding update_jobs_def
  by (intro machine_ok_contexts contexts_alike_map) (simp_all add: alike_def reserved_by_def)

lemma update_jobs_frame [simp]:
  "active (update_jobs pid st m) = active m" "sched (update_jobs pid st m) = sched m" "processes (update_jobs pid st m) = processes m"
  by (simp_all add: update_jobs_def)

lemma default_foreground_ok [simp]: "machine_ok X b (default_foreground m) = machine_ok X b m"
  "active (default_foreground m) = active m" "sched (default_foreground m) = sched m" "processes (default_foreground m) = processes m"
  by (simp_all add: default_foreground_def)

lemma stop_process_state_ok:
  assumes "machine_ok X b m"
  shows "keeps_machine X b m (stop_process_state m pid sig)"
  unfolding stop_process_state_def Let_def
proof (rule keeps_machine_and_then [OF on_task_ok(2) [OF assms]])
  fix m1 assume "machine_ok X b m1"
  then have "machine_ok X b (update_jobs pid (JobStopped sig) (m1\<lparr>processes := stop_process (processes m1) pid sig\<rparr>))"
    by (intro update_jobs_ok record_changes)
  then show "keeps_machine X b m1
      (and_then (wake_parent_waits (update_jobs pid (JobStopped sig) (m1\<lparr>processes := stop_process (processes m1) pid sig\<rparr>)) pid)
        (\<lambda>m _. (default_foreground m, Ok ())))"
    by (intro keeps_machine_and_then [OF keeps_machine_from [OF _ _ _ wake_parent_waits_ok]]) (auto intro: keeps_machineI)
qed

lemma wake_if_ok:
  assumes "machine_ok X b m1" "active m1 = active m" "sched m1 = sched m" "same_exits (processes m) (processes m1)"
  shows "keeps_machine X b m (if c then on_task m1 msg (wake (sched m1) pid) else (m1, Ok ()))"
  using keeps_machine_from [OF assms(2-4) on_task_ok(1) [OF assms(1)]] assms by (simp add: keeps_machineI)

lemma continue_process_state_ok:
  assumes "machine_ok X b m"
  shows "keeps_machine X b m (continue_process_state m pid)"
  unfolding continue_process_state_def Let_def
  by (rule keeps_machine_and_then [OF on_task_ok(3) [OF assms]], rule keeps_machine_and_then, rule wake_if_ok)
    (auto intro: keeps_machineI update_jobs_ok record_changes(2))

lemma post_signal_ok:
  assumes ok: "machine_ok X b m"
  shows "keeps_machine X b m (post_signal m pid sig)"
proof (cases "om_lookup (contexts m) pid")
  case (Some p)
  let ?m1 = "m\<lparr>contexts := om_insert pid (p\<lparr>pending_signals := insert sig (pending_signals p)\<rparr>) (contexts m)\<rparr>"
  have "machine_ok X b ?m1"
    by (intro machine_ok_contexts [OF ok] contexts_alike_insert [OF Some]) simp
  then have "keeps_machine X b m (if interrupts p sig \<and> is_blocked (task (sched ?m1) pid)
      then on_task ?m1 ''unable to wake process'' (wake (sched ?m1) pid) else (?m1, Ok ()))"
    by (rule wake_if_ok) simp_all
  then show ?thesis
    unfolding post_signal_def Let_def Some option.case .
qed (use ok in \<open>simp add: post_signal_def keeps_machine_same\<close>)

lemma send_signal_ok:
  assumes "machine_ok X b m"
  shows "keeps_machine X b m (send_signal m pid sig)"
proof -
  have "keeps_machine X b m (and_then (if c then continue_process_state m pid else (m, Ok ())) (\<lambda>m _. post_signal m pid sig))" for c
    using assms by (intro keeps_machine_and_then post_signal_ok) (auto intro: continue_process_state_ok keeps_machineI)
  then show ?thesis
    using assms continue_process_state_ok [OF assms] stop_process_state_ok [OF assms] 
    by (simp add: send_signal_def keeps_machine_same)
qed

lemma send_signals_ok: "machine_ok X b m \<Longrightarrow> keeps_machine X b m (send_signals m pids sig)"
  by (induction pids arbitrary: m) (auto intro!: keeps_machineI keeps_machine_and_then [OF send_signal_ok])

lemma ignore_result_ok: "keeps_machine X b m r \<Longrightarrow> keeps_machine X b m (ignore_result r)"
  by (cases r rule: ignore_result.cases) (auto simp: keeps_machine_def)

lemma signal_each_ok: "machine_ok X b m \<Longrightarrow> keeps_machine X b m (signal_each m pids sig)"
  by (induction pids arbitrary: m)
    (auto intro!: keeps_machineI keeps_machine_and_then [OF ignore_result_ok [OF send_signal_ok]])

lemma signal_calls_ok:
  assumes "machine_ok X b m"
  shows "keeps_machine X b m (send_signal_group m grp sig)" "keeps_machine X b m (send_terminal_signal m sig)"
    "keeps_machine X b m (set_terminal_foreground m grp)"
proof -
  show "keeps_machine X b m (send_signal_group m grp sig)" for grp
    using assms by (auto simp: send_signal_group_def Let_def intro: keeps_machineI send_signals_ok)
  then show "keeps_machine X b m (send_terminal_signal m sig)"
    by (simp add: send_terminal_signal_def)
  have "snd (set_foreground (terminal m) (processes m) grp) \<noteq> Panic"
    by (simp add: set_foreground_def Let_def)
  then show "keeps_machine X b m (set_terminal_foreground m grp)"
    using assms by (auto simp: set_terminal_foreground_def intro!: keeps_machineI split: prod.splits outcome.splits)
qed

text \<open>Calls on the active context, for a process that has the processor.\<close>

lemma set_active_ok:
  assumes "machine_ok X b m" "om_lookup (contexts m) (active m) = Some p" "alike p q"
  shows "machine_ok X b (set_active m q)"
  unfolding set_active_def by (intro machine_ok_contexts [OF assms(1)] contexts_alike_insert [OF assms(2,3)])

lemma set_active_frame [simp]:
  "active (set_active m p) = active m" "sched (set_active m p) = sched m" "clock (set_active m p) = clock m"
  "processes (set_active m p) = processes m" "resources (set_active m p) = resources m" "descriptors (set_active m p) = descriptors m"
  by (simp_all add: set_active_def)

lemma cancel_events_ok: "machine_ok X b m \<Longrightarrow> machine_ok X b (cancel_events m pid)"
  unfolding cancel_events_def by (intro machine_ok_clock cancel_task_events_inv machine_okD(6))

lemma cancel_events_frame [simp]:
  "active (cancel_events m pid) = active m" "sched (cancel_events m pid) = sched m" "processes (cancel_events m pid) = processes m"
  "contexts (cancel_events m pid) = contexts m" "descriptors (cancel_events m pid) = descriptors m"
  by (simp_all add: cancel_events_def)

lemma deliver_step:
  assumes "next_signal p = Some sig"
  shows "deliver p = (let p1 = p\<lparr>pending_signals := pending_signals p - {sig}\<rparr>
    in if sig = SigKill then (p1, Some (DeliverTerminate sig))
             else if sig = SigStop then (p1, Some (DeliverStop sig))
             else (case om_lookup (signal_dispositions p1) sig of
                 Some Ignore \<Rightarrow> deliver p1
               | Some (Handler source body) \<Rightarrow> (p1\<lparr>handling_signal := True\<rparr>, Some (DeliverHandler body))
               | None \<Rightarrow> if terminates sig then (p1, Some (DeliverTerminate sig)) else deliver p1))"
  by (subst deliver.simps) (simp only: assms option.case)


lemma deliver_cases:
  assumes "deliver p = (q, d)" "next_signal p = Some sig" "p1 = p\<lparr>pending_signals := pending_signals p - {sig}\<rparr>"
  shows "deliver p1 = (q, d) \<and> sig \<noteq> SigKill \<and> sig \<noteq> SigStop
      \<and> (om_lookup (signal_dispositions p1) sig = Some Ignore \<or> om_lookup (signal_dispositions p1) sig = None \<and> \<not> terminates sig)
    \<or> q = p1\<lparr>handling_signal := True\<rparr> \<or> q = p1"
proof -
  note run = assms(1) [unfolded deliver_step [OF assms(2)] Let_def, folded assms(3)]
  show ?thesis
  proof (cases "sig = SigKill \<or> sig = SigStop")
    case True
    then show ?thesis using run by (elim disjE) simp_all
  next
    case False
    then have run: "(case om_lookup (signal_dispositions p1) sig of
                 Some Ignore \<Rightarrow> deliver p1
               | Some (Handler source body) \<Rightarrow> (p1\<lparr>handling_signal := True\<rparr>, Some (DeliverHandler body))
               | None \<Rightarrow> if terminates sig then (p1, Some (DeliverTerminate sig)) else deliver p1) = (q, d)"
      using run by (simp only: de_Morgan_disj if_False if_True simp_thms)
    show ?thesis
    proof (cases "om_lookup (signal_dispositions p1) sig")
      case None
      then show ?thesis using run False by (cases "terminates sig") (simp_all only: option.case if_True if_False prod.inject simp_thms de_Morgan_disj)
    next
      case (Some d')
      then show ?thesis using run False by (cases d') (simp_all only: option.case disposition.case prod.inject simp_thms de_Morgan_disj)
    qed
  qed
qed
lemma deliver_alike: "deliver p = (q, d) \<Longrightarrow> alike p q"
proof (induction p arbitrary: q d rule: deliver.induct)
  case (1 p)
  show ?case
  proof (cases "next_signal p")
    case None
    have "deliver p = (p, None)" by (subst deliver.simps) (simp only: None option.case)
    then show ?thesis using "1.prems" by simp
  next
    case (Some sig)
    define p1 where "p1 = p\<lparr>pending_signals := pending_signals p - {sig}\<rparr>"
    have "alike p1 q"
      using deliver_cases [OF "1.prems" Some p1_def] "1.IH"(1) [OF Some p1_def, of q d] "1.IH"(2) [OF Some p1_def, of Ignore q d]
        alike_updates(1,3) [of p1]
      by blast
    moreover have "alike p p1" unfolding p1_def by (rule alike_updates)
    ultimately show ?thesis by (blast intro: alike_trans)
  qed
qed

lemma delivery_ok:
  assumes ok: "machine_ok X b m" and run: "running m"
  shows "keeps_machine X b m (take_signal_delivery m)" "keeps_machine X b m (take_default_termination m)"
    "keeps_machine X b m (finish_signal_handler m)"
proof -
  obtain p where p: "om_lookup (contexts m) (active m) = Some p" by (rule running_context [OF assms])
  obtain q d where q: "deliver p = (q, d)" by fastforce
  have "machine_ok X b (set_active m q)"
    by (rule set_active_ok [OF ok p deliver_alike [OF q]])
  then show "keeps_machine X b m (take_signal_delivery m)"
    using p q by (auto simp: take_signal_delivery_def with_active_def Let_def keeps_machine_def cancel_events_ok
        split: option.split signal_delivery.split)
  have "machine_ok X b (set_active m (p\<lparr>pending_signals := S\<rparr>))" for S
    by (rule set_active_ok [OF ok p]) (simp add: alike_def reserved_by_def)
  from record_changes(5) [OF cancel_events_ok [OF this]] show "keeps_machine X b m (take_default_termination m)"
    using p ok by (simp add: take_default_termination_def with_active_def Let_def keeps_machine_def split: option.split)
  have "machine_ok X b (set_active m (p\<lparr>handling_signal := False\<rparr>))"
    by (rule set_active_ok [OF ok p]) (simp add: alike_def reserved_by_def)
  then show "keeps_machine X b m (finish_signal_handler m)"
    using p by (simp add: finish_signal_handler_def with_active_def keeps_machine_def)
qed

end
