(* ===== verification/Lifecycle_End.thy ===== *)
theory Lifecycle_End
  imports Lifecycle_Inv
begin

text \<open>
  The end of a process keeps the invariant of the machine: its descriptors are closed and everybody who
  waits for one of its pipes is woken, its task has exited, its context is gone and its memory is back in the meter.
\<close>

section \<open>Output nobody has read\<close>

lemma drain_to_ok:
  assumes ok: "machine_ok X b m" and keep: "\<And>bs m. machine_ok X b m \<Longrightarrow> machine_ok X b (keep bs m)"
  shows "machine_ok X b (drain_to keep d m)"
proof (cases d)
  case (Some i)
  obtain a r where run: "drain_capture (descriptors m) i = (a, r)" by fastforce
  have "ref_count (fst (drain_capture (descriptors m) i)) = ref_count (descriptors m)"
    unfolding drain_capture_def
    by (intro try_entry_keeps; auto simp: ref_count_set_description slice_def split: open_description.splits)
  moreover have "sound (drain_capture (descriptors m) i)"
    using machine_okD(1) [OF ok] by (intro entry_ops_inv) (simp add: kernel_ok_def kernel_but_def tables_ok_def)
  ultimately have "kernel_ok X (b + ctx_bytes (contexts m)) (m\<lparr>descriptors := a\<rparr>)"
    using run entry_ops_pipes(3) [of "descriptors m" i] by (intro kernel_ok_arena [OF machine_okD(1) [OF ok]]) simp_all
  then have "machine_ok X b (m\<lparr>descriptors := a\<rparr>)"
    by (rule machine_ok_same [OF ok]) simp_all
  then show ?thesis using Some run keep by (cases r) (simp_all add: drain_to_def)
qed (use ok in \<open>simp add: drain_to_def\<close>)

definition output_moved :: "machine \<Rightarrow> machine \<Rightarrow> bool" where
  "output_moved m m' \<longleftrightarrow> contexts m' = contexts m \<and> active m' = active m \<and> sched m' = sched m \<and> processes m' = processes m"

lemma drain_to_frame:
  assumes "\<And>bs m. output_moved m (keep bs m)"
  shows "output_moved m (drain_to keep d m)"
proof -
  have "output_moved m (keep bs (m\<lparr>descriptors := a\<rparr>))" for bs a
    using assms [of "m\<lparr>descriptors := a\<rparr>" bs] by (simp add: output_moved_def)
  then show ?thesis
    by (auto simp: drain_to_def split: option.split prod.split outcome.split) (simp_all add: output_moved_def)
qed

lemma drain_detached_ok:
  assumes "machine_ok X b m"
  shows "machine_ok X b (drain_detached p m)" "output_moved m (drain_detached p m)"
proof -
  show "machine_ok X b (drain_detached p m)"
    using assms by (simp add: drain_detached_def Let_def drain_to_ok)
  have "output_moved m1 (drain_to (\<lambda>bs m. m\<lparr>pending_stdout := append_pending (pending_stdout m) bs\<rparr>) d m1)"
    "output_moved m1 (drain_to (\<lambda>bs m. m\<lparr>pending_stderr := append_pending (pending_stderr m) bs\<rparr>) d m1)" for m1 d
    by (intro drain_to_frame; simp add: output_moved_def)+
  then show "output_moved m (drain_detached p m)"
    unfolding drain_detached_def Let_def output_moved_def by auto
qed

section \<open>Closing all descriptors\<close>

lemma release_ep: "release_ref a i = (a', r) \<Longrightarrow> ep a' j = Some x \<Longrightarrow> ep a j = Some x"
  by (erule release_cases) (auto simp: ep_def set_entry_views om_lookup_remove bind_eq_Some_conv split: if_splits)

lemma newly_ready_trans:
  assumes "newly_ready a c w" "next_pipe a = next_pipe b"
  shows "newly_ready a b w \<or> newly_ready b c w"
  using assms by (auto simp: newly_ready_def)

text \<open>Closing a list of descriptors can only end the waits for their pipe ends.\<close>

lemma releases_next_pipe: "next_pipe (run_ops release_ref a ds) = next_pipe a"
proof (induction ds arbitrary: a)
  case (Cons i ds)
  then show ?case using release_pipe_flow(1) [of a i "fst (release_ref a i)" "snd (release_ref a i)"] by simp
qed simp

lemma releases_newly_ready:
  "newly_ready a (run_ops release_ref a ds) w \<Longrightarrow> \<exists>i\<in>set ds. \<exists>x. ep a i = Some x \<and> w = endpoint_reason x"
proof (induction ds arbitrary: a)
  case Nil
  then show ?case using newly_ready_same_pipes [of a a w] by simp
next
  case (Cons i ds)
  obtain a' r where run: "release_ref a i = (a', r)" by fastforce
  have same: "next_pipe a = next_pipe a'" by (rule release_pipe_flow(1) [OF run, symmetric])
  have "newly_ready a (run_ops release_ref a' ds) w" using Cons.prems run by simp
  from newly_ready_trans [OF this same] show ?case
  proof
    assume "newly_ready a a' w"
    from release_newly_ready [OF run this] show ?thesis by auto
  next
    assume "newly_ready a' (run_ops release_ref a' ds) w"
    from Cons.IH [OF this] show ?thesis using release_ep [OF run] by fastforce
  qed
qed

lemma set_pipe_ends: "set (pipe_ends a t) = {x. \<exists>i\<in>set (om_values (entries t)). ep a i = Some x}"
proof -
  have "(case pipe_endpoint a i of Ok e \<Rightarrow> e | _ \<Rightarrow> None) = ep a i" for i
  proof (cases "entry a i")
    case (Some e)
    then have "pipe_endpoint a i = Ok (ep a i)" by (simp add: pipe_endpoint_ep)
    then show ?thesis by simp
  qed (simp add: pipe_endpoint_def ep_def)
  then show ?thesis by (force simp: pipe_ends_def List.map_filter_def image_iff)
qed

text \<open>The lock waiters, while other waits are still to be ended.\<close>

lemma lock_flag_but:
  assumes "kernel_but W X b m"
  shows "kernel_but W X b (m\<lparr>descriptors := (descriptors m)\<lparr>file_locks_changed := c\<rparr>\<rparr>)"
proof -
  have "ref_count ((descriptors m)\<lparr>file_locks_changed := c\<rparr>) = ref_count (descriptors m)"
    by (rule ref_count_cong) simp
  then show ?thesis
    using assms by (simp add: kernel_but_def tables_ok_def arena_changed_inv memory_ok_def waits_but_def pipe_readable_def pipe_writable_def)
qed

lemma wake_lock_waiters_but:
  assumes "kernel_but W X b m"
  obtains m' where "wake_lock_waiters m = (m', Ok ())" "kernel_but W X b m'"
    "m' = m\<lparr>descriptors := (descriptors m)\<lparr>file_locks_changed := False\<rparr>, sched := sched m'\<rparr>"
    "same_tasks (sched m) (sched m')" "fewer_waits (sched m') (sched m)" "current (sched m') = current (sched m)"
proof -
  let ?m = "m\<lparr>descriptors := (descriptors m)\<lparr>file_locks_changed := False\<rparr>\<rparr>"
  have "kernel_but W X b ?m" using assms by (simp add: lock_flag_but)
  then obtain m' where m': "in_sched ?m (wake_matching (sched ?m) contains_lock) = (m', Ok ())"
      "kernel_but W X b m'" "m' = ?m\<lparr>sched := sched m'\<rparr>" "current (sched m') = current (sched ?m)"
    by (rule wake_keeps [where P = contains_lock])
  have "same_tasks (sched m) (sched m') \<and> fewer_waits (sched m') (sched m)"
    by (rule wake_matching_task [OF kernel_butD(2) [OF assms], of contains_lock]) (use m'(1) in auto)
  show thesis
  proof (cases "file_locks_changed (descriptors m)")
    case True
    then show thesis
      using m' \<open>same_tasks _ _ \<and> _\<close> by (intro that [of m'])
        (simp_all add: wake_lock_waiters_def take_file_lock_changes_def wake_file_lock_waiters_def)
  next
    case False
    then show thesis
      using assms by (intro that [of ?m]) (simp_all add: wake_lock_waiters_def take_file_lock_changes_def lock_flag_but)
  qed
qed

lemma sched_only_trans:
  assumes "m2 = m1\<lparr>sched := s2\<rparr>" "m1 = m\<lparr>sched := s1\<rparr>"
  shows "m2 = m\<lparr>sched := s2\<rparr>"
  unfolding assms by simp

lemma wake_ends_of_ok:
  assumes "kernel_but (endpoint_reason ` set es) X b m"
  obtains m' where "wake_ends_of m es = (m', Ok ())" "kernel_but {} X b m'" "m' = m\<lparr>sched := sched m'\<rparr>"
    "same_tasks (sched m) (sched m')" "current (sched m') = current (sched m)"
  using assms
proof (induction es arbitrary: m thesis)
  case Nil
  then show ?case by simp
next
  case (Cons e es)
  let ?P = "\<lambda>r. accepts r (endpoint_reason e)"
  obtain m1 where m1: "in_sched m (wake_matching (sched m) ?P) = (m1, Ok ())"
      "kernel_but (endpoint_reason ` set es) X b m1" "m1 = m\<lparr>sched := sched m1\<rparr>" "current (sched m1) = current (sched m)"
    using Cons.prems(2) by (rule wake_ends [where W' = "endpoint_reason ` set es" and P = ?P]) auto
  have "same_tasks (sched m) (sched m1)"
    by (rule wake_matching_task [OF kernel_butD(2) [OF Cons.prems(2)], of ?P]) (use m1(1) in auto)
  moreover obtain m2 where "wake_ends_of m1 es = (m2, Ok ())" "kernel_but {} X b m2" "m2 = m1\<lparr>sched := sched m2\<rparr>"
      "same_tasks (sched m1) (sched m2)" "current (sched m2) = current (sched m1)"
    by (rule Cons.IH [OF _ m1(2)])
  moreover from this(3) m1(3) have "m2 = m\<lparr>sched := sched m2\<rparr>" by (rule sched_only_trans)
  ultimately show ?case
    using m1(1,4) same_tasks_trans by (intro Cons.prems(1) [of m2]) (auto simp: wake_waiters_matching)
qed

text \<open>All descriptors of the active process are closed, with the wake-ups.\<close>

lemma release_closed_frame:
  "sched (release_closed_pipe_memory m) = sched m" "processes (release_closed_pipe_memory m) = processes m"
  "clock (release_closed_pipe_memory m) = clock m"
proof -
  have clk: "clock (release_reservation q m) = clock m" for q m
    by (simp add: release_reservation_def split: option.splits)
  have "sched (fold release_reservation qs m) = sched m \<and> processes (fold release_reservation qs m) = processes m
      \<and> clock (fold release_reservation qs m) = clock m" for qs
    by (induction qs arbitrary: m) (simp_all add: clk)
  then show "sched (release_closed_pipe_memory m) = sched m" "processes (release_closed_pipe_memory m) = processes m"
    "clock (release_closed_pipe_memory m) = clock m"
    by (simp_all add: release_closed_pipe_memory_def)
qed

lemma machine_ok_replaced:
  assumes ok: "machine_ok X b m" and p: "om_lookup (contexts m) t = Some p"
    and k: "kernel_ok X (b + ctx_bytes (contexts m')) m'" and s: "same_tasks (sched m) (sched m')"
    and c: "contexts m' = om_insert t q (contexts m)" "se_pid q = t" and f: "processes m' = processes m" "clock m' = clock m"
  shows "machine_ok X b m'"
proof -
  have "processes_agree m'"
    unfolding processes_agree_def
  proof (intro conjI allI impI)
    show "pt_inv (processes m')" using machine_okD(2) [OF ok] by (simp add: f)
    show "proc (processes m') u \<noteq> None" if "task (sched m') u \<noteq> None" for u
      using that s machine_okD(3) [OF ok, of u] by (metis f(1) same_tasks_def)
    show "(om_lookup (contexts m') u \<noteq> None) = live_task (task (sched m') u)" for u
      using s machine_okD(4) [OF ok, of u] machine_okD(4) [OF ok, of t] p by (auto simp: same_tasks_def c om_lookup_insert)
    show "se_pid p' = u" if "om_lookup (contexts m') u = Some p'" for u p'
      using that c(2) machine_okD(5) [OF ok, of u p'] by (auto simp: c(1) om_lookup_insert split: if_splits)
  qed
  then show ?thesis using k machine_okD(6) [OF ok] by (simp add: machine_ok_def f)
qed

lemma close_descriptors_ok:
  assumes ok: "machine_ok X b m" and p: "om_lookup (contexts m) (active m) = Some p"
  obtains m' where "close_descriptors m p = (m', Ok ())" "machine_ok X b m'" "active m' = active m"
    "current (sched m') = current (sched m)" "processes m' = processes m"
    "contexts m' = om_insert (active m) (p\<lparr>fds := new_fd_table\<rparr>) (contexts m)"
proof -
  let ?B = "b + ctx_bytes (contexts m)" and ?ends = "pipe_ends (descriptors m) (fds p)"
  obtain t a where t: "close_all (fds p) (descriptors m) = (t, a)" by fastforce
  then have new: "t = new_fd_table" and a: "a = run_ops release_ref (descriptors m) (om_values (entries (fds p)))"
    by (auto simp: close_all_def new_fd_table_def)
  let ?m1 = "(set_active m (p\<lparr>fds := t\<rparr>))\<lparr>descriptors := a\<rparr>"
  have "table_ok (other_refs X m) (fds p, descriptors m)"
    using tables_okD p machine_okD(1) [OF ok] by (simp add: kernel_ok_def kernel_but_def)
  from close_all_ok [OF this] have tab: "table_ok (other_refs X m) (t, a)" by (simp add: t)
  have "w \<in> endpoint_reason ` set ?ends" if "newly_ready (descriptors m) a w" for w
    using releases_newly_ready [OF that [unfolded a]] by (auto simp: set_pipe_ends)
  then have "kernel_but (endpoint_reason ` set ?ends) X ?B (fst (in_table m p ((t, a), Ok ())))"
    by (intro in_table_but [OF machine_okD(1) [OF ok] tab]) (simp_all add: a releases_next_pipe)
  then have "kernel_but (endpoint_reason ` set ?ends) X ?B ?m1" by (simp add: in_table_def)
  then obtain m2 where m2: "wake_lock_waiters ?m1 = (m2, Ok ())" "kernel_but (endpoint_reason ` set ?ends) X ?B m2"
      "m2 = ?m1\<lparr>descriptors := (descriptors ?m1)\<lparr>file_locks_changed := False\<rparr>, sched := sched m2\<rparr>"
      "same_tasks (sched ?m1) (sched m2)" "fewer_waits (sched m2) (sched ?m1)" "current (sched m2) = current (sched ?m1)"
    by (rule wake_lock_waiters_but)
  let ?m3 = "(release_closed_pipe_memory m2)\<lparr>vfs := retain_orphans (vfs (release_closed_pipe_memory m2))
      (live_orphans (descriptors (release_closed_pipe_memory m2)))\<rparr>"
  note closed = release_closed_ok [OF m2(2)]
  have "kernel_but (endpoint_reason ` set ?ends) X ?B ?m3" using closed(1) by simp
  then obtain m4 where m4: "wake_ends_of ?m3 ?ends = (m4, Ok ())" "kernel_but {} X ?B m4" "m4 = ?m3\<lparr>sched := sched m4\<rparr>"
      "same_tasks (sched ?m3) (sched m4)" "current (sched m4) = current (sched ?m3)"
    by (rule wake_ends_of_ok)
  have run: "close_descriptors m p = (m4, Ok ())"
    using m2(1) m4(1) by (simp add: close_descriptors_def t Let_def)
  have k4: "kernel_ok X ?B m4"
    using m4(2) closed(2) by (subst (asm) m4(3), subst m4(3)) (simp add: kernel_ok_def reserved_pipes_open_def)
  have f2: "contexts m2 = om_insert (active m) (p\<lparr>fds := t\<rparr>) (contexts m)" "active m2 = active m" "processes m2 = processes m"
      "clock m2 = clock m"
    by (subst m2(3), simp add: set_active_def)+
  have f4: "contexts m4 = om_insert (active m) (p\<lparr>fds := t\<rparr>) (contexts m)" "active m4 = active m" "processes m4 = processes m"
      "clock m4 = clock m"
    by (subst m4(3), simp add: f2 closed release_closed_frame)+
  have "same_tasks (sched m) (sched m4)"
    using m2(4) m4(4) by (auto simp: release_closed_frame intro: same_tasks_trans)
  moreover have "ctx_bytes (contexts m4) = ctx_bytes (contexts m)"
    using ctx_bytes_remove [OF p] by (simp add: f4 ctx_bytes_insert reserved_by_def)
  ultimately have "machine_ok X b m4"
    using k4 machine_okD(5) [OF ok p] by (intro machine_ok_replaced [OF ok p, of m4 "p\<lparr>fds := t\<rparr>"]) (simp_all add: f4)
  then show thesis
    using that [of m4] run f4 m2(6) m4(5) by (simp add: release_closed_frame new)
qed

section \<open>Leaving the processor\<close>

definition one_less :: "process_id \<Rightarrow> scheduler \<Rightarrow> scheduler \<Rightarrow> bool" where
  "one_less pid s s' \<longleftrightarrow> (\<forall>t. (task s' t = None) = (task s t = None) \<and> live_task (task s' t) = (t \<noteq> pid \<and> live_task (task s t)))"

lemma one_less_same: "one_less pid s s1 \<Longrightarrow> same_tasks s1 s2 \<Longrightarrow> one_less pid s s2"
  by (simp add: one_less_def same_tasks_def)

lemma exit_current_task:
  assumes "sched_inv s" "current s = Some pid"
  shows "one_less pid s (fst (exit_current s st))" "fewer_waits (fst (exit_current s st)) s"
    "current (fst (exit_current s st)) = None" "task (fst (exit_current s st)) pid = Some (Exited st)"
proof -
  have "task s pid = Some Running" using assms sched_invD(5) by blast
  then show "one_less pid s (fst (exit_current s st))" "fewer_waits (fst (exit_current s st)) s"
    "current (fst (exit_current s st)) = None" "task (fst (exit_current s st)) pid = Some (Exited st)"
    using assms(2) by (auto simp: exit_current_def one_less_def fewer_waits_def om_lookup_insert blocked_reason_def)
qed

lemma same_tasks_exited:
  assumes "wake_matching s P = (s', r)" "sched_inv s" "task s pid = Some (Exited st)"
  shows "task s' pid = Some (Exited st)"
proof -
  have "pid \<notin> set (waiters s P)" using assms(3) set_waiters [OF assms(2), of pid P] by (auto simp: blocked_reason_cases)
  then show ?thesis using wake_matching_spec [OF assms(2), of P] assms(1,3) by auto
qed

lemma dispatch_exited:
  assumes "dispatch s = (s', r)" "sched_inv s" "task s pid = Some (Exited st)"
  shows "task s' pid = Some (Exited st)"
  using assms sched_invD(3) [OF assms(2)]
  by (auto simp: dispatch_def Let_def om_lookup_insert split: if_splits list.splits option.splits)

lemma dispatch_free:
  assumes "sched_inv s" "current s = None"
  obtains s' q where "dispatch s = (s', Ok q)" "current s' = q"
proof (cases "runnable s")
  case Nil
  then show thesis using assms(2) that [of s None] by (simp add: dispatch_def)
next
  case (Cons p ps)
  from dispatch_Ok [OF assms this] show thesis by (rule that) simp
qed

text \<open>The task has exited, nobody waits for it any more, and the processor is with another task or free.\<close>

lemma exit_task_ok:
  assumes inv: "sched_inv (sched m)" "current (sched m) = Some pid"
  obtains m' q where "exit_task m pid st = (m', Ok q)" "m' = m\<lparr>sched := sched m'\<rparr>" "sched_inv (sched m')"
    "fewer_waits (sched m') (sched m)" "one_less pid (sched m) (sched m')" "current (sched m') = q"
    "task (sched m') pid = Some (Exited st)"
    "\<And>t r. blocked_reason (task (sched m') t) = Some r \<Longrightarrow> \<not> waits_for_child r pid \<and> \<not> waits_for_child_activity r pid"
proof -
  let ?s1 = "fst (exit_current (sched m) st)"
  note s1 = exit_current_task [OF inv, of st]
  have inv1: "sched_inv ?s1" by (rule exit_current_inv [OF inv(1)])
  obtain s2 n2 where s2: "wake_matching ?s1 (\<lambda>r. waits_for_child r pid) = (s2, Ok n2)" "same_tasks ?s1 s2" "sched_inv s2"
      "fewer_waits s2 ?s1" "current s2 = current ?s1" "\<forall>t r. blocked_reason (task s2 t) = Some r \<longrightarrow> \<not> waits_for_child r pid"
    by (rule wake_matching_task [OF inv1])
  obtain s3 n3 where s3: "wake_matching s2 (\<lambda>r. waits_for_child_activity r pid) = (s3, Ok n3)" "same_tasks s2 s3" "sched_inv s3"
      "fewer_waits s3 s2" "current s3 = current s2" "\<forall>t r. blocked_reason (task s3 t) = Some r \<longrightarrow> \<not> waits_for_child_activity r pid"
    by (rule wake_matching_task [OF s2(3)])
  have "current s3 = None" using s3(5) s2(5) s1(3) by simp
  then obtain s4 q where s4: "dispatch s3 = (s4, Ok q)" "current s4 = q" by (rule dispatch_free [OF s3(3)])
  note d = dispatch_task [OF s3(3) s4(1)]
  have run: "exit_task m pid st = (m\<lparr>sched := s4\<rparr>, Ok q)"
    using s2(1) s3(1) s4(1) by (simp add: exit_task_def wake_parent_waits_def wake_defs)
  have few: "fewer_waits s4 s3" "fewer_waits s4 s2" "fewer_waits s4 (sched m)"
    using d(2) s3(4) s2(4) s1(2) by (blast intro: fewer_waits_trans)+
  show thesis
  proof (rule that [of "m\<lparr>sched := s4\<rparr>" q])
    show "one_less pid (sched m) (sched (m\<lparr>sched := s4\<rparr>))"
      using one_less_same [OF one_less_same [OF one_less_same [OF s1(1) s2(2)] s3(2)] d(1)] by simp
    show "task (sched (m\<lparr>sched := s4\<rparr>)) pid = Some (Exited st)"
      using dispatch_exited [OF s4(1) s3(3) same_tasks_exited [OF s3(1) s2(3) same_tasks_exited [OF s2(1) inv1 s1(4)]]] by simp
    show "\<not> waits_for_child r pid \<and> \<not> waits_for_child_activity r pid"
      if "blocked_reason (task (sched (m\<lparr>sched := s4\<rparr>)) t) = Some r" for t r
      using that few(1,2) s2(6) s3(6) by (simp add: fewer_waits_def) blast
  qed (use run d(3) few s4(2) in simp_all)
qed

section \<open>The end of a process\<close>

lemma context_removed:
  assumes "kernel_ok X b m" "om_lookup (contexts m) t = Some p" "fds p = new_fd_table"
  shows "kernel_ok X b (m\<lparr>contexts := om_remove t (contexts m)\<rparr>)"
proof -
  have "ctx_refs (om_remove t (contexts m)) = ctx_refs (contexts m)"
    using ctx_refs_remove [OF assms(2)] assms(3) by (auto simp: fun_eq_iff new_fd_table_def)
  then show ?thesis
    using assms(1)
    by (simp add: kernel_ok_def kernel_but_def tables_ok_def memory_ok_def reserved_pipes_open_def om_lookup_remove)
qed

lemma note_exit_alike: "alike p (note_exit pid st d p)"
  by (simp add: note_exit_def Let_def alike_def reserved_by_def)

text \<open>The context and the task leave together; the memory of the context is still to be released.\<close>

lemma process_leaves:
  assumes ok: "machine_ok X b m" and p: "om_lookup (contexts m) pid = Some p" "fds p = new_fd_table"
    and s: "sched_inv s" "fewer_waits s (sched m)" "one_less pid (sched m) s"
  shows "machine_ok X (b + reserved_by p)
    (m\<lparr>sched := s, contexts := om_update parent (note_exit pid st d) (om_remove pid (contexts m))\<rparr>)" (is "machine_ok _ _ ?m")
proof -
  let ?c = "om_remove pid (contexts m)"
  have alike: "contexts_alike ?c (om_update parent (note_exit pid st d) ?c)"
    by (rule contexts_alike_update) (rule note_exit_alike)
  have "kernel_ok X (b + ctx_bytes (contexts m)) (m\<lparr>sched := s\<rparr>)"
    by (rule kernel_ok_fewer [OF machine_okD(1) [OF ok] s(1,2)])
  then have "kernel_ok X (b + ctx_bytes (contexts m)) (m\<lparr>sched := s, contexts := ?c\<rparr>)"
    using context_removed [of X _ "m\<lparr>sched := s\<rparr>"] p by simp
  then have "kernel_ok X (b + ctx_bytes (contexts m)) ?m"
    using kernel_ok_contexts alike by fastforce
  then have "kernel_ok X (b + reserved_by p + ctx_bytes (contexts ?m)) ?m"
    using ctx_bytes_remove [OF p(1)] contexts_alikeD(4) [OF alike] by (simp add: ac_simps)
  moreover have "processes_agree ?m"
    unfolding processes_agree_def
  proof (intro conjI allI impI)
    show "pt_inv (processes ?m)" using machine_okD(2) [OF ok] by simp
    show "proc (processes ?m) t \<noteq> None" if "task (sched ?m) t \<noteq> None" for t
      using that s(3) machine_okD(3) [OF ok, of t] by (simp add: one_less_def del: not_None_eq)
    show "(om_lookup (contexts ?m) t \<noteq> None) = live_task (task (sched ?m) t)" for t
      using s(3) machine_okD(4) [OF ok, of t] contexts_alikeD(1) [OF alike, of t]
      by (simp add: one_less_def om_lookup_remove del: not_None_eq)
    show "se_pid q = t" if "om_lookup (contexts ?m) t = Some q" for t q
      using that contexts_alikeD(2) [OF alike, of t q] machine_okD(5) [OF ok, of t]
      by (auto simp: om_lookup_remove alike_def split: if_splits)
  qed
  ultimately show ?thesis using machine_okD(6) [OF ok] by (simp add: machine_ok_def)
qed

lemma context_bytes_exact:
  assumes "machine_ok X (b + reserved_by p) m"
  shows "unat (context_bytes p) = reserved_by p"
proof -
  have "reserved_by p \<le> unat (memory_current (resources m))"
    using machine_okD(1) [OF assms] by (simp add: kernel_ok_def kernel_but_def memory_ok_def)
  then have "reserved_by p < 2 ^ 64" by (simp add: le_u64D)
  then show ?thesis by (simp add: context_bytes_def reserved_by_def rust_arith)
qed

lemma machine_ok_release: "machine_ok X (b + unat n) m \<Longrightarrow> machine_ok X b (release m n)"
proof -
  assume ok: "machine_ok X (b + unat n) m"
  then have "kernel_ok X (b + ctx_bytes (contexts m) + unat n) m" by (simp add: machine_ok_def ac_simps)
  then have k: "kernel_ok X (b + ctx_bytes (contexts m)) (release m n)" by (rule release_ok)
  have "processes (release m n) = processes m" "sched (release m n) = sched m" "contexts (release m n) = contexts m"
      "clock (release m n) = clock m"
    by (subst meter_frame(2), simp)+
  then show ?thesis using ok k by (simp add: machine_ok_def processes_agree_def)
qed

lemma reap_both_ok:
  assumes ok: "machine_ok X b m" and gone: "task (sched m) pid = Some (Exited st)"
  shows "machine_ok X b (m\<lparr>processes := fst (reap_process (processes m) pid), sched := fst (reap_task (sched m) pid)\<rparr>)"
proof -
  let ?s = "fst (reap_task (sched m) pid)" and ?t = "fst (reap_process (processes m) pid)"
  have s: "?s = (sched m)\<lparr>states := om_remove pid (states (sched m))\<rparr>" using gone by (simp add: reap_task_def)
  have "kernel_ok X (b + ctx_bytes (contexts m)) (m\<lparr>sched := ?s\<rparr>)"
    by (rule kernel_ok_fewer [OF machine_okD(1) [OF ok] reap_task_inv [OF machine_okD(7) [OF ok]]])
      (simp add: s fewer_waits_def om_lookup_remove blocked_reason_def)
  moreover have "m\<lparr>processes := ?t, sched := ?s\<rparr> = (m\<lparr>sched := ?s\<rparr>)\<lparr>processes := ?t\<rparr>" by simp
  ultimately have k: "kernel_ok X (b + ctx_bytes (contexts m)) (m\<lparr>processes := ?t, sched := ?s\<rparr>)"
    by (simp only: kernel_ok_frame)
  have "proc ?t q \<noteq> None" if "q \<noteq> pid" "proc (processes m) q \<noteq> None" for q
    using that by (auto simp: reap_process_def om_lookup_remove split: option.splits if_splits)
  then have "processes_agree (m\<lparr>processes := ?t, sched := ?s\<rparr>)"
    using reap_process_inv [OF machine_okD(2) [OF ok], of pid] machine_okD(3,4,5) [OF ok] gone
    by (auto simp: processes_agree_def s om_lookup_remove)
  then show ?thesis using k machine_okD(6) [OF ok] by (simp add: machine_ok_def)
qed

text \<open>The steps of \<open>finish_child\<close> after its descriptors are closed.\<close>

lemma leave_ok:
  assumes ok: "machine_ok X b m" and cur: "current (sched m) = Some pid"
    and p: "om_lookup (contexts m) pid = Some p" "fds p = new_fd_table"
  obtains m' q where "exit_task m pid st = (m', Ok q)" "current (sched m') = q" "task (sched m') pid = Some (Exited st)"
    "processes m' = processes m" "one_less pid (sched m) (sched m')" "machine_ok X (b + reserved_by p) (m'\<lparr>contexts := om_update parent (note_exit pid st d) (om_remove pid (contexts m'))\<rparr>)"
    "\<And>t r. blocked_reason (task (sched m') t) = Some r \<Longrightarrow> \<not> waits_for_child r pid \<and> \<not> waits_for_child_activity r pid"
proof -
  obtain m' q where m': "exit_task m pid st = (m', Ok q)" "m' = m\<lparr>sched := sched m'\<rparr>" "sched_inv (sched m')"
      "fewer_waits (sched m') (sched m)" "one_less pid (sched m) (sched m')" "current (sched m') = q"
      "task (sched m') pid = Some (Exited st)"
      "\<And>t r. blocked_reason (task (sched m') t) = Some r \<Longrightarrow> \<not> waits_for_child r pid \<and> \<not> waits_for_child_activity r pid"
    by (rule exit_task_ok [OF machine_okD(7) [OF ok] cur, of st]) blast
  obtain s where s: "m' = m\<lparr>sched := s\<rparr>" using m'(2) by blast
  show thesis
    using that m'(1,5-) process_leaves [OF ok p m'(3-5)] by (simp add: s)
qed

lemma activated_ok:
  assumes ok: "machine_ok X b m" and q: "current (sched m) = q"
  obtains m' where "(case q of None \<Rightarrow> (m, Ok ()) | Some t \<Rightarrow> if om_contains (contexts m) t then (m\<lparr>active := t\<rparr>, Ok ()) else (m, Panic))
      = ((m', Ok ()) :: unit sys_result)" "machine_ok X b m'" "sched m' = sched m" "at_rest m'" "processes m' = processes m"
proof (cases q)
  case None
  then show thesis using that [of m] ok q by (simp add: at_rest_def)
next
  case (Some t)
  have "task (sched m) t = Some Running" using machine_okD(7) [OF ok] q Some sched_invD(5) by blast
  then have "om_lookup (contexts m) t \<noteq> None" using machine_okD(4) [OF ok, of t] by simp
  then show thesis using that [of "m\<lparr>active := t\<rparr>"] ok q Some by (simp add: at_rest_def running_def)
qed

lemma parent_told_ok:
  assumes ok: "machine_ok X b m" "at_rest m" and gone: "task (sched m) pid = Some (Exited st)"
  obtains m' where "(if retained then ignore_result (send_signal m parent SigChild)
        else (m\<lparr>processes := fst (reap_process (processes m) pid), sched := fst (reap_task (sched m) pid)\<rparr>, Ok ())) = (m', Ok ())"
    "machine_ok X b m'" "fewer_waits (sched m') (sched m)" "\<not> live_task (task (sched m') pid)" "at_rest m'"
    "exits_only S (processes m) (processes m')" "\<And>t. live_task (task (sched m') t) \<Longrightarrow> live_task (task (sched m) t)"
proof (cases retained)
  case True
  obtain m' r where r: "ignore_result (send_signal m parent SigChild) = (m', r)" by fastforce
  then have "r \<noteq> Err e" for e by (cases "send_signal m parent SigChild" rule: ignore_result.cases) auto
  moreover have "keeps_machine X b m (m', r)"
    using ignore_result_ok [OF send_signal_ok [OF ok(1)]] r by metis
  ultimately show thesis
    using that [of m'] True r ok(2) gone by (cases r) (auto simp: keeps_machine_def at_rest_def running_def same_tasks_def exits_only_same)
next
  case False
  have s: "fst (reap_task (sched m) pid) = (sched m)\<lparr>states := om_remove pid (states (sched m))\<rparr>"
    using gone by (simp add: reap_task_def)
  show thesis
  proof (rule that [OF _ reap_both_ok [OF ok(1) gone]])
    show "live_task (task (sched m) t)"
      if "live_task (task (sched (m\<lparr>processes := fst (reap_process (processes m) pid), sched := fst (reap_task (sched m) pid)\<rparr>)) t)" for t
      using that by (simp add: s om_lookup_remove split: if_splits)
  qed (use False ok(2) in \<open>simp_all add: s fewer_waits_def om_lookup_remove at_rest_def running_def blocked_reason_def\<close>)
qed

text \<open>The end of the process that runs: the call returns, everything it held is given back, its context is gone, and
  nobody is left waiting for it.\<close>

lemma finish_child_ok:
  assumes ok: "machine_ok X b m" and run: "running m"
  obtains m' where "finish_child m (active m) st = (m', Ok ())" "machine_ok X b m'" "at_rest m'"
    "exits_only {active m} (processes m) (processes m')"
    "\<And>t. live_task (task (sched m') t) \<Longrightarrow> t \<noteq> active m \<and> live_task (task (sched m) t)" "om_lookup (contexts m') (active m) = None"
    "\<And>t r. blocked_reason (task (sched m') t) = Some r \<Longrightarrow> \<not> waits_for_child r (active m) \<and> \<not> waits_for_child_activity r (active m)"
proof -
  let ?pid = "active m"
  obtain p where p: "om_lookup (contexts m) ?pid = Some p" by (rule running_context [OF ok run])
  note drained = drain_detached_ok [OF ok, of p]
  then have p0: "om_lookup (contexts (drain_detached p m)) (active (drain_detached p m)) = Some p"
      "active (drain_detached p m) = ?pid" "current (sched (drain_detached p m)) = Some ?pid"
      "processes (drain_detached p m) = processes m"
    using p run by (simp_all add: output_moved_def running_def)
  obtain m1 where m1: "close_descriptors (drain_detached p m) p = (m1, Ok ())" "machine_ok X b m1"
      "current (sched m1) = Some ?pid" "processes m1 = processes m" "om_lookup (contexts m1) ?pid = Some (p\<lparr>fds := new_fd_table\<rparr>)"
      "contexts m1 = om_insert ?pid (p\<lparr>fds := new_fd_table\<rparr>) (contexts m)"
    by (rule close_descriptors_ok [OF drained(1) p0(1)]) (use drained(2) in \<open>simp add: p0 output_moved_def\<close>)
  define m2 where "m2 = cancel_events (default_foreground (m1\<lparr>processes :=
    exit_process (update_descriptors (processes m1) ?pid om_empty) ?pid st (se_cwd p)\<rparr>)) ?pid"
  have ok2: "machine_ok X b m2"
    unfolding m2_def using record_changes(3) [OF record_changes(4) [OF m1(2)]] by (intro cancel_events_ok) simp
  have cur2: "current (sched m2) = Some ?pid" and p2: "om_lookup (contexts m2) ?pid = Some (p\<lparr>fds := new_fd_table\<rparr>)"
    using m1(3,5) by (simp_all add: m2_def default_foreground_def)
  have ex2: "exits_only {?pid} (processes m) (processes m2)"
    using exits_only_trans [OF exits_only_same exits_only_exit] m1(4) by (simp add: m2_def)
  obtain m3 q where m3: "exit_task m2 ?pid st = (m3, Ok q)" "current (sched m3) = q" "task (sched m3) ?pid = Some (Exited st)"
      "processes m3 = processes m2" "one_less ?pid (sched m2) (sched m3)" "machine_ok X (b + reserved_by p) (m3\<lparr>contexts := om_update (ppid p) (note_exit ?pid st (deadline_interrupt p)) (om_remove ?pid (contexts m3))\<rparr>)"
      "\<And>t r. blocked_reason (task (sched m3) t) = Some r \<Longrightarrow> \<not> waits_for_child r ?pid \<and> \<not> waits_for_child_activity r ?pid"
    by (rule leave_ok [OF ok2 cur2 p2, where parent = "ppid p" and st = st and d = "deadline_interrupt p"]) (simp_all add: reserved_by_def)
  define m4 where "m4 = m3\<lparr>contexts := om_update (ppid p) (note_exit ?pid st (deadline_interrupt p)) (om_remove ?pid (contexts m3))\<rparr>"
  have s4: "sched m4 = sched m3" "processes m4 = processes m2" using m3(4) by (simp_all add: m4_def)
  obtain m5 where m5: "(case q of None \<Rightarrow> (m4, Ok ()) | Some t \<Rightarrow> if om_contains (contexts m4) t then (m4\<lparr>active := t\<rparr>, Ok ()) else (m4, Panic))
      = ((m5, Ok ()) :: unit sys_result)" "machine_ok X (b + reserved_by p) m5" "sched m5 = sched m3" "at_rest m5"
      "processes m5 = processes m2"
    by (rule activated_ok [OF m3(6) [folded m4_def], of q]) (use m3(2) s4 in auto)
  obtain m6 where m6: "(if om_contains (contexts m4) (ppid p) then ignore_result (send_signal m5 (ppid p) SigChild)
        else (m5\<lparr>processes := fst (reap_process (processes m5) ?pid), sched := fst (reap_task (sched m5) ?pid)\<rparr>, Ok ())) = (m6, Ok ())"
      "machine_ok X (b + reserved_by p) m6" "fewer_waits (sched m6) (sched m3)" "\<not> live_task (task (sched m6) ?pid)" "at_rest m6"
      "exits_only {?pid} (processes m5) (processes m6)" "\<And>t. live_task (task (sched m6) t) \<Longrightarrow> live_task (task (sched m3) t)"
    by (rule parent_told_ok [OF m5(2,4), of ?pid st _ _ "{?pid}"]) (use m3(3) m5(3) in auto)
  let ?m' = "release m6 (context_bytes p)"
  have frame: "sched ?m' = sched m6" "active ?m' = active m6" "processes ?m' = processes m6" by (subst meter_frame(2), simp)+
  have "finish_child m ?pid st = (?m', Ok ())"
    by (simp only: finish_child_def with_active_def Let_def p option.case m1(1) and_then.simps
        m2_def [symmetric] m3(1) m4_def [symmetric] m5(1) m6(1))
  moreover have ok': "machine_ok X b ?m'"
    using m6(2) context_bytes_exact [OF m6(2)] by (intro machine_ok_release) simp
  moreover have "om_lookup (contexts ?m') ?pid = None"
    using machine_okD(4) [OF ok', of ?pid] m6(4) frame by simp
  moreover have live: "t \<noteq> ?pid \<and> live_task (task (sched m) t)" if "live_task (task (sched m6) t)" for t
    using m6(7) [OF that] m3(5) machine_okD(4) [OF m1(2), of t] machine_okD(4) [OF ok, of t] m1(6) cur2
    by (auto simp: one_less_def m2_def om_lookup_insert)
  ultimately show thesis
    using that [of ?m'] m6(3,5) m3(7) live frame exits_only_trans [OF ex2] m5(5) m6(6) by (simp add: at_rest_def running_def fewer_waits_def) blast
qed

section \<open>Memory of the active process\<close>

text \<open>The context changes what it holds and the meter follows.\<close>

lemma context_memory:
  assumes ok: "machine_ok X b m" and p: "om_lookup (contexts m) (active m) = Some p"
    and q: "fds q = fds p" "se_pid q = se_pid p"
    and r: "unat (memory_current r) + reserved_by p = unat (memory_current (resources m)) + reserved_by q"
  shows "machine_ok X b ((set_active m q)\<lparr>resources := r\<rparr>)"
proof -
  let ?m = "(set_active m q)\<lparr>resources := r\<rparr>"
  have bytes: "ctx_bytes (contexts ?m) + reserved_by p = ctx_bytes (contexts m) + reserved_by q"
    using ctx_bytes_remove [OF p] by (simp add: set_active_def ctx_bytes_insert)
  have refs: "ctx_refs (contexts ?m) = ctx_refs (contexts m)"
    using ctx_refs_remove [OF p] q(1) by (auto simp: set_active_def ctx_refs_insert fun_eq_iff)
  have "kernel_ok X (b + ctx_bytes (contexts ?m)) ?m"
    using machine_okD(1) [OF ok] bytes refs r q(1) p
    by (auto simp: kernel_ok_def kernel_but_def tables_ok_def memory_ok_def reserved_pipes_open_def set_active_def om_lookup_insert)
  then show ?thesis
    using machine_okD(5) [OF ok p] q(2)
    by (intro machine_ok_replaced [OF ok p, of ?m q]) (simp_all add: set_active_def)
qed

lemma release_in: "release m n = m\<lparr>resources := release_memory (resources m) n\<rparr>"
  by (simp add: release_def)

lemma unat_release: "unat n \<le> unat (memory_current r) \<Longrightarrow> unat (memory_current (release_memory r n)) = unat (memory_current r) - unat n"
  by (simp add: release_memory_def rust_arith)

lemma reserved_le:
  assumes "machine_ok X b m" "om_lookup (contexts m) t = Some p"
  shows "reserved_by p \<le> unat (memory_current (resources m))"
  using machine_okD(1) [OF assms(1)] ctx_bytes_remove [OF assms(2)]
  by (simp add: kernel_ok_def kernel_but_def memory_ok_def)

lemma keeps_running:
  "machine_ok X b m' \<Longrightarrow> active m' = active m \<Longrightarrow> sched m' = sched m \<Longrightarrow> processes m' = processes m \<Longrightarrow> keeps_machine X b m (m', Ok v)"
  by (rule keeps_machineI) simp_all

lemma give_back_ok:
  assumes ok: "machine_ok X b m" and p: "om_lookup (contexts m) (active m) = Some p"
    and q: "fds q = fds p" "se_pid q = se_pid p" "reserved_by p = reserved_by q + unat n"
  shows "machine_ok X b (release (set_active m q) n)"
proof -
  have "unat n \<le> unat (memory_current (resources m))" using reserved_le [OF ok p] q(3) by simp
  then have "unat (memory_current (release_memory (resources m) n)) + reserved_by p = unat (memory_current (resources m)) + reserved_by q"
    using q(3) by (simp add: unat_release)
  from context_memory [OF ok p q(1,2) this] show ?thesis by (simp add: release_in)
qed

lemma release_frame [simp]:
  "active (release m n) = active m" "sched (release m n) = sched m" "contexts (release m n) = contexts m" "processes (release m n) = processes m"
  by (simp_all add: release_in)

lemma release_expansion_memory_ok:
  assumes ok: "machine_ok X b m" and run: "running m"
  shows "keeps_machine X b m (release_expansion_memory m)"
  unfolding release_expansion_memory_def
proof (rule with_active_running [OF assms])
  fix p assume p: "om_lookup (contexts m) (active m) = Some p"
  have "machine_ok X b (release (set_active m (p\<lparr>expansion_reserved := 0\<rparr>)) (expansion_reserved p))"
    by (rule give_back_ok [OF ok p]) (simp_all add: reserved_by_def)
  then show "keeps_machine X b m (release (set_active m (p\<lparr>expansion_reserved := 0\<rparr>)) (expansion_reserved p), Ok ())"
    by (rule keeps_running) simp_all
qed

text \<open>A reservation that the active context accounts for.\<close>

lemma reserve_context_ok:
  assumes ok: "machine_ok X b m" and p: "om_lookup (contexts m) (active m) = Some p" and r: "reserve m n = (m1, c)"
    and q: "fds q = fds p" "se_pid q = se_pid p" "c \<Longrightarrow> reserved_by q = reserved_by p + unat n"
  shows "keeps_machine X b m (if c then (set_active m1 q, Ok True) else (m1, Ok False))"
proof -
  have frame: "m1 = m\<lparr>resources := resources m1\<rparr>" by (rule meter_frame(1) [OF r])
  have "machine_ok X b (if c then set_active m1 q else m1)"
  proof (cases c)
    case False
    then have "kernel_ok X (b + ctx_bytes (contexts m)) m1" using reserve_refused [OF _ machine_okD(1) [OF ok]] r by simp
    then have "machine_ok X b m1" by (rule machine_ok_same [OF ok]) (subst frame, simp)+
    then show ?thesis using False by simp
  next
    case True
    have "unat (memory_current (resources m1)) = unat (memory_current (resources m)) + unat n"
      using r True by (auto simp: reserve_def reserve_memory_def rust_arith split: if_splits option.splits)
    then have "machine_ok X b ((set_active m q)\<lparr>resources := resources m1\<rparr>)"
      using q(3) [OF True] by (intro context_memory [OF ok p q(1,2)]) simp
    moreover have "(set_active m q)\<lparr>resources := resources m1\<rparr> = set_active m1 q"
      by (subst (2) frame) (simp add: set_active_def)
    ultimately show ?thesis using True by simp
  qed
  moreover have "active m1 = active m" "sched m1 = sched m" "processes m1 = processes m" by (subst frame, simp)+
  ultimately show ?thesis by (cases c) (auto intro!: keeps_running)
qed

lemma sync_shell_memory_ok:
  assumes ok: "machine_ok X b m" and run: "running m"
  shows "keeps_machine X b m (sync_shell_memory m)"
  unfolding sync_shell_memory_def
proof (rule with_active_running [OF assms])
  fix p assume p: "om_lookup (contexts m) (active m) = Some p"
  define target where "target = saturating_sub (shell_state_bytes p) (state_baseline p)"
  let ?p = "p\<lparr>state_reserved := target\<rparr>"
  show "keeps_machine X b m (let target = saturating_sub (shell_state_bytes p) (state_baseline p); reserved = state_reserved p
     in case (if reserved < target then reserve m (target - reserved) else (release m (reserved - target), True)) of
          (m1, False) \<Rightarrow> (m1, Ok False)
        | (m1, True) \<Rightarrow> (set_active m1 (p\<lparr>state_reserved := target\<rparr>), Ok True))"
    unfolding Let_def target_def [symmetric]
  proof (cases "state_reserved p < target")
    case False
    then have "unat (state_reserved p) = unat target + unat (state_reserved p - target)"
      by (simp add: unat_sub word_le_nat_alt not_less)
    then have "machine_ok X b (release (set_active m ?p) (state_reserved p - target))"
      by (intro give_back_ok [OF ok p]) (simp_all add: reserved_by_def)
    moreover have "release (set_active m ?p) (state_reserved p - target) = set_active (release m (state_reserved p - target)) ?p"
      by (simp add: release_in set_active_def)
    ultimately show "keeps_machine X b m (case (if state_reserved p < target then reserve m (target - state_reserved p)
          else (release m (state_reserved p - target), True)) of
          (m1, False) \<Rightarrow> (m1, Ok False) | (m1, True) \<Rightarrow> (set_active m1 ?p, Ok True))"
      using False by (auto intro!: keeps_running)
  next
    case True
    obtain m1 c where r: "reserve m (target - state_reserved p) = (m1, c)" by fastforce
    have "unat target = unat (state_reserved p) + unat (target - state_reserved p)"
      using True by (simp add: unat_sub word_le_nat_alt word_less_nat_alt)
    then have "keeps_machine X b m (if c then (set_active m1 ?p, Ok True) else (m1, Ok False))"
      by (intro reserve_context_ok [OF ok p r]) (simp_all add: reserved_by_def)
    then show "keeps_machine X b m (case (if state_reserved p < target then reserve m (target - state_reserved p)
          else (release m (state_reserved p - target), True)) of
          (m1, False) \<Rightarrow> (m1, Ok False) | (m1, True) \<Rightarrow> (set_active m1 ?p, Ok True))"
      using True r by (cases c) simp_all
  qed
qed

lemma sync_shell_memory_frame: "sched (fst (sync_shell_memory m)) = sched m" "active (fst (sync_shell_memory m)) = active m"
  by (auto simp: sync_shell_memory_def with_active_def Let_def reserve_def split: option.split prod.split bool.split)

lemma release_exec_metadata_ok:
  assumes ok: "machine_ok X b m" and run: "running m"
  shows "keeps_machine X b m (release_exec_metadata m)"
  unfolding release_exec_metadata_def
proof (rule with_active_running [OF assms])
  fix p
  have "keeps_machine X b m (and_then (sync_shell_memory m) (\<lambda>m _. with_active m (\<lambda>p.
       (release (set_active m (p\<lparr>exec_allocation_bytes := 0\<rparr>)) (exec_allocation_bytes p), Ok ()))))"
  proof (rule keeps_machine_and_then [OF sync_shell_memory_ok [OF assms]])
    fix m1 v assume m1: "sync_shell_memory m = (m1, Ok v)" "machine_ok X b m1"
    have run1: "running m1"
      using run sync_shell_memory_frame [of m] m1(1) by (simp add: running_def)
    show "keeps_machine X b m1 (with_active m1 (\<lambda>p. (release (set_active m1 (p\<lparr>exec_allocation_bytes := 0\<rparr>)) (exec_allocation_bytes p), Ok ())))"
    proof (rule with_active_running [OF m1(2) run1])
      fix q assume q: "om_lookup (contexts m1) (active m1) = Some q"
      have "machine_ok X b (release (set_active m1 (q\<lparr>exec_allocation_bytes := 0\<rparr>)) (exec_allocation_bytes q))"
        by (rule give_back_ok [OF m1(2) q]) (simp_all add: reserved_by_def)
      then show "keeps_machine X b m1 (release (set_active m1 (q\<lparr>exec_allocation_bytes := 0\<rparr>)) (exec_allocation_bytes q), Ok ())"
        by (rule keeps_running) simp_all
    qed
  qed
  then show "keeps_machine X b m (if exec_allocation_bytes p = 0 then (m, Ok ()) else and_then (sync_shell_memory m) (\<lambda>m _. with_active m (\<lambda>p.
       (release (set_active m (p\<lparr>exec_allocation_bytes := 0\<rparr>)) (exec_allocation_bytes p), Ok ()))))"
    using ok by (simp add: keeps_machine_same)
qed

lemma new_job_ok:
  assumes ok: "machine_ok X b m" and run: "running m"
  shows "keeps_machine X b m (new_job m pid command)"
  unfolding new_job_def
proof (rule with_active_running [OF assms])
  fix p assume p: "om_lookup (contexts m) (active m) = Some p"
  have "machine_ok X b (set_active m (p\<lparr>next_job_id := n, jobs := js\<rparr>))" for n js
    by (rule set_active_ok [OF ok p]) (simp add: alike_def reserved_by_def)
  then show "keeps_machine X b m (if MAX_PROCESSES \<le> length (jobs p) then (m, Ok None)
     else case checked_add (next_job_id p) 1 of
            None \<Rightarrow> (m, Ok None)
          | Some n \<Rightarrow> (set_active m (p\<lparr>next_job_id := n,
              jobs := jobs p @ [\<lparr>job_id = next_job_id p, job_pid = pid, job_cmd = command, job_state = JobRunning\<rparr>]\<rparr>),
              Ok (Some (next_job_id p))))"
    using ok by (auto intro!: keeps_running split: option.split)
qed

end
