(* ===== verification/Dispatch.thy ===== *)
theory Dispatch
  imports Lifecycle_End
begin

text \<open>
  The dispatch loop of \<open>src/src/exec.rs\<close> returns and keeps the invariant of the machine; it says that
  nothing can run only when no task is runnable and no timed event is left.
\<close>

section \<open>Handling events\<close>

text \<open>Signals and wake-ups leave the clock alone.\<close>

lemma clock_and_then:
  "clock (fst x) = clock m \<Longrightarrow> (\<And>m' v. clock m' = clock m \<Longrightarrow> clock (fst (k m' v)) = clock m) \<Longrightarrow> clock (fst (and_then x k)) = clock m"
  by (cases "(x, k)" rule: and_then.cases) auto

lemma clock_in_sched: "clock (fst (in_sched m r)) = clock m"
  by (cases "(m, r)" rule: in_sched.cases) auto

lemma clock_on_task: "clock (fst (on_task m msg r)) = clock m"
  by (auto simp: on_task_def split: prod.split outcome.split)

lemma clock_frames [simp]: "clock (update_jobs pid st m) = clock m" "clock (default_foreground m) = clock m"
  by (simp_all add: update_jobs_def default_foreground_def)

lemma clock_process_state:
  "clock (fst (stop_process_state m pid sig)) = clock m" "clock (fst (continue_process_state m pid)) = clock m"
  "clock (fst (post_signal m pid sig)) = clock m"
  unfolding stop_process_state_def continue_process_state_def wake_parent_waits_def Let_def post_signal_def
  by (intro clock_and_then | simp add: clock_on_task clock_in_sched split: option.split)+

lemma clock_send_signal: "clock (fst (send_signal m pid sig)) = clock m"
  unfolding send_signal_def
  by (simp add: clock_process_state) (auto intro!: clock_and_then simp: clock_process_state)

lemma clock_ignore: "clock (fst (ignore_result r)) = clock (fst r)"
  by (cases r rule: ignore_result.cases) auto

lemma clock_signal_each: "clock (fst (signal_each m pids sig)) = clock m"
  by (induction pids arbitrary: m) (auto intro!: clock_and_then simp: clock_ignore clock_send_signal)

lemma clock_interrupt_each: "clock (fst (interrupt_each m ev pids)) = clock m"
  by (induction pids arbitrary: m)
    (auto intro!: clock_and_then simp: clock_on_task set_deadline_interrupt_def split: option.split)

lemma handle_event_clock: "clock (fst (handle_event m ev)) = clock m"
  by (auto simp: handle_event_def clock_on_task clock_interrupt_each clock_signal_each split: event_kind.split option.split)

lemma interrupt_each_ok: "machine_ok X b m \<Longrightarrow> keeps_machine X b m (interrupt_each m ev pids)"
proof (induction pids arbitrary: m)
  case (Cons pid pids)
  have set: "keeps_machine X b m (set_deadline_interrupt m pid ev)"
    using machine_ok_contexts [OF Cons.prems contexts_alike_insert] Cons.prems
    by (auto simp: set_deadline_interrupt_def intro!: keeps_machineI split: option.split)
  then show ?case
    by (auto intro!: keeps_machine_and_then on_task_ok Cons.IH)
qed (simp add: keeps_machine_same)

lemma handle_event_ok:
  assumes "machine_ok X b m"
  shows "keeps_machine X b m (handle_event m ev)"
  using assms
  by (auto simp: handle_event_def simp del: interrupt_each.simps signal_each.simps
      intro: keeps_machine_same on_task_ok interrupt_each_ok signal_each_ok split: event_kind.split option.split)

lemma ready_tail_inv:
  assumes "tl_inv clk" "ready clk = ev # evs"
  shows "tl_inv (clk\<lparr>ready := evs\<rparr>)"
  using pop_ready_inv [OF assms(1)] assms(2) by (simp add: pop_ready_def)

lemma handle_each_ok:
  assumes "machine_ok X b m" "ready (clock m) = evs"
  shows "keeps_machine X b m (handle_each m evs) \<and> Timeline.pending (clock (fst (handle_each m evs))) = Timeline.pending (clock m)
    \<and> (snd (handle_each m evs) = Ok () \<longrightarrow> ready (clock (fst (handle_each m evs))) = [])"
  using assms
proof (induction evs arbitrary: m)
  case (Cons ev evs)
  let ?m = "m\<lparr>clock := (clock m)\<lparr>ready := evs\<rparr>\<rparr>"
  have ok: "machine_ok X b ?m"
    by (rule machine_ok_clock [OF Cons.prems(1) ready_tail_inv [OF machine_okD(6) [OF Cons.prems(1)] Cons.prems(2)]])
  obtain m1 r where run: "handle_event ?m ev = (m1, r)" by fastforce
  have k: "keeps_machine X b m (m1, r)"
    using keeps_machine_from [OF _ _ _ handle_event_ok [OF ok, of ev]] run by simp
  have clk: "clock m1 = (clock m)\<lparr>ready := evs\<rparr>" using handle_event_clock [of ?m ev] run by simp
  show ?case
  proof (cases r)
    case (Ok u)
    have m1: "machine_ok X b m1" using k by (simp add: keeps_machine_def)
    have "keeps_machine X b m (and_then (m1, r) (\<lambda>m _. handle_each m evs))"
      using Cons.IH [OF m1] clk by (intro keeps_machine_and_then [OF k]) auto
    then show ?thesis using Cons.IH [OF m1] clk run Ok by simp
  qed (use k clk run in simp_all)
qed (simp add: keeps_machine_same)

lemma handle_ready_events_ok:
  assumes "machine_ok X b m"
  shows "keeps_machine X b m (handle_ready_events m)" "Timeline.pending (clock (fst (handle_ready_events m))) = Timeline.pending (clock m)"
    "snd (handle_ready_events m) = Ok () \<Longrightarrow> ready (clock (fst (handle_ready_events m))) = []"
  using handle_each_ok [OF assms refl] by (simp_all add: handle_ready_events_def)

text \<open>The one event whose handler can fail is the deadline of a task, which interrupts a process that may be
  gone; nothing in the program schedules one.\<close>

definition no_deadlines :: "timeline \<Rightarrow> bool" where
  "no_deadlines c \<longleftrightarrow> (\<forall>i t. pend c i \<noteq> Some (Deadline t)) \<and> (\<forall>ev\<in>set (ready c). \<forall>t. ev_kind ev \<noteq> Deadline t)"

lemma no_deadlines_sub:
  assumes "no_deadlines c" "\<And>i k. pend c' i = Some k \<Longrightarrow> pend c i = Some k"
    "\<And>ev. ev \<in> set (ready c') \<Longrightarrow> ev \<in> set (ready c) \<or> pend c (ev_id ev) = Some (ev_kind ev)"
  shows "no_deadlines c'"
  using assms unfolding no_deadlines_def by metis

lemma no_deadlines_tail: "no_deadlines c \<Longrightarrow> set evs \<subseteq> set (ready c) \<Longrightarrow> no_deadlines (c\<lparr>ready := evs\<rparr>)"
  by (erule no_deadlines_sub) auto

lemma no_deadlines_advance:
  assumes "no_deadlines c" "monotonic_ns c \<le> d"
  shows "no_deadlines (fst (advance_to c d))"
  by (rule no_deadlines_sub [OF assms(1)])
    (use advance_to_spec [OF assms(2)] in \<open>auto simp: om_lookup_retain due_set split: option.splits if_splits\<close>)

lemma signal_each_returns: "snd (signal_each m pids sig) \<in> {Ok (), Panic}"
proof (induction pids arbitrary: m)
  case (Cons pid pids)
  then show ?case by (cases "send_signal m pid sig"; cases "snd (send_signal m pid sig)") simp_all
qed simp

lemma handle_event_Ok:
  assumes "machine_ok X b m" "\<And>t. ev_kind ev \<noteq> Deadline t"
  shows "snd (handle_event m ev) = Ok ()"
proof (cases "ev_kind ev")
  case (WakeTask t)
  have "snd (on_task m msg (wake (sched m) pid)) = Ok ()" if "blocked_reason (task (sched m) pid) = Some r" for msg pid r
    using that by (cases "task (sched m) pid") (auto simp: on_task_def wake_def split: task_state.splits stopped_task.splits)
  then show ?thesis using WakeTask by (auto simp: handle_event_def timed_wait_def split: option.splits)
next
  case (SignalTask t sig descendants)
  have "snd (signal_each m pids sig) = Ok ()" for pids
    using signal_each_returns [of m pids sig] signal_each_ok [OF assms(1), of pids sig] by (auto simp: keeps_machine_def)
  then show ?thesis using SignalTask by (simp add: handle_event_def split: option.split)
qed (use assms(2) in \<open>simp_all add: handle_event_def\<close>)

lemma handle_each_Ok:
  assumes "machine_ok X b m" "ready (clock m) = evs" "\<And>ev t. ev \<in> set evs \<Longrightarrow> ev_kind ev \<noteq> Deadline t"
  shows "snd (handle_each m evs) = Ok ()"
  using assms
proof (induction evs arbitrary: m)
  case (Cons ev evs)
  let ?m = "m\<lparr>clock := (clock m)\<lparr>ready := evs\<rparr>\<rparr>"
  have ok: "machine_ok X b ?m"
    by (rule machine_ok_clock [OF Cons.prems(1) ready_tail_inv [OF machine_okD(6) [OF Cons.prems(1)] Cons.prems(2)]])
  obtain m1 where run: "handle_event ?m ev = (m1, Ok ())"
    using handle_event_Ok [OF ok, of ev] Cons.prems(3) by (cases "handle_event ?m ev") auto
  have "machine_ok X b m1" using handle_event_ok [OF ok, of ev] run by (simp add: keeps_machine_def)
  moreover have "ready (clock m1) = evs" using handle_event_clock [of ?m ev] run by simp
  ultimately show ?case using Cons.IH Cons.prems(3) run by simp
qed simp

lemma handle_each_deadlines:
  "no_deadlines (clock m) \<Longrightarrow> set evs \<subseteq> set (ready (clock m)) \<Longrightarrow> no_deadlines (clock (fst (handle_each m evs)))"
proof (induction evs arbitrary: m)
  case (Cons ev evs)
  let ?m = "m\<lparr>clock := (clock m)\<lparr>ready := evs\<rparr>\<rparr>"
  obtain m1 r where run: "handle_event ?m ev = (m1, r)" by fastforce
  have clk: "clock m1 = (clock m)\<lparr>ready := evs\<rparr>" using handle_event_clock [of ?m ev] run by simp
  then have "no_deadlines (clock m1)" using Cons.prems no_deadlines_tail by simp
  then show ?case using Cons.IH [of m1] run clk by (cases r) simp_all
qed simp

lemma handle_ready_events_Ok:
  assumes "machine_ok X b m" "no_deadlines (clock m)"
  shows "snd (handle_ready_events m) = Ok ()" "no_deadlines (clock (fst (handle_ready_events m)))"
proof -
  show "snd (handle_ready_events m) = Ok ()"
    using handle_each_Ok [OF assms(1) refl] assms(2) unfolding handle_ready_events_def no_deadlines_def by blast
  show "no_deadlines (clock (fst (handle_ready_events m)))"
    using handle_each_deadlines [OF assms(2) subset_refl] by (simp add: handle_ready_events_def)
qed

section \<open>The dispatch loop\<close>

lemma wake_lock_waiters_machine:
  assumes ok: "machine_ok X b m"
  obtains m' where "wake_lock_waiters m = (m', Ok ())" "keeps_machine X b m (m', Ok ())" "clock m' = clock m"
proof -
  note k = machine_okD(1) [OF ok]
  let ?B = "b + ctx_bytes (contexts m)" and ?m = "m\<lparr>descriptors := (descriptors m)\<lparr>file_locks_changed := False\<rparr>\<rparr>"
  have "kernel_but {} X ?B m" using k by (simp add: kernel_ok_def)
  then obtain m' where m': "wake_lock_waiters m = (m', Ok ())" "kernel_but {} X ?B m'"
      "m' = ?m\<lparr>sched := sched m'\<rparr>" "same_tasks (sched m) (sched m')" "fewer_waits (sched m') (sched m)"
      "current (sched m') = current (sched m)"
    by (rule wake_lock_waiters_but)
  have "machine_ok X b ?m" by (rule machine_ok_same [OF ok lock_flag_ok [OF k]]) simp_all
  then have "machine_ok X b (?m\<lparr>sched := sched m'\<rparr>)"
    using m'(4,5) kernel_butD(2) [OF m'(2)] by (intro machine_ok_fewer) simp_all
  then have "machine_ok X b m'" by (simp only: m'(3) [symmetric])
  moreover have "active m' = active m" "processes m' = processes m" "clock m' = clock m" by (subst m'(3), simp)+
  ultimately show thesis using m'(1,4-) that by (simp add: keeps_machine_def)
qed

text \<open>What the loop promises: a process runs and its context is active, or nothing can run.\<close>

definition stuck :: "machine \<Rightarrow> bool" where
  "stuck m \<longleftrightarrow> current (sched m) = None \<and> runnable (sched m) = []"

definition settled :: "(description_id \<Rightarrow> nat) \<Rightarrow> nat \<Rightarrow> machine \<Rightarrow> bool \<Rightarrow> bool sys_result \<Rightarrow> bool" where
  "settled X b m advance r \<longleftrightarrow> machine_ok X b (fst r) \<and> at_rest (fst r) \<and> same_tasks (sched m) (sched (fst r))
     \<and> same_exits (processes m) (processes (fst r)) \<and> (no_deadlines (clock m) \<longrightarrow> no_deadlines (clock (fst r)))
     \<and> (case snd r of
       Ok True \<Rightarrow> running (fst r)
     | Ok False \<Rightarrow> stuck (fst r) \<and> (advance \<longrightarrow> om_size (Timeline.pending (clock (fst r))) = 0)
     | Err _ \<Rightarrow> current (sched m) \<noteq> None \<or> \<not> no_deadlines (clock m)
     | Panic \<Rightarrow> False)"

lemma settled_from:
  assumes "settled X b m1 advance r" "same_tasks (sched m) (sched m1)" "same_exits (processes m) (processes m1)"
    "current (sched m1) \<in> {None, current (sched m)}" "no_deadlines (clock m) \<Longrightarrow> no_deadlines (clock m1)"
  shows "settled X b m advance r"
  using assms by (auto simp: settled_def intro: same_tasks_trans same_exits_trans split: outcome.splits)

lemma keeps_at_rest: "keeps_machine X b m r \<Longrightarrow> at_rest m \<Longrightarrow> at_rest (fst r)"
  by (auto simp: keeps_machine_def at_rest_def running_def)

lemma advance_fires:
  assumes ok: "machine_ok X b m"
  shows "\<exists>m' evs. on_clock m (advance_to_next (clock m)) = (m', Ok evs) \<and> machine_ok X b m' \<and> sched m' = sched m \<and> active m' = active m
    \<and> processes m' = processes m \<and> (no_deadlines (clock m) \<longrightarrow> no_deadlines (clock m'))
    \<and> (if evs = [] then om_size (Timeline.pending (clock m')) = 0
       else om_size (Timeline.pending (clock m')) < om_size (Timeline.pending (clock m)))"
proof (cases "\<exists>i k. pend (clock m) i = Some k")
  case True
  then obtain i k where "pend (clock m) i = Some k" by blast
  then obtain d where d: "monotonic_ns (clock m) \<le> d" "advance_to_next (clock m) = advance_to (clock m) d" "due (clock m) d \<noteq> []"
    by (rule advance_to_next_spec [OF machine_okD(6) [OF ok]]) blast
  obtain ev evs where evs: "due (clock m) d = ev # evs" using d(3) by (cases "due (clock m) d") auto
  let ?p = "om_retain (\<lambda>i _. \<not> deadline_ns i \<le> d) (Timeline.pending (clock m))"
  let ?c = "(clock m)\<lparr>monotonic_ns := d, pending := ?p, ready := ready (clock m) @ due (clock m) d\<rparr>"
  have run: "advance_to_next (clock m) = (?c, Ok (ev # evs))"
    using advance_to_spec [OF d(1)] d(2) evs by simp
  have "tl_inv ?c" by (rule advance_to_inv [OF machine_okD(6) [OF ok]]) (use run d(2) in simp)
  moreover have "om_size ?p < om_size (Timeline.pending (clock m))" using due_length [of d "clock m"] evs by simp
  moreover have "no_deadlines (clock m) \<Longrightarrow> no_deadlines ?c"
    using no_deadlines_advance [OF _ d(1)] advance_to_spec [OF d(1)] by simp
  ultimately show ?thesis using run machine_ok_clock [OF ok] by (simp add: on_clock_def)
next
  case False
  then have e: "om_entries (Timeline.pending (clock m)) = []"
    by (metis list.set_intros(1) neq_Nil_conv om_in_entries prod.exhaust)
  then have "om_size (Timeline.pending (clock m)) = 0" by (simp add: om_size_def)
  then show ?thesis using ok e by (simp add: on_clock_def advance_to_next_def next_deadline_ns_def)
qed

lemma idle_round:
  assumes ok: "machine_ok X b m" "stuck m" and n: "om_size (Timeline.pending (clock m)) < Suc n"
    and rest: "\<And>m'. machine_ok X b m' \<Longrightarrow> at_rest m' \<Longrightarrow> om_size (Timeline.pending (clock m')) < n \<Longrightarrow>
      \<exists>r. loop m' = Some r \<and> settled X b m' True r"
  shows "\<exists>r. (case on_clock m (advance_to_next (clock m)) of
                 (m2, Ok []) \<Rightarrow> Some (m2, Ok False)
               | (m2, Ok (ev # evs)) \<Rightarrow> (case handle_ready_events m2 of
                     (m3, Ok _) \<Rightarrow> loop m3
                   | (m3, Err e) \<Rightarrow> Some (m3, Err e)
                   | (m3, Panic) \<Rightarrow> Some (m3, Panic))
               | (m2, Err e) \<Rightarrow> Some (m2, Err e)
               | (m2, Panic) \<Rightarrow> Some (m2, Panic)) = Some r \<and> settled X b m True r"
proof -
  obtain m2 evs where c: "on_clock m (advance_to_next (clock m)) = (m2, Ok evs)" "machine_ok X b m2" "sched m2 = sched m"
      "active m2 = active m" "processes m2 = processes m" "no_deadlines (clock m) \<Longrightarrow> no_deadlines (clock m2)"
      "if evs = [] then om_size (Timeline.pending (clock m2)) = 0
       else om_size (Timeline.pending (clock m2)) < om_size (Timeline.pending (clock m))"
    using advance_fires [OF ok(1)] by metis
  have at2: "at_rest m2" "stuck m2" using c(3,4) ok(2) by (auto simp: at_rest_def running_def stuck_def)
  show ?thesis
  proof (cases evs)
    case Nil
    then show ?thesis using c at2 by (simp add: settled_def)
  next
    case (Cons ev evs')
    obtain m3 r3 where h: "handle_ready_events m2 = (m3, r3)" by fastforce
    note handled = handle_ready_events_ok [OF c(2), unfolded h fst_conv snd_conv]
    have m3: "machine_ok X b m3" "r3 \<noteq> Panic" using handled(1) by (simp_all add: keeps_machine_def)
    have at3: "at_rest m3" using keeps_at_rest [OF handled(1) at2(1)] by simp
    have steady: "same_tasks (sched m) (sched m3)" "same_exits (processes m) (processes m3)" "current (sched m3) = None"
      using handled(1) c(3,5) ok(2) by (auto simp: keeps_machine_def stuck_def)
    have calm3: "r3 = Ok ()" "no_deadlines (clock m3)" if "no_deadlines (clock m)"
      using handle_ready_events_Ok [OF c(2) c(6) [OF that]] h by simp_all
    show ?thesis
    proof (cases r3)
      case r3: (Ok u)
      obtain r where "loop m3 = Some r" "settled X b m3 True r"
        using rest [OF m3(1) at3] n c(7) handled(2) Cons by auto
      then show ?thesis using settled_from [OF _ steady(1,2)] steady(3) calm3(2) c(1) Cons h r3 by auto
    next
      case (Err e)
      then have "\<not> no_deadlines (clock m)" using calm3(1) by auto
      then show ?thesis using Err steady m3 at3 c(1) Cons h by (simp add: settled_def)
    qed (use m3 in simp)
  qed
qed

lemma dispatch_loop_ok:
  assumes "machine_ok X b m" "at_rest m" "om_size (Timeline.pending (clock m)) < n"
  shows "\<exists>r. dispatch_loop n m advance = Some r \<and> settled X b m advance r"
  using assms
proof (induction n arbitrary: m)
  case (Suc n)
  obtain s r where d: "dispatch (sched m) = (s, r)" by fastforce
  note inv = machine_okD(7) [OF Suc.prems(1)]
  note t = dispatch_task [OF inv d]
  have ok1: "machine_ok X b (m\<lparr>sched := s\<rparr>)" by (rule machine_ok_fewer [OF Suc.prems(1) t(3,2,1)])
  show ?case
  proof (cases r)
    case Panic
    then show ?thesis using dispatch_total(2) [OF inv] d by blast
  next
    case (Err e)
    then have "s = sched m" "current (sched m) \<noteq> None" using dispatch_total(1) [OF inv] d by blast+
    then show ?thesis using Err d ok1 Suc.prems(2) by (simp add: settled_def)
  next
    case (Ok q)
    show ?thesis
    proof (cases q)
      case (Some pid)
      then have "om_lookup (contexts m) pid \<noteq> None" using t(4) Ok machine_okD(4) [OF Suc.prems(1), of pid] by simp
      then show ?thesis using Some Ok d ok1 t(1,4) by (auto simp: activate_def settled_def at_rest_def running_def)
    next
      case None
      then have s: "s = sched m" "current (sched m) = None" using t(5) Ok by simp_all
      have "runnable (sched m) = []"
        using d None Ok dispatch_Ok [OF inv s(2)] by (cases "runnable (sched m)") auto
      then have quiet: "stuck m" using s(2) by (simp add: stuck_def)
      have body: "dispatch_loop (Suc n) m advance = (if \<not> advance then Some (m, Ok False)
          else (case on_clock m (advance_to_next (clock m)) of
                 (m2, Ok []) \<Rightarrow> Some (m2, Ok False)
               | (m2, Ok (ev # evs)) \<Rightarrow> (case handle_ready_events m2 of
                     (m3, Ok _) \<Rightarrow> dispatch_loop n m3 advance
                   | (m3, Err e) \<Rightarrow> Some (m3, Err e)
                   | (m3, Panic) \<Rightarrow> Some (m3, Panic))
               | (m2, Err e) \<Rightarrow> Some (m2, Err e)
               | (m2, Panic) \<Rightarrow> Some (m2, Panic)))"
        using d Ok None s(1) by simp
      show ?thesis
      proof (cases advance)
        case False
        then show ?thesis using body Suc.prems(1,2) quiet by (simp add: settled_def)
      next
        case True
        then show ?thesis
          using idle_round [OF Suc.prems(1) quiet Suc.prems(3), of "\<lambda>m. dispatch_loop n m advance"] Suc.IH body by simp
      qed
    qed
  qed
qed simp

lemma dispatch_available_ok:
  assumes ok: "machine_ok X b m" "at_rest m"
  shows "\<exists>r. dispatch_available m advance_time host_pending = Some r \<and> settled X b m (advance_time \<and> \<not> host_pending) r"
proof -
  let ?advance = "advance_time \<and> \<not> host_pending"
  obtain m1 where m1: "wake_lock_waiters m = (m1, Ok ())" "keeps_machine X b m (m1, Ok ())" "clock m1 = clock m"
    by (rule wake_lock_waiters_machine [OF ok(1)])
  have ok1: "machine_ok X b m1" "at_rest m1" using m1(2) keeps_at_rest [OF m1(2) ok(2)] by (simp_all add: keeps_machine_def)
  obtain m2 r where h: "handle_ready_events m1 = (m2, r)" by fastforce
  note handled = handle_ready_events_ok [OF ok1(1), unfolded h fst_conv snd_conv]
  have m2: "machine_ok X b m2" "r \<noteq> Panic" "at_rest m2"
    using handled(1) keeps_at_rest [OF handled(1) ok1(2)] by (simp_all add: keeps_machine_def)
  have steady: "same_tasks (sched m) (sched m2)" "same_exits (processes m) (processes m2)" "current (sched m2) \<in> {None, current (sched m)}"
    using handled(1) m1(2) by (auto simp: keeps_machine_def intro: same_tasks_trans same_exits_trans)
  have calm2: "r = Ok ()" "no_deadlines (clock m2)" if "no_deadlines (clock m)"
    using handle_ready_events_Ok [OF ok1(1)] that m1(3) h by simp_all
  obtain q where q: "dispatch_loop (Suc (om_size (Timeline.pending (clock m2)))) m2 ?advance = Some q" "settled X b m2 ?advance q"
    using dispatch_loop_ok [OF m2(1,3) lessI] by blast
  show ?thesis
  proof (cases r)
    case (Ok u)
    then show ?thesis using settled_from [OF q(2) steady calm2(2)] q(1) m1(1) h by (simp add: dispatch_available_def)
  next
    case (Err e)
    then have "\<not> no_deadlines (clock m)" using calm2(1) by auto
    then show ?thesis using Err m1(1) h m2 steady by (simp add: dispatch_available_def settled_def)
  qed (use m2 in simp)
qed

end
