(* ===== verification/Machine_Calls.thy ===== *)
theory Machine_Calls
  imports Dispatch
begin

text \<open>
  The calls of \<open>src/src/syscalls.rs\<close> on processes, signals, time and entropy, and the invariant of the
  machine over all calls: every call that a running process makes keeps \<open>machine_ok\<close>.
\<close>

section \<open>Calls on processes\<close>

text \<open>\<open>ProcessState::fill_virtual_random\<close>: a linear congruential generator, one step for every byte.\<close>

fun virtual_random :: "u64 \<Rightarrow> nat \<Rightarrow> u64 \<times> bytes" where
  "virtual_random s 0 = (s, [])"
| "virtual_random s (Suc n) =
     (let s = s * 6364136223846793005 + 1; (s', bs) = virtual_random s n in (s', ucast (drop_bit 32 s) # bs))"

definition fill_virtual_random :: "process_state \<Rightarrow> nat \<Rightarrow> process_state \<times> bytes" where
  "fill_virtual_random p n = (case virtual_random (syscall_random_state p) n of (s, bs) \<Rightarrow> (p\<lparr>syscall_random_state := s\<rparr>, bs))"

definition sys_random_fill :: "machine \<Rightarrow> nat \<Rightarrow> bytes sys_result" where
  "sys_random_fill m n = (case charge m (if n < 2 ^ 64 then of_nat n else u64_max) of
       (m1, False) \<Rightarrow> (m1, Err ResourceExhausted)
     | (m1, True) \<Rightarrow> with_active m1 (\<lambda>p. case fill_virtual_random p n of (p', bs) \<Rightarrow> (set_active m1 p', Ok bs)))"

definition sys_schedule_wake :: "machine \<Rightarrow> u64 \<Rightarrow> u64 sys_result" where
  "sys_schedule_wake m duration = with_active m (\<lambda>p.
     case schedule_wake_after (clock m) (ucast (se_pid p)) duration of
       (c, Ok ev) \<Rightarrow> (m\<lparr>clock := c\<rparr>, Ok (deadline_ns ev))
     | (c, Err _) \<Rightarrow> (m\<lparr>clock := c\<rparr>, Err InvalidArgument)
     | (c, Panic) \<Rightarrow> (m\<lparr>clock := c\<rparr>, Panic))"

definition sys_set_umask :: "machine \<Rightarrow> 16 word \<Rightarrow> unit sys_result" where
  "sys_set_umask m perms = (if 0x1ff < perms then (m, Err InvalidArgument)
     else with_active m (\<lambda>p. (set_active m (p\<lparr>umask := perms\<rparr>), Ok ())))"

definition sys_process_snapshot :: "machine \<Rightarrow> process_record list sys_result" where
  "sys_process_snapshot m = with_active m (\<lambda>p.
     let t = update_current (processes m) (se_pid p) (se_cwd p) (exported_env p)
     in (m\<lparr>processes := t\<rparr>, Ok (om_values (records t))))"

datatype signal_target = SignalProcess process_id | SignalGroup process_id

definition sys_kill :: "machine \<Rightarrow> signal_target \<Rightarrow> signal \<Rightarrow> unit sys_result" where
  "sys_kill m target sig =
     (case (case target of SignalProcess pid \<Rightarrow> send_signal m pid sig | SignalGroup grp \<Rightarrow> send_signal_group m grp sig) of
        (m', Err _) \<Rightarrow> (m', Err NoSuchProcess)
      | r \<Rightarrow> r)"

definition sys_ignore_signal :: "machine \<Rightarrow> signal \<Rightarrow> unit sys_result" where
  "sys_ignore_signal m sig = (if sig = SigKill \<or> sig = SigStop then (m, Err InvalidArgument)
     else with_active m (\<lambda>p. (set_active m (p\<lparr>signal_dispositions := om_insert sig Ignore (signal_dispositions p)\<rparr>), Ok ())))"

definition sys_signal_disposition :: "machine \<Rightarrow> signal \<Rightarrow> bool \<Rightarrow> unit sys_result" where
  "sys_signal_disposition m sig ignore = (if ignore then sys_ignore_signal m sig
     else if sig = SigKill \<or> sig = SigStop then (m, Err InvalidArgument)
     else with_active m (\<lambda>p. (set_active m (p\<lparr>signal_dispositions := om_remove sig (signal_dispositions p)\<rparr>), Ok ())))"

definition sys_child_status :: "machine \<Rightarrow> process_id \<Rightarrow> int option sys_result" where
  "sys_child_status m pid = (case proc (processes m) pid of
       None \<Rightarrow> (m, Err InvalidArgument)
     | Some r \<Rightarrow> with_active m (\<lambda>p. if pr_ppid r \<noteq> se_pid p then (m, Err Permission)
         else (m, Ok (case pr_status r of PsExited status \<Rightarrow> Some status | _ \<Rightarrow> None))))"

definition sys_child_completion :: "machine \<Rightarrow> process_id \<Rightarrow> child_completion option sys_result" where
  "sys_child_completion m pid = and_then (sys_child_status m pid) (\<lambda>m _. (m, Ok (completion (processes m) pid)))"

definition reap_both :: "machine \<Rightarrow> process_id \<Rightarrow> machine" where
  "reap_both m pid = m\<lparr>processes := fst (reap_process (processes m) pid), sched := fst (reap_task (sched m) pid)\<rparr>"

definition sys_reap_child :: "machine \<Rightarrow> process_id \<Rightarrow> int sys_result" where
  "sys_reap_child m pid = and_then (sys_child_status m pid) (\<lambda>m status. case status of
       None \<Rightarrow> (m, Err InvalidArgument)
     | Some st \<Rightarrow> (reap_both m pid, Ok st))"

text \<open>The meter, as a program sees it; \<open>interrupted\<close> stands for a cancellation by the host.\<close>

definition sys_charge_cpu :: "machine \<Rightarrow> bool \<Rightarrow> u64 \<Rightarrow> bool sys_result" where
  "sys_charge_cpu m interrupted units = (if interrupted then (m, Ok False)
     else case charge m units of (m', granted) \<Rightarrow> (m', Ok granted))"

definition sys_reserve_memory :: "machine \<Rightarrow> u64 \<Rightarrow> bool sys_result" where
  "sys_reserve_memory m n = (case reserve m n of (m', granted) \<Rightarrow> (m', Ok granted))"

definition sys_release_memory :: "machine \<Rightarrow> u64 \<Rightarrow> unit sys_result" where
  "sys_release_memory m n = (release m n, Ok ())"

definition sys_charge_output :: "machine \<Rightarrow> u64 \<Rightarrow> bool sys_result" where
  "sys_charge_output m n = (case charge_output (resources m) n of (r, granted) \<Rightarrow> (m\<lparr>resources := r\<rparr>, Ok granted))"

definition sys_allocate_temp_id :: "machine \<Rightarrow> u64 option sys_result" where
  "sys_allocate_temp_id m = (case next_temp_id m of (m', i) \<Rightarrow> (m', Ok i))"

text \<open>\<open>charge_expansion\<close> of \<open>src/src/expand.rs\<close>: an expanded word is charged to the process that expands it.\<close>

definition charge_expansion :: "machine \<Rightarrow> bool \<Rightarrow> u64 \<Rightarrow> bool sys_result" where
  "charge_expansion m interrupted n = (if interrupted then (m, Ok False) else with_active m (\<lambda>p. case reserve m n of
       (m1, False) \<Rightarrow> (m1, Ok False)
     | (m1, True) \<Rightarrow> (set_active m1 (p\<lparr>expansion_reserved := saturating_add (expansion_reserved p) n\<rparr>), Ok True)))"

text \<open>\<open>configure_process\<close>: directory and environment of a child before its first dispatch.\<close>

definition set_directory :: "string \<Rightarrow> process_state \<Rightarrow> process_state" where
  "set_directory cwd p = p\<lparr>se_cwd := cwd, se_vars := fst (v_insert ''PWD'' cwd (se_vars p)), se_exported := insert ''PWD'' (se_exported p)\<rparr>"

definition set_environment :: "(string \<times> string) list \<Rightarrow> process_state \<Rightarrow> process_state" where
  "set_environment env p =
     (let p = p\<lparr>se_vars := v_clear (se_vars p), se_arrays := a_clear (se_arrays p), se_exported := {}\<rparr>;
          p = fold (\<lambda>(name, v) p. p\<lparr>se_vars := fst (v_insert name v (se_vars p)), se_exported := insert name (se_exported p)\<rparr>) env p
      in p\<lparr>se_vars := fst (v_insert ''PWD'' (se_cwd p) (se_vars p)), se_exported := insert ''PWD'' (se_exported p)\<rparr>)"

definition configure_process :: "machine \<Rightarrow> process_id \<Rightarrow> string option \<Rightarrow> (string, string) omap option \<Rightarrow> unit sys_result" where
  "configure_process m pid cwd env = (case om_lookup (contexts m) pid of
       None \<Rightarrow> (m, Err (SysProcess ''process state does not exist''))
     | Some p \<Rightarrow>
         (let p = (case cwd of None \<Rightarrow> p | Some d \<Rightarrow> set_directory d p);
              p = (case env of None \<Rightarrow> p | Some e \<Rightarrow> set_environment (om_entries e) p)
          in (m\<lparr>contexts := om_insert pid p (contexts m),
                processes := update_current (processes m) pid (se_cwd p) (exported_env p)\<rparr>, Ok ())))"

section \<open>Calls that leave the life of processes alone\<close>

text \<open>A call on descriptors and files: tasks are at most woken, contexts keep their owner and their memory, the
  clock stands still.\<close>

definition contexts_like :: "(process_id, process_state) omap \<Rightarrow> (process_id, process_state) omap \<Rightarrow> bool" where
  "contexts_like c d \<longleftrightarrow>
     (\<forall>t. map_option (\<lambda>p. (se_pid p, reserved_by p)) (om_lookup d t) = map_option (\<lambda>p. (se_pid p, reserved_by p)) (om_lookup c t))"

definition calm :: "machine \<Rightarrow> machine \<Rightarrow> bool" where
  "calm m m' \<longleftrightarrow> active m' = active m \<and> clock m' = clock m \<and> current (sched m') = current (sched m)
     \<and> same_tasks (sched m) (sched m') \<and> same_exits (processes m) (processes m') \<and> (pt_inv (processes m) \<longrightarrow> pt_inv (processes m'))
     \<and> contexts_like (contexts m) (contexts m')"

lemma calm_refl [simp, intro]: "calm m m"
  by (simp add: calm_def contexts_like_def)

lemma calm_trans: "calm m1 m2 \<Longrightarrow> calm m2 m3 \<Longrightarrow> calm m1 m3"
  by (auto simp: calm_def contexts_like_def intro: same_tasks_trans same_exits_trans)

lemma calm_fields [simp]:
  "calm m0 (m\<lparr>descriptors := a\<rparr>) = calm m0 m" "calm m0 (m\<lparr>vfs := v\<rparr>) = calm m0 m" "calm m0 (m\<lparr>resources := r\<rparr>) = calm m0 m"
  "calm m0 (m\<lparr>pipe_reservations := q\<rparr>) = calm m0 m" "calm m0 (sync_vfs_time m) = calm m0 m" "calm m0 (release m n) = calm m0 m"
  by (simp_all add: calm_def sync_vfs_time_def release_in)

lemma calm_processes [simp]:
  "calm m0 m \<Longrightarrow> calm m0 (refresh_descriptor_snapshot m t)"
  by (rule calm_trans, assumption)
    (simp add: calm_def refresh_descriptor_snapshot_def update_descriptors_def pt_inv_update contexts_like_def
      same_exits_records(3) [unfolded update_descriptors_def])

lemma calm_set_active:
  assumes "calm m0 m" "om_lookup (contexts m0) (active m0) = Some p" "se_pid q = se_pid p" "reserved_by q = reserved_by p"
  shows "calm m0 (set_active m q)"
proof -
  have "map_option (\<lambda>p. (se_pid p, reserved_by p)) (om_lookup (contexts m) (active m)) = Some (se_pid p, reserved_by p)"
    using assms(1,2) by (simp add: calm_def contexts_like_def)
  then show ?thesis
    using assms by (auto simp: calm_def contexts_like_def set_active_def om_lookup_insert)
qed

lemma wake_each_tasks: "same_tasks s (fst (wake_each s ps)) \<and> current (fst (wake_each s ps)) = current s"
proof (induction ps arbitrary: s)
  case (Cons p ps)
  obtain s' r where w: "wake s p = (s', r)" by fastforce
  then show ?case
    using wake_task(1,3) [OF w] Cons.IH [of s'] by (cases r) (auto intro: same_tasks_trans)
qed simp

lemma calm_wake: "calm m0 m \<Longrightarrow> calm m0 (fst (in_sched m (wake_matching (sched m) P)))"
proof -
  assume m: "calm m0 m"
  obtain s r where w: "wake_matching (sched m) P = (s, r)" by fastforce
  have "same_tasks (sched m) s \<and> current s = current (sched m)"
    using wake_each_tasks [of "sched m" "waiters (sched m) P"] w
    by (cases "wake_each (sched m) (waiters (sched m) P)"; cases "snd (wake_each (sched m) (waiters (sched m) P))")
      (auto simp: wake_matching_def Let_def)
  then show ?thesis
    using m w by (cases r) (auto simp: calm_def intro: same_tasks_trans)
qed

text \<open>A result is calm when its machine is.\<close>

definition calm_call :: "machine \<Rightarrow> 'a sys_result \<Rightarrow> bool" where
  "calm_call m r \<longleftrightarrow> calm m (fst r)"

lemma calm_callI [intro]: "calm m m' \<Longrightarrow> calm_call m (m', r)"
  by (simp add: calm_call_def)

lemma calm_and_then:
  "calm_call m x \<Longrightarrow> (\<And>m' v. calm m m' \<Longrightarrow> calm_call m (k m' v)) \<Longrightarrow> calm_call m (and_then x k)"
  by (cases "(x, k)" rule: and_then.cases) (auto simp: calm_call_def)

lemma calm_try_in: "calm m m' \<Longrightarrow> (\<And>v. calm_call m (k v)) \<Longrightarrow> calm_call m (try_in m' r k)"
  by (cases r) (auto simp: calm_call_def)

lemma calm_try:
  "calm m m' \<Longrightarrow> (\<And>v. calm_call m (j v)) \<Longrightarrow> calm_call m (try_desc m' r1 j)"
  "calm m m' \<Longrightarrow> (\<And>v. calm_call m (l v)) \<Longrightarrow> calm_call m (try_file m' r2 l)"
  unfolding try_desc_def try_file_def by (rule calm_try_in; assumption)+

lemma calm_with_active:
  "calm m0 m \<Longrightarrow> (\<And>p. om_lookup (contexts m) (active m) = Some p \<Longrightarrow> calm_call m0 (k p)) \<Longrightarrow> calm_call m0 (with_active m k)"
  by (auto simp: with_active_def calm_call_def split: option.split)

lemma calm_in:
  "calm m0 m \<Longrightarrow> calm_call m0 (in_descriptors m x)" "calm m0 m \<Longrightarrow> calm_call m0 (in_vfs m y)"
  "calm m0 m \<Longrightarrow> calm_call m0 (in_sched m (wake_matching (sched m) P))"
  by (cases x; cases y; auto simp: calm_call_def calm_wake)+

lemma calm_in_table:
  assumes "calm m0 m" "om_lookup (contexts m0) (active m0) = Some p"
  shows "calm_call m0 (in_table m p x)"
  using calm_set_active [OF assms, of "p\<lparr>fds := fst (fst x)\<rparr>"]
  by (cases x) (auto simp: in_table_def calm_call_def reserved_by_def)

lemma calm_charge: "charge m n = (m', c) \<Longrightarrow> calm m0 m' = calm m0 m" "reserve m n = (m', c) \<Longrightarrow> calm m0 m' = calm m0 m"
  by (auto simp: charge_def reserve_def split: prod.splits)

lemmas calm_intros = calm_and_then calm_try_in calm_try calm_with_active calm_in calm_in_table calm_callI

lemma calm_lock_waiters: "calm m0 m \<Longrightarrow> calm_call m0 (wake_lock_waiters m)"
  using calm_in(3) [of m0 "m\<lparr>descriptors := a\<rparr>" for a]
  by (auto simp: wake_lock_waiters_def wake_file_lock_waiters_def take_file_lock_changes_def Let_def)

lemma calm_release_closed [simp]: "calm m0 (release_closed_pipe_memory m) = calm m0 m"
proof -
  have "calm m0 (release_reservation q m) = calm m0 m" for q m
    by (auto simp: release_reservation_def split: option.split)
  then have "calm m0 (fold release_reservation qs m) = calm m0 m" for qs
    by (induction qs arbitrary: m) auto
  then show ?thesis by (simp add: release_closed_pipe_memory_def)
qed

lemma calm_endpoint: "calm m0 m \<Longrightarrow> calm_call m0 (wake_pipe_endpoint m e)"
  unfolding wake_pipe_endpoint_def
  by (rule calm_and_then) (auto intro: calm_lock_waiters calm_in simp: wake_waiters_matching split: option.split)

lemma calm_ancestors: "calm m0 m \<Longrightarrow> calm_call m0 (wake_ancestors n m pid)"
proof (induction n arbitrary: m pid)
  case (Suc n)
  then show ?case
    by (auto simp: wake_child_activity_waiters_def intro!: calm_and_then [OF calm_in(3)] split: option.split)
qed auto

lemma calm_read:
  "calm m0 m \<Longrightarrow> calm_call m0 (read_fd_at m f c n)" "calm m0 m \<Longrightarrow> calm_call m0 (device_quantum m d n)"
  "calm m0 m \<Longrightarrow> calm_call m0 (wake_after_read m pid d r)" "calm m0 m \<Longrightarrow> calm_call m0 (wake_after_write m pid d r')"
proof -
  assume m: "calm m0 m"
  show "calm_call m0 (read_fd_at m f c n)"
    unfolding read_fd_at_def using m
    by (intro calm_with_active calm_try) (auto intro: calm_in simp: Let_def split: option.split)
  show "calm_call m0 (device_quantum m d n)"
    unfolding device_quantum_def using m
    by (intro calm_try) (auto simp: Let_def calm_call_def calm_charge [of m "1" "fst (charge m 1)" "snd (charge m 1)"]
        split: prod.splits bool.splits dest: calm_charge(1))
  show "calm_call m0 (wake_after_read m pid d r)" "calm_call m0 (wake_after_write m pid d r')"
    unfolding wake_after_read_def wake_after_write_def wake_activity_def using m
    by (auto intro!: calm_try calm_and_then [OF calm_in(3)] calm_and_then [OF calm_ancestors] simp: wake_waiters_matching
        split: io_poll.split option.split bool.split)
qed

lemma calm_sys_read: "calm_call m (sys_read m f n)"
  unfolding sys_read_def
  by (intro calm_with_active calm_try calm_refl)
    (auto intro!: calm_and_then [OF calm_read(1)] calm_and_then [OF calm_read(2)] calm_and_then [OF calm_in(1)] calm_read(3) split: option.split)

lemma calm_metered:
  assumes "calm m0 m" "\<And>m1. calm m0 m1 \<Longrightarrow> calm_call m0 (k m1)"
  shows "calm_call m0 (case charge m n of (m1, False) \<Rightarrow> (m1, Err e) | (m1, True) \<Rightarrow> k m1)"
    "calm_call m0 (case reserve m n of (m1, False) \<Rightarrow> (m1, Err e) | (m1, True) \<Rightarrow> k m1)"
  using assms calm_charge [of m n] by (auto split: prod.split bool.split)

lemma calm_vfs_result:
  assumes "calm m0 m"
  shows "calm_call m0 (case (case orphan of Some i \<Rightarrow> x i | None \<Rightarrow> y) of
      (v, Ok _) \<Rightarrow> let m4 = release (m\<lparr>vfs := v\<rparr>) n in and_then (in_descriptors m4 (g m4)) (\<lambda>m _. (m, Ok w))
    | (v, Err e) \<Rightarrow> let m4 = release (m\<lparr>vfs := v\<rparr>) n; m5 = (if c then m4\<lparr>vfs := h m4\<rparr> else m4) in (m5, Err (SysFile e))
    | (v, Panic) \<Rightarrow> (m\<lparr>vfs := v\<rparr>, Panic))"
proof -
  obtain v r where "(case orphan of Some i \<Rightarrow> x i | None \<Rightarrow> y) = (v, r)" by fastforce
  then show ?thesis using assms by (cases r) (auto simp: Let_def intro!: calm_and_then calm_in calm_callI)
qed

lemma calm_if: "calm m0 m \<Longrightarrow> calm_call m0 x \<Longrightarrow> calm_call m0 (if c then (m, r) else x)"
  by (simp add: calm_callI)

lemma calm_write_file_at: "calm m0 m \<Longrightarrow> calm_call m0 (write_file_at m d fl bs aliased)"
  unfolding write_file_at_def Let_def [of "sync_vfs_time m2" for m2]
  by (rule calm_if, assumption, rule calm_try_in, assumption, rule calm_try(2), assumption, rule calm_metered(1), assumption,
      rule calm_metered(2), assumption, rule calm_vfs_result) simp

lemma calm_sys_write: "calm_call m (sys_write m f bs aliased)"
  unfolding sys_write_def
  by (intro calm_with_active calm_try calm_refl)
    (auto intro!: calm_write_file_at calm_and_then [OF calm_in(1)] calm_read(4) split: option.split)

lemma calm_sys_close: "calm_call m (sys_close m f)"
  unfolding sys_close_def
  by (intro calm_with_active calm_try calm_and_then [OF calm_in_table] calm_and_then [OF calm_endpoint] calm_refl) auto

lemma calm_sys_duplicate: "calm_call m (sys_duplicate m f g)"
  unfolding sys_duplicate_def Let_def
  by (intro calm_with_active calm_try calm_and_then [OF calm_in_table] calm_and_then [OF calm_endpoint] calm_refl) auto

lemma calm_sys_file_lock: "calm_call m (sys_file_lock m f l)"
  unfolding sys_file_lock_def file_lock_inode_def
  by (intro calm_metered calm_with_active calm_try calm_and_then calm_refl calm_in calm_lock_waiters calm_callI) auto

lemma calm_sys_seek: "calm_call m (sys_seek m f delta whence)"
  unfolding sys_seek_def sys_file_state_def
  by (auto intro!: calm_with_active calm_try calm_try_in calm_and_then calm_in calm_callI simp: Let_def split: option.split)

lemma calm_sys_resize: "calm_call m (sys_resize_file m f n aliased)"
  unfolding sys_resize_file_def sys_file_state_def Let_def
  by (rule calm_and_then)
    (auto intro!: calm_with_active calm_try calm_metered calm_callI split: option.split prod.split outcome.split)

lemma calm_sys_unlink: "calm_call m (sys_unlink m cwd path)"
  unfolding sys_unlink_def Let_def
  by (auto intro!: calm_try calm_in calm_and_then calm_callI)

lemma install_end_calm:
  assumes "install_end m p ce nb f d = ((m', p'), r)"
  shows "calm m0 m' = calm m0 m" "se_pid p' = se_pid p" "reserved_by p' = reserved_by p"
  using assms by (auto simp: install_end_def reserved_by_def split: prod.splits outcome.splits)

lemma calm_sys_pipe: "calm_call m (sys_pipe m ce nb)"
proof -
  have ends: "calm m (set_active m5 p')"
    if "calm m m4" "om_lookup (contexts m) (active m) = Some p"
      "and_then (install_end m4 p ce nb f i) (\<lambda>(m, p) _. install_end m p ce nb g j) = ((m5, p'), r)" for m4 p f i g j m5 p' r
  proof -
    have "calm m m5 \<and> se_pid p' = se_pid p \<and> reserved_by p' = reserved_by p"
      using that(1,3) install_end_calm
      by (cases "install_end m4 p ce nb f i"; cases "snd (install_end m4 p ce nb f i)") (force split: prod.splits)+
    then show ?thesis using calm_set_active [OF _ that(2)] by blast
  qed
  have opened: "calm_call m (case open_pipe (descriptors m2) DEFAULT_PIPE_CAPACITY of
               (a, Ok (reader, writer)) \<Rightarrow> try_desc (m2\<lparr>descriptors := a\<rparr>) (pipe_endpoint a reader) (\<lambda>e. case e of
                       None \<Rightarrow> (m2\<lparr>descriptors := a\<rparr>, Panic)
                     | Some (q, _) \<Rightarrow>
                         (case and_then (install_end (m2\<lparr>descriptors := a, pipe_reservations := om_insert q PIPE_RESERVATION (pipe_reservations m2)\<rparr>) p ce nb f reader)
                               (\<lambda>(m, p) _. install_end m p ce nb g writer) of
                               ((m5, p'), Ok _) \<Rightarrow> (refresh_descriptor_snapshot (set_active m5 p') (se_pid p), Ok (f, g))
                             | ((m5, p'), Err e) \<Rightarrow> (set_active m5 p', Err e)
                             | ((m5, p'), Panic) \<Rightarrow> (set_active m5 p', Panic)))
             | (a, Err e) \<Rightarrow> (release (m2\<lparr>descriptors := a\<rparr>) PIPE_RESERVATION, Err (SysDescriptor e))
             | (a, Panic) \<Rightarrow> (m2\<lparr>descriptors := a\<rparr>, Panic))"
    if "calm m m2" "om_lookup (contexts m) (active m) = Some p" for m2 p f g
    using that by (auto intro!: calm_try calm_callI calm_processes elim!: ends [rotated 2] split: prod.split outcome.split option.split)
  show ?thesis
    unfolding sys_pipe_def Let_def
    by (rule calm_with_active [OF calm_refl]) (auto intro!: calm_metered calm_callI opened split: list.split)
qed

text \<open>A call that is calm and keeps the references, waits and reservations keeps the machine.\<close>

lemma calm_machine_ok:
  assumes ok: "machine_ok X b m" and calm: "calm m m'" and k: "kernel_ok X (b + ctx_bytes (contexts m)) m'"
  shows "machine_ok X b m'"
proof -
  have like: "map_option (\<lambda>p. (se_pid p, reserved_by p)) (om_lookup (contexts m') t)
      = map_option (\<lambda>p. (se_pid p, reserved_by p)) (om_lookup (contexts m) t)" for t
    using calm by (simp add: calm_def contexts_like_def)
  have "map_option reserved_by (om_lookup (contexts m') t) = map_option reserved_by (om_lookup (contexts m) t)" for t
    using like [of t] by (cases "om_lookup (contexts m) t"; cases "om_lookup (contexts m') t") simp_all
  then have bytes: "ctx_bytes (contexts m') = ctx_bytes (contexts m)"
    unfolding ctx_bytes_def by (rule om_weight_alike)
  have dom: "(om_lookup (contexts m') t \<noteq> None) = (om_lookup (contexts m) t \<noteq> None)" for t
    using like [of t] by (cases "om_lookup (contexts m) t"; cases "om_lookup (contexts m') t") simp_all
  have "processes_agree m'"
    unfolding processes_agree_def
  proof (intro conjI allI impI)
    show "pt_inv (processes m')" using calm machine_okD(2) [OF ok] by (simp add: calm_def)
    show "proc (processes m') t \<noteq> None" if "task (sched m') t \<noteq> None" for t
    proof -
      have "proc (processes m) t \<noteq> None" using that calm machine_okD(3) [OF ok, of t] by (simp add: calm_def same_tasks_def del: not_None_eq)
      moreover have "map_option (\<lambda>r. exited (pr_status r)) (proc (processes m') t) = map_option (\<lambda>r. exited (pr_status r)) (proc (processes m) t)"
        using calm by (simp add: calm_def same_exits_def)
      ultimately show ?thesis by (cases "proc (processes m') t") auto
    qed
    show "(om_lookup (contexts m') t \<noteq> None) = live_task (task (sched m') t)" for t
      using calm machine_okD(4) [OF ok, of t] dom [of t] by (simp add: calm_def same_tasks_def)
    show "se_pid p = t" if "om_lookup (contexts m') t = Some p" for t p
      using that like [of t] machine_okD(5) [OF ok, of t] by (cases "om_lookup (contexts m) t") auto
  qed
  then show ?thesis
    using k bytes calm machine_okD(6) [OF ok] by (simp add: machine_ok_def calm_def)
qed

end
