(* ===== verification/Machine_Steps.thy ===== *)
theory Machine_Steps
  imports Machine_Calls
begin

text \<open>
  The machine as a state machine. A step is a call of the process that has the processor (those that \<open>call\<close>
  lists), memory that a program reserves or gives back, the end of the process, its waiting or giving way, a
  signal or a timed event from outside, or the dispatch of the next task; these are the things that
  \<open>poll_machine\<close> of \<open>src/src/exec.rs\<close> and the programs it drives do to the kernel. Not among the steps are opening by
  path, \<open>exec\<close>, redirection scopes, \<open>cancel_unstarted_child\<close>, the calls on the network and, other than their
  use of the meter, on the display. The invariant holds in every machine that is reached from the booted one.
\<close>

section \<open>The invariant between steps\<close>

text \<open>An exited process has no task that could still run.\<close>

definition zombies_ok :: "machine \<Rightarrow> bool" where
  "zombies_ok m \<longleftrightarrow> (\<forall>t r. proc (processes m) t = Some r \<longrightarrow> exited (pr_status r) \<longrightarrow> \<not> live_task (task (sched m) t))"

definition life_ok :: "(description_id \<Rightarrow> nat) \<Rightarrow> nat \<Rightarrow> machine \<Rightarrow> bool" where
  "life_ok X b m \<longleftrightarrow> machine_ok X b m \<and> at_rest m \<and> zombies_ok m"

lemma zombies_exits:
  assumes "zombies_ok m" "exits_only S (processes m) (processes m')"
    "\<And>t. live_task (task (sched m') t) \<Longrightarrow> t \<notin> S \<and> (live_task (task (sched m) t) \<or> proc (processes m) t = None)"
  shows "zombies_ok m'"
  using assms unfolding zombies_ok_def exits_only_def by (metis option.distinct(1))

lemma zombies_same:
  assumes "zombies_ok m" "same_exits (processes m) (processes m')" "same_tasks (sched m) (sched m')"
  shows "zombies_ok m'"
  by (rule zombies_exits [OF assms(1) exits_only_same [OF assms(2), of "{}"]]) (use assms(3) in \<open>simp add: same_tasks_def\<close>)

lemma keeps_machine_life: "keeps_machine X b m r \<Longrightarrow> life_ok X b m \<Longrightarrow> life_ok X b (fst r)"
  using keeps_at_rest zombies_same by (fastforce simp: life_ok_def keeps_machine_def)

lemma calm_life:
  assumes "life_ok X b m" "calm_call m r" "keeps X (b + ctx_bytes (contexts m)) r" "snd r \<noteq> Panic"
  shows "life_ok X b (fst r)"
proof -
  have "machine_ok X b (fst r)"
    using assms calm_machine_ok [of X b m "fst r"] by (simp add: life_ok_def calm_call_def keeps_def)
  moreover have "at_rest (fst r)" "zombies_ok (fst r)"
    using assms(1,2) zombies_same [of m "fst r"] by (auto simp: life_ok_def calm_call_def calm_def at_rest_def running_def)
  ultimately show ?thesis by (simp add: life_ok_def)
qed

section \<open>Calls of a process\<close>

text \<open>Each call of the running process; what it returns to the program does not matter here.\<close>

datatype call =
    Read fd nat | Write fd bytes bool | Close fd | Duplicate fd fd | Pipe bool bool | FileLock fd "file_lock_mode option"
  | Seek fd int u32 | ResizeFile fd nat bool | Unlink string string | Chmod string string u32 | Mkdir string string
  | MkdirAll string string | Rmdir string string | Rename string string string | WriteFile string string bytes u32
  | CopyFile string string string | CopyRecursive string string string bool | Symlink string string string
  | Chown string string "u32 option" "u32 option" | Touch string string u64
  | RandomFill nat | ScheduleWake u64 | SetUmask "16 word" | ProcessSnapshot | Kill signal_target signal
  | SignalDisposition signal bool | ChildStatus process_id | ChildCompletion process_id | ReapChild process_id
  | ConfigureProcess process_id "string option" "(string, string) omap option"
  | CreateChild layout string bool bool bool child_placement
  | TakeSignal | TakeTermination | FinishHandler | StopSelf signal | Foreground process_id
  | ReleaseExpansion | SyncMemory | ReleaseExec | NewJob process_id string
  | ChargeCpu bool u64 | ChargeOutput u64 | ChargeExpansion bool u64 | AllocateTempId

definition no_value :: "'a sys_result \<Rightarrow> unit sys_result" where
  "no_value r = map_ok (\<lambda>_. ()) r"

fun run_call :: "machine \<Rightarrow> call \<Rightarrow> unit sys_result" where
  "run_call m (Read f n) = no_value (sys_read m f n)"
| "run_call m (Write f bs aliased) = no_value (sys_write m f bs aliased)"
| "run_call m (Close f) = sys_close m f"
| "run_call m (Duplicate f g) = sys_duplicate m f g"
| "run_call m (Pipe ce nb) = no_value (sys_pipe m ce nb)"
| "run_call m (FileLock f l) = no_value (sys_file_lock m f l)"
| "run_call m (Seek f d w) = no_value (sys_seek m f d w)"
| "run_call m (ResizeFile f n aliased) = sys_resize_file m f n aliased"
| "run_call m (Unlink cwd path) = sys_unlink m cwd path"
| "run_call m (Chmod cwd path md) = sys_chmod m cwd path md"
| "run_call m (Mkdir cwd path) = sys_mkdir m cwd path"
| "run_call m (MkdirAll cwd path) = sys_mkdir_all m cwd path"
| "run_call m (Rmdir cwd path) = sys_rmdir m cwd path"
| "run_call m (Rename cwd src dst) = sys_rename m cwd src dst"
| "run_call m (WriteFile cwd path bs md) = sys_write_file m cwd path bs md"
| "run_call m (CopyFile cwd src dst) = sys_copy_file m cwd src dst"
| "run_call m (CopyRecursive cwd src dst pr) = sys_copy_recursive m cwd src dst pr"
| "run_call m (Symlink cwd target link) = sys_symlink m cwd target link"
| "run_call m (Chown cwd path u g) = sys_chown m cwd path u g"
| "run_call m (Touch cwd path t) = sys_touch m cwd path t"
| "run_call m (RandomFill n) = no_value (sys_random_fill m n)"
| "run_call m (ScheduleWake d) = no_value (sys_schedule_wake m d)"
| "run_call m (SetUmask perms) = sys_set_umask m perms"
| "run_call m ProcessSnapshot = no_value (sys_process_snapshot m)"
| "run_call m (Kill target sig) = sys_kill m target sig"
| "run_call m (SignalDisposition sig ignore) = sys_signal_disposition m sig ignore"
| "run_call m (ChildStatus pid) = no_value (sys_child_status m pid)"
| "run_call m (ChildCompletion pid) = no_value (sys_child_completion m pid)"
| "run_call m (ReapChild pid) = no_value (sys_reap_child m pid)"
| "run_call m (ConfigureProcess pid cwd env) = configure_process m pid cwd env"
| "run_call m (CreateChild l command ns fg det pl) = no_value (create_child l m command ns fg det pl)"
| "run_call m TakeSignal = no_value (take_signal_delivery m)"
| "run_call m TakeTermination = no_value (take_default_termination m)"
| "run_call m FinishHandler = finish_signal_handler m"
| "run_call m (StopSelf sig) = stop_active_process m sig"
| "run_call m (Foreground grp) = set_terminal_foreground m grp"
| "run_call m ReleaseExpansion = release_expansion_memory m"
| "run_call m SyncMemory = no_value (sync_shell_memory m)"
| "run_call m ReleaseExec = release_exec_metadata m"
| "run_call m (NewJob pid command) = no_value (new_job m pid command)"
| "run_call m (ChargeCpu interrupted n) = no_value (sys_charge_cpu m interrupted n)"
| "run_call m (ChargeOutput n) = no_value (sys_charge_output m n)"
| "run_call m (ChargeExpansion interrupted n) = no_value (charge_expansion m interrupted n)"
| "run_call m AllocateTempId = no_value (sys_allocate_temp_id m)"

lemma no_value_simps [simp]: "fst (no_value r) = fst r" "snd (no_value r) = Panic \<longleftrightarrow> snd r = Panic"
  by (cases r; cases "snd r"; simp add: no_value_def)+

text \<open>The calls on descriptors and files.\<close>

lemma keeps_no_value [simp]: "keeps X b (no_value r) = keeps X b r"
  by (simp add: keeps_def)

lemma calm_no_value [simp]: "calm_call m (no_value r) = calm_call m r"
  by (simp add: calm_call_def)

lemma calm_file_calls:
  "calm_call m (sys_chmod m cwd path md)" "calm_call m (sys_mkdir m cwd path)" "calm_call m (sys_mkdir_all m cwd path)"
  "calm_call m (sys_rmdir m cwd path)" "calm_call m (sys_rename m cwd path path')" "calm_call m (sys_write_file m cwd path bs md)"
  "calm_call m (sys_copy_file m cwd path path')" "calm_call m (sys_copy_recursive m cwd path path' pr)"
  "calm_call m (sys_symlink m cwd path path')" "calm_call m (sys_chown m cwd path u g)" "calm_call m (sys_touch m cwd path t)"
  by (auto simp: sys_chmod_def sys_mkdir_def sys_mkdir_all_def sys_rmdir_def sys_rename_def sys_write_file_def sys_copy_file_def
      sys_copy_recursive_def sys_symlink_def sys_chown_def sys_touch_def Let_def
      intro!: calm_with_active calm_and_then calm_in calm_callI)

lemmas calm_calls = calm_sys_read calm_sys_write calm_sys_close calm_sys_duplicate calm_sys_pipe calm_sys_file_lock calm_sys_seek
  calm_sys_resize calm_sys_unlink calm_file_calls

lemma sys_pipe_keeps:
  assumes "kernel_ok X b m" "om_lookup (contexts m) (active m) = Some p"
  shows "keeps X b (sys_pipe m ce nb)"
  using assms by (cases rule: sys_pipe_cases [OF assms, of ce nb]) (auto simp: keeps_def)

text \<open>The calls on processes.\<close>

lemma random_fill_ok:
  assumes ok: "machine_ok X b m" and run: "running m"
  shows "keeps_machine X b m (sys_random_fill m n)"
proof -
  obtain m1 c where m1: "charge m (if n < 2 ^ 64 then of_nat n else u64_max) = (m1, c)" by fastforce
  have calm: "calm m m1" using calm_charge(1) [OF m1, of m] by simp
  have frame: "processes m1 = processes m" "sched m1 = sched m" "active m1 = active m" "contexts m1 = contexts m"
    using m1 by (auto simp: charge_def split: prod.splits)
  have ok1: "machine_ok X b m1"
    by (rule calm_machine_ok [OF ok calm charge_ok [OF m1 machine_okD(1) [OF ok]]])
  have "keeps_machine X b m (with_active m1 (\<lambda>p. case fill_virtual_random p n of (p', bs) \<Rightarrow> (set_active m1 p', Ok bs)))"
  proof (rule with_active_running [OF ok1])
    show "running m1" using run frame by (simp add: running_def)
    fix p assume p: "om_lookup (contexts m1) (active m1) = Some p"
    have "alike p (fst (fill_virtual_random p n))"
      by (simp add: fill_virtual_random_def alike_def reserved_by_def split: prod.split)
    from set_active_ok [OF ok1 p this]
    show "keeps_machine X b m (case fill_virtual_random p n of (p', bs) \<Rightarrow> (set_active m1 p', Ok bs))"
      by (auto intro!: keeps_running simp: frame split: prod.split)
  qed
  moreover have "keeps_machine X b m (m1, Err ResourceExhausted)"
    using ok1 frame by (intro keeps_machineI) simp_all
  ultimately show ?thesis
    using m1 by (cases c) (simp_all add: sys_random_fill_def)
qed

lemma schedule_wake_ok:
  assumes ok: "machine_ok X b m" and run: "running m"
  shows "keeps_machine X b m (sys_schedule_wake m d)"
  unfolding sys_schedule_wake_def
proof (rule with_active_running [OF assms])
  fix p
  obtain c r where s: "schedule_wake_after (clock m) (ucast (se_pid p)) d = (c, r)" by fastforce
  have "machine_ok X b (m\<lparr>clock := c\<rparr>)" "r \<noteq> Panic"
    using schedule_wake_after_props(2,3) [OF s] machine_ok_clock [OF ok] machine_okD(6) [OF ok] by simp_all
  then show "keeps_machine X b m (case schedule_wake_after (clock m) (ucast (se_pid p)) d of
       (c, Ok ev) \<Rightarrow> (m\<lparr>clock := c\<rparr>, Ok (deadline_ns ev)) | (c, Err _) \<Rightarrow> (m\<lparr>clock := c\<rparr>, Err InvalidArgument)
     | (c, Panic) \<Rightarrow> (m\<lparr>clock := c\<rparr>, Panic))"
    using s by (cases r) (auto intro!: keeps_machineI)
qed

lemma set_umask_ok:
  assumes "machine_ok X b m" "running m"
  shows "keeps_machine X b m (sys_set_umask m perms)" "keeps_machine X b m (sys_signal_disposition m sig ignore)"
proof -
  have upd: "keeps_machine X b m (with_active m (\<lambda>p. (set_active m (f p), Ok ())))" if "\<And>p. alike p (f p)" for f
    by (rule with_active_running [OF assms]) (auto intro!: keeps_running set_active_ok [OF assms(1)] that)
  show "keeps_machine X b m (sys_set_umask m perms)"
    using upd assms(1) by (auto simp: sys_set_umask_def alike_def reserved_by_def keeps_machine_same)
  show "keeps_machine X b m (sys_signal_disposition m sig ignore)"
    using upd assms(1) by (auto simp: sys_signal_disposition_def sys_ignore_signal_def alike_def reserved_by_def keeps_machine_same)
qed

lemma process_snapshot_ok:
  assumes ok: "machine_ok X b m" and run: "running m"
  shows "keeps_machine X b m (sys_process_snapshot m)"
  unfolding sys_process_snapshot_def Let_def
proof (rule with_active_running [OF assms])
  fix p
  have "machine_ok X b (m\<lparr>processes := update_current (processes m) (se_pid p) (se_cwd p) (exported_env p)\<rparr>)"
    unfolding update_current_def by (rule machine_ok_record [OF ok]) simp
  then show "keeps_machine X b m (m\<lparr>processes := update_current (processes m) (se_pid p) (se_cwd p) (exported_env p)\<rparr>,
      Ok (om_values (records (update_current (processes m) (se_pid p) (se_cwd p) (exported_env p)))))"
    by (rule keeps_machineI) simp_all
qed

lemma kill_ok:
  assumes "machine_ok X b m"
  shows "keeps_machine X b m (sys_kill m target sig)"
proof -
  have other_error: "keeps_machine X b m (case r of (m', Err _) \<Rightarrow> (m', Err e) | r \<Rightarrow> r)" if "keeps_machine X b m r"
    for r :: "unit sys_result" and e
    using that by (cases r; cases "snd r") (auto simp: keeps_machine_def)
  show ?thesis
    unfolding sys_kill_def
    by (rule other_error) (auto intro: send_signal_ok assms signal_calls_ok split: signal_target.split)
qed

lemma child_status_same: "fst (sys_child_status m pid) = m"
  by (auto simp: sys_child_status_def with_active_def split: option.split)

lemma child_status_ok:
  assumes "machine_ok X b m" "running m"
  shows "keeps_machine X b m (sys_child_status m pid)" "keeps_machine X b m (sys_child_completion m pid)"
proof -
  show s: "keeps_machine X b m (sys_child_status m pid)"
    using assms(1)
    by (auto simp: sys_child_status_def intro!: keeps_machine_same with_active_running [where Q = "keeps_machine X b m", OF assms]
        split: option.split)
  show "keeps_machine X b m (sys_child_completion m pid)"
    unfolding sys_child_completion_def by (rule keeps_machine_and_then [OF s]) (rule keeps_machine_same)
qed

text \<open>A child that has exited leaves both tables.\<close>

lemma reap_both_life:
  assumes ok: "life_ok X b m" and gone: "\<not> live_task (task (sched m) pid)"
  shows "life_ok X b (reap_both m pid)"
proof -
  have m: "machine_ok X b m" using ok by (simp add: life_ok_def)
  have mok: "machine_ok X b (reap_both m pid)"
  proof (cases "task (sched m) pid")
    case None
    then have s: "fst (reap_task (sched m) pid) = sched m" by (simp add: reap_task_def)
    have "proc (fst (reap_process (processes m) pid)) q \<noteq> None" if "task (sched m) q \<noteq> None" for q
      using that None machine_okD(3) [OF m, of q]
      by (auto simp: reap_process_def om_lookup_remove split: option.splits if_splits)
    moreover have "reap_both m pid = m\<lparr>processes := fst (reap_process (processes m) pid)\<rparr>"
      by (simp add: reap_both_def s)
    ultimately show ?thesis
      using m reap_process_inv [OF machine_okD(2) [OF m], of pid] unfolding machine_ok_def processes_agree_def
      by (simp del: not_None_eq)
  next
    case (Some t)
    then obtain st where "task (sched m) pid = Some (Exited st)" using gone by (cases t) auto
    then show ?thesis unfolding reap_both_def by (rule reap_both_ok [OF m])
  qed
  have tasks: "task (fst (reap_task (sched m) pid)) t = (if t = pid \<and> (\<exists>st. task (sched m) pid = Some (Exited st)) then None else task (sched m) t)" for t
    by (auto simp: reap_task_def om_lookup_remove split: option.splits task_state.splits)
  moreover have "zombies_ok (reap_both m pid)"
    by (rule zombies_exits [of m "{}"]) (use ok tasks in \<open>simp_all add: life_ok_def reap_both_def split: if_splits\<close>)
  moreover note mok
  moreover have "current (fst (reap_task (sched m) pid)) = current (sched m)"
    by (auto simp: reap_task_def split: option.splits task_state.splits)
  then have "at_rest (reap_both m pid)" using ok by (simp add: life_ok_def reap_both_def at_rest_def running_def)
  ultimately show ?thesis by (simp add: life_ok_def)
qed

lemma reap_child_life:
  assumes ok: "life_ok X b m" and run: "running m"
  shows "life_ok X b (fst (sys_reap_child m pid))" "snd (sys_reap_child m pid) \<noteq> Panic"
proof -
  have m: "machine_ok X b m" using ok by (simp add: life_ok_def)
  obtain r where r: "sys_child_status m pid = (m, r)" using child_status_same [of m pid] by (cases "sys_child_status m pid") simp
  have safe: "r \<noteq> Panic" using child_status_ok(1) [OF m run, of pid] r by (simp add: keeps_machine_def)
  have "\<not> live_task (task (sched m) pid)" if st: "r = Ok (Some st)" for st
  proof -
    obtain rec where rec: "proc (processes m) pid = Some rec" using r st by (cases "proc (processes m) pid") (auto simp: sys_child_status_def)
    then have "exited (pr_status rec)"
      using r st by (cases "pr_status rec") (auto simp: sys_child_status_def with_active_def split: option.splits if_splits)
    then show ?thesis using ok rec by (simp add: life_ok_def zombies_ok_def)
  qed
  then show "life_ok X b (fst (sys_reap_child m pid))" "snd (sys_reap_child m pid) \<noteq> Panic"
    using r ok safe reap_both_life [OF ok] by (cases r; auto simp: sys_reap_child_def split: option.split)+
qed

lemma configure_process_ok:
  assumes ok: "machine_ok X b m"
  shows "keeps_machine X b m (configure_process m pid cwd env)"
proof (cases "om_lookup (contexts m) pid")
  case (Some p)
  have env_alike: "alike p (set_environment es p)" for es p
  proof -
    have "alike p (fold (\<lambda>(name, v) p. p\<lparr>se_vars := fst (v_insert name v (se_vars p)), se_exported := insert name (se_exported p)\<rparr>) es p)" for p
      by (induction es arbitrary: p) (auto simp: alike_def reserved_by_def)
    from this [of "p\<lparr>se_vars := v_clear (se_vars p), se_arrays := a_clear (se_arrays p), se_exported := {}\<rparr>"]
    show ?thesis by (simp add: set_environment_def Let_def alike_def reserved_by_def)
  qed
  define q where "q = (case env of None \<Rightarrow> (case cwd of None \<Rightarrow> p | Some d \<Rightarrow> set_directory d p)
    | Some e \<Rightarrow> set_environment (om_entries e) (case cwd of None \<Rightarrow> p | Some d \<Rightarrow> set_directory d p))"
  have "alike p (case cwd of None \<Rightarrow> p | Some d \<Rightarrow> set_directory d p)"
    by (auto simp: set_directory_def alike_def reserved_by_def split: option.split)
  then have "alike p q" using alike_trans [OF _ env_alike] by (auto simp: q_def split: option.split)
  then have "machine_ok X b (m\<lparr>contexts := om_insert pid q (contexts m)\<rparr>)"
    by (intro machine_ok_contexts [OF ok] contexts_alike_insert [OF Some])
  from machine_ok_record [OF this, where pid = pid and f = "\<lambda>r. r\<lparr>pr_cwd := se_cwd q, pr_environment := exported_env q\<rparr>"]
  have "machine_ok X b (m\<lparr>contexts := om_insert pid q (contexts m), processes := update_current (processes m) pid (se_cwd q) (exported_env q)\<rparr>)"
    by (simp add: update_current_def)
  moreover have "configure_process m pid cwd env
      = (m\<lparr>contexts := om_insert pid q (contexts m), processes := update_current (processes m) pid (se_cwd q) (exported_env q)\<rparr>, Ok ())"
    by (simp add: configure_process_def Some Let_def q_def split: option.split)
  ultimately show ?thesis by (simp add: keeps_machineI)
qed (use ok in \<open>simp add: configure_process_def keeps_machine_same\<close>)

text \<open>The meter.\<close>

lemma meter_calls_ok:
  assumes ok: "machine_ok X b m"
  shows "keeps_machine X b m (sys_charge_cpu m interrupted n)" "keeps_machine X b m (sys_charge_output m n)"
    "keeps_machine X b m (sys_allocate_temp_id m)"
proof -
  obtain m1 c where c: "charge m n = (m1, c)" by fastforce
  have frame: "processes m1 = processes m" "sched m1 = sched m" "active m1 = active m" "contexts m1 = contexts m" "clock m1 = clock m"
    using c by (auto simp: charge_def split: prod.splits)
  have "machine_ok X b m1"
    by (rule machine_ok_same [OF ok charge_ok [OF c machine_okD(1) [OF ok]]]) (simp_all add: frame)
  then show "keeps_machine X b m (sys_charge_cpu m interrupted n)"
    using ok frame c by (auto simp: sys_charge_cpu_def keeps_machine_same intro!: keeps_machineI)
  obtain r g where r: "charge_output (resources m) n = (r, g)" by fastforce
  then have "memory_current r = memory_current (resources m)"
    by (auto simp: charge_output_def split: if_splits option.splits)
  then have "machine_ok X b (m\<lparr>resources := r\<rparr>)"
    using machine_okD(1) [OF ok]
    by (intro machine_ok_same [OF ok])
      (simp_all add: kernel_ok_def kernel_but_def tables_ok_def memory_ok_def reserved_pipes_open_def)
  then show "keeps_machine X b m (sys_charge_output m n)"
    using r by (auto simp: sys_charge_output_def intro!: keeps_machineI)
  have "machine_ok X b (m\<lparr>next_temp := k\<rparr>)" for k
    using ok by (simp add: machine_ok_def processes_agree_def kernel_ok_def kernel_but_def tables_ok_def memory_ok_def
        reserved_pipes_open_def)
  then show "keeps_machine X b m (sys_allocate_temp_id m)"
    using ok by (auto simp: sys_allocate_temp_id_def next_temp_id_def keeps_machine_same intro!: keeps_machineI split: option.split)
qed

lemma charge_expansion_ok:
  assumes ok: "machine_ok X b m" and run: "running m"
  shows "keeps_machine X b m (charge_expansion m interrupted n)"
proof -
  have "keeps_machine X b m (case reserve m n of (m1, False) \<Rightarrow> (m1, Ok False)
     | (m1, True) \<Rightarrow> (set_active m1 (p\<lparr>expansion_reserved := saturating_add (expansion_reserved p) n\<rparr>), Ok True))"
    if p: "om_lookup (contexts m) (active m) = Some p" for p
  proof -
    let ?q = "p\<lparr>expansion_reserved := saturating_add (expansion_reserved p) n\<rparr>"
    obtain m1 c where r: "reserve m n = (m1, c)" by fastforce
    have "unat (memory_current (resources m)) + unat n < 2 ^ 64" if c
      using r that by (auto simp: reserve_def reserve_memory_def checked_add_def split: if_splits option.splits)
    then have "reserved_by ?q = reserved_by p + unat n" if c
      using that reserved_le [OF ok p] by (simp add: reserved_by_def rust_arith)
    then have "keeps_machine X b m (if c then (set_active m1 ?q, Ok True) else (m1, Ok False))"
      by (intro reserve_context_ok [OF ok p r]) simp_all
    then show ?thesis using r by (cases c) simp_all
  qed
  then have "keeps_machine X b m (with_active m (\<lambda>p. case reserve m n of (m1, False) \<Rightarrow> (m1, Ok False)
     | (m1, True) \<Rightarrow> (set_active m1 (p\<lparr>expansion_reserved := saturating_add (expansion_reserved p) n\<rparr>), Ok True)))"
    by (rule with_active_running [OF ok run])
  then show ?thesis using ok by (simp add: charge_expansion_def keeps_machine_same)
qed

text \<open>What a program reserves for itself is in use until it gives it back.\<close>

lemma reserve_life:
  assumes ok: "life_ok X b m" and r: "sys_reserve_memory m n = (m', Ok granted)"
  shows "life_ok X (if granted then b + unat n else b) m'"
proof -
  have m: "machine_ok X b m" using ok by (simp add: life_ok_def)
  note k = machine_okD(1) [OF m]
  have r': "reserve m n = (m', granted)" using r by (auto simp: sys_reserve_memory_def split: prod.splits)
  have frame: "m' = m\<lparr>resources := resources m'\<rparr>" by (rule meter_frame(1) [OF r'])
  let ?b = "if granted then b + unat n else b"
  have "kernel_ok X (?b + ctx_bytes (contexts m)) m'"
    using reserve_granted(1) [OF _ k, of n m'] reserve_refused [OF _ k, of n m'] r' by (cases granted) (simp_all add: ac_simps)
  moreover have "contexts m' = contexts m" by (subst frame) simp
  moreover have "processes_agree m'" "tl_inv (clock m')"
    using m by (subst frame, simp add: machine_ok_def processes_agree_def)+
  moreover have "at_rest m'" "zombies_ok m'"
    using ok by (subst frame, simp add: life_ok_def at_rest_def running_def zombies_ok_def)+
  ultimately show ?thesis unfolding life_ok_def machine_ok_def by simp
qed

lemma release_life:
  assumes ok: "life_ok X b m" and n: "unat n \<le> b"
  shows "life_ok X (b - unat n) (release m n)"
proof -
  have m: "machine_ok X b m" using ok by (simp add: life_ok_def)
  have "kernel_ok X ((b - unat n + ctx_bytes (contexts m)) + unat n) m" using machine_okD(1) [OF m] n by simp
  then have "kernel_ok X (b - unat n + ctx_bytes (contexts m)) (release m n)" by (rule release_ok)
  then show ?thesis using ok m
    by (simp add: life_ok_def machine_ok_def processes_agree_def at_rest_def running_def zombies_ok_def release_in)
qed

lemma create_child_life:
  assumes ok: "life_ok X b m" and run: "running m"
  shows "life_ok X b (fst (create_child l m command ns fg det pl))" "snd (create_child l m command ns fg det pl) \<noteq> Panic"
proof -
  have m: "machine_ok X b m" "zombies_ok m" using ok by (simp_all add: life_ok_def)
  obtain m' r where c: "create_child l m command ns fg det pl = (m', r)" by fastforce
  have cc: "case (m', r) of
      (m', Ok pid) \<Rightarrow> machine_ok X b m' \<and> running m' \<and> om_lookup (contexts m) pid = None \<and> exits_only {} (processes m) (processes m')
        \<and> one_more pid (sched m) (sched m') \<and> proc (processes m) pid = None
    | (m', Err e) \<Rightarrow> machine_ok X b m' \<and> running m' \<and> contexts m' = contexts m \<and> sched m' = sched m
        \<and> exits_only {} (processes m) (processes m')
    | (m', Panic) \<Rightarrow> False"
    unfolding c [symmetric] by (rule create_child_ok [OF m(1) run])
  have "life_ok X b m' \<and> r \<noteq> Panic"
  proof (cases r)
    case (Ok pid)
    then have k: "machine_ok X b m'" "running m'" "exits_only {} (processes m) (processes m')" "one_more pid (sched m) (sched m')"
        "proc (processes m) pid = None"
      using cc by simp_all
    have "live_task (task (sched m') t) = (t = pid \<or> live_task (task (sched m) t))" for t
      using k(4) unfolding one_more_def by blast
    then have "zombies_ok m'"
      using k(5) by (intro zombies_exits [OF m(2) k(3)]) auto
    then show ?thesis using k(1,2) Ok by (simp add: life_ok_def at_rest_def)
  next
    case (Err e)
    then have k: "machine_ok X b m'" "running m'" "exits_only {} (processes m) (processes m')" "sched m' = sched m"
      using cc by simp_all
    have "zombies_ok m'" by (rule zombies_exits [OF m(2) k(3)]) (simp add: k(4))
    then show ?thesis using k(1,2) Err by (simp add: life_ok_def at_rest_def)
  qed (use cc in simp)
  then show "life_ok X b (fst (create_child l m command ns fg det pl))" "snd (create_child l m command ns fg det pl) \<noteq> Panic"
    using c by simp_all
qed

lemma finish_child_life:
  assumes ok: "life_ok X b m" and run: "running m"
  shows "life_ok X b (fst (finish_child m (active m) st))" "snd (finish_child m (active m) st) = Ok ()"
proof -
  have m: "machine_ok X b m" "zombies_ok m" using ok by (simp_all add: life_ok_def)
  obtain m' where f: "finish_child m (active m) st = (m', Ok ())" "machine_ok X b m'" "at_rest m'"
      "exits_only {active m} (processes m) (processes m')"
      "\<And>t. live_task (task (sched m') t) \<Longrightarrow> t \<noteq> active m \<and> live_task (task (sched m) t)"
    by (rule finish_child_ok [OF m(1) run, of st]) blast
  have "zombies_ok m'" by (rule zombies_exits [OF m(2) f(4)]) (use f(5) in auto)
  then show "life_ok X b (fst (finish_child m (active m) st))" "snd (finish_child m (active m) st) = Ok ()"
    using f by (simp_all add: life_ok_def)
qed

lemma run_call_life:
  assumes ok: "life_ok X b m" and run: "running m" and safe: "snd (run_call m c) \<noteq> Panic"
  shows "life_ok X b (fst (run_call m c))"
proof -
  have m: "machine_ok X b m" using ok by (simp add: life_ok_def)
  note k = machine_okD(1) [OF m] and kept = keeps_machine_life [OF _ ok]
  obtain p where p: "om_lookup (contexts m) (active m) = Some p" by (rule running_context [OF m run])
  note quiet = calm_life [OF ok, of "run_call m c", OF _ _ safe]
  show ?thesis
  proof (cases c)
    case (StopSelf sig)
    have "keeps_machine X b m (stop_active_process m sig)"
      unfolding stop_active_process_def by (rule with_active_running [OF m run]) (rule stop_process_state_ok [OF m])
    then show ?thesis using kept StopSelf by simp
  qed (use k quiet m run ok p in \<open>simp_all add: kept calm_calls sys_read_ok sys_write_ok sys_close_ok(1) sys_duplicate_ok(1)
      sys_pipe_keeps sys_file_lock_ok sys_seek_ok sys_resize_ok sys_unlink_ok file_calls_ok random_fill_ok schedule_wake_ok
      set_umask_ok process_snapshot_ok kill_ok child_status_ok reap_child_life configure_process_ok create_child_life
      delivery_ok signal_calls_ok release_expansion_memory_ok sync_shell_memory_ok release_exec_metadata_ok new_job_ok
      meter_calls_ok charge_expansion_ok\<close>)
qed

section \<open>Steps\<close>

text \<open>A process waits only for a pipe that is not ready, which is what the call that would block reported.\<close>

definition may_wait :: "machine \<Rightarrow> wait_reason \<Rightarrow> bool" where
  "may_wait m r \<longleftrightarrow> (\<forall>q. (accepts r (PipeReadable q) \<longrightarrow> q < next_pipe (descriptors m) \<and> \<not> pipe_readable (descriptors m) q)
     \<and> (accepts r (PipeWritable q) \<longrightarrow> q < next_pipe (descriptors m) \<and> \<not> pipe_writable (descriptors m) q))"

text \<open>A step also says how many bytes programs hold that they reserved themselves: \<open>reserve_memory\<close> adds to them when it
  is granted, and \<open>release_memory\<close> takes from them what the caller had reserved.\<close>

inductive machine_step :: "nat \<times> machine \<Rightarrow> nat \<times> machine \<Rightarrow> bool" where
  step_call: "running m \<Longrightarrow> run_call m c = (m', r) \<Longrightarrow> r \<noteq> Panic \<Longrightarrow> machine_step (h, m) (h, m')"
| step_reserve: "sys_reserve_memory m n = (m', Ok granted) \<Longrightarrow> machine_step (h, m) (if granted then h + unat n else h, m')"
| step_release: "unat n \<le> h \<Longrightarrow> sys_release_memory m n = (m', r) \<Longrightarrow> machine_step (h, m) (h - unat n, m')"
| step_finish: "running m \<Longrightarrow> finish_child m (active m) status = (m', r) \<Longrightarrow> machine_step (h, m) (h, m')"
| step_block: "running m \<Longrightarrow> may_wait m w \<Longrightarrow> block_current (sched m) w = (s, r) \<Longrightarrow> machine_step (h, m) (h, m\<lparr>sched := s\<rparr>)"
| step_yield: "running m \<Longrightarrow> yield_current (sched m) = (s, r) \<Longrightarrow> machine_step (h, m) (h, m\<lparr>sched := s\<rparr>)"
| step_signal: "send_signal m pid sig = (m', r) \<Longrightarrow> machine_step (h, m) (h, m')"
| step_terminal: "send_terminal_signal m sig = (m', r) \<Longrightarrow> machine_step (h, m) (h, m')"
| step_schedule: "\<nexists>t. k = Deadline t \<Longrightarrow> schedule_after (clock m) d k = (c, r) \<Longrightarrow> machine_step (h, m) (h, m\<lparr>clock := c\<rparr>)"
| step_events: "wake_due_events m = (m', r) \<Longrightarrow> machine_step (h, m) (h, m')"
| step_dispatch: "dispatch_available m advance_time host_pending = Some (m', r) \<Longrightarrow> machine_step (h, m) (h, m')"

lemma block_life:
  assumes ok: "life_ok X b m" and run: "running m" and wait: "may_wait m w" and s: "block_current (sched m) w = (s, r)"
  shows "life_ok X b (m\<lparr>sched := s\<rparr>)"
proof -
  have m: "machine_ok X b m" using ok by (simp add: life_ok_def)
  have cur: "current (sched m) = Some (active m)" using run by (simp add: running_def)
  obtain s' where b: "block_current (sched m) w = (s', Ok (active m))" "sched_inv s'" "same_tasks (sched m) s'" "current s' = None"
    using block_current_task [OF cur machine_okD(7) [OF m], of w] by blast
  have s': "s' = s" using b(1) s by simp
  have "blocked_reason (task s t) = Some r \<Longrightarrow> blocked_reason (task (sched m) t) = Some r \<or> r = w" for t r
    using s cur by (auto simp: block_current_def om_lookup_insert split: if_splits option.splits)
  then have "waits_but {} (descriptors m) s"
    using wait kernel_ok_waits(1) [OF machine_okD(1) [OF m]] unfolding waits_but_def may_wait_def by blast
  then have "machine_ok X b (m\<lparr>sched := s\<rparr>)" using b(2,3) s' by (intro machine_ok_sched [OF m]) simp_all
  moreover have "zombies_ok (m\<lparr>sched := s\<rparr>)"
    using zombies_same [of m "m\<lparr>sched := s\<rparr>"] ok b(3) s' by (simp add: life_ok_def)
  ultimately show ?thesis using b(4) s' by (simp add: life_ok_def at_rest_def)
qed

lemma yield_life:
  assumes ok: "life_ok X b m" and run: "running m" and s: "yield_current (sched m) = (s, r)"
  shows "life_ok X b (m\<lparr>sched := s\<rparr>)"
proof -
  have m: "machine_ok X b m" using ok by (simp add: life_ok_def)
  have cur: "current (sched m) = Some (active m)" using run by (simp add: running_def)
  have "task (sched m) (active m) = Some Running" using sched_invD(5) [OF machine_okD(7) [OF m]] cur by blast
  then have t: "same_tasks (sched m) s" "fewer_waits s (sched m)" "current s = None"
    using s cur
    by (auto simp: yield_current_def fewer_waits_def om_lookup_insert split: if_splits intro!: same_tasks_put [of "sched m" "active m" Runnable])
  have "sched_inv s" using yield_current_inv [OF machine_okD(7) [OF m]] s by (metis fst_conv)
  then have "machine_ok X b (m\<lparr>sched := s\<rparr>)" using t by (intro machine_ok_fewer [OF m])
  moreover have "zombies_ok (m\<lparr>sched := s\<rparr>)"
    using zombies_same [of m "m\<lparr>sched := s\<rparr>"] ok t(1) by (simp add: life_ok_def)
  ultimately show ?thesis using t(3) by (simp add: life_ok_def at_rest_def)
qed

lemma wake_due_events_ok:
  assumes ok: "machine_ok X b m"
  shows "keeps_machine X b m (wake_due_events m)"
proof -
  obtain c r where a: "advance_to (clock m) (monotonic_ns (clock m)) = (c, r)" by fastforce
  have "good_step (clock m) (c, r)" using advance_to_good [OF machine_okD(6) [OF ok]] a by metis
  then have c: "tl_inv c" "r \<noteq> Panic" by (auto simp: good_step_def)
  have "keeps_machine X b m (on_clock m (c, r))"
    using machine_ok_clock [OF ok c(1)] c(2) by (cases r) (auto simp: on_clock_def intro!: keeps_machineI)
  then show ?thesis
    unfolding wake_due_events_def a by (rule keeps_machine_and_then) (rule handle_ready_events_ok)
qed

lemma schedule_life:
  assumes ok: "life_ok X b m" and s: "schedule_after (clock m) d k = (c, r)"
  shows "life_ok X b (m\<lparr>clock := c\<rparr>)"
proof -
  have m: "machine_ok X b m" using ok by (simp add: life_ok_def)
  have "tl_inv c" using schedule_after_good [OF machine_okD(6) [OF m], of d k] s by (simp add: good_step_def)
  then have "machine_ok X b (m\<lparr>clock := c\<rparr>)" by (rule machine_ok_clock [OF m])
  then show ?thesis using ok by (simp add: life_ok_def at_rest_def running_def zombies_ok_def)
qed

lemma machine_step_life: "machine_step x y \<Longrightarrow> life_ok X (fst x) (snd x) \<Longrightarrow> life_ok X (fst y) (snd y)"
proof (induction rule: machine_step.induct)
  case (step_call m c m' r h)
  then show ?case using run_call_life [of X h m c] by simp
next
  case (step_reserve m n m' granted h)
  then show ?case using reserve_life [of X h m n m' granted] by simp
next
  case (step_release n h m m' r)
  then show ?case using release_life [of X h m n] by (auto simp: sys_release_memory_def)
next
  case (step_finish m status m' r h)
  then show ?case using finish_child_life(1) [of X h m status] by simp
next
  case (step_signal m pid sig m' r h)
  then show ?case using keeps_machine_life [OF send_signal_ok, of X h m pid sig] by (simp add: life_ok_def)
next
  case (step_terminal m sig m' r h)
  then show ?case using keeps_machine_life [OF signal_calls_ok(2), of X h m sig] by (simp add: life_ok_def)
next
  case (step_events m m' r h)
  then show ?case using keeps_machine_life [OF wake_due_events_ok, of X h m] by (simp add: life_ok_def)
next
  case (step_dispatch m advance_time host_pending m' r h)
  then have "settled X h m (advance_time \<and> \<not> host_pending) (m', r)"
    using dispatch_available_ok [of X h m advance_time host_pending] by (simp add: life_ok_def)
  then show ?case using step_dispatch zombies_same [of m m'] by (simp add: life_ok_def settled_def)
qed (simp, blast intro: block_life yield_life schedule_life)+

section \<open>Events\<close>

text \<open>No step schedules the deadline of a task; what a step does to the clock is to add other events, to fire them
  or to cancel some.\<close>

lemma clock_with_active: "(\<And>p. clock (fst (k p)) = clock m) \<Longrightarrow> clock (fst (with_active m k)) = clock m"
  by (simp add: with_active_def split: option.split)

lemma clock_meters [simp]:
  "charge m n = (m', c) \<Longrightarrow> clock m' = clock m" "reserve m n = (m', c) \<Longrightarrow> clock m' = clock m" "clock (release m n) = clock m"
  by (auto simp: charge_def reserve_def release_def split: prod.splits)

lemma clock_metered:
  assumes "\<And>m1. clock m1 = clock m \<Longrightarrow> clock (fst (k m1)) = clock m" "\<And>m1. clock m1 = clock m \<Longrightarrow> clock (fst (e m1)) = clock m"
  shows "clock (fst (case charge m n of (m1, False) \<Rightarrow> e m1 | (m1, True) \<Rightarrow> k m1)) = clock m"
    "clock (fst (case reserve m n of (m1, False) \<Rightarrow> e m1 | (m1, True) \<Rightarrow> k m1)) = clock m"
  by (auto intro!: assms split: prod.split bool.split)

lemma clock_send_signals: "clock (fst (send_signals m pids sig)) = clock m"
  by (induction pids arbitrary: m) (auto intro!: clock_and_then simp: clock_send_signal)

lemma clock_terminal: "clock (fst (send_terminal_signal m sig)) = clock m"
  by (simp add: send_terminal_signal_def send_signal_group_def Let_def clock_send_signals)

lemma clock_child_status: "clock (fst (sys_child_status m pid)) = clock m"
  by (simp add: child_status_same)

lemma clock_sync: "clock (fst (sync_shell_memory m)) = clock m"
  unfolding sync_shell_memory_def Let_def
  by (rule clock_with_active) (auto split: prod.split bool.split)

lemma clock_memory_calls:
  "clock (fst (release_expansion_memory m)) = clock m" "clock (fst (release_exec_metadata m)) = clock m"
  "clock (fst (charge_expansion m interrupted n)) = clock m" "clock (fst (sys_charge_cpu m interrupted n)) = clock m"
  "clock (fst (sys_charge_output m n)) = clock m" "clock (fst (sys_allocate_temp_id m)) = clock m"
proof -
  show "clock (fst (release_exec_metadata m)) = clock m"
    unfolding release_exec_metadata_def
    by (rule clock_with_active) (auto intro!: clock_and_then clock_sync simp: with_active_def split: option.split)
  show "clock (fst (charge_expansion m interrupted n)) = clock m"
    unfolding charge_expansion_def by (auto intro!: clock_with_active split: prod.split bool.split)
qed (auto simp: release_expansion_memory_def sys_charge_cpu_def sys_charge_output_def sys_allocate_temp_id_def next_temp_id_def
    intro!: clock_with_active split: prod.split option.split)

lemma clock_process_calls:
  "clock (fst (sys_random_fill m n)) = clock m" "clock (fst (sys_set_umask m perms)) = clock m"
  "clock (fst (sys_signal_disposition m sig ignore)) = clock m" "clock (fst (sys_process_snapshot m)) = clock m"
  "clock (fst (sys_kill m target sig)) = clock m" "clock (fst (sys_child_completion m pid)) = clock m"
  "clock (fst (sys_reap_child m pid)) = clock m" "clock (fst (configure_process m pid cwd env)) = clock m"
  "clock (fst (finish_signal_handler m)) = clock m" "clock (fst (stop_active_process m sig)) = clock m"
  "clock (fst (set_terminal_foreground m grp)) = clock m" "clock (fst (new_job m pid command)) = clock m"
proof -
  show "clock (fst (sys_random_fill m n)) = clock m"
    unfolding sys_random_fill_def
    by (rule clock_metered) (auto simp: with_active_def split: option.split prod.split)
  have "clock (fst (case target of SignalProcess pid \<Rightarrow> send_signal m pid sig | SignalGroup grp \<Rightarrow> send_signal_group m grp sig)) = clock m"
    by (auto simp: clock_send_signal send_signal_group_def Let_def clock_send_signals split: signal_target.split)
  then show "clock (fst (sys_kill m target sig)) = clock m"
    unfolding sys_kill_def by (auto split: prod.split outcome.split)
  show "clock (fst (sys_child_completion m pid)) = clock m" "clock (fst (sys_reap_child m pid)) = clock m"
    unfolding sys_child_completion_def sys_reap_child_def reap_both_def
    by (intro clock_and_then clock_child_status, simp split: option.split)+
  show "clock (fst (stop_active_process m sig)) = clock m"
    unfolding stop_active_process_def by (rule clock_with_active) (rule clock_process_state)
qed (auto simp: sys_set_umask_def sys_signal_disposition_def sys_ignore_signal_def sys_process_snapshot_def configure_process_def
    finish_signal_handler_def set_terminal_foreground_def new_job_def Let_def intro!: clock_with_active
    split: option.split prod.split outcome.split)

lemma clock_create_child: "clock (fst (create_child l m command ns fg det pl)) = clock m"
proof -
  have sched: "clock (fst (schedule_child m p t n pid fg)) = clock m" for m p t n pid
    by (simp add: schedule_child_def abandon_child_def Let_def split: prod.split outcome.split)
  have enter: "clock (fst (enter_child m p t n pid ns fg det)) = clock m" for m p t n pid
    by (auto simp: enter_child_def refresh_descriptor_snapshot_def activate_def Let_def split: option.split prod.split outcome.split)
  have child: "clock (fst (and_then (schedule_child m p t n pid fg) (\<lambda>m _. enter_child m p t n pid ns fg det))) = clock m" for m p t n pid
    by (intro clock_and_then) (simp_all add: sched enter)
  show ?thesis
    unfolding create_child_def Let_def
    by (rule clock_with_active) (auto simp: child split: prod.split bool.split outcome.split option.split)
qed

text \<open>Cancelling events.\<close>

lemma no_deadlines_cancel: "no_deadlines (clock m) \<Longrightarrow> no_deadlines (clock (cancel_events m pid))"
  by (rule no_deadlines_sub [of "clock m"])
    (auto simp: cancel_events_def cancel_task_events_def om_lookup_fold_remove Let_def split: if_splits)

lemma no_deadlines_schedule:
  assumes "no_deadlines c" "schedule_after c d k = (c', r)" "\<nexists>t. k = Deadline t"
  shows "no_deadlines c'"
proof -
  have "schedule_at c e k = (c', r) \<Longrightarrow> no_deadlines c'" for e
    using assms(1,3)
    by (auto simp: schedule_at_def no_deadlines_def om_lookup_insert Let_def try_in_def ok_or_def split: if_splits option.splits)
  then show ?thesis using assms(1,2)
    by (auto simp: schedule_after_def try_in_def ok_or_def split: option.splits)
qed

lemma deliveries_deadlines:
  assumes "no_deadlines (clock m)"
  shows "no_deadlines (clock (fst (take_signal_delivery m)))" "no_deadlines (clock (fst (take_default_termination m)))"
    "no_deadlines (clock (fst (sys_schedule_wake m d)))"
proof -
  have same: "no_deadlines (clock (cancel_events (set_active m p) pid))" for p pid
    by (rule no_deadlines_cancel) (simp add: assms)
  show "no_deadlines (clock (fst (take_signal_delivery m)))" "no_deadlines (clock (fst (take_default_termination m)))"
    using assms same
    by (auto simp: take_signal_delivery_def take_default_termination_def with_active_def Let_def
        split: option.split prod.split signal_delivery.split)
  have wake: "no_deadlines c" if "schedule_wake_after (clock m) t n = (c, r)" for t n c r
  proof -
    obtain c1 r1 where s: "schedule_after (clock m) n (WakeTask t) = (c1, r1)" by fastforce
    have "no_deadlines c1" by (rule no_deadlines_schedule [OF assms s]) simp
    then have "no_deadlines (c1\<lparr>slept_ns := k\<rparr>)" for k by (simp add: no_deadlines_def)
    then show ?thesis using \<open>no_deadlines c1\<close> that s by (cases r1) (auto simp: schedule_wake_after_def)
  qed
  then show "no_deadlines (clock (fst (sys_schedule_wake m d)))"
    using assms by (auto simp: sys_schedule_wake_def with_active_def split: option.split prod.split outcome.split)
qed

lemma deadlines_and_then:
  "no_deadlines (clock (fst x)) \<Longrightarrow> (\<And>m v. no_deadlines (clock m) \<Longrightarrow> no_deadlines (clock (fst (k m v)))) \<Longrightarrow>
    no_deadlines (clock (fst (and_then x k)))"
  by (cases "(x, k)" rule: and_then.cases) auto

lemma clock_close_descriptors: "clock (fst (close_descriptors m p)) = clock m"
proof -
  have locks: "clock (fst (wake_lock_waiters m)) = clock m" for m
    using calm_lock_waiters [of m m] by (simp add: calm_call_def calm_def)
  have closed: "clock (release_closed_pipe_memory m) = clock m" for m
    using calm_release_closed [of m m] by (simp add: calm_def)
  have ends: "clock (fst (wake_ends_of m es)) = clock m" for m es
    by (induction es arbitrary: m) (auto intro!: clock_and_then simp: clock_in_sched)
  show ?thesis
    unfolding close_descriptors_def
    by (auto simp: Let_def closed ends locks intro!: clock_and_then split: prod.split)
qed

lemma clock_drain: "clock (drain_detached p m) = clock m"
proof -
  have "clock (drain_to keep d m) = clock m" if "\<And>bs m. clock (keep bs m) = clock m" for keep d m
    by (auto simp: drain_to_def that split: option.split prod.split outcome.split)
  then show ?thesis by (simp add: drain_detached_def Let_def)
qed

lemma clock_exit_task: "clock (fst (exit_task m pid status)) = clock m"
  unfolding exit_task_def wake_parent_waits_def Let_def
  by (auto intro!: clock_and_then simp: clock_in_sched split: prod.split outcome.split)

lemma finish_deadlines:
  assumes "no_deadlines (clock m)"
  shows "no_deadlines (clock (fst (finish_child m pid status)))"
proof -
  have "no_deadlines (clock (fst (exit_task (cancel_events (default_foreground (m\<lparr>processes := t\<rparr>)) pid) pid status)))"
    if "no_deadlines (clock m)" for m t
    using that no_deadlines_cancel [of "default_foreground (m\<lparr>processes := t\<rparr>)" pid] by (simp add: clock_exit_task)
  then show ?thesis
    using assms unfolding finish_child_def Let_def
    by (auto simp: with_active_def clock_close_descriptors clock_drain clock_ignore clock_send_signal
        intro!: deadlines_and_then split: option.split)
qed

lemma call_deadlines:
  assumes "no_deadlines (clock m)"
  shows "no_deadlines (clock (fst (run_call m c)))"
proof -
  have calm: "clock (fst r) = clock m" if "calm_call m r" for r :: "'a sys_result"
    using that by (simp add: calm_call_def calm_def)
  show ?thesis
    using assms
    by (cases c) (simp_all add: calm calm_calls clock_process_calls clock_memory_calls clock_child_status clock_create_child clock_sync
        deliveries_deadlines)
qed

lemma events_deadlines:
  assumes ok: "machine_ok X b m" and nd: "no_deadlines (clock m)"
  shows "no_deadlines (clock (fst (wake_due_events m)))"
proof -
  obtain c r where a: "advance_to (clock m) (monotonic_ns (clock m)) = (c, r)" by fastforce
  have "no_deadlines c" using no_deadlines_advance [OF nd, of "monotonic_ns (clock m)"] a by simp
  then have "no_deadlines (clock (fst (on_clock m (c, r))))" by (simp add: on_clock_def split: outcome.split)
  then show ?thesis
    unfolding wake_due_events_def a
    by (rule deadlines_and_then) (simp add: handle_ready_events_def handle_each_deadlines)
qed

lemma machine_step_deadlines:
  "machine_step x y \<Longrightarrow> life_ok X (fst x) (snd x) \<Longrightarrow> no_deadlines (clock (snd x)) \<Longrightarrow> no_deadlines (clock (snd y))"
proof (induction rule: machine_step.induct)
  case (step_call m c m' r h)
  then show ?case using call_deadlines [of m c] by simp
next
  case (step_finish m status m' r h)
  then show ?case using finish_deadlines [of m "active m" status] by simp
next
  case (step_reserve m n m' granted h)
  then show ?case by (auto simp: sys_reserve_memory_def split: prod.splits)
next
  case (step_signal m pid sig m' r h)
  then show ?case using clock_send_signal [of m pid sig] by simp
next
  case (step_terminal m sig m' r h)
  then show ?case using clock_terminal [of m sig] by simp
next
  case (step_schedule k m d c r h)
  then show ?case using no_deadlines_schedule by auto
next
  case (step_events m m' r h)
  then show ?case using events_deadlines [of X h m] by (simp add: life_ok_def)
next
  case (step_dispatch m advance_time host_pending m' r h)
  then have "settled X h m (advance_time \<and> \<not> host_pending) (m', r)"
    using dispatch_available_ok [of X h m advance_time host_pending] by (simp add: life_ok_def)
  then show ?case using step_dispatch by (simp add: settled_def)
qed (auto simp: sys_release_memory_def)

end
