(* ===== verification/Machine_Life.thy ===== *)
theory Machine_Life
  imports Machine_Steps
begin

text \<open>
  What holds in every machine that is reached from a booted one: exact references and memory, no process
  that waits for a pipe that is ready, no panic in the life of a process, and a dispatch that gives up only
  when nothing can run.
\<close>

section \<open>Reachable machines\<close>

lemma boot_life:
  assumes t: "table_ok (\<lambda>_. 0) (t, a)"
  shows "life_ok (\<lambda>_. 0) 0 (boot_machine l v t a)" "running (boot_machine l v t a)"
proof -
  let ?m = "boot_machine l v t a"
  define p where "p = (root_state t)\<lparr>state_baseline := shell_state_bytes (root_state t)\<rparr>"
  have p: "se_pid p = ROOT_PID" "reserved_by p = 0" by (simp_all add: p_def root_state_def reserved_by_def)
  have f: "contexts ?m = om_insert ROOT_PID p om_empty" "sched ?m = new_scheduler ROOT_PID" "active ?m = ROOT_PID" "clock ?m = new_timeline"
      "processes ?m = update_descriptors (new_table ROOT_PID ''/'' (exported_env p)) ROOT_PID (descriptor_labels a t)"
    by (simp_all add: boot_machine_def Let_def p_def)
  have "ctx_bytes (contexts ?m) = 0" using p(2) by (simp add: f ctx_bytes_def om_weight_singleton)
  then have "kernel_ok (\<lambda>_. 0) (0 + ctx_bytes (contexts ?m)) ?m" using boot_machine_ok [OF t] by simp
  moreover have "processes_agree ?m"
    unfolding processes_agree_def f
  proof (intro conjI allI impI)
    have "pt_inv (new_table ROOT_PID ''/'' (exported_env p))" by (rule new_table_inv) (simp_all add: ROOT_PID_def i32_max_def)
    then show "pt_inv (update_descriptors (new_table ROOT_PID ''/'' (exported_env p)) ROOT_PID (descriptor_labels a t))"
      by (simp add: update_descriptors_def pt_inv_update)
  qed (use p(1) in \<open>auto simp: new_scheduler_def om_lookup_insert update_descriptors_def om_lookup_update new_table_def split: if_splits\<close>)
  moreover have "tl_inv (clock ?m)" by (simp add: f new_timeline_def new_timeline_inv)
  ultimately have "machine_ok (\<lambda>_. 0) 0 ?m" by (simp add: machine_ok_def)
  moreover show "running ?m" by (simp add: running_def f new_scheduler_def)
  moreover have "zombies_ok ?m"
    by (auto simp: zombies_ok_def f update_descriptors_def om_lookup_update new_table_def om_lookup_insert split: if_splits)
  ultimately show "life_ok (\<lambda>_. 0) 0 ?m" by (simp add: life_ok_def at_rest_def)
qed

text \<open>A machine is booted around any file system; \<open>with_limits\<close> is the case of a seeded one.\<close>

text \<open>The number is what programs hold of memory that they reserved themselves.\<close>

inductive reachable_holding :: "nat \<Rightarrow> machine \<Rightarrow> bool" where
  reachable_boot: "standard_descriptors = ((t, a), Ok ()) \<Longrightarrow> reachable_holding 0 (boot_machine l v t a)"
| reachable_step: "reachable_holding h m \<Longrightarrow> machine_step (h, m) (h', m') \<Longrightarrow> reachable_holding h' m'"

definition reachable :: "machine \<Rightarrow> bool" where
  "reachable m \<longleftrightarrow> (\<exists>h. reachable_holding h m)"

lemma reachable_holding_life: "reachable_holding h m \<Longrightarrow> life_ok (\<lambda>_. 0) h m \<and> no_deadlines (clock m)"
proof (induction rule: reachable_holding.induct)
  case (reachable_boot t a l v)
  have "clock (boot_machine l v t a) = new_timeline" by (simp add: boot_machine_def Let_def)
  then have "no_deadlines (clock (boot_machine l v t a))"
    by (simp add: no_deadlines_def new_timeline_def with_epoch_and_limits_def)
  then show ?case using reachable_boot standard_descriptors_ok boot_life(1) by (metis fst_conv)
next
  case (reachable_step h m h' m')
  then show ?case
    using machine_step_life [of "(h, m)" "(h', m')"] machine_step_deadlines [of "(h, m)" "(h', m')"] by fastforce
qed

lemma with_limits_reachable: "with_limits l registered = Ok m \<Longrightarrow> reachable m"
  by (auto simp: with_limits_def Let_def reachable_def intro: reachable_boot split: prod.splits outcome.splits)

lemma reachable_life:
  assumes "reachable m"
  obtains h where "life_ok (\<lambda>_. 0) h m" "machine_ok (\<lambda>_. 0) h m" "no_deadlines (clock m)"
  using assms reachable_holding_life by (auto simp: reachable_def life_ok_def)

lemma reachable_next: "reachable m \<Longrightarrow> (\<And>h. machine_step (h, m) (h, m')) \<Longrightarrow> reachable m'"
  unfolding reachable_def using reachable_step by blast

text \<open>A read or a write that would block names a wait that \<open>step_block\<close> allows.\<close>

lemma blocked_io_may_wait:
  assumes inv: "arena_inv (descriptors m)"
  shows "read_description (descriptors m) i n = (a, Ok (Blocks w)) \<Longrightarrow> a = descriptors m \<and> may_wait m (io_wait_reason w)"
    "write_description (descriptors m) i bs = (a, Ok (Blocks w)) \<Longrightarrow> a = descriptors m \<and> may_wait m (io_wait_reason w)"
proof -
  have pipe: "q < next_pipe (descriptors m)" if "pipe_of (descriptors m) q = Some st" for q st
    using arena_invD(5) [OF inv, of q] that by auto
  show "read_description (descriptors m) i n = (a, Ok (Blocks w)) \<Longrightarrow> a = descriptors m \<and> may_wait m (io_wait_reason w)"
    using pipe by (cases "entry (descriptors m) i"; cases "description (the (entry (descriptors m) i))")
      (auto simp: read_description_def may_wait_def pipe_readable_def Let_def slice_def ok_or_def split: if_splits option.splits prod.splits)
  show "write_description (descriptors m) i bs = (a, Ok (Blocks w)) \<Longrightarrow> a = descriptors m \<and> may_wait m (io_wait_reason w)"
    using pipe by (cases "entry (descriptors m) i"; cases "description (the (entry (descriptors m) i))")
      (auto simp: write_description_def may_wait_def pipe_writable_def Let_def ok_or_def split: if_splits option.splits)
qed

section \<open>A machine with an open pipe\<close>

text \<open>The booted shell opens a pipe and waits to read from it.\<close>

definition boot_table :: fd_table where
  "boot_table = \<lparr>entries = om_insert 2 3 (om_insert 1 2 (om_insert 0 1 om_empty)), close_on_exec_set = om_empty\<rparr>"

lemma boot_free_fds: "take 2 (free_fds boot_table) = [5, 6]"
proof -
  have "[0..<MAX_FDS_PER_PROCESS] = 0 # 1 # [2..<MAX_FDS_PER_PROCESS]"
    by (simp add: MAX_FDS_PER_PROCESS_def upt_rec)
  then show ?thesis by (simp add: free_fds_def boot_table_def fd_get_def om_lookup_insert)
qed

lemma boot_descriptors:
  "\<exists>a. standard_descriptors = ((boot_table, a), Ok ()) \<and> next_pipe a = 1 \<and> pipes a = om_empty \<and> next_description a = 4
    \<and> om_size (descriptions a) = 3 \<and> entry a 4 = None \<and> entry a 5 = None"
  by (simp add: standard_descriptors_def open_input_def open_capture_def new_arena_def allocate_def Let_def checked_add_def
      MAX_OPEN_DESCRIPTIONS_def om_size_insert install_def retain_ref_def new_fd_table_def om_lookup_insert set_entry_def
      MAX_FDS_PER_PROCESS_def boot_table_def)

lemma boot_pipe:
  assumes a: "next_pipe a = 1" "pipes a = om_empty" "next_description a = 4" "om_size (descriptions a) = 3"
    "entry a 4 = None \<and> entry a 5 = None"
  shows "\<exists>m'. sys_pipe (boot_machine unlimited new_vfs boot_table a) False False = (m', Ok (5, 6)) \<and> next_pipe (descriptors m') = 2
    \<and> \<not> pipe_readable (descriptors m') 1 \<and> running m' \<and> active m' = ROOT_PID"
proof -
  let ?m = "boot_machine unlimited new_vfs boot_table a"
  obtain p where p: "om_lookup (contexts ?m) (active ?m) = Some p" "fds p = boot_table"
    by (simp add: boot_machine_def Let_def om_lookup_insert, simp add: root_state_def)
  have m: "descriptors ?m = a" "resources ?m = new_resources unlimited" "sched ?m = new_scheduler ROOT_PID"
      "active ?m = ROOT_PID" "pipe_reservations ?m = om_empty"
    by (simp_all add: boot_machine_def Let_def)
  have t: "om_size (entries boot_table) = 3" "om_lookup (entries boot_table) 5 = None" "om_lookup (entries boot_table) 6 = None"
    by (simp_all add: boot_table_def om_size_insert om_lookup_insert)
  obtain r1 r2 where c: "charge_cpu (new_resources unlimited) 1 = (r1, True)" "reserve_memory r1 PIPE_RESERVATION = (r2, True)"
    by (simp add: charge_cpu_def new_resources_def unlimited_def reserve_memory_def PIPE_RESERVATION_def
        DEFAULT_PIPE_CAPACITY_def rust_arith checked_add_def checked_sub_def is_stopped_def)
  let ?e = "\<lambda>d. \<lparr>description = d, references = 0, nonblocking = False, file_lock = None, de_inode = None\<rparr>"
  let ?a = "a\<lparr>next_pipe := 2, pipes := om_insert 1 \<lparr>pipe_bytes = [], capacity = 65536, readers = 1, writers = 1\<rparr> om_empty,
    next_description := 6, descriptions := om_insert 5 (?e (PipeWriter 1)) (om_insert 4 (?e (PipeReader 1)) (descriptions a))\<rparr>"
  have o: "open_pipe a DEFAULT_PIPE_CAPACITY = (?a, Ok (4, 5))"
    using a by (simp add: open_pipe_def allocate_def Let_def checked_add_def MAX_PIPES_def MAX_OPEN_DESCRIPTIONS_def
        DEFAULT_PIPE_CAPACITY_def om_size_insert)
  have e: "pipe_endpoint ?a 4 = Ok (Some (1, True))" by (simp add: pipe_endpoint_def om_lookup_insert)
  note calls = sys_pipe_def with_active_def boot_free_fds charge_def reserve_def MAX_FDS_PER_PROCESS_def try_desc_def Let_def
  have run: "sys_pipe ?m False False = (case and_then
        (install_end (?m\<lparr>resources := r2, descriptors := ?a, pipe_reservations := om_insert 1 PIPE_RESERVATION om_empty\<rparr>) p False False 5 4)
        (\<lambda>(m, p) _. install_end m p False False 6 5) of
          ((m5, p'), Ok _) \<Rightarrow> (refresh_descriptor_snapshot (set_active m5 p') (se_pid p), Ok (5, 6))
        | ((m5, p'), Err e) \<Rightarrow> (set_active m5 p', Err e)
        | ((m5, p'), Panic) \<Rightarrow> (set_active m5 p', Panic))"
    using p m c t(1) o e by (simp add: calls)
  show ?thesis
    unfolding run using p m t
    by (simp add: install_end_def install_def MAX_FDS_PER_PROCESS_def retain_ref_def set_entry_def set_close_on_exec_def fd_get_def
        set_nonblocking_def Let_def om_lookup_insert om_size_insert checked_add_def)
      (simp add: pipe_readable_def refresh_descriptor_snapshot_def set_active_def om_lookup_insert running_def new_scheduler_def)
qed

lemma piped_machine:
  "\<exists>m. reachable m \<and> running m \<and> active m = ROOT_PID \<and> next_pipe (descriptors m) = 2 \<and> \<not> pipe_readable (descriptors m) 1"
proof -
  obtain a where a: "standard_descriptors = ((boot_table, a), Ok ())" "next_pipe a = 1" "pipes a = om_empty" "next_description a = 4"
      "om_size (descriptions a) = 3" "entry a 4 = None \<and> entry a 5 = None"
    using boot_descriptors by blast
  let ?m = "boot_machine unlimited new_vfs boot_table a"
  obtain m' where m': "sys_pipe ?m False False = (m', Ok (5, 6))" "next_pipe (descriptors m') = 2" "\<not> pipe_readable (descriptors m') 1"
      "running m'" "active m' = ROOT_PID"
    using boot_pipe [OF a(2-)] by blast
  have "running ?m" using boot_life(2) standard_descriptors_ok a(1) by (metis fst_conv)
  moreover have "run_call ?m (Pipe False False) = (m', Ok ())" using m'(1) by (simp add: no_value_def)
  ultimately have "machine_step (h, ?m) (h, m')" for h by (rule step_call) simp
  moreover have "reachable ?m" using reachable_boot [OF a(1)] by (auto simp: reachable_def)
  ultimately have "reachable m'" by (rule reachable_next [rotated])
  then show ?thesis using m' by blast
qed

lemma waiting_machine:
  "\<exists>m. reachable m \<and> blocked_reason (task (sched m) ROOT_PID) = Some (PipeReadable 1) \<and> current (sched m) = None"
proof -
  obtain m where m: "reachable m" "running m" "active m = ROOT_PID" "next_pipe (descriptors m) = 2" "\<not> pipe_readable (descriptors m) 1"
    using piped_machine by blast
  obtain h where ok: "machine_ok (\<lambda>_. 0) h m" by (rule reachable_life [OF m(1)])
  have cur: "current (sched m) = Some ROOT_PID" using m(2,3) by (simp add: running_def)
  then obtain s r where s: "block_current (sched m) (PipeReadable 1) = (s, r)" "task s ROOT_PID = Some (Blocked (PipeReadable 1))"
      "current s = None"
    using block_current_task [OF cur machine_okD(7) [OF ok], of "PipeReadable 1"] by blast
  have "may_wait m (PipeReadable 1)" using m(4,5) by (simp add: may_wait_def)
  then have "machine_step (h, m) (h, m\<lparr>sched := s\<rparr>)" for h using step_block [OF m(2) _ s(1)] by blast
  then have "reachable (m\<lparr>sched := s\<rparr>)" by (rule reachable_next [OF m(1)])
  then show ?thesis using s(2,3) by (intro exI [of _ "m\<lparr>sched := s\<rparr>"]) simp
qed

text \<open>The shell reserves memory for itself.\<close>

lemma holding_machine:
  "\<exists>m. reachable_holding 100 m \<and> running m \<and> active m = ROOT_PID"
proof -
  obtain a where a: "standard_descriptors = ((boot_table, a), Ok ())" using boot_descriptors by blast
  let ?m = "boot_machine unlimited new_vfs boot_table a"
  have run: "running ?m" using boot_life(2) standard_descriptors_ok a(1) by (metis fst_conv)
  have res: "resources ?m = new_resources unlimited" "active ?m = ROOT_PID" by (simp_all add: boot_machine_def Let_def)
  obtain r where r: "reserve_memory (new_resources unlimited) 100 = (r, True)"
    by (simp add: new_resources_def unlimited_def reserve_memory_def rust_arith checked_add_def is_stopped_def)
  then have "sys_reserve_memory ?m 100 = (?m\<lparr>resources := r\<rparr>, Ok True)" by (simp add: sys_reserve_memory_def reserve_def res)
  from step_reserve [OF this, of 0] have "machine_step (0, ?m) (100, ?m\<lparr>resources := r\<rparr>)" by simp
  then have "reachable_holding 100 (?m\<lparr>resources := r\<rparr>)" by (rule reachable_step [OF reachable_boot [OF a]])
  then show ?thesis using run res(2) by (intro exI [of _ "?m\<lparr>resources := r\<rparr>"]) (simp add: running_def)
qed

section \<open>Properties\<close>



text \<open>C2. No wake-up is lost by the modelled steps (which redirection scopes and \<open>cancel_unstarted_child\<close> are not): in every
  reachable machine a task that is blocked, or stopped while blocked, on a condition that a pipe becomes readable or
  writable waits for a pipe that is not.\<close>

theorem no_lost_wakeups:
  assumes "reachable m" "blocked_reason (task (sched m) t) = Some w"
  shows "\<not> (accepts w (PipeReadable q) \<and> pipe_readable (descriptors m) q)
    \<and> \<not> (accepts w (PipeWritable q) \<and> pipe_writable (descriptors m) q)"
proof -
  obtain h where ok: "machine_ok (\<lambda>_. 0) h m" by (rule reachable_life [OF assms(1)])
  show ?thesis using kernel_ok_waits(1) [OF machine_okD(1) [OF ok]] assms(2) by (auto simp: waits_but_def)
qed

theorem no_lost_wakeups_witness:
  "\<exists>m. reachable m \<and> blocked_reason (task (sched m) ROOT_PID) = Some (PipeReadable 1) \<and> \<not> pipe_readable (descriptors m) 1"
proof -
  obtain m where m: "reachable m" "blocked_reason (task (sched m) ROOT_PID) = Some (PipeReadable 1)" using waiting_machine by blast
  then show ?thesis using no_lost_wakeups [OF m, of 1] by (intro exI [of _ m]) simp
qed

text \<open>C3. The calls that make up the life of a process reach none of their panics in a reachable machine: forking,
  ending, reaping, sending and delivering signals; ending a process always succeeds.\<close>

theorem process_life_does_not_panic:
  assumes "reachable m" "running m"
  shows "snd (create_child l m command new_shell foreground detached placement) \<noteq> Panic
    \<and> snd (finish_child m (active m) status) = Ok ()
    \<and> snd (sys_reap_child m pid) \<noteq> Panic
    \<and> snd (send_signal m pid sig) \<noteq> Panic
    \<and> snd (take_signal_delivery m) \<noteq> Panic"
proof -
  obtain h where ok: "life_ok (\<lambda>_. 0) h m" "machine_ok (\<lambda>_. 0) h m" by (rule reachable_life [OF assms(1)])
  show ?thesis
    using create_child_life(2) [OF ok(1) assms(2)] finish_child_life(2) [OF ok(1) assms(2)] reap_child_life(2) [OF ok(1) assms(2)]
      send_signal_ok [OF ok(2)] delivery_ok(1) [OF ok(2) assms(2)]
    by (simp add: keeps_machine_def)
qed

theorem process_life_does_not_panic_witness:
  "\<exists>m. reachable m \<and> active m = ROOT_PID \<and> snd (finish_child m ROOT_PID 0) = Ok ()"
proof -
  obtain m where m: "reachable m" "running m" "active m = ROOT_PID" using piped_machine by blast
  then show ?thesis using process_life_does_not_panic [OF m(1,2), where status = 0] by metis
qed

text \<open>C4. Dispatching succeeds from every reachable machine whose processor is free, which is when \<open>poll_machine\<close> calls it:
  the loop over idle time ends, no error is returned, and either a process runs, whose context is the active one, or
  nothing can run: no task is runnable and no timed event is pending, unless the caller or the host forbids the clock
  to jump.\<close>

theorem dispatch_settles:
  assumes "reachable m" "current (sched m) = None"
  shows "\<exists>m' runs. dispatch_available m advance_time host_pending = Some (m', Ok runs)
    \<and> (if runs then current (sched m') = Some (active m') \<and> om_contains (contexts m') (active m')
       else current (sched m') = None \<and> runnable (sched m') = []
        \<and> (om_size (Timeline.pending (clock m')) = 0 \<or> \<not> advance_time \<or> host_pending))"
proof -
  obtain h where ok: "life_ok (\<lambda>_. 0) h m" "machine_ok (\<lambda>_. 0) h m" "no_deadlines (clock m)" by (rule reachable_life [OF assms(1)])
  have "at_rest m" using ok(1) by (simp add: life_ok_def)
  from dispatch_available_ok [OF ok(2) this, of advance_time host_pending] obtain m' r
    where d: "dispatch_available m advance_time host_pending = Some (m', r)"
      "settled (\<lambda>_. 0) h m (advance_time \<and> \<not> host_pending) (m', r)" by fastforce
  have ok': "machine_ok (\<lambda>_. 0) h m'" using d(2) by (simp add: settled_def)
  obtain runs where r: "r = Ok runs" using d(2) ok(3) assms(2) by (cases r) (simp_all add: settled_def)
  have "om_contains (contexts m') (active m')" if "running m'"
    by (rule running_context [OF ok' that]) simp
  then show ?thesis using d r by (cases runs) (auto simp: settled_def stuck_def running_def)
qed

theorem dispatch_settles_witness:
  "\<exists>m m' runs. reachable m \<and> blocked_reason (task (sched m) ROOT_PID) = Some (PipeReadable 1)
    \<and> dispatch_available m True False = Some (m', Ok runs)
    \<and> (if runs then current (sched m') = Some (active m')
       else runnable (sched m') = [] \<and> om_size (Timeline.pending (clock m')) = 0)"
proof -
  obtain m where m: "reachable m" "blocked_reason (task (sched m) ROOT_PID) = Some (PipeReadable 1)" "current (sched m) = None"
    using waiting_machine by blast
  from dispatch_settles [OF m(1,3), of True False] show ?thesis
    using m(1,2) by (fastforce split: if_splits)
qed

text \<open>C6. When a process ends, its context is gone, no task that was waiting for it still waits, its task stays exited
  or is reaped, and the processor is free or with the process whose context is active.\<close>

theorem finish_child_releases:
  assumes "reachable m" "running m" "finish_child m (active m) status = (m', r)"
  shows "r = Ok () \<and> om_lookup (contexts m') (active m) = None \<and> \<not> live_task (task (sched m') (active m))
    \<and> (\<forall>t w. blocked_reason (task (sched m') t) = Some w \<longrightarrow> \<not> waits_for_child w (active m) \<and> \<not> waits_for_child_activity w (active m))
    \<and> current (sched m') \<in> {None, Some (active m')}"
proof -
  obtain h where ok: "machine_ok (\<lambda>_. 0) h m" by (rule reachable_life [OF assms(1)])
  obtain m1 where "finish_child m (active m) status = (m1, Ok ())" "machine_ok (\<lambda>_. 0) h m1" "at_rest m1"
      "om_lookup (contexts m1) (active m) = None"
      "\<And>t w. blocked_reason (task (sched m1) t) = Some w \<Longrightarrow> \<not> waits_for_child w (active m) \<and> \<not> waits_for_child_activity w (active m)"
    by (rule finish_child_ok [OF ok assms(2), of status]) blast
  moreover from this have "\<not> live_task (task (sched m1) (active m))" using machine_okD(4) [of _ _ m1 "active m"] by auto
  ultimately show ?thesis using assms(3) by (auto simp: at_rest_def running_def)
qed

theorem finish_child_releases_witness:
  "\<exists>m m'. reachable m \<and> finish_child m ROOT_PID 0 = (m', Ok ()) \<and> om_contains (contexts m) ROOT_PID \<and> om_lookup (contexts m') ROOT_PID = None"
proof -
  obtain m where m: "reachable m" "running m" "active m = ROOT_PID" using piped_machine by blast
  obtain m' r where f: "finish_child m (active m) 0 = (m', r)" by fastforce
  obtain h where ok: "machine_ok (\<lambda>_. 0) h m" by (rule reachable_life [OF m(1)])
  obtain p where "om_lookup (contexts m) (active m) = Some p" by (rule running_context [OF ok m(2)])
  then show ?thesis using finish_child_releases [OF m(1,2) f] f m(1,3) by (intro exI [of _ m] exI [of _ m']) auto
qed

text \<open>C5. Forking is all or nothing: a child has a fresh process id, a context of its own and a live task; a fork
  that is refused leaves the contexts, the tasks and the reference counts of the descriptions as they were.\<close>

theorem fork_all_or_nothing:
  assumes "reachable m" "running m" "create_child l m command new_shell foreground detached placement = (m', r)"
  shows "case r of
      Ok pid \<Rightarrow> proc (processes m) pid = None \<and> om_lookup (contexts m) pid = None \<and> om_contains (contexts m') pid
        \<and> live_task (task (sched m') pid) \<and> current (sched m') = Some (active m')
    | Err _ \<Rightarrow> contexts m' = contexts m \<and> sched m' = sched m \<and> ref_count (descriptors m') = ref_count (descriptors m)
    | Panic \<Rightarrow> False"
proof -
  obtain h where ok: "machine_ok (\<lambda>_. 0) h m" by (rule reachable_life [OF assms(1)])
  have refs: "machine_ok (\<lambda>_. 0) h m \<Longrightarrow> ref_count (descriptors m) = ctx_refs (contexts m)" for m
    by (auto simp: machine_ok_def kernel_ok_def kernel_but_def tables_ok_def)
  have cc: "case (m', r) of
      (m', Ok pid) \<Rightarrow> machine_ok (\<lambda>_. 0) h m' \<and> running m' \<and> om_lookup (contexts m) pid = None \<and> exits_only {} (processes m) (processes m')
        \<and> one_more pid (sched m) (sched m') \<and> proc (processes m) pid = None
    | (m', Err e) \<Rightarrow> machine_ok (\<lambda>_. 0) h m' \<and> running m' \<and> contexts m' = contexts m \<and> sched m' = sched m
        \<and> exits_only {} (processes m) (processes m')
    | (m', Panic) \<Rightarrow> False"
    unfolding assms(3) [symmetric] by (rule create_child_ok [OF ok assms(2)])
  show ?thesis
  proof (cases r)
    case (Ok pid)
    then have k: "machine_ok (\<lambda>_. 0) h m'" "running m'" "om_lookup (contexts m) pid = None" "one_more pid (sched m) (sched m')"
        "proc (processes m) pid = None" using cc by simp_all
    have "live_task (task (sched m') pid)" using k(4) unfolding one_more_def by blast
    then show ?thesis using k machine_okD(4) [OF k(1), of pid] Ok by (auto simp: running_def)
  next
    case (Err e)
    then have k: "machine_ok (\<lambda>_. 0) h m'" "contexts m' = contexts m" "sched m' = sched m" using cc by simp_all
    then show ?thesis using Err refs [OF k(1)] refs [OF ok] by simp
  qed (use cc in simp)
qed

theorem fork_all_or_nothing_witness:
  "\<exists>m m' r. reachable m \<and> create_child \<lparr>size_of_node = 200, size_of_redirect = 40\<rparr> m ''sleep 1'' True False True NewProcessGroup = (m', r) \<and> r \<noteq> Panic"
proof -
  obtain m where m: "reachable m" "running m" using piped_machine by blast
  obtain m' r where c: "create_child \<lparr>size_of_node = 200, size_of_redirect = 40\<rparr> m ''sleep 1'' True False True NewProcessGroup = (m', r)" by fastforce
  have "r \<noteq> Panic" using fork_all_or_nothing [OF m c] by auto
  then show ?thesis using c m(1) by blast
qed

end
