(* ===== verification/Shell_Lexer.thy ===== *)
theory Shell_Lexer
  imports Shell_Ast Decimal
begin

text \<open>
  The lexer of the shell, \<open>Lexer\<close> of \<open>src/src/shell.rs\<close>. The cursor is the character before it, which
  decides whether \<open>#\<close> starts a comment, and the text after it. A scanning loop is a function on that
  text. One iteration of the main loop is \<open>lex_step\<close>; \<open>lex_loop\<close> repeats it to the end of the text.

  Cancellation tokens belong to the host and are not part of the model; the lexer runs as it does
  without one.
\<close>

datatype tok =
    TWord string
  | TOp string
  | TLess
  | TGreat
  | TDGreat
  | THeredoc string bool
  | TArithmetic string
  | THereString string
  | TGreatAmp int
  | TCloseOut
  | TRedirFd int string
  | TEof

record lexer =
  lx_before :: "char option"
  lx_rest :: string
  lx_toks :: "tok list"
  in_double_bracket :: bool
  heredocs_ok :: bool
  lex_error :: "shell_error option"

abbreviation NL :: char where "NL \<equiv> CHR 0x0A"
abbreviation TAB :: char where "TAB \<equiv> CHR 0x09"
abbreviation SQ :: char where "SQ \<equiv> CHR 0x27"
abbreviation DQ :: char where "DQ \<equiv> CHR 0x22"
abbreviation BQ :: char where "BQ \<equiv> CHR 0x60"
abbreviation BS :: char where "BS \<equiv> CHR 0x5C"

definition new_lexer :: "string \<Rightarrow> lexer" where
  "new_lexer src = \<lparr>lx_before = None, lx_rest = src, lx_toks = [], in_double_bracket = False, heredocs_ok = True,
     lex_error = None\<rparr>"

section \<open>The cursor\<close>

definition char_at :: "nat \<Rightarrow> string \<Rightarrow> char option" where
  "char_at n cs = (if n < length cs then Some (cs ! n) else None)"

definition advance :: "nat \<Rightarrow> lexer \<Rightarrow> lexer" where
  "advance n s = (case take n (lx_rest s) of
       [] \<Rightarrow> s
     | cs \<Rightarrow> s\<lparr>lx_before := Some (last cs), lx_rest := drop n (lx_rest s)\<rparr>)"

definition push_tok :: "tok \<Rightarrow> lexer \<Rightarrow> lexer" where
  "push_tok t s = s\<lparr>lx_toks := lx_toks s @ [t]\<rparr>"

definition first_error :: "shell_error option \<Rightarrow> shell_error option \<Rightarrow> shell_error option" where
  "first_error e f = (case e of None \<Rightarrow> f | Some _ \<Rightarrow> e)"

text \<open>\<open>error.get_or_insert\<close>.\<close>

definition note_error :: "shell_error option \<Rightarrow> lexer \<Rightarrow> lexer" where
  "note_error e s = s\<lparr>lex_error := first_error (lex_error s) e\<rparr>"

section \<open>Scanning loops\<close>

text \<open>The text up to and with a closing quote, and whether it was found.\<close>

fun until_quote :: "char \<Rightarrow> string \<Rightarrow> string \<times> bool" where
  "until_quote q [] = ([], False)"
| "until_quote q (c # cs) = (if c = q then ([c], True)
     else case until_quote q cs of (t, closed) \<Rightarrow> (c # t, closed))"

fun until_double_quote :: "string \<Rightarrow> string \<times> bool" where
  "until_double_quote [] = ([], False)"
| "until_double_quote (c # cs) =
     (if c = BS then
        (case cs of
           [] \<Rightarrow> ([c], False)
         | d # ds \<Rightarrow> (case until_double_quote ds of (t, closed) \<Rightarrow> (c # d # t, closed)))
      else if c = DQ then ([c], True)
      else case until_double_quote cs of (t, closed) \<Rightarrow> (c # t, closed))"

text \<open>A parenthesized group and the depth at which the scan ended. The depth is an \<open>i32\<close> in the source, which a
  text of fewer than \<open>2 ^ 31\<close> characters cannot overflow.\<close>

fun balanced_paren :: "int \<Rightarrow> string \<Rightarrow> string \<times> int" where
  "balanced_paren depth [] = ([], depth)"
| "balanced_paren depth (c # cs) =
     (let depth' = (if c = CHR ''('' then depth + 1 else if c = CHR '')'' then depth - 1 else depth)
      in if c = CHR '')'' \<and> depth' = 0 then ([c], 0)
         else case balanced_paren depth' cs of (t, d) \<Rightarrow> (c # t, d))"

definition unbalanced :: "int \<Rightarrow> shell_error option" where
  "unbalanced depth = (if depth \<noteq> 0 then Some (UnexpectedEof ([BQ] @ '')'' @ [BQ])) else None)"

fun balanced_paren_quoted :: "int \<Rightarrow> string \<Rightarrow> string \<times> int" where
  "balanced_paren_quoted depth [] = ([], depth)"
| "balanced_paren_quoted depth (c # cs) =
     (if c = SQ then
        (let t = fst (until_quote SQ cs)
         in case balanced_paren_quoted depth (drop (length t) cs) of (u, d) \<Rightarrow> (c # t @ u, d))
      else if c = DQ then
        (let t = fst (until_double_quote cs)
         in case balanced_paren_quoted depth (drop (length t) cs) of (u, d) \<Rightarrow> (c # t @ u, d))
      else if c = BS then
        (let t = take 1 cs
         in case balanced_paren_quoted depth (drop 1 cs) of (u, d) \<Rightarrow> (c # t @ u, d))
      else if c = CHR ''('' then
        (case balanced_paren_quoted (depth + 1) cs of (u, d) \<Rightarrow> (c # u, d))
      else if c = CHR '')'' then
        (if depth - 1 = 0 then ([c], 0)
         else case balanced_paren_quoted (depth - 1) cs of (u, d) \<Rightarrow> (c # u, d))
      else case balanced_paren_quoted depth cs of (u, d) \<Rightarrow> (c # u, d))"

definition is_name_start :: "char \<Rightarrow> bool" where
  "is_name_start c \<longleftrightarrow> is_ascii_alphabetic c \<or> c = CHR ''_''"

definition is_name_char :: "char \<Rightarrow> bool" where
  "is_name_char c \<longleftrightarrow> is_ascii_alphanumeric c \<or> c = CHR ''_''"

text \<open>\<open>name=\<close> or \<open>name+=\<close> in front of an opening parenthesis.\<close>

definition array_prefix :: "string \<Rightarrow> string option" where
  "array_prefix cs = (case cs of
       [] \<Rightarrow> None
     | c # _ \<Rightarrow>
         if \<not> is_name_start c then None
         else let name = takeWhile is_name_char cs; r = drop (length name) cs;
                  n = (if take 2 r = ''+='' then Some 2 else if take 1 r = ''='' then Some 1 else None)
              in case n of
                   None \<Rightarrow> None
                 | Some k \<Rightarrow> if char_at k r = Some (CHR ''('') then Some (take (length name + k) cs) else None)"

definition try_array_assign_prefix :: "string \<Rightarrow> (string \<times> shell_error option) option" where
  "try_array_assign_prefix cs = (case array_prefix cs of
       None \<Rightarrow> None
     | Some prefix \<Rightarrow> (case balanced_paren_quoted 0 (drop (length prefix) cs) of
         (parens, depth) \<Rightarrow> Some (prefix @ parens, unbalanced depth)))"

definition ends_word :: "char \<Rightarrow> bool" where
  "ends_word c \<longleftrightarrow> c \<in> set ('' '' @ [TAB, NL] @ '';&|()<>'')"

text \<open>The characters of a word, quoted parts verbatim, and the first error met.\<close>

fun word_chars :: "string \<Rightarrow> string \<times> shell_error option" where
  "word_chars [] = ([], None)"
| "word_chars (c # cs) =
     (if ends_word c then ([], None)
      else if c = BS then
        (case word_chars (drop 1 cs) of (u, e) \<Rightarrow> (c # take 1 cs @ u, e))
      else if c = SQ \<or> c = BQ then
        (case until_quote c cs of (t, closed) \<Rightarrow>
           case word_chars (drop (length t) cs) of (u, e) \<Rightarrow>
             (c # t @ u, first_error (if closed then None else Some (UnclosedQuote c)) e))
      else if c = DQ then
        (case until_double_quote cs of (t, closed) \<Rightarrow>
           case word_chars (drop (length t) cs) of (u, e) \<Rightarrow>
             (c # t @ u, first_error (if closed then None else Some (UnclosedQuote c)) e))
      else if c = CHR ''$'' \<and> char_at 0 cs = Some (CHR ''('') then
        (case balanced_paren 0 cs of (t, depth) \<Rightarrow>
           case word_chars (drop (length t) cs) of (u, e) \<Rightarrow> (c # t @ u, first_error (unbalanced depth) e))
      else case word_chars cs of (u, e) \<Rightarrow> (c # u, e))"

definition read_word :: "string \<Rightarrow> string \<times> shell_error option" where
  "read_word cs = (case try_array_assign_prefix cs of
       None \<Rightarrow> word_chars cs
     | Some (w, e) \<Rightarrow> (case word_chars (drop (length w) cs) of (u, f) \<Rightarrow> (w @ u, first_error e f)))"

fun double_bracket_regex :: "string \<Rightarrow> string" where
  "double_bracket_regex [] = []"
| "double_bracket_regex (c # cs) =
     (if c \<in> set ('' '' @ [TAB, NL]) then []
      else if c = CHR '']'' \<and> char_at 0 cs = Some (CHR '']'') then []
      else if c = BS then c # take 1 cs @ double_bracket_regex (drop 1 cs)
      else c # double_bracket_regex cs)"

text \<open>The expression of \<open>(( \<dots> ))\<close> after the opening pair, and whether the closing pair was found.\<close>

fun arithmetic_scan :: "nat \<Rightarrow> string \<Rightarrow> string \<times> bool" where
  "arithmetic_scan depth [] = ([], False)"
| "arithmetic_scan depth (c # cs) =
     (if c = CHR ''('' \<and> char_at 0 cs = Some (CHR ''('') then
        (case arithmetic_scan (depth + 1) (drop 1 cs) of (t, closed) \<Rightarrow> (c # take 1 cs @ t, closed))
      else if c = CHR '')'' \<and> char_at 0 cs = Some (CHR '')'') then
        (if depth - 1 = 0 then ([], True)
         else case arithmetic_scan (depth - 1) (drop 1 cs) of (t, closed) \<Rightarrow> (c # take 1 cs @ t, closed))
      else case arithmetic_scan depth cs of (t, closed) \<Rightarrow> (c # t, closed))"

text \<open>The delimiter of a here document, whether a part of it was quoted, and how much was read.\<close>

fun heredoc_delim :: "string \<Rightarrow> string \<times> bool \<times> nat" where
  "heredoc_delim [] = ([], False, 0)"
| "heredoc_delim (c # cs) =
     (if c = SQ \<or> c = DQ then
        (case until_quote c cs of (t, closed) \<Rightarrow>
           case heredoc_delim (drop (length t) cs) of (d, _, n) \<Rightarrow>
             ((if closed then butlast t else t) @ d, True, 1 + length t + n))
      else if c \<in> set ('' '' @ [TAB, NL] @ '';&|<>'') then ([], False, 0)
      else case heredoc_delim cs of (d, q, n) \<Rightarrow> (c # d, q, 1 + n))"

text \<open>The lines of a here document: the body, whether its delimiter was found, and how much was read.\<close>

function heredoc_lines :: "bool \<Rightarrow> string \<Rightarrow> string \<Rightarrow> string \<times> bool \<times> nat" where
  "heredoc_lines dashed delim cs =
     (let line = takeWhile (\<lambda>c. c \<noteq> NL) cs;
          r = drop (length line) cs;
          had_nl = (r \<noteq> []);
          n = length line + (if had_nl then 1 else 0);
          body_line = (if dashed then dropWhile (\<lambda>c. c = TAB) line else line)
      in if body_line = delim then ([], True, n)
         else if \<not> had_nl then (body_line @ [NL], False, n)
         else case heredoc_lines dashed delim (tl r) of (body, ok, k) \<Rightarrow> (body_line @ [NL] @ body, ok, n + k))"
  by pat_completeness auto
termination
  by (relation "measure (\<lambda>(_, _, cs). length cs)") (auto simp: Let_def intro: le_less_trans [OF diff_le_self] dest!: arg_cong [where f = length])

declare heredoc_lines.simps [simp del]

text \<open>A dashed delimiter is kept behind the marker \<open>\t-\<close>.\<close>

definition read_heredoc_body :: "string \<Rightarrow> lexer \<Rightarrow> string \<times> lexer" where
  "read_heredoc_body delim_enc s =
     (let dashed = (take 2 delim_enc = [TAB, CHR ''-'']);
          delim = (if dashed then drop 2 delim_enc else delim_enc)
      in case heredoc_lines dashed delim (lx_rest s) of (body, ok, n) \<Rightarrow>
           (body, (advance n s)\<lparr>heredocs_ok := heredocs_ok s \<and> ok\<rparr>))"

section \<open>Numbers\<close>

text \<open>\<open>parse::<i32>\<close> of a run of digits.\<close>

definition parse_i32_digits :: "string \<Rightarrow> int option" where
  "parse_i32_digits ds = map_option int (parse_below (2 ^ 31) ds)"

definition unwrap_or :: "'a option \<Rightarrow> 'a \<Rightarrow> 'a" where
  "unwrap_or x d = (case x of None \<Rightarrow> d | Some v \<Rightarrow> v)"

section \<open>One step of the main loop\<close>

text \<open>A pending here document: its encoded delimiter, whether it was quoted, and the token it fills.\<close>

type_synonym pending = "(string \<times> bool \<times> nat) list"

definition digits :: "string \<Rightarrow> string" where
  "digits cs = takeWhile is_ascii_digit cs"

definition fd_redirect_len :: "string \<Rightarrow> nat option" where
  "fd_redirect_len cs = (let n = length (digits cs)
     in if 0 < n \<and> (char_at n cs = Some (CHR ''<'') \<or> char_at n cs = Some (CHR ''>'')) then Some n else None)"

definition prev_is_boundary :: "lexer \<Rightarrow> bool" where
  "prev_is_boundary s = (case lx_before s of
       None \<Rightarrow> True
     | Some c \<Rightarrow> c \<in> set ('' '' @ [TAB, NL] @ '';&|(''))"

definition read_descriptor_target :: "string \<Rightarrow> string" where
  "read_descriptor_target cs = (if char_at 0 cs = Some (CHR ''-'') then ''-'' else digits cs)"

fun resolve_heredocs :: "pending \<Rightarrow> lexer \<Rightarrow> lexer" where
  "resolve_heredocs [] s = s"
| "resolve_heredocs ((delim, quoted, idx) # queued) s =
     (case read_heredoc_body delim s of (body, s') \<Rightarrow>
        resolve_heredocs queued (s'\<lparr>lx_toks := (lx_toks s')[idx := THeredoc body quoted]\<rparr>))"

definition lex_regex :: "lexer \<Rightarrow> lexer" where
  "lex_regex s =
     (let pattern = double_bracket_regex (lx_rest s);
          word = (if char_at 0 pattern = Some SQ \<or> char_at 0 pattern = Some DQ then pattern
                  else [DQ] @ pattern @ [DQ])
      in push_tok (TWord word) (advance (length pattern) s))"

definition lex_ampersand :: "lexer \<Rightarrow> lexer" where
  "lex_ampersand s =
     (let next = char_at 1 (lx_rest s)
      in if in_double_bracket s then
           (let word = (if next = Some (CHR ''&'') then ''&&'' else ''&'')
            in push_tok (TWord word) (advance (length word) s))
         else if next = Some (CHR ''&'') then advance 2 (push_tok (TOp ''&&'') s)
         else if next = Some (CHR ''>'') then
           (let appending = (char_at 2 (lx_rest s) = Some (CHR ''>''))
            in push_tok (TRedirFd 1 (if appending then ''&>>'' else ''&>''))
                 (advance (if appending then 3 else 2) s))
         else advance 1 (push_tok (TOp ''&'') s))"

definition lex_bar :: "lexer \<Rightarrow> lexer" where
  "lex_bar s =
     (let next = char_at 1 (lx_rest s)
      in if in_double_bracket s then
           (let word = (if next = Some (CHR ''|'') then ''||'' else ''|'')
            in push_tok (TWord word) (advance (length word) s))
         else if next = Some (CHR ''|'') then advance 2 (push_tok (TOp ''||'') s)
         else if next = Some (CHR ''&'') then advance 2 (push_tok (TOp ''|&'') s)
         else advance 1 (push_tok (TOp ''|'') s))"

definition lex_open_paren :: "lexer \<Rightarrow> lexer" where
  "lex_open_paren s =
     (if in_double_bracket s then advance 1 (push_tok (TWord ''('') s)
      else if char_at 1 (lx_rest s) = Some (CHR ''('') then
        (case arithmetic_scan 1 (drop 2 (lx_rest s)) of (expression, closed) \<Rightarrow>
           push_tok (TArithmetic expression)
             (note_error (if closed then None else Some (UnexpectedEof ([BQ] @ ''))'' @ [BQ])))
               (advance (2 + length expression + (if closed then 2 else 0)) s)))
      else advance 1 (push_tok (TOp ''('') s))"

definition lex_process_substitution :: "char \<Rightarrow> lexer \<Rightarrow> lexer" where
  "lex_process_substitution c s =
     (case balanced_paren 0 (drop 1 (lx_rest s)) of (grp, depth) \<Rightarrow>
        push_tok (TWord (c # grp)) (note_error (unbalanced depth) (advance (1 + length grp) s)))"

definition blank_prefix :: "string \<Rightarrow> nat" where
  "blank_prefix cs = length (takeWhile (\<lambda>c. c = CHR '' '' \<or> c = TAB) cs)"

definition lex_less :: "lexer \<times> pending \<Rightarrow> lexer \<times> pending" where
  "lex_less = (\<lambda>(s, pending).
     let rest = lx_rest s; next = char_at 1 rest
     in if in_double_bracket s then (advance 1 (push_tok (TWord ''<'') s), pending)
        else if next = Some (CHR ''('') then (lex_process_substitution (CHR ''<'') s, pending)
        else if next = Some (CHR ''&'') then
          (let target = read_descriptor_target (drop 2 rest)
           in (push_tok (TRedirFd 0 (''<&'' @ target)) (advance (2 + length target) s), pending))
        else if next = Some (CHR ''>'') then (push_tok (TRedirFd 0 ''<>'') (advance 2 s), pending)
        else if next = Some (CHR ''<'') \<and> char_at 2 rest = Some (CHR ''<'') then
          (let n = 3 + blank_prefix (drop 3 rest)
           in case read_word (drop n rest) of (word, e) \<Rightarrow>
                (push_tok (THereString word) (note_error e (advance (n + length word) s)), pending))
        else if next = Some (CHR ''<'') then
          (let dashed = (char_at 2 rest = Some (CHR ''-''));
               k = (if dashed then 3 else 2);
               n = k + blank_prefix (drop k rest)
           in case heredoc_delim (drop n rest) of (delim, quoted, len) \<Rightarrow>
                (push_tok (THeredoc [] quoted) (advance (n + len) s),
                 pending @ [((if dashed then [TAB, CHR ''-''] @ delim else delim), quoted, length (lx_toks s))]))
        else (advance 1 (push_tok TLess s), pending))"

definition lex_great :: "lexer \<Rightarrow> lexer" where
  "lex_great s =
     (let rest = lx_rest s; next = char_at 1 rest
      in if in_double_bracket s then advance 1 (push_tok (TWord ''>'') s)
         else if next = Some (CHR ''('') then lex_process_substitution (CHR ''>'') s
         else if next = Some (CHR ''>'') then advance 2 (push_tok TDGreat s)
         else if next = Some (CHR ''|'') then advance 2 (push_tok TGreat s)
         else if next = Some (CHR ''&'') then
           (if char_at 2 rest = Some (CHR ''-'') then push_tok TCloseOut (advance 3 s)
            else let n = digits (drop 2 rest)
                 in push_tok (TGreatAmp (unwrap_or (parse_i32_digits n) 1)) (advance (2 + length n) s))
         else advance 1 (push_tok TGreat s))"

text \<open>A redirection with a descriptor number in front, of \<open>k\<close> digits.\<close>

definition lex_fd_redirect :: "nat \<Rightarrow> lexer \<Rightarrow> lexer" where
  "lex_fd_redirect k s =
     (let fd = unwrap_or (parse_i32_digits (take k (lx_rest s))) (- 1);
          rest = drop k (lx_rest s);
          next = char_at 1 rest
      in if char_at 0 rest = Some (CHR ''>'') then
           (if next = Some (CHR ''>'') then push_tok (TRedirFd fd ''>>'') (advance (k + 2) s)
            else if next = Some (CHR ''&'') then
              (if char_at 2 rest = Some (CHR ''-'') then push_tok (TRedirFd fd ''>&-'') (advance (k + 3) s)
               else let n = digits (drop 2 rest)
                    in push_tok (TRedirFd fd (''>&'' @ n)) (advance (k + 2 + length n) s))
            else push_tok (TRedirFd fd ''>'') (advance (k + 1) s))
         else if next = Some (CHR ''&'') then
           (let target = read_descriptor_target (drop 2 rest)
            in push_tok (TRedirFd fd (''<&'' @ target)) (advance (k + 2 + length target) s))
         else if next = Some (CHR ''>'') then push_tok (TRedirFd fd ''<>'') (advance (k + 2) s)
         else push_tok (TRedirFd fd ''<'') (advance (k + 1) s))"

definition lex_word :: "lexer \<Rightarrow> lexer" where
  "lex_word s = (case read_word (lx_rest s) of (w, e) \<Rightarrow>
     let s' = note_error e (advance (length w) s);
         inside = (if w = ''[['' then True else if w = '']]'' \<and> in_double_bracket s then False else in_double_bracket s)
     in push_tok (TWord w) (s'\<lparr>in_double_bracket := inside\<rparr>))"

definition regex_expected :: "lexer \<Rightarrow> bool" where
  "regex_expected s \<longleftrightarrow> in_double_bracket s \<and> lx_toks s \<noteq> [] \<and> last (lx_toks s) = TWord ''=~''"

definition lex_step :: "lexer \<times> pending \<Rightarrow> lexer \<times> pending" where
  "lex_step = (\<lambda>(s, pending). case lx_rest s of
       [] \<Rightarrow> (s, pending)
     | c # cs \<Rightarrow>
         if regex_expected s \<and> c \<notin> set ('' '' @ [TAB, NL]) then (lex_regex s, pending)
         else if c = CHR '' '' \<or> c = TAB then (advance 1 s, pending)
         else if c = BS \<and> char_at 0 cs = Some NL then (advance 2 s, pending)
         else if c = NL then (push_tok (TOp [NL]) (resolve_heredocs pending (advance 1 s)), [])
         else if c = CHR ''#'' \<and> prev_is_boundary s then
           (advance (length (takeWhile (\<lambda>d. d \<noteq> NL) (lx_rest s))) s, pending)
         else if c = CHR '';'' then
           (if char_at 0 cs = Some (CHR '';'') then (advance 2 (push_tok (TOp '';;'') s), pending)
            else (advance 1 (push_tok (TOp '';'') s), pending))
         else if c = CHR ''&'' then (lex_ampersand s, pending)
         else if c = CHR ''|'' then (lex_bar s, pending)
         else if c = CHR ''('' then (lex_open_paren s, pending)
         else if c = CHR '')'' then
           (advance 1 (push_tok (if in_double_bracket s then TWord '')'' else TOp '')'') s), pending)
         else if c = CHR ''<'' then lex_less (s, pending)
         else if c = CHR ''>'' then (lex_great s, pending)
         else (case (if is_ascii_digit c then fd_redirect_len (lx_rest s) else None) of
             Some k \<Rightarrow> (lex_fd_redirect k s, pending)
           | None \<Rightarrow> (lex_word s, pending)))"

section \<open>The main loop\<close>

lemma advance_rest [simp]: "lx_rest (advance n s) = drop n (lx_rest s)"
  by (cases n; cases "lx_rest s") (simp_all add: advance_def)

lemma advance_frame [simp]:
  "lx_toks (advance n s) = lx_toks s" "in_double_bracket (advance n s) = in_double_bracket s"
  "heredocs_ok (advance n s) = heredocs_ok s" "lex_error (advance n s) = lex_error s"
  by (simp_all add: advance_def split: list.split)

lemma token_frame [simp]:
  "lx_rest (push_tok t s) = lx_rest s" "lx_toks (push_tok t s) = lx_toks s @ [t]"
  "in_double_bracket (push_tok t s) = in_double_bracket s" "lex_error (push_tok t s) = lex_error s"
  "heredocs_ok (push_tok t s) = heredocs_ok s"
  "lx_rest (note_error e s) = lx_rest s" "lx_toks (note_error e s) = lx_toks s"
  "in_double_bracket (note_error e s) = in_double_bracket s" "heredocs_ok (note_error e s) = heredocs_ok s"
  "lex_error (note_error e s) = first_error (lex_error s) e"
  by (simp_all add: push_tok_def note_error_def)

lemma resolve_heredocs_rest: "length (lx_rest (resolve_heredocs ps s)) \<le> length (lx_rest s)"
proof (induction ps s rule: resolve_heredocs.induct)
  case (2 delim quoted idx queued s)
  obtain body s' where b: "read_heredoc_body delim s = (body, s')" by fastforce
  then have "length (lx_rest s') \<le> length (lx_rest s)"
    by (auto simp: read_heredoc_body_def Let_def split: prod.splits)
  with 2 [OF b [symmetric]] b show ?case by simp
qed simp

lemma word_chars_nonempty: "\<not> ends_word c \<Longrightarrow> fst (word_chars (c # cs)) \<noteq> []"
  by (simp add: case_prod_unfold)

lemma array_prefix_nonempty: "array_prefix (c # cs) = Some p \<Longrightarrow> p \<noteq> []"
proof -
  assume p: "array_prefix (c # cs) = Some p"
  then have "is_name_start c" by (simp add: array_prefix_def split: if_splits)
  then have "is_name_char c" by (auto simp: is_name_start_def is_name_char_def is_ascii_alphanumeric_def)
  then show ?thesis
    using p by (cases p) (simp_all add: array_prefix_def Let_def split: if_splits)
qed

lemma word_nonempty: "\<not> ends_word c \<Longrightarrow> fst (read_word (c # cs)) \<noteq> []"
  using word_chars_nonempty [of c cs] array_prefix_nonempty [of c cs]
  by (auto simp: read_word_def try_array_assign_prefix_def case_prod_unfold simp del: word_chars.simps split: option.splits)

text \<open>Every iteration consumes text, or the regular expression that was expected.\<close>

definition lex_left :: "lexer \<Rightarrow> nat" where
  "lex_left s = 2 * length (lx_rest s) + (if regex_expected s then 1 else 0)"

lemma lex_left_shorter: "length (lx_rest s') < length (lx_rest s) \<Longrightarrow> lex_left s' < lex_left s"
  by (simp add: lex_left_def)

lemma lex_regex_left: "regex_expected s \<Longrightarrow> lex_left (lex_regex s) < lex_left s"
  by (auto simp: lex_left_def lex_regex_def Let_def regex_expected_def char_at_def)

lemma branches_shorter:
  assumes "lx_rest s = c # cs"
  shows "length (lx_rest (lex_ampersand s)) < length (lx_rest s)" "length (lx_rest (lex_bar s)) < length (lx_rest s)"
    "length (lx_rest (lex_open_paren s)) < length (lx_rest s)" "length (lx_rest (lex_great s)) < length (lx_rest s)"
    "length (lx_rest (fst (lex_less (s, ps)))) < length (lx_rest s)"
    "0 < k \<Longrightarrow> length (lx_rest (lex_fd_redirect k s)) < length (lx_rest s)"
    "\<not> ends_word c \<Longrightarrow> length (lx_rest (lex_word s)) < length (lx_rest s)"
proof -
  show "length (lx_rest (lex_ampersand s)) < length (lx_rest s)" "length (lx_rest (lex_bar s)) < length (lx_rest s)"
    using assms by (simp_all add: less_Suc_eq_le lex_ampersand_def lex_bar_def Let_def)
  show "length (lx_rest (lex_open_paren s)) < length (lx_rest s)"
    using assms by (simp add: less_Suc_eq_le lex_open_paren_def split: prod.split)
  show "length (lx_rest (lex_great s)) < length (lx_rest s)"
    using assms by (simp add: less_Suc_eq_le lex_great_def lex_process_substitution_def Let_def split: prod.split)
  show "length (lx_rest (fst (lex_less (s, ps)))) < length (lx_rest s)"
    using assms by (simp add: less_Suc_eq_le lex_less_def lex_process_substitution_def Let_def split: prod.split)
  show "0 < k \<Longrightarrow> length (lx_rest (lex_fd_redirect k s)) < length (lx_rest s)"
    using assms by (simp add: less_Suc_eq_le lex_fd_redirect_def Let_def)
  show "\<not> ends_word c \<Longrightarrow> length (lx_rest (lex_word s)) < length (lx_rest s)"
    using assms word_nonempty [of c cs] by (cases "read_word (c # cs)") (auto simp: lex_word_def Let_def)
qed

lemma lex_step_left:
  assumes "lx_rest s \<noteq> []"
  shows "lex_left (fst (lex_step (s, ps))) < lex_left s"
proof -
  obtain c cs where c: "lx_rest s = c # cs" using assms by (cases "lx_rest s") auto
  note b = branches_shorter [OF c]
  have nl: "length (lx_rest (resolve_heredocs ps (advance 1 s))) < length (lx_rest s)"
    using resolve_heredocs_rest [of ps "advance 1 s"] c by simp
  have fd: "lex_left (fst (lex_fd_redirect k s, ps)) < lex_left s" if "fd_redirect_len (c # cs) = Some k" for k
    using that b(6) by (auto simp: fd_redirect_len_def Let_def intro: lex_left_shorter split: if_splits)
  have "lex_left (lex_word s) < lex_left s" if "c \<noteq> CHR '' ''" "c \<noteq> TAB" "c \<noteq> NL" "c \<noteq> CHR '';''" "c \<noteq> CHR ''&''" "c \<noteq> CHR ''|''"
      "c \<noteq> CHR ''(''" "c \<noteq> CHR '')''" "c \<noteq> CHR ''<''" "c \<noteq> CHR ''>''"
    using that b(7) by (intro lex_left_shorter) (simp add: ends_word_def)
  moreover have skip: "lex_left (push_tok t (resolve_heredocs ps (advance 1 s))) < lex_left s"
      "lex_left (advance (Suc n) s) < lex_left s" "lex_left (advance (Suc n) (push_tok t s)) < lex_left s" for n t
    using c nl by (intro lex_left_shorter; simp)+
  moreover have "lex_left (advance (length (takeWhile (\<lambda>d. d \<noteq> NL) (CHR ''#'' # cs))) s) < lex_left s"
    using c by (intro lex_left_shorter) simp
  ultimately show ?thesis
    using b(1-5) [THEN lex_left_shorter] fd lex_regex_left [of s] c skip(2,3) [of 0] skip(2,3) [of 1]
    by (simp add: lex_step_def numeral_2_eq_2 split: option.split)
qed

function lex_loop :: "lexer \<times> pending \<Rightarrow> lexer \<times> pending" where
  "lex_loop (s, pending) = (if lx_rest s = [] then (s, pending) else lex_loop (lex_step (s, pending)))"
  by pat_completeness auto
termination
  by (relation "measure (\<lambda>(s, _). lex_left s)") (auto simp: case_prod_unfold lex_step_left)

declare lex_loop.simps [simp del]

definition tokenize :: "string \<Rightarrow> tok list \<times> bool \<times> shell_error option" where
  "tokenize src = (case lex_loop (new_lexer src, []) of (s, pending) \<Rightarrow>
     let s1 = resolve_heredocs pending s;
         s2 = note_error (if in_double_bracket s1 then Some (UnexpectedEof ([BQ] @ '']]'' @ [BQ])) else None) s1
     in (lx_toks s2 @ [TEof], heredocs_ok s2, lex_error s2))"

end
