(* ===== verification/Shell_Parser.thy ===== *)
theory Shell_Parser
  imports Shell_Lexer
begin

text \<open>
  The recursive-descent parser of the shell, \<open>Parser\<close> of \<open>src/src/shell.rs\<close>, and \<open>parse\<close>. The parser keeps
  its position in the tokens, the first error and the depth of the tree under construction. The
  mutually recursive functions take fuel and return \<open>None\<close> when it runs out; \<open>parse\<close> gives them
  three units for every token, and the section on termination shows that this is enough.

  \<open>attach_redirects\<close> holds an \<open>unreachable!\<close> for redirections that the lexer does not emit; reaching it
  sets \<open>ps_panic\<close>.
\<close>

definition MAX_SYNTAX_DEPTH :: nat where "MAX_SYNTAX_DEPTH = 1000"

record shell_parser =
  ps_toks :: "tok list"
  ps_i :: nat
  ps_error :: "shell_error option"
  ps_depth :: nat
  ps_panic :: bool

definition new_parser :: "tok list \<Rightarrow> shell_parser" where
  "new_parser ts = \<lparr>ps_toks = ts, ps_i = 0, ps_error = None, ps_depth = 0, ps_panic = False\<rparr>"

definition RESERVED :: "string list" where
  "RESERVED = [''if'', ''then'', ''elif'', ''else'', ''fi'', ''for'', ''while'', ''until'', ''do'', ''done'', ''case'',
     ''esac'', ''in'', ''function'', ''{'', ''}'', ''!'', ''[['', '']]'']"

section \<open>Words\<close>

text \<open>\<open>name=\<close>, \<open>name+=\<close>, \<open>name[sub]=\<close> or \<open>name[sub]+=\<close> in front of a value.\<close>

definition assignment_target :: "string \<Rightarrow> string" where
  "assignment_target w = takeWhile (\<lambda>c. c \<noteq> CHR ''='') w"

definition assignment_name :: "string \<Rightarrow> string option" where
  "assignment_name lhs =
     (if CHR ''['' \<in> set lhs
      then if last lhs = CHR '']'' then Some (takeWhile (\<lambda>c. c \<noteq> CHR ''['') lhs) else None
      else Some lhs)"

definition is_assignment :: "string \<Rightarrow> bool" where
  "is_assignment w =
     (let lhs = assignment_target w
      in CHR ''='' \<in> set w \<and> lhs \<noteq> []
         \<and> (case assignment_name (if last lhs = CHR ''+'' then butlast lhs else lhs) of
              None \<Rightarrow> False
            | Some name \<Rightarrow> name \<noteq> [] \<and> is_name_start (hd name) \<and> list_all is_name_char (tl name)))"

definition split_assignment :: "string \<Rightarrow> string \<times> string" where
  "split_assignment w = (assignment_target w, drop (Suc (length (assignment_target w))) w)"

text \<open>The scan of \<open>for (( \<dots> ))\<close> for its two semicolons outside quotes and brackets.\<close>

record c_for_scan =
  cf_quote :: "char option"
  cf_escaped :: bool
  cf_parens :: u32
  cf_braces :: u32
  cf_brackets :: u32

fun c_for_boundaries :: "nat \<Rightarrow> c_for_scan \<Rightarrow> nat list \<Rightarrow> string \<Rightarrow> nat list" where
  "c_for_boundaries index st found [] = found"
| "c_for_boundaries index st found (ch # cs) =
     (if cf_escaped st then c_for_boundaries (Suc index) (st\<lparr>cf_escaped := False\<rparr>) found cs
      else if ch = BS \<and> cf_quote st \<noteq> Some SQ then c_for_boundaries (Suc index) (st\<lparr>cf_escaped := True\<rparr>) found cs
      else if ch = SQ \<or> ch = DQ \<or> ch = BQ then
        c_for_boundaries (Suc index)
          (st\<lparr>cf_quote := (if cf_quote st = Some ch then None else if cf_quote st = None then Some ch else cf_quote st)\<rparr>)
          found cs
      else if cf_quote st \<noteq> None then c_for_boundaries (Suc index) st found cs
      else if ch = CHR ''('' then c_for_boundaries (Suc index) (st\<lparr>cf_parens := saturating_add (cf_parens st) 1\<rparr>) found cs
      else if ch = CHR '')'' then c_for_boundaries (Suc index) (st\<lparr>cf_parens := saturating_sub (cf_parens st) 1\<rparr>) found cs
      else if ch = CHR ''{'' then c_for_boundaries (Suc index) (st\<lparr>cf_braces := saturating_add (cf_braces st) 1\<rparr>) found cs
      else if ch = CHR ''}'' then c_for_boundaries (Suc index) (st\<lparr>cf_braces := saturating_sub (cf_braces st) 1\<rparr>) found cs
      else if ch = CHR ''['' then c_for_boundaries (Suc index) (st\<lparr>cf_brackets := saturating_add (cf_brackets st) 1\<rparr>) found cs
      else if ch = CHR '']'' then c_for_boundaries (Suc index) (st\<lparr>cf_brackets := saturating_sub (cf_brackets st) 1\<rparr>) found cs
      else if ch = CHR '';'' \<and> cf_parens st = 0 \<and> cf_braces st = 0 \<and> cf_brackets st = 0 then
        (if length found = 1 then found @ [index] else c_for_boundaries (Suc index) st (found @ [index]) cs)
      else c_for_boundaries (Suc index) st found cs)"

definition split_c_for_expression :: "string \<Rightarrow> string \<times> string \<times> string" where
  "split_c_for_expression e =
     (let bs = c_for_boundaries 0 \<lparr>cf_quote = None, cf_escaped = False, cf_parens = 0, cf_braces = 0, cf_brackets = 0\<rparr> [] e;
          first = (case bs of [] \<Rightarrow> length e | b # _ \<Rightarrow> b);
          second = (case bs of _ # b # _ \<Rightarrow> b | _ \<Rightarrow> length e)
      in (trim (take first e), trim (drop (min (first + 1) (length e)) (take second e)),
          trim (drop (min (second + 1) (length e)) e)))"

fun token_description :: "tok \<Rightarrow> string" where
  "token_description (TWord w) = [BQ] @ w @ [BQ]"
| "token_description (TOp op) = [BQ] @ op @ [BQ]"
| "token_description TLess = [BQ] @ ''<'' @ [BQ]"
| "token_description TGreat = [BQ] @ ''>'' @ [BQ]"
| "token_description TDGreat = [BQ] @ ''>>'' @ [BQ]"
| "token_description (THeredoc _ _) = ''heredoc''"
| "token_description (TArithmetic _) = ''arithmetic command''"
| "token_description (THereString _) = ''here-string''"
| "token_description (TGreatAmp _) = ''redirection''"
| "token_description TCloseOut = ''redirection''"
| "token_description (TRedirFd _ _) = ''redirection''"
| "token_description TEof = ''end of file''"

section \<open>Tokens\<close>

definition peek :: "shell_parser \<Rightarrow> tok" where
  "peek s = (if ps_i s < length (ps_toks s) then ps_toks s ! ps_i s else TEof)"

definition bump :: "shell_parser \<Rightarrow> shell_parser" where
  "bump s = s\<lparr>ps_i := ps_i s + 1\<rparr>"

definition bump_if :: "bool \<Rightarrow> shell_parser \<Rightarrow> shell_parser" where
  "bump_if b s = (if b then bump s else s)"

text \<open>A loop that advances over tokens.\<close>

definition skip_toks :: "(tok \<Rightarrow> bool) \<Rightarrow> shell_parser \<Rightarrow> shell_parser" where
  "skip_toks P s = s\<lparr>ps_i := ps_i s + length (takeWhile P (drop (ps_i s) (ps_toks s)))\<rparr>"

definition is_terminator :: "tok \<Rightarrow> bool" where
  "is_terminator t \<longleftrightarrow> t = TOp [NL] \<or> t = TOp '';''"

definition skip_newlines :: "shell_parser \<Rightarrow> shell_parser" where "skip_newlines = skip_toks is_terminator"
definition skip_terminators :: "shell_parser \<Rightarrow> shell_parser" where "skip_terminators = skip_toks is_terminator"
definition skip_blank_newlines :: "shell_parser \<Rightarrow> shell_parser" where "skip_blank_newlines = skip_toks (\<lambda>t. t = TOp [NL])"

definition word_is :: "string \<Rightarrow> shell_parser \<Rightarrow> bool" where
  "word_is kw s \<longleftrightarrow> peek s = TWord kw"

definition expected :: "string \<Rightarrow> shell_parser \<Rightarrow> shell_parser" where
  "expected e s = (if ps_error s \<noteq> None then s
     else s\<lparr>ps_error := Some (if peek s = TEof then UnexpectedEof e
            else UnexpectedToken (token_description (peek s)) e)\<rparr>)"

definition ticked :: "string \<Rightarrow> string" where
  "ticked w = [BQ] @ w @ [BQ]"

definition expect_op :: "string \<Rightarrow> shell_parser \<Rightarrow> shell_parser" where
  "expect_op op s = (if peek s = TOp op then bump s else expected (ticked op) s)"

definition expect_word :: "string \<Rightarrow> shell_parser \<Rightarrow> shell_parser" where
  "expect_word kw s = (let s = skip_newlines s in if word_is kw s then bump s else expected (ticked kw) s)"

definition take_word :: "shell_parser \<Rightarrow> shell_parser \<times> string" where
  "take_word s = (case peek s of TWord w \<Rightarrow> (bump s, w) | _ \<Rightarrow> (expected ''word'' s, []))"

definition too_deep :: "shell_parser \<Rightarrow> shell_parser" where
  "too_deep s = (if ps_error s = None then s\<lparr>ps_error := Some NestingTooDeep\<rparr> else s)"

definition at_block_end :: "shell_parser \<Rightarrow> bool" where
  "at_block_end s = (case peek s of
       TWord w \<Rightarrow> w \<in> set [''then'', ''elif'', ''else'', ''fi'', ''do'', ''done'', ''esac'', ''}'', '')'']
     | TOp op \<Rightarrow> op = '')'' \<or> op = '';;''
     | _ \<Rightarrow> False)"

section \<open>Redirections\<close>

abbreviation redir :: "int \<Rightarrow> redir_op \<Rightarrow> string \<Rightarrow> redirect" where
  "redir f op target \<equiv> \<lparr>rd_fd = f, rd_op = op, rd_target = target\<rparr>"

definition redirect_pipeline_stderr :: "shell_node \<Rightarrow> shell_node" where
  "redirect_pipeline_stderr n = (let r = redir 2 RDupOut ''&1''
     in case n of
          Command as ws rs \<Rightarrow> Command as ws (rs @ [r])
        | Redirected m rs \<Rightarrow> Redirected m (rs @ [r])
        | _ \<Rightarrow> Redirected n [r])"

text \<open>A redirection to the word that follows.\<close>

definition file_redirect :: "int \<Rightarrow> redir_op \<Rightarrow> shell_parser \<Rightarrow> shell_parser \<times> redirect list" where
  "file_redirect f op s = (case take_word s of (s, t) \<Rightarrow> (s, [redir f op t]))"

text \<open>The redirections that simple and compound commands read alike. \<open>None\<close> is any other token.\<close>

definition common_redirect :: "shell_parser \<Rightarrow> (shell_parser \<times> redirect list) option" where
  "common_redirect s = (let s' = bump s in case peek s of
       TLess \<Rightarrow> Some (file_redirect 0 RRead s')
     | TGreat \<Rightarrow> Some (file_redirect 1 RWrite s')
     | TDGreat \<Rightarrow> Some (file_redirect 1 RAppend s')
     | TGreatAmp n \<Rightarrow> Some (s', [redir 1 RDupOut (''&'' @ show_int n)])
     | TCloseOut \<Rightarrow> Some (s', [redir 1 RClose ''-''])
     | THeredoc body quoted \<Rightarrow> Some (s', [redir 0 (if quoted then RHeredocRaw else RHeredoc) body])
     | THereString target \<Rightarrow> Some (s', [redir 0 RHereString target])
     | _ \<Rightarrow> None)"

definition both_outputs :: "string \<Rightarrow> shell_parser \<Rightarrow> shell_parser \<times> redirect list" where
  "both_outputs op s = (case take_word s of (s, t) \<Rightarrow>
     (s, [redir 1 (if op = ''&>>'' then RAppend else RWrite) t, redir 2 RDupOut ''&1'']))"

text \<open>A redirection with a descriptor, in a simple command: an operator that is not known is dropped.\<close>

definition simple_fd_redirect :: "int \<Rightarrow> string \<Rightarrow> shell_parser \<Rightarrow> shell_parser \<times> redirect list" where
  "simple_fd_redirect f op s =
     (if op = ''&>'' \<or> op = ''&>>'' then both_outputs op s
      else if op = ''>&-'' \<or> op = ''<&-'' then (s, [redir f RClose ''-''])
      else if take 2 op = ''>&'' then (s, [redir f RDupOut (''&'' @ drop 2 op)])
      else if take 2 op = ''<&'' then (s, [redir f RDupOut (''&'' @ drop 2 op)])
      else if op = ''<>'' then file_redirect f RReadWrite s
      else if op = ''>'' then file_redirect f RWrite s
      else if op = ''>>'' then file_redirect f RAppend s
      else if op = ''<'' then file_redirect f RRead s
      else (s, []))"

text \<open>After a compound command an unknown operator is a panic.\<close>

definition attached_fd_redirect :: "int \<Rightarrow> string \<Rightarrow> shell_parser \<Rightarrow> shell_parser \<times> redirect list" where
  "attached_fd_redirect f op s =
     (if op = ''&>'' \<or> op = ''&>>'' then both_outputs op s
      else if op = ''>'' then file_redirect f RWrite s
      else if op = ''>>'' then file_redirect f RAppend s
      else if op = ''<'' then file_redirect f RRead s
      else if op = ''<>'' then file_redirect f RReadWrite s
      else if op = ''>&-'' \<or> op = ''<&-'' then (s, [redir f RClose ''-''])
      else if take 2 op = ''>&'' then (s, [redir f RDupOut (''&'' @ drop 2 op)])
      else if take 2 op = ''<&'' then (s, [redir f RDupOut (''&'' @ drop 2 op)])
      else (s\<lparr>ps_panic := True\<rparr>, []))"

definition simple_redirect :: "shell_parser \<Rightarrow> (shell_parser \<times> redirect list) option" where
  "simple_redirect s = (case peek s of
       TRedirFd f op \<Rightarrow> Some (simple_fd_redirect f op (bump s))
     | _ \<Rightarrow> common_redirect s)"

definition attached_redirect :: "shell_parser \<Rightarrow> (shell_parser \<times> redirect list) option" where
  "attached_redirect s = (case peek s of
       TRedirFd f op \<Rightarrow> Some (attached_fd_redirect f op (bump s))
     | _ \<Rightarrow> common_redirect s)"

section \<open>Loops over tokens\<close>

text \<open>
  The operators that the lexer puts into a redirection token. \<open>attach_redirects\<close> is prepared for these only.
\<close>

definition known_op :: "string \<Rightarrow> bool" where
  "known_op op \<longleftrightarrow> op \<in> set [''&>'', ''&>>'', ''>'', ''>>'', ''<'', ''<>''] \<or> take 2 op = ''>&'' \<or> take 2 op = ''<&''"

definition known_tok :: "tok \<Rightarrow> bool" where
  "known_tok t = (case t of TRedirFd f op \<Rightarrow> known_op op | _ \<Rightarrow> True)"

text \<open>
  What every part of the parser does to its state: the tokens and the depth are kept, the position does
  not move back, the first error stays, and tokens of the lexer cause no panic.
\<close>

definition moves :: "shell_parser \<Rightarrow> shell_parser \<Rightarrow> bool" where
  "moves s s' \<longleftrightarrow> ps_toks s' = ps_toks s \<and> ps_i s \<le> ps_i s' \<and> ps_depth s' = ps_depth s
     \<and> (ps_error s \<noteq> None \<longrightarrow> ps_error s' = ps_error s)
     \<and> (list_all known_tok (ps_toks s) \<longrightarrow> ps_panic s' = ps_panic s)"

definition toks_left :: "shell_parser \<Rightarrow> nat" where
  "toks_left s = length (ps_toks s) - ps_i s"

lemma moves_refl [simp, intro]: "moves s s"
  by (simp add: moves_def)

lemma moves_trans [trans]: "moves s1 s2 \<Longrightarrow> moves s2 s3 \<Longrightarrow> moves s1 s3"
  by (auto simp: moves_def)

lemma moves_left: "moves s s' \<Longrightarrow> toks_left s' \<le> toks_left s"
  by (auto simp: moves_def toks_left_def)

lemma moves_steps [simp, intro]:
  "moves s (bump s)" "moves s (bump_if b s)" "moves s (skip_toks P s)" "moves s (expected e s)" "moves s (too_deep s)"
  "moves s (skip_newlines s)" "moves s (skip_terminators s)" "moves s (skip_blank_newlines s)"
  by (simp_all add: moves_def bump_def bump_if_def skip_toks_def expected_def too_deep_def skip_newlines_def
      skip_terminators_def skip_blank_newlines_def)

lemma moves_bumped: "moves (bump s) s' \<Longrightarrow> moves s s'"
  by (erule moves_trans [OF moves_steps(1)])

lemma moves_expect [simp, intro]: "moves s (expect_op op s)" "moves s (expect_word kw s)"
  by (auto simp: expect_op_def expect_word_def Let_def intro: moves_trans [OF moves_steps(6)])

lemma moves_take_word: "take_word s = (s', w) \<Longrightarrow> moves s s'"
  by (auto simp: take_word_def split: tok.splits)

lemma toks_left_bump: "peek s \<noteq> TEof \<Longrightarrow> toks_left (bump s) < toks_left s"
  by (auto simp: peek_def bump_def toks_left_def split: if_splits)

lemma moves_file_redirect: "file_redirect f op s = (s', rs) \<Longrightarrow> moves s s'"
  by (auto simp: file_redirect_def split: prod.splits dest: moves_take_word)

lemma moves_both_outputs: "both_outputs op s = (s', rs) \<Longrightarrow> moves s s'"
  by (auto simp: both_outputs_def split: prod.splits dest: moves_take_word)

lemma moves_common:
  assumes "common_redirect s = Some (s', rs)"
  shows "peek s \<noteq> TEof \<and> moves (bump s) s'"
  using assms moves_file_redirect [of _ _ "bump s" s']
  by (cases "peek s") (simp_all add: common_redirect_def)

lemma moves_simple_redirect:
  assumes "simple_redirect s = Some (s', rs)"
  shows "peek s \<noteq> TEof \<and> moves (bump s) s'"
proof (cases "\<exists>f op. peek s = TRedirFd f op")
  case True
  then show ?thesis
    using assms moves_file_redirect [of _ _ "bump s" s'] moves_both_outputs [of _ "bump s" s']
    by (auto simp: simple_redirect_def simple_fd_redirect_def split: if_splits)
qed (use assms moves_common in \<open>auto simp: simple_redirect_def split: tok.splits\<close>)

lemma peek_known: "list_all known_tok (ps_toks s) \<Longrightarrow> known_tok (peek s)"
  by (auto simp: peek_def list_all_length known_tok_def)

lemma attached_fd_cases:
  assumes "attached_fd_redirect f op s = (s', rs)"
  shows "moves s s' \<or> \<not> known_op op \<and> s' = s\<lparr>ps_panic := True\<rparr>"
proof -
  consider "op = ''&>'' \<or> op = ''&>>''" | "op = ''>''" | "op = ''>>''" | "op = ''<''" | "op = ''<>''"
    | "take 2 op = ''>&'' \<or> take 2 op = ''<&''" | "\<not> known_op op"
    by (auto simp only: known_op_def list.set insert_iff empty_iff)
  then show ?thesis
  proof cases
    case 6
    then have "op \<noteq> ''&>'' \<and> op \<noteq> ''&>>'' \<and> op \<noteq> ''>'' \<and> op \<noteq> ''>>'' \<and> op \<noteq> ''<'' \<and> op \<noteq> ''<>''" by auto
    with 6 assms show ?thesis by (auto simp only: attached_fd_redirect_def if_True if_False moves_refl prod.inject split: if_split_asm)
  qed (use assms in \<open>simp_all add: attached_fd_redirect_def known_op_def moves_both_outputs moves_file_redirect split: if_split_asm\<close>)
qed

lemma moves_attached_fd:
  assumes "attached_fd_redirect f op (bump s) = (s', rs)" and tok: "peek s = TRedirFd f op"
  shows "moves (bump s) s'"
  using attached_fd_cases [OF assms(1)] peek_known [of s] tok
  by (auto simp: moves_def known_tok_def bump_def)

lemma moves_attached_redirect:
  assumes "attached_redirect s = Some (s', rs)"
  shows "peek s \<noteq> TEof \<and> moves (bump s) s'"
proof (cases "\<exists>f op. peek s = TRedirFd f op")
  case True
  then show ?thesis
    using assms moves_attached_fd [of _ _ s s' rs] by (auto simp: attached_redirect_def)
qed (use assms moves_common in \<open>auto simp: attached_redirect_def split: tok.splits\<close>)

lemma redirect_left:
  "simple_redirect s = Some (s', rs) \<Longrightarrow> toks_left s' < toks_left s"
  "attached_redirect s = Some (s', rs) \<Longrightarrow> toks_left s' < toks_left s"
  using moves_simple_redirect [of s s' rs] moves_attached_redirect [of s s' rs] moves_left [of "bump s" s'] toks_left_bump [of s]
  by auto

function simple_loop :: "shell_parser \<Rightarrow> string list \<Rightarrow> redirect list \<Rightarrow> shell_parser \<times> string list \<times> redirect list" where
  "simple_loop s words redirects = (case peek s of
       TWord w \<Rightarrow> if words = [] \<and> w \<in> set RESERVED \<and> w \<noteq> ''[['' then (s, words, redirects)
                  else simple_loop (bump s) (words @ [w]) redirects
     | _ \<Rightarrow> (case simple_redirect s of
         None \<Rightarrow> (s, words, redirects)
       | Some (s', rs) \<Rightarrow> simple_loop s' words (redirects @ rs)))"
  by pat_completeness auto
termination
  by (relation "measure (\<lambda>(s, _, _). toks_left s)") (auto simp: toks_left_bump dest!: redirect_left)

declare simple_loop.simps [simp del]

definition parse_simple :: "shell_parser \<Rightarrow> shell_parser \<times> shell_node" where
  "parse_simple s =
     (let assigns = takeWhile (\<lambda>t. case t of TWord w \<Rightarrow> is_assignment w | _ \<Rightarrow> False) (drop (ps_i s) (ps_toks s));
          s1 = s\<lparr>ps_i := ps_i s + length assigns\<rparr>
      in case simple_loop s1 [] [] of (s2, words, redirects) \<Rightarrow>
           (s2, Command (map (\<lambda>t. case t of TWord w \<Rightarrow> split_assignment w | _ \<Rightarrow> ([], [])) assigns) words redirects))"

function attach_loop :: "shell_parser \<Rightarrow> redirect list \<Rightarrow> shell_parser \<times> redirect list" where
  "attach_loop s redirs = (case attached_redirect s of
       None \<Rightarrow> (s, redirs)
     | Some (s', rs) \<Rightarrow> attach_loop s' (redirs @ rs))"
  by pat_completeness auto
termination
  by (relation "measure (\<lambda>(s, _). toks_left s)") (auto dest!: redirect_left)

declare attach_loop.simps [simp del]

definition attach_redirects :: "shell_parser \<Rightarrow> shell_node \<Rightarrow> shell_parser \<times> shell_node" where
  "attach_redirects s n = (case attach_loop s [] of (s', redirs) \<Rightarrow>
     (s', if redirs = [] then n else Redirected n redirs))"

text \<open>The patterns of a \<open>case\<close> arm, separated by bars.\<close>

function case_patterns :: "shell_parser \<Rightarrow> string list \<Rightarrow> shell_parser \<times> string list" where
  "case_patterns s pats = (case take_word s of (s1, w) \<Rightarrow>
     if peek s1 = TOp ''|'' then case_patterns (bump s1) (pats @ [w]) else (s1, pats @ [w]))"
  by pat_completeness auto
termination
proof (relation "measure (\<lambda>(s, _). toks_left s)")
  fix s s1 w and pats :: "string list"
  assume "(s1, w) = take_word s" "peek s1 = TOp ''|''"
  then show "((bump s1, pats @ [w]), (s, pats)) \<in> measure (\<lambda>(s, _). toks_left s)"
    using moves_left [OF moves_take_word, of s s1 w] toks_left_bump [of s1] by simp
qed simp

declare case_patterns.simps [simp del]

section \<open>The recursive functions\<close>

definition deeper :: "shell_parser \<Rightarrow> shell_parser" where
  "deeper s = s\<lparr>ps_depth := ps_depth s + 1\<rparr>"

definition shallower :: "nat \<Rightarrow> shell_parser \<Rightarrow> shell_parser" where
  "shallower n s = s\<lparr>ps_depth := ps_depth s - n\<rparr>"

definition one_or_seq :: "shell_node list \<Rightarrow> shell_node" where
  "one_or_seq nodes = (if length nodes = 1 then hd nodes else Seq nodes)"

definition one_or_pipeline :: "shell_node list \<Rightarrow> shell_node" where
  "one_or_pipeline stages = (if length stages = 1 then hd stages else Pipeline stages)"

text \<open>\<open>name () body\<close>: a word that is not reserved in front of an empty pair of parentheses.\<close>

definition function_header :: "shell_parser \<Rightarrow> string option" where
  "function_header s = (case peek s of
       TWord name \<Rightarrow>
         if name \<notin> set RESERVED \<and> peek (bump s) = TOp ''('' \<and> peek (bump (bump s)) = TOp '')'' then Some name else None
     | _ \<Rightarrow> None)"

text \<open>Whether a command cannot start here.\<close>

definition no_command :: "shell_parser \<Rightarrow> bool" where
  "no_command s \<longleftrightarrow> peek s = TEof \<or> peek s \<in> TOp ` set ['')'', ''|'', ''&&'', ''||'']"

definition for_words :: "shell_parser \<Rightarrow> string list" where
  "for_words s = map (\<lambda>t. case t of TWord w \<Rightarrow> w | _ \<Rightarrow> [])
     (takeWhile (\<lambda>t. case t of TWord w \<Rightarrow> w \<notin> set RESERVED | _ \<Rightarrow> False) (drop (ps_i s) (ps_toks s)))"

definition word_of_next :: "shell_parser \<Rightarrow> string" where
  "word_of_next s = (case peek s of TWord w \<Rightarrow> w | _ \<Rightarrow> [])"

text \<open>
  A program is a list of pipelines, a pipeline is a list of commands, and a command may contain programs
  and commands again. The functions below are bodies of this recursion: the functions they call in a
  circle, as their fuel leaves them, are their first arguments. Loops run on the same fuel.
\<close>

type_synonym node_parser = "shell_parser \<Rightarrow> (shell_parser \<times> shell_node) option"

primrec and_or_loop :: "node_parser \<Rightarrow> nat \<Rightarrow> shell_parser \<Rightarrow> shell_node \<Rightarrow> nat \<Rightarrow> (shell_parser \<times> shell_node) option" where
  "and_or_loop pipeline 0 s left links = None"
| "and_or_loop pipeline (Suc n) s left links =
     (if peek s = TOp ''&&'' \<or> peek s = TOp ''||'' then
        (let s1 = bump s
         in if MAX_SYNTAX_DEPTH \<le> ps_depth s1 then Some (shallower links (too_deep s1), left)
            else Option.bind (pipeline (skip_blank_newlines (deeper s1))) (\<lambda>(s2, right).
              and_or_loop pipeline n s2 (if peek s = TOp ''&&'' then NAnd left right else NOr left right) (links + 1)))
      else if peek s = TOp ''&'' then
        (let s1 = bump s
         in if MAX_SYNTAX_DEPTH \<le> ps_depth s1 then Some (shallower links (too_deep s1), left)
            else and_or_loop pipeline n (deeper s1) (Background left) (links + 1))
      else Some (shallower links s, left))"

definition parse_and_or :: "node_parser \<Rightarrow> nat \<Rightarrow> node_parser" where
  "parse_and_or pipeline n s = Option.bind (pipeline s) (\<lambda>(s, left). and_or_loop pipeline n s left 0)"

primrec program_loop :: "node_parser \<Rightarrow> nat \<Rightarrow> shell_parser \<Rightarrow> shell_node list \<Rightarrow> (shell_parser \<times> shell_node list) option" where
  "program_loop and_or 0 s nodes = None"
| "program_loop and_or (Suc n) s nodes =
     (if peek s = TEof \<or> ps_error s \<noteq> None \<or> peek s = TOp '')'' then Some (s, nodes)
      else Option.bind (and_or s) (\<lambda>(s1, node).
        if ps_i s1 = ps_i s then Some (expected ''command'' s1, nodes @ [node])
        else let s2 = skip_terminators s1
             in if at_block_end s2 then Some (s2, nodes @ [node]) else program_loop and_or n s2 (nodes @ [node])))"

definition program_body :: "node_parser \<Rightarrow> nat \<Rightarrow> node_parser" where
  "program_body pipeline n s = Option.bind (program_loop (parse_and_or pipeline n) n (skip_newlines s) []) (\<lambda>(s, nodes).
     Some (s, one_or_seq nodes))"

text \<open>\<open>crate::stack::descend\<close> with \<open>too_deep\<close> for its failure.\<close>

definition descend :: "node_parser \<Rightarrow> node_parser" where
  "descend f s = (if MAX_SYNTAX_DEPTH \<le> ps_depth s then Some (too_deep s, Empty)
     else Option.bind (f (deeper s)) (\<lambda>(s1, node). Some (shallower 1 s1, node)))"

primrec pipeline_loop :: "node_parser \<Rightarrow> nat \<Rightarrow> shell_parser \<Rightarrow> shell_node list \<Rightarrow> (shell_parser \<times> shell_node list) option" where
  "pipeline_loop command 0 s stages = None"
| "pipeline_loop command (Suc n) s stages =
     (if peek s = TOp ''|'' \<or> peek s = TOp ''|&'' then
        (let stages' = (if peek s = TOp ''|&'' then butlast stages @ [redirect_pipeline_stderr (last stages)] else stages)
         in Option.bind (command (skip_blank_newlines (bump s))) (\<lambda>(s1, stage).
              pipeline_loop command n s1 (stages' @ [stage])))
      else Some (s, stages))"

text \<open>Nothing follows \<open>time\<close>.\<close>

definition time_alone :: "shell_parser \<Rightarrow> bool" where
  "time_alone s = (case peek s of TEof \<Rightarrow> True | TOp op \<Rightarrow> op \<noteq> ''('' | _ \<Rightarrow> False)"

definition parse_pipeline_inner :: "node_parser \<Rightarrow> node_parser \<Rightarrow> nat \<Rightarrow> node_parser" where
  "parse_pipeline_inner pipeline command n s =
     (if word_is ''time'' s then
        (let s1 = bump s; posix = word_is ''-p'' s1; s2 = bump_if posix s1
         in if time_alone s2 then Some (s2, Timed (Seq []) posix)
            else Option.bind (pipeline s2) (\<lambda>(s3, inner). Some (s3, Timed inner posix)))
      else
        (let negate = word_is ''!'' s
         in Option.bind (command (bump_if negate s)) (\<lambda>(s1, first).
            Option.bind (pipeline_loop command n s1 [first]) (\<lambda>(s2, stages).
              let node = one_or_pipeline stages
              in Some (s2, if negate then NNot node else node)))))"

primrec if_loop :: "node_parser \<Rightarrow> nat \<Rightarrow> shell_parser \<Rightarrow> (shell_node \<times> shell_node) list \<Rightarrow> shell_node option
    \<Rightarrow> (shell_parser \<times> (shell_node \<times> shell_node) list \<times> shell_node option) option" where
  "if_loop program 0 s elifs els = None"
| "if_loop program (Suc n) s elifs els =
     (let s = skip_newlines s
      in if word_is ''elif'' s then
           Option.bind (program (bump s)) (\<lambda>(s, c).
           Option.bind (program (expect_word ''then'' s)) (\<lambda>(s, b). if_loop program n s (elifs @ [(c, b)]) els))
         else if word_is ''else'' s then
           Option.bind (program (bump s)) (\<lambda>(s, b). if_loop program n s elifs (Some b))
         else Some (s, elifs, els))"

definition parse_if :: "node_parser \<Rightarrow> nat \<Rightarrow> node_parser" where
  "parse_if program n s = Option.bind (program (bump s)) (\<lambda>(s, cond).
     Option.bind (program (expect_word ''then'' s)) (\<lambda>(s, thn).
     Option.bind (if_loop program n s [] None) (\<lambda>(s, elifs, els).
       Some (expect_word ''fi'' s, NIf cond thn elifs els))))"

text \<open>\<open>do body done\<close>.\<close>

definition do_block :: "node_parser \<Rightarrow> (shell_node \<Rightarrow> shell_node) \<Rightarrow> node_parser" where
  "do_block program f s = Option.bind (program (expect_word ''do'' s)) (\<lambda>(s, body). Some (expect_word ''done'' s, f body))"

definition parse_for :: "node_parser \<Rightarrow> node_parser" where
  "parse_for program s =
     (let s = bump s
      in case peek s of
           TArithmetic e \<Rightarrow> (case split_c_for_expression e of (init, cond, update) \<Rightarrow>
             do_block program (CFor init cond update) (skip_terminators (bump s)))
         | _ \<Rightarrow> (case take_word s of (s, var) \<Rightarrow>
             let s1 = skip_newlines s;
                 listed = word_is ''in'' s1;
                 s2 = bump_if listed s1;
                 words = (if listed then for_words s2 else [[DQ] @ ''$@'' @ [DQ]]);
                 s3 = (if listed then s2\<lparr>ps_i := ps_i s2 + length words\<rparr> else s2)
             in do_block program (For var words) (skip_terminators s3)))"

definition parse_while :: "node_parser \<Rightarrow> bool \<Rightarrow> node_parser" where
  "parse_while program until s = Option.bind (program (bump s)) (\<lambda>(s, cond).
     do_block program (\<lambda>body. While cond body until) s)"

primrec case_loop :: "node_parser \<Rightarrow> nat \<Rightarrow> shell_parser \<Rightarrow> (string list \<times> shell_node) list
    \<Rightarrow> (shell_parser \<times> (string list \<times> shell_node) list) option" where
  "case_loop program 0 s arms = None"
| "case_loop program (Suc n) s arms =
     (if word_is ''esac'' s \<or> peek s = TEof \<or> ps_error s \<noteq> None then Some (s, arms)
      else case case_patterns (bump_if (peek s = TOp ''('') s) [] of (s1, pats) \<Rightarrow>
        let s2 = skip_newlines (expect_op '')'' s1)
        in Option.bind (if peek s2 = TOp '';;'' then Some (s2, Empty) else program s2) (\<lambda>(s3, body).
             let s4 = skip_newlines s3; s5 = skip_newlines (bump_if (peek s4 = TOp '';;'') s4)
             in if ps_i s5 = ps_i s then Some (expected ''case arm'' s5, arms @ [(pats, body)])
                else case_loop program n s5 (arms @ [(pats, body)])))"

definition parse_case :: "node_parser \<Rightarrow> nat \<Rightarrow> node_parser" where
  "parse_case program n s = (case take_word (bump s) of (s, word) \<Rightarrow>
     Option.bind (case_loop program n (skip_newlines (expect_word ''in'' s)) []) (\<lambda>(s, arms).
       Some (expect_word ''esac'' s, NCase word arms)))"

definition parse_funcdef_named :: "node_parser \<Rightarrow> node_parser" where
  "parse_funcdef_named command s =
     (let name = word_of_next s; s1 = bump s;
          s2 = (if peek s1 = TOp ''('' then expect_op '')'' (bump s1) else s1)
      in Option.bind (command (skip_blank_newlines s2)) (\<lambda>(s, body). Some (s, FuncDef name body)))"

text \<open>A compound command may carry redirections.\<close>

definition redirected :: "(shell_parser \<times> shell_node) option \<Rightarrow> (shell_parser \<times> shell_node) option" where
  "redirected r = Option.bind r (\<lambda>(s, node). Some (attach_redirects s node))"

definition parse_block :: "node_parser \<Rightarrow> (shell_parser \<Rightarrow> shell_parser) \<Rightarrow> (shell_node \<Rightarrow> shell_node) \<Rightarrow> node_parser" where
  "parse_block program close f s = Option.bind (program (bump s)) (\<lambda>(s, body). Some (close s, f body))"

definition reserved_word :: "shell_parser \<Rightarrow> bool" where
  "reserved_word s = (case peek s of TWord w \<Rightarrow> w \<in> set RESERVED \<and> w \<noteq> ''[['' | _ \<Rightarrow> False)"

definition parse_command_inner :: "node_parser \<Rightarrow> node_parser \<Rightarrow> nat \<Rightarrow> node_parser" where
  "parse_command_inner program command n s =
     (let s = skip_blank_newlines s
      in if no_command s then Some (expected ''command'' s, Empty)
         else if word_is ''if'' s then redirected (parse_if program n s)
         else if word_is ''for'' s then redirected (parse_for program s)
         else if word_is ''while'' s then redirected (parse_while program False s)
         else if word_is ''until'' s then redirected (parse_while program True s)
         else if word_is ''case'' s then redirected (parse_case program n s)
         else if word_is ''function'' s then parse_funcdef_named command (bump s)
         else (case peek s of
             TArithmetic e \<Rightarrow> Some (attach_redirects (bump s) (Arithmetic e))
           | _ \<Rightarrow>
             if peek s = TOp ''('' then redirected (parse_block program (expect_op '')'') Subshell s)
             else if word_is ''{'' s then redirected (parse_block program (expect_word ''}'') Group s)
             else (case function_header s of
                 Some name \<Rightarrow> Option.bind (command (skip_blank_newlines (bump (bump (bump s)))))
                   (\<lambda>(s, body). Some (s, FuncDef name body))
               | None \<Rightarrow>
                   if reserved_word s then Some (expected ''command'' s, Empty)
                   else Some (parse_simple s))))"

text \<open>The recursion itself.\<close>

fun parse_program :: "nat \<Rightarrow> shell_parser \<Rightarrow> (shell_parser \<times> shell_node) option"
  and parse_pipeline :: "nat \<Rightarrow> shell_parser \<Rightarrow> (shell_parser \<times> shell_node) option"
  and parse_command :: "nat \<Rightarrow> shell_parser \<Rightarrow> (shell_parser \<times> shell_node) option" where
  "parse_program 0 s = None"
| "parse_program (Suc n) s = program_body (parse_pipeline n) n s"
| "parse_pipeline 0 s = None"
| "parse_pipeline (Suc n) s = descend (parse_pipeline_inner (parse_pipeline n) (parse_command n) n) s"
| "parse_command 0 s = None"
| "parse_command (Suc n) s = descend (parse_command_inner (parse_program n) (parse_command n) n) s"

text \<open>\<open>parse\<close>: nothing is executed from a text with an error.\<close>

definition parser_fuel :: "tok list \<Rightarrow> nat" where
  "parser_fuel ts = 3 * length ts + 3"

definition parse_tokens :: "tok list \<Rightarrow> (shell_error, shell_node) outcome option" where
  "parse_tokens ts = Option.bind (parse_program (parser_fuel ts) (new_parser ts)) (\<lambda>(s, node).
     let s' = (if ps_error s = None \<and> peek s \<noteq> TEof then expected ''end of input'' s else s)
     in Some (if ps_panic s' then Panic else case ps_error s' of None \<Rightarrow> Ok node | Some e \<Rightarrow> Err e))"

definition parse :: "string \<Rightarrow> (shell_error, shell_node) outcome option" where
  "parse src = (case tokenize src of (ts, _, lexer_error) \<Rightarrow>
     (case lexer_error of Some e \<Rightarrow> Some (Err e) | None \<Rightarrow> parse_tokens ts))"

definition heredocs_complete :: "string \<Rightarrow> bool" where
  "heredocs_complete src = (case tokenize src of (_, complete, _) \<Rightarrow> complete)"

definition needs_more_input :: "string \<Rightarrow> bool" where
  "needs_more_input src \<longleftrightarrow> \<not> heredocs_complete src
     \<or> (case parse src of
          Some (Err (UnexpectedEof _)) \<Rightarrow> True
        | Some (Err (UnclosedQuote _)) \<Rightarrow> True
        | _ \<Rightarrow> False)"

section \<open>Termination\<close>

text \<open>
  A call from the state \<open>s\<close> that returns a result, and a parser of nodes that returns one from every state
  with at most \<open>k\<close> tokens left.
\<close>

definition yields :: "shell_parser \<Rightarrow> (shell_parser \<times> 'a) option \<Rightarrow> bool" where
  "yields s r \<longleftrightarrow> (\<exists>s' x. r = Some (s', x) \<and> moves s s')"

definition returns_upto :: "nat \<Rightarrow> node_parser \<Rightarrow> bool" where
  "returns_upto k f \<longleftrightarrow> (\<forall>s. toks_left s \<le> k \<longrightarrow> yields s (f s))"

lemma yields_Some [simp]: "yields s (Some (s', x)) \<longleftrightarrow> moves s s'"
  by (simp add: yields_def)

lemma yields_Some_pair: "(\<And>s' x. p = (s', x) \<Longrightarrow> moves s s') \<Longrightarrow> yields s (Some p)"
  by (cases p) simp

lemma yields_after: "moves s0 s \<Longrightarrow> yields s r \<Longrightarrow> yields s0 r"
  by (auto simp: yields_def intro: moves_trans)

lemma yields_bind:
  assumes "yields s r" "\<And>s' x. r = Some (s', x) \<Longrightarrow> moves s s' \<Longrightarrow> yields s' (g (s', x))"
  shows "yields s (Option.bind r g)"
proof -
  obtain s1 x where s1: "r = Some (s1, x)" "moves s s1"
    using assms(1) by (auto simp: yields_def)
  then show ?thesis
    using yields_after [OF s1(2) assms(2) [OF s1]] by simp
qed

lemma returnsD: "returns_upto k f \<Longrightarrow> toks_left s \<le> k \<Longrightarrow> yields s (f s)"
  by (simp add: returns_upto_def)

lemma returnsI: "(\<And>s. toks_left s \<le> k \<Longrightarrow> yields s (f s)) \<Longrightarrow> returns_upto k f"
  by (simp add: returns_upto_def)

lemma returns_later: "returns_upto k f \<Longrightarrow> moves s0 s \<Longrightarrow> toks_left s0 \<le> k \<Longrightarrow> yields s0 (f s)"
  using yields_after [OF _ returnsD] moves_left [of s0 s] by force

lemma yields_bump_bind:
  assumes "returns_upto k f" "toks_left (bump s) \<le> k" "\<And>s' x. moves (bump s) s' \<Longrightarrow> yields s' (g (s', x))"
  shows "yields s (Option.bind (f (bump s)) g)"
  by (rule yields_after [OF moves_steps(1)]) (auto intro!: yields_bind returnsD assms)

lemma returns_upto_mono: "returns_upto k f \<Longrightarrow> j \<le> k \<Longrightarrow> returns_upto j f"
  by (auto simp: returns_upto_def)

lemma left_bump: "peek s = TOp op \<Longrightarrow> toks_left (bump s) < toks_left s" "word_is w s \<Longrightarrow> toks_left (bump s) < toks_left s"
  by (auto simp: word_is_def intro: toks_left_bump)

lemma toks_left_deeper [simp]:
  "toks_left (deeper s) = toks_left s" "toks_left (shallower n s) = toks_left s"
  by (simp_all add: toks_left_def deeper_def shallower_def)

lemma peek_deeper [simp]: "peek (deeper s) = peek s" "peek (shallower n s) = peek s"
  by (simp_all add: peek_def deeper_def shallower_def)

lemma bump_deeper: "bump (deeper s) = deeper (bump s)"
  by (simp add: bump_def deeper_def)

lemma moves_shallower: "moves s s' \<Longrightarrow> moves (shallower n s) (shallower n s')"
  by (auto simp: moves_def shallower_def)

lemma shallower_deeper [simp]: "shallower (Suc n) (deeper s) = shallower n s" "shallower 0 s = s"
  by (simp_all add: shallower_def deeper_def)

lemma moves_around: "moves (deeper s) s' \<Longrightarrow> moves s (shallower (Suc 0) s')"
  using moves_shallower [of "deeper s" s' "Suc 0"] by simp

lemma descend_returns:
  assumes "returns_upto k f"
  shows "returns_upto k (descend f)"
proof (rule returnsI)
  fix s :: shell_parser
  assume "toks_left s \<le> k"
  with assms have "yields (deeper s) (f (deeper s))"
    by (intro returnsD) simp_all
  then show "yields s (descend f s)"
    by (auto simp: descend_def yields_def moves_around)
qed

lemma and_or_loop_yields:
  assumes pipeline: "returns_upto k pipeline"
  shows "toks_left s \<le> k \<Longrightarrow> toks_left s < n \<Longrightarrow> yields (shallower links s) (and_or_loop pipeline n s left links)"
proof (induction n arbitrary: s left links)
  case (Suc n)
  let ?s1 = "deeper (bump s)"
  have link: "yields (shallower links s) (and_or_loop pipeline n s2 l (Suc links))"
    if "peek s = TOp op" "moves ?s1 s2" for op s2 l
  proof (rule yields_after)
    show "moves (shallower links s) (shallower (Suc links) s2)"
      using moves_shallower [of s "bump s" links] moves_shallower [OF that(2), of "Suc links"] by (auto intro: moves_trans)
    show "yields (shallower (Suc links) s2) (and_or_loop pipeline n s2 l (Suc links))"
      using Suc.IH Suc.prems left_bump(1) [OF that(1)] moves_left [OF that(2)] by simp
  qed
  have chain: "yields (shallower links s) (Option.bind (pipeline (skip_blank_newlines ?s1)) (\<lambda>(s2, right).
      and_or_loop pipeline n s2 (c right) (Suc links)))" if "peek s = TOp op" for c op
  proof -
    have "yields ?s1 (pipeline (skip_blank_newlines ?s1))"
      using Suc.prems left_bump(1) [OF that] by (intro returns_later [OF pipeline]) simp_all
    with link [OF that] show ?thesis
      by (auto simp: yields_def)
  qed
  have deep: "moves (shallower links s) (shallower links (too_deep (bump s)))"
    by (rule moves_shallower) (rule moves_trans [of _ "bump s"]; simp)
  show ?case
    using link [of _ ?s1] chain deep by (simp add: Let_def)
qed simp

lemma parse_and_or_returns:
  assumes "returns_upto k pipeline" "k < n"
  shows "returns_upto k (parse_and_or pipeline n)"
proof (rule returnsI, unfold parse_and_or_def, rule yields_bind)
  fix s s1 left
  assume "toks_left s \<le> k" "moves s s1"
  then show "yields s1 (case (s1, left) of (s, left) \<Rightarrow> and_or_loop pipeline n s left 0)"
    using and_or_loop_yields [OF assms(1), of s1 n 0 left] moves_left [of s s1] assms(2) by simp
qed (rule returnsD [OF assms(1)])

lemma program_loop_yields:
  assumes and_or: "returns_upto k and_or"
  shows "toks_left s \<le> k \<Longrightarrow> toks_left s < n \<Longrightarrow> yields s (program_loop and_or n s nodes)"
proof (induction n arbitrary: s nodes)
  case (Suc n)
  have "yields s1 (program_loop and_or n (skip_terminators s1) (nodes @ [x]))"
    if "moves s s1" "ps_i s1 \<noteq> ps_i s" "peek s \<noteq> TEof" for s1 x
  proof (rule yields_after [OF moves_steps(7)], rule Suc.IH)
    have "toks_left s1 < toks_left s"
      using that by (auto simp: moves_def toks_left_def peek_def split: if_splits)
    then show "toks_left (skip_terminators s1) \<le> k" "toks_left (skip_terminators s1) < n"
      using moves_left [OF moves_steps(7), of s1] Suc.prems by auto
  qed
  then have "peek s \<noteq> TEof \<Longrightarrow> yields s (Option.bind (and_or s) (\<lambda>(s1, node).
        if ps_i s1 = ps_i s then Some (expected ''command'' s1, nodes @ [node])
        else let s2 = skip_terminators s1
             in if at_block_end s2 then Some (s2, nodes @ [node]) else program_loop and_or n s2 (nodes @ [node])))"
    by (intro yields_bind returnsD [OF and_or Suc.prems(1)]) (simp add: Let_def)
  then show ?case
    by simp
qed simp

lemma program_body_returns:
  assumes "returns_upto k pipeline" "k < n"
  shows "returns_upto k (program_body pipeline n)"
proof (rule returnsI, unfold program_body_def, rule yields_bind)
  fix s :: shell_parser
  assume "toks_left s \<le> k"
  then have "toks_left (skip_newlines s) \<le> k"
    using moves_left [OF moves_steps(6), of s] by simp
  then show "yields s (program_loop (parse_and_or pipeline n) n (skip_newlines s) [])"
    using assms(2) yields_after [OF moves_steps(6) program_loop_yields [OF parse_and_or_returns [OF assms]]] by simp
qed simp

lemma pipeline_loop_yields:
  assumes command: "returns_upto k command"
  shows "toks_left s \<le> k \<Longrightarrow> toks_left s < n \<Longrightarrow> yields s (pipeline_loop command n s stages)"
proof (induction n arbitrary: s stages)
  case (Suc n)
  have "yields s (Option.bind (command (skip_blank_newlines (bump s))) (\<lambda>(s1, stage).
      pipeline_loop command n s1 (f stage)))" if "peek s = TOp op" for op f
  proof (rule yields_after [OF moves_steps(1)], rule yields_bind)
    have left: "toks_left (bump s) < toks_left s"
      by (rule left_bump(1) [OF that])
    then show "yields (bump s) (command (skip_blank_newlines (bump s)))"
      using Suc.prems by (intro returns_later [OF command]) simp_all
    show "yields s1 (case (s1, stage) of (s1, stage) \<Rightarrow> pipeline_loop command n s1 (f stage))" if "moves (bump s) s1" for s1 stage
      using Suc.IH [of s1] Suc.prems left moves_left [OF that] by simp
  qed
  then show ?case
    by (auto simp: Let_def)
qed simp

lemma parse_pipeline_inner_returns:
  assumes pipeline: "k = 0 \<or> returns_upto (k - 1) pipeline" and command: "returns_upto k command" "k < n"
  shows "returns_upto k (parse_pipeline_inner pipeline command n)"
proof (rule returnsI)
  fix s :: shell_parser
  assume s: "toks_left s \<le> k"
  show "yields s (parse_pipeline_inner pipeline command n s)"
  proof (cases "word_is ''time'' s")
    case True
    let ?s2 = "bump_if (word_is ''-p'' (bump s)) (bump s)"
    have left: "toks_left (bump s) < toks_left s"
      using True by (rule left_bump)
    then have "yields (bump s) (pipeline ?s2)"
      using pipeline s by (intro returns_later [of "k - 1" pipeline]) auto
    then show ?thesis
      using True by (auto simp: parse_pipeline_inner_def Let_def yields_def intro: moves_bumped moves_trans [of s "bump s"])
  next
    case False
    have "yields s1 (pipeline_loop command n s1 [x])" if "moves s s1" for s1 x
      using pipeline_loop_yields [OF command(1)] moves_left [OF that] s command(2) by simp
    then have "yields s1 (Option.bind (pipeline_loop command n s1 [x]) (\<lambda>(s2, stages). Some (s2, f stages)))"
      if "moves s s1" for s1 x and f :: "shell_node list \<Rightarrow> shell_node"
      using that by (intro yields_bind) auto
    then show ?thesis
      unfolding parse_pipeline_inner_def Let_def if_not_P [OF False]
      by (intro yields_bind returns_later [OF command(1)]) (simp_all add: s)
  qed
qed

lemma if_loop_yields:
  assumes program: "k = 0 \<or> returns_upto (k - 1) program"
  shows "toks_left s \<le> k \<Longrightarrow> toks_left s < n \<Longrightarrow> yields s (if_loop program n s elifs els)"
proof (induction n arbitrary: s elifs els)
  case (Suc n)
  let ?t = "skip_newlines s"
  have t: "toks_left ?t \<le> toks_left s"
    by (rule moves_left) simp
  have keyword: "returns_upto (k - 1) program" "toks_left (bump ?t) \<le> k - 1"
    "toks_left (bump ?t) < n" if "word_is w ?t" for w
    using left_bump(2) [OF that] t Suc.prems program by auto
  have loop: "yields s1 (if_loop program n s1 es e)" if "word_is w ?t" "moves (bump ?t) s1" for w s1 es e
    using Suc.IH [of s1] keyword(2,3) [OF that(1)] moves_left [OF that(2)] by simp
  have elif: "yields s1 (Option.bind (program (expect_word ''then'' s1)) (\<lambda>(s, b). if_loop program n s (elifs @ [(c, b)]) els))"
    if "word_is w ?t" "moves (bump ?t) s1" for w s1 c
    using loop [OF that(1)] keyword(2) [OF that(1)] moves_left [OF that(2)] moves_trans [OF that(2)]
    by (intro yields_bind returns_later [OF keyword(1) [OF that(1)]]) auto
  have "yields ?t (Option.bind (program (bump ?t)) (\<lambda>(s, c).
      Option.bind (program (expect_word ''then'' s)) (\<lambda>(s, b). if_loop program n s (elifs @ [(c, b)]) els)))"
    and "yields ?t (Option.bind (program (bump ?t)) (\<lambda>(s, b). if_loop program n s elifs (Some b)))" if "word_is w ?t" for w
    by (rule yields_bump_bind [OF keyword(1,2) [OF that]]; simp add: loop [OF that] elif [OF that])+
  then have "yields ?t (if_loop program (Suc n) s elifs els)"
    by (auto simp: Let_def)
  then show ?case
    by (rule yields_after [OF moves_steps(6)])
qed simp

lemma parse_if_yields:
  assumes "returns_upto (k - 1) program" "k \<le> n" "toks_left s \<le> k" "word_is w s"
  shows "yields s (parse_if program n s)"
proof -
  have left: "toks_left (bump s) \<le> k - 1" "toks_left (bump s) < n"
    using left_bump(2) [OF assms(4)] assms by auto
  have rest: "yields s2 (Option.bind (if_loop program n s2 [] None) (\<lambda>(s, elifs, els).
       Some (expect_word ''fi'' s, NIf c thn elifs els)))" if "moves (bump s) s2" for s2 c thn
    using moves_left [OF that] left assms by (intro yields_bind if_loop_yields [of k]) auto
  have "yields s1 (Option.bind (program (expect_word ''then'' s1)) (\<lambda>(s, thn).
     Option.bind (if_loop program n s [] None) (\<lambda>(s, elifs, els).
       Some (expect_word ''fi'' s, NIf c thn elifs els))))" if "moves (bump s) s1" for s1 c
    using moves_left [OF that] left rest moves_trans [OF that]
    by (intro yields_bind returns_later [OF assms(1)]) auto
  then show ?thesis
    unfolding parse_if_def using left by (intro yields_bump_bind [OF assms(1)]) auto
qed

lemma do_block_yields:
  assumes "returns_upto k program" "toks_left s \<le> k"
  shows "yields s (do_block program f s)"
  unfolding do_block_def by (intro yields_bind returns_later [OF assms(1)]) (use assms in auto)

lemma parse_while_yields:
  assumes "returns_upto (k - 1) program" "toks_left s \<le> k" "word_is w s"
  shows "yields s (parse_while program until s)"
proof -
  have left: "toks_left (bump s) \<le> k - 1"
    using left_bump(2) [OF assms(3)] assms by auto
  then have "yields s1 (do_block program f s1)" if "moves (bump s) s1" for s1 f
    using moves_left [OF that] by (intro do_block_yields [OF assms(1)]) auto
  with left show ?thesis
    unfolding parse_while_def by (intro yields_bump_bind [OF assms(1)]) auto
qed

lemma moves_index: "moves s (s\<lparr>ps_i := ps_i s + n\<rparr>)"
  by (simp add: moves_def)

lemma parse_for_yields:
  assumes "returns_upto (k - 1) program" "toks_left s \<le> k" "word_is w s"
  shows "yields s (parse_for program s)"
proof -
  have left: "toks_left (bump s) \<le> k - 1"
    using left_bump(2) [OF assms(3)] assms by auto
  have block: "yields (bump s) (do_block program f s2)" if "moves (bump s) s2" for s2 f
    using moves_left [OF that] left by (intro yields_after [OF that] do_block_yields [OF assms(1)]) auto
  have "yields (bump s) (case take_word (bump s) of (s, var) \<Rightarrow>
             let s1 = skip_newlines s;
                 listed = word_is ''in'' s1;
                 s2 = bump_if listed s1;
                 words = (if listed then for_words s2 else [[DQ] @ ''$@'' @ [DQ]]);
                 s3 = (if listed then s2\<lparr>ps_i := ps_i s2 + length words\<rparr> else s2)
             in do_block program (For var words) (skip_terminators s3))"
  proof (cases "take_word (bump s)")
    case (Pair t var)
    have "moves (bump s) (skip_newlines t)"
      using moves_trans [OF moves_take_word [OF Pair] moves_steps(6)] .
    then have "moves (bump s) (bump_if b (skip_newlines t))" for b
      by (rule moves_trans) simp
    then have "moves (bump s) (skip_terminators (bump_if b (skip_newlines t)))"
      and "moves (bump s) (skip_terminators ((bump_if b (skip_newlines t))\<lparr>ps_i := ps_i (bump_if b (skip_newlines t)) + m\<rparr>))" for b m
      using moves_trans [OF _ moves_steps(7)] moves_trans [OF moves_trans [OF _ moves_index] moves_steps(7)] by blast+
    then show ?thesis
      using Pair block by (simp add: Let_def)
  qed
  moreover have "moves (bump s) (skip_terminators (bump (bump s)))"
    by (rule moves_trans [OF moves_steps(1) moves_steps(7)])
  ultimately have "yields (bump s) (parse_for program s)"
    using block by (auto simp: parse_for_def Let_def split: tok.splits prod.splits)
  then show ?thesis
    by (rule yields_after [OF moves_steps(1)])
qed

lemma case_patterns_moves: "case_patterns s pats = (s', ps) \<Longrightarrow> moves s s'"
proof (induction s pats rule: case_patterns.induct)
  case (1 s pats)
  obtain s1 w where w: "take_word s = (s1, w)" by (cases "take_word s")
  have "moves s1 s'"
  proof (cases "peek s1 = TOp ''|''")
    case True
    then have "moves (bump s1) s'"
      using 1 w by (simp add: case_patterns.simps [of s])
    then show ?thesis by (rule moves_bumped)
  next
    case False
    then show ?thesis using 1 w by (simp add: case_patterns.simps [of s])
  qed
  then show ?case
    by (rule moves_trans [OF moves_take_word [OF w]])
qed

lemma case_loop_yields:
  assumes program: "returns_upto k program"
  shows "toks_left s \<le> k \<Longrightarrow> toks_left s < n \<Longrightarrow> yields s (case_loop program n s arms)"
proof (induction n arbitrary: s arms)
  case (Suc n)
  let ?t = "bump_if (peek s = TOp ''('') s"
  obtain s1 pats where pats: "case_patterns ?t [] = (s1, pats)" by (cases "case_patterns ?t []")
  let ?s2 = "skip_newlines (expect_op '')'' s1)"
  have "moves s s1"
    using moves_trans [OF moves_steps(2) case_patterns_moves [OF pats]] .
  then have s2: "moves s ?s2"
    using moves_trans [OF moves_expect(1) moves_steps(6)] moves_trans by blast
  have after: "moves s3 (skip_newlines (bump_if b (skip_newlines s3)))" for s3 b
    using moves_trans [OF moves_steps(6) moves_trans [OF moves_steps(2) moves_steps(6)]] .
  have rest: "yields s3 (let s4 = skip_newlines s3; s5 = skip_newlines (bump_if (peek s4 = TOp '';;'') s4)
             in if ps_i s5 = ps_i s then Some (expected ''case arm'' s5, arms @ [(pats, body)])
                else case_loop program n s5 (arms @ [(pats, body)]))"
    if s3: "moves s s3" and "peek s \<noteq> TEof" for s3 body
  proof -
    let ?s5 = "skip_newlines (bump_if (peek (skip_newlines s3) = TOp '';;'') (skip_newlines s3))"
    have s5: "moves s ?s5"
      using moves_trans [OF s3 after] .
    have "yields ?s5 (case_loop program n ?s5 a)" if "ps_i ?s5 \<noteq> ps_i s" for a
    proof (rule Suc.IH)
      have "toks_left ?s5 < toks_left s"
        using s5 that \<open>peek s \<noteq> TEof\<close> by (auto simp: moves_def toks_left_def peek_def split: if_splits)
      then show "toks_left ?s5 \<le> k" "toks_left ?s5 < n"
        using Suc.prems by auto
    qed
    then show ?thesis
      unfolding Let_def using after moves_trans [OF after moves_steps(4)]
      by (cases "ps_i ?s5 = ps_i s") (auto intro: yields_after [OF after])
  qed
  have "yields s (if peek ?s2 = TOp '';;'' then Some (?s2, Empty) else program ?s2)"
    using s2 returns_later [OF program s2 Suc.prems(1)] by simp
  from yields_bind [OF this, of "\<lambda>(s3, body). let s4 = skip_newlines s3; s5 = skip_newlines (bump_if (peek s4 = TOp '';;'') s4)
             in if ps_i s5 = ps_i s then Some (expected ''case arm'' s5, arms @ [(pats, body)])
                else case_loop program n s5 (arms @ [(pats, body)])"] rest
  show ?case
    using pats by (simp add: Let_def)
qed simp

lemma parse_case_yields:
  assumes "returns_upto (k - 1) program" "toks_left s \<le> k" "k \<le> n" "word_is w s"
  shows "yields s (parse_case program n s)"
proof -
  obtain t word where word: "take_word (bump s) = (t, word)" by (cases "take_word (bump s)")
  let ?t = "skip_newlines (expect_word ''in'' t)"
  have left: "toks_left (bump s) \<le> k - 1" "toks_left (bump s) < n"
    using left_bump(2) [OF assms(4)] assms by auto
  have t: "moves (bump s) ?t"
    using moves_trans [OF moves_take_word [OF word] moves_trans [OF moves_expect(2) moves_steps(6)]] .
  then have "yields ?t (case_loop program n ?t [])"
    using left moves_left [OF t] by (intro case_loop_yields [OF assms(1)]) auto
  then have "yields ?t (parse_case program n s)"
    unfolding parse_case_def using word by (auto intro!: yields_bind)
  then show ?thesis
    by (rule yields_after [OF moves_bumped [OF t]])
qed

lemma parse_funcdef_named_yields:
  assumes "returns_upto k command" "toks_left s \<le> k"
  shows "yields s (parse_funcdef_named command s)"
proof -
  let ?s2 = "if peek (bump s) = TOp ''('' then expect_op '')'' (bump (bump s)) else bump s"
  have "moves s ?s2"
    using moves_trans [OF moves_steps(1) moves_trans [OF moves_steps(1) moves_expect(1)]] by simp
  then have "moves s (skip_blank_newlines ?s2)"
    using moves_trans [OF _ moves_steps(8)] by blast
  then show ?thesis
    unfolding parse_funcdef_named_def Let_def
    by (intro yields_bind returns_later [OF assms(1)]) (use assms(2) in auto)
qed

lemma attach_loop_moves: "attach_loop s rs = (s', rs') \<Longrightarrow> moves s s'"
proof (induction s rs rule: attach_loop.induct)
  case (1 s rs)
  show ?case
  proof (cases "attached_redirect s")
    case None
    then show ?thesis using 1 by (simp add: attach_loop.simps [of s])
  next
    case (Some p)
    then obtain s1 r where p: "attached_redirect s = Some (s1, r)" by (cases p) simp
    then have "moves s1 s'" using 1 by (simp add: attach_loop.simps [of s])
    then show ?thesis
      using moves_attached_redirect [OF p] moves_bumped moves_trans by blast
  qed
qed

lemma attach_redirects_moves: "attach_redirects s node = (s', node') \<Longrightarrow> moves s s'"
  by (auto simp: attach_redirects_def split: prod.splits dest: attach_loop_moves)

lemma redirected_yields: "yields s r \<Longrightarrow> yields s (redirected r)"
  unfolding redirected_def
  by (rule yields_bind) (auto intro!: yields_Some_pair dest: attach_redirects_moves)

lemma parse_block_yields:
  assumes "returns_upto (k - 1) program" "toks_left s \<le> k" "peek s \<noteq> TEof" "\<And>t. moves t (close t)"
  shows "yields s (parse_block program close f s)"
proof -
  have "toks_left (bump s) \<le> k - 1"
    using toks_left_bump [OF assms(3)] assms(2) by simp
  then show ?thesis
    unfolding parse_block_def using assms(4) by (intro yields_bump_bind [OF assms(1)]) auto
qed

lemma simple_loop_moves: "simple_loop s ws rs = (s', r) \<Longrightarrow> moves s s'"
proof (induction s ws rs rule: simple_loop.induct)
  case (1 s ws rs)
  show ?case
  proof (cases "\<exists>w. peek s = TWord w")
    case True
    then show ?thesis
      using 1 by (auto simp: simple_loop.simps [of s] split: if_splits intro: moves_bumped)
  next
    case False
    then have eq: "simple_loop s ws rs = (case simple_redirect s of
         None \<Rightarrow> (s, ws, rs)
       | Some (s', r) \<Rightarrow> simple_loop s' ws (rs @ r))"
      by (auto simp: simple_loop.simps [of s] split: tok.splits)
    show ?thesis
    proof (cases "simple_redirect s")
      case None
      then show ?thesis using "1.prems" eq by simp
    next
      case (Some p)
      then obtain s1 r1 where p: "simple_redirect s = Some (s1, r1)" by (cases p) simp
      have "moves s1 s'"
        using 1 False eq p by (cases "peek s") auto
      then show ?thesis
        using moves_simple_redirect [OF p] moves_bumped moves_trans by blast
    qed
  qed
qed

lemma parse_simple_moves: "parse_simple s = (s', node) \<Longrightarrow> moves s s'"
  by (auto simp: parse_simple_def Let_def split: prod.splits dest!: simple_loop_moves intro: moves_trans [OF moves_index])

lemma function_header_left:
  "function_header s = Some name \<Longrightarrow> peek s \<noteq> TEof"
  by (auto simp: function_header_def split: tok.splits)

lemma parse_command_inner_returns:
  assumes program: "k = 0 \<or> returns_upto (k - 1) program" and command: "k = 0 \<or> returns_upto (k - 1) command" and "k \<le> n"
  shows "returns_upto k (parse_command_inner program command n)"
proof (rule returnsI)
  fix s0 :: shell_parser
  assume s0: "toks_left s0 \<le> k"
  define s where "s = skip_blank_newlines s0"
  have s: "moves s0 s" "toks_left s \<le> k"
    using moves_left [of s0 s] s0 by (simp_all add: s_def)
  have positive: "returns_upto (k - 1) program" "returns_upto (k - 1) command" if "peek s \<noteq> TEof"
    using toks_left_bump [OF that] program command s by auto
  have header: "yields s (Option.bind (command (skip_blank_newlines (bump (bump (bump s))))) (\<lambda>(s, body). Some (s, f body)))"
    if "peek s \<noteq> TEof" for f
  proof (rule yields_after [OF moves_steps(1)], intro yields_bind returns_later [OF positive(2) [OF that]])
    show "moves (bump s) (skip_blank_newlines (bump (bump (bump s))))"
      using moves_trans [OF moves_steps(1) moves_trans [OF moves_steps(1) moves_steps(8)]] .
  qed (use toks_left_bump [OF that] s in auto)
  have named: "yields s (parse_funcdef_named command (bump s))" if "peek s \<noteq> TEof"
    using toks_left_bump [OF that] s
    by (intro yields_after [OF moves_steps(1) parse_funcdef_named_yields [OF positive(2) [OF that]]]) auto
  have arithmetic: "yields s (Some (attach_redirects (bump s) node))" for node
    by (rule yields_Some_pair, drule attach_redirects_moves, erule moves_bumped)
  have simple: "yields s (Some (parse_simple s))"
    by (rule yields_Some_pair, erule parse_simple_moves)
  have blocks: "yields s (redirected (parse_block program (expect_op '')'') Subshell s))"
    "yields s (redirected (parse_block program (expect_word ''}'') Group s))" if "peek s \<noteq> TEof"
    using s positive [OF that] that by (auto intro!: redirected_yields parse_block_yields)
  have word: "peek s \<noteq> TEof" if "word_is w s" for w
    using that by (simp add: word_is_def)
  have compound: "yields s (redirected (parse_if program n s))" "yields s (redirected (parse_for program s))"
    "yields s (redirected (parse_while program until s))" "yields s (redirected (parse_case program n s))"
    if "word_is w s" for w until
    using s assms(3) positive(1) [OF word [OF that]] that
    by (auto intro!: redirected_yields parse_if_yields parse_for_yields parse_while_yields parse_case_yields)
  have "yields s (case peek s of
             TArithmetic e \<Rightarrow> Some (attach_redirects (bump s) (Arithmetic e))
           | _ \<Rightarrow>
             if peek s = TOp ''('' then redirected (parse_block program (expect_op '')'') Subshell s)
             else if word_is ''{'' s then redirected (parse_block program (expect_word ''}'') Group s)
             else (case function_header s of
                 Some name \<Rightarrow> Option.bind (command (skip_blank_newlines (bump (bump (bump s)))))
                   (\<lambda>(s, body). Some (s, FuncDef name body))
               | None \<Rightarrow>
                   if reserved_word s then Some (expected ''command'' s, Empty)
                   else Some (parse_simple s)))"
    using arithmetic simple blocks word header function_header_left [of s]
    by (cases "peek s"; cases "function_header s") auto
  then have "yields s (parse_command_inner program command n s0)"
    unfolding parse_command_inner_def Let_def s_def [symmetric]
    using compound named [OF word] by simp
  then show "yields s0 (parse_command_inner program command n s0)"
    by (rule yields_after [OF s(1)])
qed

lemma enough_fuel:
  "(3 * k + 3 \<le> n \<longrightarrow> returns_upto k (parse_program n)) \<and> (3 * k + 2 \<le> n \<longrightarrow> returns_upto k (parse_pipeline n))
   \<and> (3 * k + 1 \<le> n \<longrightarrow> returns_upto k (parse_command n))"
proof (induction n arbitrary: k)
  case (Suc n)
  have "returns_upto k (parse_program (Suc n))" if "3 * k + 3 \<le> Suc n"
    using that Suc [of k] program_body_returns [of k "parse_pipeline n" n] by (simp add: returns_upto_def)
  moreover have "returns_upto k (parse_pipeline (Suc n))" if "3 * k + 2 \<le> Suc n"
  proof -
    have "k = 0 \<or> returns_upto (k - 1) (parse_pipeline n)"
      using Suc [of "k - 1"] that by (cases k) auto
    then show ?thesis
      using that Suc [of k] descend_returns [OF parse_pipeline_inner_returns [of k "parse_pipeline n" "parse_command n" n]]
      by (simp add: returns_upto_def)
  qed
  moreover have "returns_upto k (parse_command (Suc n))" if "3 * k + 1 \<le> Suc n"
  proof -
    have "k = 0 \<or> returns_upto (k - 1) (parse_program n)" "k = 0 \<or> returns_upto (k - 1) (parse_command n)"
      using Suc [of "k - 1"] that by (cases k; auto)+
    then show ?thesis
      using that descend_returns [OF parse_command_inner_returns [of k "parse_program n" "parse_command n" n]]
      by (simp add: returns_upto_def)
  qed
  ultimately show ?case by blast
qed simp

lemma parse_tokens_returns:
  obtains s node where "parse_program (parser_fuel ts) (new_parser ts) = Some (s, node)" "moves (new_parser ts) s"
proof -
  have "returns_upto (length ts) (parse_program (parser_fuel ts))"
    using enough_fuel [of "length ts" "parser_fuel ts"] by (simp add: parser_fuel_def)
  then have "yields (new_parser ts) (parse_program (parser_fuel ts) (new_parser ts))"
    by (rule returnsD) (simp add: new_parser_def toks_left_def)
  then show ?thesis
    using that by (auto simp: yields_def)
qed

section \<open>The lexer feeds the parser\<close>

lemma known_simps [simp]:
  "known_tok (TWord w)" "known_tok (TOp w)" "known_tok TLess" "known_tok TGreat" "known_tok TDGreat" "known_tok (THeredoc w b)"
  "known_tok (TArithmetic w)" "known_tok (THereString w)" "known_tok (TGreatAmp f)" "known_tok TCloseOut" "known_tok TEof"
  "known_tok (TRedirFd f op) = known_op op"
  by (simp_all add: known_tok_def)

lemma known_ops [simp]:
  "known_op ''&>''" "known_op ''&>>''" "known_op ''>''" "known_op ''>>''" "known_op ''<''" "known_op ''<>''"
  "known_op (CHR ''>'' # CHR ''&'' # w)" "known_op (CHR ''<'' # CHR ''&'' # w)"
  by (simp_all add: known_op_def)

lemma resolve_heredocs_known: "list_all known_tok (lx_toks s) \<Longrightarrow> list_all known_tok (lx_toks (resolve_heredocs ps s))"
proof (induction ps s rule: resolve_heredocs.induct)
  case (2 delim quoted idx queued s)
  obtain body s' where b: "read_heredoc_body delim s = (body, s')" by fastforce
  then have "lx_toks s' = lx_toks s"
    by (auto simp: read_heredoc_body_def Let_def split: prod.splits)
  then have "list_all known_tok ((lx_toks s')[idx := THeredoc body quoted])"
    using "2.prems" set_update_subset_insert [of "lx_toks s'" idx] by (force simp: list_all_iff)
  with 2 b show ?case by simp
qed simp

lemma lex_step_known:
  assumes "list_all known_tok (lx_toks s)"
  shows "list_all known_tok (lx_toks (fst (lex_step (s, ps))))"
proof -
  have "list_all known_tok (lx_toks (lex_regex s))" "list_all known_tok (lx_toks (lex_word s))"
    "list_all known_tok (lx_toks (lex_ampersand s))" "list_all known_tok (lx_toks (lex_bar s))"
    using assms by (auto simp: lex_regex_def lex_word_def lex_ampersand_def lex_bar_def Let_def split: prod.split)
  moreover have "list_all known_tok (lx_toks (lex_open_paren s))" "list_all known_tok (lx_toks (lex_great s))"
    "list_all known_tok (lx_toks (lex_fd_redirect k s))" for k
    using assms by (auto simp: lex_open_paren_def lex_great_def lex_process_substitution_def lex_fd_redirect_def Let_def
      split: prod.split)
  moreover have "list_all known_tok (lx_toks (fst (lex_less (s, ps))))"
    using assms by (simp add: lex_less_def lex_process_substitution_def Let_def split: prod.split)
  moreover have "list_all known_tok (lx_toks (push_tok (TOp w) (resolve_heredocs ps (advance 1 s))))" for w
    using assms resolve_heredocs_known [of "advance 1 s" ps] by simp
  ultimately show ?thesis
    using assms by (simp add: lex_step_def split: list.split option.split)
qed

lemma lex_loop_known:
  "list_all known_tok (lx_toks (fst sp)) \<Longrightarrow> list_all known_tok (lx_toks (fst (lex_loop sp)))"
proof (induction sp rule: lex_loop.induct)
  case (1 s pending)
  then show ?case
    using lex_step_known [of s pending] by (cases "lx_rest s = []") (simp_all add: lex_loop.simps [of s])
qed

lemma tokenize_known: "tokenize src = (ts, c, e) \<Longrightarrow> list_all known_tok ts"
  using lex_loop_known [of "(new_lexer src, [])"] resolve_heredocs_known
  by (auto simp: tokenize_def Let_def new_lexer_def split: prod.splits)

text \<open>C38. Parsing any text ends with a syntax tree or with a syntax error. The lexer and the parser loop only
  as long as they consume input, three units of fuel for every token are enough for the recursion of the
  parser, and the branch of \<open>attach_redirects\<close> that panics is not reached, since the lexer emits only the
  operators it knows.
\<close>

theorem parse_always_returns:
  "\<exists>node. parse src = Some (Ok node) \<or> (\<exists>e. parse src = Some (Err e))"
proof -
  obtain ts c e where ts: "tokenize src = (ts, c, e)" by (cases "tokenize src") auto
  obtain s node where s: "parse_program (parser_fuel ts) (new_parser ts) = Some (s, node)" "moves (new_parser ts) s"
    by (rule parse_tokens_returns)
  then have "\<not> ps_panic s"
    using tokenize_known [OF ts] by (auto simp: moves_def new_parser_def)
  then have "\<not> ps_panic (expected ''end of input'' s)"
    by (simp add: expected_def)
  with s \<open>\<not> ps_panic s\<close> ts show ?thesis
    by (auto simp: parse_def parse_tokens_def Let_def split: option.splits)
qed

end
