(* ===== verification/Spec2Isabelle.thy ===== *)
theory Spec2Isabelle
  imports Resources Scheduler Timeline Fd_Table Vfs_Ops Shell_Env Telemetry Display Machine_Life Shell_Parser
begin

text \<open>
  A verification library for shellsim, a deterministic Unix-like machine that runs in one process:
  shell programs and logical processes over an in-memory file system, with virtual time and metered
  resources. The Rust sources are under \<open>src/src/\<close>. The library models the kernel of that machine (what
  every simulated program relies on) and the language front end of its shell.

  \<^bold>\<open>The parts and how they interact.\<close> \<open>Environment\<close> (\<open>interp.rs\<close>) owns one of each: the resource meter,
  the scheduler, the process table, the clock, the descriptor arena, the file system, the display and
  the logs. A process is a record in the process table, a task of the scheduler and a process context with
  its descriptor table and shell variables. A system call (\<open>syscalls.rs\<close>) charges the meter, works on
  the arena or the file system and wakes the tasks that waited for its effect. The shell parses a
  script (\<open>shell.rs\<close>), evaluates arithmetic (\<open>arith.rs\<close>) over its variables (\<open>variables.rs\<close>) and changes
  descriptors around commands (\<open>exec.rs\<close>).

  \<^bold>\<open>How the code is modelled.\<close> A struct is a record, an enum a datatype, a method a function that returns
  the new state, usually beside an \<open>outcome\<close>: \<open>Ok\<close>, \<open>Err\<close> with the error of the source, or \<open>Panic\<close> where the
  Rust code would panic (an \<open>expect\<close>, an index out of range, an arithmetic overflow in a checked
  build). Integers have their width; sums that saturate or are checked do so in the model. A \<open>BTreeMap\<close> is
  an \<open>ordered_map\<close>, which is a list of entries in key order, so that iteration order is part of the model.

  \<^bold>\<open>The theories.\<close>

  \<^item> \<open>Prelude\<close>: integers, outcomes, lists, and the locale \<open>op_system\<close>: a system of operations, each of which
    keeps an invariant, keeps it over every sequence of operations. \<open>Ordered_Map\<close>: \<open>BTreeMap\<close>.
  \<^item> \<open>Resources\<close>: \<open>Resources\<close> of \<open>resources.rs\<close>. The three meters (CPU, memory, output) share the locale
    \<open>meter\<close>: usage stays within its limit, a charge is exact, and exhaustion is final.
  \<^item> \<open>Scheduler\<close>: \<open>Scheduler\<close> of \<open>scheduler.rs\<close>, every operation. The queues agree with the task states in
    every reachable scheduler, failed calls change nothing, a wake-up reaches every waiter it is meant
    for, and a runnable task is dispatched after as many turns as there are tasks before it.
  \<^item> \<open>Process\<close>: the process table, signals and the controlling terminal of \<open>process.rs\<close>. The table is
    well formed in every reachable state, process ids are not reused, and \<open>process_tree\<close> is the set of
    descendants.
  \<^item> \<open>Timeline\<close>: the clock of \<open>clock.rs\<close>. Time does not run backwards, events fire in the order of their
    deadlines and of their registration (\<open>tl_run\<close> reports what fires inside a call, also while a task blocks), and blocking a task ends with its own wake-up.
  \<^item> \<open>Descriptors\<close> and \<open>Fd_Table\<close>: \<open>DescriptorArena\<close> and \<open>FdTable\<close> of \<open>descriptors.rs\<close>. A pipe is a bounded
    FIFO with end-of-file and broken-pipe behaviour, readiness agrees with what a call would do, locks are granted
    exactly without conflict, and the reference counts of the arena equal the references that the
    tables hold (locale \<open>refcounted\<close>).
  \<^item> \<open>Paths\<close>, \<open>Vfs\<close>, \<open>Vfs_Ops\<close>: \<open>vfs.rs\<close>. Paths are normalized to a canonical form; the copy-on-write tree is
    well formed and its counters are exact in every reachable state; no call panics but in the cases that \<open>safe_op\<close> names; and what is written is read.
  \<^item> \<open>Decimal\<close>, \<open>Arith\<close>, \<open>Arith_Grammar\<close>: \<open>arith.rs\<close>. The evaluator works while it parses. It always returns,
    its operators are those of 64-bit integers, skipped operands have no effect, and on text of the grammar it computes
    the value and the assignments that the tree means, over variables that hold integers (locale \<open>integer_store\<close>, interpreted on
    the variables of the shell in \<open>Shell_Env\<close>).
  \<^item> \<open>Variables\<close>, \<open>Shell_Env\<close>: \<open>variables.rs\<close> and the variable functions of \<open>interp.rs\<close> and \<open>expand.rs\<close>.
    The modelled byte counts equal the size of what is stored, and leaving a function restores its locals.
  \<^item> \<open>Telemetry\<close>, \<open>Display\<close>: \<open>telemetry.rs\<close> and \<open>display.rs\<close>. The index of open invocations finds what a scan
    of the window would find; the display reserves the memory of its frame and queue exactly.
  \<^item> \<open>Shell_Ast\<close>, \<open>Shell_Lexer\<close>, \<open>Shell_Parser\<close>: the syntax trees, \<open>Lexer\<close> and \<open>Parser\<close> of \<open>shell.rs\<close>. Parsing
    any text ends in a tree or a syntax error and reaches no \<open>unreachable!\<close>.
  \<^item> \<open>Machine\<close>, \<open>Machine_Inv\<close>, \<open>Machine_Files\<close>: \<open>Environment\<close> and process contexts of \<open>interp.rs\<close>, the descriptor and
    file calls of \<open>syscalls.rs\<close> and the redirection scopes of \<open>exec.rs\<close>. \<open>kernel_ok\<close> joins the invariants of
    the components: the references of all tables are the counts of the arena, every pipe has its
    reservation, and nobody waits for a descriptor that is ready. Every system call keeps it; \<open>pipe\<close> is all or nothing;
    a file that is unlinked while it is open stays readable.
  \<^item> \<open>Lifecycle\<close>: the life of a process in \<open>interp.rs\<close> (\<open>create_child\<close>, \<open>finish_child\<close>, signals with stopping,
    continuing and delivery, shell memory, jobs) and, from \<open>exec.rs\<close>, timed events and the dispatch loop. \<open>Machine_Calls\<close>: the
    calls of \<open>syscalls.rs\<close> on processes, signals, randomness and the process clock.
  \<^item> \<open>Lifecycle_Inv\<close>, \<open>Lifecycle_End\<close>, \<open>Dispatch\<close>: \<open>machine_ok\<close> adds to \<open>kernel_ok\<close> that contexts, tasks and process records
    agree and that the memory in use is exactly what the contexts and pipes reserved. Forking, signals, the end
    of a process and dispatching keep it; the calls on files and descriptors keep it because they are \<open>calm\<close>:
    they wake tasks at most and leave owners and reservations of contexts alone.
  \<^item> \<open>Machine_Steps\<close>, \<open>Machine_Life\<close>: the step relation \<open>machine_step\<close> interleaves, in any order, the calls of the running process
    that the datatype \<open>call\<close> lists with memory that programs reserve and give back, its end, its blocking and yielding, signals
    and timed events from outside, and dispatching. \<open>reachable\<close> starts from a booted machine; \<open>reachable_holding\<close> also
    counts the bytes that programs hold through \<open>reserve_memory\<close>. In every reachable machine the accounts are exact, nobody
    waits for a pipe that is ready, forking and ending do not panic, and dispatching a free processor returns
    without error and with a process to run unless none can run.

  \<^bold>\<open>Bounds and fuel.\<close> The numeric limits are those of the sources. Recursion that is not structural runs on
  fuel where the functions call each other in circles: \<open>Arith.evaluate\<close> and \<open>Shell_Parser.parse\<close>. The
  evaluator takes its fuel as an argument, and for every text and every state of the variables there is an amount from
  which on it returns, always with the same result; the parser gets three units for every token, which
  is proved to be enough. The dispatch loop gets one round for every pending event and one more; every
  round fires an event and none is added, so it always returns. Other loops are defined
  with a termination proof. \<open>realpath\<close> follows the bound on symbolic links that the source counts down.

  \<^bold>\<open>Not modelled.\<close> The executor of \<open>exec.rs\<close> with its continuations (all but redirection scopes, events and dispatch), word expansion beyond parameters,
  the builtins and utilities of \<open>commands/\<close> and \<open>program/\<close>, git, jq and the network fixtures are clients of
  the kernel; most of their code formats output or wraps external crates. The WebAssembly host depends
  on the vendored engine. The harness, the command line, the protocol server, host import and the sandbox
  are input and output of the host. Cancellation tokens and real time belong to the host as well; \<open>dispatch_available\<close> takes as
  \<open>host_pending\<close> whether the host forbids the clock to jump. The steps of \<open>machine_step\<close> leave out opening
  by path, \<open>exec\<close>, sessions of a harness and the network, which are not modelled; what the display, the parser and other parts
  reserve from the meter counts as held by programs. Two modelled operations are not steps either:
  redirection scopes, because \<open>commit_redirects\<close> loses wake-ups (a finding), and \<open>cancel_unstarted_child\<close>, which wakes nobody either. Opening
  a file by path goes through the pseudo file system, which formats text views, and is not modelled; a property
  about an open file starts from its description. The arguments \<open>layout\<close> stand for the sizes
  that the compiler gives to structures. A failed allocation aborts the host process and is outside the model; growing a
  vector past \<open>isize::MAX\<close>, which panics, is modelled for files.
\<close>

end
